(* ===== verification/Prelude.thy ===== *)
theory Prelude
  imports "HOL-Library.Word" "HOL-Library.AList" "HOL-Library.List_Lexorder" "HOL-Library.Char_ord"
    "HOL-Library.Multiset"
begin

text \<open>
  Shared vocabulary of the development: byte strings, results of code that may throw, the
  operations of the JavaScript standard library the components use (ordered maps, string
  splitting and joining, decimal printing, stable sorting, the anchored regular expressions
  on hexadecimal digests), and the two interfaces that several components implement.

  A JavaScript string is represented by its UTF-8 encoding: a \<^typ>\<open>string\<close> whose characters
  are the bytes of that encoding. \<open>TextEncoder.encode\<close> is then \<open>encode_utf8\<close>, and splitting,
  searching and comparing with ASCII delimiters agree with the same operations on UTF-16.
\<close>

unbundle bit_operations_syntax

type_synonym byte = "8 word"
type_synonym bytes = "8 word list"

text \<open>Code that throws: \<open>Inl\<close> carries the message of the \<open>Error\<close>.\<close>

type_synonym 'a result = "string + 'a"

text \<open>A JavaScript \<open>Map\<close>: iteration order is insertion order, \<open>set\<close> on a present key keeps its
  position. \<^const>\<open>AList.update\<close> and \<^const>\<open>AList.delete\<close> behave exactly so.\<close>

type_synonym ('k, 'v) jsmap = "('k \<times> 'v) list"

named_theorems codec_simps
named_theorems jsmap_simps
named_theorems text_simps

definition rbind :: "'e + 'a \<Rightarrow> ('a \<Rightarrow> 'e + 'b) \<Rightarrow> 'e + 'b" where
  "rbind r f = (case r of Inl e \<Rightarrow> Inl e | Inr x \<Rightarrow> f x)"

lemma rbind_simps [simp]:
  "rbind (Inl e) f = Inl e"
  "rbind (Inr x) f = f x"
  by (simp_all add: rbind_def)

lemma rbind_Inr_iff: "rbind r f = Inr y \<longleftrightarrow> (\<exists>x. r = Inr x \<and> f x = Inr y)"
  by (cases r) auto

lemma rbind_cong [fundef_cong]:
  "r = r' \<Longrightarrow> (\<And>x. r' = Inr x \<Longrightarrow> f x = g x) \<Longrightarrow> rbind r f = rbind r' g"
  by (cases r') auto

text \<open>\<open>Number.isSafeInteger\<close> and \<open>Number.MAX_SAFE_INTEGER\<close> on integral numbers.\<close>

definition max_safe_integer :: int where
  "max_safe_integer = 9007199254740991"

definition is_safe_integer :: "int \<Rightarrow> bool" where
  "is_safe_integer n \<longleftrightarrow> - max_safe_integer \<le> n \<and> n \<le> max_safe_integer"

text \<open>Mapping a fallible function over an array: the first failure wins.\<close>

fun map_result :: "('a \<Rightarrow> 'e + 'b) \<Rightarrow> 'a list \<Rightarrow> 'e + 'b list" where
  "map_result f [] = Inr []"
| "map_result f (x # xs) = rbind (f x) (\<lambda>y. rbind (map_result f xs) (\<lambda>ys. Inr (y # ys)))"

lemma map_result_Inr_iff:
  "map_result f xs = Inr ys \<longleftrightarrow> list_all2 (\<lambda>x y. f x = Inr y) xs ys"
  by (induction xs arbitrary: ys) (auto simp: rbind_Inr_iff list_all2_Cons1)

lemma map_result_map: "\<forall>x \<in> set xs. f x = Inr (g x) \<Longrightarrow> map_result f xs = Inr (map g xs)"
  by (simp add: map_result_Inr_iff list_all2_conv_all_nth)

text \<open>A loop whose body may throw, over the values of its variable.\<close>

fun fold_result :: "('a \<Rightarrow> 's \<Rightarrow> 'e + 's) \<Rightarrow> 'a list \<Rightarrow> 's \<Rightarrow> 'e + 's" where
  "fold_result f [] s = Inr s"
| "fold_result f (x # xs) s = rbind (f x s) (fold_result f xs)"

lemma fold_result_append:
  "fold_result f (xs @ ys) s = rbind (fold_result f xs s) (fold_result f ys)"
proof (induction xs arbitrary: s)
  case (Cons x xs)
  then show ?case by (cases "f x s") simp_all
qed simp

lemma fold_result_Inr:
  "(\<And>x s. x \<in> set xs \<Longrightarrow> f x s = Inr (g x s)) \<Longrightarrow> fold_result f xs s = Inr (fold g xs s)"
  by (induction xs arbitrary: s) auto

lemma fold_result_inv:
  assumes "fold_result f xs s = Inr t" and "P s"
    and "\<And>x s t. x \<in> set xs \<Longrightarrow> P s \<Longrightarrow> f x s = Inr t \<Longrightarrow> P t"
  shows "P t"
  using assms by (induction xs arbitrary: s) (auto simp: rbind_Inr_iff)

section \<open>Strings\<close>

definition encode_utf8 :: "string \<Rightarrow> bytes" where
  "encode_utf8 s = map of_char s"

lemma length_encode_utf8 [simp]: "length (encode_utf8 s) = length s"
  by (simp add: encode_utf8_def)

lemma encode_utf8_append [simp]: "encode_utf8 (s @ t) = encode_utf8 s @ encode_utf8 t"
  by (simp add: encode_utf8_def)

lemma unat_of_nat_byte: "n < 256 \<Longrightarrow> unat (of_nat n :: 8 word) = n"
  by (simp add: unat_of_nat)

lemma unat_of_char [simp]: "unat (of_char c :: 8 word) = of_char c"
  using unat_of_nat_byte [of "of_char c"] by (simp add: of_nat_of_char)

lemma of_char_word8_inject [simp]: "(of_char c :: 8 word) = of_char d \<longleftrightarrow> c = d"
  by (metis of_char_eq_iff unat_of_char)

lemma encode_utf8_inject [simp]: "encode_utf8 s = encode_utf8 t \<longleftrightarrow> s = t"
  by (auto simp: encode_utf8_def inj_map_eq_map inj_def)

text \<open>\<open>s.split(c)\<close> for a one-character separator, and \<open>xs.join(sep)\<close>.\<close>

fun split_on :: "char \<Rightarrow> string \<Rightarrow> string list" where
  "split_on c [] = [[]]"
| "split_on c (x # xs) =
     (if x = c then [] # split_on c xs
      else (case split_on c xs of [] \<Rightarrow> [[x]] | y # ys \<Rightarrow> (x # y) # ys))"

fun join_with :: "string \<Rightarrow> string list \<Rightarrow> string" where
  "join_with sep [] = []"
| "join_with sep [x] = x"
| "join_with sep (x # y # xs) = x @ sep @ join_with sep (y # xs)"

lemma split_on_not_Nil [simp]: "split_on c s \<noteq> []"
  by (induction s) (auto split: list.splits)

lemma split_on_no_sep [text_simps]: "c \<notin> set s \<Longrightarrow> split_on c s = [s]"
  by (induction s) auto

lemma split_on_append [text_simps]: "c \<notin> set s \<Longrightarrow> split_on c (s @ c # t) = s # split_on c t"
  by (induction s) auto

lemma split_on_elem: "x \<in> set (split_on c s) \<Longrightarrow> c \<notin> set x"
proof (induction s arbitrary: x)
  case (Cons a s)
  obtain y ys where ys: "split_on c s = y # ys"
    by (cases "split_on c s") auto
  then have "c \<notin> set z" if "z \<in> set (y # ys)" for z
    using Cons.IH that by simp
  with Cons.prems ys show ?case
    by (auto split: if_splits)
qed simp

lemma join_with_Cons: "xs \<noteq> [] \<Longrightarrow> join_with sep (x # xs) = x @ sep @ join_with sep xs"
  by (cases xs) auto

lemma join_split [simp]: "join_with [c] (split_on c s) = s"
proof (induction s)
  case (Cons x s)
  then show ?case
    by (cases "split_on c s"; cases "tl (split_on c s)") (auto simp: join_with_Cons)
qed simp

lemma split_join:
  "xs \<noteq> [] \<Longrightarrow> \<forall>x \<in> set xs. c \<notin> set x \<Longrightarrow> split_on c (join_with [c] xs) = xs"
proof (induction xs)
  case (Cons x xs)
  then show ?case
    by (cases "xs = []") (auto simp: join_with_Cons text_simps)
qed simp

lemma split_join_append:
  "\<forall>x \<in> set xs. c \<notin> set x \<Longrightarrow>
   split_on c (join_with [c] (xs @ [t])) = xs @ split_on c t"
  by (induction xs) (auto simp: join_with_Cons text_simps)

text \<open>\<open>s.startsWith(p)\<close>, \<open>s.endsWith(p)\<close> and \<open>s.trim()\<close> (ASCII white space).\<close>

definition starts_with :: "'a list \<Rightarrow> 'a list \<Rightarrow> bool" where
  "starts_with p s \<longleftrightarrow> take (length p) s = p"

definition ends_with :: "'a list \<Rightarrow> 'a list \<Rightarrow> bool" where
  "ends_with p s \<longleftrightarrow> length p \<le> length s \<and> drop (length s - length p) s = p"

lemma starts_with_append [simp]: "starts_with p (p @ s)"
  by (simp add: starts_with_def)

lemma starts_with_iff: "starts_with p s \<longleftrightarrow> (\<exists>t. s = p @ t)"
  by (metis append_take_drop_id starts_with_append starts_with_def)

lemma ends_with_append [simp]: "ends_with p (s @ p)"
  by (simp add: ends_with_def)

lemma ends_with_iff: "ends_with p s \<longleftrightarrow> (\<exists>t. s = t @ p)"
  by (metis append_take_drop_id ends_with_append ends_with_def)

definition is_space :: "char \<Rightarrow> bool" where
  "is_space c \<longleftrightarrow> c = CHR '' '' \<or> (9 \<le> (of_char c :: nat) \<and> (of_char c :: nat) \<le> 13)"

definition trim :: "string \<Rightarrow> string" where
  "trim s = rev (dropWhile is_space (rev (dropWhile is_space s)))"

lemma dropWhile_id: "s = [] \<or> \<not> P (hd s) \<Longrightarrow> dropWhile P s = s"
  by (cases s) auto

lemma trim_id: "s = [] \<or> (\<not> is_space (hd s) \<and> \<not> is_space (last s)) \<Longrightarrow> trim s = s"
  by (auto simp: trim_def dropWhile_id hd_rev)

lemma trim_no_space: "\<forall>c \<in> set s. \<not> is_space c \<Longrightarrow> trim s = s"
  by (rule trim_id) (cases s; auto)

section \<open>Decimal numerals\<close>

text \<open>Template interpolation of a non-negative integer, and \<open>Number(s)\<close> on a string of digits.\<close>

definition digit_char :: "nat \<Rightarrow> char" where
  "digit_char d = char_of (48 + d)"

definition is_digit :: "char \<Rightarrow> bool" where
  "is_digit c \<longleftrightarrow> 48 \<le> (of_char c :: nat) \<and> (of_char c :: nat) \<le> 57"

fun show_nat :: "nat \<Rightarrow> string" where
  "show_nat n = (if n < 10 then [digit_char n] else show_nat (n div 10) @ [digit_char (n mod 10)])"

declare show_nat.simps [simp del]

definition read_nat :: "string \<Rightarrow> nat" where
  "read_nat s = foldl (\<lambda>a c. 10 * a + (of_char c - 48)) 0 s"

lemma of_digit_char: "d < 10 \<Longrightarrow> (of_char (digit_char d) :: nat) = 48 + d"
  by (simp add: digit_char_def)

lemma is_digit_digit_char [simp]: "d < 10 \<Longrightarrow> is_digit (digit_char d)"
  by (simp add: is_digit_def of_digit_char)

lemma show_nat_not_Nil [simp]: "show_nat n \<noteq> []"
  by (subst show_nat.simps) simp

lemma show_nat_digits: "c \<in> set (show_nat n) \<Longrightarrow> is_digit c"
proof (induction n rule: show_nat.induct)
  case (1 n)
  then show ?case
    by (cases "n < 10") (auto simp: show_nat.simps [of n])
qed

lemma read_show_nat [simp]: "read_nat (show_nat n) = n"
proof (induction n rule: show_nat.induct)
  case (1 n)
  then show ?case
    by (cases "n < 10") (auto simp: show_nat.simps [of n] read_nat_def of_digit_char)
qed

lemma digit_char_zero: "d < 10 \<Longrightarrow> digit_char d = CHR ''0'' \<longleftrightarrow> d = 0"
proof
  assume "d < 10" "digit_char d = CHR ''0''"
  then have "48 + d = (of_char (CHR ''0'') :: nat)"
    using of_digit_char by metis
  then show "d = 0" by simp
next
  assume "d = 0"
  then have "(of_char (digit_char d) :: nat) = of_char (CHR ''0'')"
    by (simp add: of_digit_char)
  then show "digit_char d = CHR ''0''" by (rule of_char_eqI)
qed

lemma hd_show_nat: "0 < n \<Longrightarrow> hd (show_nat n) \<noteq> CHR ''0''"
proof (induction n rule: show_nat.induct)
  case (1 n)
  show ?case
  proof (cases "n < 10")
    case True
    with 1 show ?thesis by (simp add: show_nat.simps [of n] digit_char_zero)
  next
    case False
    with 1 have "hd (show_nat (n div 10)) \<noteq> CHR ''0''" by simp
    with False show ?thesis by (simp add: show_nat.simps [of n])
  qed
qed

lemma show_nat_inject [simp]: "show_nat m = show_nat n \<longleftrightarrow> m = n"
  by (metis read_show_nat)

section \<open>Digests in text\<close>

text \<open>The anchored patterns \<open>/^[0-9a-f]{n}$/\<close> and \<open>/^sha256:[0-9a-f]{64}$/\<close>.\<close>

definition is_lower_hex :: "char \<Rightarrow> bool" where
  "is_lower_hex c \<longleftrightarrow> is_digit c \<or> (97 \<le> (of_char c :: nat) \<and> (of_char c :: nat) \<le> 102)"

definition lower_hex_string :: "nat \<Rightarrow> string \<Rightarrow> bool" where
  "lower_hex_string n s \<longleftrightarrow> length s = n \<and> list_all is_lower_hex s"

definition sha256_prefix :: string where
  "sha256_prefix = ''sha256:''"

definition is_sha256_ref :: "string \<Rightarrow> bool" where
  "is_sha256_ref s \<longleftrightarrow> starts_with sha256_prefix s \<and> lower_hex_string 64 (drop 7 s)"

lemma is_sha256_ref_prefix: "is_sha256_ref (sha256_prefix @ h) \<longleftrightarrow> lower_hex_string 64 h"
  by (simp add: is_sha256_ref_def sha256_prefix_def starts_with_def)

section \<open>Sorting with a comparator\<close>

text \<open>\<open>Array.prototype.sort\<close> with a comparison function is stable; insertion from the right is
  the reference definition of a stable sort.\<close>

fun insort_by :: "('a \<Rightarrow> 'a \<Rightarrow> int) \<Rightarrow> 'a \<Rightarrow> 'a list \<Rightarrow> 'a list" where
  "insort_by cmp x [] = [x]"
| "insort_by cmp x (y # ys) = (if cmp x y \<le> 0 then x # y # ys else y # insort_by cmp x ys)"

definition sort_by :: "('a \<Rightarrow> 'a \<Rightarrow> int) \<Rightarrow> 'a list \<Rightarrow> 'a list" where
  "sort_by cmp xs = foldr (insort_by cmp) xs []"

lemma mset_insort_by: "mset (insort_by cmp x xs) = add_mset x (mset xs)"
  by (induction xs) auto

lemma sort_by_simps [simp]:
  "sort_by cmp [] = []"
  "sort_by cmp (x # xs) = insort_by cmp x (sort_by cmp xs)"
  by (simp_all add: sort_by_def)

lemma mset_sort_by [simp]: "mset (sort_by cmp xs) = mset xs"
  by (induction xs) (auto simp: mset_insort_by)

lemma set_sort_by [simp]: "set (sort_by cmp xs) = set xs"
  by (metis mset_sort_by set_mset_mset)

lemma length_sort_by [simp]: "length (sort_by cmp xs) = length xs"
  by (metis mset_sort_by size_mset)

lemma distinct_sort_by [simp]: "distinct (sort_by cmp xs) \<longleftrightarrow> distinct xs"
  by (rule mset_eq_imp_distinct_iff) simp

lemma sorted_insort_by:
  assumes "\<And>a b. cmp a b \<le> 0 \<Longrightarrow> R a b" "\<And>a b. 0 < cmp a b \<Longrightarrow> R b a" "\<And>a b c. R a b \<Longrightarrow> R b c \<Longrightarrow> R a c"
    and "sorted_wrt R xs"
  shows "sorted_wrt R (insort_by cmp x xs)"
  using assms(4)
proof (induction xs)
  case (Cons y ys)
  show ?case
  proof (cases "cmp x y \<le> 0")
    case True
    with assms(1) have "R x y" by blast
    with Cons.prems assms(3) True show ?thesis by auto
  next
    case False
    with assms(2) have "R y x" by simp
    moreover have "set (insort_by cmp x ys) = insert x (set ys)"
      using mset_insort_by [of cmp x ys] by (metis set_mset_add_mset_insert set_mset_mset)
    ultimately show ?thesis using False Cons by simp
  qed
qed simp

lemma sorted_sort_by:
  assumes "\<And>a b. cmp a b \<le> 0 \<Longrightarrow> R a b" "\<And>a b. 0 < cmp a b \<Longrightarrow> R b a" "\<And>a b c. R a b \<Longrightarrow> R b c \<Longrightarrow> R a c"
  shows "sorted_wrt R (sort_by cmp xs)"
  using assms by (induction xs) (auto intro: sorted_insort_by [where cmp = cmp and R = R])

text \<open>The comparators \<open>(a, b) => a < b ? -1 : a > b ? 1 : 0\<close> and \<open>a || b\<close> of two comparators.\<close>

definition cmp_ord :: "'a :: linorder \<Rightarrow> 'a \<Rightarrow> int" where
  "cmp_ord a b = (if a < b then - 1 else if a > b then 1 else 0)"

definition cmp_or :: "int \<Rightarrow> int \<Rightarrow> int" where
  "cmp_or a b = (if a \<noteq> 0 then a else b)"

text \<open>
  The order of strings in JavaScript compares UTF-16 code units. On UTF-8 it is the order of bytes
  with the lead bytes of \<open>U+E000\<close> to \<open>U+FFFF\<close> above those of the supplementary planes, which
  UTF-16 writes with surrogates.
\<close>

definition utf16_key :: "string \<Rightarrow> nat list" where
  "utf16_key s = map (\<lambda>c. if of_char c \<in> {0xEE :: nat, 0xEF} then of_char c + 256 else of_char c) s"

definition cmp_string :: "string \<Rightarrow> string \<Rightarrow> int" where
  "cmp_string a b = cmp_ord (utf16_key a) (utf16_key b)"

section \<open>Ordered maps\<close>

locale ordered_map =
  fixes get :: "'m \<Rightarrow> 'k \<Rightarrow> 'v option"
    and put :: "'k \<Rightarrow> 'v \<Rightarrow> 'm \<Rightarrow> 'm"
    and del :: "'k \<Rightarrow> 'm \<Rightarrow> 'm"
    and keys :: "'m \<Rightarrow> 'k list"
  assumes get_put: "get (put k v m) = (get m)(k \<mapsto> v)"
    and get_del: "get (del k m) = (get m)(k := None)"
    and keys_get: "set (keys m) = dom (get m)"
    and keys_put: "keys (put k v m) = (if k \<in> set (keys m) then keys m else keys m @ [k])"
    and keys_del: "keys (del k m) = filter (\<lambda>x. x \<noteq> k) (keys m)"
begin

lemma get_put_same: "get (put k v m) k = Some v"
  by (simp add: get_put)

lemma get_put_other: "k \<noteq> l \<Longrightarrow> get (put k v m) l = get m l"
  by (simp add: get_put)

lemma distinct_put: "distinct (keys m) \<Longrightarrow> distinct (keys (put k v m))"
  by (simp add: keys_put)

lemma distinct_del: "distinct (keys m) \<Longrightarrow> distinct (keys (del k m))"
  by (simp add: keys_del)

lemma length_put: "length (keys (put k v m)) \<le> Suc (length (keys m))"
  by (simp add: keys_put)

lemma length_put_old: "get m k \<noteq> None \<Longrightarrow> length (keys (put k v m)) = length (keys m)"
  using keys_get [of m] by (auto simp: keys_put)

lemma length_put_new: "get m k = None \<Longrightarrow> length (keys (put k v m)) = Suc (length (keys m))"
  using keys_get [of m] by (auto simp: keys_put)

end

lemma set_update_subset: "set (AList.update k v m) \<subseteq> insert (k, v) (set m)"
  by (induction m) auto

lemma keys_update:
  "map fst (AList.update k v m) = (if k \<in> fst ` set m then map fst m else map fst m @ [k])"
  by (induction m) auto

lemma keys_delete: "map fst (AList.delete k m) = filter (\<lambda>x. x \<noteq> k) (map fst m)"
  by (induction m) auto

interpretation jsmap: ordered_map map_of AList.update AList.delete "map fst"
  by unfold_locales
    (auto simp: update_conv' delete_conv' keys_update keys_delete dom_map_of_conv_image_fst)

lemmas jsmap_laws [jsmap_simps] =
  jsmap.get_put jsmap.get_del jsmap.keys_put jsmap.keys_del

lemma length_update_le [simp]: "length (AList.update k v m) \<le> Suc (length m)"
  using jsmap.length_put [of k v m] by simp

section \<open>State machines\<close>

text \<open>
  A component with state is an initial state and a step per operation; a property of its
  state that the initial state has and every step keeps holds after every run.
\<close>

locale state_machine =
  fixes init :: "'s \<Rightarrow> bool"
    and step :: "'e \<Rightarrow> 's \<Rightarrow> 's"
    and inv :: "'s \<Rightarrow> bool"
  assumes init_inv: "init s \<Longrightarrow> inv s"
    and step_inv: "inv s \<Longrightarrow> inv (step e s)"
begin

lemma fold_inv: "inv s \<Longrightarrow> inv (fold step es s)"
  by (induction es arbitrary: s) (auto intro: step_inv)

lemma run_inv: "init s \<Longrightarrow> inv (fold step es s)"
  by (rule fold_inv) (rule init_inv)

end

text \<open>A measure that no step lets fall never falls along a run.\<close>

locale monotone_machine =
  fixes step :: "'e \<Rightarrow> 's \<Rightarrow> 's"
    and le :: "'s \<Rightarrow> 's \<Rightarrow> bool"
  assumes le_refl: "le s s"
    and le_trans: "le s t \<Longrightarrow> le t u \<Longrightarrow> le s u"
    and step_le: "le s (step e s)"
begin

lemma run_le: "le s (fold step es s)"
  by (induction es arbitrary: s) (auto intro: le_refl le_trans step_le)

lemma run_le_append: "le (fold step es s) (fold step (es @ fs) s)"
  by (simp add: run_le)

end

end
