(* ===== verification/Encoding.thy ===== *)
theory Encoding
  imports Prelude
begin

text \<open>
  Text encodings of byte strings: \<open>base64urlEncode\<close> and \<open>base64urlDecode\<close>
  (\<open>packages/mcp/src/base64url.ts\<close>), \<open>hexEncode\<close> and \<open>hexDecode\<close>
  (\<open>packages/mcp/src/hash.ts\<close>). The bit operations of the source act on 32-bit integers; every
  intermediate value here is below 256, so the model keeps them at the width of the byte array.
\<close>

section \<open>Base64url\<close>

definition CHARS :: string where
  "CHARS = ''ABCDEFGHIJKLMNOPQRSTUVWXYZabcdefghijklmnopqrstuvwxyz0123456789-_''"

definition b64_char :: "byte \<Rightarrow> char" where
  "b64_char w = CHARS ! unat w"

text \<open>The four sextets of a group of three bytes.\<close>

definition sextet0 :: "byte \<Rightarrow> byte" where
  "sextet0 b0 = drop_bit 2 b0"

definition sextet1 :: "byte \<Rightarrow> byte \<Rightarrow> byte" where
  "sextet1 b0 b1 = push_bit 4 (b0 AND 3) OR drop_bit 4 b1"

definition sextet2 :: "byte \<Rightarrow> byte \<Rightarrow> byte" where
  "sextet2 b1 b2 = push_bit 2 (b1 AND 15) OR drop_bit 6 b2"

definition sextet3 :: "byte \<Rightarrow> byte" where
  "sextet3 b2 = b2 AND 63"

fun base64urlEncode :: "bytes \<Rightarrow> string" where
  "base64urlEncode [] = []"
| "base64urlEncode [b0] = [b64_char (sextet0 b0), b64_char (sextet1 b0 0)]"
| "base64urlEncode [b0, b1] =
     [b64_char (sextet0 b0), b64_char (sextet1 b0 b1), b64_char (sextet2 b1 0)]"
| "base64urlEncode (b0 # b1 # b2 # bs) =
     [b64_char (sextet0 b0), b64_char (sextet1 b0 b1), b64_char (sextet2 b1 b2),
      b64_char (sextet3 b2)] @ base64urlEncode bs"

definition is_b64url_char :: "char \<Rightarrow> bool" where
  "is_b64url_char c \<longleftrightarrow> c \<in> set CHARS"

text \<open>The lookup table is zero-initialised and filled from \<open>CHARS\<close>.\<close>

fun index_from :: "nat \<Rightarrow> 'a list \<Rightarrow> 'a \<Rightarrow> nat" where
  "index_from i [] x = 0"
| "index_from i (y # ys) x = (if y = x then i else index_from (Suc i) ys x)"

definition b64_lookup :: "char \<Rightarrow> byte" where
  "b64_lookup c = of_nat (index_from 0 CHARS c)"

definition decode_group :: "byte \<Rightarrow> byte \<Rightarrow> byte \<Rightarrow> byte \<Rightarrow> bytes" where
  "decode_group c0 c1 c2 c3 =
     [push_bit 2 c0 OR drop_bit 4 c1, push_bit 4 (c1 AND 15) OR drop_bit 2 c2,
      push_bit 6 (c2 AND 3) OR c3]"

fun decode_groups :: "string \<Rightarrow> bytes" where
  "decode_groups [] = []"
| "decode_groups [c0] = decode_group (b64_lookup c0) 0 0 0"
| "decode_groups [c0, c1] = decode_group (b64_lookup c0) (b64_lookup c1) 0 0"
| "decode_groups [c0, c1, c2] = decode_group (b64_lookup c0) (b64_lookup c1) (b64_lookup c2) 0"
| "decode_groups (c0 # c1 # c2 # c3 # cs) =
     decode_group (b64_lookup c0) (b64_lookup c1) (b64_lookup c2) (b64_lookup c3)
     @ decode_groups cs"

definition b64_out_len :: "nat \<Rightarrow> nat" where
  "b64_out_len n =
     (let rem = n mod 4; paddedLen = (if rem = 0 then n else n + (4 - rem))
      in paddedLen * 3 div 4 - (if rem = 2 then 2 else if rem = 3 then 1 else 0))"

definition base64urlDecode :: "string \<Rightarrow> bytes result" where
  "base64urlDecode s =
     (if \<not> list_all is_b64url_char s then Inl ''base64urlDecode: invalid base64url characters''
      else if length s mod 4 = 1 then Inl ''base64urlDecode: invalid base64url length''
      else Inr (take (b64_out_len (length s)) (decode_groups s)))"

section \<open>Hexadecimal\<close>

definition HEX :: string where
  "HEX = ''0123456789abcdef''"

definition hexEncode :: "bytes \<Rightarrow> string" where
  "hexEncode bs = concat (map (\<lambda>b. [HEX ! (unat b div 16), HEX ! (unat b mod 16)]) bs)"

definition is_hex :: "char \<Rightarrow> bool" where
  "is_hex c \<longleftrightarrow> is_lower_hex c \<or> (65 \<le> (of_char c :: nat) \<and> (of_char c :: nat) \<le> 70)"

definition hex_value :: "char \<Rightarrow> nat" where
  "hex_value c =
     (let n = of_char c in if n \<le> 57 then n - 48 else if n \<le> 70 then n - 55 else n - 87)"

fun hex_pairs :: "string \<Rightarrow> bytes" where
  "hex_pairs (h # l # s) = of_nat (16 * hex_value h + hex_value l) # hex_pairs s"
| "hex_pairs _ = []"

definition hexDecode :: "string \<Rightarrow> bytes result" where
  "hexDecode s =
     (if length s mod 2 \<noteq> 0 \<or> \<not> list_all is_hex s then Inl ''hexDecode: invalid hex string''
      else Inr (hex_pairs s))"

section \<open>Round trips\<close>

lemma CHARS_index: "i < 64 \<Longrightarrow> index_from 0 CHARS (CHARS ! i) = i"
proof -
  have "list_all (\<lambda>i. index_from 0 CHARS (CHARS ! i) = i) [0..<64]"
    by (simp add: CHARS_def upt_rec)
  then show "i < 64 \<Longrightarrow> index_from 0 CHARS (CHARS ! i) = i"
    by (auto simp: list_all_iff)
qed

lemma length_CHARS: "length CHARS = 64"
  by (simp add: CHARS_def)

lemma b64_lookup_char: "unat w < 64 \<Longrightarrow> b64_lookup (b64_char w) = w"
  by (simp add: b64_lookup_def b64_char_def CHARS_index)

lemma is_b64url_b64_char: "unat w < 64 \<Longrightarrow> is_b64url_char (b64_char w)"
  by (auto simp: is_b64url_char_def b64_char_def length_CHARS intro: nth_mem)

lemma and_masks:
  "(w :: 8 word) AND 3 = take_bit 2 w" "w AND 15 = take_bit 4 w" "w AND 63 = take_bit 6 w"
  by (simp_all add: take_bit_eq_mask mask_eq_exp_minus_1)

lemma unat_sextet: "take_bit 6 w = (w :: 8 word) \<Longrightarrow> unat w < 64"
proof -
  assume "take_bit 6 w = w"
  then have "unat w = take_bit 6 (unat w)"
    by (metis unsigned_take_bit_eq)
  also have "\<dots> < 2 ^ 6"
    by (rule take_bit_nat_less_exp)
  finally show ?thesis by simp
qed

lemma sextet_bounds:
  "unat (sextet0 b0) < 64" "unat (sextet1 b0 b1) < 64"
  "unat (sextet2 b1 b2) < 64" "unat (sextet3 b2) < 64"
  unfolding sextet0_def sextet1_def sextet2_def sextet3_def and_masks
  by (rule unat_sextet, rule bit_word_eqI, force simp: bit_simps dest: bit_imp_le_length)+

lemmas sextet_codec [codec_simps] =
  sextet_bounds [THEN b64_lookup_char] sextet_bounds [THEN is_b64url_b64_char]

lemma decode_encode_group [codec_simps]:
  "decode_group (sextet0 b0) (sextet1 b0 b1) (sextet2 b1 b2) (sextet3 b2) = [b0, b1, b2]"
proof -
  have "2 \<le> n \<Longrightarrow> Suc (Suc (n - 2)) = n" for n by simp
  then show ?thesis
    unfolding decode_group_def sextet0_def sextet1_def sextet2_def sextet3_def and_masks
    by (auto intro!: bit_word_eqI simp: bit_simps)
qed

lemma base64urlEncode_chars: "list_all is_b64url_char (base64urlEncode bs)"
  by (induction bs rule: base64urlEncode.induct) (simp_all add: codec_simps)

lemma sextet_zero: "sextet3 0 = 0" "sextet2 0 0 = 0"
  by (simp_all add: sextet3_def sextet2_def)

lemma b64_out_len_small [simp]:
  "b64_out_len 0 = 0" "b64_out_len (Suc (Suc 0)) = 1" "b64_out_len (Suc (Suc (Suc 0))) = 2"
  by (simp_all add: b64_out_len_def)

lemma b64_out_len_step [simp]: "b64_out_len (Suc (Suc (Suc (Suc n)))) = Suc (Suc (Suc (b64_out_len n)))"
proof -
  have "Suc (Suc (Suc (Suc n))) mod 4 = n mod 4" by simp
  moreover have "n mod 4 < 4" by simp
  moreover have "n mod 4 \<noteq> 0 \<Longrightarrow> 0 < n" by (cases n) auto
  ultimately show ?thesis
    unfolding b64_out_len_def Let_def by auto
qed

lemma decode_groups_encode:
  "take (b64_out_len (length (base64urlEncode bs))) (decode_groups (base64urlEncode bs)) = bs"
proof (induction bs rule: base64urlEncode.induct)
  case (2 b0)
  show ?case
    using decode_encode_group [of b0 0 0] by (simp add: codec_simps sextet_zero decode_group_def)
next
  case (3 b0 b1)
  show ?case
    using decode_encode_group [of b0 b1 0] by (simp add: codec_simps sextet_zero decode_group_def)
qed (simp_all add: codec_simps)

lemma length_base64urlEncode_mod: "length (base64urlEncode bs) mod 4 \<noteq> Suc 0"
  by (induction bs rule: base64urlEncode.induct) simp_all

lemma base64url_roundtrip [simp]: "base64urlDecode (base64urlEncode bs) = Inr bs"
  by (simp add: base64urlDecode_def base64urlEncode_chars length_base64urlEncode_mod
      decode_groups_encode)

lemma base64urlEncode_inject [simp]: "base64urlEncode bs = base64urlEncode cs \<longleftrightarrow> bs = cs"
  by (metis base64url_roundtrip sum.inject(2))

lemma length_base64urlEncode_32: "length bs = 32 \<Longrightarrow> length (base64urlEncode bs) = 43"
proof -
  have "length (base64urlEncode bs) =
      4 * (length bs div 3) + (if length bs mod 3 = 0 then 0 else Suc (length bs mod 3))"
    by (induction bs rule: base64urlEncode.induct) (simp_all add: div_add_self1)
  then show "length bs = 32 \<Longrightarrow> length (base64urlEncode bs) = 43" by simp
qed

lemma base64urlEncode_eq_Nil [simp]: "base64urlEncode bs = [] \<longleftrightarrow> bs = []"
  by (cases bs rule: base64urlEncode.cases) simp_all

lemma dot_not_b64url: "\<not> is_b64url_char (CHR ''.'')" "\<not> is_b64url_char (CHR '' '')"
  "\<not> is_b64url_char (CHR '','')" "\<not> is_b64url_char (CHR '';'')"
  by (simp_all add: is_b64url_char_def CHARS_def)

lemma HEX_digits:
  "d < 16 \<Longrightarrow> is_lower_hex (HEX ! d) \<and> hex_value (HEX ! d) = d"
proof -
  have "list_all (\<lambda>d. is_lower_hex (HEX ! d) \<and> hex_value (HEX ! d) = d) [0..<16]"
    by (simp add: HEX_def upt_rec is_lower_hex_def is_digit_def hex_value_def)
  then show "d < 16 \<Longrightarrow> is_lower_hex (HEX ! d) \<and> hex_value (HEX ! d) = d"
    by (auto simp: list_all_iff)
qed

lemma unat_byte_digits: "unat (b :: 8 word) div 16 < 16" "unat b mod 16 < 16"
  using unsigned_less [of b, where ?'a = nat] by auto

lemmas byte_hex_digits [codec_simps] = unat_byte_digits [THEN HEX_digits]

lemma hexEncode_simps [simp]:
  "hexEncode [] = []"
  "hexEncode (b # bs) = HEX ! (unat b div 16) # HEX ! (unat b mod 16) # hexEncode bs"
  by (simp_all add: hexEncode_def)

lemma length_hexEncode [simp]: "length (hexEncode bs) = 2 * length bs"
  by (induction bs) auto

lemma hexEncode_lower_hex: "list_all is_lower_hex (hexEncode bs)"
  by (induction bs) (simp_all add: codec_simps)

lemma lower_hex_string_hexEncode: "lower_hex_string (2 * length bs) (hexEncode bs)"
  by (simp add: lower_hex_string_def hexEncode_lower_hex)

lemma is_hex_if_lower: "list_all is_lower_hex s \<Longrightarrow> list_all is_hex s"
  by (auto simp: list_all_iff is_hex_def)

lemma hex_pairs_hexEncode: "hex_pairs (hexEncode bs) = bs"
  by (induction bs) (simp_all add: codec_simps)

lemma hex_roundtrip [simp]: "hexDecode (hexEncode bs) = Inr bs"
  by (simp add: hexDecode_def hex_pairs_hexEncode is_hex_if_lower hexEncode_lower_hex)

lemma hexEncode_inject [simp]: "hexEncode bs = hexEncode cs \<longleftrightarrow> bs = cs"
  by (metis hex_roundtrip sum.inject(2))

lemma length_hex_pairs: "length (hex_pairs s) = length s div 2"
  by (induction s rule: hex_pairs.induct) simp_all

lemma hexDecode_length: "hexDecode s = Inr bs \<Longrightarrow> length s = 2 * length bs"
  by (auto simp: hexDecode_def length_hex_pairs split: if_splits)

text \<open>On lower-case input decoding loses nothing: encoding the bytes gives the text back.\<close>

lemma HEX_hex_value: "is_lower_hex c \<Longrightarrow> HEX ! hex_value c = c \<and> hex_value c < 16"
proof -
  assume "is_lower_hex c"
  then have lt: "hex_value c < 16"
    by (auto simp: is_lower_hex_def is_digit_def hex_value_def Let_def)
  have codes: "list_all (\<lambda>d. (of_char (HEX ! d) :: nat) = (if d < 10 then 48 + d else 87 + d)) [0..<16]"
    by (simp add: HEX_def upt_rec)
  from \<open>is_lower_hex c\<close> have "(of_char c :: nat) =
      (if hex_value c < 10 then 48 + hex_value c else 87 + hex_value c)"
    by (auto simp: is_lower_hex_def is_digit_def hex_value_def Let_def)
  with codes lt have "(of_char (HEX ! hex_value c) :: nat) = of_char c"
    by (simp add: list_all_iff)
  with lt show ?thesis by (simp add: of_char_eq_iff)
qed

lemma hexEncode_hex_pairs:
  "even (length s) \<Longrightarrow> list_all is_lower_hex s \<Longrightarrow> hexEncode (hex_pairs s) = s"
proof (induction s rule: hex_pairs.induct)
  case (1 h l s)
  have hl: "hex_value h < 16" "hex_value l < 16" "HEX ! hex_value h = h" "HEX ! hex_value l = l"
    using 1 HEX_hex_value by auto
  then have "unat (of_nat (16 * hex_value h + hex_value l) :: 8 word)
      = 16 * hex_value h + hex_value l"
    by (intro unat_of_nat_byte) linarith
  moreover have "(16 * hex_value h + hex_value l) div 16 = hex_value h"
    using hl by simp
  moreover have "(16 * hex_value h + hex_value l) mod 16 = hex_value l"
    using hl by simp
  ultimately show ?case
    using 1 hl by (simp only: hex_pairs.simps hexEncode_simps) simp
qed simp_all

end
