(* ===== verification/Merkle.thy ===== *)
theory Merkle
  imports Encoding
begin

text \<open>
  The RFC 6962 Merkle tree of \<open>packages/mcp/src/merkle.ts\<close>. SHA-256 comes from a third-party
  package, so every definition takes it as its argument \<open>sha\<close>; the theorems that need it assume
  what the algorithm's specification documents, that a digest has 32 bytes. Where a theorem rests
  on collision resistance, the assumption is that \<open>sha\<close> has no collision among the finitely many
  byte strings that the two computations in question hash.
\<close>

section \<open>The split point\<close>

fun floor_log2 :: "nat \<Rightarrow> nat" where
  "floor_log2 n = (if n < 2 then 0 else Suc (floor_log2 (n div 2)))"

declare floor_log2.simps [simp del]

text \<open>\<open>Math.clz32\<close>: the number of leading zero bits.\<close>

definition clz32 :: "32 word \<Rightarrow> nat" where
  "clz32 w = (if w = 0 then 32 else 31 - floor_log2 (unat w))"

text \<open>Below \<open>2 ^ 31\<close> the source shifts a signed 32-bit one; above, it raises a floating-point two.\<close>

definition largestPowerOfTwoLessThan :: "nat \<Rightarrow> nat result" where
  "largestPowerOfTwoLessThan n =
     (if n < 2 then Inl ''largestPowerOfTwoLessThan: n must be >= 2''
      else if n - 1 < 0x80000000
      then Inr (nat (sint (push_bit (31 - clz32 (of_nat (n - 1))) (1 :: 32 word))))
      else Inr (2 ^ floor_log2 (n - 1)))"

text \<open>The specification of the split point: the largest power of two below \<open>n\<close>.\<close>

definition pow2_below :: "nat \<Rightarrow> nat" where
  "pow2_below n = 2 ^ floor_log2 (n - 1)"

lemma floor_log2_bounds: "0 < n \<Longrightarrow> 2 ^ floor_log2 n \<le> n \<and> n < 2 * 2 ^ floor_log2 n"
proof (induction n rule: floor_log2.induct)
  case (1 n)
  show ?case
  proof (cases "n < 2")
    case True
    with 1 show ?thesis by (simp add: floor_log2.simps [of n])
  next
    case False
    with 1 have "2 ^ floor_log2 (n div 2) \<le> n div 2" "n div 2 < 2 * 2 ^ floor_log2 (n div 2)"
      by simp_all
    with False show ?thesis
      by (simp add: floor_log2.simps [of n]) linarith
  qed
qed

lemma floor_log2_unique: "2 ^ k \<le> n \<Longrightarrow> n < 2 * 2 ^ k \<Longrightarrow> floor_log2 n = k"
proof -
  assume a: "2 ^ k \<le> n" "n < 2 * 2 ^ k"
  then have "0 < n" by (metis gr0I not_le zero_less_numeral zero_less_power)
  then have b: "2 ^ floor_log2 n \<le> n" "n < 2 * 2 ^ floor_log2 n"
    using floor_log2_bounds by blast+
  from a b have "(2 :: nat) ^ k < 2 ^ Suc (floor_log2 n)" "(2 :: nat) ^ floor_log2 n < 2 ^ Suc k"
    by simp_all
  then have "k < Suc (floor_log2 n)" "floor_log2 n < Suc k"
    by (simp_all only: power_strict_increasing_iff)
  then show ?thesis by simp
qed

lemma floor_log2_power [simp]: "floor_log2 (2 ^ k) = k"
  by (rule floor_log2_unique) simp_all

lemma pow2_below_bounds: "2 \<le> n \<Longrightarrow> pow2_below n < n \<and> n \<le> 2 * pow2_below n"
  using floor_log2_bounds [of "n - 1"] by (auto simp: pow2_below_def)

lemma pow2_below_pos: "0 < pow2_below n"
  by (simp add: pow2_below_def)

lemma pow2_below_unique: "2 ^ k < n \<Longrightarrow> n \<le> 2 * 2 ^ k \<Longrightarrow> pow2_below n = 2 ^ k"
  unfolding pow2_below_def by (subst floor_log2_unique [of k]) auto

lemma sint_shift_one: "k \<le> 30 \<Longrightarrow> sint (push_bit k (1 :: 32 word)) = 2 ^ k"
proof -
  assume "k \<le> 30"
  then have "push_bit k (1 :: 32 word) = word_of_int (2 ^ k)"
    by (simp add: push_bit_eq_mult)
  moreover have "sint (word_of_int (2 ^ k) :: 32 word) = signed_take_bit 31 (2 ^ k)"
    by (subst signed_of_int) simp
  moreover have "signed_take_bit 31 (2 ^ k :: int) = 2 ^ k"
  proof (rule signed_take_bit_int_eq_self)
    show "- (2 ^ 31) \<le> (2 ^ k :: int)"
      by (rule order_trans [of _ 0]) simp_all
    show "(2 ^ k :: int) < 2 ^ 31"
      using \<open>k \<le> 30\<close> by (intro power_strict_increasing) auto
  qed
  ultimately show ?thesis by simp
qed

lemma largestPowerOfTwoLessThan_eq:
  "largestPowerOfTwoLessThan n =
     (if n < 2 then Inl ''largestPowerOfTwoLessThan: n must be >= 2'' else Inr (pow2_below n))"
proof (cases "2 \<le> n \<and> n - 1 < 0x80000000")
  case True
  define m where "m = n - 1"
  let ?k = "floor_log2 m"
  have m: "0 < m" "m < 2 ^ 31" using True by (auto simp: m_def)
  then have u: "unat (of_nat m :: 32 word) = m"
    by (simp add: unat_of_nat)
  with m have nz: "(of_nat m :: 32 word) \<noteq> 0"
    by (metis unat_0 less_not_refl)
  have "2 ^ ?k \<le> m" using m floor_log2_bounds by blast
  then have "(2 :: nat) ^ ?k < 2 ^ 31" using m by simp
  then have "?k < 31" by (simp only: power_strict_increasing_iff)
  then have k: "?k \<le> 30" by simp
  then have "31 - clz32 (of_nat m) = ?k"
    using nz u by (simp add: clz32_def)
  with True sint_shift_one [OF k] show ?thesis
    unfolding largestPowerOfTwoLessThan_def pow2_below_def m_def [symmetric]
    by (simp add: nat_power_eq)
next
  case False
  then show ?thesis
    by (auto simp: largestPowerOfTwoLessThan_def pow2_below_def)
qed

section \<open>Hashing\<close>

definition leafHash :: "(bytes \<Rightarrow> bytes) \<Rightarrow> bytes \<Rightarrow> bytes" where
  "leafHash sha entryBytes = sha (0 # entryBytes)"

definition nodeHash :: "(bytes \<Rightarrow> bytes) \<Rightarrow> bytes \<Rightarrow> bytes \<Rightarrow> bytes" where
  "nodeHash sha left right = sha (1 # left @ right)"

section \<open>Roots\<close>

function computeRoot :: "(bytes \<Rightarrow> bytes) \<Rightarrow> bytes list \<Rightarrow> bytes result" where
  "computeRoot sha leaves =
     (if length leaves = 0 then Inl ''computeRoot: empty tree has no root''
      else if length leaves = 1 then Inr (leafHash sha (leaves ! 0))
      else rbind (largestPowerOfTwoLessThan (length leaves)) (\<lambda>k.
           rbind (computeRoot sha (take k leaves)) (\<lambda>left.
           rbind (computeRoot sha (drop k leaves)) (\<lambda>right.
           Inr (nodeHash sha left right)))))"
  by pat_completeness auto
termination
proof (relation "measure (\<lambda>(sha, leaves). length leaves)")
  fix sha :: "bytes \<Rightarrow> bytes" and leaves :: "bytes list" and k
  assume *: "length leaves \<noteq> 0" "length leaves \<noteq> 1"
    "largestPowerOfTwoLessThan (length leaves) = Inr k"
  then have "0 < k" "k < length leaves"
    using pow2_below_bounds [of "length leaves"] pow2_below_pos [of "length leaves"]
    by (auto simp: largestPowerOfTwoLessThan_eq split: if_splits)
  then show "((sha, take k leaves), (sha, leaves)) \<in> measure (\<lambda>(sha, leaves). length leaves)"
    and "((sha, drop k leaves), (sha, leaves)) \<in> measure (\<lambda>(sha, leaves). length leaves)"
    by simp_all
qed simp

declare computeRoot.simps [simp del]

text \<open>
  The specification: the Merkle Tree Hash of RFC 6962 over a non-empty list of leaf hashes.
\<close>

function mth :: "(bytes \<Rightarrow> bytes) \<Rightarrow> bytes list \<Rightarrow> bytes" where
  "mth sha hs =
     (if length hs < 2 then hd hs
      else nodeHash sha (mth sha (take (pow2_below (length hs)) hs))
                        (mth sha (drop (pow2_below (length hs)) hs)))"
  by pat_completeness auto
termination
proof (relation "measure (\<lambda>(sha, hs). length hs)")
  fix sha :: "bytes \<Rightarrow> bytes" and hs :: "bytes list"
  assume "\<not> length hs < 2"
  then have "pow2_below (length hs) < length hs"
    using pow2_below_bounds by auto
  then show "((sha, take (pow2_below (length hs)) hs), sha, hs) \<in> measure (\<lambda>(sha, hs). length hs)"
    and "((sha, drop (pow2_below (length hs)) hs), sha, hs) \<in> measure (\<lambda>(sha, hs). length hs)"
    using pow2_below_pos [of "length hs"] by simp_all
qed simp

declare mth.simps [simp del]

lemma mth_single [simp]: "mth sha [h] = h"
  by (simp add: mth.simps)

lemma mth_split:
  "2 \<le> length hs \<Longrightarrow> k = pow2_below (length hs) \<Longrightarrow>
   mth sha hs = nodeHash sha (mth sha (take k hs)) (mth sha (drop k hs))"
  by (simp add: mth.simps [of sha hs])

lemma computeRoot_mth:
  "leaves \<noteq> [] \<Longrightarrow> computeRoot sha leaves = Inr (mth sha (map (leafHash sha) leaves))"
proof (induction sha leaves rule: computeRoot.induct)
  case (1 sha leaves)
  show ?case
  proof (cases "length leaves = 1")
    case True
    then obtain a where "leaves = [a]" by (cases leaves) auto
    then show ?thesis by (simp add: computeRoot.simps)
  next
    case False
    let ?k = "pow2_below (length leaves)"
    from False 1(3) have n: "2 \<le> length leaves" by (cases leaves) (auto simp: Suc_le_eq)
    then have k: "largestPowerOfTwoLessThan (length leaves) = Inr ?k" "?k < length leaves"
      using pow2_below_bounds [OF n] by (auto simp: largestPowerOfTwoLessThan_eq)
    then have "take ?k leaves \<noteq> []" "drop ?k leaves \<noteq> []"
      using n pow2_below_pos [of "length leaves"] by auto
    then show ?thesis
      using 1(1) [of ?k] 1(2) [of ?k] k n False
      by (simp add: computeRoot.simps [of sha leaves] mth_split [of _ ?k] take_map drop_map)
  qed
qed

section \<open>Inclusion proofs\<close>

function inclusionProof_rec :: "(bytes \<Rightarrow> bytes) \<Rightarrow> nat \<Rightarrow> bytes list \<Rightarrow> bytes list result" where
  "inclusionProof_rec sha index leaves =
     (if length leaves = 1 then Inr []
      else rbind (largestPowerOfTwoLessThan (length leaves)) (\<lambda>k.
        if index < k
        then rbind (inclusionProof_rec sha index (take k leaves)) (\<lambda>proof.
             rbind (computeRoot sha (drop k leaves)) (\<lambda>r. Inr (proof @ [r])))
        else rbind (inclusionProof_rec sha (index - k) (drop k leaves)) (\<lambda>proof.
             rbind (computeRoot sha (take k leaves)) (\<lambda>r. Inr (proof @ [r])))))"
  by pat_completeness auto
termination
proof (relation "measure (\<lambda>(sha, i, leaves). length leaves)")
  fix sha :: "bytes \<Rightarrow> bytes" and i k :: nat and leaves :: "bytes list"
  assume "length leaves \<noteq> 1" "largestPowerOfTwoLessThan (length leaves) = Inr k"
  then have "0 < k" "k < length leaves"
    using pow2_below_bounds [of "length leaves"] pow2_below_pos [of "length leaves"]
    by (auto simp: largestPowerOfTwoLessThan_eq split: if_splits)
  then show "((sha, i, take k leaves), (sha, i, leaves)) \<in> measure (\<lambda>(sha, i, leaves). length leaves)"
    and "((sha, i - k, drop k leaves), (sha, i, leaves)) \<in> measure (\<lambda>(sha, i, leaves). length leaves)"
    by simp_all
qed simp

declare inclusionProof_rec.simps [simp del]

definition computeInclusionProof :: "(bytes \<Rightarrow> bytes) \<Rightarrow> int \<Rightarrow> bytes list \<Rightarrow> bytes list result" where
  "computeInclusionProof sha index leaves =
     (if length leaves = 0 then Inl ''computeInclusionProof: empty tree''
      else if index < 0 \<or> int (length leaves) \<le> index
      then Inl ''computeInclusionProof: index out of range''
      else inclusionProof_rec sha (nat index) leaves)"

text \<open>The (index, size) pairs on the path from the root down to the leaf, in that order.\<close>

function path_pairs :: "nat \<Rightarrow> nat \<Rightarrow> (nat \<times> nat) list" where
  "path_pairs idx sz =
     (if 1 < sz
      then (idx, sz) #
        (case largestPowerOfTwoLessThan sz of
           Inl _ \<Rightarrow> []
         | Inr k \<Rightarrow> if idx < k then path_pairs idx k else path_pairs (idx - k) (sz - k))
      else [])"
  by pat_completeness auto
termination
proof (relation "measure (\<lambda>(idx, sz). sz)")
  fix idx sz k :: nat
  assume "1 < sz" "largestPowerOfTwoLessThan sz = Inr k"
  then have "0 < k" "k < sz"
    using pow2_below_bounds [of sz] pow2_below_pos [of sz]
    by (auto simp: largestPowerOfTwoLessThan_eq split: if_splits)
  then show "((idx, k), (idx, sz)) \<in> measure (\<lambda>(idx, sz). sz)"
    and "((idx - k, sz - k), (idx, sz)) \<in> measure (\<lambda>(idx, sz). sz)"
    by simp_all
qed simp

declare path_pairs.simps [simp del]

definition path_step :: "(bytes \<Rightarrow> bytes) \<Rightarrow> (nat \<times> nat) \<times> bytes \<Rightarrow> bytes \<Rightarrow> bytes" where
  "path_step sha x current =
     (case x of ((pathIdx, pathSz), sibling) \<Rightarrow>
        (case largestPowerOfTwoLessThan pathSz of
           Inl _ \<Rightarrow> current
         | Inr k \<Rightarrow> if pathIdx < k then nodeHash sha current sibling
                     else nodeHash sha sibling current))"

definition verifyPath ::
  "(bytes \<Rightarrow> bytes) \<Rightarrow> nat \<Rightarrow> nat \<Rightarrow> bytes \<Rightarrow> bytes list \<Rightarrow> bytes option" where
  "verifyPath sha index sz leafHashValue proof =
     (let path = rev (path_pairs index sz)
      in if length path \<noteq> length proof then None
         else Some (fold (path_step sha) (zip path proof) leafHashValue))"

text \<open>Reading past the end of a byte array gives \<open>undefined\<close>, which \<open>^\<close> turns into zero.\<close>

definition byte_at :: "bytes \<Rightarrow> nat \<Rightarrow> byte" where
  "byte_at bs i = (if i < length bs then bs ! i else 0)"

definition ct_equal :: "nat \<Rightarrow> bytes \<Rightarrow> bytes \<Rightarrow> bool" where
  "ct_equal n a b = (foldl (\<lambda>diff i. diff OR (byte_at a i XOR byte_at b i)) 0 [0..<n] = 0)"

definition verifyInclusion ::
  "(bytes \<Rightarrow> bytes) \<Rightarrow> int \<Rightarrow> int \<Rightarrow> bytes \<Rightarrow> bytes list \<Rightarrow> bytes \<Rightarrow> bool" where
  "verifyInclusion sha index treeSize leafHashValue proof expectedRoot =
     (if treeSize = 0 then False
      else if index < 0 \<or> treeSize \<le> index then False
      else if length leafHashValue \<noteq> 32 \<or> length expectedRoot \<noteq> 32 then False
      else (case verifyPath sha (nat index) (nat treeSize) leafHashValue proof of
              None \<Rightarrow> False
            | Some computedRoot \<Rightarrow> ct_equal 32 computedRoot expectedRoot))"

lemma foldl_or_eq_0:
  "foldl (\<lambda>d i. d OR f i) d0 xs = (0 :: 8 word) \<longleftrightarrow> d0 = 0 \<and> (\<forall>i \<in> set xs. f i = 0)"
  by (induction xs arbitrary: d0) (auto simp: or_eq_0_iff)

lemma xor_word_eq_0_iff: "a XOR b = (0 :: 8 word) \<longleftrightarrow> a = b"
  by (metis xor.assoc xor.left_neutral xor.right_neutral xor_self_eq)

lemma ct_equal_iff:
  "length a = n \<Longrightarrow> length b = n \<Longrightarrow> ct_equal n a b \<longleftrightarrow> a = b"
proof -
  assume len: "length a = n" "length b = n"
  have "ct_equal n a b \<longleftrightarrow> (\<forall>i < n. byte_at a i = byte_at b i)"
    unfolding ct_equal_def foldl_or_eq_0 xor_word_eq_0_iff by (simp add: Ball_def)
  also have "\<dots> \<longleftrightarrow> (\<forall>i < n. a ! i = b ! i)"
    using len by (simp add: byte_at_def)
  finally show "ct_equal n a b \<longleftrightarrow> a = b"
    using len by (simp add: list_eq_iff_nth_eq)
qed

section \<open>Specification of the path\<close>

function incl_path :: "(bytes \<Rightarrow> bytes) \<Rightarrow> nat \<Rightarrow> bytes list \<Rightarrow> bytes list" where
  "incl_path sha i hs =
     (if length hs < 2 then []
      else let k = pow2_below (length hs) in
        if i < k then incl_path sha i (take k hs) @ [mth sha (drop k hs)]
        else incl_path sha (i - k) (drop k hs) @ [mth sha (take k hs)])"
  by pat_completeness auto
termination
proof (relation "measure (\<lambda>(sha, i, hs). length hs)")
  fix sha :: "bytes \<Rightarrow> bytes" and i k :: nat and hs :: "bytes list"
  assume "\<not> length hs < 2" "k = pow2_below (length hs)"
  then have "0 < k" "k < length hs" using pow2_below_bounds by (auto simp: pow2_below_pos)
  then show "((sha, i, take k hs), sha, i, hs) \<in> measure (\<lambda>(sha, i, hs). length hs)"
    and "((sha, i - k, drop k hs), sha, i, hs) \<in> measure (\<lambda>(sha, i, hs). length hs)"
    by simp_all
qed simp

declare incl_path.simps [simp del]

lemma incl_path_short [simp]: "length hs < 2 \<Longrightarrow> incl_path sha i hs = []"
  by (simp add: incl_path.simps)

lemma incl_path_split:
  "2 \<le> length hs \<Longrightarrow> k = pow2_below (length hs) \<Longrightarrow>
   incl_path sha i hs =
     (if i < k then incl_path sha i (take k hs) @ [mth sha (drop k hs)]
      else incl_path sha (i - k) (drop k hs) @ [mth sha (take k hs)])"
  by (simp add: incl_path.simps [of sha i hs] Let_def)

text \<open>Induction along the decomposition of a non-empty list of leaves at the split point.\<close>

lemma split_induct [consumes 1, case_names Leaf Node]:
  assumes "xs \<noteq> []"
    and "\<And>x. P [x]"
    and "\<And>xs k. 2 \<le> length xs \<Longrightarrow> k = pow2_below (length xs) \<Longrightarrow> 0 < k \<Longrightarrow> k < length xs \<Longrightarrow>
           P (take k xs) \<Longrightarrow> P (drop k xs) \<Longrightarrow> P xs"
  shows "P xs"
  using assms(1)
proof (induction xs rule: length_induct)
  case (1 xs)
  show ?case
  proof (cases "2 \<le> length xs")
    case True
    let ?k = "pow2_below (length xs)"
    have k: "0 < ?k" "?k < length xs"
      using pow2_below_bounds [OF True] by (auto simp: pow2_below_pos)
    moreover have "length (take ?k xs) < length xs" "take ?k xs \<noteq> []"
      "length (drop ?k xs) < length xs" "drop ?k xs \<noteq> []"
      using k by (auto intro!: diff_less)
    ultimately show ?thesis
      using 1 True assms(3) by blast
  next
    case False
    with 1(2) obtain x where "xs = [x]" by (cases xs) (auto simp: not_le less_Suc_eq_0_disj)
    then show ?thesis using assms(2) by simp
  qed
qed

lemma length_mth:
  assumes "\<And>x. length (sha x) = 32" and "hs \<noteq> []" and "\<forall>h \<in> set hs. length h = 32"
  shows "length (mth sha hs) = 32"
  using assms(2, 3) by (cases "2 \<le> length hs")
    (auto simp: mth_split nodeHash_def assms(1) mth.simps [of sha hs])

lemma inclusionProof_rec_path:
  "leaves \<noteq> [] \<Longrightarrow> inclusionProof_rec sha i leaves = Inr (incl_path sha i (map (leafHash sha) leaves))"
proof (induction leaves arbitrary: i rule: split_induct)
  case (Leaf x)
  then show ?case by (simp add: inclusionProof_rec.simps)
next
  case (Node leaves k)
  have ne: "take k leaves \<noteq> []" "drop k leaves \<noteq> []" using Node by auto
  have k: "largestPowerOfTwoLessThan (length leaves) = Inr k"
    using Node(1, 2) by (simp add: largestPowerOfTwoLessThan_eq)
  have split: "incl_path sha i (map (leafHash sha) leaves) =
     (if i < k then incl_path sha i (take k (map (leafHash sha) leaves))
        @ [mth sha (drop k (map (leafHash sha) leaves))]
      else incl_path sha (i - k) (drop k (map (leafHash sha) leaves))
        @ [mth sha (take k (map (leafHash sha) leaves))])"
    by (rule incl_path_split) (use Node in simp_all)
  show ?case
    unfolding split using Node(1, 5, 6) k
    by (simp add: inclusionProof_rec.simps [of sha i leaves] computeRoot_mth [OF ne(1)]
        computeRoot_mth [OF ne(2)] take_map drop_map)
qed

lemma verifyPath_short: "n < 2 \<Longrightarrow> verifyPath sha i n h p = (if p = [] then Some h else None)"
  by (auto simp: verifyPath_def path_pairs.simps [of i n])

lemma path_pairs_split:
  "2 \<le> n \<Longrightarrow> k = pow2_below n \<Longrightarrow>
   path_pairs i n = (i, n) # (if i < k then path_pairs i k else path_pairs (i - k) (n - k))"
  by (simp add: path_pairs.simps [of i n] largestPowerOfTwoLessThan_eq)

lemma verifyPath_Nil: "2 \<le> n \<Longrightarrow> verifyPath sha i n h [] = None"
  by (simp add: verifyPath_def path_pairs_split)

lemma verifyPath_snoc:
  assumes "2 \<le> n" and "k = pow2_below n"
  shows "verifyPath sha i n h (p @ [s]) =
    (if i < k then map_option (\<lambda>c. nodeHash sha c s) (verifyPath sha i k h p)
     else map_option (\<lambda>c. nodeHash sha s c) (verifyPath sha (i - k) (n - k) h p))"
  using assms
  by (auto simp: verifyPath_def path_pairs_split [OF assms] Let_def path_step_def
      largestPowerOfTwoLessThan_eq)

lemma verifyPath_complete:
  "hs \<noteq> [] \<Longrightarrow> i < length hs \<Longrightarrow>
   verifyPath sha i (length hs) (hs ! i) (incl_path sha i hs) = Some (mth sha hs)"
proof (induction hs arbitrary: i rule: split_induct)
  case (Leaf x)
  then show ?case by (simp add: verifyPath_short)
next
  case (Node hs k)
  show ?case
  proof (cases "i < k")
    case True
    then have "verifyPath sha i k (hs ! i) (incl_path sha i (take k hs)) = Some (mth sha (take k hs))"
      using Node(5) [of i] Node(4) by simp
    with True Node show ?thesis
      by (simp add: incl_path_split [OF Node(1, 2)] verifyPath_snoc [OF Node(1, 2)]
          mth_split [OF Node(1, 2)])
  next
    case False
    then have "verifyPath sha (i - k) (length hs - k) (hs ! i) (incl_path sha (i - k) (drop k hs))
        = Some (mth sha (drop k hs))"
      using Node(6) [of "i - k"] Node(3, 4, 7) by simp
    with False Node show ?thesis
      by (simp add: incl_path_split [OF Node(1, 2)] verifyPath_snoc [OF Node(1, 2)]
          mth_split [OF Node(1, 2)])
  qed
qed

section \<open>The byte strings a computation hashes\<close>

text \<open>Collision resistance is assumed of these finite lists only.\<close>

function node_inputs :: "(bytes \<Rightarrow> bytes) \<Rightarrow> bytes list \<Rightarrow> bytes list" where
  "node_inputs sha hs =
     (if length hs < 2 then []
      else let k = pow2_below (length hs); l = take k hs; r = drop k hs
        in (1 # mth sha l @ mth sha r) # node_inputs sha l @ node_inputs sha r)"
  by pat_completeness auto
termination
proof (relation "measure (\<lambda>(sha, hs). length hs)")
  fix sha :: "bytes \<Rightarrow> bytes" and hs l r :: "bytes list" and k
  assume "\<not> length hs < 2" "k = pow2_below (length hs)" "l = take k hs"
  then show "((sha, l), sha, hs) \<in> measure (\<lambda>(sha, hs). length hs)"
    using pow2_below_bounds by auto
next
  fix sha :: "bytes \<Rightarrow> bytes" and hs l r :: "bytes list" and k
  assume "\<not> length hs < 2" "k = pow2_below (length hs)" "r = drop k hs"
  moreover have "0 < pow2_below (length hs)" by (rule pow2_below_pos)
  ultimately show "((sha, r), sha, hs) \<in> measure (\<lambda>(sha, hs). length hs)"
    by simp
qed simp

declare node_inputs.simps [simp del]

lemma node_inputs_split:
  "2 \<le> length hs \<Longrightarrow> k = pow2_below (length hs) \<Longrightarrow>
   node_inputs sha hs = (1 # mth sha (take k hs) @ mth sha (drop k hs))
     # node_inputs sha (take k hs) @ node_inputs sha (drop k hs)"
  by (simp add: node_inputs.simps [of sha hs] Let_def)

text \<open>All the strings \<open>computeRoot\<close> hashes, and all those \<open>_verifyPath\<close> hashes.\<close>

definition root_inputs :: "(bytes \<Rightarrow> bytes) \<Rightarrow> bytes list \<Rightarrow> bytes list" where
  "root_inputs sha leaves = map ((#) 0) leaves @ node_inputs sha (map (leafHash sha) leaves)"

fun fold_inputs :: "(bytes \<Rightarrow> bytes) \<Rightarrow> ((nat \<times> nat) \<times> bytes) list \<Rightarrow> bytes \<Rightarrow> bytes list" where
  "fold_inputs sha [] current = []"
| "fold_inputs sha (((i, n), s) # xs) current =
     (1 # (if i < pow2_below n then current @ s else s @ current))
     # fold_inputs sha xs (path_step sha ((i, n), s) current)"

definition path_inputs :: "(bytes \<Rightarrow> bytes) \<Rightarrow> nat \<Rightarrow> nat \<Rightarrow> bytes \<Rightarrow> bytes list \<Rightarrow> bytes list" where
  "path_inputs sha i n h p = fold_inputs sha (zip (rev (path_pairs i n)) p) h"

lemma fold_inputs_append:
  "fold_inputs sha (xs @ ys) h = fold_inputs sha xs h @ fold_inputs sha ys (fold (path_step sha) xs h)"
  by (induction sha xs h rule: fold_inputs.induct) auto

lemma path_inputs_snoc:
  assumes "2 \<le> n" and "k = pow2_below n"
    and "verifyPath sha (if i < k then i else i - k) (if i < k then k else n - k) h p = Some c"
  shows "path_inputs sha i n h (p @ [s]) =
    path_inputs sha (if i < k then i else i - k) (if i < k then k else n - k) h p
    @ [1 # (if i < k then c @ s else s @ c)]"
  using assms
  by (auto simp: path_inputs_def path_pairs_split [OF assms(1, 2)] fold_inputs_append verifyPath_def
      Let_def split: if_splits)

lemma verifyPath_length:
  "(\<And>x. length (sha x) = 32) \<Longrightarrow> length h = 32 \<Longrightarrow> verifyPath sha i n h p = Some c \<Longrightarrow> length c = 32"
proof (cases p rule: rev_cases)
  case Nil
  then show "length h = 32 \<Longrightarrow> verifyPath sha i n h p = Some c \<Longrightarrow> length c = 32"
    by (cases "n < 2") (auto simp: verifyPath_short verifyPath_Nil)
next
  case (snoc q s)
  assume "\<And>x. length (sha x) = 32" "verifyPath sha i n h p = Some c"
  with snoc show ?thesis
    by (cases "n < 2")
      (auto simp: verifyPath_short verifyPath_snoc [of n "pow2_below n"] nodeHash_def split: if_splits)
qed

lemma verifyPath_sound:
  assumes sha: "\<And>x. length (sha x) = 32" and h: "length h = 32"
  shows "hs \<noteq> [] \<Longrightarrow> i < length hs \<Longrightarrow> \<forall>h \<in> set hs. length h = 32 \<Longrightarrow>
    verifyPath sha i (length hs) h p = Some (mth sha hs) \<Longrightarrow>
    inj_on sha (set (node_inputs sha hs) \<union> set (path_inputs sha i (length hs) h p)) \<Longrightarrow>
    h = hs ! i \<and> p = incl_path sha i hs"
proof (induction hs arbitrary: i p rule: split_induct)
  case (Leaf x)
  then show ?case by (auto simp: verifyPath_short split: if_splits)
next
  case (Node hs k)
  from Node(9) Node(1) obtain q s where p: "p = q @ [s]"
    by (cases p rule: rev_cases) (auto simp: verifyPath_Nil)
  let ?i = "if i < k then i else i - k" and ?n = "if i < k then k else length hs - k"
  let ?l = "mth sha (take k hs)" and ?r = "mth sha (drop k hs)"
  from Node(9) obtain c where c: "verifyPath sha ?i ?n h q = Some c"
    "mth sha hs = nodeHash sha (if i < k then c else s) (if i < k then s else c)"
    by (auto simp: p verifyPath_snoc [OF Node(1, 2)] split: if_splits)
  have inputs: "path_inputs sha i (length hs) h p =
      path_inputs sha ?i ?n h q @ [1 # (if i < k then c @ s else s @ c)]"
    unfolding p by (rule path_inputs_snoc [OF Node(1, 2) c(1)])
  have len: "length c = 32" "length ?l = 32" "length ?r = 32"
    using verifyPath_length [OF sha h c(1)] Node(3, 4, 8)
    by (auto intro!: length_mth sha dest: in_set_takeD in_set_dropD)
  have "sha (1 # ?l @ ?r) = sha (1 # (if i < k then c @ s else s @ c))"
    using c(2) by (simp add: mth_split [OF Node(1, 2)] nodeHash_def split: if_splits)
  moreover have "1 # ?l @ ?r \<in> set (node_inputs sha hs) \<union> set (path_inputs sha i (length hs) h p)"
    "1 # (if i < k then c @ s else s @ c)
      \<in> set (node_inputs sha hs) \<union> set (path_inputs sha i (length hs) h p)"
    by (simp_all only: inputs node_inputs_split [OF Node(1, 2)] set_append set_simps) simp_all
  ultimately have "1 # ?l @ ?r = 1 # (if i < k then c @ s else s @ c)"
    by (rule inj_onD [OF Node(10)])
  then have eq: "?l @ ?r = (if i < k then c @ s else s @ c)"
    by simp
  have sub: "inj_on sha (set (node_inputs sha (take k hs)) \<union> set (path_inputs sha ?i ?n h q))"
    "inj_on sha (set (node_inputs sha (drop k hs)) \<union> set (path_inputs sha ?i ?n h q))"
    by (rule inj_on_subset [OF Node(10)], unfold inputs node_inputs_split [OF Node(1, 2)],
        simp only: set_append set_simps, blast)+
  show ?case
  proof (cases "i < k")
    case True
    with eq len have "c = ?l" "s = ?r" by auto
    moreover from this True have "h = take k hs ! i \<and> q = incl_path sha i (take k hs)"
      using c(1) sub(1) Node(4, 8) by (intro Node(5)) (auto dest: in_set_takeD)
    ultimately show ?thesis
      using True by (simp add: p incl_path_split [OF Node(1, 2)])
  next
    case False
    with eq have "length s + length c = length ?l + length ?r"
      by (metis length_append)
    with eq False len have "s = ?l" "c = ?r" by auto
    moreover from this False have "h = drop k hs ! (i - k) \<and> q = incl_path sha (i - k) (drop k hs)"
      using c(1) sub(2) Node(4, 7, 8) by (intro Node(6)) (auto dest: in_set_dropD)
    ultimately show ?thesis
      using False Node(4, 7) by (simp add: p incl_path_split [OF Node(1, 2)])
  qed
qed

section \<open>Properties\<close>

text \<open>A concrete 32-byte digest for the witnesses: the input itself, padded or cut.\<close>

definition pad32 :: "bytes \<Rightarrow> bytes" where
  "pad32 bs = take 32 (bs @ replicate 32 0)"

lemma length_pad32 [simp]: "length (pad32 bs) = 32"
  by (simp add: pad32_def)

text \<open>C13: the verifier accepts every proof the prover builds. For a digest of 32 bytes and every
  index of a tree, \<open>computeInclusionProof\<close> and \<open>computeRoot\<close> return, and \<open>verifyInclusion\<close> accepts
  what they return for the hash of the leaf at that index.\<close>

theorem inclusion_complete:
  assumes "\<And>x. length (sha x) = 32" and "i < length leaves"
  shows "\<exists>root proof. computeRoot sha leaves = Inr root
    \<and> computeInclusionProof sha (int i) leaves = Inr proof
    \<and> verifyInclusion sha (int i) (int (length leaves)) (leafHash sha (leaves ! i)) proof root"
proof -
  let ?hs = "map (leafHash sha) leaves"
  from assms(2) have ne: "leaves \<noteq> []" by auto
  have hs: "\<forall>h \<in> set ?hs. length h = 32" by (auto simp: leafHash_def assms(1))
  then have len: "length (mth sha ?hs) = 32" using ne by (intro length_mth) (auto simp: assms(1))
  have "verifyPath sha i (length leaves) (leafHash sha (leaves ! i)) (incl_path sha i ?hs)
      = Some (mth sha ?hs)"
    using verifyPath_complete [of ?hs i sha] ne assms(2) by simp
  with len ne assms show ?thesis
    by (simp add: computeRoot_mth inclusionProof_rec_path computeInclusionProof_def
        verifyInclusion_def ct_equal_iff leafHash_def)
qed

theorem inclusion_complete_witness:
  "\<exists>root proof. computeRoot pad32 [[5], [6], [7]] = Inr root
    \<and> computeInclusionProof pad32 (int 1) [[5], [6], [7]] = Inr proof
    \<and> verifyInclusion pad32 (int 1) (int (length [[5], [6], [7 :: byte]]))
        (leafHash pad32 ([[5], [6], [7]] ! 1)) proof root"
  using inclusion_complete [of pad32 1 "[[5], [6], [7]]"] by simp

text \<open>C3: an accepted proof is a proof. If \<open>verifyInclusion\<close> accepts an entry's leaf hash at an
  index against the root of a list of leaves, and the digest has no collision among the strings
  hashed for that root, for that path and for that entry, then the entry is the leaf at that
  index and the proof is the one \<open>computeInclusionProof\<close> builds.\<close>

theorem inclusion_sound:
  assumes "\<And>x. length (sha x) = 32"
    and "computeRoot sha leaves = Inr root"
    and "verifyInclusion sha index (int (length leaves)) (leafHash sha entry) proof root"
    and "inj_on sha (set (root_inputs sha leaves) \<union> {0 # entry}
           \<union> set (path_inputs sha (nat index) (length leaves) (leafHash sha entry) proof))"
  shows "0 \<le> index \<and> nat index < length leaves \<and> entry = leaves ! nat index
    \<and> computeInclusionProof sha index leaves = Inr proof"
proof -
  let ?hs = "map (leafHash sha) leaves" and ?i = "nat index"
  have ne: "leaves \<noteq> []" using assms(2) by (auto simp: computeRoot.simps)
  with assms(2) have root: "root = mth sha ?hs" by (simp add: computeRoot_mth)
  have idx: "0 \<le> index" "?i < length leaves"
    using assms(3) by (auto simp: verifyInclusion_def split: if_splits)
  obtain c where c: "verifyPath sha ?i (length leaves) (leafHash sha entry) proof = Some c"
    "ct_equal 32 c root"
    using assms(3) by (auto simp: verifyInclusion_def split: if_splits option.splits)
  have hs: "\<forall>h \<in> set ?hs. length h = 32" by (auto simp: leafHash_def assms(1))
  have h: "length (leafHash sha entry) = 32" by (simp add: leafHash_def assms(1))
  have "length root = 32" unfolding root using ne hs by (intro length_mth) (auto simp: assms(1))
  then have "c = mth sha ?hs"
    using c(2) verifyPath_length [OF assms(1) h c(1)] by (simp add: ct_equal_iff root)
  moreover have "inj_on sha (set (node_inputs sha ?hs)
      \<union> set (path_inputs sha ?i (length leaves) (leafHash sha entry) proof))"
    by (rule inj_on_subset [OF assms(4)]) (auto simp: root_inputs_def)
  ultimately have "leafHash sha entry = ?hs ! ?i \<and> proof = incl_path sha ?i ?hs"
    using verifyPath_sound [of sha "leafHash sha entry" ?hs ?i "proof"] assms(1) h hs ne idx c(1)
    by simp
  moreover from this idx have "sha (0 # entry) = sha (0 # leaves ! ?i)"
    by (simp add: leafHash_def)
  then have "0 # entry = 0 # leaves ! ?i"
    by (rule inj_onD [OF assms(4)]) (use idx in \<open>auto simp: root_inputs_def\<close>)
  ultimately show ?thesis
    using idx ne by (simp add: computeInclusionProof_def inclusionProof_rec_path)
qed

text \<open>The witness runs the theorem on a tree of two leaves.\<close>

lemma split_two [simp]: "pow2_below (Suc (Suc 0)) = Suc 0" "pow2_below 2 = Suc 0"
  using pow2_below_unique [of 0 2] by (simp_all add: numeral_2_eq_2)

lemma two_leaf_path: "path_pairs (Suc 0) (Suc (Suc 0)) = [(Suc 0, Suc (Suc 0))]"
  by (simp add: path_pairs.simps [of "Suc 0" "Suc (Suc 0)"] largestPowerOfTwoLessThan_eq
      path_pairs.simps [of 0 "Suc 0"])

lemma two_leaf_root:
  "computeRoot sha [a, b] = Inr (nodeHash sha (leafHash sha a) (leafHash sha b))"
  by (simp add: computeRoot_mth mth_split)

lemma two_leaf_inputs:
  "root_inputs sha [a, b] = [0 # a, 0 # b, 1 # leafHash sha a @ leafHash sha b]"
  "path_inputs sha 1 (length [a, b]) h [s] = [1 # s @ h]"
  by (simp_all add: root_inputs_def node_inputs_split node_inputs.simps path_inputs_def two_leaf_path)

lemma two_leaf_verify:
  "(\<And>x. length (sha x) = 32) \<Longrightarrow> length h = 32 \<Longrightarrow>
   verifyInclusion sha 1 (int (length [a, b])) h [s] (nodeHash sha s h)"
  by (simp add: verifyInclusion_def verifyPath_def two_leaf_path [folded numeral_2_eq_2] path_step_def
      largestPowerOfTwoLessThan_eq nodeHash_def ct_equal_iff)

theorem inclusion_sound_witness:
  "(0 :: int) \<le> 1 \<and> nat 1 < length [[5], [6 :: byte]] \<and> [6 :: byte] = [[5], [6]] ! nat 1
    \<and> computeInclusionProof pad32 1 [[5], [6]] = Inr [pad32 [0, 5]]"
proof (rule inclusion_sound [of pad32 "[[5], [6]]" "nodeHash pad32 (pad32 [0, 5]) (pad32 [0, 6])" 1
      "[6]" "[pad32 [0, 5]]"])
  show "verifyInclusion pad32 1 (int (length [[5], [6]])) (leafHash pad32 [6]) [pad32 [0, 5]]
      (nodeHash pad32 (pad32 [0, 5]) (pad32 [0, 6]))"
    using two_leaf_verify [of pad32 "pad32 [0, 6]" "[5]" "[6]"] by (simp add: leafHash_def)
  show "inj_on pad32 (set (root_inputs pad32 [[5], [6]]) \<union> {0 # [6]} \<union> set (path_inputs pad32 (nat 1)
      (length [[5], [6 :: byte]]) (leafHash pad32 [6]) [pad32 [0, 5]]))"
    unfolding two_leaf_inputs nat_one_as_int [symmetric]
    by (auto simp: inj_on_def leafHash_def pad32_def)
qed (simp_all add: two_leaf_root leafHash_def)

text \<open>The word-level split point. \<open>largestPowerOfTwoLessThan\<close> returns, for every \<open>n\<close> from two
  on, a power of two below \<open>n\<close> whose double is at least \<open>n\<close>, so the shift of a signed 32-bit one
  never reaches the sign bit.\<close>

theorem split_point_correct:
  assumes "2 \<le> n"
  shows "\<exists>k. largestPowerOfTwoLessThan n = Inr (2 ^ k) \<and> 2 ^ k < n \<and> n \<le> 2 * 2 ^ k"
proof -
  have "largestPowerOfTwoLessThan n = Inr (2 ^ floor_log2 (n - 1))"
    using assms by (simp add: largestPowerOfTwoLessThan_eq pow2_below_def)
  with pow2_below_bounds [OF assms] show ?thesis
    unfolding pow2_below_def by blast
qed

theorem split_point_correct_witness:
  "\<exists>k. largestPowerOfTwoLessThan 2147483648 = Inr (2 ^ k) \<and> 2 ^ k < (2147483648 :: nat)
    \<and> (2147483648 :: nat) \<le> 2 * 2 ^ k"
  using split_point_correct [of 2147483648] by simp

end
