(* ===== verification/Event_Types.thy ===== *)
theory Event_Types
  imports Merkle
begin

text \<open>
  The event type vocabulary of \<open>packages/mcp/src/types.ts\<close>: the normative URIs, the syntactic
  check \<open>isValidEventTypeUri\<close> and the alias table behind \<open>normalizeEventType\<close>. Lengths in the
  source count UTF-16 code units, which \<open>utf16_length\<close> recovers from the UTF-8 bytes.
\<close>

definition utf16_units :: "char \<Rightarrow> nat" where
  "utf16_units c =
     (let n = (of_char c :: nat) in if n < 128 then 1 else if n < 192 then 0 else if n < 240 then 1 else 2)"

definition utf16_length :: "string \<Rightarrow> nat" where
  "utf16_length s = sum_list (map utf16_units s)"

text \<open>The characters \<open>.\<close> does not match: LF, CR, U+2028 and U+2029.\<close>

fun has_line_terminator :: "string \<Rightarrow> bool" where
  "has_line_terminator [] = False"
| "has_line_terminator (c # cs) =
     (of_char c = (10 :: nat) \<or> of_char c = (13 :: nat)
      \<or> (of_char c = (226 :: nat) \<and> (case cs of d # e # _ \<Rightarrow>
            of_char d = (128 :: nat) \<and> (of_char e = (168 :: nat) \<or> of_char e = (169 :: nat)) | _ \<Rightarrow> False))
      \<or> has_line_terminator cs)"

definition is_alpha :: "char \<Rightarrow> bool" where
  "is_alpha c \<longleftrightarrow> (65 \<le> (of_char c :: nat) \<and> (of_char c :: nat) \<le> 90)
     \<or> (97 \<le> (of_char c :: nat) \<and> (of_char c :: nat) \<le> 122)"

definition is_scheme_char :: "char \<Rightarrow> bool" where
  "is_scheme_char c \<longleftrightarrow> is_alpha c \<or> is_digit c \<or> c \<in> {CHR ''+'', CHR ''-'', CHR ''.''}"

text \<open>The match of \<open>/^([A-Za-z][A-Za-z0-9+\-.]*):(.+)$/\<close>: scheme and rest. No scheme character is
  a colon, so the split is at the first one.\<close>

definition match_uri :: "string \<Rightarrow> (string \<times> string) option" where
  "match_uri s =
     (let scheme = takeWhile is_scheme_char s; tail = dropWhile is_scheme_char s
      in if scheme = [] \<or> \<not> is_alpha (hd scheme) then None
         else (case tail of
                 c # rest \<Rightarrow> if c = CHR '':'' \<and> rest \<noteq> [] \<and> \<not> has_line_terminator rest
                            then Some (scheme, rest) else None
               | [] \<Rightarrow> None))"

definition isValidEventTypeUri :: "string \<Rightarrow> bool" where
  "isValidEventTypeUri s =
     (if utf16_length s = 0 \<or> 256 < utf16_length s then False
      else if CHR ''#'' \<in> set s then False
      else (case match_uri s of
              None \<Rightarrow> False
            | Some (scheme, rest) \<Rightarrow>
                if scheme = ''http'' \<or> scheme = ''https''
                then starts_with ''//'' rest
                  \<and> takeWhile (\<lambda>c. c \<noteq> CHR ''/'' \<and> c \<noteq> CHR ''?'') (drop 2 rest) \<noteq> []
                else True))"

definition EVENT_TYPE_TOOL_CALL_URI :: string where
  "EVENT_TYPE_TOOL_CALL_URI = ''https://atrib.dev/v1/types/tool_call''"
definition EVENT_TYPE_TRANSACTION_URI :: string where
  "EVENT_TYPE_TRANSACTION_URI = ''https://atrib.dev/v1/types/transaction''"
definition EVENT_TYPE_OBSERVATION_URI :: string where
  "EVENT_TYPE_OBSERVATION_URI = ''https://atrib.dev/v1/types/observation''"
definition EVENT_TYPE_DIRECTORY_ANCHOR_URI :: string where
  "EVENT_TYPE_DIRECTORY_ANCHOR_URI = ''https://atrib.dev/v1/types/directory_anchor''"
definition EVENT_TYPE_ANNOTATION_URI :: string where
  "EVENT_TYPE_ANNOTATION_URI = ''https://atrib.dev/v1/types/annotation''"
definition EVENT_TYPE_REVISION_URI :: string where
  "EVENT_TYPE_REVISION_URI = ''https://atrib.dev/v1/types/revision''"

lemmas event_type_uri_defs =
  EVENT_TYPE_TOOL_CALL_URI_def EVENT_TYPE_TRANSACTION_URI_def EVENT_TYPE_OBSERVATION_URI_def
  EVENT_TYPE_DIRECTORY_ANCHOR_URI_def EVENT_TYPE_ANNOTATION_URI_def EVENT_TYPE_REVISION_URI_def

definition EVENT_TYPE_SHORT_TO_URI :: "(string, string) jsmap" where
  "EVENT_TYPE_SHORT_TO_URI =
     [(''tool_call'', EVENT_TYPE_TOOL_CALL_URI), (''transaction'', EVENT_TYPE_TRANSACTION_URI),
      (''observation'', EVENT_TYPE_OBSERVATION_URI),
      (''directory_anchor'', EVENT_TYPE_DIRECTORY_ANCHOR_URI),
      (''annotation'', EVENT_TYPE_ANNOTATION_URI), (''revision'', EVENT_TYPE_REVISION_URI)]"

definition EVENT_TYPE_ALIAS_TO_URI :: "(string, string) jsmap" where
  "EVENT_TYPE_ALIAS_TO_URI =
     fold (\<lambda>(name, uri) m.
         fold (\<lambda>path. AList.update (''https://atrib.dev'' @ path @ name) uri)
           [''/event/'', ''/events/'', ''/v1/event/'', ''/v1/events/''] m)
       EVENT_TYPE_SHORT_TO_URI EVENT_TYPE_SHORT_TO_URI"

definition NORMATIVE_EVENT_TYPE_URIS :: "string list" where
  "NORMATIVE_EVENT_TYPE_URIS = map snd EVENT_TYPE_SHORT_TO_URI"

text \<open>The alias table is an object literal, so a lookup also finds what every object inherits
  from \<open>Object.prototype\<close>; those values are not strings. \<open>None\<close> stands for such a value.\<close>

definition object_prototype_keys :: "string list" where
  "object_prototype_keys =
     [''constructor'', ''__defineGetter__'', ''__defineSetter__'', ''hasOwnProperty'',
      ''__lookupGetter__'', ''__lookupSetter__'', ''isPrototypeOf'', ''propertyIsEnumerable'',
      ''toString'', ''valueOf'', ''__proto__'', ''toLocaleString'']"

definition normalizeEventType :: "string \<Rightarrow> string option" where
  "normalizeEventType value =
     (case map_of EVENT_TYPE_ALIAS_TO_URI value of
        Some uri \<Rightarrow> Some uri
      | None \<Rightarrow> if value \<in> set object_prototype_keys then None else Some value)"

definition isNormativeEventTypeUri :: "string \<Rightarrow> bool" where
  "isNormativeEventTypeUri uri \<longleftrightarrow> uri \<in> set NORMATIVE_EVENT_TYPE_URIS"

lemma alias_update_all:
  "map_of (fold (\<lambda>p. AList.update (f p) u) ps m) k = (if k \<in> f ` set ps then Some u else map_of m k)"
  by (induction ps arbitrary: m) (auto simp: jsmap_simps)

lemma alias_fold_range:
  "map_of (fold (\<lambda>(name, uri) m. fold (\<lambda>p. AList.update (f p name) uri) ps m) xs m) k = Some u \<Longrightarrow>
   u \<in> snd ` set xs \<or> map_of m k = Some u"
proof (induction xs arbitrary: m)
  case (Cons x xs)
  obtain name uri where "x = (name, uri)" by (cases x)
  with Cons.prems Cons.IH [of "fold (\<lambda>p. AList.update (f p name) uri) ps m"]
  show ?case by (auto simp: alias_update_all split: if_splits)
qed simp

lemma alias_range:
  "map_of EVENT_TYPE_ALIAS_TO_URI value = Some uri \<Longrightarrow> isNormativeEventTypeUri uri"
  unfolding EVENT_TYPE_ALIAS_TO_URI_def isNormativeEventTypeUri_def NORMATIVE_EVENT_TYPE_URIS_def
  by (drule alias_fold_range) (force dest: map_of_SomeD)

lemma normative_not_alias:
  "isNormativeEventTypeUri uri \<Longrightarrow> normalizeEventType uri = Some uri"
proof -
  have "list_all (\<lambda>uri. map_of EVENT_TYPE_ALIAS_TO_URI uri = None
      \<and> \<not> List.member object_prototype_keys uri) NORMATIVE_EVENT_TYPE_URIS"
    by code_simp
  then show "isNormativeEventTypeUri uri \<Longrightarrow> normalizeEventType uri = Some uri"
    by (simp add: list_all_iff isNormativeEventTypeUri_def normalizeEventType_def)
qed

lemma normalizeEventType_idem:
  "normalizeEventType value = Some uri \<Longrightarrow> normalizeEventType uri = Some uri"
proof (cases "map_of EVENT_TYPE_ALIAS_TO_URI value")
  case None
  assume "normalizeEventType value = Some uri"
  with None have "uri = value" by (auto simp: normalizeEventType_def split: if_splits)
  with \<open>normalizeEventType value = Some uri\<close> show ?thesis by simp
next
  case (Some u)
  assume "normalizeEventType value = Some uri"
  with Some have "isNormativeEventTypeUri uri"
    by (auto simp: normalizeEventType_def dest: alias_range)
  then show ?thesis by (rule normative_not_alias)
qed

lemma normative_valid: "isNormativeEventTypeUri uri \<Longrightarrow> isValidEventTypeUri uri"
  unfolding isNormativeEventTypeUri_def NORMATIVE_EVENT_TYPE_URIS_def EVENT_TYPE_SHORT_TO_URI_def
    event_type_uri_defs
  by (auto simp: isValidEventTypeUri_def utf16_length_def utf16_units_def match_uri_def is_scheme_char_def
      is_alpha_def is_digit_def starts_with_def)

end
