(* ===== verification/Entry.thy ===== *)
theory Entry
  imports Event_Types
begin

text \<open>
  The 90-byte log entry: \<open>serializeEntry\<close> (\<open>packages/mcp/src/entry.ts\<close>) and the reader
  \<open>decodeEntry\<close> of the log server (\<open>services/log-node/src/server.ts\<close>), with the round trip
  between them. \<open>DataView.setBigUint64\<close> reduces modulo \<open>2 ^ 64\<close>, hence the 64-bit word.
\<close>

definition ENTRY_VERSION :: byte where "ENTRY_VERSION = 0x01"
definition EVENT_TYPE_TOOL_CALL :: byte where "EVENT_TYPE_TOOL_CALL = 0x01"
definition EVENT_TYPE_TRANSACTION :: byte where "EVENT_TYPE_TRANSACTION = 0x02"
definition EVENT_TYPE_OBSERVATION :: byte where "EVENT_TYPE_OBSERVATION = 0x03"
definition EVENT_TYPE_DIRECTORY_ANCHOR :: byte where "EVENT_TYPE_DIRECTORY_ANCHOR = 0x04"
definition EVENT_TYPE_ANNOTATION :: byte where "EVENT_TYPE_ANNOTATION = 0x05"
definition EVENT_TYPE_REVISION :: byte where "EVENT_TYPE_REVISION = 0x06"
definition EVENT_TYPE_EXTENSION :: byte where "EVENT_TYPE_EXTENSION = 0xff"
definition ENTRY_SIZE :: nat where "ENTRY_SIZE = 90"

lemmas event_type_byte_defs =
  EVENT_TYPE_TOOL_CALL_def EVENT_TYPE_TRANSACTION_def EVENT_TYPE_OBSERVATION_def
  EVENT_TYPE_DIRECTORY_ANCHOR_def EVENT_TYPE_ANNOTATION_def EVENT_TYPE_REVISION_def
  EVENT_TYPE_EXTENSION_def

record EntryInput =
  ei_record_hash_hex :: string
  ei_creator_key_b64url :: string
  ei_context_id :: string
  ei_timestamp :: int
  ei_event_type :: string

definition eventTypeUriToByte :: "string \<Rightarrow> byte" where
  "eventTypeUriToByte uri =
     (if uri = EVENT_TYPE_TOOL_CALL_URI then EVENT_TYPE_TOOL_CALL
      else if uri = EVENT_TYPE_TRANSACTION_URI then EVENT_TYPE_TRANSACTION
      else if uri = EVENT_TYPE_OBSERVATION_URI then EVENT_TYPE_OBSERVATION
      else if uri = EVENT_TYPE_DIRECTORY_ANCHOR_URI then EVENT_TYPE_DIRECTORY_ANCHOR
      else if uri = EVENT_TYPE_ANNOTATION_URI then EVENT_TYPE_ANNOTATION
      else if uri = EVENT_TYPE_REVISION_URI then EVENT_TYPE_REVISION
      else EVENT_TYPE_EXTENSION)"

definition be64 :: "64 word \<Rightarrow> bytes" where
  "be64 w = map (\<lambda>i. ucast (drop_bit (56 - 8 * i) w)) [0..<8]"

definition base64urlToBytes :: "string \<Rightarrow> nat \<Rightarrow> bytes result" where
  "base64urlToBytes b64url expectedBytes =
     rbind (base64urlDecode b64url) (\<lambda>raw.
       if length raw \<noteq> expectedBytes then Inl ''base64urlToBytes: unexpected length'' else Inr raw)"

definition serializeEntry :: "EntryInput \<Rightarrow> bytes result" where
  "serializeEntry input =
     rbind (hexDecode (ei_record_hash_hex input)) (\<lambda>recordHash.
     if length recordHash \<noteq> 32 then Inl ''serializeEntry: record_hash_hex must be 64 hex chars'' else
     rbind (base64urlToBytes (ei_creator_key_b64url input) 32) (\<lambda>creatorKey.
     rbind (hexDecode (ei_context_id input)) (\<lambda>contextId.
     if length contextId \<noteq> 16 then Inl ''serializeEntry: context_id must be 32 hex chars'' else
     Inr ([ENTRY_VERSION] @ recordHash @ creatorKey @ contextId
          @ be64 (word_of_int (ei_timestamp input)) @ [eventTypeUriToByte (ei_event_type input)]))))"

section \<open>Decoding\<close>

record DecodedEntry =
  de_index :: nat
  de_record_hash :: string
  de_creator_key :: string
  de_context_id :: string
  de_timestamp_ms :: nat
  de_event_type :: string
  de_event_type_byte :: "byte option"

definition event_label :: "byte option \<Rightarrow> string" where
  "event_label b =
     (if b = Some 0x01 then ''tool_call''
      else if b = Some 0x02 then ''transaction''
      else if b = Some 0x03 then ''observation''
      else if b = Some 0x04 then ''directory_anchor''
      else if b = Some 0x05 then ''annotation''
      else if b = Some 0x06 then ''revision''
      else if b = Some 0xff then ''extension''
      else ''reserved'')"

definition subarray :: "nat \<Rightarrow> nat \<Rightarrow> 'a list \<Rightarrow> 'a list" where
  "subarray i j xs = take (j - i) (drop i xs)"

definition get_be64 :: "bytes \<Rightarrow> 64 word" where
  "get_be64 bs = foldl (\<lambda>a b. push_bit 8 a OR ucast b) 0 bs"

text \<open>\<open>Number(b)\<close> of a big integer: the nearest double, ties to even.\<close>

definition number_of_bigint :: "nat \<Rightarrow> nat" where
  "number_of_bigint n =
     (if n < 2 ^ 53 then n
      else let e = floor_log2 n - 52; q = n div 2 ^ e; r = n mod 2 ^ e
        in (if 2 * r > 2 ^ e \<or> (2 * r = 2 ^ e \<and> odd q) then q + 1 else q) * 2 ^ e)"

text \<open>Reading the timestamp past the end of the buffer is a \<open>RangeError\<close>.\<close>

definition decodeEntry :: "bytes \<Rightarrow> nat \<Rightarrow> DecodedEntry result" where
  "decodeEntry bs index =
     (let eventByte = (if 89 < length bs then Some (bs ! 89) else None)
      in if length bs < 89 then Inl ''RangeError: Offset is outside the bounds of the DataView''
         else Inr \<lparr>de_index = index,
           de_record_hash = sha256_prefix @ hexEncode (subarray 1 33 bs),
           de_creator_key = base64urlEncode (subarray 33 65 bs),
           de_context_id = hexEncode (subarray 65 81 bs),
           de_timestamp_ms = number_of_bigint (unat (get_be64 (subarray 81 89 bs))),
           de_event_type = event_label eventByte,
           de_event_type_byte = eventByte\<rparr>)"

section \<open>Lemmas\<close>

lemma length_be64 [simp]: "length (be64 w) = 8"
  by (simp add: be64_def)

lemma be64_unfold:
  "be64 w = [ucast (drop_bit 56 w), ucast (drop_bit 48 w), ucast (drop_bit 40 w), ucast (drop_bit 32 w),
             ucast (drop_bit 24 w), ucast (drop_bit 16 w), ucast (drop_bit 8 w), ucast w]"
  by (simp add: be64_def upt_rec)

lemma be64_step:
  "push_bit 8 (drop_bit (k + 8) w) OR ucast (ucast (drop_bit k w) :: 8 word) = drop_bit k (w :: 64 word)"
proof (rule bit_word_eqI)
  fix n assume "n < LENGTH(64)"
  then show "bit (push_bit 8 (drop_bit (k + 8) w) OR ucast (ucast (drop_bit k w) :: 8 word)) n
      = bit (drop_bit k w) n"
    by (cases "n < 8") (auto simp: bit_simps algebra_simps dest: bit_imp_le_length)
qed

lemma get_be64_be64 [codec_simps]: "get_be64 (be64 w) = w"
proof -
  have "drop_bit 64 w = 0" by (rule bit_word_eqI) (auto simp: bit_simps dest: bit_imp_le_length)
  then show ?thesis
    using be64_step [of 56 w] be64_step [of 48 w] be64_step [of 40 w] be64_step [of 32 w]
      be64_step [of 24 w] be64_step [of 16 w] be64_step [of 8 w] be64_step [of 0 w]
    by (simp add: be64_unfold get_be64_def)
qed

lemma subarray_layout:
  assumes "length h = 32" "length k = 32" "length c = 16" "length t = 8"
  shows "subarray 1 33 ([v] @ h @ k @ c @ t @ [e]) = h"
    and "subarray 33 65 ([v] @ h @ k @ c @ t @ [e]) = k"
    and "subarray 65 81 ([v] @ h @ k @ c @ t @ [e]) = c"
    and "subarray 81 89 ([v] @ h @ k @ c @ t @ [e]) = t"
    and "([v] @ h @ k @ c @ t @ [e]) ! 89 = e"
    and "length ([v] @ h @ k @ c @ t @ [e]) = 90"
  using assms by (simp_all add: subarray_def nth_append drop_Cons' nth_Cons')

lemma number_of_bigint_safe: "n < 2 ^ 53 \<Longrightarrow> number_of_bigint n = n"
  by (simp add: number_of_bigint_def)

lemma serializeEntry_Inr_iff:
  "serializeEntry input = Inr bs \<longleftrightarrow>
   (\<exists>h k c. hexDecode (ei_record_hash_hex input) = Inr h \<and> length h = 32
      \<and> base64urlDecode (ei_creator_key_b64url input) = Inr k \<and> length k = 32
      \<and> hexDecode (ei_context_id input) = Inr c \<and> length c = 16
      \<and> bs = [ENTRY_VERSION] @ h @ k @ c @ be64 (word_of_int (ei_timestamp input))
             @ [eventTypeUriToByte (ei_event_type input)])"
  by (auto simp: serializeEntry_def base64urlToBytes_def rbind_Inr_iff split: if_splits)

lemma length_serializeEntry: "serializeEntry input = Inr bs \<Longrightarrow> length bs = ENTRY_SIZE"
  by (auto simp: serializeEntry_Inr_iff ENTRY_SIZE_def)

lemma decode_serialize_gen:
  assumes "serializeEntry input = Inr bs"
  shows "\<exists>h k c. hexDecode (ei_record_hash_hex input) = Inr h
      \<and> base64urlDecode (ei_creator_key_b64url input) = Inr k
      \<and> hexDecode (ei_context_id input) = Inr c
      \<and> decodeEntry bs i = Inr \<lparr>de_index = i, de_record_hash = sha256_prefix @ hexEncode h,
          de_creator_key = base64urlEncode k, de_context_id = hexEncode c,
          de_timestamp_ms = number_of_bigint (unat (word_of_int (ei_timestamp input) :: 64 word)),
          de_event_type = event_label (Some (eventTypeUriToByte (ei_event_type input))),
          de_event_type_byte = Some (eventTypeUriToByte (ei_event_type input))\<rparr>"
proof -
  from assms obtain h k c where *: "hexDecode (ei_record_hash_hex input) = Inr h" "length h = 32"
    "base64urlDecode (ei_creator_key_b64url input) = Inr k" "length k = 32"
    "hexDecode (ei_context_id input) = Inr c" "length c = 16"
    and bs: "bs = [ENTRY_VERSION] @ h @ k @ c @ be64 (word_of_int (ei_timestamp input))
             @ [eventTypeUriToByte (ei_event_type input)]"
    by (auto simp: serializeEntry_Inr_iff)
  show ?thesis
    by (intro exI conjI; (rule *)?)
      (simp only: bs decodeEntry_def subarray_layout [OF *(2, 4, 6) length_be64] get_be64_be64 Let_def
        if_True less_numeral_extra rel_simps if_False)
qed

lemma unat_timestamp: "0 \<le> t \<Longrightarrow> t \<le> max_safe_integer \<Longrightarrow>
  unat (word_of_int t :: 64 word) = nat t \<and> nat t < 2 ^ 53"
  by (simp add: max_safe_integer_def unat_eq_nat_uint uint_word_of_int take_bit_int_eq_self)

lemma event_label_byte:
  "event_label (Some (eventTypeUriToByte uri)) =
     (case map_of (map (\<lambda>(n, u). (u, n)) EVENT_TYPE_SHORT_TO_URI) uri of
        Some name \<Rightarrow> name | None \<Rightarrow> ''extension'')"
  by (simp add: eventTypeUriToByte_def event_label_def EVENT_TYPE_SHORT_TO_URI_def event_type_byte_defs
      event_type_uri_defs)

section \<open>Properties\<close>

text \<open>What the log writes the log reads. For a 32-byte record hash, a 32-byte key, a 16-byte
  context and a timestamp in the safe-integer range, serialisation succeeds with exactly 90 bytes
  and \<open>decodeEntry\<close> gives every field back, the event type as its label.\<close>

theorem entry_roundtrip:
  assumes "length h = 32" and "length k = 32" and "length c = 16"
    and "0 \<le> t" and "t \<le> max_safe_integer"
  shows "\<exists>bs. serializeEntry \<lparr>ei_record_hash_hex = hexEncode h,
        ei_creator_key_b64url = base64urlEncode k, ei_context_id = hexEncode c,
        ei_timestamp = t, ei_event_type = uri\<rparr> = Inr bs
    \<and> length bs = 90
    \<and> decodeEntry bs i = Inr \<lparr>de_index = i, de_record_hash = ''sha256:'' @ hexEncode h,
        de_creator_key = base64urlEncode k, de_context_id = hexEncode c,
        de_timestamp_ms = nat t, de_event_type = event_label (Some (eventTypeUriToByte uri)),
        de_event_type_byte = Some (eventTypeUriToByte uri)\<rparr>"
proof -
  let ?in = "\<lparr>ei_record_hash_hex = hexEncode h, ei_creator_key_b64url = base64urlEncode k,
    ei_context_id = hexEncode c, ei_timestamp = t, ei_event_type = uri\<rparr>"
  obtain bs where bs: "serializeEntry ?in = Inr bs"
    using assms by (simp add: serializeEntry_def base64urlToBytes_def)
  have "length bs = 90"
    using length_serializeEntry [OF bs] by (simp add: ENTRY_SIZE_def)
  with decode_serialize_gen [OF bs, of i] bs unat_timestamp [OF assms(4, 5)] show ?thesis
    by (auto simp: number_of_bigint_safe sha256_prefix_def)
qed

theorem entry_roundtrip_witness:
  "\<exists>bs. serializeEntry \<lparr>ei_record_hash_hex = hexEncode (replicate 32 7),
        ei_creator_key_b64url = base64urlEncode (replicate 32 9), ei_context_id = hexEncode (replicate 16 3),
        ei_timestamp = 1700000000000, ei_event_type = EVENT_TYPE_REVISION_URI\<rparr> = Inr bs
    \<and> length bs = 90
    \<and> decodeEntry bs 4 = Inr \<lparr>de_index = 4, de_record_hash = ''sha256:'' @ hexEncode (replicate 32 7),
        de_creator_key = base64urlEncode (replicate 32 9), de_context_id = hexEncode (replicate 16 3),
        de_timestamp_ms = nat 1700000000000,
        de_event_type = event_label (Some (eventTypeUriToByte EVENT_TYPE_REVISION_URI)),
        de_event_type_byte = Some (eventTypeUriToByte EVENT_TYPE_REVISION_URI)\<rparr>"
  by (rule entry_roundtrip [of "replicate 32 7" "replicate 32 9" "replicate 16 3"])
    (simp_all add: max_safe_integer_def)

end
