(* ===== verification/Log_Tree.thy ===== *)
theory Log_Tree
  imports Entry
begin

text \<open>
  The append-only tree of the log server (\<open>services/log-node/src/tree.ts\<close>). The tree caches the
  hash of every complete power-of-two block by level; roots and inclusion proofs are read from
  the cache. The lemmas show that the cache refines the reference functions of \<open>Merkle\<close>, and
  what the persistence file guarantees. A JavaScript array may have holes, so a level is a list
  of optional hashes. The bytes that one \<open>writeSync\<close> call accepts are up to the operating system:
  the argument \<open>wr\<close> maps the bytes still to be written to that count.
\<close>

record log_tree =
  rawEntries :: "bytes list"
  levels :: "bytes option list list"
  persistFile :: "bytes option"

definition js_set :: "nat \<Rightarrow> 'a \<Rightarrow> 'a option list \<Rightarrow> 'a option list" where
  "js_set i x xs =
     (if i < length xs then xs[i := Some x] else xs @ replicate (i - length xs) None @ [Some x])"

definition levels_get :: "bytes option list list \<Rightarrow> nat \<Rightarrow> nat \<Rightarrow> bytes option" where
  "levels_get lv l j = (if l < length lv \<and> j < length (lv ! l) then lv ! l ! j else None)"

definition levels_put :: "nat \<Rightarrow> nat \<Rightarrow> bytes \<Rightarrow> bytes option list list \<Rightarrow> bytes option list list" where
  "levels_put l j h lv =
     (let lv' = lv @ replicate (Suc l - length lv) [] in lv'[l := js_set j h (lv' ! l)])"

function append_loop ::
  "(bytes \<Rightarrow> bytes) \<Rightarrow> nat \<Rightarrow> nat \<Rightarrow> bytes \<Rightarrow> bytes option list list
   \<Rightarrow> unit result \<times> bytes option list list" where
  "append_loop sha level levelIndex hash lv =
     (let lv' = levels_put level levelIndex hash lv
      in if levelIndex mod 2 = 0 then (Inr (), lv')
         else (case levels_get lv' level (levelIndex - 1) of
                 None \<Rightarrow> (Inl ''MerkleTree.append: missing left sibling'', lv')
               | Some left \<Rightarrow>
                   append_loop sha (Suc level) (levelIndex div 2) (nodeHash sha left hash) lv'))"
  by pat_completeness auto
termination
  by (relation "measure (\<lambda>(sha, l, i, h, lv). i)") (auto simp: mod_2_eq_odd elim: oddE)

declare append_loop.simps [simp del]

definition appendInMemory :: "(bytes \<Rightarrow> bytes) \<Rightarrow> bytes \<Rightarrow> log_tree \<Rightarrow> nat result \<times> log_tree" where
  "appendInMemory sha entryBytes t =
     (let index = length (rawEntries t);
          (r, lv) = append_loop sha 0 index (leafHash sha entryBytes) (levels t)
      in (rbind r (\<lambda>_. Inr index), t\<lparr>rawEntries := rawEntries t @ [entryBytes], levels := lv\<rparr>))"

text \<open>The write loop; the file keeps what was written before a write makes no progress.\<close>

function appendDurably :: "(bytes \<Rightarrow> int) \<Rightarrow> bytes \<Rightarrow> bytes \<Rightarrow> unit result \<times> bytes" where
  "appendDurably wr rest buf =
     (if rest = [] then (Inr (), buf)
      else let written = wr rest
        in if written \<le> 0 then (Inl ''MerkleTree.append: durable write made no progress'', buf)
           else appendDurably wr (drop (nat written) rest) (buf @ take (nat written) rest))"
  by pat_completeness auto
termination
  by (relation "measure (\<lambda>(w, rest, buf). length rest)") auto

declare appendDurably.simps [simp del]

definition tree_append ::
  "(bytes \<Rightarrow> bytes) \<Rightarrow> (bytes \<Rightarrow> int) \<Rightarrow> bytes \<Rightarrow> log_tree \<Rightarrow> nat result \<times> log_tree" where
  "tree_append sha wr entryBytes t =
     (let index = length (rawEntries t);
          (r, t1) = (case persistFile t of
                       None \<Rightarrow> (Inr (), t)
                     | Some buf \<Rightarrow> let (r, buf') = appendDurably wr entryBytes buf
                                    in (r, t\<lparr>persistFile := Some buf'\<rparr>))
      in case r of
           Inl e \<Rightarrow> (Inl e, t1)
         | Inr _ \<Rightarrow> let (r', t2) = appendInMemory sha entryBytes t1
             in (rbind r' (\<lambda>appendedIndex.
                   if appendedIndex \<noteq> index
                   then Inl ''MerkleTree.append: in-memory index did not match durable index''
                   else Inr appendedIndex), t2))"

definition tree_size :: "log_tree \<Rightarrow> nat" where
  "tree_size t = length (rawEntries t)"

fun chunks :: "nat \<Rightarrow> 'a list \<Rightarrow> 'a list list" where
  "chunks n xs = (if xs = [] \<or> n = 0 then [] else take n xs # chunks n (drop n xs))"

declare chunks.simps [simp del]

fun replay :: "(bytes \<Rightarrow> bytes) \<Rightarrow> bytes list \<Rightarrow> log_tree \<Rightarrow> log_tree result" where
  "replay sha [] t = Inr t"
| "replay sha (e # es) t =
     (case appendInMemory sha e t of (Inl err, _) \<Rightarrow> Inl err | (Inr _, t') \<Rightarrow> replay sha es t')"

definition empty_tree :: "bytes option \<Rightarrow> log_tree" where
  "empty_tree f = \<lparr>rawEntries = [], levels = [[]], persistFile = f\<rparr>"

text \<open>The argument is the persistence option: absent, a path with no file yet, or a path and the
  content of its file.\<close>

definition createMerkleTree :: "(bytes \<Rightarrow> bytes) \<Rightarrow> bytes option option \<Rightarrow> log_tree result" where
  "createMerkleTree sha persistPath =
     (case persistPath of
        None \<Rightarrow> Inr (empty_tree None)
      | Some None \<Rightarrow> Inr (empty_tree (Some []))
      | Some (Some buf) \<Rightarrow>
          if length buf mod ENTRY_SIZE \<noteq> 0
          then Inl ''MerkleTree: persistence file length is not a multiple of the entry size''
          else replay sha (chunks ENTRY_SIZE buf) (empty_tree (Some buf)))"

definition isPowerOfTwo :: "nat \<Rightarrow> bool" where
  "isPowerOfTwo n \<longleftrightarrow> 0 < n \<and> 2 ^ floor_log2 n = n"

definition powerLevel :: "nat \<Rightarrow> nat" where
  "powerLevel n = floor_log2 n"

function rangeRootFromLevels ::
  "(bytes \<Rightarrow> bytes) \<Rightarrow> bytes option list list \<Rightarrow> nat \<Rightarrow> nat \<Rightarrow> bytes result" where
  "rangeRootFromLevels sha lv start sz =
     (if sz < 1 then Inl ''MerkleTree.rangeRoot: empty range''
      else if isPowerOfTwo sz
      then (if start mod sz \<noteq> 0 then Inl ''MerkleTree.rangeRoot: misaligned range''
            else (case levels_get lv (powerLevel sz) (start div sz) of
                    None \<Rightarrow> Inl ''MerkleTree.rangeRoot: missing subtree''
                  | Some hash \<Rightarrow> Inr hash))
      else rbind (largestPowerOfTwoLessThan sz) (\<lambda>k.
           rbind (rangeRootFromLevels sha lv start k) (\<lambda>left.
           rbind (rangeRootFromLevels sha lv (start + k) (sz - k)) (\<lambda>right.
           Inr (nodeHash sha left right)))))"
  by pat_completeness auto
termination
proof (relation "measure (\<lambda>(sha, lv, start, sz). sz)")
  fix sha :: "bytes \<Rightarrow> bytes" and lv :: "bytes option list list" and start sz k :: nat
  assume "largestPowerOfTwoLessThan sz = Inr k"
  then have "0 < k" "k < sz"
    using pow2_below_bounds [of sz] pow2_below_pos [of sz]
    by (auto simp: largestPowerOfTwoLessThan_eq split: if_splits)
  then show "((sha, lv, start, k), (sha, lv, start, sz)) \<in> measure (\<lambda>(sha, lv, start, sz). sz)"
    and "((sha, lv, start + k, sz - k), (sha, lv, start, sz)) \<in> measure (\<lambda>(sha, lv, start, sz). sz)"
    by simp_all
qed simp

declare rangeRootFromLevels.simps [simp del]

function inclusionProofFromLevels ::
  "(bytes \<Rightarrow> bytes) \<Rightarrow> bytes option list list \<Rightarrow> nat \<Rightarrow> nat \<Rightarrow> nat \<Rightarrow> bytes list result" where
  "inclusionProofFromLevels sha lv index start sz =
     (if sz = 1 then Inr []
      else rbind (largestPowerOfTwoLessThan sz) (\<lambda>k.
        if index < k
        then rbind (inclusionProofFromLevels sha lv index start k) (\<lambda>proof.
             rbind (rangeRootFromLevels sha lv (start + k) (sz - k)) (\<lambda>r. Inr (proof @ [r])))
        else rbind (inclusionProofFromLevels sha lv (index - k) (start + k) (sz - k)) (\<lambda>proof.
             rbind (rangeRootFromLevels sha lv start k) (\<lambda>r. Inr (proof @ [r])))))"
  by pat_completeness auto
termination
proof (relation "measure (\<lambda>(sha, lv, index, start, sz). sz)")
  fix sha :: "bytes \<Rightarrow> bytes" and lv :: "bytes option list list" and index start sz k :: nat
  assume "largestPowerOfTwoLessThan sz = Inr k"
  then have "0 < k" "k < sz"
    using pow2_below_bounds [of sz] pow2_below_pos [of sz]
    by (auto simp: largestPowerOfTwoLessThan_eq split: if_splits)
  then show "((sha, lv, index, start, k), (sha, lv, index, start, sz))
      \<in> measure (\<lambda>(sha, lv, index, start, sz). sz)"
    and "((sha, lv, index - k, start + k, sz - k), (sha, lv, index, start, sz))
      \<in> measure (\<lambda>(sha, lv, index, start, sz). sz)"
    by simp_all
qed simp

declare inclusionProofFromLevels.simps [simp del]

definition tree_root :: "(bytes \<Rightarrow> bytes) \<Rightarrow> log_tree \<Rightarrow> bytes result" where
  "tree_root sha t =
     (if length (rawEntries t) = 0 then Inl ''MerkleTree.root: tree is empty''
      else rangeRootFromLevels sha (levels t) 0 (length (rawEntries t)))"

definition tree_inclusionProof :: "(bytes \<Rightarrow> bytes) \<Rightarrow> int \<Rightarrow> log_tree \<Rightarrow> bytes list result" where
  "tree_inclusionProof sha index t =
     (if length (rawEntries t) = 0 then Inl ''MerkleTree.inclusionProof: tree is empty''
      else if index < 0 \<or> int (length (rawEntries t)) \<le> index
      then Inl ''MerkleTree.inclusionProof: index out of range''
      else inclusionProofFromLevels sha (levels t) (nat index) 0 (length (rawEntries t)))"

definition tree_leafHash :: "int \<Rightarrow> log_tree \<Rightarrow> bytes option result" where
  "tree_leafHash index t =
     (let leafHashes = (if levels t = [] then [] else levels t ! 0)
      in if index < 0 \<or> int (length leafHashes) \<le> index
         then Inl ''MerkleTree.leafHash: index out of range''
         else Inr (leafHashes ! nat index))"

definition tree_entryBytes :: "int \<Rightarrow> log_tree \<Rightarrow> bytes result" where
  "tree_entryBytes index t =
     (if index < 0 \<or> int (length (rawEntries t)) \<le> index
      then Inl ''MerkleTree.entryBytes: index out of range''
      else Inr (rawEntries t ! nat index))"

section \<open>The cache invariant\<close>

text \<open>Block \<open>j\<close> of level \<open>l\<close>, and what the cache holds for the first \<open>n\<close> leaves.\<close>

definition block :: "bytes list \<Rightarrow> nat \<Rightarrow> nat \<Rightarrow> bytes list" where
  "block hs l j = take (2 ^ l) (drop (j * 2 ^ l) hs)"

definition cached :: "(bytes \<Rightarrow> bytes) \<Rightarrow> bytes list \<Rightarrow> nat \<Rightarrow> nat \<Rightarrow> nat \<Rightarrow> bytes option" where
  "cached sha hs n l j = (if j < n div 2 ^ l then Some (mth sha (block hs l j)) else None)"

definition tree_inv :: "(bytes \<Rightarrow> bytes) \<Rightarrow> log_tree \<Rightarrow> bool" where
  "tree_inv sha t \<longleftrightarrow>
     (\<forall>l j. levels_get (levels t) l j =
        cached sha (map (leafHash sha) (rawEntries t)) (length (rawEntries t)) l j)
     \<and> levels t \<noteq> [] \<and> length (levels t ! 0) = length (rawEntries t)"

lemma levels_get_put:
  "levels_get (levels_put l j h lv) l' j' = (if l' = l \<and> j' = j then Some h else levels_get lv l' j')"
  by (auto simp: levels_get_def levels_put_def Let_def js_set_def nth_append nth_list_update
      not_less le_less_Suc_eq split: if_splits)

lemma levels_put_0:
  "lv \<noteq> [] \<Longrightarrow> levels_put l j h lv \<noteq> []
    \<and> levels_put l j h lv ! 0 = (if l = 0 then js_set j h (lv ! 0) else lv ! 0)"
  by (auto simp: levels_put_def Let_def nth_append)

lemma append_loop_level0:
  "lv \<noteq> [] \<Longrightarrow> 0 < l \<Longrightarrow>
   snd (append_loop sha l j h lv) \<noteq> [] \<and> snd (append_loop sha l j h lv) ! 0 = lv ! 0"
proof (induction sha l j h lv rule: append_loop.induct)
  case (1 sha l j h lv)
  then show ?case
    by (auto simp: append_loop.simps [of sha l j h lv] Let_def levels_put_0 split: option.split)
qed

lemma block_Suc:
  assumes "Suc (2 * m + 1) * 2 ^ l \<le> length hs"
  shows "mth sha (block hs (Suc l) m) =
    nodeHash sha (mth sha (block hs l (2 * m))) (mth sha (block hs l (2 * m + 1)))"
proof -
  have len: "length (block hs (Suc l) m) = 2 * 2 ^ l"
    using assms by (simp add: block_def algebra_simps)
  have pow: "2 ^ l = pow2_below (2 * 2 ^ l)"
    by (rule pow2_below_unique [symmetric]) simp_all
  have "mth sha (block hs (Suc l) m) = nodeHash sha (mth sha (take (2 ^ l) (block hs (Suc l) m)))
      (mth sha (drop (2 ^ l) (block hs (Suc l) m)))"
    by (rule mth_split) (use pow in \<open>simp_all add: len\<close>)
  also have "take (2 ^ l) (block hs (Suc l) m) = block hs l (2 * m)"
    by (simp add: block_def algebra_simps min_def)
  also have "drop (2 ^ l) (block hs (Suc l) m) = block hs l (2 * m + 1)"
    by (simp add: block_def drop_take algebra_simps)
  finally show ?thesis .
qed

lemma pred_div:
  assumes "Suc n = Suc j * p" and "0 < p"
  shows "n div p = (j :: nat)"
proof -
  obtain q where q: "p = Suc q" using assms(2) by (cases p) auto
  have "n = q + j * p" using assms(1) unfolding q by simp
  then have "n div p = q div p + j" using assms(2) by (simp only: div_mult_self1)
  with q show ?thesis by simp
qed

lemma div_above:
  assumes "Suc n = Suc j * 2 ^ l" and "even j" and "l < l'"
  shows "Suc n div 2 ^ l' = n div 2 ^ l'"
proof -
  have "n div 2 ^ l = j" by (rule pred_div [OF assms(1)]) simp
  then have a: "n div (2 ^ l * 2) = j div 2" by (simp only: div_mult2_eq)
  have "Suc n div (2 ^ l * 2) = Suc j div 2"
    unfolding assms(1) div_mult2_eq by simp
  also have "Suc j div 2 = j div 2" using assms(2) by simp
  finally have b: "Suc n div (2 ^ l * 2) = n div (2 ^ l * 2)" using a by simp
  obtain d where "l' = l + 1 + d" using assms(3) by (metis Suc_eq_plus1 Suc_le_eq le_iff_add)
  then have "(2 :: nat) ^ l' = 2 ^ l * 2 * 2 ^ d" by (simp add: power_add)
  then show ?thesis using b by (simp only: div_mult2_eq)
qed

lemma append_loop_cached:
  "Suc n = length hs \<Longrightarrow> Suc n = Suc j * 2 ^ l \<Longrightarrow> h = mth sha (block hs l j) \<Longrightarrow>
   (\<And>l' j'. levels_get lv l' j' =
      (if l' < l then cached sha hs (Suc n) l' j' else cached sha hs n l' j')) \<Longrightarrow>
   \<exists>lv'. append_loop sha l j h lv = (Inr (), lv')
     \<and> (\<forall>l' j'. levels_get lv' l' j' = cached sha hs (Suc n) l' j')"
proof (induction sha l j h lv rule: append_loop.induct)
  case (1 sha l j h lv)
  let ?lv = "levels_put l j h lv"
  have divs: "Suc n div 2 ^ l = Suc j" "n div 2 ^ l = j"
  proof -
    show "Suc n div 2 ^ l = Suc j" unfolding 1(3) by simp
    show "n div 2 ^ l = j" by (rule pred_div [OF 1(3)]) simp
  qed
  have get: "levels_get ?lv l' j' =
      (if l' \<le> l then cached sha hs (Suc n) l' j' else cached sha hs n l' j')" for l' j'
    using divs 1(4) by (auto simp: levels_get_put 1(5) cached_def less_Suc_eq)
  show ?case
  proof (cases "even j")
    case True
    then have "append_loop sha l j h lv = (Inr (), ?lv)"
      by (simp add: append_loop.simps [of sha l j h lv] Let_def)
    moreover have "levels_get ?lv l' j' = cached sha hs (Suc n) l' j'" for l' j'
      using div_above [OF 1(3) True, of l'] by (cases "l' \<le> l") (auto simp: get cached_def)
    ultimately show ?thesis by blast
  next
    case False
    then obtain m where m: "j = 2 * m + 1" by (elim oddE)
    have left: "levels_get ?lv l (j - 1) = Some (mth sha (block hs l (2 * m)))"
      unfolding get cached_def using divs by (simp add: m)
    have step: "append_loop sha l j h lv =
        append_loop sha (Suc l) (j div 2) (nodeHash sha (mth sha (block hs l (2 * m))) h) ?lv"
      using False left by (simp add: append_loop.simps [of sha l j h lv] Let_def odd_iff_mod_2_eq_one)
    have "nodeHash sha (mth sha (block hs l (2 * m))) h = mth sha (block hs (Suc l) (j div 2))"
      using block_Suc [of m l hs sha] 1(2, 3, 4) m by simp
    moreover have "Suc n = Suc (j div 2) * 2 ^ Suc l"
      using 1(3) m by simp
    ultimately show ?thesis
      unfolding step using False left get
      by (intro 1(1)) (auto simp: 1(2) less_Suc_eq_le odd_iff_mod_2_eq_one)
  qed
qed

lemma cached_snoc: "cached sha (hs @ [h]) (length hs) l j = cached sha hs (length hs) l j"
proof (cases "j < length hs div 2 ^ l")
  case True
  then have "Suc j * 2 ^ l \<le> length hs"
    by (metis Suc_leI div_times_less_eq_dividend mult_le_mono1 order_trans)
  then have "block (hs @ [h]) l j = block hs l j" by (simp add: block_def)
  then show ?thesis by (simp add: cached_def)
qed (simp add: cached_def)

lemma appendInMemory_inv:
  assumes "tree_inv sha t"
  shows "\<exists>lv. appendInMemory sha e t =
      (Inr (length (rawEntries t)), t\<lparr>rawEntries := rawEntries t @ [e], levels := lv\<rparr>)
    \<and> tree_inv sha (t\<lparr>rawEntries := rawEntries t @ [e], levels := lv\<rparr>)"
proof -
  let ?hs = "map (leafHash sha) (rawEntries t)" and ?n = "length (rawEntries t)"
  let ?hs' = "map (leafHash sha) (rawEntries t @ [e])"
  have "\<exists>lv. append_loop sha 0 ?n (leafHash sha e) (levels t) = (Inr (), lv)
      \<and> (\<forall>l j. levels_get lv l j = cached sha ?hs' (Suc ?n) l j)"
  proof (rule append_loop_cached)
    show "leafHash sha e = mth sha (block ?hs' 0 ?n)" by (simp add: block_def)
    show "levels_get (levels t) l j = (if l < 0 then cached sha ?hs' (Suc ?n) l j
        else cached sha ?hs' ?n l j)" for l j
      using assms cached_snoc [of sha ?hs "leafHash sha e" l j] by (simp add: tree_inv_def)
  qed simp_all
  then obtain lv where lv: "append_loop sha 0 ?n (leafHash sha e) (levels t) = (Inr (), lv)"
    "\<And>l j. levels_get lv l j = cached sha ?hs' (Suc ?n) l j" by blast
  let ?lv0 = "levels_put 0 ?n (leafHash sha e) (levels t)"
  have put: "?lv0 \<noteq> []" "length (?lv0 ! 0) = Suc ?n"
    using assms by (auto simp: tree_inv_def levels_put_0 js_set_def)
  have "lv \<noteq> [] \<and> length (lv ! 0) = Suc ?n"
    using lv(1) put append_loop_level0 [of ?lv0 1 sha]
    by (auto simp: append_loop.simps [of sha 0 ?n] Let_def split: if_splits option.splits
        dest!: arg_cong [where f = snd])
  with lv show ?thesis
    by (auto simp: appendInMemory_def tree_inv_def)
qed

lemma tree_inv_empty [simp]: "tree_inv sha (empty_tree f)"
  by (auto simp: tree_inv_def empty_tree_def levels_get_def cached_def)

lemma tree_inv_file [simp]: "tree_inv sha (t\<lparr>persistFile := f\<rparr>) = tree_inv sha t"
  by (simp add: tree_inv_def)

section \<open>Roots and proofs from the cache\<close>

lemma isPowerOfTwo_iff: "isPowerOfTwo n \<longleftrightarrow> (\<exists>l. n = 2 ^ l)"
  unfolding isPowerOfTwo_def by (metis floor_log2_power zero_less_numeral zero_less_power)

lemma split_aligned:
  assumes "2 \<le> sz" and "sz \<le> 2 ^ m" and "2 ^ m dvd (start :: nat)"
  shows "\<exists>l. pow2_below sz = 2 ^ l \<and> 2 ^ l dvd start"
proof -
  let ?l = "floor_log2 (sz - 1)"
  have "(2 :: nat) ^ ?l < 2 ^ m"
    using pow2_below_bounds [OF assms(1)] assms(2) unfolding pow2_below_def by linarith
  then have "?l < m" by (simp only: power_strict_increasing_iff)
  then have "(2 :: nat) ^ ?l dvd 2 ^ m" by (intro le_imp_power_dvd) simp
  then have "2 ^ ?l dvd start" using assms(3) by (rule dvd_trans)
  then show ?thesis by (auto simp: pow2_below_def)
qed

lemma rangeRoot_cached:
  assumes "\<And>l j. levels_get lv l j = cached sha hs (length hs) l j"
  shows "0 < sz \<Longrightarrow> start + sz \<le> length hs \<Longrightarrow> sz \<le> 2 ^ m \<Longrightarrow> 2 ^ m dvd start \<Longrightarrow>
    rangeRootFromLevels sha lv start sz = Inr (mth sha (take sz (drop start hs)))"
proof (induction sz arbitrary: start m rule: less_induct)
  case (less sz)
  show ?case
  proof (cases "isPowerOfTwo sz")
    case True
    then obtain l where l: "sz = 2 ^ l" by (auto simp: isPowerOfTwo_iff)
    with less(4) have "l \<le> m" by simp
    then have "(2 :: nat) ^ l dvd 2 ^ m" by (rule le_imp_power_dvd)
    with less(5) l have dvd: "sz dvd start" by (metis dvd_trans)
    then obtain q where q: "start = sz * q" by (elim dvdE)
    then have "Suc q * sz \<le> length hs" using less(3) by (simp add: algebra_simps)
    then have "q < length hs div 2 ^ l"
      using l less(2) by (metis Suc_le_eq div_le_mono nonzero_mult_div_cancel_right less_not_refl)
    moreover have "block hs l q = take sz (drop start hs)"
      by (simp add: block_def l q mult.commute)
    ultimately show ?thesis
      using True less(2)
      by (subst rangeRootFromLevels.simps) (simp add: assms cached_def powerLevel_def l q)
  next
    case False
    let ?k = "pow2_below sz"
    have "sz \<noteq> 1" using False by (metis isPowerOfTwo_iff power_0)
    then have n: "2 \<le> sz" using less(2) by simp
    then have k: "?k < sz" "sz \<le> 2 * ?k" "0 < ?k"
      using pow2_below_bounds [OF n] pow2_below_pos by auto
    obtain l where l: "?k = 2 ^ l" and d: "2 ^ l dvd start"
      using split_aligned [OF n less(4, 5)] by blast
    have left: "rangeRootFromLevels sha lv start ?k = Inr (mth sha (take ?k (drop start hs)))"
      using less(3) k l d by (intro less.IH [of _ _ l]) auto
    have right: "rangeRootFromLevels sha lv (start + ?k) (sz - ?k)
        = Inr (mth sha (take (sz - ?k) (drop (start + ?k) hs)))"
      using less(3) k l d by (intro less.IH [of _ _ l]) (auto intro: dvd_add)
    have len: "length (take sz (drop start hs)) = sz" using less(3) by simp
    have "mth sha (take sz (drop start hs)) =
        nodeHash sha (mth sha (take ?k (take sz (drop start hs)))) (mth sha (drop ?k (take sz (drop start hs))))"
      by (rule mth_split) (use len n in simp_all)
    also have "take ?k (take sz (drop start hs)) = take ?k (drop start hs)"
      using k by (simp add: min_absorb1)
    also have "drop ?k (take sz (drop start hs)) = take (sz - ?k) (drop (start + ?k) hs)"
      by (simp add: drop_take add.commute)
    finally show ?thesis
      using False n left right
      by (simp add: rangeRootFromLevels.simps [of sha lv start sz] largestPowerOfTwoLessThan_eq)
  qed
qed

lemma inclusionProof_cached:
  assumes "\<And>l j. levels_get lv l j = cached sha hs (length hs) l j"
  shows "0 < sz \<Longrightarrow> start + sz \<le> length hs \<Longrightarrow> sz \<le> 2 ^ m \<Longrightarrow> 2 ^ m dvd start \<Longrightarrow>
    inclusionProofFromLevels sha lv i start sz = Inr (incl_path sha i (take sz (drop start hs)))"
proof (induction sz arbitrary: start m i rule: less_induct)
  case (less sz)
  show ?case
  proof (cases "sz = 1")
    case True
    then show ?thesis by (simp add: inclusionProofFromLevels.simps)
  next
    case False
    let ?k = "pow2_below sz"
    have n: "2 \<le> sz" using False less(2) by simp
    then have k: "?k < sz" "sz \<le> 2 * ?k" "0 < ?k"
      using pow2_below_bounds [OF n] pow2_below_pos by auto
    obtain l where l: "?k = 2 ^ l" and d: "2 ^ l dvd start"
      using split_aligned [OF n less(4, 5)] by blast
    then have d': "2 ^ l dvd start + ?k" by simp
    have roots: "rangeRootFromLevels sha lv start ?k = Inr (mth sha (take ?k (drop start hs)))"
      "rangeRootFromLevels sha lv (start + ?k) (sz - ?k)
        = Inr (mth sha (take (sz - ?k) (drop (start + ?k) hs)))"
      using less(3) k l d d' by (auto intro!: rangeRoot_cached [OF assms, of _ _ l])
    have paths: "inclusionProofFromLevels sha lv i start ?k = Inr (incl_path sha i (take ?k (drop start hs)))"
      "inclusionProofFromLevels sha lv (i - ?k) (start + ?k) (sz - ?k)
        = Inr (incl_path sha (i - ?k) (take (sz - ?k) (drop (start + ?k) hs)))"
      using less(3) k l d d' by (auto intro!: less.IH [of _ _ l])
    have "length (take sz (drop start hs)) = sz" using less(3) by simp
    then have "incl_path sha i (take sz (drop start hs)) =
      (if i < ?k then incl_path sha i (take ?k (take sz (drop start hs)))
         @ [mth sha (drop ?k (take sz (drop start hs)))]
       else incl_path sha (i - ?k) (drop ?k (take sz (drop start hs)))
         @ [mth sha (take ?k (take sz (drop start hs)))])"
      using n by (intro incl_path_split) simp_all
    then show ?thesis
      using False n k roots paths
      by (simp add: inclusionProofFromLevels.simps [of sha lv i start sz] largestPowerOfTwoLessThan_eq
          min_absorb1 drop_take add.commute)
  qed
qed

lemma tree_root_eq:
  assumes "tree_inv sha t" and "rawEntries t \<noteq> []"
  shows "tree_root sha t = computeRoot sha (rawEntries t)"
proof -
  let ?n = "length (rawEntries t)"
  have "?n \<le> 2 ^ ?n" by (simp add: less_imp_le)
  then have "rangeRootFromLevels sha (levels t) 0 ?n =
      Inr (mth sha (take ?n (drop 0 (map (leafHash sha) (rawEntries t)))))"
    using assms by (intro rangeRoot_cached [of _ _ _ _ _ ?n]) (auto simp: tree_inv_def)
  with assms(2) show ?thesis
    by (simp add: tree_root_def computeRoot_mth)
qed

lemma tree_inclusionProof_eq:
  assumes "tree_inv sha t" and "i < length (rawEntries t)"
  shows "tree_inclusionProof sha (int i) t = computeInclusionProof sha (int i) (rawEntries t)"
proof -
  let ?n = "length (rawEntries t)"
  have "?n \<le> 2 ^ ?n" by (simp add: less_imp_le)
  then have "inclusionProofFromLevels sha (levels t) i 0 ?n =
      Inr (incl_path sha i (take ?n (drop 0 (map (leafHash sha) (rawEntries t)))))"
    using assms by (intro inclusionProof_cached [of _ _ _ _ _ ?n]) (auto simp: tree_inv_def)
  with assms(2) show ?thesis
    by (auto simp: tree_inclusionProof_def computeInclusionProof_def inclusionProof_rec_path)
qed

lemma tree_leafHash_eq:
  assumes "tree_inv sha t" and "i < length (rawEntries t)"
  shows "tree_leafHash (int i) t = Inr (Some (leafHash sha (rawEntries t ! i)))"
proof -
  have "levels_get (levels t) 0 i = Some (leafHash sha (rawEntries t ! i))"
    using assms by (simp add: tree_inv_def cached_def block_def take_Suc hd_drop_conv_nth)
  with assms show ?thesis
    by (auto simp: tree_leafHash_def levels_get_def tree_inv_def split: if_splits)
qed

section \<open>The interface of the tree\<close>

text \<open>
  What a client of the \<open>MerkleTree\<close> interface relies on: entries are only appended, at the
  index returned; a failed append leaves the entries alone; roots and proofs are those of the
  entries. \<open>w\<close> is the environment of one append.
\<close>

locale merkle_log =
  fixes sha :: "bytes \<Rightarrow> bytes"
    and append :: "'w \<Rightarrow> bytes \<Rightarrow> 't \<Rightarrow> nat result \<times> 't"
    and root :: "'t \<Rightarrow> bytes result"
    and prove :: "int \<Rightarrow> 't \<Rightarrow> bytes list result"
    and leaf :: "int \<Rightarrow> 't \<Rightarrow> bytes option result"
    and entries :: "'t \<Rightarrow> bytes list"
    and ok :: "'t \<Rightarrow> bool"
  assumes append_ok: "ok t \<Longrightarrow> append w e t = (r, t') \<Longrightarrow>
      ok t' \<and> (case r of Inr i \<Rightarrow> i = length (entries t) \<and> entries t' = entries t @ [e]
                       | Inl _ \<Rightarrow> entries t' = entries t)"
    and root_ok: "ok t \<Longrightarrow> entries t \<noteq> [] \<Longrightarrow> root t = computeRoot sha (entries t)"
    and prove_ok: "ok t \<Longrightarrow> i < length (entries t) \<Longrightarrow>
      prove (int i) t = computeInclusionProof sha (int i) (entries t)"
    and leaf_ok: "ok t \<Longrightarrow> i < length (entries t) \<Longrightarrow>
      leaf (int i) t = Inr (Some (leafHash sha (entries t ! i)))"
begin

definition run :: "('w \<times> bytes) list \<Rightarrow> 't \<Rightarrow> 't" where
  "run wes t = fold (\<lambda>(w, e) t. snd (append w e t)) wes t"

lemma append_prefix: "ok t \<Longrightarrow> ok (snd (append w e t)) \<and> (\<exists>es. entries (snd (append w e t)) = entries t @ es)"
  using append_ok [of t w e "fst (append w e t)" "snd (append w e t)"] by (auto split: sum.splits)

lemma run_prefix: "ok t \<Longrightarrow> ok (run wes t) \<and> (\<exists>es. entries (run wes t) = entries t @ es)"
proof (induction wes arbitrary: t)
  case (Cons x wes)
  obtain w e where x: "x = (w, e)" by (cases x)
  have "ok (snd (append w e t))" using append_prefix [OF Cons.prems] by blast
  then show ?case
    using Cons.IH [of "snd (append w e t)"] append_prefix [OF Cons.prems, of w e]
    by (auto simp: run_def x)
qed (simp add: run_def)

lemma proofs_verify:
  assumes "\<And>x. length (sha x) = 32" and "ok t" and "i < length (entries t)"
  shows "\<exists>r p h. root t = Inr r \<and> prove (int i) t = Inr p \<and> leaf (int i) t = Inr (Some h)
    \<and> verifyInclusion sha (int i) (int (length (entries t))) h p r"
proof -
  let ?hs = "map (leafHash sha) (entries t)"
  have ne: "entries t \<noteq> []" using assms(3) by auto
  then have len: "length (mth sha ?hs) = 32"
    using assms(1) by (intro length_mth) (auto simp: leafHash_def)
  have "verifyPath sha i (length (entries t)) (?hs ! i) (incl_path sha i ?hs) = Some (mth sha ?hs)"
    using verifyPath_complete [of ?hs i sha] ne assms(3) by simp
  with assms ne len show ?thesis
    by (simp add: root_ok prove_ok leaf_ok computeRoot_mth computeInclusionProof_def
        inclusionProof_rec_path verifyInclusion_def ct_equal_iff leafHash_def)
qed

end

lemma tree_append_memory:
  assumes "tree_inv sha t"
  shows "tree_append sha wr e t = (r, t') \<Longrightarrow> tree_inv sha t'
    \<and> (case r of Inr i \<Rightarrow> i = length (rawEntries t) \<and> rawEntries t' = rawEntries t @ [e]
               | Inl _ \<Rightarrow> rawEntries t' = rawEntries t)"
proof -
  assume app: "tree_append sha wr e t = (r, t')"
  obtain r1 f where d: "(case persistFile t of None \<Rightarrow> (Inr (), t)
      | Some buf \<Rightarrow> let (r, buf') = appendDurably wr e buf in (r, t\<lparr>persistFile := Some buf'\<rparr>))
      = (r1, t\<lparr>persistFile := f\<rparr>)"
  proof (cases "persistFile t")
    case None
    then have "t = t\<lparr>persistFile := None\<rparr>" by (cases t) simp
    with None that [of "Inr ()" None] show thesis by simp
  next
    case (Some buf)
    with that [of "fst (appendDurably wr e buf)" "Some (snd (appendDurably wr e buf))"] show thesis
      by (simp add: case_prod_beta Let_def)
  qed
  let ?t = "t\<lparr>persistFile := f\<rparr>"
  have "tree_inv sha ?t" using assms by simp
  from appendInMemory_inv [OF this, of e] obtain lv where
    "appendInMemory sha e ?t = (Inr (length (rawEntries t)), ?t\<lparr>rawEntries := rawEntries t @ [e], levels := lv\<rparr>)"
    "tree_inv sha (?t\<lparr>rawEntries := rawEntries t @ [e], levels := lv\<rparr>)" by auto
  with app d assms show ?thesis
    by (auto simp: tree_append_def Let_def split: sum.splits)
qed

interpretation ltree: merkle_log sha "tree_append sha" "tree_root sha" "tree_inclusionProof sha"
  tree_leafHash rawEntries "tree_inv sha" for sha
  by unfold_locales
    (use tree_append_memory in \<open>auto simp: tree_root_eq tree_inclusionProof_eq tree_leafHash_eq\<close>)

section \<open>Persistence\<close>

definition write_progress :: "(bytes \<Rightarrow> int) \<Rightarrow> bool" where
  "write_progress wr \<longleftrightarrow> (\<forall>rest. rest \<noteq> [] \<longrightarrow> 0 < wr rest)"

lemma appendDurably_shape:
  "\<exists>m. snd (appendDurably wr rest buf) = buf @ take m rest
     \<and> (fst (appendDurably wr rest buf) = Inr () \<longrightarrow> length rest \<le> m)
     \<and> (fst (appendDurably wr rest buf) \<noteq> Inr () \<longrightarrow> m < length rest)"
proof (induction wr rest buf rule: appendDurably.induct)
  case (1 wr rest buf)
  show ?case
  proof (cases "rest = [] \<or> wr rest \<le> 0")
    case True
    then show ?thesis
      by (auto simp: appendDurably.simps [of wr rest buf] Let_def intro: exI [of _ 0])
  next
    case False
    let ?n = "nat (wr rest)"
    from False 1 obtain m where
      "snd (appendDurably wr (drop ?n rest) (buf @ take ?n rest))
        = (buf @ take ?n rest) @ take m (drop ?n rest)"
      "fst (appendDurably wr (drop ?n rest) (buf @ take ?n rest)) = Inr () \<longrightarrow> length (drop ?n rest) \<le> m"
      "fst (appendDurably wr (drop ?n rest) (buf @ take ?n rest)) \<noteq> Inr () \<longrightarrow> m < length (drop ?n rest)"
      by blast
    with False show ?thesis
      by (intro exI [of _ "?n + m"])
        (auto simp: appendDurably.simps [of wr rest buf] Let_def take_add)
  qed
qed

lemma appendDurably_ok: "fst (appendDurably wr e buf) = Inr () \<Longrightarrow> snd (appendDurably wr e buf) = buf @ e"
  using appendDurably_shape [of wr e buf] by auto

lemma appendDurably_progress: "write_progress wr \<Longrightarrow> appendDurably wr e buf = (Inr (), buf @ e)"
proof -
  assume w: "write_progress wr"
  then have "fst (appendDurably wr e buf) = Inr ()"
  proof (induction wr e buf rule: appendDurably.induct)
    case (1 wr rest buf)
    then show ?case
      by (auto simp: appendDurably.simps [of wr rest buf] Let_def write_progress_def)
  qed
  with appendDurably_ok [of wr e buf] show ?thesis
    by (metis prod.collapse)
qed

lemma chunks_concat:
  "\<forall>e \<in> set es. length e = n \<Longrightarrow> 0 < n \<Longrightarrow> chunks n (concat es) = es"
proof (induction es)
  case (Cons e es)
  then have "e \<noteq> []" by auto
  with Cons show ?case by (simp add: chunks.simps [of n "e @ concat es"])
qed (simp add: chunks.simps)

lemma length_concat_entries: "\<forall>e \<in> set es. length e = n \<Longrightarrow> length (concat es) = n * length es"
  by (induction es) auto

lemma nth_concat_32:
  "\<forall>h \<in> set hs. length h = 32 \<Longrightarrow> i < length hs \<Longrightarrow> subarray (i * 32) ((i + 1) * 32) (concat hs @ rest) = hs ! i"
proof (induction hs arbitrary: i)
  case (Cons h hs)
  then show ?case by (cases i) (auto simp: subarray_def)
qed simp

lemma appendInMemory_file:
  "appendInMemory sha e (t\<lparr>persistFile := f\<rparr>) =
     (fst (appendInMemory sha e t), (snd (appendInMemory sha e t))\<lparr>persistFile := f\<rparr>)"
  by (auto simp: appendInMemory_def Let_def split: prod.splits)

lemma replay_snoc:
  "replay sha es t0 = Inr t \<Longrightarrow> tree_inv sha t \<Longrightarrow>
   replay sha (es @ [e]) t0 = Inr (snd (appendInMemory sha e t))"
proof (induction sha es t0 rule: replay.induct)
  case (1 sha t0)
  then show ?case using appendInMemory_inv [of sha t e] by auto
qed (auto split: prod.splits sum.splits)

lemma replay_file:
  "replay sha es (t\<lparr>persistFile := f\<rparr>) = map_sum id (\<lambda>t. t\<lparr>persistFile := f\<rparr>) (replay sha es t)"
  by (induction sha es t rule: replay.induct)
    (auto simp: appendInMemory_file split: prod.splits sum.splits)

text \<open>A durable tree: its file holds its entries, and replaying them gives the tree.\<close>

definition durable :: "(bytes \<Rightarrow> bytes) \<Rightarrow> log_tree \<Rightarrow> bool" where
  "durable sha t \<longleftrightarrow> tree_inv sha t \<and> persistFile t = Some (concat (rawEntries t))
     \<and> (\<forall>e \<in> set (rawEntries t). length e = ENTRY_SIZE)
     \<and> replay sha (rawEntries t) (empty_tree None) = Inr (t\<lparr>persistFile := None\<rparr>)"

lemma durable_append:
  assumes "durable sha t" and "length e = ENTRY_SIZE" and "fst (tree_append sha wr e t) = Inr i"
  shows "durable sha (snd (tree_append sha wr e t))"
proof -
  let ?f = "concat (rawEntries t)"
  have inv: "tree_inv sha t" and persist: "persistFile t = Some ?f"
    using assms(1) by (auto simp: durable_def)
  have "fst (appendDurably wr e ?f) = Inr ()"
    using assms(3) persist by (auto simp: tree_append_def Let_def split: prod.splits sum.splits)
  then have d: "appendDurably wr e ?f = (Inr (), ?f @ e)"
    using appendDurably_ok by (metis prod.collapse)
  from appendInMemory_inv [OF inv, of e] obtain lv where mem: "appendInMemory sha e t =
      (Inr (length (rawEntries t)), t\<lparr>rawEntries := rawEntries t @ [e], levels := lv\<rparr>)" by blast
  let ?t = "t\<lparr>rawEntries := rawEntries t @ [e], levels := lv, persistFile := Some (?f @ e)\<rparr>"
  have res: "tree_append sha wr e t = (Inr (length (rawEntries t)), ?t)"
    using persist d mem by (simp add: tree_append_def appendInMemory_file)
  have "tree_inv sha ?t"
    using tree_append_memory [OF inv res] by simp
  moreover have "replay sha (rawEntries t @ [e]) (empty_tree None)
      = Inr (t\<lparr>rawEntries := rawEntries t @ [e], levels := lv, persistFile := None\<rparr>)"
    using replay_snoc [of sha "rawEntries t" "empty_tree None" "t\<lparr>persistFile := None\<rparr>" e] assms(1) mem
    by (simp add: durable_def appendInMemory_file)
  ultimately show ?thesis
    using assms(1, 2) by (simp add: res durable_def)
qed

lemma durable_empty: "durable sha (empty_tree (Some []))"
  by (simp add: durable_def empty_tree_def tree_inv_def levels_get_def cached_def)

lemma durable_restore:
  assumes "durable sha t"
  shows "createMerkleTree sha (Some (persistFile t)) = Inr t"
proof -
  let ?f = "concat (rawEntries t)"
  have *: "persistFile t = Some ?f" "\<forall>e \<in> set (rawEntries t). length e = ENTRY_SIZE"
    "replay sha (rawEntries t) (empty_tree None) = Inr (t\<lparr>persistFile := None\<rparr>)"
    using assms by (auto simp: durable_def)
  have "empty_tree (Some ?f) = (empty_tree None)\<lparr>persistFile := Some ?f\<rparr>"
    by (simp add: empty_tree_def)
  then show ?thesis
    using * chunks_concat [OF *(2)] length_concat_entries [OF *(2)]
    by (simp add: createMerkleTree_def replay_file ENTRY_SIZE_def)
qed

fun append_all ::
  "(bytes \<Rightarrow> bytes) \<Rightarrow> ((bytes \<Rightarrow> int) \<times> bytes) list \<Rightarrow> log_tree \<Rightarrow> log_tree result" where
  "append_all sha [] t = Inr t"
| "append_all sha ((wr, e) # wes) t =
     (case tree_append sha wr e t of (Inl err, _) \<Rightarrow> Inl err | (Inr _, t') \<Rightarrow> append_all sha wes t')"

lemma durable_append_all:
  "durable sha t \<Longrightarrow> \<forall>(wr, e) \<in> set wes. length e = ENTRY_SIZE \<Longrightarrow> append_all sha wes t = Inr t' \<Longrightarrow>
   durable sha t'"
proof (induction sha wes t rule: append_all.induct)
  case (2 sha wr e wes t)
  then show ?case
    using durable_append [of sha t e wr] by (auto split: prod.splits sum.splits)
qed simp

lemma tree_append_progress:
  assumes "tree_inv sha t" and "write_progress wr"
  shows "\<exists>t'. tree_append sha wr e t = (Inr (length (rawEntries t)), t')"
proof -
  have "fst (appendInMemory sha e (t\<lparr>persistFile := f\<rparr>)) = Inr (length (rawEntries t))" for f
    using appendInMemory_inv [OF assms(1), of e] by (auto simp: appendInMemory_file)
  moreover have "fst (appendInMemory sha e t) = Inr (length (rawEntries t))"
    using appendInMemory_inv [OF assms(1), of e] by auto
  ultimately show ?thesis
    using assms(2) by (cases "persistFile t")
      (auto simp: tree_append_def appendDurably_progress case_prod_beta split: prod.splits)
qed

lemma replay_inv: "tree_inv sha t0 \<Longrightarrow> replay sha es t0 = Inr t \<Longrightarrow> tree_inv sha t"
proof (induction sha es t0 rule: replay.induct)
  case (2 sha e es t)
  then show ?case using appendInMemory_inv [OF 2(2), of e] by auto
qed simp

lemma create_inv: "createMerkleTree sha pp = Inr t \<Longrightarrow> tree_inv sha t"
  by (auto simp: createMerkleTree_def split: option.splits if_splits intro: replay_inv [OF tree_inv_empty])

lemma persistFile_appendInMemory [simp]: "persistFile (snd (appendInMemory sha e t)) = persistFile t"
  by (simp add: appendInMemory_def case_prod_beta Let_def)

lemma tree_append_file:
  assumes "persistFile t = Some f" and "tree_append sha wr e t = (Inr i, t1)"
  shows "persistFile t1 = Some (f @ e)"
proof -
  obtain r b where d: "appendDurably wr e f = (r, b)" by (cases "appendDurably wr e f")
  with assms obtain u where r: "r = Inr u"
    by (cases r) (simp_all add: tree_append_def)
  with assms d have "t1 = snd (appendInMemory sha e (t\<lparr>persistFile := Some b\<rparr>))"
    by (simp add: tree_append_def case_prod_beta Let_def)
  with appendDurably_ok [of wr e f] d r show ?thesis by simp
qed

lemma file_append_all:
  "append_all sha wes t = Inr t' \<Longrightarrow> persistFile t = Some f \<Longrightarrow>
   persistFile t' = Some (f @ concat (map snd wes))"
proof (induction sha wes t arbitrary: f rule: append_all.induct)
  case (2 sha wr e wes t)
  then obtain i t1 where a: "tree_append sha wr e t = (Inr i, t1)" "append_all sha wes t1 = Inr t'"
    by (auto split: prod.splits sum.splits)
  have "persistFile t1 = Some (f @ e)"
    by (rule tree_append_file [OF 2(3) a(1)])
  with 2(1) [OF a(1) [symmetric] refl] a show ?case by simp
qed simp

section \<open>Properties\<close>

text \<open>C7: the cached tree refines the reference functions. Whatever the persistence option and
  however the writes behave, after any sequence of appends the root is \<open>computeRoot\<close> of the entries,
  each inclusion proof is the reference proof, and the leaf hash, proof and root the tree serves
  for an entry are accepted by \<open>verifyInclusion\<close>.\<close>

theorem log_tree_refines:
  assumes "\<And>x. length (sha x) = 32" and "createMerkleTree sha pp = Inr t0"
    and "t = fold (\<lambda>(wr, e) t. snd (tree_append sha wr e t)) wes t0" and "i < tree_size t"
  shows "tree_root sha t = computeRoot sha (rawEntries t)
    \<and> tree_inclusionProof sha (int i) t = computeInclusionProof sha (int i) (rawEntries t)
    \<and> (\<exists>r p h. tree_root sha t = Inr r \<and> tree_inclusionProof sha (int i) t = Inr p
         \<and> tree_leafHash (int i) t = Inr (Some h) \<and> h = leafHash sha (rawEntries t ! i)
         \<and> verifyInclusion sha (int i) (int (tree_size t)) h p r)"
proof -
  have "tree_inv sha t"
    unfolding assms(3) using ltree.run_prefix [OF create_inv [OF assms(2)]] by (simp add: ltree.run_def)
  moreover from this assms(4) have "tree_root sha t = computeRoot sha (rawEntries t)"
    by (intro tree_root_eq) (auto simp: tree_size_def)
  ultimately show ?thesis
    using ltree.proofs_verify [of sha t i] assms(1, 4) tree_leafHash_eq [of sha t i]
    by (auto simp: tree_inclusionProof_eq tree_size_def)
qed

theorem log_tree_refines_witness:
  "let t = fold (\<lambda>(wr, e) t. snd (tree_append pad32 wr e t)) [(\<lambda>_. 1, [5]), (\<lambda>_. 1, [6])] (empty_tree None)
   in tree_root pad32 t = computeRoot pad32 (rawEntries t)"
proof -
  define t where "t = fold (\<lambda>(wr, e) t. snd (tree_append pad32 wr e t))
    [(\<lambda>_. 1, [5]), (\<lambda>_. 1, [6])] (empty_tree None)"
  have wp: "write_progress (\<lambda>_. 1)" by (simp add: write_progress_def)
  obtain t1 where t1: "tree_append pad32 (\<lambda>_. 1) [5] (empty_tree None) = (Inr 0, t1)"
    using tree_append_progress [OF tree_inv_empty wp, of pad32 "[5]" None] by (auto simp: empty_tree_def)
  with tree_append_memory [OF tree_inv_empty t1] have inv: "tree_inv pad32 t1" "length (rawEntries t1) = 1"
    by (auto simp: empty_tree_def)
  obtain t2 where t2: "tree_append pad32 (\<lambda>_. 1) [6] t1 = (Inr 1, t2)"
    using tree_append_progress [OF inv(1) wp, of "[6]"] inv(2) by auto
  with tree_append_memory [OF inv(1) t2] t1 inv(2) have "length (rawEntries t) = 2"
    by (simp add: t_def)
  then show ?thesis
    using log_tree_refines [of pad32 None "empty_tree None" t "[(\<lambda>_. 1, [5]), (\<lambda>_. 1, [6])]" 1]
    by (simp add: t_def tree_size_def createMerkleTree_def Let_def)
qed

text \<open>C38: a restart loses nothing. After any number of successful appends of 90-byte entries to a
  tree with a fresh persistence file, with whatever partial writes, creating a tree from that
  file succeeds and gives the very same tree: entries, cached levels and file.\<close>

theorem restart_restores:
  assumes "\<forall>(wr, e) \<in> set wes. length e = ENTRY_SIZE"
    and "append_all sha wes (empty_tree (Some [])) = Inr t"
  shows "createMerkleTree sha (Some (persistFile t)) = Inr t
    \<and> persistFile t = Some (concat (map snd wes))"
  using durable_restore [OF durable_append_all [OF durable_empty assms]] file_append_all [OF assms(2)]
  by (simp add: empty_tree_def)

lemma append_one:
  "write_progress wr \<Longrightarrow> tree_inv sha t \<Longrightarrow> \<exists>t'. append_all sha [(wr, e)] t = Inr t'"
  using tree_append_progress [of sha t wr e] by auto

theorem restart_restores_witness:
  "\<exists>t. append_all pad32 [(\<lambda>_. 7, replicate 90 5)] (empty_tree (Some [])) = Inr t
    \<and> createMerkleTree pad32 (Some (persistFile t)) = Inr t \<and> persistFile t = Some (replicate 90 5)"
proof -
  obtain t where t: "append_all pad32 [(\<lambda>_. 7, replicate 90 5)] (empty_tree (Some [])) = Inr t"
    using append_one [of "\<lambda>_. 7" pad32 "empty_tree (Some [])" "replicate 90 5"]
    by (auto simp: write_progress_def)
  have "\<forall>(wr, e) \<in> set [(\<lambda>_ :: bytes. 7 :: int, replicate 90 (5 :: byte))]. length e = ENTRY_SIZE"
    by (simp add: ENTRY_SIZE_def)
  from restart_restores [OF this t] t show ?thesis by auto
qed

text \<open>A torn write is never repaired. If one durable append fails after writing a proper,
  non-empty part of a 90-byte entry, then whatever is appended successfully afterwards, the
  file can no longer be opened: creating a tree from it throws, although the later appends
  reported success.\<close>

theorem torn_write_blocks_restart:
  assumes "\<forall>(wr, e) \<in> set wes. length e = ENTRY_SIZE"
    and "append_all sha wes (empty_tree (Some [])) = Inr t" and "length e = ENTRY_SIZE"
    and "tree_append sha wr e t = (Inl err, t1)" and "persistFile t1 \<noteq> persistFile t"
    and "\<forall>(wr, e) \<in> set wes'. length e = ENTRY_SIZE" and "append_all sha wes' t1 = Inr t2"
  shows "\<exists>msg. createMerkleTree sha (Some (persistFile t2)) = Inl msg"
proof -
  let ?f = "concat (map snd wes)"
  have f: "persistFile t = Some ?f"
    using file_append_all [OF assms(2)] by (simp add: empty_tree_def)
  have inv: "tree_inv sha t"
    using durable_append_all [OF durable_empty assms(1, 2)] by (simp add: durable_def)
  obtain r b where d: "appendDurably wr e ?f = (r, b)" by (cases "appendDurably wr e ?f")
  have "r \<noteq> Inr ()"
    using assms(4) f d appendInMemory_inv [OF inv, of e]
    by (auto simp: tree_append_def appendInMemory_file)
  then have b: "b = snd (appendDurably wr e ?f)" "persistFile t1 = Some b"
      "fst (appendDurably wr e ?f) \<noteq> Inr ()"
    using assms(4) f d by (cases r; auto simp: tree_append_def)+
  then obtain m where m: "snd (appendDurably wr e ?f) = ?f @ take m e" "m < 90"
    using appendDurably_shape [of wr e ?f] assms(3) by (auto simp: ENTRY_SIZE_def)
  from b m f assms(5) have t1: "persistFile t1 = Some (?f @ take m e)" "0 < m" by (auto intro: gr0I)
  have len: "length (concat (map snd ws)) = 90 * length ws"
    if "\<forall>(wr, e) \<in> set ws. length e = ENTRY_SIZE" for ws :: "((bytes \<Rightarrow> int) \<times> bytes) list"
    using that by (subst length_concat_entries [of _ 90]) (auto simp: ENTRY_SIZE_def)
  have "length (take m e) = m" using m(2) assms(3) by (simp add: ENTRY_SIZE_def)
  then have "length ((?f @ take m e) @ concat (map snd wes')) mod 90 = m"
    using len [OF assms(1)] len [OF assms(6)] m(2)
    by (simp only: length_append) (simp add: mod_simps)
  with t1 file_append_all [OF assms(7) t1(1)] show ?thesis
    by (simp add: createMerkleTree_def ENTRY_SIZE_def)
qed

text \<open>The operating system accepts forty bytes and then no more.\<close>

definition torn_wr :: "bytes \<Rightarrow> int" where
  "torn_wr rest = (if length rest = 90 then 40 else 0)"

theorem torn_write_blocks_restart_witness:
  "\<exists>t1 t2 msg. tree_append pad32 torn_wr (replicate 90 5) (empty_tree (Some [])) =
       (Inl ''MerkleTree.append: durable write made no progress'', t1)
     \<and> append_all pad32 [(\<lambda>_. 90, replicate 90 6)] t1 = Inr t2
     \<and> createMerkleTree pad32 (Some (persistFile t2)) = Inl msg"
proof -
  let ?t1 = "empty_tree (Some (replicate 40 5))"
  have d: "appendDurably torn_wr (replicate 90 5) [] =
      (Inl ''MerkleTree.append: durable write made no progress'', replicate 40 5)"
    by (simp add: appendDurably.simps [of torn_wr] torn_wr_def)
  have t1: "tree_append pad32 torn_wr (replicate 90 5) (empty_tree (Some [])) =
      (Inl ''MerkleTree.append: durable write made no progress'', ?t1)"
    by (simp add: tree_append_def empty_tree_def d)
  obtain t2 where t2: "append_all pad32 [(\<lambda>_. 90, replicate 90 6)] ?t1 = Inr t2"
    using append_one [of "\<lambda>_. 90" pad32 ?t1 "replicate 90 6"] by (auto simp: write_progress_def)
  have "\<exists>msg. createMerkleTree pad32 (Some (persistFile t2)) = Inl msg"
    by (rule torn_write_blocks_restart [OF _ _ _ t1 _ _ t2, of "[]"])
      (simp_all add: ENTRY_SIZE_def empty_tree_def)
  with t1 t2 show ?thesis by blast
qed

end
