(* ===== verification/Attribution_Record.thy ===== *)
theory Attribution_Record
  imports Complex_Main Entry
begin

text \<open>
  Attribution records and everything that is computed from one record:
  \<open>packages/mcp/src/canon.ts\<close>, \<open>chain-root.ts\<close>, \<open>commitment.ts\<close>, \<open>token.ts\<close>, \<open>validation.ts\<close> and
  \<open>signing.ts\<close>, with \<open>hasCreatorSignerEntry\<close> of \<open>types.ts\<close>.

  A record arrives as parsed JSON, so it is a JSON object here: an association list from member
  names to values, with the insertion order JavaScript objects keep. The \<open>canonicalize\<close> package
  and the Ed25519 primitives are third-party code: \<open>canon\<close>, \<open>ed_pub\<close>, \<open>ed_sign\<close> and \<open>ed_verify\<close>
  are arguments of the definitions that call them. \<open>canon\<close> returns no string where the package
  returns \<open>undefined\<close>. A member that the type \<open>AtribRecord\<close> declares as a string fails
  verification here when it holds any other value.
\<close>

datatype json =
  JNull | JBool bool | JNum rat | JStr string | JArr "json list" | JObj "(string \<times> json) list"

type_synonym js_object = "(string, json) jsmap"

text \<open>Property access on a parsed value: only objects have the members the code asks for.\<close>

fun jget :: "json \<Rightarrow> string \<Rightarrow> json option" where
  "jget (JObj ms) k = map_of ms k"
| "jget _ k = None"

definition is_integer :: "rat \<Rightarrow> bool" where
  "is_integer r \<longleftrightarrow> snd (quotient_of r) = 1"

definition int_part :: "rat \<Rightarrow> int" where
  "int_part r = fst (quotient_of r)"

section \<open>Canonical bytes\<close>

definition canonical_bytes :: "(json \<Rightarrow> string option) \<Rightarrow> json \<Rightarrow> bytes result" where
  "canonical_bytes canon v =
     (case canon v of None \<Rightarrow> Inl ''atrib: canonicalization produced undefined''
                    | Some json \<Rightarrow> Inr (encode_utf8 json))"

definition canonicalSigningInput :: "(json \<Rightarrow> string option) \<Rightarrow> js_object \<Rightarrow> bytes result" where
  "canonicalSigningInput canon r = canonical_bytes canon (JObj (AList.delete ''signature'' r))"

definition canonicalRecord :: "(json \<Rightarrow> string option) \<Rightarrow> js_object \<Rightarrow> bytes result" where
  "canonicalRecord canon r = canonical_bytes canon (JObj r)"

definition canonicalCrossAttestationInput :: "(json \<Rightarrow> string option) \<Rightarrow> js_object \<Rightarrow> bytes result" where
  "canonicalCrossAttestationInput canon r =
     canonical_bytes canon
       (JObj (AList.update ''signers'' (JArr []) (AList.delete ''signers'' (AList.delete ''signature'' r))))"

section \<open>Chain roots\<close>

definition genesisChainRoot :: "(bytes \<Rightarrow> bytes) \<Rightarrow> string \<Rightarrow> string" where
  "genesisChainRoot sha contextId = sha256_prefix @ hexEncode (sha (encode_utf8 contextId))"

definition chainRoot :: "(bytes \<Rightarrow> bytes) \<Rightarrow> (json \<Rightarrow> string option) \<Rightarrow> js_object \<Rightarrow> string result" where
  "chainRoot sha canon parentRecord =
     rbind (canonicalRecord canon parentRecord) (\<lambda>canonical.
       Inr (sha256_prefix @ hexEncode (sha canonical)))"

text \<open>An absent option and an empty string are both falsy.\<close>

definition truthy :: "string option \<Rightarrow> bool" where
  "truthy s \<longleftrightarrow> s \<noteq> None \<and> s \<noteq> Some []"

definition resolveChainRoot ::
  "(bytes \<Rightarrow> bytes) \<Rightarrow> string \<Rightarrow> string option \<Rightarrow> string option \<Rightarrow> string option
   \<Rightarrow> (string \<Rightarrow> string option) \<Rightarrow> string" where
  "resolveChainRoot sha contextId inboundRecordHashHex autoChainTailHex mirrorTailHex env =
     (if truthy inboundRecordHashHex then sha256_prefix @ the inboundRecordHashHex
      else if truthy autoChainTailHex then sha256_prefix @ the autoChainTailHex
      else let envTail = env (''ATRIB_CHAIN_TAIL_'' @ contextId)
        in if truthy envTail \<and> is_sha256_ref (the envTail) then the envTail
           else if truthy mirrorTailHex \<and> lower_hex_string 64 (the mirrorTailHex)
           then sha256_prefix @ the mirrorTailHex
           else genesisChainRoot sha contextId)"

section \<open>Commitments\<close>

datatype JsonCommitmentScheme = PlainSha256 | SaltedSha256

record JsonCommitment =
  jc_hash :: string
  jc_salt :: "string option"

definition createJsonCommitment ::
  "(bytes \<Rightarrow> bytes) \<Rightarrow> (json \<Rightarrow> string option) \<Rightarrow> json \<Rightarrow> JsonCommitmentScheme \<Rightarrow> bytes
   \<Rightarrow> JsonCommitment result" where
  "createJsonCommitment sha canon v scheme saltBytes =
     (case canon v of
        None \<Rightarrow> Inl ''atrib: commitment value must be JCS-canonicalizable JSON''
      | Some json \<Rightarrow> let valueBytes = encode_utf8 json in
          (case scheme of
             PlainSha256 \<Rightarrow> Inr \<lparr>jc_hash = sha256_prefix @ hexEncode (sha valueBytes), jc_salt = None\<rparr>
           | SaltedSha256 \<Rightarrow>
               if length saltBytes \<noteq> 16
               then Inl ''atrib: commitment random source must return 16 bytes''
               else Inr \<lparr>jc_hash = sha256_prefix @ hexEncode (sha (saltBytes @ valueBytes)),
                         jc_salt = Some (base64urlEncode saltBytes)\<rparr>))"

definition createToolNameCommitment :: "(bytes \<Rightarrow> bytes) \<Rightarrow> string \<Rightarrow> string" where
  "createToolNameCommitment sha name = sha256_prefix @ hexEncode (sha (encode_utf8 name))"

definition verifyJsonCommitment ::
  "(bytes \<Rightarrow> bytes) \<Rightarrow> (json \<Rightarrow> string option) \<Rightarrow> json \<Rightarrow> JsonCommitment \<Rightarrow> bool" where
  "verifyJsonCommitment sha canon v commitment =
     (case canon v of
        None \<Rightarrow> False
      | Some json \<Rightarrow> let valueBytes = encode_utf8 json in
          (case jc_salt commitment of
             None \<Rightarrow> sha256_prefix @ hexEncode (sha valueBytes) = jc_hash commitment
           | Some salt \<Rightarrow>
               (case base64urlDecode salt of
                  Inl _ \<Rightarrow> False
                | Inr saltBytes \<Rightarrow>
                    if length saltBytes \<noteq> 16 then False
                    else sha256_prefix @ hexEncode (sha (saltBytes @ valueBytes)) = jc_hash commitment)))"

section \<open>Propagation tokens\<close>

record DecodedToken =
  dt_recordHash :: bytes
  dt_creatorKey :: bytes

definition encodeToken ::
  "(bytes \<Rightarrow> bytes) \<Rightarrow> (json \<Rightarrow> string option) \<Rightarrow> string \<Rightarrow> js_object \<Rightarrow> string result" where
  "encodeToken sha canon creator_key r =
     rbind (canonicalRecord canon r) (\<lambda>canonical.
     rbind (base64urlDecode creator_key) (\<lambda>creatorKeyBytes.
     Inr (base64urlEncode (sha canonical) @ ''.'' @ base64urlEncode creatorKeyBytes)))"

definition decodeToken :: "string \<Rightarrow> DecodedToken option" where
  "decodeToken token =
     (if CHR ''.'' \<notin> set token then None
      else let hashPart = takeWhile (\<lambda>c. c \<noteq> CHR ''.'') token;
               keyPart = tl (dropWhile (\<lambda>c. c \<noteq> CHR ''.'') token)
        in if length hashPart = 0 \<or> length keyPart = 0 then None
           else (case (base64urlDecode hashPart, base64urlDecode keyPart) of
                   (Inr recordHash, Inr creatorKey) \<Rightarrow>
                     if length recordHash \<noteq> 32 \<or> length creatorKey \<noteq> 32 then None
                     else Some \<lparr>dt_recordHash = recordHash, dt_creatorKey = creatorKey\<rparr>
                 | _ \<Rightarrow> None))"

section \<open>Admission checks\<close>

definition SPEC_VERSION :: string where "SPEC_VERSION = ''atrib/1.0''"
definition spec_version_error :: string where
  "spec_version_error = ''spec_version must be '' @ [CHR 0x27] @ SPEC_VERSION @ [CHR 0x27]"
definition MAX_FUTURE_SKEW_MS :: int where "MAX_FUTURE_SKEW_MS = 5 * 60 * 1000"
definition CONTENT_ID_REQUIRED_TYPES :: "string list" where
  "CONTENT_ID_REQUIRED_TYPES =
     [''https://atrib.dev/v1/types/tool_call'', ''https://atrib.dev/v1/types/transaction'',
      ''https://atrib.dev/v1/types/directory_anchor'', ''https://atrib.dev/v1/types/session_checkpoint'']"

definition signer_matches :: "string \<Rightarrow> json \<Rightarrow> bool" where
  "signer_matches creator_key entry \<longleftrightarrow>
     jget entry ''creator_key'' = Some (JStr creator_key)
     \<and> (case jget entry ''signature'' of Some (JStr s) \<Rightarrow> True | _ \<Rightarrow> False)"

definition is_transaction :: "js_object \<Rightarrow> bool" where
  "is_transaction r \<longleftrightarrow> map_of r ''event_type'' = Some (JStr ''https://atrib.dev/v1/types/transaction'')"

definition hasCreatorSignerEntry :: "js_object \<Rightarrow> bool" where
  "hasCreatorSignerEntry r =
     (if is_transaction r
      then (case (map_of r ''creator_key'', map_of r ''signers'') of
              (Some (JStr key), Some (JArr signers)) \<Rightarrow> list_ex (signer_matches key) signers
            | _ \<Rightarrow> False)
      else False)"

text \<open>A rejection carries the HTTP status and the message.\<close>

type_synonym validation = "(nat \<times> string) + unit"

definition reject400 :: "string \<Rightarrow> validation" where
  "reject400 msg = Inl (400, msg)"

definition str_of :: "json option \<Rightarrow> string option" where
  "str_of v = (case v of Some (JStr s) \<Rightarrow> Some s | _ \<Rightarrow> None)"

definition is_ref_value :: "json \<Rightarrow> bool" where
  "is_ref_value v = (case v of JStr s \<Rightarrow> is_sha256_ref s | _ \<Rightarrow> False)"

definition validateSubmission :: "int \<Rightarrow> json \<Rightarrow> validation" where
  "validateSubmission now v =
     (case v of
        JObj r \<Rightarrow>
          (if map_of r ''spec_version'' \<noteq> Some (JStr SPEC_VERSION)
           then reject400 spec_version_error
           else case str_of (map_of r ''event_type'') of
             None \<Rightarrow> reject400 ''event_type must be a syntactically-valid absolute URI''
           | Some event_type \<Rightarrow>
           if \<not> isValidEventTypeUri event_type
           then reject400 ''event_type must be a syntactically-valid absolute URI''
           else case map_of r ''timestamp'' of
             Some (JNum t) \<Rightarrow>
               if \<not> is_integer t \<or> t < 0
               then reject400 ''timestamp must be a non-negative integer''
               else if MAX_FUTURE_SKEW_MS < int_part t - now
               then reject400 ''timestamp is more than 5 minutes in the future''
               else (case str_of (map_of r ''context_id'') of
                 None \<Rightarrow> reject400 ''context_id must be 32 lowercase hex characters''
               | Some context_id \<Rightarrow>
               if \<not> lower_hex_string 32 context_id
               then reject400 ''context_id must be 32 lowercase hex characters''
               else if str_of (map_of r ''creator_key'') = None
               then reject400 ''creator_key is required and must be a string''
               else case str_of (map_of r ''chain_root'') of
                 None \<Rightarrow> reject400 ''chain_root is required and must be a string''
               | Some chain_root \<Rightarrow>
               if \<not> hasCreatorSignerEntry r \<and> str_of (map_of r ''signature'') = None
               then reject400 ''signature is required unless a transaction has a creator signer''
               else if map_of r ''signature'' \<noteq> None \<and> str_of (map_of r ''signature'') = None
               then reject400 ''signature must be a string when present''
               else if \<not> is_sha256_ref chain_root
               then reject400 ''chain_root must match sha256:<64-hex>''
               else if event_type \<in> set CONTENT_ID_REQUIRED_TYPES \<and> map_of r ''content_id'' = None
               then reject400 ''content_id is required for this event_type''
               else if map_of r ''content_id'' \<noteq> None \<and> \<not> is_ref_value (the (map_of r ''content_id''))
               then reject400 ''content_id must match sha256:<64-hex>''
               else if map_of r ''session_token'' \<noteq> None \<and> str_of (map_of r ''session_token'') = None
               then reject400 ''session_token must be a string when present''
               else (case map_of r ''informed_by'' of
                       None \<Rightarrow> Inr ()
                     | Some (JArr ib) \<Rightarrow>
                         if list_all is_ref_value ib then Inr ()
                         else reject400 ''informed_by entries must each match sha256:<64-hex>''
                     | Some _ \<Rightarrow> reject400 ''informed_by must be an array when present''))
           | _ \<Rightarrow> reject400 ''timestamp must be a non-negative integer'')
      | _ \<Rightarrow> reject400 spec_version_error)"

section \<open>Signing and verification\<close>

definition drop_absent_session_token :: "js_object \<Rightarrow> js_object" where
  "drop_absent_session_token r =
     (if map_of r ''session_token'' \<noteq> None then r else AList.delete ''session_token'' r)"

definition signRecord ::
  "(json \<Rightarrow> string option) \<Rightarrow> (bytes \<Rightarrow> bytes \<Rightarrow> bytes) \<Rightarrow> js_object \<Rightarrow> bytes \<Rightarrow> js_object result" where
  "signRecord canon ed_sign r privateKey =
     rbind (canonicalSigningInput canon r) (\<lambda>signingInput.
       let sigEncoded = base64urlEncode (ed_sign signingInput privateKey)
       in Inr (AList.update ''signature'' (JStr sigEncoded) (drop_absent_session_token r)))"

definition signer_entry :: "string \<Rightarrow> string \<Rightarrow> json" where
  "signer_entry key sig = JObj [(''creator_key'', JStr key), (''signature'', JStr sig)]"

definition signTransactionRecord ::
  "(json \<Rightarrow> string option) \<Rightarrow> (bytes \<Rightarrow> bytes) \<Rightarrow> (bytes \<Rightarrow> bytes \<Rightarrow> bytes) \<Rightarrow> js_object \<Rightarrow> bytes
   \<Rightarrow> json list \<Rightarrow> js_object result" where
  "signTransactionRecord canon ed_pub ed_sign r privateKey counterpartySigners =
     (let creatorKey = base64urlEncode (ed_pub privateKey);
          transactionRecord =
            AList.update ''signers'' (JArr []) (AList.update ''signature'' (JStr [])
              (AList.update ''creator_key'' (JStr creatorKey) r))
      in rbind (canonicalCrossAttestationInput canon transactionRecord) (\<lambda>signingInput.
         let signer = signer_entry creatorKey (base64urlEncode (ed_sign signingInput privateKey))
         in Inr (drop_absent_session_token
              (AList.update ''signers'' (JArr (signer # counterpartySigners)) transactionRecord))))"

definition signTransactionAttestation ::
  "(json \<Rightarrow> string option) \<Rightarrow> (bytes \<Rightarrow> bytes) \<Rightarrow> (bytes \<Rightarrow> bytes \<Rightarrow> bytes) \<Rightarrow> js_object \<Rightarrow> bytes
   \<Rightarrow> json result" where
  "signTransactionAttestation canon ed_pub ed_sign r privateKey =
     (if \<not> is_transaction r
      then Inl ''atrib: transaction attestation requires a transaction record''
      else rbind (canonicalCrossAttestationInput canon r) (\<lambda>input.
        Inr (signer_entry (base64urlEncode (ed_pub privateKey)) (base64urlEncode (ed_sign input privateKey)))))"

text \<open>\<open>signers.find\<close>: reading a member of \<open>null\<close> throws, and the surrounding \<open>try\<close> gives false.\<close>

fun find_signer :: "string \<Rightarrow> json list \<Rightarrow> json result" where
  "find_signer key [] = Inl ''no signer''"
| "find_signer key (e # es) =
     (if e = JNull then Inl ''TypeError''
      else if jget e ''creator_key'' = Some (JStr key) then Inr e
      else find_signer key es)"

definition check_signature ::
  "(bytes \<Rightarrow> bytes \<Rightarrow> bytes \<Rightarrow> bool) \<Rightarrow> json option \<Rightarrow> bytes result \<Rightarrow> bytes \<Rightarrow> bool" where
  "check_signature ed_verify sig input pubKey =
     (case str_of sig of
        None \<Rightarrow> False
      | Some s \<Rightarrow>
          (case base64urlDecode s of
             Inl _ \<Rightarrow> False
           | Inr sigBytes \<Rightarrow>
               if length sigBytes \<noteq> 64 then False
               else (case input of Inl _ \<Rightarrow> False | Inr m \<Rightarrow> ed_verify sigBytes m pubKey)))"

text \<open>The elements of \<open>record.signers\<close> when it is an array.\<close>

definition signers_of :: "js_object \<Rightarrow> json list" where
  "signers_of r = (case map_of r ''signers'' of Some (JArr es) \<Rightarrow> es | _ \<Rightarrow> [])"

definition verify_signature ::
  "(json \<Rightarrow> string option) \<Rightarrow> (bytes \<Rightarrow> bytes \<Rightarrow> bytes \<Rightarrow> bool) \<Rightarrow> js_object \<Rightarrow> bool" where
  "verify_signature canon ed_verify r =
     (case str_of (map_of r ''creator_key'') of
        None \<Rightarrow> False
      | Some key \<Rightarrow>
          (case base64urlDecode key of
             Inl _ \<Rightarrow> False
           | Inr pubKeyBytes \<Rightarrow>
               if length pubKeyBytes \<noteq> 32 then False
               else if is_transaction r \<and> signers_of r \<noteq> []
               then (case find_signer key (signers_of r) of
                       Inl _ \<Rightarrow> False
                     | Inr s \<Rightarrow> check_signature ed_verify (jget s ''signature'')
                                 (canonicalCrossAttestationInput canon r) pubKeyBytes)
               else check_signature ed_verify (map_of r ''signature'')
                      (canonicalSigningInput canon r) pubKeyBytes))"

definition verifyRecord ::
  "(json \<Rightarrow> string option) \<Rightarrow> (bytes \<Rightarrow> bytes \<Rightarrow> bytes \<Rightarrow> bool) \<Rightarrow> int \<Rightarrow> js_object \<Rightarrow> bool" where
  "verifyRecord canon ed_verify nowMs r =
     (if \<not> verify_signature canon ed_verify r then False
      else if map_of r ''spec_version'' \<noteq> Some (JStr ''atrib/1.0'') then False
      else (case str_of (map_of r ''event_type'') of
              None \<Rightarrow> False
            | Some event_type \<Rightarrow>
                if \<not> isValidEventTypeUri event_type then False
                else (case map_of r ''timestamp'' of
                        Some (JNum t) \<Rightarrow>
                          if \<not> is_integer t \<or> t < 0 then False
                          else if nowMs < 0 then False
                          else if nowMs + 5 * 60 * 1000 < int_part t then False
                          else (case str_of (map_of r ''context_id'') of
                                  None \<Rightarrow> False
                                | Some context_id \<Rightarrow> lower_hex_string 32 context_id)
                      | _ \<Rightarrow> False)))"

section \<open>Lemmas\<close>

lemma delete_absent: "map_of m k = None \<Longrightarrow> AList.delete k m = m"
  by (simp add: map_of_eq_None_iff)

lemma drop_absent_session_token_id [simp]: "drop_absent_session_token r = r"
  by (simp add: drop_absent_session_token_def delete_absent)

lemmas object_simps =
  delete_update_same delete_update jsmap_simps

lemma is_integer_of_int [simp]: "is_integer (of_int t)" "int_part (of_int t) = t"
  by (simp_all add: is_integer_def int_part_def)

text \<open>The bytes every signer of a transaction covers do not depend on the signers or the signature.\<close>

lemma cross_input_stable:
  "canonicalCrossAttestationInput canon (AList.update ''signers'' x (AList.update ''signature'' s r))
   = canonicalCrossAttestationInput canon r"
  "canonicalCrossAttestationInput canon (AList.update ''signers'' x r) = canonicalCrossAttestationInput canon r"
  "canonicalCrossAttestationInput canon (AList.update ''signature'' s r) = canonicalCrossAttestationInput canon r"
  by (simp_all add: canonicalCrossAttestationInput_def object_simps)

lemma signing_input_stable:
  "canonicalSigningInput canon (AList.update ''signature'' s r) = canonicalSigningInput canon r"
  by (simp add: canonicalSigningInput_def object_simps)

lemma check_signature_encoded:
  "length sig = 64 \<Longrightarrow> check_signature ed_verify (Some (JStr (base64urlEncode sig))) (Inr m) pk
     = ed_verify sig m pk"
  by (simp add: check_signature_def str_of_def)

text \<open>The checks on the other members, which signing leaves alone.\<close>

definition fields_ok :: "int \<Rightarrow> js_object \<Rightarrow> bool" where
  "fields_ok now r \<longleftrightarrow>
     map_of r ''spec_version'' = Some (JStr ''atrib/1.0'')
     \<and> (\<exists>e. map_of r ''event_type'' = Some (JStr e) \<and> isValidEventTypeUri e)
     \<and> 0 \<le> now
     \<and> (\<exists>t. map_of r ''timestamp'' = Some (JNum (of_int t)) \<and> 0 \<le> t \<and> t \<le> now + 300000)
     \<and> (\<exists>c. map_of r ''context_id'' = Some (JStr c) \<and> lower_hex_string 32 c)"

lemma fields_ok_update:
  "k \<notin> {''spec_version'', ''event_type'', ''timestamp'', ''context_id''} \<Longrightarrow>
   fields_ok now (AList.update k v r) = fields_ok now r"
proof -
  assume "k \<notin> {''spec_version'', ''event_type'', ''timestamp'', ''context_id''}"
  then have "map_of (AList.update k v r) f = map_of r f"
    if "f \<in> {''spec_version'', ''event_type'', ''timestamp'', ''context_id''}" for f
    using that by (metis jsmap.get_put_other)
  then show ?thesis unfolding fields_ok_def by simp
qed

lemma is_integer_iff: "is_integer q \<longleftrightarrow> (\<exists>t. q = of_int t)"
proof
  assume "is_integer q"
  then have "quotient_of q = (int_part q, 1)" by (simp add: is_integer_def int_part_def prod_eq_iff)
  then have "q = of_int (int_part q) / of_int 1" by (rule quotient_of_div)
  then show "\<exists>t. q = of_int t" by auto
qed auto

lemma verifyRecord_iff:
  "verifyRecord canon ed_verify now r \<longleftrightarrow> verify_signature canon ed_verify r \<and> fields_ok now r"
  by (auto simp: verifyRecord_def fields_ok_def str_of_def is_integer_iff split: option.splits json.splits)

lemma takeWhile_dot: "CHR ''.'' \<notin> set s \<Longrightarrow> takeWhile (\<lambda>c. c \<noteq> CHR ''.'') (s @ CHR ''.'' # t) = s"
  "CHR ''.'' \<notin> set s \<Longrightarrow> dropWhile (\<lambda>c. c \<noteq> CHR ''.'') (s @ CHR ''.'' # t) = CHR ''.'' # t"
  by (induction s) auto

lemma dot_notin_base64url: "CHR ''.'' \<notin> set (base64urlEncode bs)"
  using base64urlEncode_chars [of bs] dot_not_b64url(1) by (auto simp: list_all_iff)

section \<open>Properties\<close>

text \<open>Concrete primitives for the witnesses: a signature that repeats key and message, and a
  canonical form that lists the member names.\<close>

definition toy_sign :: "bytes \<Rightarrow> bytes \<Rightarrow> bytes" where
  "toy_sign m sk = take 64 (pad32 sk @ m @ replicate 64 0)"

definition toy_verify :: "bytes \<Rightarrow> bytes \<Rightarrow> bytes \<Rightarrow> bool" where
  "toy_verify s m pk \<longleftrightarrow> s = take 64 (pk @ m @ replicate 64 0)"

definition toy_canon :: "json \<Rightarrow> string option" where
  "toy_canon v = (case v of JObj ms \<Rightarrow> Some (concat (map fst ms)) | JStr s \<Rightarrow> Some s | _ \<Rightarrow> None)"

definition toy_record :: "string \<Rightarrow> js_object" where
  "toy_record event_type =
     [(''spec_version'', JStr ''atrib/1.0''), (''event_type'', JStr event_type),
      (''timestamp'', JNum (of_int 1000)), (''context_id'', JStr (replicate 32 (CHR ''a''))),
      (''creator_key'', JStr (base64urlEncode (pad32 [7])))]"

lemma toy_signature: "length (toy_sign m sk) = 64 \<and> toy_verify (toy_sign m sk) m (pad32 sk)"
  by (simp add: toy_sign_def toy_verify_def)

lemma lower_hex_replicate: "lower_hex_string n (replicate n (CHR ''a''))"
  by (simp add: lower_hex_string_def is_lower_hex_def list_all_iff)

lemma toy_fields: "isValidEventTypeUri e \<Longrightarrow> fields_ok 2000 (toy_record e)"
  by (auto simp: fields_ok_def toy_record_def lower_hex_replicate)

text \<open>Sign, then verify. A record with well-formed members and the signer's key, signed with
  \<open>signRecord\<close>, passes \<open>verifyRecord\<close>, for every Ed25519 implementation whose signatures have 64
  bytes and verify under the matching 32-byte key, and every canonicaliser that accepts it.\<close>

theorem sign_then_verify:
  assumes "\<And>m. length (ed_sign m sk) = 64 \<and> ed_verify (ed_sign m sk) m (ed_pub sk)"
    and "length (ed_pub sk) = 32"
    and "canon (JObj (AList.delete ''signature'' r)) = Some s"
    and "map_of r ''creator_key'' = Some (JStr (base64urlEncode (ed_pub sk)))"
    and "\<not> (is_transaction r \<and> signers_of r \<noteq> [])"
    and "fields_ok now r"
  shows "\<exists>r'. signRecord canon ed_sign r sk = Inr r' \<and> verifyRecord canon ed_verify now r'
    \<and> (\<forall>k. k \<noteq> ''signature'' \<longrightarrow> map_of r' k = map_of r k)"
proof -
  let ?m = "encode_utf8 s"
  let ?r = "AList.update ''signature'' (JStr (base64urlEncode (ed_sign ?m sk))) r"
  have input: "canonicalSigningInput canon r = Inr ?m"
    using assms(3) by (simp add: canonicalSigningInput_def canonical_bytes_def)
  have "is_transaction ?r = is_transaction r" "signers_of ?r = signers_of r"
    by (simp_all add: is_transaction_def signers_of_def jsmap_simps)
  then have "verify_signature canon ed_verify ?r"
    using assms(1, 2, 4, 5) input
    by (auto simp: verify_signature_def jsmap_simps str_of_def signing_input_stable check_signature_encoded)
  then have "verifyRecord canon ed_verify now ?r"
    using assms(6) by (simp add: verifyRecord_iff fields_ok_update)
  then show ?thesis
    by (auto simp: signRecord_def input jsmap_simps intro!: exI [of _ ?r])
qed

theorem sign_then_verify_witness:
  "\<exists>r'. signRecord toy_canon toy_sign (toy_record EVENT_TYPE_REVISION_URI) [7] = Inr r'
    \<and> verifyRecord toy_canon toy_verify 2000 r'
    \<and> (\<forall>k. k \<noteq> ''signature'' \<longrightarrow> map_of r' k = map_of (toy_record EVENT_TYPE_REVISION_URI) k)"
proof (rule sign_then_verify)
  show "length (toy_sign m [7]) = 64 \<and> toy_verify (toy_sign m [7]) m (pad32 [7])" for m
    by (rule toy_signature)
  show "fields_ok 2000 (toy_record EVENT_TYPE_REVISION_URI)"
    by (rule toy_fields, rule normative_valid)
      (simp add: isNormativeEventTypeUri_def NORMATIVE_EVENT_TYPE_URIS_def EVENT_TYPE_SHORT_TO_URI_def)
  show "toy_canon (JObj (AList.delete ''signature'' (toy_record EVENT_TYPE_REVISION_URI)))
      = Some (concat (map fst (toy_record EVENT_TYPE_REVISION_URI)))"
    by (simp add: toy_canon_def toy_record_def)
qed (simp_all add: toy_record_def is_transaction_def EVENT_TYPE_REVISION_URI_def)

text \<open>A cross-attested transaction. \<open>signTransactionRecord\<close> gives a record that \<open>verifyRecord\<close>
  accepts whatever counterparty entries it carries, and a counterparty that attests the signed
  record signs the same bytes as the creator did.\<close>

theorem sign_transaction_then_verify:
  assumes "\<And>m. length (ed_sign m sk) = 64 \<and> ed_verify (ed_sign m sk) m (ed_pub sk)"
    and "length (ed_pub sk) = 32"
    and "canonicalCrossAttestationInput canon
           (AList.update ''creator_key'' (JStr (base64urlEncode (ed_pub sk))) r) = Inr m"
    and "is_transaction r" and "fields_ok now r"
  shows "\<exists>r'. signTransactionRecord canon ed_pub ed_sign r sk others = Inr r'
    \<and> verifyRecord canon ed_verify now r'
    \<and> signTransactionAttestation canon ed_pub ed_sign r' sk2
        = Inr (signer_entry (base64urlEncode (ed_pub sk2)) (base64urlEncode (ed_sign m sk2)))"
proof -
  let ?key = "base64urlEncode (ed_pub sk)"
  let ?e = "signer_entry ?key (base64urlEncode (ed_sign m sk))"
  let ?k = "AList.update ''creator_key'' (JStr ?key) r"
  let ?t = "AList.update ''signers'' (JArr []) (AList.update ''signature'' (JStr []) ?k)"
  define r' where "r' = AList.update ''signers'' (JArr (?e # others)) ?t"
  have input: "canonicalCrossAttestationInput canon ?t = Inr m"
    "canonicalCrossAttestationInput canon r' = Inr m"
    using assms(3) by (simp_all add: cross_input_stable r'_def)
  have sgn: "signTransactionRecord canon ed_pub ed_sign r sk others = Inr r'"
    by (simp add: signTransactionRecord_def input(1) Let_def r'_def)
  have members: "is_transaction r'" "signers_of r' = ?e # others"
    "map_of r' ''creator_key'' = Some (JStr ?key)"
    using assms(4) by (simp_all add: is_transaction_def signers_of_def jsmap_simps r'_def)
  have "find_signer ?key (?e # others) = Inr ?e"
    by (simp add: signer_entry_def)
  moreover have "jget ?e ''signature'' = Some (JStr (base64urlEncode (ed_sign m sk)))"
    by (simp add: signer_entry_def)
  ultimately have "verify_signature canon ed_verify r'"
    using assms(1, 2)
    by (simp add: verify_signature_def members input(2) str_of_def check_signature_encoded
        del: find_signer.simps)
  moreover have "fields_ok now r'"
    using assms(5) by (simp add: fields_ok_update r'_def)
  ultimately show ?thesis
    using sgn members(1) input(2)
    by (auto simp: verifyRecord_iff signTransactionAttestation_def)
qed

theorem sign_transaction_then_verify_witness:
  "\<exists>m r'. signTransactionRecord toy_canon pad32 toy_sign (toy_record EVENT_TYPE_TRANSACTION_URI) [7] [JNull]
      = Inr r'
    \<and> verifyRecord toy_canon toy_verify 2000 r'
    \<and> signTransactionAttestation toy_canon pad32 toy_sign r' [8]
        = Inr (signer_entry (base64urlEncode (pad32 [8])) (base64urlEncode (toy_sign m [8])))"
proof -
  let ?r = "AList.update ''creator_key'' (JStr (base64urlEncode (pad32 [7]))) (toy_record EVENT_TYPE_TRANSACTION_URI)"
  obtain m where m: "canonicalCrossAttestationInput toy_canon ?r = Inr m"
    by (simp add: canonicalCrossAttestationInput_def canonical_bytes_def toy_canon_def)
  have "fields_ok 2000 (toy_record EVENT_TYPE_TRANSACTION_URI)"
    by (rule toy_fields, rule normative_valid)
      (simp add: isNormativeEventTypeUri_def NORMATIVE_EVENT_TYPE_URIS_def EVENT_TYPE_SHORT_TO_URI_def)
  moreover have "is_transaction (toy_record EVENT_TYPE_TRANSACTION_URI)"
    by (simp add: is_transaction_def toy_record_def EVENT_TYPE_TRANSACTION_URI_def)
  ultimately show ?thesis
    using sign_transaction_then_verify [of toy_sign "[7]" toy_verify pad32 toy_canon
        "toy_record EVENT_TYPE_TRANSACTION_URI" m 2000 "[JNull]" "[8]"] m toy_signature by auto
qed

text \<open>Tokens. The token of a record with a 32-byte key decodes to the record's digest and that
  key, for every 32-byte digest function.\<close>

theorem token_roundtrip:
  assumes "\<And>x. length (sha x) = 32" and "canonicalRecord canon r = Inr bs" and "length key = 32"
  shows "\<exists>token. encodeToken sha canon (base64urlEncode key) r = Inr token
    \<and> length token = 87
    \<and> decodeToken token = Some \<lparr>dt_recordHash = sha bs, dt_creatorKey = key\<rparr>"
proof -
  have "sha bs \<noteq> []" "key \<noteq> []" using assms(1) [of bs] assms(3) by force+
  with assms show ?thesis
    by (simp add: encodeToken_def decodeToken_def takeWhile_dot dot_notin_base64url
        length_base64urlEncode_32)
qed

theorem token_roundtrip_witness:
  "\<exists>token. encodeToken pad32 toy_canon (base64urlEncode (pad32 [7])) (toy_record []) = Inr token
    \<and> length token = 87
    \<and> decodeToken token = Some \<lparr>dt_recordHash = pad32 (encode_utf8 (concat (map fst (toy_record [])))),
        dt_creatorKey = pad32 [7]\<rparr>"
  by (rule token_roundtrip) (simp_all add: canonicalRecord_def canonical_bytes_def toy_canon_def)

text \<open>Chain-root resolution. The result is always a digest reference when the two in-process
  tails are 64 hex digits, whatever the environment and the mirror hold; and the sources are
  consulted in the documented order.\<close>

theorem resolve_chain_root_wf:
  assumes "\<And>x. length (sha x) = 32"
    and "\<And>h. inbound = Some h \<Longrightarrow> lower_hex_string 64 h"
    and "\<And>h. autoTail = Some h \<Longrightarrow> lower_hex_string 64 h"
  shows "is_sha256_ref (resolveChainRoot sha ctx inbound autoTail mirror env)
    \<and> (inbound = Some h \<longrightarrow> resolveChainRoot sha ctx inbound autoTail mirror env = ''sha256:'' @ h)
    \<and> (inbound = None \<and> autoTail = Some h \<longrightarrow>
         resolveChainRoot sha ctx inbound autoTail mirror env = ''sha256:'' @ h)
    \<and> (inbound = None \<and> autoTail = None \<and> env (''ATRIB_CHAIN_TAIL_'' @ ctx) = Some e \<and> is_sha256_ref e \<longrightarrow>
         resolveChainRoot sha ctx inbound autoTail mirror env = e)
    \<and> (inbound = None \<and> autoTail = None \<and> mirror = None
         \<and> (\<forall>e. env (''ATRIB_CHAIN_TAIL_'' @ ctx) = Some e \<longrightarrow> \<not> is_sha256_ref e) \<longrightarrow>
         resolveChainRoot sha ctx inbound autoTail mirror env = genesisChainRoot sha ctx)"
proof -
  have "lower_hex_string 64 (hexEncode (sha x))" for x
    using lower_hex_string_hexEncode [of "sha x"] assms(1) by simp
  then have gen: "is_sha256_ref (genesisChainRoot sha ctx)"
    by (simp add: genesisChainRoot_def is_sha256_ref_prefix)
  have "\<not> lower_hex_string 64 []" by (simp add: lower_hex_string_def)
  moreover have "\<not> is_sha256_ref []" by (simp add: is_sha256_ref_def lower_hex_string_def)
  ultimately show ?thesis
    using assms(2, 3) gen
    by (auto simp: resolveChainRoot_def truthy_def Let_def is_sha256_ref_prefix sha256_prefix_def [symmetric])
qed

theorem resolve_chain_root_wf_witness:
  "is_sha256_ref (resolveChainRoot pad32 ''ctx'' None (Some (replicate 64 (CHR ''a''))) (Some ''bad'') (\<lambda>_. None))"
  by (rule resolve_chain_root_wf [of pad32 None "Some (replicate 64 (CHR ''a''))" "''ctx''"
        "Some ''bad''" "\<lambda>_. None", THEN conjunct1]) (simp_all add: lower_hex_replicate)

text \<open>The string a commitment hashes.\<close>

definition commitment_input :: "JsonCommitmentScheme \<Rightarrow> bytes \<Rightarrow> string \<Rightarrow> bytes" where
  "commitment_input scheme salt json =
     (case scheme of PlainSha256 \<Rightarrow> encode_utf8 json | SaltedSha256 \<Rightarrow> salt @ encode_utf8 json)"

lemma commitment_input_inject [simp]:
  "commitment_input scheme salt x = commitment_input scheme salt y \<longleftrightarrow> x = y"
  by (simp add: commitment_input_def split: JsonCommitmentScheme.splits)

lemma createJsonCommitment_verify:
  assumes "canon v = Some json" and "length salt = 16"
  shows "\<exists>c. createJsonCommitment sha canon v scheme salt = Inr c
    \<and> (\<forall>w. verifyJsonCommitment sha canon w c \<longleftrightarrow> (\<exists>json'. canon w = Some json'
          \<and> sha (commitment_input scheme salt json') = sha (commitment_input scheme salt json)))"
  using assms
  by (cases scheme)
    (auto simp: createJsonCommitment_def verifyJsonCommitment_def Let_def commitment_input_def
      split: option.splits)

text \<open>Commitments. What \<open>createJsonCommitment\<close> returns verifies against the committed value, and
  where the digest has no collision between the two strings hashed, a value that verifies has
  the committed value's canonical form.\<close>

theorem commitment_complete_binding:
  assumes "canon v = Some json" and "length salt = 16"
  shows "\<exists>c. createJsonCommitment sha canon v scheme salt = Inr c
    \<and> verifyJsonCommitment sha canon v c
    \<and> (\<forall>w json'. canon w = Some json' \<and> verifyJsonCommitment sha canon w c
         \<and> inj_on sha {commitment_input scheme salt json, commitment_input scheme salt json'}
         \<longrightarrow> json' = json)"
proof -
  from createJsonCommitment_verify [of canon v json salt sha scheme] assms
  obtain c where c: "createJsonCommitment sha canon v scheme salt = Inr c"
    "\<And>w. verifyJsonCommitment sha canon w c \<longleftrightarrow> (\<exists>json'. canon w = Some json'
      \<and> sha (commitment_input scheme salt json') = sha (commitment_input scheme salt json))" by blast
  have "json' = json" if "canon w = Some json'" "verifyJsonCommitment sha canon w c"
    "inj_on sha {commitment_input scheme salt json, commitment_input scheme salt json'}" for w json'
    using that inj_onD [OF that(3), of "commitment_input scheme salt json'" "commitment_input scheme salt json"]
    by (auto simp: c(2))
  with c assms(1) show ?thesis by blast
qed

theorem commitment_complete_binding_witness:
  "\<exists>c. createJsonCommitment pad32 toy_canon (JStr ''x'') SaltedSha256 (replicate 16 3) = Inr c
    \<and> verifyJsonCommitment pad32 toy_canon (JStr ''x'') c
    \<and> (\<forall>w json'. toy_canon w = Some json' \<and> verifyJsonCommitment pad32 toy_canon w c
         \<and> inj_on pad32 {commitment_input SaltedSha256 (replicate 16 3) ''x'',
             commitment_input SaltedSha256 (replicate 16 3) json'}
         \<longrightarrow> json' = ''x'')"
  by (rule commitment_complete_binding) (simp_all add: toy_canon_def)

end
