(* ===== verification/Checkpoint.thy ===== *)
theory Checkpoint
  imports Attribution_Record
begin

text \<open>
  Checkpoints as signed notes: the log server's formatter, parser and signer
  (\<open>services/log-node/src/checkpoint.ts\<close>) and the parser and signature check on the verifier's
  side (\<open>packages/verify/src/witness.ts\<close>), with standard base64 as Node's \<open>Buffer\<close> reads and writes
  it. The decoder accepts both alphabets, stops at the first padding character, skips other
  characters and drops a dangling sextet.
\<close>

section \<open>Standard base64\<close>

definition std_char :: "char \<Rightarrow> char" where
  "std_char c = (if c = CHR ''-'' then CHR ''+'' else if c = CHR ''_'' then CHR ''/'' else c)"

definition url_char :: "char \<Rightarrow> char" where
  "url_char c = (if c = CHR ''+'' then CHR ''-'' else if c = CHR ''/'' then CHR ''_'' else c)"

definition base64Encode :: "bytes \<Rightarrow> string" where
  "base64Encode bs =
     map std_char (base64urlEncode bs) @ replicate ((3 - length bs mod 3) mod 3) (CHR ''='')"

definition buffer_from_base64 :: "string \<Rightarrow> bytes" where
  "buffer_from_base64 s =
     (let cs = filter is_b64url_char (map url_char (takeWhile (\<lambda>c. c \<noteq> CHR ''='') s));
          cs' = (if length cs mod 4 = 1 then butlast cs else cs)
      in take (b64_out_len (length cs')) (decode_groups cs'))"

text \<open>\<open>/^[A-Za-z0-9+/]+={0,2}$/\<close>\<close>

definition is_b64_char :: "char \<Rightarrow> bool" where
  "is_b64_char c \<longleftrightarrow> c \<noteq> CHR ''-'' \<and> c \<noteq> CHR ''_'' \<and> is_b64url_char (url_char c)"

definition BASE64_PATTERN :: "string \<Rightarrow> bool" where
  "BASE64_PATTERN s \<longleftrightarrow>
     takeWhile is_b64_char s \<noteq> [] \<and> dropWhile is_b64_char s \<in> {[], ''='', ''==''}"

definition decodeBase64 :: "string \<Rightarrow> nat option \<Rightarrow> bytes result" where
  "decodeBase64 value len =
     (if \<not> BASE64_PATTERN value \<or> length value mod 4 \<noteq> 0 then Inl ''base64 value is not canonical base64''
      else let bytes = buffer_from_base64 value
        in if base64Encode bytes \<noteq> value then Inl ''base64 value is not canonical base64''
           else if (case len of None \<Rightarrow> False | Some n \<Rightarrow> length bytes \<noteq> n)
           then Inl ''base64 value has the wrong length''
           else Inr bytes)"

section \<open>White space in text\<close>

text \<open>The number of bytes of the white-space character (\<open>\s\<close>) a text starts with, or zero.\<close>

definition ws_bytes :: "nat \<Rightarrow> nat \<Rightarrow> nat \<Rightarrow> nat" where
  "ws_bytes b b1 b2 =
     (if b = 32 \<or> (9 \<le> b \<and> b \<le> 13) then 1
      else if b = 194 \<and> b1 = 160 then 2
      else if (b, b1, b2) \<in> {(225, 154, 128), (226, 129, 159), (227, 128, 128), (239, 187, 191)} then 3
      else if b = 226 \<and> b1 = 128 \<and> (128 \<le> b2 \<and> b2 \<le> 138 \<or> b2 \<in> {168, 169, 175}) then 3
      else 0)"

definition byte_of :: "string \<Rightarrow> nat \<Rightarrow> nat" where
  "byte_of s i = (if i < length s then of_char (s ! i) else 0)"

definition ws_prefix :: "string \<Rightarrow> nat" where
  "ws_prefix s = ws_bytes (byte_of s 0) (byte_of s 1) (byte_of s 2)"

fun span_nonws :: "string \<Rightarrow> string \<times> string" where
  "span_nonws [] = ([], [])"
| "span_nonws (c # cs) =
     (if 0 < ws_prefix (c # cs) then ([], c # cs)
      else let (a, b) = span_nonws cs in (c # a, b))"

function all_ws :: "string \<Rightarrow> bool" where
  "all_ws s = (if s = [] then True else if ws_prefix s = 0 then False else all_ws (drop (ws_prefix s) s))"
  by pat_completeness auto
termination by (relation "measure length") auto

declare all_ws.simps [simp del]

definition EM_DASH :: string where
  "EM_DASH = [CHR 0xE2, CHR 0x80, CHR 0x94]"

definition nl :: char where
  "nl = CHR 0x0A"

text \<open>The captures of \<open>(\S+) (\S+)\<close> and what is left.\<close>

definition two_words :: "string \<Rightarrow> (string \<times> string \<times> string) option" where
  "two_words s =
     (let (w1, r1) = span_nonws s
      in case r1 of
           c # r \<Rightarrow> let (w2, r2) = span_nonws r
             in if c = CHR '' '' \<and> w1 \<noteq> [] \<and> w2 \<noteq> [] then Some (w1, w2, r2) else None
         | [] \<Rightarrow> None)"

section \<open>The log server's side\<close>

record ParsedLogSignature =
  pls_origin :: string
  pls_keyId :: bytes
  pls_signature :: bytes

definition log_parseSignatureLine :: "string \<Rightarrow> ParsedLogSignature option" where
  "log_parseSignatureLine line =
     (let rest = (if starts_with (EM_DASH @ '' '') line then Some (drop 4 line)
                  else if starts_with ''- '' line then Some (drop 2 line) else None)
      in case rest of
           None \<Rightarrow> None
         | Some s \<Rightarrow> (case two_words s of
             None \<Rightarrow> None
           | Some (origin, sigToken, r) \<Rightarrow>
               if \<not> all_ws r then None
               else let decoded = buffer_from_base64 sigToken
                 in if length decoded \<noteq> 4 + 64 then None
                    else Some \<lparr>pls_origin = origin, pls_keyId = take 4 decoded,
                               pls_signature = drop 4 decoded\<rparr>))"

definition formatVkey :: "string \<Rightarrow> bytes \<Rightarrow> bytes \<Rightarrow> string" where
  "formatVkey origin keyId publicKey =
     origin @ ''+'' @ hexEncode keyId @ ''+'' @ base64Encode (0x01 # publicKey)"

definition formatCheckpointBody :: "string \<Rightarrow> nat \<Rightarrow> bytes \<Rightarrow> string" where
  "formatCheckpointBody origin treeSize rootHash =
     origin @ [nl] @ show_nat treeSize @ [nl] @ base64Encode rootHash @ [nl]"

definition parseCheckpointBody :: "string \<Rightarrow> (string \<times> nat \<times> string) result" where
  "parseCheckpointBody body =
     (let lines = split_on nl body
      in if length lines < 3 then Inl ''parseCheckpointBody: body has fewer than 3 lines''
         else let origin = lines ! 0; treeSizeStr = lines ! 1; rootHash = lines ! 2
           in if CHR 0x0D \<in> set origin
              then Inl ''parseCheckpointBody: origin contains carriage return''
              else if treeSizeStr = [] \<or> \<not> list_all is_digit treeSizeStr
                \<or> (1 < length treeSizeStr \<and> hd treeSizeStr = CHR ''0'')
              then Inl ''parseCheckpointBody: invalid tree size''
              else Inr (origin, number_of_bigint (read_nat treeSizeStr), rootHash))"

definition computeKeyId :: "(bytes \<Rightarrow> bytes) \<Rightarrow> string \<Rightarrow> bytes \<Rightarrow> bytes" where
  "computeKeyId sha origin publicKey = take 4 (sha (encode_utf8 origin @ [0x0a, 0x01] @ publicKey))"

text \<open>A signer is its key pair and origin; \<open>sign\<close> is its only operation.\<close>

record CheckpointSigner =
  cs_privateKey :: bytes
  cs_publicKey :: bytes
  cs_keyId :: bytes
  cs_origin :: string

definition createCheckpointSigner :: "(bytes \<Rightarrow> bytes) \<Rightarrow> bytes \<Rightarrow> bytes \<Rightarrow> string \<Rightarrow> CheckpointSigner" where
  "createCheckpointSigner sha privateKey publicKey origin =
     \<lparr>cs_privateKey = privateKey, cs_publicKey = publicKey,
      cs_keyId = computeKeyId sha origin publicKey, cs_origin = origin\<rparr>"

definition signer_sign ::
  "(bytes \<Rightarrow> bytes \<Rightarrow> bytes) \<Rightarrow> CheckpointSigner \<Rightarrow> nat \<Rightarrow> bytes \<Rightarrow> string" where
  "signer_sign ed_sign signer treeSize rootHash =
     (let body = formatCheckpointBody (cs_origin signer) treeSize rootHash;
          sigBytes = ed_sign (encode_utf8 body) (cs_privateKey signer);
          sigToken = base64Encode (cs_keyId signer @ sigBytes)
      in body @ [nl] @ EM_DASH @ '' '' @ cs_origin signer @ '' '' @ sigToken @ [nl])"

section \<open>The verifier's side\<close>

definition checkpointKeyId :: "(bytes \<Rightarrow> bytes) \<Rightarrow> string \<Rightarrow> bytes \<Rightarrow> bytes result" where
  "checkpointKeyId sha name publicKey =
     (if name = [] \<or> nl \<in> set name then Inl ''checkpoint key name must be non-empty and single-line''
      else if length publicKey \<noteq> 32 then Inl ''checkpoint public key must be 32 bytes''
      else Inr (take 4 (sha (encode_utf8 name @ [0x0a, 0x01] @ publicKey))))"

fun find_blank :: "string \<Rightarrow> nat option" where
  "find_blank (c # d # s) = (if c = nl \<and> d = nl then Some 0 else map_option Suc (find_blank (d # s)))"
| "find_blank _ = None"

text \<open>\<open>/^(0|[1-9]\d*)$/\<close>\<close>

definition is_decimal :: "string \<Rightarrow> bool" where
  "is_decimal s \<longleftrightarrow> s = ''0'' \<or> (s \<noteq> [] \<and> hd s \<noteq> CHR ''0'' \<and> list_all is_digit s)"

record ParsedCheckpointNote =
  cn_body :: string
  cn_origin :: string
  cn_treeSize :: nat
  cn_rootHash :: bytes
  cn_signatureLines :: "string list"

text \<open>The checks of \<open>parseCheckpointNote\<close> on the body and on the signature block.\<close>

definition parse_note_body :: "string \<Rightarrow> (string \<times> nat \<times> bytes) result" where
  "parse_note_body body =
     (let bodyLines = split_on nl body
      in if length bodyLines \<noteq> 4 \<or> bodyLines ! 3 \<noteq> []
         then Inl ''checkpoint body must contain exactly three newline-terminated lines''
         else let origin = bodyLines ! 0; treeSizeText = bodyLines ! 1; rootHashText = bodyLines ! 2
           in if origin = [] \<or> CHR 0x0D \<in> set origin then Inl ''checkpoint origin is malformed''
              else if \<not> is_decimal treeSizeText then Inl ''checkpoint tree size is malformed''
              else let treeSize = number_of_bigint (read_nat treeSizeText)
                in if \<not> is_safe_integer (int treeSize) \<or> treeSize < 1
                   then Inl ''checkpoint tree size is outside the supported range''
                   else rbind (decodeBase64 rootHashText (Some 32)) (\<lambda>rootHash.
                     Inr (origin, treeSize, rootHash)))"

definition parse_signature_block :: "string \<Rightarrow> string list result" where
  "parse_signature_block signatureText =
     (if \<not> ends_with [nl] signatureText
      then Inl ''checkpoint signature block must end with a newline''
      else let signatureLines = split_on nl (butlast signatureText)
        in if list_ex (\<lambda>line. line = []) signatureLines
           then Inl ''checkpoint signature block contains a blank line''
           else if length signatureLines = 0 then Inl ''checkpoint note has no signatures''
           else Inr signatureLines)"

definition parseCheckpointNote :: "string \<Rightarrow> ParsedCheckpointNote result" where
  "parseCheckpointNote note =
     (case find_blank note of
        None \<Rightarrow> Inl ''checkpoint note omitted the signature separator''
      | Some separator \<Rightarrow>
          let body = take (separator + 1) note
          in rbind (parse_note_body body) (\<lambda>(origin, treeSize, rootHash).
             rbind (parse_signature_block (drop (separator + 2) note)) (\<lambda>signatureLines.
             Inr \<lparr>cn_body = body, cn_origin = origin, cn_treeSize = treeSize,
                  cn_rootHash = rootHash, cn_signatureLines = signatureLines\<rparr>)))"

definition parseSignatureLine :: "string \<Rightarrow> (string \<times> bytes) option" where
  "parseSignatureLine line =
     (if \<not> starts_with (EM_DASH @ '' '') line then None
      else (case two_words (drop 4 line) of
              Some (name, token, r) \<Rightarrow>
                if r \<noteq> [] then None
                else (case decodeBase64 token None of Inl _ \<Rightarrow> None | Inr payload \<Rightarrow> Some (name, payload))
            | None \<Rightarrow> None))"

definition bytesEqual :: "bytes \<Rightarrow> bytes \<Rightarrow> bool" where
  "bytesEqual left right = (if length left \<noteq> length right then False else ct_equal (length left) left right)"

text \<open>A pinned key is a name and either raw bytes or base64url text.\<close>

datatype key_value = RawKey bytes | TextKey string

record TrustedCheckpointKey =
  tk_name :: string
  tk_publicKey :: key_value

definition normalizePublicKey :: "key_value \<Rightarrow> bytes result" where
  "normalizePublicKey v =
     (case v of
        RawKey bs \<Rightarrow> if length bs \<noteq> 32 then Inl ''checkpoint public key must be 32 bytes'' else Inr bs
      | TextKey s \<Rightarrow>
          if length s \<noteq> 43 \<or> \<not> list_all is_b64url_char s
          then Inl ''checkpoint public key must be canonical unpadded base64url''
          else let bytes = buffer_from_base64 s
            in if length bytes \<noteq> 32 then Inl ''checkpoint public key must decode to 32 bytes''
               else Inr bytes)"

text \<open>The first signature line of 68 payload bytes under the given name and key id.\<close>

definition operator_candidate :: "string \<Rightarrow> bytes \<Rightarrow> string list \<Rightarrow> (string \<times> bytes) option" where
  "operator_candidate name expectedKeyId lines =
     find (\<lambda>(n, payload). n = name \<and> bytesEqual (take 4 payload) expectedKeyId)
       (filter (\<lambda>(n, payload). length payload = 68) (List.map_filter parseSignatureLine lines))"

definition verifyOperatorCheckpoint ::
  "(bytes \<Rightarrow> bytes) \<Rightarrow> (bytes \<Rightarrow> bytes \<Rightarrow> bytes \<Rightarrow> bool) \<Rightarrow> string \<Rightarrow> TrustedCheckpointKey
   \<Rightarrow> ParsedCheckpointNote result" where
  "verifyOperatorCheckpoint sha ed_verify note trustedKey =
     rbind (parseCheckpointNote note) (\<lambda>checkpoint.
       if cn_origin checkpoint \<noteq> tk_name trustedKey
       then Inl ''checkpoint origin does not match the pinned log name''
       else rbind (normalizePublicKey (tk_publicKey trustedKey)) (\<lambda>publicKey.
         rbind (checkpointKeyId sha (tk_name trustedKey) publicKey) (\<lambda>expectedKeyId.
           case operator_candidate (tk_name trustedKey) expectedKeyId (cn_signatureLines checkpoint) of
                None \<Rightarrow> Inl ''checkpoint has no signature from the pinned log key''
              | Some (name, payload) \<Rightarrow>
                  if ed_verify (drop 4 payload) (encode_utf8 (cn_body checkpoint)) publicKey
                  then Inr checkpoint
                  else Inl ''checkpoint operator signature is invalid'')))"

section \<open>Base64 round trips\<close>

lemma b64url_not_special:
  "is_b64url_char c \<Longrightarrow> c \<noteq> CHR ''='' \<and> c \<noteq> CHR ''+'' \<and> c \<noteq> CHR ''/''"
  by (auto simp: is_b64url_char_def CHARS_def)

lemma url_std_char: "is_b64url_char c \<Longrightarrow> url_char (std_char c) = c \<and> std_char c \<noteq> CHR ''=''
    \<and> is_b64_char (std_char c)"
  using b64url_not_special [of c] by (auto simp: url_char_def std_char_def is_b64_char_def)

lemma base64urlEncode_char: "c \<in> set (base64urlEncode bs) \<Longrightarrow> is_b64url_char c"
  using base64urlEncode_chars [of bs] by (auto simp: list_all_iff)

lemma map_url_std [simp]: "map url_char (map std_char (base64urlEncode bs)) = base64urlEncode bs"
  by (simp add: map_idI url_std_char base64urlEncode_char)

lemma buffer_from_base64_encode [simp]: "buffer_from_base64 (base64Encode bs) = bs"
proof -
  have "takeWhile (\<lambda>c. c \<noteq> CHR ''='') (base64Encode bs) = map std_char (base64urlEncode bs)"
    by (cases "(3 - length bs mod 3) mod 3")
      (auto simp: base64Encode_def takeWhile_append url_std_char base64urlEncode_char)
  moreover have "filter is_b64url_char (base64urlEncode bs) = base64urlEncode bs"
    by (simp add: base64urlEncode_char)
  ultimately show ?thesis
    using length_base64urlEncode_mod [of bs] decode_groups_encode [of bs]
    by (simp add: buffer_from_base64_def Let_def del: map_map)
qed

lemma base64Encode_inject [simp]: "base64Encode a = base64Encode b \<longleftrightarrow> a = b"
  by (metis buffer_from_base64_encode)

lemma length_base64Encode_mod: "length (base64Encode bs) mod 4 = 0"
proof -
  have "length (base64urlEncode bs) =
      4 * (length bs div 3) + (if length bs mod 3 = 0 then 0 else Suc (length bs mod 3))"
    by (induction bs rule: base64urlEncode.induct) (simp_all add: div_add_self1)
  moreover have "length bs mod 3 = 0 \<or> length bs mod 3 = 1 \<or> length bs mod 3 = 2" by auto
  ultimately show ?thesis by (auto simp: base64Encode_def)
qed

lemma BASE64_PATTERN_encode: "bs \<noteq> [] \<Longrightarrow> BASE64_PATTERN (base64Encode bs)"
proof -
  assume ne: "bs \<noteq> []"
  have all: "\<forall>c \<in> set (map std_char (base64urlEncode bs)). is_b64_char c"
    using url_std_char base64urlEncode_char by auto
  have eq: "\<not> is_b64_char (CHR ''='')"
    by (simp add: is_b64_char_def url_char_def is_b64url_char_def CHARS_def)
  define n where "n = (3 - length bs mod 3) mod 3"
  have "n < 3" by (simp add: n_def)
  then have "n = 0 \<or> n = 1 \<or> n = 2" by linarith
  then have pad: "replicate n (CHR ''='') \<in> {[], ''='', ''==''}"
    by (auto simp: numeral_2_eq_2)
  let ?b = "map std_char (base64urlEncode bs)"
  have "takeWhile is_b64_char (?b @ replicate n (CHR ''='')) = ?b @ takeWhile is_b64_char (replicate n (CHR ''=''))"
    by (rule takeWhile_append2) (use all in blast)
  moreover have "dropWhile is_b64_char (?b @ replicate n (CHR ''='')) = dropWhile is_b64_char (replicate n (CHR ''=''))"
    by (rule dropWhile_append2) (use all in blast)
  moreover have "dropWhile is_b64_char (replicate n (CHR ''='')) = replicate n (CHR ''='')"
    using eq by (cases n) auto
  ultimately show ?thesis
    using ne pad unfolding BASE64_PATTERN_def base64Encode_def n_def [symmetric] by simp
qed

lemma decodeBase64_encode:
  "bs \<noteq> [] \<Longrightarrow> decodeBase64 (base64Encode bs) None = Inr bs"
  "bs \<noteq> [] \<Longrightarrow> length bs = n \<Longrightarrow> decodeBase64 (base64Encode bs) (Some n) = Inr bs"
  by (simp_all add: decodeBase64_def BASE64_PATTERN_encode length_base64Encode_mod)

lemma decodeBase64_canonical: "decodeBase64 s n = Inr bs \<Longrightarrow> s = base64Encode bs"
  by (auto simp: decodeBase64_def Let_def split: if_splits)

lemma base64Encode_char:
  "c \<in> set (base64Encode bs) \<Longrightarrow> (of_char c :: nat) < 128 \<and> \<not> is_space c \<and> c \<noteq> nl"
proof -
  have "list_all (\<lambda>c. (of_char (std_char c) :: nat) < 128 \<and> \<not> is_space (std_char c) \<and> std_char c \<noteq> nl) CHARS"
    by (simp add: CHARS_def std_char_def is_space_def nl_def)
  then have "(of_char (std_char d) :: nat) < 128 \<and> \<not> is_space (std_char d) \<and> std_char d \<noteq> nl"
    if "is_b64url_char d" for d
    using that by (simp add: list_all_iff is_b64url_char_def)
  then show "c \<in> set (base64Encode bs) \<Longrightarrow> ?thesis"
    by (auto simp: base64Encode_def is_space_def nl_def dest: base64urlEncode_char)
qed

lemma base64Encode_lines: "bs \<noteq> [] \<Longrightarrow> base64Encode bs \<noteq> []" "nl \<notin> set (base64Encode bs)"
proof -
  show "bs \<noteq> [] \<Longrightarrow> base64Encode bs \<noteq> []" by (simp add: base64Encode_def)
  show "nl \<notin> set (base64Encode bs)"
  proof
    assume "nl \<in> set (base64Encode bs)"
    from base64Encode_char [OF this] show False by simp
  qed
qed

section \<open>Words and lines\<close>

definition word_text :: "string \<Rightarrow> bool" where
  "word_text s \<longleftrightarrow> s \<noteq> [] \<and> span_nonws s = (s, [])"

lemma ws_bytes_ascii:
  "b1 < 128 \<Longrightarrow> ws_bytes b b1 b2 = (if b = 32 \<or> (9 \<le> b \<and> b \<le> 13) then 1 else 0)"
  "b2 < 128 \<Longrightarrow> ws_bytes b b1 b2 = (if b = 32 \<or> (9 \<le> b \<and> b \<le> 13) then 1
     else if b = 194 \<and> b1 = 160 then 2 else 0)"
  "b < 128 \<Longrightarrow> ws_bytes b b1 b2 = (if b = 32 \<or> (9 \<le> b \<and> b \<le> 13) then 1 else 0)"
  by (simp_all add: ws_bytes_def)

lemma is_space_code: "is_space c \<longleftrightarrow> (of_char c :: nat) = 32 \<or> (9 \<le> (of_char c :: nat) \<and> (of_char c :: nat) \<le> 13)"
proof -
  have "(of_char c :: nat) = 32 \<longleftrightarrow> (of_char c :: nat) = of_char (CHR '' '')" by simp
  then have "(of_char c :: nat) = 32 \<longleftrightarrow> c = CHR '' ''" by (simp only: of_char_eq_iff)
  then show ?thesis by (auto simp: is_space_def)
qed

lemma byte_of_Cons [simp]: "byte_of (c # cs) 0 = of_char c" "byte_of (c # cs) (Suc i) = byte_of cs i"
  by (simp_all add: byte_of_def)

lemma ws_prefix_ascii: "(of_char c :: nat) < 128 \<Longrightarrow> \<not> is_space c \<Longrightarrow> ws_prefix (c # cs) = 0"
  by (simp add: ws_prefix_def ws_bytes_ascii is_space_code)

lemma ws_prefix_space: "is_space c \<Longrightarrow> ws_prefix (c # cs) = 1"
  by (simp add: ws_prefix_def ws_bytes_def is_space_code)

lemma span_nonws_ascii:
  "\<forall>c \<in> set s. (of_char c :: nat) < 128 \<and> \<not> is_space c \<Longrightarrow> span_nonws s = (s, [])"
  by (induction s) (simp_all add: ws_prefix_ascii)

lemma word_text_base64: "bs \<noteq> [] \<Longrightarrow> word_text (base64Encode bs)"
proof -
  assume "bs \<noteq> []"
  then have "base64Encode bs \<noteq> []" by (simp add: base64Encode_def)
  moreover have "span_nonws (base64Encode bs) = (base64Encode bs, [])"
    by (rule span_nonws_ascii) (use base64Encode_char in blast)
  ultimately show ?thesis by (simp add: word_text_def)
qed

lemma ws_prefix_before_space:
  assumes "ws_prefix (c # cs) = 0"
  shows "ws_prefix (c # cs @ CHR '' '' # t) = 0"
proof (cases cs rule: remdups_adj.cases)
  case 1
  then show ?thesis using assms
    by (simp add: ws_prefix_def numeral_2_eq_2 ws_bytes_ascii byte_of_def split: if_splits)
next
  case (2 d)
  then show ?thesis using assms
    by (simp add: ws_prefix_def numeral_2_eq_2 ws_bytes_ascii byte_of_def split: if_splits)
next
  case (3 d e r)
  then show ?thesis using assms
    by (simp add: ws_prefix_def numeral_2_eq_2)
qed

lemma span_nonws_space: "span_nonws s = (s, []) \<Longrightarrow> span_nonws (s @ CHR '' '' # t) = (s, CHR '' '' # t)"
proof (induction s)
  case Nil
  show ?case by (simp add: ws_prefix_space is_space_def)
next
  case (Cons c cs)
  from Cons.prems have "ws_prefix (c # cs) = 0" "span_nonws cs = (cs, [])"
    by (auto split: if_splits prod.splits)
  then show ?case
    using Cons.IH ws_prefix_before_space [of c cs t] by simp
qed

lemma span_nonws_no_space: "span_nonws s = (s, []) \<Longrightarrow> c \<in> set s \<Longrightarrow> \<not> is_space c"
proof (induction s)
  case (Cons d s)
  from Cons.prems(1) have "ws_prefix (d # s) = 0" "span_nonws s = (s, [])"
    by (auto split: if_splits prod.splits)
  then show ?case
    using Cons ws_prefix_space [of d s] by auto
qed simp

lemma two_words_text: "word_text a \<Longrightarrow> word_text b \<Longrightarrow> two_words (a @ '' '' @ b) = Some (a, b, [])"
  by (simp add: two_words_def word_text_def span_nonws_space)

lemma word_text_lines: "word_text s \<Longrightarrow> s \<noteq> [] \<and> nl \<notin> set s \<and> CHR 0x0D \<notin> set s"
proof -
  have "is_space nl" "is_space (CHR 0x0D)" by (simp_all add: is_space_def nl_def)
  then show "word_text s \<Longrightarrow> ?thesis"
    using span_nonws_no_space [of s] by (auto simp: word_text_def)
qed

lemma parseSignatureLine_text:
  "word_text name \<Longrightarrow> payload \<noteq> [] \<Longrightarrow>
   parseSignatureLine (EM_DASH @ '' '' @ name @ '' '' @ base64Encode payload) = Some (name, payload)"
  using two_words_text [of name "base64Encode payload"]
  by (simp add: parseSignatureLine_def EM_DASH_def starts_with_def word_text_base64 decodeBase64_encode)

lemma find_blank_skip: "nl \<notin> set a \<Longrightarrow> find_blank (a @ s) = map_option ((+) (length a)) (find_blank s)"
proof (induction a)
  case Nil
  show ?case by (cases "find_blank s") auto
next
  case (Cons c a)
  then show ?case
    by (cases "a @ s") (auto simp: option.map_comp comp_def)
qed

lemma find_blank_nl: "s \<noteq> [] \<Longrightarrow> hd s \<noteq> nl \<Longrightarrow> find_blank (nl # s) = map_option Suc (find_blank s)"
  by (cases s) auto

lemma find_blank_body:
  assumes "a \<noteq> []" "b \<noteq> []" "c \<noteq> []" "nl \<notin> set a" "nl \<notin> set b" "nl \<notin> set c"
  shows "find_blank (a @ [nl] @ b @ [nl] @ c @ [nl] @ [nl] @ t) = Some (length (a @ [nl] @ b @ [nl] @ c))"
proof -
  have hd: "hd (b @ s) \<noteq> nl" "hd (c @ s) \<noteq> nl" for s
    using assms by (metis hd_append2 hd_in_set)+
  have "find_blank (nl # nl # t) = Some 0" by simp
  then show ?thesis
    using assms hd by (simp add: find_blank_skip find_blank_nl del: find_blank.simps)
qed

section \<open>Decimal numerals as the parsers accept them\<close>

lemma digit_char_code: "is_digit c \<Longrightarrow> digit_char (of_char c - 48) = c"
proof -
  assume "is_digit c"
  then have "(of_char (digit_char (of_char c - 48)) :: nat) = of_char c"
    by (subst of_digit_char) (auto simp: is_digit_def)
  then show ?thesis by (rule of_char_eqI)
qed

lemma show_read_nat:
  "s \<noteq> [] \<Longrightarrow> list_all is_digit s \<Longrightarrow> hd s \<noteq> CHR ''0'' \<Longrightarrow> show_nat (read_nat s) = s \<and> 0 < read_nat s"
proof (induction s rule: rev_induct)
  case (snoc c s)
  let ?d = "of_char c - (48 :: nat)"
  have c: "is_digit c" "?d < 10" "digit_char ?d = c"
  proof -
    show "is_digit c" using snoc.prems by simp
    then show "digit_char ?d = c" by (rule digit_char_code)
    from \<open>is_digit c\<close> have "of_char c \<le> (57 :: nat)" by (simp add: is_digit_def)
    then show "?d < 10" by linarith
  qed
  show ?case
  proof (cases "s = []")
    case True
    then have "read_nat (s @ [c]) = ?d" by (simp add: read_nat_def)
    moreover have "?d \<noteq> 0"
      using snoc.prems True c by (auto simp: digit_char_zero)
    ultimately show ?thesis using True c by (simp add: show_nat.simps [of ?d])
  next
    case False
    then have IH: "show_nat (read_nat s) = s" "0 < read_nat s"
      using snoc by (auto simp: hd_append)
    let ?n = "10 * read_nat s + ?d"
    have "\<not> ?n < 10" "?n div 10 = read_nat s" "?n mod 10 = ?d"
      using IH(2) c(2) by auto
    then have "show_nat ?n = s @ [c]"
      using IH(1) c(3) by (simp add: show_nat.simps [of ?n])
    moreover have "read_nat (s @ [c]) = ?n" by (simp add: read_nat_def)
    ultimately show ?thesis using IH(2) by simp
  qed
qed simp

lemma is_decimal_show: "is_decimal (show_nat n)"
proof (cases "n = 0")
  case True
  have "digit_char 0 = CHR ''0''" by (simp add: digit_char_zero)
  then show ?thesis using True by (simp add: is_decimal_def show_nat.simps [of 0])
next
  case False
  then show ?thesis
    using hd_show_nat [of n] show_nat_digits [of _ n] by (auto simp: is_decimal_def list_all_iff)
qed

lemma show_read_decimal: "is_decimal s \<Longrightarrow> 0 < read_nat s \<Longrightarrow> show_nat (read_nat s) = s"
  using show_read_nat [of s] by (auto simp: is_decimal_def read_nat_def)

lemma number_of_bigint_large: "2 ^ 53 \<le> n \<Longrightarrow> 2 ^ 53 \<le> number_of_bigint n"
proof -
  assume n: "(2 :: nat) ^ 53 \<le> n"
  let ?l = "floor_log2 n" and ?e = "floor_log2 n - 52"
  have l: "2 ^ ?l \<le> n" "n < 2 * 2 ^ ?l" using floor_log2_bounds [of n] n by auto
  have "(2 :: nat) ^ 53 < 2 ^ Suc ?l" using n l(2) by simp
  then have "53 < Suc ?l" by (simp only: power_strict_increasing_iff)
  then have e: "?l = 52 + ?e" "1 \<le> ?e" by simp_all
  have "2 ^ 52 * 2 ^ ?e \<le> n" using l(1) e(1) by (metis power_add)
  then have "(2 :: nat) ^ 52 \<le> n div 2 ^ ?e"
    by (metis div_le_mono nonzero_mult_div_cancel_right power_not_zero zero_neq_numeral)
  then have q: "(2 :: nat) ^ 52 * 2 ^ ?e \<le> n div 2 ^ ?e * 2 ^ ?e" by (rule mult_le_mono1)
  have "(2 :: nat) ^ 1 \<le> 2 ^ ?e" using e(2) by (rule power_increasing) simp
  then have "(2 :: nat) ^ 52 * 2 ^ 1 \<le> 2 ^ 52 * 2 ^ ?e" by (rule mult_le_mono2)
  moreover have "(2 :: nat) ^ 53 = 2 ^ 52 * 2 ^ 1" by simp
  ultimately have "(2 :: nat) ^ 53 \<le> 2 ^ 52 * 2 ^ ?e" by (simp only:)
  also note q
  finally have "(2 :: nat) ^ 53 \<le> n div 2 ^ ?e * 2 ^ ?e" .
  also have "\<dots> \<le> number_of_bigint n"
    using n by (simp add: number_of_bigint_def Let_def)
  finally show ?thesis .
qed

lemma safe_number: "is_safe_integer (int (number_of_bigint n)) \<Longrightarrow> number_of_bigint n = n \<and> n < 2 ^ 53"
  using number_of_bigint_large [of n] number_of_bigint_safe [of n]
  by (cases "n < 2 ^ 53") (auto simp: is_safe_integer_def max_safe_integer_def)

section \<open>Parsing what was formatted\<close>

lemma concat_lines: "ls \<noteq> [] \<Longrightarrow> concat (map (\<lambda>l. l @ [nl]) ls) = join_with [nl] ls @ [nl]"
proof (induction ls)
  case (Cons l ls)
  then show ?case by (cases "ls = []") (simp_all add: join_with_Cons)
qed simp

lemma nl_notin_show_nat: "nl \<notin> set (show_nat n)"
proof
  assume "nl \<in> set (show_nat n)"
  then have "is_digit nl" by (rule show_nat_digits)
  then show False by (simp add: is_digit_def nl_def)
qed

lemma split_body:
  "nl \<notin> set a \<Longrightarrow> nl \<notin> set b \<Longrightarrow> nl \<notin> set c \<Longrightarrow>
   split_on nl (a @ [nl] @ b @ [nl] @ c @ [nl]) = [a, b, c, []]"
  by (simp add: split_on_append)

lemma parse_note_body_format:
  assumes "word_text origin" and "1 \<le> n" and "int n \<le> max_safe_integer" and "length rh = 32"
  shows "parse_note_body (formatCheckpointBody origin n rh) = Inr (origin, n, rh)"
proof -
  have rh: "rh \<noteq> []" using assms(4) by auto
  have o: "origin \<noteq> []" "nl \<notin> set origin" "CHR 0x0D \<notin> set origin"
    using word_text_lines [OF assms(1)] by auto
  have lines: "split_on nl (formatCheckpointBody origin n rh) = [origin, show_nat n, base64Encode rh, []]"
    unfolding formatCheckpointBody_def by (rule split_body [OF o(2) nl_notin_show_nat base64Encode_lines(2)])
  have "n < 2 ^ 53" using assms(3) by (simp add: max_safe_integer_def)
  then have num: "number_of_bigint (read_nat (show_nat n)) = n" by (simp add: number_of_bigint_safe)
  show ?thesis
    unfolding parse_note_body_def lines Let_def
    using assms(2, 3) o num is_decimal_show [of n] decodeBase64_encode(2) [OF rh assms(4)]
    by (simp add: is_safe_integer_def max_safe_integer_def)
qed

lemma parse_signature_block_lines:
  "ls \<noteq> [] \<Longrightarrow> \<forall>l \<in> set ls. l \<noteq> [] \<and> nl \<notin> set l \<Longrightarrow>
   parse_signature_block (concat (map (\<lambda>l. l @ [nl]) ls)) = Inr ls"
  by (auto simp: parse_signature_block_def concat_lines split_join list_ex_iff)

lemma take_drop_note:
  "take (length x + 1) ((x @ [c]) @ [d] @ s) = x @ [c]" "drop (length x + 2) ((x @ [c]) @ [d] @ s) = s"
  by simp_all

lemma parseCheckpointNote_format:
  assumes "word_text origin" and "1 \<le> n" and "int n \<le> max_safe_integer" and "length rh = 32"
    and "ls \<noteq> []" and "\<forall>l \<in> set ls. l \<noteq> [] \<and> nl \<notin> set l"
  shows "parseCheckpointNote (formatCheckpointBody origin n rh @ [nl] @ concat (map (\<lambda>l. l @ [nl]) ls))
    = Inr \<lparr>cn_body = formatCheckpointBody origin n rh, cn_origin = origin, cn_treeSize = n,
           cn_rootHash = rh, cn_signatureLines = ls\<rparr>"
proof -
  let ?sig = "concat (map (\<lambda>l. l @ [nl]) ls)" and ?body = "formatCheckpointBody origin n rh"
  define x where "x = origin @ [nl] @ show_nat n @ [nl] @ base64Encode rh"
  have body: "?body = x @ [nl]" by (simp add: formatCheckpointBody_def x_def)
  have "rh \<noteq> []" using assms(4) by auto
  then have "find_blank (origin @ [nl] @ show_nat n @ [nl] @ base64Encode rh @ [nl] @ [nl] @ ?sig) = Some (length x)"
    unfolding x_def using word_text_lines [OF assms(1)] base64Encode_lines nl_notin_show_nat
    by (intro find_blank_body) auto
  then have fb: "find_blank (?body @ [nl] @ ?sig) = Some (length x)"
    by (simp add: formatCheckpointBody_def)
  show ?thesis
    unfolding parseCheckpointNote_def fb option.case Let_def
    unfolding body take_drop_note
    by (simp add: parse_note_body_format [OF assms(1-4), unfolded body] parse_signature_block_lines [OF assms(5, 6)])
qed

text \<open>And conversely: a body that parses is the formatted body of what it parses to.\<close>

lemma parse_note_body_canonical:
  assumes "parse_note_body body = Inr (origin, n, rh)"
  shows "body = formatCheckpointBody origin n rh \<and> origin \<noteq> [] \<and> 1 \<le> n
    \<and> int n \<le> max_safe_integer \<and> length rh = 32"
proof -
  define ls where "ls = split_on nl body"
  from assms have len: "length ls = 4" "ls ! 3 = []" and o: "origin = ls ! 0" "origin \<noteq> []"
    and dec: "is_decimal (ls ! 1)"
    and safe: "is_safe_integer (int (number_of_bigint (read_nat (ls ! 1))))"
    and n: "n = number_of_bigint (read_nat (ls ! 1))" "1 \<le> n"
    and rh: "decodeBase64 (ls ! 2) (Some 32) = Inr rh"
    unfolding parse_note_body_def ls_def [symmetric] Let_def
    by (simp_all add: rbind_Inr_iff split: if_splits)
  have num: "n = read_nat (ls ! 1)" using safe_number [OF safe] n by simp
  have "body = join_with [nl] ls" by (simp add: ls_def)
  also have "\<dots> = ls ! 0 @ [nl] @ ls ! 1 @ [nl] @ ls ! 2 @ [nl]"
    using len by (auto simp: numeral_eq_Suc length_Suc_conv)
  also have "ls ! 1 = show_nat n"
    using show_read_decimal [OF dec] n(2) num by simp
  also have "ls ! 2 = base64Encode rh"
    by (rule decodeBase64_canonical [OF rh])
  finally have "body = formatCheckpointBody origin n rh"
    by (simp add: formatCheckpointBody_def o(1))
  moreover have "length rh = 32"
    using rh by (auto simp: decodeBase64_def Let_def split: if_splits)
  ultimately show ?thesis
    using o n safe by (simp add: is_safe_integer_def)
qed

lemma parseCheckpointNote_body:
  assumes "parseCheckpointNote note = Inr c"
  shows "cn_body c = formatCheckpointBody (cn_origin c) (cn_treeSize c) (cn_rootHash c)
    \<and> cn_origin c \<noteq> [] \<and> 1 \<le> cn_treeSize c \<and> int (cn_treeSize c) \<le> max_safe_integer
    \<and> length (cn_rootHash c) = 32"
proof -
  from assms obtain body where "parse_note_body body = Inr (cn_origin c, cn_treeSize c, cn_rootHash c)"
    "cn_body c = body"
    by (auto simp: parseCheckpointNote_def Let_def rbind_Inr_iff split: option.splits)
  with parse_note_body_canonical show ?thesis by blast
qed

lemma formatCheckpointBody_inject:
  assumes "nl \<notin> set o1" "nl \<notin> set o2"
    and "formatCheckpointBody o1 n1 r1 = formatCheckpointBody o2 n2 r2"
  shows "o1 = o2 \<and> n1 = n2 \<and> r1 = r2"
proof -
  have "split_on nl (formatCheckpointBody ori n r) = [ori, show_nat n, base64Encode r, []]"
    if "nl \<notin> set ori" for ori n r
    unfolding formatCheckpointBody_def by (rule split_body [OF that nl_notin_show_nat base64Encode_lines(2)])
  then have "[o1, show_nat n1, base64Encode r1, []] = [o2, show_nat n2, base64Encode r2, []]"
    using assms by metis
  then show ?thesis by simp
qed

lemma bytesEqual_iff [simp]: "bytesEqual a b \<longleftrightarrow> a = b"
  by (auto simp: bytesEqual_def ct_equal_iff)

definition signature_line :: "string \<Rightarrow> bytes \<Rightarrow> string" where
  "signature_line name payload = EM_DASH @ '' '' @ name @ '' '' @ base64Encode payload"

lemma signature_line_ok:
  "word_text name \<Longrightarrow> signature_line name payload \<noteq> [] \<and> nl \<notin> set (signature_line name payload)"
  using word_text_lines [of name] base64Encode_char [of nl payload]
  by (auto simp: signature_line_def EM_DASH_def nl_def)

lemma signer_sign_lines:
  "signer_sign ed_sign (createCheckpointSigner sha sk pk origin) n rh =
   formatCheckpointBody origin n rh @ [nl] @ concat (map (\<lambda>l. l @ [nl])
     [signature_line origin (computeKeyId sha origin pk
        @ ed_sign (encode_utf8 (formatCheckpointBody origin n rh)) sk)])"
  by (simp add: signer_sign_def createCheckpointSigner_def Let_def signature_line_def)

lemma operator_note_accepted:
  assumes "\<And>x. length (sha x) = 32" and "\<And>m. length (ed_sign m sk) = 64 \<and> ed_verify (ed_sign m sk) m pk"
    and "length pk = 32" and "word_text origin"
    and "1 \<le> n" and "int n \<le> max_safe_integer" and "length rh = 32"
    and "\<forall>l \<in> set ls. l \<noteq> [] \<and> nl \<notin> set l"
  shows "\<exists>c. verifyOperatorCheckpoint sha ed_verify
      (signer_sign ed_sign (createCheckpointSigner sha sk pk origin) n rh @ concat (map (\<lambda>l. l @ [nl]) ls))
      \<lparr>tk_name = origin, tk_publicKey = RawKey pk\<rparr> = Inr c
    \<and> cn_body c = formatCheckpointBody origin n rh \<and> cn_origin c = origin
    \<and> cn_treeSize c = n \<and> cn_rootHash c = rh \<and> tl (cn_signatureLines c) = ls"
proof -
  let ?body = "formatCheckpointBody origin n rh"
  let ?p = "computeKeyId sha origin pk @ ed_sign (encode_utf8 ?body) sk"
  let ?line = "signature_line origin ?p"
  have len: "length (computeKeyId sha origin pk) = 4" "length ?p = 68"
    using assms(1, 2) by (simp_all add: computeKeyId_def)
  have "?p \<noteq> []" using len(2) by force
  then have line: "parseSignatureLine ?line = Some (origin, ?p)"
    using parseSignatureLine_text [OF assms(4)] by (simp only: signature_line_def)
  have "parseCheckpointNote (?body @ [nl] @ concat (map (\<lambda>l. l @ [nl]) (?line # ls))) =
      Inr \<lparr>cn_body = ?body, cn_origin = origin, cn_treeSize = n, cn_rootHash = rh,
           cn_signatureLines = ?line # ls\<rparr>"
    using assms(8) signature_line_ok [OF assms(4)] by (intro parseCheckpointNote_format assms) auto
  moreover have "origin \<noteq> []" "nl \<notin> set origin" using word_text_lines [OF assms(4)] by auto
  ultimately show ?thesis
    using assms(2, 3) len line
    by (simp add: signer_sign_lines verifyOperatorCheckpoint_def normalizePublicKey_def
        checkpointKeyId_def operator_candidate_def computeKeyId_def map_filter_simps)
qed

section \<open>Properties\<close>

text \<open>The verifier accepts the log's checkpoints. A note that the log's signer writes for a tree
  size and root parses back to exactly that origin, size and root, and its operator signature
  verifies under the pinned key, with or without further signature lines after it.\<close>

theorem checkpoint_sign_verify:
  assumes "\<And>x. length (sha x) = 32" and "\<And>m. length (ed_sign m sk) = 64 \<and> ed_verify (ed_sign m sk) m pk"
    and "length pk = 32" and "word_text origin"
    and "1 \<le> n" and "int n \<le> max_safe_integer" and "length rh = 32"
    and "\<forall>l \<in> set ls. l \<noteq> [] \<and> nl \<notin> set l"
  shows "\<exists>c. verifyOperatorCheckpoint sha ed_verify
      (signer_sign ed_sign (createCheckpointSigner sha sk pk origin) n rh @ concat (map (\<lambda>l. l @ [nl]) ls))
      \<lparr>tk_name = origin, tk_publicKey = RawKey pk\<rparr> = Inr c
    \<and> cn_body c = formatCheckpointBody origin n rh \<and> cn_origin c = origin
    \<and> cn_treeSize c = n \<and> cn_rootHash c = rh \<and> tl (cn_signatureLines c) = ls"
  by (rule operator_note_accepted) (fact assms)+

theorem checkpoint_sign_verify_witness:
  "\<exists>c. verifyOperatorCheckpoint pad32 toy_verify
      (signer_sign toy_sign (createCheckpointSigner pad32 [7] (pad32 [7]) ''log'') 3 (pad32 [1])
        @ concat (map (\<lambda>l. l @ [nl]) [''x'']))
      \<lparr>tk_name = ''log'', tk_publicKey = RawKey (pad32 [7])\<rparr> = Inr c
    \<and> cn_body c = formatCheckpointBody ''log'' 3 (pad32 [1]) \<and> cn_origin c = ''log''
    \<and> cn_treeSize c = 3 \<and> cn_rootHash c = pad32 [1] \<and> tl (cn_signatureLines c) = [''x'']"
  by (rule checkpoint_sign_verify)
    (simp_all add: toy_signature word_text_def ws_prefix_ascii is_space_def max_safe_integer_def nl_def)

lemma operator_checkpoint_Inr:
  assumes "verifyOperatorCheckpoint sha ed_verify note key = Inr c"
  shows "cn_origin c = tk_name key" and "1 \<le> cn_treeSize c" and "length (cn_rootHash c) = 32"
    and "cn_body c = formatCheckpointBody (cn_origin c) (cn_treeSize c) (cn_rootHash c)"
    and "parseCheckpointNote note = Inr c"
    and "\<exists>pk sig. normalizePublicKey (tk_publicKey key) = Inr pk \<and> length sig = 64 \<and> ed_verify sig (encode_utf8 (cn_body c)) pk"
proof -
  from assms obtain c' pk kid where p: "parseCheckpointNote note = Inr c'"
    "cn_origin c' = tk_name key" "normalizePublicKey (tk_publicKey key) = Inr pk"
    and r: "(case operator_candidate (tk_name key) kid (cn_signatureLines c') of
        None \<Rightarrow> Inl ''checkpoint has no signature from the pinned log key''
      | Some (name, payload) \<Rightarrow> if ed_verify (drop 4 payload) (encode_utf8 (cn_body c')) pk then Inr c'
          else Inl ''checkpoint operator signature is invalid'') = Inr c"
    unfolding verifyOperatorCheckpoint_def rbind_Inr_iff by (auto simp: rbind_Inr_iff split: if_splits)
  from r obtain name payload where f: "operator_candidate (tk_name key) kid (cn_signatureLines c') = Some (name, payload)"
    and v: "ed_verify (drop 4 payload) (encode_utf8 (cn_body c)) pk" and "c' = c"
    by (cases "operator_candidate (tk_name key) kid (cn_signatureLines c')") (auto split: if_splits)
  with p have pk: "parseCheckpointNote note = Inr c"
    "cn_origin c = tk_name key" "normalizePublicKey (tk_publicKey key) = Inr pk" by simp_all
  from f have "length payload = 68"
    by (auto simp: operator_candidate_def find_Some_iff dest: nth_mem)
  then have "length (drop 4 payload) = 64" by simp
  with v pk(3) show "\<exists>pk sig. normalizePublicKey (tk_publicKey key) = Inr pk \<and> length sig = 64
      \<and> ed_verify sig (encode_utf8 (cn_body c)) pk" by blast
  show "cn_origin c = tk_name key" "1 \<le> cn_treeSize c" "length (cn_rootHash c) = 32"
    "cn_body c = formatCheckpointBody (cn_origin c) (cn_treeSize c) (cn_rootHash c)" "parseCheckpointNote note = Inr c"
    using pk parseCheckpointNote_body [OF pk(1)] by auto
qed

text \<open>C37: what an accepted checkpoint means. If \<open>verifyOperatorCheckpoint\<close> accepts a note, the
  Ed25519 check has passed, under the pinned key, for the canonical body of precisely the
  origin, size and root that the caller is given: no second text parses to them.\<close>

theorem operator_checkpoint_sound:
  assumes "verifyOperatorCheckpoint sha ed_verify note key = Inr c"
  shows "cn_origin c = tk_name key \<and> 1 \<le> cn_treeSize c \<and> length (cn_rootHash c) = 32
    \<and> (\<exists>pk sig. normalizePublicKey (tk_publicKey key) = Inr pk \<and> length sig = 64
         \<and> ed_verify sig (encode_utf8 (formatCheckpointBody (cn_origin c) (cn_treeSize c) (cn_rootHash c))) pk)"
  using operator_checkpoint_Inr [OF assms] by metis

theorem operator_checkpoint_sound_witness:
  "\<exists>(c :: ParsedCheckpointNote) sig. length sig = 64 \<and> toy_verify sig
     (encode_utf8 (formatCheckpointBody (cn_origin c) (cn_treeSize c) (cn_rootHash c))) (pad32 [7])"
proof -
  let ?key = "\<lparr>tk_name = ''log'', tk_publicKey = RawKey (pad32 [7])\<rparr>"
  let ?note = "formatCheckpointBody ''log'' 3 (pad32 [1]) @ [nl] @ concat (map (\<lambda>l. l @ [nl])
     [signature_line ''log'' (computeKeyId pad32 ''log'' (pad32 [7])
        @ toy_sign (encode_utf8 (formatCheckpointBody ''log'' 3 (pad32 [1]))) [7])])"
  have w: "word_text ''log''" by (simp add: word_text_def ws_prefix_ascii is_space_def)
  let ?p = "computeKeyId pad32 ''log'' (pad32 [7])
        @ toy_sign (encode_utf8 (formatCheckpointBody ''log'' 3 (pad32 [1]))) [7]"
  have len: "length ?p = 68" using toy_signature by (simp add: computeKeyId_def)
  then have "?p \<noteq> []" by force
  then have "parseSignatureLine (signature_line ''log'' ?p) = Some (''log'', ?p)"
    using parseSignatureLine_text [OF w] by (simp only: signature_line_def)
  moreover have "parseCheckpointNote ?note = Inr \<lparr>cn_body = formatCheckpointBody ''log'' 3 (pad32 [1]),
      cn_origin = ''log'', cn_treeSize = 3, cn_rootHash = pad32 [1], cn_signatureLines = [signature_line ''log'' ?p]\<rparr>"
    using signature_line_ok [OF w] by (intro parseCheckpointNote_format w) (auto simp: max_safe_integer_def)
  moreover have "length (computeKeyId pad32 ''log'' (pad32 [7])) = 4" by (simp add: computeKeyId_def)
  ultimately have "\<exists>c. verifyOperatorCheckpoint pad32 toy_verify ?note ?key = Inr c"
    using len toy_signature
    by (simp add: verifyOperatorCheckpoint_def normalizePublicKey_def checkpointKeyId_def computeKeyId_def
        operator_candidate_def map_filter_simps nl_def)
  then obtain c where "verifyOperatorCheckpoint pad32 toy_verify ?note ?key = Inr c" ..
  from operator_checkpoint_sound [OF this] obtain pk sig where
    "normalizePublicKey (tk_publicKey ?key) = Inr pk" "length sig = 64"
    "toy_verify sig (encode_utf8 (formatCheckpointBody (cn_origin c) (cn_treeSize c) (cn_rootHash c))) pk"
    by blast
  moreover from this(1) have "pk = pad32 [7]" by (simp add: normalizePublicKey_def)
  ultimately show ?thesis by blast
qed

end
