(* ===== verification/Witness.thy ===== *)
theory Witness
  imports Checkpoint
begin

text \<open>
  Witness cosignatures and checkpoint consistency (\<open>packages/verify/src/witness.ts\<close>): creating and
  checking cosignatures, the threshold check over a pinned set of witness keys, and the check
  that a later tile snapshot preserves an earlier checkpoint. Options with defaults are
  arguments; the clock is the argument \<open>nowSeconds\<close>.
\<close>

section \<open>Cosignatures\<close>

definition parseCheckpointBodyOnly :: "string \<Rightarrow> unit result" where
  "parseCheckpointBodyOnly body =
     (if \<not> ends_with [nl] body \<or> find_blank body \<noteq> None
      then Inl ''checkpoint body must end in one newline and contain no blank line''
      else let lines = split_on nl body
        in if length lines \<noteq> 4 \<or> lines ! 0 = [] \<or> CHR 0x0D \<in> set (lines ! 0) \<or> \<not> is_decimal (lines ! 1)
             \<or> \<not> is_safe_integer (int (number_of_bigint (read_nat (lines ! 1))))
             \<or> number_of_bigint (read_nat (lines ! 1)) < 1
           then Inl ''checkpoint body is malformed''
           else rbind (decodeBase64 (lines ! 2) (Some 32)) (\<lambda>_. Inr ()))"

definition witnessCosignatureInput :: "string \<Rightarrow> int \<Rightarrow> bytes result" where
  "witnessCosignatureInput checkpointBody timestampSeconds =
     rbind (parseCheckpointBodyOnly checkpointBody) (\<lambda>_.
       if \<not> is_safe_integer timestampSeconds \<or> timestampSeconds < 0
       then Inl ''witness timestamp must be a non-negative safe integer''
       else Inr (encode_utf8 (''cosignature/v1'' @ [nl] @ show_nat (nat timestampSeconds)
                  @ [nl, nl] @ checkpointBody)))"

text \<open>\<open>payload.set(signature, 12)\<close> fills the 64 bytes after the key id and the timestamp.\<close>

definition createWitnessCosignature ::
  "(bytes \<Rightarrow> bytes) \<Rightarrow> (bytes \<Rightarrow> bytes) \<Rightarrow> (bytes \<Rightarrow> bytes \<Rightarrow> bytes) \<Rightarrow> string \<Rightarrow> string \<Rightarrow> bytes \<Rightarrow> int
   \<Rightarrow> string result" where
  "createWitnessCosignature sha ed_pub ed_sign checkpointBody witnessName privateKey timestampSeconds =
     rbind (parseCheckpointBodyOnly checkpointBody) (\<lambda>_.
     if length privateKey \<noteq> 32 then Inl ''witness private key must be a 32-byte Ed25519 seed''
     else if \<not> is_safe_integer timestampSeconds \<or> timestampSeconds < 0
     then Inl ''witness timestamp must be a non-negative safe integer''
     else rbind (checkpointKeyId sha witnessName (ed_pub privateKey)) (\<lambda>keyId.
          rbind (witnessCosignatureInput checkpointBody timestampSeconds) (\<lambda>signingInput.
          let signature = ed_sign signingInput privateKey
          in if 64 < length signature then Inl ''RangeError: offset is out of bounds''
             else let payload = take 4 keyId @ be64 (word_of_int timestampSeconds)
                    @ signature @ replicate (64 - length signature) 0
               in Inr (EM_DASH @ '' '' @ witnessName @ '' '' @ base64Encode payload @ [nl]))))"

section \<open>The threshold check\<close>

record WitnessCosignatureVerification =
  wv_name :: string
  wv_keyId :: string
  wv_timestampSeconds :: "nat option"
  wv_valid :: bool
  wv_reason :: "string option"

record VerifyWitnessThresholdOptions =
  wo_operatorKey :: TrustedCheckpointKey
  wo_witnessKeys :: "TrustedCheckpointKey list"
  wo_requiredWitnesses :: int
  wo_nowSeconds :: int
  wo_maxAgeSeconds :: int
  wo_futureSkewSeconds :: int

record WitnessThresholdVerification =
  wt_operator :: "ParsedCheckpointNote result"
  wt_witnesses :: "WitnessCosignatureVerification list"
  wt_validWitnesses :: nat
  wt_requiredWitnesses :: int
  wt_thresholdMet :: bool

definition witness_identity :: "string \<Rightarrow> bytes \<Rightarrow> string" where
  "witness_identity name keyId = name @ '':'' @ hexEncode keyId"

fun trusted_by_identity ::
  "(bytes \<Rightarrow> bytes) \<Rightarrow> TrustedCheckpointKey list \<Rightarrow> (string, bytes) jsmap \<Rightarrow> (string, bytes) jsmap result" where
  "trusted_by_identity sha [] m = Inr m"
| "trusted_by_identity sha (key # ks) m =
     rbind (normalizePublicKey (tk_publicKey key)) (\<lambda>publicKey.
     rbind (checkpointKeyId sha (tk_name key) publicKey) (\<lambda>keyId.
     trusted_by_identity sha ks (AList.update (witness_identity (tk_name key) keyId) publicKey m)))"

type_synonym witness_state = "WitnessCosignatureVerification list \<times> string list"

text \<open>One iteration of the loop over the signature lines; the second component is \<open>counted\<close>.\<close>

definition witness_line ::
  "(bytes \<Rightarrow> bytes \<Rightarrow> bytes \<Rightarrow> bool) \<Rightarrow> VerifyWitnessThresholdOptions \<Rightarrow> (string, bytes) jsmap \<Rightarrow> string
   \<Rightarrow> string \<Rightarrow> witness_state \<Rightarrow> witness_state result" where
  "witness_line ed_verify opts trusted body line st =
     (case parseSignatureLine line of
        None \<Rightarrow> Inr st
      | Some (name, payload) \<Rightarrow>
          if length payload \<noteq> 76 then Inr st
          else let (witnesses, counted) = st; keyIdBytes = take 4 payload;
                   keyId = hexEncode keyIdBytes; identity = witness_identity name keyIdBytes
            in case map_of trusted identity of
                 None \<Rightarrow> Inr (witnesses @ [\<lparr>wv_name = name, wv_keyId = keyId, wv_timestampSeconds = None,
                            wv_valid = False, wv_reason = Some ''untrusted witness key''\<rparr>], counted)
               | Some publicKey \<Rightarrow>
                   let timestampBig = unat (get_be64 (subarray 4 12 payload))
                   in if max_safe_integer < int timestampBig
                      then Inr (witnesses @ [\<lparr>wv_name = name, wv_keyId = keyId, wv_timestampSeconds = None,
                             wv_valid = False, wv_reason = Some ''timestamp is too large''\<rparr>], counted)
                      else let timestampSeconds = number_of_bigint timestampBig;
                               reason = (if wo_nowSeconds opts + wo_futureSkewSeconds opts < int timestampSeconds
                                         then Some ''witness timestamp is in the future''
                                         else if wo_maxAgeSeconds opts < wo_nowSeconds opts - int timestampSeconds
                                         then Some ''witness cosignature is stale''
                                         else if identity \<in> set counted
                                         then Some ''duplicate witness signature''
                                         else None)
                        in rbind (if reason \<noteq> None then Inr False
                                  else rbind (witnessCosignatureInput body (int timestampSeconds)) (\<lambda>input.
                                    Inr (ed_verify (drop 12 payload) input publicKey))) (\<lambda>signatureValid.
                           let reason' = (if \<not> signatureValid \<and> reason = None
                                          then Some ''witness signature is invalid'' else reason);
                               counted' = (if reason' = None then counted @ [identity] else counted)
                           in Inr (witnesses @ [\<lparr>wv_name = name, wv_keyId = keyId,
                                 wv_timestampSeconds = Some timestampSeconds, wv_valid = (reason' = None),
                                 wv_reason = reason'\<rparr>], counted')))"

fun witness_lines ::
  "(bytes \<Rightarrow> bytes \<Rightarrow> bytes \<Rightarrow> bool) \<Rightarrow> VerifyWitnessThresholdOptions \<Rightarrow> (string, bytes) jsmap \<Rightarrow> string
   \<Rightarrow> string list \<Rightarrow> witness_state \<Rightarrow> witness_state result" where
  "witness_lines ed_verify opts trusted body [] st = Inr st"
| "witness_lines ed_verify opts trusted body (l # ls) st =
     rbind (witness_line ed_verify opts trusted body l st) (witness_lines ed_verify opts trusted body ls)"

definition verifyCheckpointWitnessThreshold ::
  "(bytes \<Rightarrow> bytes) \<Rightarrow> (bytes \<Rightarrow> bytes \<Rightarrow> bytes \<Rightarrow> bool) \<Rightarrow> string \<Rightarrow> VerifyWitnessThresholdOptions
   \<Rightarrow> WitnessThresholdVerification result" where
  "verifyCheckpointWitnessThreshold sha ed_verify note opts =
     (if wo_requiredWitnesses opts < 0 then Inl ''requiredWitnesses must be a non-negative integer''
      else let operator = verifyOperatorCheckpoint sha ed_verify note (wo_operatorKey opts)
      in case operator of
           Inl reason \<Rightarrow> Inr \<lparr>wt_operator = operator, wt_witnesses = [], wt_validWitnesses = 0,
             wt_requiredWitnesses = wo_requiredWitnesses opts, wt_thresholdMet = False\<rparr>
         | Inr checkpoint \<Rightarrow>
             if \<not> is_safe_integer (wo_nowSeconds opts) \<or> wo_nowSeconds opts < 0
             then Inl ''nowSeconds must be a non-negative safe integer''
             else if \<not> is_safe_integer (wo_maxAgeSeconds opts) \<or> wo_maxAgeSeconds opts < 0
             then Inl ''maxAgeSeconds must be a non-negative safe integer''
             else if \<not> is_safe_integer (wo_futureSkewSeconds opts) \<or> wo_futureSkewSeconds opts < 0
             then Inl ''futureSkewSeconds must be a non-negative safe integer''
             else rbind (trusted_by_identity sha (wo_witnessKeys opts) []) (\<lambda>trusted.
               rbind (witness_lines ed_verify opts trusted (cn_body checkpoint)
                        (cn_signatureLines checkpoint) ([], [])) (\<lambda>(witnesses, counted).
               Inr \<lparr>wt_operator = operator, wt_witnesses = witnesses,
                    wt_validWitnesses = length counted,
                    wt_requiredWitnesses = wo_requiredWitnesses opts,
                    wt_thresholdMet = (wo_requiredWitnesses opts \<le> int (length counted))\<rparr>)))"

section \<open>Consistency of snapshots\<close>

text \<open>The loop starts at one; the guard on zero only makes the recursion total.\<close>

function double_below :: "nat \<Rightarrow> nat \<Rightarrow> nat" where
  "double_below value pw =
     (if pw * 2 < value \<and> 0 < pw then double_below value (pw * 2) else pw)"
  by pat_completeness auto
termination by (relation "measure (\<lambda>(v, p). v - p)") auto

declare double_below.simps [simp del]

definition witness_largestPowerOfTwoLessThan :: "nat \<Rightarrow> nat" where
  "witness_largestPowerOfTwoLessThan value = double_below value 1"

lemma double_below_power:
  "2 \<le> v \<Longrightarrow> 2 ^ k < v \<Longrightarrow> double_below v (2 ^ k) = pow2_below v"
proof (induction v "2 ^ k :: nat" arbitrary: k rule: double_below.induct)
  case (1 v)
  show ?case
  proof (cases "2 ^ k * 2 < v")
    case True
    then show ?thesis
      using 1(1) [of "Suc k"] 1(2) by (simp add: double_below.simps [of v "2 ^ k"] mult.commute)
  next
    case False
    then show ?thesis
      using pow2_below_unique [OF 1(3)] by (simp add: double_below.simps [of v "2 ^ k"])
  qed
qed

text \<open>Never called on an empty array.\<close>

function merkleHashFromLeafHashes :: "(bytes \<Rightarrow> bytes) \<Rightarrow> bytes list \<Rightarrow> bytes" where
  "merkleHashFromLeafHashes sha hashes =
     (if length hashes \<le> 1 then hd hashes
      else let split = witness_largestPowerOfTwoLessThan (length hashes)
        in nodeHash sha (merkleHashFromLeafHashes sha (take split hashes))
                        (merkleHashFromLeafHashes sha (drop split hashes)))"
  by pat_completeness auto
termination
proof (relation "measure (\<lambda>(sha, hashes). length hashes)")
  fix sha :: "bytes \<Rightarrow> bytes" and hashes :: "bytes list" and k
  assume "\<not> length hashes \<le> 1" "k = witness_largestPowerOfTwoLessThan (length hashes)"
  then have "k = pow2_below (length hashes)"
    using double_below_power [of "length hashes" 0] by (simp add: witness_largestPowerOfTwoLessThan_def)
  then have "0 < k" "k < length hashes"
    using pow2_below_bounds [of "length hashes"] pow2_below_pos \<open>\<not> length hashes \<le> 1\<close> by auto
  then show "((sha, take k hashes), sha, hashes) \<in> measure (\<lambda>(sha, hashes). length hashes)"
    and "((sha, drop k hashes), sha, hashes) \<in> measure (\<lambda>(sha, hashes). length hashes)"
    by simp_all
qed simp

declare merkleHashFromLeafHashes.simps [simp del]

definition checkpointRootFromLeafHashes :: "(bytes \<Rightarrow> bytes) \<Rightarrow> bytes list \<Rightarrow> bytes result" where
  "checkpointRootFromLeafHashes sha leafHashes =
     (if length leafHashes = 0 then Inr (sha [])
      else if list_ex (\<lambda>h. length h \<noteq> 32) leafHashes then Inl ''checkpoint leaf hash must be 32 bytes''
      else Inr (merkleHashFromLeafHashes sha leafHashes))"

record CheckpointView =
  cv_treeSize :: int
  cv_rootHash :: bytes

definition verifyCheckpointConsistencyFromLeafHashes ::
  "(bytes \<Rightarrow> bytes) \<Rightarrow> CheckpointView option \<Rightarrow> CheckpointView \<Rightarrow> bytes list \<Rightarrow> bool result" where
  "verifyCheckpointConsistencyFromLeafHashes sha prior current currentLeafHashes =
     (if \<not> is_safe_integer (cv_treeSize current) \<or> cv_treeSize current < 1
        \<or> length (cv_rootHash current) \<noteq> 32 \<or> int (length currentLeafHashes) \<noteq> cv_treeSize current
      then Inr False
      else rbind (checkpointRootFromLeafHashes sha currentLeafHashes) (\<lambda>r.
        if \<not> bytesEqual r (cv_rootHash current) then Inr False
        else (case prior of
                None \<Rightarrow> Inr True
              | Some p \<Rightarrow>
                  if \<not> is_safe_integer (cv_treeSize p) \<or> cv_treeSize p < 1
                    \<or> cv_treeSize current < cv_treeSize p \<or> length (cv_rootHash p) \<noteq> 32
                  then Inr False
                  else rbind (checkpointRootFromLeafHashes sha (take (nat (cv_treeSize p)) currentLeafHashes))
                    (\<lambda>r'. Inr (bytesEqual r' (cv_rootHash p))))))"

section \<open>Lemmas\<close>

lemma witness_split_point: "2 \<le> n \<Longrightarrow> witness_largestPowerOfTwoLessThan n = pow2_below n"
  using double_below_power [of n 0] by (simp add: witness_largestPowerOfTwoLessThan_def)

lemma merkleHashFromLeafHashes_mth: "hs \<noteq> [] \<Longrightarrow> merkleHashFromLeafHashes sha hs = mth sha hs"
proof (induction hs rule: split_induct)
  case (Leaf x)
  then show ?case by (simp add: merkleHashFromLeafHashes.simps)
next
  case (Node hs k)
  then show ?case
    using mth_split [OF Node(1, 2), of sha]
    by (simp add: merkleHashFromLeafHashes.simps [of sha hs] witness_split_point Let_def)
qed

lemma checkpointRootFromLeafHashes_Inr:
  "hs \<noteq> [] \<Longrightarrow> checkpointRootFromLeafHashes sha hs = Inr r \<longleftrightarrow>
   (\<forall>h \<in> set hs. length h = 32) \<and> r = mth sha hs"
  by (auto simp: checkpointRootFromLeafHashes_def list_ex_iff merkleHashFromLeafHashes_mth)

text \<open>Two lists of leaf hashes of the same length with the same root are the same list, unless
  the digest collides on two of the strings hashed for them.\<close>

lemma mth_inject:
  assumes sha: "\<And>x. length (sha x) = 32"
  shows "hs \<noteq> [] \<Longrightarrow> length hs' = length hs \<Longrightarrow> \<forall>h \<in> set hs. length h = 32 \<Longrightarrow>
    \<forall>h \<in> set hs'. length h = 32 \<Longrightarrow> mth sha hs = mth sha hs' \<Longrightarrow>
    inj_on sha (set (node_inputs sha hs) \<union> set (node_inputs sha hs')) \<Longrightarrow> hs = hs'"
proof (induction hs arbitrary: hs' rule: split_induct)
  case (Leaf x)
  then obtain y where "hs' = [y]" by (cases hs') auto
  with Leaf show ?case by simp
next
  case (Node hs k)
  have n': "2 \<le> length hs'" "k = pow2_below (length hs')" using Node(1, 2, 7) by simp_all
  let ?l = "mth sha (take k hs)" and ?r = "mth sha (drop k hs)"
  let ?l' = "mth sha (take k hs')" and ?r' = "mth sha (drop k hs')"
  have "sha (1 # ?l @ ?r) = sha (1 # ?l' @ ?r')"
    using Node(10) by (simp add: mth_split [OF Node(1, 2)] mth_split [OF n'] nodeHash_def)
  then have "1 # ?l @ ?r = 1 # ?l' @ ?r'"
    by (rule inj_onD [OF Node(11)])
      (simp_all only: node_inputs_split [OF Node(1, 2)] node_inputs_split [OF n'] set_simps set_append Un_iff insert_iff simp_thms)
  moreover have "length ?l = 32" "length ?l' = 32"
    using Node(3, 4, 7, 8, 9) by (auto intro!: length_mth sha dest: in_set_takeD)
  ultimately have eq: "?l = ?l'" "?r = ?r'" by auto
  have sub: "inj_on sha (set (node_inputs sha (take k hs)) \<union> set (node_inputs sha (take k hs')))"
    "inj_on sha (set (node_inputs sha (drop k hs)) \<union> set (node_inputs sha (drop k hs')))"
    by (rule inj_on_subset [OF Node(11)], unfold node_inputs_split [OF Node(1, 2)] node_inputs_split [OF n'],
        simp only: set_append set_simps, blast)+
  have "take k hs = take k hs'"
    using eq(1) sub(1) Node(4, 7, 8, 9) by (intro Node(5)) (auto dest: in_set_takeD)
  moreover have "drop k hs = drop k hs'"
    using eq(2) sub(2) Node(4, 7, 8, 9) by (intro Node(6)) (auto dest: in_set_dropD)
  ultimately show ?case by (metis append_take_drop_id)
qed

lemma consistency_Inr_True:
  assumes "verifyCheckpointConsistencyFromLeafHashes sha (Some p) c hs = Inr True"
  shows "\<forall>h \<in> set hs. length h = 32" and "1 \<le> cv_treeSize p" and "cv_treeSize p \<le> cv_treeSize c"
    and "int (length hs) = cv_treeSize c" and "mth sha hs = cv_rootHash c"
    and "mth sha (take (nat (cv_treeSize p)) hs) = cv_rootHash p"
proof -
  from assms have c: "\<not> cv_treeSize c < 1" "int (length hs) = cv_treeSize c"
    and p: "\<not> cv_treeSize p < 1" "\<not> cv_treeSize c < cv_treeSize p"
    and r: "checkpointRootFromLeafHashes sha hs = Inr (cv_rootHash c)"
      "checkpointRootFromLeafHashes sha (take (nat (cv_treeSize p)) hs) = Inr (cv_rootHash p)"
    by (auto simp: verifyCheckpointConsistencyFromLeafHashes_def rbind_Inr_iff split: if_splits)
  then have ne: "hs \<noteq> []" "take (nat (cv_treeSize p)) hs \<noteq> []" by auto
  show "\<forall>h \<in> set hs. length h = 32" "mth sha hs = cv_rootHash c"
    using r(1) ne(1) by (auto simp: checkpointRootFromLeafHashes_Inr)
  show "mth sha (take (nat (cv_treeSize p)) hs) = cv_rootHash p"
    using r(2) ne(2) by (simp add: checkpointRootFromLeafHashes_Inr)
qed (use assms in \<open>auto simp: verifyCheckpointConsistencyFromLeafHashes_def rbind_Inr_iff split: if_splits\<close>)

definition cosigned ::
  "(bytes \<Rightarrow> bytes \<Rightarrow> bytes \<Rightarrow> bool) \<Rightarrow> VerifyWitnessThresholdOptions \<Rightarrow> string \<Rightarrow> bytes \<Rightarrow> bool" where
  "cosigned ed_verify opts body pk \<longleftrightarrow>
     (\<exists>ts sig input. int ts \<le> wo_nowSeconds opts + wo_futureSkewSeconds opts
        \<and> wo_nowSeconds opts - int ts \<le> wo_maxAgeSeconds opts
        \<and> length sig = 64 \<and> witnessCosignatureInput body (int ts) = Inr input \<and> ed_verify sig input pk)"

lemma witness_line_counted:
  assumes "witness_line ed_verify opts trusted body line (ws, counted) = Inr (ws', counted')"
  shows "counted' = counted \<or> (\<exists>wid pk. counted' = counted @ [wid] \<and> wid \<notin> set counted
    \<and> map_of trusted wid = Some pk \<and> cosigned ed_verify opts body pk)"
proof (cases "parseSignatureLine line")
  case None
  with assms show ?thesis by (simp add: witness_line_def)
next
  case (Some x)
  obtain name payload where x: "x = (name, payload)" by (cases x)
  let ?wid = "witness_identity name (take 4 payload)"
  let ?t = "number_of_bigint (unat (get_be64 (subarray 4 12 payload)))"
  show ?thesis
  proof (cases "counted' = counted")
    case False
    with assms Some x have len: "length payload = 76"
      by (auto simp: witness_line_def split: if_splits)
    with assms Some x False obtain pk where pk: "map_of trusted ?wid = Some pk"
      by (auto simp: witness_line_def Let_def split: option.splits)
    have "\<not> max_safe_integer < int (unat (get_be64 (subarray 4 12 payload)))"
      using assms Some x False len pk by (auto simp: witness_line_def Let_def)
    then have res: "counted' = counted @ [?wid] \<and> ?wid \<notin> set counted
      \<and> int ?t \<le> wo_nowSeconds opts + wo_futureSkewSeconds opts
      \<and> wo_nowSeconds opts - int ?t \<le> wo_maxAgeSeconds opts
      \<and> (\<exists>input. witnessCosignatureInput body (int ?t) = Inr input \<and> ed_verify (drop 12 payload) input pk)"
      using assms Some x False len pk
      by (auto simp: witness_line_def Let_def rbind_Inr_iff split: if_splits)
    moreover have "length (drop 12 payload) = 64" using len by simp
    ultimately have "cosigned ed_verify opts body pk" unfolding cosigned_def by blast
    with res pk show ?thesis by blast
  qed simp
qed

lemma witness_lines_counted:
  "witness_lines ed_verify opts trusted body ls (ws, counted) = Inr (ws', counted') \<Longrightarrow> distinct counted \<Longrightarrow>
   \<forall>wid \<in> set counted. \<exists>pk. map_of trusted wid = Some pk \<and> cosigned ed_verify opts body pk \<Longrightarrow>
   distinct counted' \<and> (\<forall>wid \<in> set counted'. \<exists>pk. map_of trusted wid = Some pk \<and> cosigned ed_verify opts body pk)"
proof (induction ls arbitrary: ws counted)
  case (Cons l ls)
  then obtain ws1 counted1 where l: "witness_line ed_verify opts trusted body l (ws, counted) = Inr (ws1, counted1)"
    "witness_lines ed_verify opts trusted body ls (ws1, counted1) = Inr (ws', counted')"
    by (auto simp: rbind_Inr_iff)
  show ?case
    by (rule Cons.IH [OF l(2)]) (use witness_line_counted [OF l(1)] Cons.prems in auto)
qed simp

lemma trusted_by_identity_sound:
  "trusted_by_identity sha ks m = Inr m' \<Longrightarrow> map_of m' wid = Some pk \<Longrightarrow>
   map_of m wid = Some pk \<or> (\<exists>key \<in> set ks. \<exists>kid. normalizePublicKey (tk_publicKey key) = Inr pk
     \<and> checkpointKeyId sha (tk_name key) pk = Inr kid \<and> wid = witness_identity (tk_name key) kid)"
proof (induction ks arbitrary: m)
  case (Cons key ks)
  then obtain p kid where p: "normalizePublicKey (tk_publicKey key) = Inr p"
    "checkpointKeyId sha (tk_name key) p = Inr kid"
    "trusted_by_identity sha ks (AList.update (witness_identity (tk_name key) kid) p m) = Inr m'"
    by (auto simp: rbind_Inr_iff)
  from Cons.IH [OF p(3) Cons.prems(2)] p show ?case
    by (auto simp: jsmap_simps split: if_splits)
qed simp

lemma find_blank_lines_None:
  assumes "b \<noteq> []" "c \<noteq> []" "nl \<notin> set a" "nl \<notin> set b" "nl \<notin> set c"
  shows "find_blank (a @ [nl] @ b @ [nl] @ c @ [nl]) = None"
proof -
  have hd: "hd (b @ s) \<noteq> nl" "hd (c @ s) \<noteq> nl" for s
    using assms by (metis hd_append2 hd_in_set)+
  have "find_blank [nl] = None" by simp
  then show ?thesis
    using assms hd by (simp add: find_blank_skip find_blank_nl del: find_blank.simps)
qed

lemma parseCheckpointBodyOnly_format:
  assumes "word_text origin" and "1 \<le> n" and "int n \<le> max_safe_integer" and "length rh = 32"
  shows "parseCheckpointBodyOnly (formatCheckpointBody origin n rh) = Inr ()"
proof -
  have rh: "rh \<noteq> []" using assms(4) by auto
  have o: "origin \<noteq> []" "nl \<notin> set origin" "CHR 0x0D \<notin> set origin"
    using word_text_lines [OF assms(1)] by auto
  have lines: "split_on nl (formatCheckpointBody origin n rh) = [origin, show_nat n, base64Encode rh, []]"
    unfolding formatCheckpointBody_def by (rule split_body [OF o(2) nl_notin_show_nat base64Encode_lines(2)])
  have fb: "find_blank (formatCheckpointBody origin n rh) = None"
    unfolding formatCheckpointBody_def
    by (rule find_blank_lines_None) (use rh o nl_notin_show_nat base64Encode_lines in auto)
  have "ends_with [nl] (formatCheckpointBody origin n rh)"
    by (simp add: formatCheckpointBody_def ends_with_iff)
  moreover have "n < 2 ^ 53" using assms(3) by (simp add: max_safe_integer_def)
  then have "number_of_bigint (read_nat (show_nat n)) = n" by (simp add: number_of_bigint_safe)
  ultimately show ?thesis
    unfolding parseCheckpointBodyOnly_def lines fb Let_def
    using assms(2, 3) o is_decimal_show [of n] decodeBase64_encode(2) [OF rh assms(4)]
    by (simp add: is_safe_integer_def max_safe_integer_def)
qed

lemma honest_cosignature:
  assumes "\<And>x. length (sha x) = 32"
    and "\<And>m k. length (ed_sign m k) = 64 \<and> ed_verify (ed_sign m k) m (ed_pub k)"
    and "\<And>k. length (ed_pub k) = 32" and "length wk = 32"
    and "word_text origin" and "word_text name" and "1 \<le> n" and "int n \<le> max_safe_integer" and "length rh = 32"
    and "0 \<le> ts" and "ts \<le> max_safe_integer"
    and "opts = \<lparr>wo_operatorKey = \<lparr>tk_name = origin, tk_publicKey = RawKey (ed_pub sk)\<rparr>,
           wo_witnessKeys = [\<lparr>tk_name = name, tk_publicKey = RawKey (ed_pub wk)\<rparr>],
           wo_requiredWitnesses = 1, wo_nowSeconds = now, wo_maxAgeSeconds = age, wo_futureSkewSeconds = skew\<rparr>"
    and "is_safe_integer now" "is_safe_integer age" "is_safe_integer skew" "0 \<le> now" "0 \<le> age" "0 \<le> skew"
    and "ts \<le> now + skew" and "now - ts \<le> age"
  shows "\<exists>line v. createWitnessCosignature sha ed_pub ed_sign (formatCheckpointBody origin n rh) name wk ts = Inr line
    \<and> verifyCheckpointWitnessThreshold sha ed_verify
        (signer_sign ed_sign (createCheckpointSigner sha sk (ed_pub sk) origin) n rh @ line) opts = Inr v
    \<and> wt_validWitnesses v = 1 \<and> wt_thresholdMet v"
proof -
  let ?body = "formatCheckpointBody origin n rh"
  let ?kid = "computeKeyId sha name (ed_pub wk)"
  have nm: "name \<noteq> []" "nl \<notin> set name" using word_text_lines [OF assms(6)] by auto
  have kid: "checkpointKeyId sha name (ed_pub wk) = Inr ?kid" "length ?kid = 4"
    using nm assms(1, 3) by (simp_all add: checkpointKeyId_def computeKeyId_def)
  have "is_safe_integer ts" using assms(10, 11) by (simp add: is_safe_integer_def max_safe_integer_def)
  then obtain m where m: "witnessCosignatureInput ?body ts = Inr m"
    using parseCheckpointBodyOnly_format [OF assms(5, 7, 8, 9)] assms(10)
    by (simp add: witnessCosignatureInput_def)
  let ?p = "?kid @ be64 (word_of_int ts) @ ed_sign m wk"
  have p: "length ?p = 76" "take 4 ?p = ?kid" "subarray 4 12 ?p = be64 (word_of_int ts)" "drop 12 ?p = ed_sign m wk"
    using kid(2) assms(2) by (simp_all add: subarray_def)
  let ?wl = "signature_line name ?p"
  have create: "createWitnessCosignature sha ed_pub ed_sign ?body name wk ts = Inr (?wl @ [nl])"
    using parseCheckpointBodyOnly_format [OF assms(5, 7, 8, 9)] m kid assms(2, 4, 10) \<open>is_safe_integer ts\<close>
    by (simp add: createWitnessCosignature_def signature_line_def)
  let ?op = "computeKeyId sha origin (ed_pub sk) @ ed_sign (encode_utf8 ?body) sk"
  let ?ol = "signature_line origin ?op"
  have "length ?op = 68" using assms(1, 2) by (simp add: computeKeyId_def)
  then have ol: "parseSignatureLine ?ol = Some (origin, ?op)"
    using parseSignatureLine_text [OF assms(5), of ?op] unfolding signature_line_def by fastforce
  have wl: "parseSignatureLine ?wl = Some (name, ?p)"
    using parseSignatureLine_text [OF assms(6), of ?p] p(1) unfolding signature_line_def by fastforce
  let ?note = "signer_sign ed_sign (createCheckpointSigner sha sk (ed_pub sk) origin) n rh @ ?wl @ [nl]"
  have note_eq: "?note = ?body @ [nl] @ concat (map (\<lambda>l. l @ [nl]) [?ol, ?wl])"
    by (simp add: signer_sign_lines)
  have parse: "parseCheckpointNote ?note = Inr \<lparr>cn_body = ?body, cn_origin = origin, cn_treeSize = n,
      cn_rootHash = rh, cn_signatureLines = [?ol, ?wl]\<rparr>"
    unfolding note_eq using signature_line_ok [OF assms(5)] signature_line_ok [OF assms(6)]
    by (intro parseCheckpointNote_format assms(5, 7, 8, 9)) auto
  have on: "origin \<noteq> []" "nl \<notin> set origin" using word_text_lines [OF assms(5)] by auto
  have operator: "verifyOperatorCheckpoint sha ed_verify ?note \<lparr>tk_name = origin, tk_publicKey = RawKey (ed_pub sk)\<rparr>
      = Inr \<lparr>cn_body = ?body, cn_origin = origin, cn_treeSize = n, cn_rootHash = rh, cn_signatureLines = [?ol, ?wl]\<rparr>"
    using parse ol on assms(1, 2, 3) p(1) wl \<open>length ?op = 68\<close>
    by (simp add: verifyOperatorCheckpoint_def normalizePublicKey_def checkpointKeyId_def computeKeyId_def
        operator_candidate_def map_filter_simps)
  have ts: "number_of_bigint (unat (word_of_int ts :: 64 word)) = nat ts"
      "\<not> max_safe_integer < int (unat (word_of_int ts :: 64 word))"
    using unat_timestamp [OF assms(10, 11)] number_of_bigint_safe assms(10, 11) by auto
  let ?id = "witness_identity name ?kid"
  have l1: "witness_line ed_verify opts [(?id, ed_pub wk)] ?body ?ol ([], []) = Inr ([], [])"
    using ol \<open>length ?op = 68\<close> by (simp add: witness_line_def)
  obtain ws where l2: "witness_line ed_verify opts [(?id, ed_pub wk)] ?body ?wl ([], []) = Inr (ws, [?id])"
    using wl p ts m assms(2, 10, 12, 19, 20)
    by (simp add: witness_line_def Let_def codec_simps del: append_assoc)
  show ?thesis
    using create operator l1 l2 kid(1) assms(3, 12-18)
    by (simp add: verifyCheckpointWitnessThreshold_def normalizePublicKey_def)
qed

section \<open>Properties\<close>

text \<open>The verifier's root is the log's root. The root a witness recomputes from a level-zero tile,
  with its own split-point loop, is \<open>computeRoot\<close> of the entries behind the tile.\<close>

theorem tile_root_is_log_root:
  assumes "\<And>x. length (sha x) = 32" and "entries \<noteq> []"
  shows "checkpointRootFromLeafHashes sha (map (leafHash sha) entries) = computeRoot sha entries"
proof -
  have "\<forall>h \<in> set (map (leafHash sha) entries). length h = 32"
    using assms(1) by (auto simp: leafHash_def)
  with assms(2) show ?thesis
    by (auto simp: checkpointRootFromLeafHashes_Inr computeRoot_mth)
qed

theorem tile_root_is_log_root_witness:
  "checkpointRootFromLeafHashes pad32 (map (leafHash pad32) [[1], [2], [3]]) = computeRoot pad32 [[1], [2], [3]]"
  by (rule tile_root_is_log_root) simp_all

text \<open>C32: an accepted snapshot preserves history. If a snapshot is accepted against a pinned prior
  checkpoint, then every list of leaf hashes with the prior size and root, and no digest
  collision with the snapshot's prefix, is a prefix of the snapshot: no entry was removed,
  replaced or reordered.\<close>

theorem consistency_preserves_prefix:
  assumes "\<And>x. length (sha x) = 32"
    and "verifyCheckpointConsistencyFromLeafHashes sha (Some p) c hs = Inr True"
    and "int (length old) = cv_treeSize p" and "\<forall>h \<in> set old. length h = 32"
    and "mth sha old = cv_rootHash p"
    and "inj_on sha (set (node_inputs sha old) \<union> set (node_inputs sha (take (length old) hs)))"
  shows "\<exists>new. hs = old @ new"
proof -
  note ok = consistency_Inr_True [OF assms(2)]
  have n: "nat (cv_treeSize p) = length old" using assms(3) by simp
  have len: "length (take (length old) hs) = length old" using ok(3, 4) assms(3) by simp
  have "old \<noteq> []" using ok(2) assms(3) by auto
  then have "old = take (length old) hs"
    using assms(4-6) ok(1, 6) len unfolding n
    by (intro mth_inject [OF assms(1)]) (auto dest: in_set_takeD)
  then show ?thesis by (metis append_take_drop_id)
qed

theorem consistency_preserves_prefix_witness:
  "\<exists>new. [pad32 [1], pad32 [2]] = [pad32 [1]] @ new"
proof (rule consistency_preserves_prefix)
  let ?hs = "[pad32 [1], pad32 [2]]"
  have "mth pad32 ?hs = nodeHash pad32 (pad32 [1]) (pad32 [2])" by (simp add: mth_split)
  then show "verifyCheckpointConsistencyFromLeafHashes pad32
      (Some \<lparr>cv_treeSize = 1, cv_rootHash = pad32 [1]\<rparr>)
      \<lparr>cv_treeSize = 2, cv_rootHash = nodeHash pad32 (pad32 [1]) (pad32 [2])\<rparr> ?hs = Inr True"
    by (simp add: verifyCheckpointConsistencyFromLeafHashes_def checkpointRootFromLeafHashes_def
        merkleHashFromLeafHashes_mth is_safe_integer_def max_safe_integer_def nodeHash_def)
qed (simp_all add: node_inputs.simps)

text \<open>C20: the threshold is met only by witnesses. If the threshold check reports success, the operator
  signature is valid and at least the required number of distinct identities, each the name and
  key id of a pinned witness key, carry a valid cosignature of this checkpoint body whose
  timestamp lies in the freshness window.\<close>

theorem witness_threshold_sound:
  assumes "verifyCheckpointWitnessThreshold sha ed_verify note opts = Inr v" and "wt_thresholdMet v"
  shows "\<exists>c ids. verifyOperatorCheckpoint sha ed_verify note (wo_operatorKey opts) = Inr c
    \<and> distinct ids \<and> wo_requiredWitnesses opts \<le> int (length ids) \<and> wt_validWitnesses v = length ids
    \<and> (\<forall>ident \<in> set ids. \<exists>key \<in> set (wo_witnessKeys opts). \<exists>pk kid.
          normalizePublicKey (tk_publicKey key) = Inr pk \<and> checkpointKeyId sha (tk_name key) pk = Inr kid
          \<and> ident = witness_identity (tk_name key) kid \<and> cosigned ed_verify opts (cn_body c) pk)"
proof -
  from assms obtain c trusted ws ids where
    c: "verifyOperatorCheckpoint sha ed_verify note (wo_operatorKey opts) = Inr c"
    and t: "trusted_by_identity sha (wo_witnessKeys opts) [] = Inr trusted"
    and l: "witness_lines ed_verify opts trusted (cn_body c) (cn_signatureLines c) ([], []) = Inr (ws, ids)"
    and v: "wt_validWitnesses v = length ids" "wo_requiredWitnesses opts \<le> int (length ids)"
    by (auto simp: verifyCheckpointWitnessThreshold_def Let_def rbind_Inr_iff split: if_splits sum.splits)
  have d: "distinct ids" and good: "\<And>ident. ident \<in> set ids \<Longrightarrow>
      \<exists>pk. map_of trusted ident = Some pk \<and> cosigned ed_verify opts (cn_body c) pk"
    using witness_lines_counted [OF l] by auto
  have "\<exists>key \<in> set (wo_witnessKeys opts). \<exists>pk kid. normalizePublicKey (tk_publicKey key) = Inr pk
      \<and> checkpointKeyId sha (tk_name key) pk = Inr kid \<and> ident = witness_identity (tk_name key) kid
      \<and> cosigned ed_verify opts (cn_body c) pk" if "ident \<in> set ids" for ident
    using good [OF that] trusted_by_identity_sound [OF t] by fastforce
  with c d v show ?thesis by blast
qed

theorem witness_threshold_sound_witness:
  "\<exists>note opts (c :: ParsedCheckpointNote) ids. verifyOperatorCheckpoint pad32 toy_verify note (wo_operatorKey opts) = Inr c
    \<and> distinct (ids :: string list) \<and> wo_requiredWitnesses (opts :: VerifyWitnessThresholdOptions) = 1 \<and> 1 \<le> length ids
    \<and> (\<forall>ident \<in> set ids. \<exists>key \<in> set (wo_witnessKeys opts). \<exists>pk kid.
          normalizePublicKey (tk_publicKey key) = Inr pk \<and> checkpointKeyId pad32 (tk_name key) pk = Inr kid
          \<and> ident = witness_identity (tk_name key) kid \<and> cosigned toy_verify opts (cn_body c) pk)"
proof -
  let ?opts = "\<lparr>wo_operatorKey = \<lparr>tk_name = ''log'', tk_publicKey = RawKey (pad32 [7])\<rparr>,
     wo_witnessKeys = [\<lparr>tk_name = ''w'', tk_publicKey = RawKey (pad32 (pad32 [9]))\<rparr>],
     wo_requiredWitnesses = 1, wo_nowSeconds = 1005, wo_maxAgeSeconds = 10, wo_futureSkewSeconds = 0\<rparr>"
  have "\<exists>line v. createWitnessCosignature pad32 pad32 toy_sign (formatCheckpointBody ''log'' 3 (pad32 [1])) ''w''
        (pad32 [9]) 1000 = Inr line
    \<and> verifyCheckpointWitnessThreshold pad32 toy_verify
        (signer_sign toy_sign (createCheckpointSigner pad32 [7] (pad32 [7]) ''log'') 3 (pad32 [1]) @ line) ?opts = Inr v
    \<and> wt_validWitnesses v = 1 \<and> wt_thresholdMet v"
    by (rule honest_cosignature [where now = 1005 and age = 10 and skew = 0])
      (simp_all add: toy_signature word_text_def ws_prefix_ascii is_space_def max_safe_integer_def is_safe_integer_def)
  then obtain nt v where
    "verifyCheckpointWitnessThreshold pad32 toy_verify nt ?opts = Inr v" "wt_thresholdMet v" by blast
  from witness_threshold_sound [OF this] obtain c ids where
    "verifyOperatorCheckpoint pad32 toy_verify nt (wo_operatorKey ?opts) = Inr c" "distinct ids"
    "wo_requiredWitnesses ?opts \<le> int (length ids)"
    "\<forall>ident \<in> set ids. \<exists>key \<in> set (wo_witnessKeys ?opts). \<exists>pk kid.
          normalizePublicKey (tk_publicKey key) = Inr pk \<and> checkpointKeyId pad32 (tk_name key) pk = Inr kid
          \<and> ident = witness_identity (tk_name key) kid \<and> cosigned toy_verify ?opts (cn_body c) pk" by blast
  then show ?thesis by (intro exI [of _ nt] exI [of _ ?opts] exI [of _ c] exI [of _ ids]) simp
qed

text \<open>An honest cosignature counts. A line that \<open>createWitnessCosignature\<close> produces for a
  checkpoint, appended to the operator's note, meets a threshold of one when the witness's
  key is pinned and the timestamp is fresh.\<close>

theorem witness_cosignature_counts:
  assumes "\<And>x. length (sha x) = 32"
    and "\<And>m k. length (ed_sign m k) = 64 \<and> ed_verify (ed_sign m k) m (ed_pub k)"
    and "\<And>k. length (ed_pub k) = 32" and "length wk = 32"
    and "word_text origin" and "word_text name" and "1 \<le> n" and "int n \<le> max_safe_integer" and "length rh = 32"
    and "0 \<le> ts" and "ts \<le> max_safe_integer"
    and "opts = \<lparr>wo_operatorKey = \<lparr>tk_name = origin, tk_publicKey = RawKey (ed_pub sk)\<rparr>,
           wo_witnessKeys = [\<lparr>tk_name = name, tk_publicKey = RawKey (ed_pub wk)\<rparr>],
           wo_requiredWitnesses = 1, wo_nowSeconds = now, wo_maxAgeSeconds = age, wo_futureSkewSeconds = skew\<rparr>"
    and "is_safe_integer now" "is_safe_integer age" "is_safe_integer skew" "0 \<le> now" "0 \<le> age" "0 \<le> skew"
    and "ts \<le> now + skew" and "now - ts \<le> age"
  shows "\<exists>line v. createWitnessCosignature sha ed_pub ed_sign (formatCheckpointBody origin n rh) name wk ts = Inr line
    \<and> verifyCheckpointWitnessThreshold sha ed_verify
        (signer_sign ed_sign (createCheckpointSigner sha sk (ed_pub sk) origin) n rh @ line) opts = Inr v
    \<and> wt_validWitnesses v = 1 \<and> wt_thresholdMet v"
  by (rule honest_cosignature [where sk = sk and now = now and age = age and skew = skew]) (fact assms)+

theorem witness_cosignature_counts_witness:
  "\<exists>line v. createWitnessCosignature pad32 pad32 toy_sign (formatCheckpointBody ''log'' 3 (pad32 [1])) ''w''
        (pad32 [9]) 1000 = Inr line
    \<and> verifyCheckpointWitnessThreshold pad32 toy_verify
        (signer_sign toy_sign (createCheckpointSigner pad32 [7] (pad32 [7]) ''log'') 3 (pad32 [1]) @ line)
        \<lparr>wo_operatorKey = \<lparr>tk_name = ''log'', tk_publicKey = RawKey (pad32 [7])\<rparr>,
         wo_witnessKeys = [\<lparr>tk_name = ''w'', tk_publicKey = RawKey (pad32 (pad32 [9]))\<rparr>],
         wo_requiredWitnesses = 1, wo_nowSeconds = 1005, wo_maxAgeSeconds = 10, wo_futureSkewSeconds = 0\<rparr> = Inr v
    \<and> wt_validWitnesses v = 1 \<and> wt_thresholdMet v"
  by (rule witness_cosignature_counts [where now = 1005 and age = 10 and skew = 0])
    (simp_all add: toy_signature word_text_def ws_prefix_ascii is_space_def max_safe_integer_def is_safe_integer_def)

end
