(* ===== verification/Log_Server.thy ===== *)
theory Log_Server
  imports Log_Tree Witness
begin

text \<open>
  The submission path of the log server (\<open>services/log-node/src/server.ts\<close>): \<open>handleSubmit\<close>,
  \<open>makeProofBundle\<close> and \<open>handleProofLookup\<close> over the tree, the checkpoint signer and the bounded
  proof cache. A handler returns the actions it performs in order (responses, subscriber
  notifications, graph fan-out) and the new server state.

  Handlers yield to the event loop where they await a signature or the submission lock. Each handler
  is split at these points, the whole handler is the composition of its parts, and the event model
  interleaves the parts of any number of submissions and lookups.
\<close>

record ProofBundle =
  pb_log_index :: nat
  pb_checkpoint :: string
  pb_inclusion_proof :: "string list"
  pb_leaf_hash :: string

definition MAX_PROOF_CACHE :: nat where
  "MAX_PROOF_CACHE = 100000"

record log_server =
  sv_tree :: log_tree
  sv_proofCache :: "(string, ProofBundle) jsmap"

datatype action =
    Reject nat string
  | SendProof ProofBundle
  | SendNotFound string
  | NotifySubscribers DecodedEntry nat
  | FanoutToGraph js_object string nat
  | Throw string

definition makeProofBundle ::
  "(bytes \<Rightarrow> bytes) \<Rightarrow> (bytes \<Rightarrow> bytes \<Rightarrow> bytes) \<Rightarrow> log_tree \<Rightarrow> CheckpointSigner \<Rightarrow> nat \<Rightarrow> ProofBundle result" where
  "makeProofBundle sha ed_sign tree signer logIndex =
     (let treeSize = tree_size tree
      in rbind (tree_inclusionProof sha (int logIndex) tree) (\<lambda>inclusionProof.
         rbind (tree_leafHash (int logIndex) tree) (\<lambda>leaf.
         rbind (tree_root sha tree) (\<lambda>rootHash.
         case leaf of
           None \<Rightarrow> Inl ''TypeError''
         | Some leafHashBytes \<Rightarrow>
             Inr \<lparr>pb_log_index = logIndex, pb_checkpoint = signer_sign ed_sign signer treeSize rootHash,
                  pb_inclusion_proof = map base64Encode inclusionProof,
                  pb_leaf_hash = base64Encode leafHashBytes\<rparr>))))"

text \<open>Evict the oldest entry at capacity, then set.\<close>

definition cache_proof :: "string \<Rightarrow> ProofBundle \<Rightarrow> (string, ProofBundle) jsmap \<Rightarrow> (string, ProofBundle) jsmap" where
  "cache_proof k v m =
     AList.update k v
       (if MAX_PROOF_CACHE \<le> length m then (case m of [] \<Rightarrow> m | (oldest, _) # _ \<Rightarrow> AList.delete oldest m)
        else m)"

section \<open>Submission\<close>

datatype request_body = TooLarge | NotJson | Parsed json

record prepared =
  pr_record :: js_object
  pr_hashHex :: string
  pr_entry :: bytes

definition fanout_if :: "bool \<Rightarrow> js_object \<Rightarrow> string \<Rightarrow> nat \<Rightarrow> action list" where
  "fanout_if endpoint r h i = (if endpoint then [FanoutToGraph r h i] else [])"

text \<open>Up to the lock. The record is an object by the time its members are read.\<close>

definition submit_prepare ::
  "(bytes \<Rightarrow> bytes) \<Rightarrow> (json \<Rightarrow> string option) \<Rightarrow> (bytes \<Rightarrow> bytes \<Rightarrow> bytes \<Rightarrow> bool) \<Rightarrow> bool \<Rightarrow> int
   \<Rightarrow> request_body \<Rightarrow> log_server \<Rightarrow> action list + prepared" where
  "submit_prepare sha canon ed_verify fanout now body sv =
     (case body of
        TooLarge \<Rightarrow> Inl [Reject 413 ''request body too large'']
      | NotJson \<Rightarrow> Inl [Reject 400 ''invalid json body'']
      | Parsed v \<Rightarrow>
          (case v of
             JObj r \<Rightarrow>
               (case validateSubmission now v of
                  Inl (status, err) \<Rightarrow> Inl [Reject status err]
                | Inr _ \<Rightarrow>
                    if \<not> verifyRecord canon ed_verify now r
                    then Inl [Reject 400 ''Ed25519 signature verification failed'']
                    else (case canonicalRecord canon r of
                            Inl err \<Rightarrow> Inl [Throw err]
                          | Inr canonBytes \<Rightarrow>
                              let recordHashHex = hexEncode (sha canonBytes)
                              in case map_of (sv_proofCache sv) recordHashHex of
                                   Some cachedProof \<Rightarrow> Inl (SendProof cachedProof
                                     # fanout_if fanout r recordHashHex (pb_log_index cachedProof))
                                 | None \<Rightarrow>
                                     (case serializeEntry
                                        \<lparr>ei_record_hash_hex = recordHashHex,
                                         ei_creator_key_b64url = the (str_of (map_of r ''creator_key'')),
                                         ei_context_id = the (str_of (map_of r ''context_id'')),
                                         ei_timestamp = (case map_of r ''timestamp'' of Some (JNum t) \<Rightarrow> int_part t | _ \<Rightarrow> 0),
                                         ei_event_type = the (str_of (map_of r ''event_type''))\<rparr> of
                                        Inl err \<Rightarrow> Inl [Throw err]
                                      | Inr entryBytes \<Rightarrow> Inr \<lparr>pr_record = r, pr_hashHex = recordHashHex,
                                          pr_entry = entryBytes\<rparr>)))
           | JArr xs \<Rightarrow> Inl [Reject 400 spec_version_error]
           | _ \<Rightarrow> Inl [Reject 400 ''body must be a json object. the bare attribution record'']))"

text \<open>
  Inside the lock. \<open>submit_locked\<close> runs to the await on the signature: the second look at the cache,
  the append, the proof. \<open>submit_finish\<close> runs when the signature is there: the cache entry, the
  release of the lock, the response, the notifications and the fan-out. \<open>submit_critical\<close> is the
  critical section with nothing in between.
\<close>

definition submit_locked ::
  "(bytes \<Rightarrow> bytes) \<Rightarrow> (bytes \<Rightarrow> bytes \<Rightarrow> bytes) \<Rightarrow> CheckpointSigner \<Rightarrow> bool \<Rightarrow> (bytes \<Rightarrow> int)
   \<Rightarrow> prepared \<Rightarrow> log_server \<Rightarrow> (action list + DecodedEntry \<times> ProofBundle) \<times> log_server" where
  "submit_locked sha ed_sign signer fanout wr p sv =
     (case map_of (sv_proofCache sv) (pr_hashHex p) of
        Some cachedInLock \<Rightarrow>
          (Inl (SendProof cachedInLock # fanout_if fanout (pr_record p) (pr_hashHex p) (pb_log_index cachedInLock)), sv)
      | None \<Rightarrow>
          (case tree_append sha wr (pr_entry p) (sv_tree sv) of
             (Inl err, t) \<Rightarrow> (Inl [Throw err], sv\<lparr>sv_tree := t\<rparr>)
           | (Inr logIndex, t) \<Rightarrow>
               (case decodeEntry (pr_entry p) logIndex of
                  Inl err \<Rightarrow> (Inl [Throw err], sv\<lparr>sv_tree := t\<rparr>)
                | Inr appendedEntry \<Rightarrow>
                    (case makeProofBundle sha ed_sign t signer logIndex of
                       Inl err \<Rightarrow> (Inl [Throw err], sv\<lparr>sv_tree := t\<rparr>)
                     | Inr proof \<Rightarrow> (Inr (appendedEntry, proof), sv\<lparr>sv_tree := t\<rparr>)))))"

definition submit_finish ::
  "bool \<Rightarrow> prepared \<Rightarrow> DecodedEntry \<times> ProofBundle \<Rightarrow> log_server \<Rightarrow> action list \<times> log_server" where
  "submit_finish fanout p = (\<lambda>(appendedEntry, proof) sv.
     ([SendProof proof, NotifySubscribers appendedEntry (tree_size (sv_tree sv))]
        @ fanout_if fanout (pr_record p) (pr_hashHex p) (pb_log_index proof),
      sv\<lparr>sv_proofCache := cache_proof (pr_hashHex p) proof (sv_proofCache sv)\<rparr>))"

definition submit_critical ::
  "(bytes \<Rightarrow> bytes) \<Rightarrow> (bytes \<Rightarrow> bytes \<Rightarrow> bytes) \<Rightarrow> CheckpointSigner \<Rightarrow> bool \<Rightarrow> (bytes \<Rightarrow> int)
   \<Rightarrow> prepared \<Rightarrow> log_server \<Rightarrow> action list \<times> log_server" where
  "submit_critical sha ed_sign signer fanout wr p sv =
     (case submit_locked sha ed_sign signer fanout wr p sv of
        (Inl acts, sv') \<Rightarrow> (acts, sv')
      | (Inr appended, sv') \<Rightarrow> submit_finish fanout p appended sv')"

definition handleSubmit ::
  "(bytes \<Rightarrow> bytes) \<Rightarrow> (json \<Rightarrow> string option) \<Rightarrow> (bytes \<Rightarrow> bytes \<Rightarrow> bytes \<Rightarrow> bool) \<Rightarrow> (bytes \<Rightarrow> bytes \<Rightarrow> bytes)
   \<Rightarrow> CheckpointSigner \<Rightarrow> bool \<Rightarrow> (bytes \<Rightarrow> int) \<Rightarrow> int \<Rightarrow> request_body \<Rightarrow> log_server
   \<Rightarrow> action list \<times> log_server" where
  "handleSubmit sha canon ed_verify ed_sign signer fanout wr now body sv =
     (case submit_prepare sha canon ed_verify fanout now body sv of
        Inl acts \<Rightarrow> (acts, sv)
      | Inr p \<Rightarrow> submit_critical sha ed_sign signer fanout wr p sv)"

section \<open>Proof lookup\<close>

text \<open>The first index whose entry carries the record hash.\<close>

fun find_entry :: "string \<Rightarrow> nat \<Rightarrow> bytes list \<Rightarrow> nat option" where
  "find_entry hexHash i [] = None"
| "find_entry hexHash i (e # es) =
     (if hexEncode (subarray 1 33 e) = hexHash then Some i else find_entry hexHash (Suc i) es)"

text \<open>\<open>handleProofLookup\<close> takes no lock and awaits the signature too: \<open>lookup_start\<close> runs up to the
  await, \<open>lookup_finish\<close> caches and responds.\<close>

definition lookup_start ::
  "(bytes \<Rightarrow> bytes) \<Rightarrow> (bytes \<Rightarrow> bytes \<Rightarrow> bytes) \<Rightarrow> CheckpointSigner \<Rightarrow> string \<Rightarrow> log_server
   \<Rightarrow> action list + ProofBundle" where
  "lookup_start sha ed_sign signer hexHash sv =
     (case map_of (sv_proofCache sv) hexHash of
        Some cachedProof \<Rightarrow> Inl [SendProof cachedProof]
      | None \<Rightarrow>
          (case find_entry hexHash 0 (rawEntries (sv_tree sv)) of
             None \<Rightarrow> Inl [SendNotFound hexHash]
           | Some i \<Rightarrow>
               (case makeProofBundle sha ed_sign (sv_tree sv) signer i of
                  Inl err \<Rightarrow> Inl [Throw err]
                | Inr proof \<Rightarrow> Inr proof)))"

definition lookup_finish :: "string \<Rightarrow> ProofBundle \<Rightarrow> log_server \<Rightarrow> action list \<times> log_server" where
  "lookup_finish hexHash proof sv =
     ([SendProof proof], sv\<lparr>sv_proofCache := cache_proof hexHash proof (sv_proofCache sv)\<rparr>)"

definition handleProofLookup ::
  "(bytes \<Rightarrow> bytes) \<Rightarrow> (bytes \<Rightarrow> bytes \<Rightarrow> bytes) \<Rightarrow> CheckpointSigner \<Rightarrow> string \<Rightarrow> log_server
   \<Rightarrow> action list \<times> log_server" where
  "handleProofLookup sha ed_sign signer hexHash sv =
     (case lookup_start sha ed_sign signer hexHash sv of
        Inl acts \<Rightarrow> (acts, sv)
      | Inr proof \<Rightarrow> lookup_finish hexHash proof sv)"

section \<open>Interleaved requests\<close>

text \<open>
  The event loop: any number of numbered requests, each run from await to await. \<open>Prepare\<close> takes a
  submission to the lock, \<open>Locked\<close> enters the critical section (possible only when no other request
  holds the lock), \<open>Finish\<close> resumes the holder of the lock when its signature is there;
  \<open>LookupStart\<close> and \<open>LookupFinish\<close> are the two halves of a proof lookup. A step returns the actions
  it performs; an event that is not possible in a state leaves it alone.
\<close>

datatype event =
    Prepare nat int request_body
  | Locked nat "bytes \<Rightarrow> int"
  | Finish
  | LookupStart nat string
  | LookupFinish nat

record log_system =
  sy_server :: log_server
  sy_pending :: "(nat, prepared) jsmap"
  sy_holder :: "(prepared \<times> DecodedEntry \<times> ProofBundle) option"
  sy_lookups :: "(nat, string \<times> ProofBundle) jsmap"

definition log_step ::
  "(bytes \<Rightarrow> bytes) \<Rightarrow> (json \<Rightarrow> string option) \<Rightarrow> (bytes \<Rightarrow> bytes \<Rightarrow> bytes \<Rightarrow> bool) \<Rightarrow> (bytes \<Rightarrow> bytes \<Rightarrow> bytes)
   \<Rightarrow> CheckpointSigner \<Rightarrow> bool \<Rightarrow> event \<Rightarrow> log_system \<Rightarrow> action list \<times> log_system" where
  "log_step sha canon ed_verify ed_sign signer fanout ev s =
     (case ev of
        Prepare rid now body \<Rightarrow>
          (case submit_prepare sha canon ed_verify fanout now body (sy_server s) of
             Inl acts \<Rightarrow> (acts, s)
           | Inr p \<Rightarrow> ([], s\<lparr>sy_pending := AList.update rid p (sy_pending s)\<rparr>))
      | Locked rid wr \<Rightarrow>
          (case (sy_holder s, map_of (sy_pending s) rid) of
             (None, Some p) \<Rightarrow>
               (case submit_locked sha ed_sign signer fanout wr p (sy_server s) of
                  (Inl acts, sv) \<Rightarrow> (acts, s\<lparr>sy_server := sv, sy_pending := AList.delete rid (sy_pending s)\<rparr>)
                | (Inr appended, sv) \<Rightarrow>
                    ([], s\<lparr>sy_server := sv, sy_pending := AList.delete rid (sy_pending s),
                           sy_holder := Some (p, appended)\<rparr>))
           | _ \<Rightarrow> ([], s))
      | Finish \<Rightarrow>
          (case sy_holder s of
             None \<Rightarrow> ([], s)
           | Some (p, appended) \<Rightarrow>
               (case submit_finish fanout p appended (sy_server s) of
                  (acts, sv) \<Rightarrow> (acts, s\<lparr>sy_server := sv, sy_holder := None\<rparr>)))
      | LookupStart lid h \<Rightarrow>
          (case lookup_start sha ed_sign signer h (sy_server s) of
             Inl acts \<Rightarrow> (acts, s)
           | Inr proof \<Rightarrow> ([], s\<lparr>sy_lookups := AList.update lid (h, proof) (sy_lookups s)\<rparr>))
      | LookupFinish lid \<Rightarrow>
          (case map_of (sy_lookups s) lid of
             None \<Rightarrow> ([], s)
           | Some (h, proof) \<Rightarrow>
               (case lookup_finish h proof (sy_server s) of
                  (acts, sv) \<Rightarrow> (acts, s\<lparr>sy_server := sv, sy_lookups := AList.delete lid (sy_lookups s)\<rparr>))))"

text \<open>The states a server with an empty log (and an empty or absent file) reaches.\<close>

definition fresh_system :: "log_tree \<Rightarrow> log_system" where
  "fresh_system t = \<lparr>sy_server = \<lparr>sv_tree = t, sv_proofCache = []\<rparr>, sy_pending = [], sy_holder = None, sy_lookups = []\<rparr>"

definition log_run ::
  "(bytes \<Rightarrow> bytes) \<Rightarrow> (json \<Rightarrow> string option) \<Rightarrow> (bytes \<Rightarrow> bytes \<Rightarrow> bytes \<Rightarrow> bool) \<Rightarrow> (bytes \<Rightarrow> bytes \<Rightarrow> bytes)
   \<Rightarrow> CheckpointSigner \<Rightarrow> bool \<Rightarrow> event list \<Rightarrow> bytes option \<Rightarrow> log_system" where
  "log_run sha canon ed_verify ed_sign signer fanout evs f =
     fold (\<lambda>ev s. snd (log_step sha canon ed_verify ed_sign signer fanout ev s)) evs (fresh_system (empty_tree f))"

section \<open>Proof bundles\<close>

text \<open>What a client checks of a bundle: the operator's signature, and the inclusion of the leaf hash
  in the tree that the signed checkpoint names.\<close>

definition bundle_checks ::
  "(bytes \<Rightarrow> bytes) \<Rightarrow> (bytes \<Rightarrow> bytes \<Rightarrow> bytes \<Rightarrow> bool) \<Rightarrow> TrustedCheckpointKey \<Rightarrow> ProofBundle \<Rightarrow> bool" where
  "bundle_checks sha ed_verify key b \<longleftrightarrow>
     (case verifyOperatorCheckpoint sha ed_verify (pb_checkpoint b) key of
        Inl _ \<Rightarrow> False
      | Inr c \<Rightarrow> verifyInclusion sha (int (pb_log_index b)) (int (cn_treeSize c))
                  (buffer_from_base64 (pb_leaf_hash b)) (map buffer_from_base64 (pb_inclusion_proof b))
                  (cn_rootHash c))"

lemma makeProofBundle_Inr:
  assumes "tree_inv sha t" and "i < length (rawEntries t)"
  shows "\<exists>p r. makeProofBundle sha ed_sign t signer i = Inr \<lparr>pb_log_index = i,
      pb_checkpoint = signer_sign ed_sign signer (length (rawEntries t)) r,
      pb_inclusion_proof = map base64Encode p, pb_leaf_hash = base64Encode (leafHash sha (rawEntries t ! i))\<rparr>
    \<and> tree_inclusionProof sha (int i) t = Inr p \<and> tree_root sha t = Inr r"
proof -
  have ne: "rawEntries t \<noteq> []" using assms(2) by auto
  have "\<exists>r. tree_root sha t = Inr r"
    using tree_root_eq [OF assms(1) ne] ne by (simp add: computeRoot_mth)
  moreover have "\<exists>p. tree_inclusionProof sha (int i) t = Inr p"
    using tree_inclusionProof_eq [OF assms] assms(2) ne
    by (simp add: computeInclusionProof_def inclusionProof_rec_path)
  ultimately show ?thesis
    using tree_leafHash_eq [OF assms] by (auto simp: makeProofBundle_def tree_size_def)
qed

lemma bundle_checks_tree:
  assumes sha: "\<And>x. length (sha x) = 32"
    and ed: "\<And>m. length (ed_sign m sk) = 64 \<and> ed_verify (ed_sign m sk) m pk"
    and "length pk = 32" and "word_text origin"
    and "tree_inv sha t" and "i < length (rawEntries t)" and "int (length (rawEntries t)) \<le> max_safe_integer"
    and "makeProofBundle sha ed_sign t (createCheckpointSigner sha sk pk origin) i = Inr b"
  shows "bundle_checks sha ed_verify \<lparr>tk_name = origin, tk_publicKey = RawKey pk\<rparr> b"
proof -
  let ?n = "length (rawEntries t)"
  obtain r p h where *: "tree_root sha t = Inr r" "tree_inclusionProof sha (int i) t = Inr p"
    "tree_leafHash (int i) t = Inr (Some h)" "verifyInclusion sha (int i) (int ?n) h p r"
    using ltree.proofs_verify [of sha t i] assms by auto
  have h: "h = leafHash sha (rawEntries t ! i)"
    using *(3) tree_leafHash_eq [OF assms(5, 6)] by simp
  have b: "b = \<lparr>pb_log_index = i, pb_checkpoint = signer_sign ed_sign (createCheckpointSigner sha sk pk origin) ?n r,
      pb_inclusion_proof = map base64Encode p, pb_leaf_hash = base64Encode h\<rparr>"
    using makeProofBundle_Inr [OF assms(5, 6), of ed_sign "createCheckpointSigner sha sk pk origin"] assms(8) * h by auto
  have "length r = 32" using *(4) by (auto simp: verifyInclusion_def split: if_splits)
  then obtain c where "verifyOperatorCheckpoint sha ed_verify
      (signer_sign ed_sign (createCheckpointSigner sha sk pk origin) ?n r @ concat (map (\<lambda>l. l @ [nl]) []))
      \<lparr>tk_name = origin, tk_publicKey = RawKey pk\<rparr> = Inr c" "cn_treeSize c = ?n" "cn_rootHash c = r"
    using operator_note_accepted [of sha ed_sign sk ed_verify pk origin ?n r "[]"] assms by auto
  with *(4) show ?thesis by (simp add: bundle_checks_def b comp_def)
qed

section \<open>The cache\<close>

lemma cache_proof_bound:
  assumes "length m \<le> MAX_PROOF_CACHE"
  shows "length (cache_proof k v m) \<le> MAX_PROOF_CACHE"
proof (cases "MAX_PROOF_CACHE \<le> length m")
  case True
  with assms have len: "length m = MAX_PROOF_CACHE" by simp
  then obtain k0 v0 r where m: "m = (k0, v0) # r"
    by (cases m) (auto simp: MAX_PROOF_CACHE_def)
  have "length (AList.delete k0 r) \<le> length r"
    by (rule length_delete_le)
  then have "Suc (length (AList.delete k0 r)) \<le> MAX_PROOF_CACHE"
    using len m by simp
  then have "length (AList.update k v (AList.delete k0 r)) \<le> MAX_PROOF_CACHE"
    by (rule le_trans [OF length_update_le])
  with m True show ?thesis by (simp add: cache_proof_def)
next
  case False
  then have "length (AList.update k v m) \<le> MAX_PROOF_CACHE"
    by (intro le_trans [OF length_update_le]) simp
  with False show ?thesis by (simp add: cache_proof_def)
qed

lemma cache_proof_small:
  "length m < MAX_PROOF_CACHE \<Longrightarrow> cache_proof k v m = AList.update k v m"
  by (simp add: cache_proof_def)

lemma delete_subset: "set (AList.delete k m) \<subseteq> set m"
  by (induction m) auto

lemma evict_cases:
  obtains m' where "cache_proof k v m = AList.update k v m'" and "m' = m \<or> (\<exists>k0. m' = AList.delete k0 m)"
proof (cases "MAX_PROOF_CACHE \<le> length m \<and> m \<noteq> []")
  case True
  then have "cache_proof k v m = AList.update k v (AList.delete (fst (hd m)) m)"
    by (cases m) (auto simp: cache_proof_def simp del: AList.update.simps)
  with that show thesis by blast
next
  case False
  then have "cache_proof k v m = AList.update k v m"
    by (auto simp: cache_proof_def)
  with that show thesis by blast
qed

lemma cache_proof_keys: "set (map fst (cache_proof k v m)) \<subseteq> insert k (set (map fst m))"
proof (cases rule: evict_cases [of k v m])
  case (1 m')
  have "fst ` set m' \<subseteq> fst ` set m"
    using 1(2) by (elim disjE exE) (simp_all add: image_mono delete_subset)
  with 1(1) show ?thesis by (auto simp: dom_update)
qed

lemma cache_proof_distinct: "distinct (map fst m) \<Longrightarrow> distinct (map fst (cache_proof k v m))"
proof (cases rule: evict_cases [of k v m])
  case (1 m')
  assume "distinct (map fst m)"
  with 1(2) have "distinct (map fst m')"
    by (elim disjE exE) (auto intro: jsmap.distinct_del)
  with 1(1) show ?thesis by (simp add: jsmap.distinct_put)
qed

section \<open>Entries and requests\<close>

definition entry_hash :: "bytes \<Rightarrow> string" where
  "entry_hash e = hexEncode (subarray 1 33 e)"

definition prepared_ok :: "prepared \<Rightarrow> bool" where
  "prepared_ok p \<longleftrightarrow> length (pr_entry p) = 90 \<and> entry_hash (pr_entry p) = pr_hashHex p"

lemma submit_prepare_ok:
  "submit_prepare sha canon ed_verify fanout now body sv = Inr p \<Longrightarrow> prepared_ok p"
proof -
  assume "submit_prepare sha canon ed_verify fanout now body sv = Inr p"
  then obtain canonBytes input where s: "serializeEntry input = Inr (pr_entry p)"
    "ei_record_hash_hex input = hexEncode (sha canonBytes)" "pr_hashHex p = hexEncode (sha canonBytes)"
    by (auto simp: submit_prepare_def Let_def split: request_body.splits json.splits sum.splits if_splits option.splits)
  then obtain k c where "length (sha canonBytes) = 32" "length k = 32" "length c = 16"
    "pr_entry p = [ENTRY_VERSION] @ sha canonBytes @ k @ c @ be64 (word_of_int (ei_timestamp input))
             @ [eventTypeUriToByte (ei_event_type input)]"
    by (auto simp: serializeEntry_Inr_iff)
  with s(3) show ?thesis
    by (simp add: prepared_ok_def entry_hash_def subarray_def)
qed

lemma decodeEntry_90: "length e = 90 \<Longrightarrow> \<exists>d. decodeEntry e i = Inr d"
  by (simp add: decodeEntry_def Let_def)

lemma find_entry_Some: "find_entry h i es = Some j \<Longrightarrow> \<exists>k < length es. j = i + k \<and> entry_hash (es ! k) = h"
proof (induction h i es rule: find_entry.induct)
  case (2 h i e es)
  then show ?case
    by (auto simp: entry_hash_def split: if_splits intro: exI [of _ 0] exI [of _ "Suc _"])
qed simp

lemma delete_values: "snd ` set (AList.delete k m) \<subseteq> snd ` set m"
  using delete_subset by fastforce

lemma update_values: "snd ` set (AList.update k v m) \<subseteq> insert v (snd ` set m)"
  by (induction m) auto

section \<open>Sound bundles\<close>

lemma context_id_decodes: "lower_hex_string 32 c \<Longrightarrow> \<exists>bs. hexDecode c = Inr bs \<and> length bs = 16"
  by (auto simp: lower_hex_string_def hexDecode_def length_hex_pairs is_hex_if_lower)

lemma submit_prepare_verified:
  assumes "\<And>x. length (sha x) = 32"
    and "validateSubmission now (JObj r) = Inr ()" and "verifyRecord canon ed_verify now r"
    and "canonicalRecord canon r = Inr cb" and "map_of (sv_proofCache sv) (hexEncode (sha cb)) = None"
  shows "\<exists>e. submit_prepare sha canon ed_verify fanout now (Parsed (JObj r)) sv
      = Inr \<lparr>pr_record = r, pr_hashHex = hexEncode (sha cb), pr_entry = e\<rparr>"
proof -
  from assms(3) obtain c et where f: "map_of r ''context_id'' = Some (JStr c)" "lower_hex_string 32 c"
    and "map_of r ''event_type'' = Some (JStr et)"
    by (auto simp: verifyRecord_iff fields_ok_def)
  obtain cbytes where "hexDecode c = Inr cbytes" "length cbytes = 16"
    using context_id_decodes [OF f(2)] by blast
  moreover from assms(3) obtain key k where "map_of r ''creator_key'' = Some (JStr key)"
    "base64urlDecode key = Inr k" "length k = 32"
    by (auto simp: verifyRecord_iff verify_signature_def str_of_def split: option.splits json.splits sum.splits if_splits)
  ultimately show ?thesis
    using assms f(1)
    by (auto simp: submit_prepare_def Let_def str_of_def serializeEntry_def base64urlToBytes_def)
qed

text \<open>A bundle proves the record hash \<open>h\<close> for the entries \<open>es\<close>.\<close>

definition proof_for ::
  "(bytes \<Rightarrow> bytes) \<Rightarrow> (bytes \<Rightarrow> bytes \<Rightarrow> bytes \<Rightarrow> bool) \<Rightarrow> TrustedCheckpointKey \<Rightarrow> string \<Rightarrow> bytes list
   \<Rightarrow> ProofBundle \<Rightarrow> bool" where
  "proof_for sha ed_verify key h es b \<longleftrightarrow>
     bundle_checks sha ed_verify key b \<and> pb_log_index b < length es
     \<and> entry_hash (es ! pb_log_index b) = h
     \<and> buffer_from_base64 (pb_leaf_hash b) = leafHash sha (es ! pb_log_index b)"

lemma proof_for_append: "proof_for sha ed_verify key h es b \<Longrightarrow> proof_for sha ed_verify key h (es @ fs) b"
  by (simp add: proof_for_def nth_append)

lemma cache_proof_in: "(h, b) \<in> set (cache_proof k v m) \<Longrightarrow> (h = k \<and> b = v) \<or> (h, b) \<in> set m"
proof -
  have *: "(h, b) \<in> set (AList.update k v m') \<Longrightarrow> (h = k \<and> b = v) \<or> (h, b) \<in> set m'" for m'
    by (induction m') (auto split: if_splits)
  assume "(h, b) \<in> set (cache_proof k v m)"
  then show ?thesis
  proof (cases rule: evict_cases [of k v m])
    case (1 m')
    have "set m' \<subseteq> set m" using 1(2) by (elim disjE exE) (simp_all add: delete_subset)
    then show ?thesis using * 1(1) \<open>(h, b) \<in> set (cache_proof k v m)\<close> by auto
  qed
qed

text \<open>What is assumed of the operator: a 32-byte digest, a key pair of a signature scheme whose
  64-byte signatures verify, and an origin that the note format can carry.\<close>

definition operator_ok ::
  "(bytes \<Rightarrow> bytes) \<Rightarrow> (bytes \<Rightarrow> bytes \<Rightarrow> bytes) \<Rightarrow> (bytes \<Rightarrow> bytes \<Rightarrow> bytes \<Rightarrow> bool) \<Rightarrow> bytes \<Rightarrow> bytes
   \<Rightarrow> string \<Rightarrow> bool" where
  "operator_ok sha ed_sign ed_verify sk pk origin \<longleftrightarrow>
     (\<forall>x. length (sha x) = 32) \<and> (\<forall>m. length (ed_sign m sk) = 64 \<and> ed_verify (ed_sign m sk) m pk)
     \<and> length pk = 32 \<and> word_text origin"

lemma toy_operator_ok: "operator_ok pad32 toy_sign toy_verify sk (pad32 sk) ''log''"
  by (simp add: operator_ok_def toy_signature word_text_def ws_prefix_ascii is_space_def nl_def)

lemma makeProofBundle_proof_for:
  assumes "operator_ok sha ed_sign ed_verify sk pk origin" and "tree_inv sha t"
    and "i < length (rawEntries t)" and "int (length (rawEntries t)) \<le> max_safe_integer"
    and "makeProofBundle sha ed_sign t (createCheckpointSigner sha sk pk origin) i = Inr b"
  shows "proof_for sha ed_verify \<lparr>tk_name = origin, tk_publicKey = RawKey pk\<rparr>
    (entry_hash (rawEntries t ! i)) (rawEntries t) b \<and> pb_log_index b = i"
proof -
  have "bundle_checks sha ed_verify \<lparr>tk_name = origin, tk_publicKey = RawKey pk\<rparr> b"
    using assms by (intro bundle_checks_tree [of sha ed_sign sk ed_verify pk origin t i]) (auto simp: operator_ok_def)
  with makeProofBundle_Inr [OF assms(2, 3), of ed_sign "createCheckpointSigner sha sk pk origin"] assms(3, 5)
  show ?thesis by (auto simp: proof_for_def)
qed

section \<open>The system invariant\<close>

abbreviation entries :: "log_system \<Rightarrow> bytes list" where
  "entries s \<equiv> rawEntries (sv_tree (sy_server s))"

abbreviation proof_cache :: "log_system \<Rightarrow> (string, ProofBundle) jsmap" where
  "proof_cache s \<equiv> sv_proofCache (sy_server s)"

text \<open>A bundle that was made from the log for record hash \<open>h\<close>: the hash is in the log, and under an
  operator's signer the bundle proves it, as long as sizes are exact JavaScript numbers.\<close>

definition good_bundle ::
  "(bytes \<Rightarrow> bytes) \<Rightarrow> (bytes \<Rightarrow> bytes \<Rightarrow> bytes) \<Rightarrow> CheckpointSigner \<Rightarrow> bytes list \<Rightarrow> string \<times> ProofBundle \<Rightarrow> bool" where
  "good_bundle sha ed_sign signer es = (\<lambda>(h, b).
     h \<in> entry_hash ` set es
     \<and> (\<forall>ed_verify sk pk origin. operator_ok sha ed_sign ed_verify sk pk origin
          \<and> signer = createCheckpointSigner sha sk pk origin \<and> int (length es) \<le> max_safe_integer
          \<longrightarrow> proof_for sha ed_verify \<lparr>tk_name = origin, tk_publicKey = RawKey pk\<rparr> h es b))"

lemma good_bundle_append: "good_bundle sha ed_sign signer es x \<Longrightarrow> good_bundle sha ed_sign signer (es @ fs) x"
  by (auto simp: good_bundle_def intro!: proof_for_append)

lemma good_bundle_made:
  assumes "tree_inv sha t" and "i < length (rawEntries t)" and "makeProofBundle sha ed_sign t signer i = Inr b"
  shows "good_bundle sha ed_sign signer (rawEntries t) (entry_hash (rawEntries t ! i), b)"
  using makeProofBundle_proof_for [OF _ assms(1, 2)] assms(2, 3) by (auto simp: good_bundle_def)

text \<open>The bundles in the cache, with the holder of the lock and with unfinished lookups.\<close>

definition bundles :: "log_system \<Rightarrow> (string \<times> ProofBundle) set" where
  "bundles s = set (proof_cache s) \<union> snd ` set (sy_lookups s)
     \<union> (case sy_holder s of None \<Rightarrow> {} | Some (p, _, b) \<Rightarrow> {(pr_hashHex p, b)})"

definition held :: "log_system \<Rightarrow> string set" where
  "held s = (case sy_holder s of None \<Rightarrow> {} | Some (p, _) \<Rightarrow> {pr_hashHex p})"

definition system_inv ::
  "(bytes \<Rightarrow> bytes) \<Rightarrow> (bytes \<Rightarrow> bytes \<Rightarrow> bytes) \<Rightarrow> CheckpointSigner \<Rightarrow> log_system \<Rightarrow> bool" where
  "system_inv sha ed_sign signer s \<longleftrightarrow>
     tree_inv sha (sv_tree (sy_server s)) \<and> distinct (map fst (proof_cache s))
     \<and> length (proof_cache s) \<le> MAX_PROOF_CACHE
     \<and> (\<forall>x \<in> bundles s. good_bundle sha ed_sign signer (entries s) x)
     \<and> (\<forall>p \<in> snd ` set (sy_pending s). prepared_ok p)
     \<and> (length (entries s) < MAX_PROOF_CACHE \<longrightarrow> entry_hash ` set (entries s) \<subseteq> fst ` set (proof_cache s) \<union> held s)
     \<and> (length (entries s) \<le> MAX_PROOF_CACHE \<longrightarrow> distinct (map entry_hash (entries s)))"

lemma fresh_system_inv: "system_inv sha ed_sign signer (fresh_system (empty_tree f))"
  by (auto simp: fresh_system_def system_inv_def bundles_def) (auto simp: empty_tree_def)

lemma pending_ok:
  assumes "system_inv sha ed_sign signer s"
  shows "\<forall>p \<in> snd ` set (sy_pending s). prepared_ok p" "map_of (sy_pending s) rid = Some p \<Longrightarrow> prepared_ok p"
proof -
  show *: "\<forall>p \<in> snd ` set (sy_pending s). prepared_ok p" using assms by (simp add: system_inv_def)
  assume "map_of (sy_pending s) rid = Some p"
  then have "p \<in> snd ` set (sy_pending s)" by (force dest: map_of_SomeD)
  with * show "prepared_ok p" by blast
qed

lemma bundle_hash:
  "system_inv sha ed_sign signer s \<Longrightarrow> (h, b) \<in> bundles s \<Longrightarrow> h \<in> entry_hash ` set (entries s)"
  by (auto simp: system_inv_def good_bundle_def simp del: image_iff)

lemma cache_keys_bound:
  assumes "system_inv sha ed_sign signer s"
  shows "length (proof_cache s) \<le> length (entries s)"
proof -
  have "fst ` set (proof_cache s) \<subseteq> entry_hash ` set (entries s)"
  proof
    fix h assume "h \<in> fst ` set (proof_cache s)"
    then obtain b where "(h, b) \<in> set (proof_cache s)" by auto
    then have "(h, b) \<in> bundles s" by (simp add: bundles_def)
    then show "h \<in> entry_hash ` set (entries s)" by (rule bundle_hash [OF assms])
  qed
  then have "card (fst ` set (proof_cache s)) \<le> card (entry_hash ` set (entries s))"
    by (intro card_mono) auto
  also have "\<dots> \<le> length (entries s)"
    by (metis card_image_le card_length finite_set le_trans)
  finally have "card (set (map fst (proof_cache s))) \<le> length (entries s)" by simp
  moreover have "distinct (map fst (proof_cache s))" using assms by (simp add: system_inv_def)
  ultimately show ?thesis by (simp only: distinct_card length_map)
qed

text \<open>Caching a bundle at hand, as both kinds of request do when they resume.\<close>

lemma cache_put_inv:
  assumes inv: "system_inv sha ed_sign signer s" and hb: "(h, b) \<in> bundles s"
    and s': "sy_server s' = (sy_server s)\<lparr>sv_proofCache := cache_proof h b (proof_cache s)\<rparr>"
      "sy_pending s' = sy_pending s" "snd ` set (sy_lookups s') \<subseteq> snd ` set (sy_lookups s)"
      "sy_holder s' = sy_holder s \<or> sy_holder s' = None \<and> held s = {h}"
  shows "system_inv sha ed_sign signer s'"
proof -
  have sub: "bundles s' \<subseteq> bundles s"
    using hb s' by (auto simp: bundles_def dest!: cache_proof_in)
  have "entry_hash ` set (entries s) \<subseteq> fst ` set (cache_proof h b (proof_cache s)) \<union> held s'"
    if small: "length (entries s) < MAX_PROOF_CACHE"
  proof -
    have "cache_proof h b (proof_cache s) = AList.update h b (proof_cache s)"
      using cache_keys_bound [OF inv] small by (intro cache_proof_small) simp
    moreover have "held s \<subseteq> insert h (held s')" using s'(4) by (auto simp: held_def)
    ultimately show ?thesis using inv small by (auto simp: system_inv_def dom_update)
  qed
  with inv sub s' cache_proof_distinct [of "proof_cache s" h b] cache_proof_bound [of "proof_cache s" h b]
  show ?thesis by (auto simp: system_inv_def)
qed

lemma submit_locked_cases:
  assumes inv: "tree_inv sha (sv_tree sv)" and p: "prepared_ok p"
  obtains (hit) b where "map_of (sv_proofCache sv) (pr_hashHex p) = Some b"
      "submit_locked sha ed_sign signer fanout wr p sv
         = (Inl (SendProof b # fanout_if fanout (pr_record p) (pr_hashHex p) (pb_log_index b)), sv)"
  | (failed) err t where "tree_append sha wr (pr_entry p) (sv_tree sv) = (Inl err, t)" "tree_inv sha t"
      "rawEntries t = rawEntries (sv_tree sv)"
      "submit_locked sha ed_sign signer fanout wr p sv = (Inl [Throw err], sv\<lparr>sv_tree := t\<rparr>)"
  | (appended) t b d where "map_of (sv_proofCache sv) (pr_hashHex p) = None" "tree_inv sha t"
      "rawEntries t = rawEntries (sv_tree sv) @ [pr_entry p]"
      "makeProofBundle sha ed_sign t signer (length (rawEntries (sv_tree sv))) = Inr b"
      "submit_locked sha ed_sign signer fanout wr p sv = (Inr (d, b), sv\<lparr>sv_tree := t\<rparr>)"
proof (cases "map_of (sv_proofCache sv) (pr_hashHex p)")
  case (Some b)
  with hit show thesis by (simp add: submit_locked_def)
next
  case None
  obtain r t where a: "tree_append sha wr (pr_entry p) (sv_tree sv) = (r, t)"
    by (cases "tree_append sha wr (pr_entry p) (sv_tree sv)")
  have mem: "tree_inv sha t
    \<and> (case r of Inr i \<Rightarrow> i = length (rawEntries (sv_tree sv)) \<and> rawEntries t = rawEntries (sv_tree sv) @ [pr_entry p]
               | Inl _ \<Rightarrow> rawEntries t = rawEntries (sv_tree sv))"
    by (rule tree_append_memory [OF inv a])
  show thesis
  proof (cases r)
    case (Inl err)
    with mem a None failed show thesis by (simp add: submit_locked_def)
  next
    case (Inr i)
    with mem have t: "tree_inv sha t" "i = length (rawEntries (sv_tree sv))"
      "rawEntries t = rawEntries (sv_tree sv) @ [pr_entry p]" by auto
    obtain b where b: "makeProofBundle sha ed_sign t signer i = Inr b"
      using makeProofBundle_Inr [OF t(1), of i ed_sign signer] t(2, 3) by auto
    obtain d where d: "decodeEntry (pr_entry p) i = Inr d"
      using decodeEntry_90 p by (auto simp: prepared_ok_def)
    show thesis
      by (rule appended [OF None t(1, 3)]) (use a Inr b d None t(2) in \<open>simp_all add: submit_locked_def\<close>)
  qed
qed

text \<open>The append inside the lock, where the second look at the cache has missed.\<close>

lemma append_inv:
  assumes inv: "system_inv sha ed_sign signer s" and "sy_holder s = None" and p: "prepared_ok p"
    and none: "map_of (proof_cache s) (pr_hashHex p) = None"
    and t: "tree_inv sha t" "rawEntries t = entries s @ [pr_entry p]"
      "makeProofBundle sha ed_sign t signer (length (entries s)) = Inr b"
    and s': "sy_server s' = (sy_server s)\<lparr>sv_tree := t\<rparr>" "snd ` set (sy_pending s') \<subseteq> snd ` set (sy_pending s)"
      "sy_holder s' = Some (p, d, b)" "sy_lookups s' = sy_lookups s"
  shows "system_inv sha ed_sign signer s'"
proof -
  have h: "entry_hash (pr_entry p) = pr_hashHex p" using p by (simp add: prepared_ok_def)
  have new: "good_bundle sha ed_sign signer (rawEntries t) (pr_hashHex p, b)"
    using good_bundle_made [OF t(1) _ t(3)] t(2) h by (simp add: nth_append)
  have good: "\<forall>x \<in> bundles s'. good_bundle sha ed_sign signer (rawEntries t) x"
  proof
    fix x assume "x \<in> bundles s'"
    then have "x \<in> bundles s \<or> x = (pr_hashHex p, b)"
      using s' by (auto simp: bundles_def)
    moreover have "good_bundle sha ed_sign signer (entries s) x" if "x \<in> bundles s"
      using that inv by (simp add: system_inv_def)
    ultimately show "good_bundle sha ed_sign signer (rawEntries t) x"
      unfolding t(2) using new t(2) good_bundle_append by metis
  qed
  have all: "entry_hash ` set (entries s) \<subseteq> fst ` set (proof_cache s)" if "length (entries s) < MAX_PROOF_CACHE"
    using inv that assms(2) by (auto simp: system_inv_def held_def)
  moreover have "pr_hashHex p \<notin> fst ` set (proof_cache s)"
    using none by (simp add: map_of_eq_None_iff)
  ultimately have "pr_hashHex p \<notin> entry_hash ` set (entries s)" if "length (entries s) < MAX_PROOF_CACHE"
    using that by blast
  moreover have "\<forall>q \<in> snd ` set (sy_pending s'). prepared_ok q"
    using pending_ok(1) [OF inv] s'(2) by blast
  ultimately show ?thesis
    using inv good t(1, 2) s' h all by (auto simp: system_inv_def held_def image_subset_iff)
qed

text \<open>The record hash a step of the event loop is about.\<close>

definition requested ::
  "(bytes \<Rightarrow> bytes) \<Rightarrow> (json \<Rightarrow> string option) \<Rightarrow> event \<Rightarrow> log_system \<Rightarrow> string \<Rightarrow> bool" where
  "requested sha canon ev s h =
     (case ev of
        Prepare _ _ (Parsed (JObj r)) \<Rightarrow> (case canonicalRecord canon r of Inl _ \<Rightarrow> False | Inr cb \<Rightarrow> h = hexEncode (sha cb))
      | Prepare _ _ _ \<Rightarrow> False
      | Locked rid _ \<Rightarrow> map_option pr_hashHex (map_of (sy_pending s) rid) = Some h
      | Finish \<Rightarrow> map_option (pr_hashHex \<circ> fst) (sy_holder s) = Some h
      | LookupStart _ h' \<Rightarrow> h = h'
      | LookupFinish lid \<Rightarrow> map_option fst (map_of (sy_lookups s) lid) = Some h)"

definition step_ok ::
  "(bytes \<Rightarrow> bytes) \<Rightarrow> (json \<Rightarrow> string option) \<Rightarrow> (bytes \<Rightarrow> bytes \<Rightarrow> bytes) \<Rightarrow> CheckpointSigner \<Rightarrow> event
   \<Rightarrow> log_system \<Rightarrow> action list \<times> log_system \<Rightarrow> bool" where
  "step_ok sha canon ed_sign signer ev s = (\<lambda>(acts, s').
     system_inv sha ed_sign signer s' \<and> (\<exists>new. entries s' = entries s @ new)
     \<and> (\<forall>b. SendProof b \<in> set acts \<longrightarrow> (\<exists>h. requested sha canon ev s h \<and> (h, b) \<in> bundles s)))"

lemma map_of_bundles:
  "map_of (proof_cache s) h = Some b \<Longrightarrow> (h, b) \<in> bundles s"
  "map_of (sy_lookups s) lid = Some (h, b) \<Longrightarrow> (h, b) \<in> bundles s"
  by (force simp: bundles_def dest!: map_of_SomeD)+

lemma sent_fanout [simp]: "SendProof b \<notin> set (fanout_if f r h i)"
  by (simp add: fanout_if_def)

lemma step_prepare:
  assumes inv: "system_inv sha ed_sign signer s"
  shows "step_ok sha canon ed_sign signer (Prepare rid now body) s
    (log_step sha canon ed_verify ed_sign signer fanout (Prepare rid now body) s)"
proof (cases "submit_prepare sha canon ed_verify fanout now body (sy_server s)")
  case (Inr p)
  have "\<forall>q \<in> snd ` set (AList.update rid p (sy_pending s)). prepared_ok q"
    using submit_prepare_ok [OF Inr] pending_ok(1) [OF inv] update_values [of rid p "sy_pending s"] by blast
  with inv Inr show ?thesis
    by (simp add: step_ok_def log_step_def system_inv_def bundles_def held_def)
next
  case (Inl acts)
  have "\<exists>h. requested sha canon (Prepare rid now body) s h \<and> (h, b) \<in> bundles s" if "SendProof b \<in> set acts" for b
    using Inl that
    by (auto simp: submit_prepare_def requested_def Let_def map_of_bundles
        split: request_body.splits json.splits sum.splits if_splits option.splits)
  with inv Inl show ?thesis by (simp add: step_ok_def log_step_def)
qed

lemma step_locked:
  assumes inv: "system_inv sha ed_sign signer s"
  shows "step_ok sha canon ed_sign signer (Locked rid wr) s
    (log_step sha canon ed_verify ed_sign signer fanout (Locked rid wr) s)"
proof (cases "sy_holder s = None \<and> map_of (sy_pending s) rid \<noteq> None")
  case False
  with inv show ?thesis by (auto simp: step_ok_def log_step_def split: option.splits)
next
  case True
  then obtain p where free: "sy_holder s = None" and pend: "map_of (sy_pending s) rid = Some p" by blast
  have p: "prepared_ok p" by (rule pending_ok(2) [OF inv pend])
  have req: "requested sha canon (Locked rid wr) s (pr_hashHex p)" by (simp add: requested_def pend)
  have rest: "\<forall>q \<in> snd ` set (AList.delete rid (sy_pending s)). prepared_ok q"
    using pending_ok(1) [OF inv] delete_values [of rid "sy_pending s"] by blast
  have tinv: "tree_inv sha (sv_tree (sy_server s))" using inv by (simp add: system_inv_def)
  from tinv p show ?thesis
  proof (cases rule: submit_locked_cases [of sha "sy_server s" p ed_sign signer fanout wr])
    case (hit b)
    with inv rest req free pend map_of_bundles(1) [OF hit(1)] show ?thesis
      by (auto simp: step_ok_def log_step_def system_inv_def bundles_def held_def)
  next
    case (failed err t)
    with inv rest free pend show ?thesis
      by (simp add: step_ok_def log_step_def system_inv_def bundles_def held_def)
  next
    case (appended t b d)
    let ?s = "s\<lparr>sy_server := (sy_server s)\<lparr>sv_tree := t\<rparr>, sy_pending := AList.delete rid (sy_pending s),
        sy_holder := Some (p, d, b)\<rparr>"
    have "system_inv sha ed_sign signer ?s"
      by (rule append_inv [OF inv free p appended(1-4), of ?s d]) (simp_all add: delete_values)
    with appended free pend show ?thesis by (simp add: step_ok_def log_step_def)
  qed
qed

lemma step_finish:
  assumes inv: "system_inv sha ed_sign signer s"
  shows "step_ok sha canon ed_sign signer Finish s (log_step sha canon ed_verify ed_sign signer fanout Finish s)"
proof (cases "sy_holder s")
  case None
  with inv show ?thesis by (simp add: step_ok_def log_step_def)
next
  case (Some x)
  then obtain p d b where x: "sy_holder s = Some (p, d, b)" by (cases x) auto
  let ?s = "s\<lparr>sy_server := (sy_server s)\<lparr>sv_proofCache := cache_proof (pr_hashHex p) b (proof_cache s)\<rparr>, sy_holder := None\<rparr>"
  have mem: "(pr_hashHex p, b) \<in> bundles s" using x by (simp add: bundles_def)
  have "system_inv sha ed_sign signer ?s"
    by (rule cache_put_inv [OF inv mem]) (simp_all add: held_def x)
  with x mem show ?thesis by (auto simp: step_ok_def log_step_def submit_finish_def requested_def)
qed

lemma step_lookup_start:
  assumes inv: "system_inv sha ed_sign signer s"
  shows "step_ok sha canon ed_sign signer (LookupStart lid h) s
    (log_step sha canon ed_verify ed_sign signer fanout (LookupStart lid h) s)"
proof (cases "lookup_start sha ed_sign signer h (sy_server s)")
  case (Inl acts)
  then have "(h, b) \<in> bundles s" if "SendProof b \<in> set acts" for b
    using that by (auto simp: lookup_start_def map_of_bundles split: option.splits sum.splits)
  with inv Inl show ?thesis by (simp add: step_ok_def log_step_def requested_def)
next
  case (Inr b)
  then obtain i where i: "find_entry h 0 (entries s) = Some i"
    "makeProofBundle sha ed_sign (sv_tree (sy_server s)) signer i = Inr b"
    by (auto simp: lookup_start_def split: option.splits sum.splits)
  have idx: "i < length (entries s)" "entry_hash (entries s ! i) = h" using find_entry_Some [OF i(1)] by auto
  let ?s = "s\<lparr>sy_lookups := AList.update lid (h, b) (sy_lookups s)\<rparr>"
  have "good_bundle sha ed_sign signer (entries s) (h, b)"
    using good_bundle_made [OF _ idx(1) i(2)] inv idx(2) by (simp add: system_inv_def)
  moreover have "bundles ?s \<subseteq> insert (h, b) (bundles s)"
    using update_values [of lid "(h, b)" "sy_lookups s"] by (auto simp: bundles_def simp del: image_iff)
  ultimately have "system_inv sha ed_sign signer ?s"
    using inv by (auto simp: system_inv_def held_def)
  with Inr show ?thesis by (simp add: step_ok_def log_step_def)
qed

lemma step_lookup_finish:
  assumes inv: "system_inv sha ed_sign signer s"
  shows "step_ok sha canon ed_sign signer (LookupFinish lid) s
    (log_step sha canon ed_verify ed_sign signer fanout (LookupFinish lid) s)"
proof (cases "map_of (sy_lookups s) lid")
  case None
  with inv show ?thesis by (simp add: step_ok_def log_step_def)
next
  case (Some x)
  then obtain h b where x: "map_of (sy_lookups s) lid = Some (h, b)" by (cases x) auto
  let ?s = "s\<lparr>sy_server := (sy_server s)\<lparr>sv_proofCache := cache_proof h b (proof_cache s)\<rparr>,
      sy_lookups := AList.delete lid (sy_lookups s)\<rparr>"
  have "system_inv sha ed_sign signer ?s"
    by (rule cache_put_inv [OF inv map_of_bundles(2) [OF x]]) (simp_all add: delete_values)
  with x map_of_bundles(2) [OF x] show ?thesis
    by (auto simp: step_ok_def log_step_def lookup_finish_def requested_def)
qed

lemma log_step_ok:
  "system_inv sha ed_sign signer s \<Longrightarrow>
   step_ok sha canon ed_sign signer ev s (log_step sha canon ed_verify ed_sign signer fanout ev s)"
  by (cases ev) (simp_all add: step_prepare step_locked step_finish step_lookup_start step_lookup_finish)

interpretation log_machine: state_machine "\<lambda>s. \<exists>f. s = fresh_system (empty_tree f)"
  "\<lambda>ev s. snd (log_step sha canon ed_verify ed_sign signer fanout ev s)" "system_inv sha ed_sign signer"
  for sha canon ed_verify ed_sign signer fanout
proof
  show "system_inv sha ed_sign signer s" if "\<exists>f. s = fresh_system (empty_tree f)" for s
    using that fresh_system_inv by blast
  show "system_inv sha ed_sign signer (snd (log_step sha canon ed_verify ed_sign signer fanout ev s))"
    if "system_inv sha ed_sign signer s" for s ev
    using log_step_ok [OF that, of canon ev ed_verify fanout] by (auto simp: step_ok_def)
qed

lemma log_run_inv: "system_inv sha ed_sign signer (log_run sha canon ed_verify ed_sign signer fanout evs f)"
  unfolding log_run_def by (rule log_machine.run_inv) blast

section \<open>Properties\<close>

definition toy_submission :: js_object where
  "toy_submission =
     (let r = AList.update ''chain_root'' (JStr (sha256_prefix @ replicate 64 (CHR ''a'')))
                (toy_record EVENT_TYPE_REVISION_URI)
      in AList.update ''signature'' (JStr (base64urlEncode (toy_sign (encode_utf8 (concat (map fst r))) [7]))) r)"

lemma revision_uri_valid: "isValidEventTypeUri EVENT_TYPE_REVISION_URI"
  by (rule normative_valid)
    (simp add: isNormativeEventTypeUri_def NORMATIVE_EVENT_TYPE_URIS_def EVENT_TYPE_SHORT_TO_URI_def)

lemma toy_submission_valid:
  "validateSubmission 2000 (JObj toy_submission) = Inr ()"
  using revision_uri_valid is_integer_of_int [of 1000]
  by (simp add: validateSubmission_def toy_submission_def toy_record_def str_of_def SPEC_VERSION_def
      MAX_FUTURE_SKEW_MS_def lower_hex_replicate is_sha256_ref_prefix hasCreatorSignerEntry_def
      is_transaction_def CONTENT_ID_REQUIRED_TYPES_def EVENT_TYPE_REVISION_URI_def
      EVENT_TYPE_TOOL_CALL_URI_def EVENT_TYPE_TRANSACTION_URI_def)

lemma toy_submission_verifies: "verifyRecord toy_canon toy_verify 2000 toy_submission"
proof -
  let ?r = "AList.update ''chain_root'' (JStr (sha256_prefix @ replicate 64 (CHR ''a''))) (toy_record EVENT_TYPE_REVISION_URI)"
  have "fields_ok 2000 toy_submission"
    using toy_fields [OF revision_uri_valid] by (simp add: toy_submission_def Let_def fields_ok_update del: AList.update.simps)
  moreover have "verify_signature toy_canon toy_verify toy_submission"
    using toy_signature [of "encode_utf8 (concat (map fst ?r))" "[7]"]
    by (simp add: verify_signature_def toy_submission_def Let_def check_signature_encoded is_transaction_def
        canonicalSigningInput_def canonical_bytes_def toy_canon_def str_of_def toy_record_def
        EVENT_TYPE_REVISION_URI_def)
  ultimately show ?thesis by (simp add: verifyRecord_iff)
qed

lemma write_progress_one: "write_progress (\<lambda>b. 1)"
  by (simp add: write_progress_def)

lemma toy_canonical: "canonicalRecord toy_canon toy_submission = Inr (encode_utf8 (concat (map fst toy_submission)))"
  by (simp add: canonicalRecord_def canonical_bytes_def toy_canon_def)

text \<open>C1: served proofs. In every state the server can reach from an empty log, over every
  interleaving of submissions (with whatever partial or failed writes) and lookups, a proof bundle
  that a step sends, fresh or from the cache, carries a checkpoint that the operator's key verifies
  and an inclusion proof that checks against that checkpoint, for an entry of the log whose record
  hash is the one the request asked for.\<close>

theorem served_proofs_check:
  assumes "operator_ok sha ed_sign ed_verify sk pk origin"
    and "s = log_run sha canon ed_verify ed_sign (createCheckpointSigner sha sk pk origin) fanout evs f"
    and "log_step sha canon ed_verify ed_sign (createCheckpointSigner sha sk pk origin) fanout ev s = (acts, s')"
    and "SendProof b \<in> set acts" and "int (length (entries s)) \<le> max_safe_integer"
  shows "\<exists>h. requested sha canon ev s h
    \<and> proof_for sha ed_verify \<lparr>tk_name = origin, tk_publicKey = RawKey pk\<rparr> h (entries s) b"
proof -
  let ?signer = "createCheckpointSigner sha sk pk origin"
  have inv: "system_inv sha ed_sign ?signer s" unfolding assms(2) by (rule log_run_inv)
  obtain h where h: "requested sha canon ev s h" "(h, b) \<in> bundles s"
    using log_step_ok [OF inv, of canon ev ed_verify fanout] assms(3, 4) by (auto simp: step_ok_def)
  have "good_bundle sha ed_sign ?signer (entries s) (h, b)" using inv h(2) by (simp add: system_inv_def)
  with assms(1, 5) h(1) show ?thesis by (auto simp: good_bundle_def)
qed

lemma toy_prepared:
  "\<exists>p. submit_prepare pad32 toy_canon toy_verify True 2000 (Parsed (JObj toy_submission))
      \<lparr>sv_tree = empty_tree f, sv_proofCache = []\<rparr> = Inr p"
  using submit_prepare_verified [of pad32 2000 toy_submission toy_canon toy_verify _ _ True,
      OF _ toy_submission_valid toy_submission_verifies toy_canonical] by (metis length_pad32 log_server.select_convs(2) map_of.simps(1))

text \<open>Submissions that pass the checks find the log as they left it.\<close>

lemma submit_critical_answers:
  assumes inv: "system_inv sha ed_sign signer s" and p: "prepared_ok p" and wr: "write_progress wr"
    and free: "sy_holder s = None" and none: "map_of (proof_cache s) (pr_hashHex p) = None"
  shows "\<exists>b acts sv. submit_critical sha ed_sign signer fanout wr p (sy_server s) = (SendProof b # acts, sv)
    \<and> rawEntries (sv_tree sv) = entries s @ [pr_entry p]
    \<and> good_bundle sha ed_sign signer (entries s @ [pr_entry p]) (pr_hashHex p, b)"
proof -
  have tinv: "tree_inv sha (sv_tree (sy_server s))" using inv by (simp add: system_inv_def)
  from tinv p show ?thesis
  proof (cases rule: submit_locked_cases [of sha "sy_server s" p ed_sign signer fanout wr])
    case (failed err t)
    with tree_append_progress [OF tinv wr, of "pr_entry p"] show ?thesis by simp
  next
    case (appended t b d)
    have "good_bundle sha ed_sign signer (rawEntries t) (pr_hashHex p, b)"
      using good_bundle_made [OF appended(2) _ appended(4)] appended(3) p by (simp add: nth_append prepared_ok_def)
    with appended show ?thesis by (auto simp: submit_critical_def submit_finish_def)
  qed (use none in simp)
qed

theorem served_proofs_check_witness:
  "\<exists>s acts s' b h. s = log_run pad32 toy_canon toy_verify toy_sign (createCheckpointSigner pad32 [7] (pad32 [7]) ''log'') True
         [Prepare 1 2000 (Parsed (JObj toy_submission)), Locked 1 (\<lambda>b. 1)] None
    \<and> log_step pad32 toy_canon toy_verify toy_sign (createCheckpointSigner pad32 [7] (pad32 [7]) ''log'') True Finish s = (acts, s')
    \<and> SendProof b \<in> set acts
    \<and> requested pad32 toy_canon Finish s h
    \<and> proof_for pad32 toy_verify \<lparr>tk_name = ''log'', tk_publicKey = RawKey (pad32 [7])\<rparr> h (entries s) b"
proof -
  let ?signer = "createCheckpointSigner pad32 [7] (pad32 [7]) ''log''"
  let ?evs = "[Prepare 1 2000 (Parsed (JObj toy_submission)), Locked 1 (\<lambda>b. 1)]"
  let ?sv = "\<lparr>sv_tree = empty_tree None, sv_proofCache = []\<rparr>"
  obtain p where p: "submit_prepare pad32 toy_canon toy_verify True 2000 (Parsed (JObj toy_submission)) ?sv = Inr p"
    using toy_prepared by blast
  have tinv: "tree_inv pad32 (empty_tree None)"
    using fresh_system_inv [of pad32 toy_sign ?signer None] by (simp add: system_inv_def fresh_system_def)
  obtain t b d where l: "rawEntries t = [pr_entry p]"
    "submit_locked pad32 toy_sign ?signer True (\<lambda>b. 1) p ?sv = (Inr (d, b), \<lparr>sv_tree = t, sv_proofCache = []\<rparr>)"
    using tinv submit_prepare_ok [OF p] tree_append_progress [OF tinv write_progress_one, of "pr_entry p"]
    by (auto intro: submit_locked_cases [of pad32 ?sv p toy_sign ?signer True "\<lambda>b. 1"] simp: empty_tree_def)
  define s where "s = log_run pad32 toy_canon toy_verify toy_sign ?signer True ?evs None"
  have s: "sy_holder s = Some (p, d, b)" "sy_server s = \<lparr>sv_tree = t, sv_proofCache = []\<rparr>"
    using p l(2) by (simp_all add: s_def log_run_def log_step_def fresh_system_def)
  obtain acts s' where st: "log_step pad32 toy_canon toy_verify toy_sign ?signer True Finish s = (SendProof b # acts, s')"
    by (simp add: log_step_def s submit_finish_def)
  obtain h where "requested pad32 toy_canon Finish s h"
      "proof_for pad32 toy_verify \<lparr>tk_name = ''log'', tk_publicKey = RawKey (pad32 [7])\<rparr> h (entries s) b"
    using served_proofs_check [OF toy_operator_ok s_def st] s(2) l(1) by (auto simp: max_safe_integer_def)
  with st show ?thesis unfolding s_def by (metis list.set_intros(1))
qed

text \<open>A submission of a verified record in any reachable state.\<close>

lemma submission_answered:
  assumes "operator_ok sha ed_sign ed_verify sk pk origin"
    and "s = log_run sha canon ed_verify ed_sign (createCheckpointSigner sha sk pk origin) fanout evs f"
    and "sy_holder s = None" and "int (length (entries s)) < max_safe_integer"
    and "validateSubmission now (JObj r) = Inr ()" and "verifyRecord canon ed_verify now r"
    and "canonicalRecord canon r = Inr cb" and "write_progress wr"
  shows "\<exists>b acts sv new. handleSubmit sha canon ed_verify ed_sign (createCheckpointSigner sha sk pk origin) fanout
        wr now (Parsed (JObj r)) (sy_server s) = (SendProof b # acts, sv)
      \<and> proof_for sha ed_verify \<lparr>tk_name = origin, tk_publicKey = RawKey pk\<rparr> (hexEncode (sha cb))
          (rawEntries (sv_tree sv)) b
      \<and> rawEntries (sv_tree sv) = entries s @ new
      \<and> (case map_of (proof_cache s) (hexEncode (sha cb)) of
           None \<Rightarrow> \<exists>e. new = [e] \<and> length e = 90 \<and> entry_hash e = hexEncode (sha cb)
         | Some _ \<Rightarrow> new = [])"
proof -
  let ?signer = "createCheckpointSigner sha sk pk origin"
  have inv: "system_inv sha ed_sign ?signer s" unfolding assms(2) by (rule log_run_inv)
  have sha: "length (sha x) = 32" for x using assms(1) by (simp add: operator_ok_def)
  have proves: "proof_for sha ed_verify \<lparr>tk_name = origin, tk_publicKey = RawKey pk\<rparr> h es b"
    if "good_bundle sha ed_sign ?signer es (h, b)" "int (length es) \<le> max_safe_integer" for h es b
    using that assms(1) by (auto simp: good_bundle_def)
  show ?thesis
  proof (cases "map_of (proof_cache s) (hexEncode (sha cb))")
    case (Some b)
    with assms(5-7) have "handleSubmit sha canon ed_verify ed_sign ?signer fanout wr now (Parsed (JObj r)) (sy_server s)
        = (SendProof b # fanout_if fanout r (hexEncode (sha cb)) (pb_log_index b), sy_server s)"
      by (simp add: handleSubmit_def submit_prepare_def Let_def)
    moreover have "good_bundle sha ed_sign ?signer (entries s) (hexEncode (sha cb), b)"
      using inv map_of_bundles(1) [OF Some] by (simp add: system_inv_def)
    ultimately show ?thesis using Some proves assms(4) by auto
  next
    case None
    obtain e where e: "submit_prepare sha canon ed_verify fanout now (Parsed (JObj r)) (sy_server s)
        = Inr \<lparr>pr_record = r, pr_hashHex = hexEncode (sha cb), pr_entry = e\<rparr>" (is "_ = Inr ?p")
      using submit_prepare_verified [of sha now r canon ed_verify cb "sy_server s" fanout] sha assms(5-7) None by blast
    have p: "prepared_ok ?p" by (rule submit_prepare_ok [OF e])
    with submit_critical_answers [OF inv p assms(8, 3), of fanout] None e assms(4) show ?thesis
      by (auto simp: handleSubmit_def prepared_ok_def intro!: proves)
  qed
qed

text \<open>C4: accepted submissions. In every reachable state of the server with the lock free, a record that
  passes \<open>validateSubmission\<close> and \<open>verifyRecord\<close> and canonicalises is answered, when disk writes
  make progress, with a proof bundle for its hash that checks; the log grows by one entry, the
  serialized record, unless its hash is in the proof cache, and then not at all.\<close>

theorem submit_answers_with_proof:
  assumes "operator_ok sha ed_sign ed_verify sk pk origin"
    and "s = log_run sha canon ed_verify ed_sign (createCheckpointSigner sha sk pk origin) fanout evs f"
    and "sy_holder s = None" and "int (length (entries s)) < max_safe_integer"
    and "validateSubmission now (JObj r) = Inr ()" and "verifyRecord canon ed_verify now r"
    and "canonicalRecord canon r = Inr cb" and "write_progress wr"
  shows "\<exists>b acts sv new. handleSubmit sha canon ed_verify ed_sign (createCheckpointSigner sha sk pk origin) fanout
        wr now (Parsed (JObj r)) (sy_server s) = (SendProof b # acts, sv)
      \<and> proof_for sha ed_verify \<lparr>tk_name = origin, tk_publicKey = RawKey pk\<rparr> (hexEncode (sha cb))
          (rawEntries (sv_tree sv)) b
      \<and> rawEntries (sv_tree sv) = entries s @ new
      \<and> (case map_of (proof_cache s) (hexEncode (sha cb)) of
           None \<Rightarrow> \<exists>e. new = [e] \<and> length e = 90 \<and> entry_hash e = hexEncode (sha cb)
         | Some _ \<Rightarrow> new = [])"
  using assms by (rule submission_answered)

theorem submit_answers_with_proof_witness:
  "\<exists>b acts sv new. handleSubmit pad32 toy_canon toy_verify toy_sign (createCheckpointSigner pad32 [7] (pad32 [7]) ''log'')
        True (\<lambda>b. 1) 2000 (Parsed (JObj toy_submission)) (sy_server (fresh_system (empty_tree (Some [])))) = (SendProof b # acts, sv)
      \<and> proof_for pad32 toy_verify \<lparr>tk_name = ''log'', tk_publicKey = RawKey (pad32 [7])\<rparr>
          (hexEncode (pad32 (encode_utf8 (concat (map fst toy_submission))))) (rawEntries (sv_tree sv)) b
      \<and> rawEntries (sv_tree sv) = rawEntries (empty_tree (Some [])) @ new \<and> length new = 1"
  using submit_answers_with_proof [of pad32 toy_sign toy_verify "[7]" "pad32 [7]" "''log''"
      "fresh_system (empty_tree (Some []))" toy_canon True "[]" "Some []" 2000 toy_submission
      "encode_utf8 (concat (map fst toy_submission))" "\<lambda>b. 1"]
    toy_operator_ok [of "[7]"] toy_submission_valid toy_submission_verifies toy_canonical write_progress_one
  by (fastforce simp: log_run_def fresh_system_def empty_tree_def max_safe_integer_def)

text \<open>C14: one entry per record. Over every interleaving of submissions and lookups from an empty log,
  duplicates and retries included, the proof cache holds at most \<^const>\<open>MAX_PROOF_CACHE\<close> bundles with
  distinct keys, and as long as the log has not outgrown the cache no two entries of the log carry
  the same record hash.\<close>

theorem at_most_once:
  assumes "s = log_run sha canon ed_verify ed_sign signer fanout evs f"
  shows "length (proof_cache s) \<le> MAX_PROOF_CACHE \<and> distinct (map fst (proof_cache s))
    \<and> (length (entries s) \<le> MAX_PROOF_CACHE \<longrightarrow> distinct (map entry_hash (entries s)))"
  using log_run_inv [of sha ed_sign signer canon ed_verify fanout evs f] by (simp add: assms system_inv_def)

theorem at_most_once_witness:
  "\<exists>s. s = log_run pad32 toy_canon toy_verify toy_sign (createCheckpointSigner pad32 [7] (pad32 [7]) ''log'') True
         [Prepare 1 2000 (Parsed (JObj toy_submission)), Prepare 2 2000 (Parsed (JObj toy_submission)),
          Locked 1 (\<lambda>b. 1), Locked 2 (\<lambda>b. 1), Finish, Locked 2 (\<lambda>b. 1)] None
    \<and> length (proof_cache s) \<le> MAX_PROOF_CACHE \<and> distinct (map fst (proof_cache s))
    \<and> (length (entries s) \<le> MAX_PROOF_CACHE \<longrightarrow> distinct (map entry_hash (entries s)))"
  by (intro exI conjI at_most_once [THEN conjunct1] at_most_once [THEN conjunct2, THEN conjunct1]
      at_most_once [THEN conjunct2, THEN conjunct2]) (rule refl)+

end
