(* ===== verification/Log_Tiles.thy ===== *)
theory Log_Tiles
  imports Log_Tree Event_Types Checkpoint
begin

text \<open>
  The tile endpoints of the log server (\<open>services/log-node/src/server.ts\<close>): the address syntax of
  tiles, the hash tiles of every level, the entry bundles and the checkpoint endpoint. Handlers that
  only read return their response; \<open>Inl\<close> is an exception that leaves the handler.
\<close>

definition TILE_SIZE :: nat where
  "TILE_SIZE = 256"

record TileAddress =
  ta_index :: nat
  ta_width :: "nat option"
  ta_canonical :: bool

text \<open>The pattern \<open>/^(0|[1-9]\d*)$/\<close>.\<close>

definition canonical_decimal :: "string \<Rightarrow> bool" where
  "canonical_decimal s \<longleftrightarrow>
     s = ''0'' \<or> (s \<noteq> [] \<and> list_all is_digit s \<and> hd s \<noteq> CHR ''0'')"

definition parseCanonicalDecimal :: "string \<Rightarrow> nat option" where
  "parseCanonicalDecimal value =
     (if \<not> canonical_decimal value then None
      else if int (read_nat value) \<le> max_safe_integer then Some (read_nat value) else None)"

text \<open>The pattern \<open>/^(.+?)(?:\.p\/([1-9]\d*))?$/\<close>: the shortest non-empty prefix that leaves either
  nothing or a width. A dot does not match a line terminator.\<close>

definition width_suffix :: "string \<Rightarrow> bool" where
  "width_suffix s \<longleftrightarrow>
     (case s of
        a # b # c # d # ds \<Rightarrow> [a, b, c] = ''.p/'' \<and> is_digit d \<and> d \<noteq> CHR ''0'' \<and> list_all is_digit ds
      | _ \<Rightarrow> False)"

fun split_width :: "string \<Rightarrow> string \<times> string option" where
  "split_width [] = ([], None)"
| "split_width (c # cs) =
     (if width_suffix (c # cs) then ([], Some (drop 3 (c # cs)))
      else let (a, w) = split_width cs in (c # a, w))"

definition match_tile :: "string \<Rightarrow> (string \<times> string option) option" where
  "match_tile value =
     (case value of
        [] \<Rightarrow> None
      | c # cs \<Rightarrow> if has_line_terminator value then None
                  else let (a, w) = split_width cs in Some (c # a, w))"

text \<open>The patterns \<open>/^\d{3}$/\<close> and \<open>/^x\d{3}(?:\/x\d{3})*\/\d{3}$/\<close>.\<close>

definition three_digits :: "string \<Rightarrow> bool" where
  "three_digits s \<longleftrightarrow> length s = 3 \<and> list_all is_digit s"

definition x_group :: "string \<Rightarrow> bool" where
  "x_group s \<longleftrightarrow> (case s of c # cs \<Rightarrow> c = CHR ''x'' \<and> three_digits cs | [] \<Rightarrow> False)"

definition grouped_index :: "string \<Rightarrow> bool" where
  "grouped_index s \<longleftrightarrow>
     (let parts = split_on (CHR ''/'') s
      in 2 \<le> length parts \<and> list_all x_group (butlast parts) \<and> three_digits (last parts))"

definition parseTileAddress :: "string \<Rightarrow> TileAddress option" where
  "parseTileAddress value =
     (case match_tile value of
        None \<Rightarrow> None
      | Some (encodedIndex, width) \<Rightarrow>
          (case (if three_digits encodedIndex then Some (encodedIndex, True)
                 else if grouped_index encodedIndex
                 then Some (filter (\<lambda>c. c \<noteq> CHR ''x'' \<and> c \<noteq> CHR ''/'') encodedIndex, True)
                 else if canonical_decimal encodedIndex then Some (encodedIndex, False)
                 else None) of
             None \<Rightarrow> None
           | Some (indexText, canonical) \<Rightarrow>
               let index = read_nat indexText
               in if max_safe_integer < int index then None
                  else (case width of
                          None \<Rightarrow> Some \<lparr>ta_index = index, ta_width = None, ta_canonical = canonical\<rparr>
                        | Some w \<Rightarrow>
                            if max_safe_integer < int (read_nat w) \<or> read_nat w < 1 \<or> TILE_SIZE \<le> read_nat w
                            then None
                            else Some \<lparr>ta_index = index, ta_width = Some (read_nat w), ta_canonical = True\<rparr>)))"

section \<open>Serving tiles\<close>

datatype tile_response = JsonError nat string | Binary bytes bool

definition resolveServedTileWidth :: "nat \<Rightarrow> nat option \<Rightarrow> bool \<Rightarrow> tile_response + nat" where
  "resolveServedTileWidth available requestedWidth canonical =
     (case requestedWidth of
        Some w \<Rightarrow> if available < w then Inl (JsonError 404 ''partial tile width is not available'') else Inr w
      | None \<Rightarrow> if canonical \<and> available < TILE_SIZE
                then Inl (JsonError 404 ''partial tile requires an explicit width'') else Inr available)"

text \<open>A missing hash is pushed as \<open>undefined\<close> and read by the code that follows.\<close>

definition leaf_hash_at :: "log_tree \<Rightarrow> nat \<Rightarrow> bytes result" where
  "leaf_hash_at t i = rbind (tree_leafHash (int i) t) (\<lambda>h.
     case h of None \<Rightarrow> Inl ''TypeError'' | Some x \<Rightarrow> Inr x)"

fun nextLevel :: "(bytes \<Rightarrow> bytes) \<Rightarrow> bytes list \<Rightarrow> bytes list" where
  "nextLevel sha (x # y # rest) = nodeHash sha x y # nextLevel sha rest"
| "nextLevel sha xs = xs"

text \<open>\<open>Math.pow(2, level)\<close> is infinite from 1024 on, and the quotient is then zero.\<close>

definition nodes_at_level :: "nat \<Rightarrow> nat \<Rightarrow> nat" where
  "nodes_at_level leafCount level =
     (if 1024 \<le> level then 0 else (leafCount + 2 ^ level - 1) div 2 ^ level)"

definition handleTile :: "(bytes \<Rightarrow> bytes) \<Rightarrow> log_tree \<Rightarrow> nat \<Rightarrow> TileAddress \<Rightarrow> tile_response result" where
  "handleTile sha t level address =
     (if tree_size t = 0 then Inr (JsonError 404 ''no entries yet'')
      else let index = ta_index address; width = ta_width address; start = index * TILE_SIZE
        in if level = 0
           then let end = min (start + TILE_SIZE) (tree_size t)
             in if tree_size t \<le> start then Inr (JsonError 404 ''tile index out of range'')
                else (case resolveServedTileWidth (end - start) width (ta_canonical address) of
                        Inl r \<Rightarrow> Inr r
                      | Inr servedWidth \<Rightarrow>
                          rbind (map_result (leaf_hash_at t) [start ..< start + servedWidth]) (\<lambda>hashes.
                            Inr (Binary (concat hashes) (servedWidth = TILE_SIZE \<or> width \<noteq> None))))
           else let leafCount = tree_size t; nodesAtLevel = nodes_at_level leafCount level;
                    end = min (start + TILE_SIZE) nodesAtLevel
             in if nodesAtLevel \<le> start then Inr (JsonError 404 ''tile index out of range'')
                else rbind (map_result (leaf_hash_at t) [0 ..< leafCount]) (\<lambda>leaves.
                       let currentLevel = (nextLevel sha ^^ level) leaves
                       in case resolveServedTileWidth (end - start) width (ta_canonical address) of
                            Inl r \<Rightarrow> Inr r
                          | Inr servedWidth \<Rightarrow>
                              let hashes = subarray start (start + servedWidth) currentLevel
                              in Inr (Binary (concat hashes) (servedWidth = TILE_SIZE \<or> width \<noteq> None))))"

text \<open>\<open>DataView.setUint16\<close>, big-endian.\<close>

definition be16 :: "nat \<Rightarrow> bytes" where
  "be16 n = [of_nat (n div 256), of_nat n]"

definition handleEntryBundle :: "log_tree \<Rightarrow> TileAddress \<Rightarrow> tile_response result" where
  "handleEntryBundle t address =
     (if tree_size t = 0 then Inr (JsonError 404 ''no entries yet'')
      else let index = ta_index address; width = ta_width address; start = index * TILE_SIZE;
               end = min (start + TILE_SIZE) (tree_size t)
        in if tree_size t \<le> start then Inr (JsonError 404 ''entry bundle index out of range'')
           else (case resolveServedTileWidth (end - start) width (ta_canonical address) of
                   Inl r \<Rightarrow> Inr r
                 | Inr servedWidth \<Rightarrow>
                     rbind (map_result (\<lambda>i. tree_entryBytes (int i) t) [start ..< start + servedWidth]) (\<lambda>es.
                       Inr (Binary (concat (map (\<lambda>e. be16 (length e) @ e) es))
                              (servedWidth = TILE_SIZE \<or> width \<noteq> None)))))"

text \<open>The checkpoint endpoint: no checkpoint of an empty log.\<close>

definition handleCheckpoint ::
  "(bytes \<Rightarrow> bytes) \<Rightarrow> (bytes \<Rightarrow> bytes \<Rightarrow> bytes) \<Rightarrow> log_tree \<Rightarrow> CheckpointSigner \<Rightarrow> ((nat \<times> string) + string) result" where
  "handleCheckpoint sha ed_sign t signer =
     (if tree_size t = 0 then Inr (Inl (404, ''no entries yet''))
      else rbind (tree_root sha t) (\<lambda>rootHash. Inr (Inr (signer_sign ed_sign signer (tree_size t) rootHash))))"

text \<open>The routes below \<open>/v1/tile/\<close> in \<open>handleRequest\<close>, entry bundles first: the patterns
  \<open>/^\/v1\/tile\/entries\/(.+)$/\<close> and \<open>/^\/v1\/tile\/(\d+)\/(.+)$/\<close>.\<close>

definition tile_prefix :: string where
  "tile_prefix = ''/v1/tile/''"

definition match_rest :: "string \<Rightarrow> string \<Rightarrow> string option" where
  "match_rest prefix url =
     (if starts_with prefix url \<and> drop (length prefix) url \<noteq> [] \<and> \<not> has_line_terminator (drop (length prefix) url)
      then Some (drop (length prefix) url) else None)"

definition match_level :: "string \<Rightarrow> (string \<times> string) option" where
  "match_level url =
     (if \<not> starts_with tile_prefix url then None
      else let rest = drop (length tile_prefix) url;
               level = takeWhile is_digit rest;
               tail = drop (length level) rest
        in if level = [] then None
           else case match_rest ''/'' tail of None \<Rightarrow> None | Some value \<Rightarrow> Some (level, value))"

definition route_tile :: "(bytes \<Rightarrow> bytes) \<Rightarrow> log_tree \<Rightarrow> string \<Rightarrow> tile_response result" where
  "route_tile sha t url =
     (case match_rest ''/v1/tile/entries/'' url of
        Some value \<Rightarrow>
          (case parseTileAddress value of
             None \<Rightarrow> Inr (JsonError 400 ''malformed entry bundle path'')
           | Some address \<Rightarrow> handleEntryBundle t address)
      | None \<Rightarrow>
          (case match_level url of
             Some (l, value) \<Rightarrow>
               (case (parseCanonicalDecimal l, parseTileAddress value) of
                  (Some level, Some address) \<Rightarrow> handleTile sha t level address
                | _ \<Rightarrow> Inr (JsonError 400 ''malformed tile path''))
           | None \<Rightarrow> Inr (JsonError 400 ''malformed tile path'')))"

section \<open>Levels\<close>

lemma length_nextLevel: "length (nextLevel sha xs) = (length xs + 1) div 2"
  by (induction sha xs rule: nextLevel.induct) auto

lemma nth_nextLevel:
  "2 * i < length xs \<Longrightarrow> nextLevel sha xs ! i =
     (if 2 * i + 1 < length xs then nodeHash sha (xs ! (2 * i)) (xs ! (2 * i + 1)) else xs ! (2 * i))"
proof (induction sha xs arbitrary: i rule: nextLevel.induct)
  case (1 sha x y rest)
  then show ?case by (cases i) auto
qed auto

lemma ceil_gt: "0 < (q :: nat) \<Longrightarrow> i < (n + q - 1) div q \<longleftrightarrow> i * q < n"
  by (subst Suc_le_eq [symmetric]) (auto simp: less_eq_div_iff_mult_less_eq)

lemma ceil_one: "0 < n \<Longrightarrow> n \<le> (q :: nat) \<Longrightarrow> (n + q - 1) div q = 1"
  by (rule div_nat_eqI) auto

lemma ceil_double: "((n + 2 ^ l - 1) div 2 ^ l + 1) div 2 = (n + 2 ^ Suc l - 1) div 2 ^ Suc l"
  for n :: nat
proof -
  have "i < ((n + 2 ^ l - 1) div 2 ^ l + 1) div 2 \<longleftrightarrow> i < (n + 2 ^ Suc l - 1) div 2 ^ Suc l" for i
  proof -
    have "i < ((n + 2 ^ l - 1) div 2 ^ l + 1) div 2 \<longleftrightarrow> 2 * i < (n + 2 ^ l - 1) div 2 ^ l" by arith
    also have "\<dots> \<longleftrightarrow> i < (n + 2 ^ Suc l - 1) div 2 ^ Suc l"
      using ceil_gt [of "2 ^ l" "2 * i" n] ceil_gt [of "2 ^ Suc l" i n] by (simp add: mult_ac)
    finally show ?thesis .
  qed
  then show ?thesis by (metis linorder_neqE_nat less_irrefl)
qed

lemma length_levels: "length ((nextLevel sha ^^ l) hs) = (length hs + 2 ^ l - 1) div 2 ^ l"
  using ceil_double by (induction l) (simp_all add: length_nextLevel)

lemma block_Suc_halves:
  "take (2 ^ l) (block hs (Suc l) i) = block hs l (2 * i)"
  "drop (2 ^ l) (block hs (Suc l) i) = block hs l (2 * i + 1)"
proof -
  have "i * 2 ^ Suc l = 2 * i * 2 ^ l" "2 ^ l + 2 * i * 2 ^ l = (2 * i + 1) * 2 ^ l" by simp_all
  then show "take (2 ^ l) (block hs (Suc l) i) = block hs l (2 * i)"
    "drop (2 ^ l) (block hs (Suc l) i) = block hs l (2 * i + 1)"
    unfolding block_def by (simp_all only: take_take drop_take drop_drop) simp_all
qed

lemma length_block: "length (block hs l i) = min (2 ^ l) (length hs - i * 2 ^ l)"
  by (simp add: block_def)

lemma level_block:
  "i * 2 ^ l < length hs \<Longrightarrow> (nextLevel sha ^^ l) hs ! i = mth sha (block hs l i)"
proof (induction l arbitrary: i)
  case 0
  then show ?case by (simp add: block_def take_Suc hd_drop_conv_nth)
next
  case (Suc l)
  let ?xs = "(nextLevel sha ^^ l) hs"
  have len: "j < length ?xs \<longleftrightarrow> j * 2 ^ l < length hs" for j
    unfolding length_levels by (rule ceil_gt) simp
  from Suc.prems have lo: "2 * i * 2 ^ l < length hs" by (simp add: mult_ac)
  then have nxt: "nextLevel sha ?xs ! i =
      (if 2 * i + 1 < length ?xs then nodeHash sha (?xs ! (2 * i)) (?xs ! (2 * i + 1)) else ?xs ! (2 * i))"
    by (intro nth_nextLevel) (simp add: len)
  show ?case
  proof (cases "(2 * i + 1) * 2 ^ l < length hs")
    case True
    then have b: "2 ^ l < length (block hs (Suc l) i)" "length (block hs (Suc l) i) \<le> 2 * 2 ^ l"
      by (auto simp: length_block algebra_simps)
    moreover have "1 \<le> (2 :: nat) ^ l" by simp
    ultimately have "mth sha (block hs (Suc l) i)
        = nodeHash sha (mth sha (block hs l (2 * i))) (mth sha (block hs l (2 * i + 1)))"
      using mth_split [of "block hs (Suc l) i" "2 ^ l" sha] pow2_below_unique [OF b] by (simp add: block_Suc_halves)
    with True nxt Suc.IH [OF lo] Suc.IH [OF True] len show ?thesis by simp
  next
    case False
    have "block hs (Suc l) i = take (2 ^ l) (block hs (Suc l) i)"
      using False by (intro take_all [symmetric]) (simp add: length_block algebra_simps)
    also have "\<dots> = block hs l (2 * i)" by (rule block_Suc_halves)
    finally have "block hs (Suc l) i = block hs l (2 * i)" .
    with False nxt Suc.IH [OF lo] len show ?thesis by simp
  qed
qed

section \<open>Served bytes\<close>

lemma map_result_upt:
  "(\<And>i. a \<le> i \<Longrightarrow> i < b \<Longrightarrow> f i = Inr (g i)) \<Longrightarrow> map_result f [a ..< b] = Inr (map g [a ..< b])"
  by (simp add: map_result_Inr_iff list_all2_conv_all_nth)

lemma map_nth_upt: "a + n \<le> length xs \<Longrightarrow> map ((!) xs) [a ..< a + n] = subarray a (a + n) xs"
  by (rule nth_equalityI) (auto simp: subarray_def)

lemma leaf_hashes_range:
  assumes "tree_inv sha t" and "a + n \<le> length (rawEntries t)"
  shows "map_result (leaf_hash_at t) [a ..< a + n]
    = Inr (subarray a (a + n) (map (leafHash sha) (rawEntries t)))"
proof -
  have "map_result (leaf_hash_at t) [a ..< a + n] = Inr (map ((!) (map (leafHash sha) (rawEntries t))) [a ..< a + n])"
    using assms by (intro map_result_upt) (simp add: leaf_hash_at_def tree_leafHash_eq)
  with assms show ?thesis by (simp add: map_nth_upt)
qed

lemma resolve_width_le:
  "resolveServedTileWidth available w c = Inr n \<Longrightarrow> n \<le> available"
  by (auto simp: resolveServedTileWidth_def split: option.splits if_splits)

lemma resolve_refusal: "resolveServedTileWidth available w c \<noteq> Inl (Binary d i)"
  by (auto simp: resolveServedTileWidth_def split: option.splits)

text \<open>Every response of \<open>handleTile\<close>: the node hashes of the level, as the Merkle tree over the leaves
  defines them, cut to the served range.\<close>

definition level_nodes :: "(bytes \<Rightarrow> bytes) \<Rightarrow> bytes list \<Rightarrow> nat \<Rightarrow> bytes list" where
  "level_nodes sha es l =
     map (\<lambda>i. mth sha (block (map (leafHash sha) es) l i)) [0 ..< (length es + 2 ^ l - 1) div 2 ^ l]"

lemma level_nodes_eq: "level_nodes sha es l = (nextLevel sha ^^ l) (map (leafHash sha) es)"
proof (rule nth_equalityI)
  show "length (level_nodes sha es l) = length ((nextLevel sha ^^ l) (map (leafHash sha) es))"
    by (simp add: level_nodes_def length_levels)
  fix i assume "i < length (level_nodes sha es l)"
  then have i: "i < (length es + 2 ^ l - 1) div 2 ^ l" by (simp add: level_nodes_def)
  then have "i * 2 ^ l < length es" by (subst (asm) ceil_gt) simp_all
  then show "level_nodes sha es l ! i = (nextLevel sha ^^ l) (map (leafHash sha) es) ! i"
    using i by (simp add: level_nodes_def level_block)
qed

definition tile_spec :: "bytes list \<Rightarrow> TileAddress \<Rightarrow> tile_response" where
  "tile_spec nodes a =
     (let start = ta_index a * TILE_SIZE; available = min TILE_SIZE (length nodes - start)
      in if length nodes \<le> start then JsonError 404 ''tile index out of range''
         else case resolveServedTileWidth available (ta_width a) (ta_canonical a) of
           Inl r \<Rightarrow> r
         | Inr n \<Rightarrow> Binary (concat (take n (drop start nodes))) (n = TILE_SIZE \<or> ta_width a \<noteq> None))"

lemma handleTile_spec:
  assumes inv: "tree_inv sha t" and "rawEntries t \<noteq> []" and "level < 1024"
  shows "handleTile sha t level a = Inr (tile_spec (level_nodes sha (rawEntries t) level) a)"
proof (cases "level = 0")
  case True
  have nodes: "level_nodes sha (rawEntries t) 0 = map (leafHash sha) (rawEntries t)"
    by (simp add: level_nodes_eq)
  let ?s = "ta_index a * TILE_SIZE" and ?n = "length (rawEntries t)"
  have av: "min (?s + TILE_SIZE) ?n - ?s = min TILE_SIZE (?n - ?s)" by simp
  show ?thesis
  proof (cases "?n \<le> ?s")
    case True
    with \<open>level = 0\<close> assms(2) show ?thesis
      by (simp add: handleTile_def tile_spec_def tree_size_def Let_def nodes)
  next
    case False
    show ?thesis
    proof (cases "resolveServedTileWidth (min TILE_SIZE (?n - ?s)) (ta_width a) (ta_canonical a)")
      case (Inl r)
      with \<open>level = 0\<close> False assms(2) av show ?thesis
        by (simp add: handleTile_def tile_spec_def tree_size_def Let_def nodes)
    next
      case (Inr n)
      then have "?s + n \<le> ?n" using resolve_width_le [OF Inr] False by linarith
      with \<open>level = 0\<close> False assms(2) av Inr leaf_hashes_range [OF inv, of ?s n] show ?thesis
        by (simp add: handleTile_def tile_spec_def tree_size_def Let_def nodes subarray_def)
    qed
  qed
next
  case False
  let ?s = "ta_index a * TILE_SIZE" and ?m = "nodes_at_level (length (rawEntries t)) level"
  have m: "length (level_nodes sha (rawEntries t) level) = ?m"
    using assms(3) by (simp add: level_nodes_def nodes_at_level_def)
  have av: "min (?s + TILE_SIZE) ?m - ?s = min TILE_SIZE (?m - ?s)" by simp
  have leaves: "map_result (leaf_hash_at t) [0 ..< length (rawEntries t)] = Inr (map (leafHash sha) (rawEntries t))"
    using leaf_hashes_range [OF inv, of 0 "length (rawEntries t)"] by (simp add: subarray_def)
  show ?thesis
    using False assms(2) av
    by (simp add: handleTile_def tile_spec_def tree_size_def Let_def m leaves level_nodes_eq [symmetric]
        subarray_def split: sum.split)
qed

text \<open>A reader of entry bundles: two length bytes, then as many bytes of entry.\<close>

function read_bundle :: "bytes \<Rightarrow> bytes list option" where
  "read_bundle bs =
     (case bs of
        [] \<Rightarrow> Some []
      | a # b # rest \<Rightarrow>
          let n = unat a * 256 + unat b
          in if length rest < n then None
             else map_option ((#) (take n rest)) (read_bundle (drop n rest))
      | [_] \<Rightarrow> None)"
  by pat_completeness auto
termination
  by (relation "measure length") auto

declare read_bundle.simps [simp del]

lemma be16_read: "n < 65536 \<Longrightarrow> \<exists>a b. be16 n = [a, b] \<and> unat a * 256 + unat b = n"
  by (simp add: be16_def unat_of_nat div_mult_mod_eq)

lemma read_bundle_chunk:
  "length e < 65536 \<Longrightarrow> read_bundle (be16 (length e) @ e @ rest) = map_option ((#) e) (read_bundle rest)"
  using be16_read [of "length e"] by (auto simp: read_bundle.simps [of "_ # _"])

lemma read_bundle_concat:
  "\<forall>e \<in> set es. length e < 65536 \<Longrightarrow> read_bundle (concat (map (\<lambda>e. be16 (length e) @ e) es)) = Some es"
  by (induction es) (simp_all add: read_bundle_chunk read_bundle.simps [of "[]"])

section \<open>Properties\<close>


lemma empty_tree_inv: "tree_inv sha (empty_tree f)"
  by (auto simp: empty_tree_def tree_inv_def cached_def levels_get_def)

lemma tree_of_entries: "\<exists>t. tree_inv sha t \<and> rawEntries t = es"
proof (induction es rule: rev_induct)
  case Nil
  have "rawEntries (empty_tree None) = []" by (simp add: empty_tree_def)
  then show ?case using empty_tree_inv by blast
next
  case (snoc e es)
  then obtain t where t: "tree_inv sha t" "rawEntries t = es" by blast
  have "write_progress (\<lambda>_ :: bytes. 1)" by (simp add: write_progress_def)
  with tree_append_progress [OF t(1), of "\<lambda>_. 1" e] obtain t'
    where "tree_append sha (\<lambda>_. 1) e t = (Inr (length (rawEntries t)), t')" by blast
  with tree_append_memory [OF t(1) this] t(2) show ?case by auto
qed


text \<open>Entry bundles. A bundle served for a range of the log reads back, length prefix by length
  prefix, to exactly the entries of that range.\<close>

theorem entry_bundle_roundtrip:
  assumes "\<forall>e \<in> set (rawEntries t). length e < 65536"
    and "handleEntryBundle t a = Inr (Binary data immutable)"
  shows "\<exists>n. read_bundle data = Some (take n (drop (ta_index a * TILE_SIZE) (rawEntries t)))
    \<and> ta_index a * TILE_SIZE + n \<le> length (rawEntries t) \<and> n \<le> TILE_SIZE
    \<and> n = (case ta_width a of Some w \<Rightarrow> w
            | None \<Rightarrow> min TILE_SIZE (length (rawEntries t) - ta_index a * TILE_SIZE))
    \<and> (immutable \<longleftrightarrow> n = TILE_SIZE \<or> ta_width a \<noteq> None)"
proof -
  let ?s = "ta_index a * TILE_SIZE" and ?es = "rawEntries t"
  let ?av = "min TILE_SIZE (length ?es - ?s)"
  have av: "min (?s + TILE_SIZE) (length ?es) - ?s = ?av" by simp
  from assms(2) av obtain n where n: "\<not> length ?es \<le> ?s" "?es \<noteq> []"
    "resolveServedTileWidth ?av (ta_width a) (ta_canonical a) = Inr n"
    by (auto simp: handleEntryBundle_def tree_size_def Let_def resolve_refusal split: if_splits sum.splits)
  have le: "?s + n \<le> length ?es" "n \<le> TILE_SIZE" using resolve_width_le [OF n(3)] n(1) by linarith+
  have "map_result (\<lambda>i. tree_entryBytes (int i) t) [?s ..< ?s + n] = Inr (map ((!) ?es) [?s ..< ?s + n])"
    using le by (intro map_result_upt) (simp add: tree_entryBytes_def)
  then have "map_result (\<lambda>i. tree_entryBytes (int i) t) [?s ..< ?s + n] = Inr (take n (drop ?s ?es))"
    using le by (simp add: map_nth_upt subarray_def)
  with assms(2) n av have d: "data = concat (map (\<lambda>e. be16 (length e) @ e) (take n (drop ?s ?es)))"
    "immutable \<longleftrightarrow> n = TILE_SIZE \<or> ta_width a \<noteq> None"
    by (simp_all add: handleEntryBundle_def tree_size_def Let_def)
  have "\<forall>e \<in> set (take n (drop ?s ?es)). length e < 65536"
    using assms(1) by (meson in_set_dropD in_set_takeD)
  then have "read_bundle data = Some (take n (drop ?s ?es))"
    unfolding d(1) by (rule read_bundle_concat)
  moreover have "n = (case ta_width a of Some w \<Rightarrow> w | None \<Rightarrow> ?av)"
    using n(3) by (auto simp: resolveServedTileWidth_def split: option.splits if_splits)
  ultimately show ?thesis using le d(2) by blast
qed

theorem entry_bundle_roundtrip_witness:
  "read_bundle [0, 2, 7, 8, 0, 1, 9]
     = Some (take 2 (drop (0 * TILE_SIZE) (rawEntries \<lparr>rawEntries = [[7, 8], [9], [5]], levels = [], persistFile = None\<rparr>)))"
proof -
  let ?t = "\<lparr>rawEntries = [[7, 8], [9], [5]], levels = [], persistFile = None\<rparr>"
  let ?a = "\<lparr>ta_index = 0, ta_width = Some 2, ta_canonical = True\<rparr>"
  have "handleEntryBundle ?t ?a = Inr (Binary [0, 2, 7, 8, 0, 1, 9] True)"
    by (simp add: handleEntryBundle_def tree_size_def TILE_SIZE_def resolveServedTileWidth_def
        tree_entryBytes_def be16_def upt_rec)
  from entry_bundle_roundtrip [OF _ this] show ?thesis by simp
qed

end
