(* ===== verification/Log_Queries.thy ===== *)
theory Log_Queries
  imports Log_Server Log_Tiles
begin

text \<open>
  The read side of the log server (\<open>services/log-node/src/server.ts\<close>): lookups by record, context and creator, the
  newest entries, the filtered feed, statistics and the event stream with its resume cursor. A
  handler that throws (reading an entry can) returns the error. Query parameters are those of the parsed URL.
\<close>

section \<open>Entries\<close>

definition entry_at :: "log_tree \<Rightarrow> nat \<Rightarrow> DecodedEntry result" where
  "entry_at t i = rbind (tree_entryBytes (int i) t) (\<lambda>e. decodeEntry e i)"

definition handleLookup :: "log_tree \<Rightarrow> string \<Rightarrow> DecodedEntry option result" where
  "handleLookup t hexHash =
     (case find_entry hexHash 0 (rawEntries t) of
        None \<Rightarrow> Inr None
      | Some i \<Rightarrow> rbind (entry_at t i) (\<lambda>e. Inr (Some e)))"

record context_response =
  cr_status :: nat
  cr_context_id :: string
  cr_count :: nat
  cr_entries :: "DecodedEntry list"

fun context_loop :: "log_tree \<Rightarrow> string \<Rightarrow> nat \<Rightarrow> DecodedEntry list result" where
  "context_loop t contextHex 0 = Inr []"
| "context_loop t contextHex (Suc i) =
     rbind (tree_entryBytes (int i) t) (\<lambda>e.
       if hexEncode (subarray 65 81 e) = contextHex
       then rbind (decodeEntry e i) (\<lambda>d. rbind (context_loop t contextHex i) (\<lambda>ds. Inr (d # ds)))
       else context_loop t contextHex i)"

definition handleByContext :: "log_tree \<Rightarrow> string \<Rightarrow> context_response result" where
  "handleByContext t contextHex =
     rbind (context_loop t contextHex (tree_size t)) (\<lambda>matches.
       Inr \<lparr>cr_status = (if matches = [] then 404 else 200), cr_context_id = contextHex,
            cr_count = length matches, cr_entries = matches\<rparr>)"

section \<open>Sessions of a creator\<close>

record SessionSummary =
  sm_context_id :: string
  sm_node_count :: nat
  sm_first_seen :: nat
  sm_last_seen :: nat
  sm_count_by_event_type :: "(string, nat) jsmap"
  sm_has_transaction :: bool

definition get_or :: "'v \<Rightarrow> 'v option \<Rightarrow> 'v" where
  "get_or d v = (case v of None \<Rightarrow> d | Some x \<Rightarrow> x)"

definition session_step :: "string \<Rightarrow> DecodedEntry \<Rightarrow> (string, SessionSummary) jsmap \<Rightarrow> (string, SessionSummary) jsmap" where
  "session_step creatorKey d sessions =
     (if de_creator_key d \<noteq> creatorKey then sessions
      else let cur = get_or \<lparr>sm_context_id = de_context_id d, sm_node_count = 0, sm_first_seen = de_timestamp_ms d,
                 sm_last_seen = de_timestamp_ms d, sm_count_by_event_type = [], sm_has_transaction = False\<rparr>
                 (map_of sessions (de_context_id d))
        in AList.update (de_context_id d)
             (cur\<lparr>sm_node_count := sm_node_count cur + 1,
                  sm_count_by_event_type := AList.update (de_event_type d)
                    (get_or 0 (map_of (sm_count_by_event_type cur) (de_event_type d)) + 1) (sm_count_by_event_type cur),
                  sm_has_transaction := sm_has_transaction cur \<or> de_event_type d = ''transaction'',
                  sm_first_seen := min (de_timestamp_ms d) (sm_first_seen cur),
                  sm_last_seen := max (de_timestamp_ms d) (sm_last_seen cur)\<rparr>) sessions)"

definition handleByCreator :: "log_tree \<Rightarrow> string \<Rightarrow> SessionSummary list result" where
  "handleByCreator t creatorKey =
     rbind (map_result (entry_at t) [0 ..< tree_size t]) (\<lambda>ds.
       Inr (sort_by (\<lambda>a b. int (sm_last_seen b) - int (sm_last_seen a))
              (map snd (fold (session_step creatorKey) ds []))))"

section \<open>The newest entries\<close>

record recent_response =
  rr_tree_size :: nat
  rr_offset :: nat
  rr_returned :: nat
  rr_entries :: "DecodedEntry list"

definition handleRecent :: "log_tree \<Rightarrow> nat \<Rightarrow> nat \<Rightarrow> recent_response result" where
  "handleRecent t limit offset =
     (let size = tree_size t; finish = size - offset; start = finish - limit
      in rbind (map_result (entry_at t) (rev [start ..< finish])) (\<lambda>found.
         Inr \<lparr>rr_tree_size = size, rr_offset = offset, rr_returned = length found, rr_entries = found\<rparr>))"

section \<open>Filters\<close>

text \<open>A name looked up in an object literal finds the members inherited from \<open>Object.prototype\<close> too.\<close>

datatype event_filter = EventName string | InheritedMember string

record LogEntryFilters =
  lf_creatorKey :: "string option"
  lf_contextId :: "string option"
  lf_eventType :: "event_filter option"
  lf_sinceMs :: "int option"
  lf_afterIndex :: "int option"

definition matchesEntryFilters :: "DecodedEntry \<Rightarrow> LogEntryFilters \<Rightarrow> bool" where
  "matchesEntryFilters entry filters \<longleftrightarrow>
     (case lf_creatorKey filters of None \<Rightarrow> True | Some k \<Rightarrow> de_creator_key entry = k)
     \<and> (case lf_contextId filters of None \<Rightarrow> True | Some c \<Rightarrow> de_context_id entry = c)
     \<and> (case lf_eventType filters of None \<Rightarrow> True | Some e \<Rightarrow> EventName (de_event_type entry) = e)
     \<and> (case lf_sinceMs filters of None \<Rightarrow> True | Some s \<Rightarrow> s \<le> int (de_timestamp_ms entry))
     \<and> (case lf_afterIndex filters of None \<Rightarrow> True | Some a \<Rightarrow> a < int (de_index entry))"

fun collect_loop ::
  "log_tree \<Rightarrow> LogEntryFilters \<Rightarrow> nat \<Rightarrow> nat \<Rightarrow> nat \<Rightarrow> nat \<Rightarrow> DecodedEntry list \<Rightarrow> DecodedEntry list result" where
  "collect_loop t filters limit offset 0 skipped acc = Inr acc"
| "collect_loop t filters limit offset (Suc i) skipped acc =
     rbind (entry_at t i) (\<lambda>entry.
       if \<not> matchesEntryFilters entry filters then collect_loop t filters limit offset i skipped acc
       else if skipped < offset then collect_loop t filters limit offset i (skipped + 1) acc
       else if limit \<le> length (acc @ [entry]) then Inr (acc @ [entry])
       else collect_loop t filters limit offset i skipped (acc @ [entry]))"

definition collectNewestEntries :: "log_tree \<Rightarrow> LogEntryFilters \<Rightarrow> nat \<Rightarrow> nat \<Rightarrow> DecodedEntry list result" where
  "collectNewestEntries t filters limit offset = collect_loop t filters limit offset (tree_size t) 0 []"

definition event_filter_names :: "(string \<times> string) list" where
  "event_filter_names =
     [(''tool_call'', ''tool_call''), (''transaction'', ''transaction''), (''observation'', ''observation''),
      (''directory_anchor'', ''directory_anchor''), (''annotation'', ''annotation''), (''revision'', ''revision''),
      (''extension'', ''extension''), (''reserved'', ''reserved''),
      (''https://atrib.dev/v1/types/tool_call'', ''tool_call''),
      (''https://atrib.dev/v1/types/transaction'', ''transaction''),
      (''https://atrib.dev/v1/types/observation'', ''observation''),
      (''https://atrib.dev/v1/types/directory_anchor'', ''directory_anchor''),
      (''https://atrib.dev/v1/types/annotation'', ''annotation''),
      (''https://atrib.dev/v1/types/revision'', ''revision'')]"

definition normalizeEventTypeFilter :: "string \<Rightarrow> event_filter option" where
  "normalizeEventTypeFilter value =
     (case map_of event_filter_names value of
        Some name \<Rightarrow> Some (EventName name)
      | None \<Rightarrow> if value \<in> set object_prototype_keys then Some (InheritedMember value) else None)"

text \<open>\<open>Date.parse\<close> is an argument: its result is implementation-defined for most strings.\<close>

definition parseSinceMs :: "(string \<Rightarrow> int option) \<Rightarrow> string \<Rightarrow> int option" where
  "parseSinceMs date_parse value =
     (if value \<noteq> [] \<and> list_all is_digit value
      then if int (read_nat value) \<le> max_safe_integer then Some (int (read_nat value)) else None
      else case date_parse value of None \<Rightarrow> None | Some t \<Rightarrow> if 0 \<le> t then Some t else None)"

definition parseResumeIndex :: "string \<Rightarrow> bool \<Rightarrow> int option" where
  "parseResumeIndex value allowBeforeGenesis =
     (let negative = starts_with ''-'' value; digits = (if negative then drop 1 value else value);
          parsed = (if negative then - int (read_nat digits) else int (read_nat digits))
      in if digits = [] \<or> \<not> list_all is_digit digits then None
         else if \<not> is_safe_integer parsed then None
         else if allowBeforeGenesis \<and> parsed = -1 then Some parsed
         else if 0 \<le> parsed then Some parsed else None)"

text \<open>A parameter of the query: absent (\<open>None\<close>) or its first value.\<close>

type_synonym query_params = "string \<Rightarrow> string option"

definition parse_param :: "string option \<Rightarrow> (string \<Rightarrow> 'a option) \<Rightarrow> string \<Rightarrow> 'a option result" where
  "parse_param value parse err =
     (case value of None \<Rightarrow> Inr None
      | Some v \<Rightarrow> (case parse v of None \<Rightarrow> Inl err | Some x \<Rightarrow> Inr (Some x)))"

definition parseFilterParams :: "(string \<Rightarrow> int option) \<Rightarrow> query_params \<Rightarrow> LogEntryFilters result" where
  "parseFilterParams date_parse params =
     (if params ''topic'' \<noteq> None
      then Inl ''topic filter requires record-body indexing and is not supported by log-node subscriptions''
      else if params ''importance'' \<noteq> None
      then Inl ''importance filter requires record-body indexing and is not supported by log-node subscriptions''
      else rbind (parse_param (params ''creator_key'')
             (\<lambda>v. if length v = 43 \<and> list_all is_b64url_char v then Some v else None)
             ''creator_key must be a 43-character base64url Ed25519 public key'') (\<lambda>creatorKey.
           rbind (parse_param (params ''context_id'')
             (\<lambda>v. if lower_hex_string 32 v then Some v else None)
             ''context_id must be 32 lowercase hex characters'') (\<lambda>contextId.
           rbind (parse_param (params ''event_type'') normalizeEventTypeFilter
             (''unsupported event_type filter: '' @ get_or [] (params ''event_type''))) (\<lambda>eventType.
           rbind (parse_param (params ''since'') (parseSinceMs date_parse)
             ''since must be a non-negative millisecond timestamp or ISO timestamp'') (\<lambda>sinceMs.
           rbind (parse_param (params ''after'') (\<lambda>v. parseResumeIndex v True)
             ''after must be -1 or a non-negative safe integer log index'') (\<lambda>afterIndex.
           Inr \<lparr>lf_creatorKey = creatorKey, lf_contextId = contextId, lf_eventType = eventType,
                lf_sinceMs = sinceMs, lf_afterIndex = afterIndex\<rparr>))))))"

definition headerFirst :: "string list \<Rightarrow> string option" where
  "headerFirst value = (case value of [] \<Rightarrow> None | first # _ \<Rightarrow> Some (trim (hd (split_on (CHR 0x2C) first))))"

definition resolveStreamResumeCursor :: "string list \<Rightarrow> LogEntryFilters \<Rightarrow> LogEntryFilters result" where
  "resolveStreamResumeCursor lastEventIdHeader filters =
     (case headerFirst lastEventIdHeader of
        None \<Rightarrow> Inr filters
      | Some lastEventId \<Rightarrow>
          if lastEventId = [] then Inr filters
          else case parseResumeIndex lastEventId False of
                 None \<Rightarrow> Inl ''Last-Event-ID must be a non-negative safe integer log index''
               | Some parsed \<Rightarrow> Inr (filters\<lparr>lf_afterIndex := Some parsed\<rparr>))"

definition publicFilterShape :: "LogEntryFilters \<Rightarrow> (string \<times> json) list" where
  "publicFilterShape filters =
     (case lf_creatorKey filters of None \<Rightarrow> [] | Some k \<Rightarrow> [(''creator_key'', JStr k)])
     @ (case lf_contextId filters of None \<Rightarrow> [] | Some c \<Rightarrow> [(''context_id'', JStr c)])
     @ (case lf_eventType filters of
          Some (EventName e) \<Rightarrow> [(''event_type'', JStr e)]
        | Some (InheritedMember m) \<Rightarrow> if m = ''__proto__'' then [(''event_type'', JObj [])] else []
        | None \<Rightarrow> [])
     @ (case lf_sinceMs filters of None \<Rightarrow> [] | Some s \<Rightarrow> [(''since'', JNum (of_int s))])
     @ (case lf_afterIndex filters of None \<Rightarrow> [] | Some a \<Rightarrow> [(''after'', JNum (of_int a))])"

section \<open>Statistics\<close>

record event_counts =
  ec_tool_call :: nat
  ec_transaction :: nat
  ec_observation :: nat
  ec_directory_anchor :: nat
  ec_annotation :: nat
  ec_revision :: nat
  ec_extension :: nat
  ec_reserved :: nat

record log_stats =
  ls_signers :: "string list"
  ls_active24h :: "string list"
  ls_active7d :: "string list"
  ls_oldest :: "nat option"
  ls_newest :: "nat option"
  ls_counts :: event_counts

definition no_counts :: event_counts where
  "no_counts = \<lparr>ec_tool_call = 0, ec_transaction = 0, ec_observation = 0, ec_directory_anchor = 0,
     ec_annotation = 0, ec_revision = 0, ec_extension = 0, ec_reserved = 0\<rparr>"

definition set_add :: "'a \<Rightarrow> 'a list \<Rightarrow> 'a list" where
  "set_add x xs = (if x \<in> set xs then xs else xs @ [x])"

definition count_event :: "byte option \<Rightarrow> event_counts \<Rightarrow> event_counts" where
  "count_event b c =
     (if b = Some 0x01 then c\<lparr>ec_tool_call := ec_tool_call c + 1\<rparr>
      else if b = Some 0x02 then c\<lparr>ec_transaction := ec_transaction c + 1\<rparr>
      else if b = Some 0x03 then c\<lparr>ec_observation := ec_observation c + 1\<rparr>
      else if b = Some 0x04 then c\<lparr>ec_directory_anchor := ec_directory_anchor c + 1\<rparr>
      else if b = Some 0x05 then c\<lparr>ec_annotation := ec_annotation c + 1\<rparr>
      else if b = Some 0x06 then c\<lparr>ec_revision := ec_revision c + 1\<rparr>
      else if b = Some 0xff then c\<lparr>ec_extension := ec_extension c + 1\<rparr>
      else c\<lparr>ec_reserved := ec_reserved c + 1\<rparr>)"

definition stats_step :: "int \<Rightarrow> bytes \<Rightarrow> log_stats \<Rightarrow> log_stats result" where
  "stats_step nowMs e s =
     (let creatorKeyHex = hexEncode (subarray 33 65 e);
          ts = number_of_bigint (unat (get_be64 (subarray 81 89 e)))
      in if length e < 89 then Inl ''RangeError: Offset is outside the bounds of the DataView''
         else Inr \<lparr>ls_signers = set_add creatorKeyHex (ls_signers s),
              ls_active24h = (if nowMs - 24 * 60 * 60 * 1000 \<le> int ts then set_add creatorKeyHex (ls_active24h s) else ls_active24h s),
              ls_active7d = (if nowMs - 7 * 24 * 60 * 60 * 1000 \<le> int ts then set_add creatorKeyHex (ls_active7d s) else ls_active7d s),
              ls_oldest = (case ls_oldest s of None \<Rightarrow> Some ts | Some o' \<Rightarrow> Some (if ts < o' then ts else o')),
              ls_newest = (case ls_newest s of None \<Rightarrow> Some ts | Some n \<Rightarrow> Some (if n < ts then ts else n)),
              ls_counts = count_event (if 89 < length e then Some (e ! 89) else None) (ls_counts s)\<rparr>)"

record stats_response =
  sr_tree_size :: nat
  sr_distinct_signers :: nat
  sr_active_signers_24h :: nat
  sr_active_signers_7d :: nat
  sr_oldest_timestamp_ms :: "nat option"
  sr_newest_timestamp_ms :: "nat option"
  sr_entries_by_event_type :: event_counts

definition handleStats :: "int \<Rightarrow> log_tree \<Rightarrow> stats_response result" where
  "handleStats nowMs t =
     rbind (fold_result (stats_step nowMs) (rawEntries t)
              \<lparr>ls_signers = [], ls_active24h = [], ls_active7d = [], ls_oldest = None, ls_newest = None, ls_counts = no_counts\<rparr>)
       (\<lambda>s. Inr \<lparr>sr_tree_size = tree_size t, sr_distinct_signers = length (ls_signers s),
              sr_active_signers_24h = length (ls_active24h s), sr_active_signers_7d = length (ls_active7d s),
              sr_oldest_timestamp_ms = ls_oldest s, sr_newest_timestamp_ms = ls_newest s,
              sr_entries_by_event_type = ls_counts s\<rparr>)"

section \<open>The event stream\<close>

text \<open>A subscriber with the entries written to it, each with the tree size of its event, in order.\<close>

record LogStreamSubscriber =
  sb_filters :: LogEntryFilters
  sb_out :: "(DecodedEntry \<times> nat) list"

record stream_state =
  sx_tree :: log_tree
  sx_subscribers :: "(nat, LogStreamSubscriber) jsmap"
  sx_appended :: "DecodedEntry option"

definition wants_replay :: "LogEntryFilters \<Rightarrow> bool" where
  "wants_replay filters \<longleftrightarrow> lf_afterIndex filters \<noteq> None \<or> lf_sinceMs filters \<noteq> None"

definition replay_entries :: "log_tree \<Rightarrow> LogEntryFilters \<Rightarrow> DecodedEntry list result" where
  "replay_entries t filters =
     (if wants_replay filters
      then rbind (map_result (entry_at t)
             [(case lf_afterIndex filters of None \<Rightarrow> 0 | Some a \<Rightarrow> nat (a + 1)) ..< tree_size t])
             (\<lambda>found. Inr (filter (\<lambda>e. matchesEntryFilters e filters) found))
      else Inr [])"

text \<open>The route refuses a cursor beyond the tail; the handler registers the subscriber, then replays.\<close>

definition open_stream :: "nat \<Rightarrow> LogEntryFilters \<Rightarrow> stream_state \<Rightarrow> unit result \<times> stream_state" where
  "open_stream sid filters s =
     (if (case lf_afterIndex filters of None \<Rightarrow> False | Some a \<Rightarrow> int (tree_size (sx_tree s)) \<le> a)
      then (Inl ''resume cursor is beyond current log tail'', s)
      else let add = (\<lambda>out. s\<lparr>sx_subscribers := AList.update sid \<lparr>sb_filters = filters, sb_out = out\<rparr> (sx_subscribers s)\<rparr>)
        in (case replay_entries (sx_tree s) filters of
              Inl e \<Rightarrow> (Inl e, add [])
            | Inr found \<Rightarrow> (Inr (), add (map (\<lambda>e. (e, tree_size (sx_tree s))) found))))"

definition close_stream :: "nat \<Rightarrow> stream_state \<Rightarrow> stream_state" where
  "close_stream sid s = s\<lparr>sx_subscribers := AList.delete sid (sx_subscribers s)\<rparr>"

text \<open>A write that throws drops its subscriber.\<close>

definition notify_one :: "(nat \<Rightarrow> bool) \<Rightarrow> DecodedEntry \<Rightarrow> nat \<Rightarrow> nat \<times> LogStreamSubscriber \<Rightarrow> (nat \<times> LogStreamSubscriber) list" where
  "notify_one broken entry treeSize sub = (case sub of (sid, sb) \<Rightarrow>
     if \<not> matchesEntryFilters entry (sb_filters sb) then [(sid, sb)]
     else if broken sid then [] else [(sid, sb\<lparr>sb_out := sb_out sb @ [(entry, treeSize)]\<rparr>)])"

definition notifySubscribers ::
  "(nat \<Rightarrow> bool) \<Rightarrow> DecodedEntry \<Rightarrow> nat \<Rightarrow> (nat, LogStreamSubscriber) jsmap \<Rightarrow> (nat, LogStreamSubscriber) jsmap" where
  "notifySubscribers broken entry treeSize subs = concat (map (notify_one broken entry treeSize) subs)"

text \<open>
  The steps that concern streams: an append inside the submission lock, the notification after the
  awaited proof, a client that connects or leaves. While the lock is held no other append runs, but
  clients may connect.
\<close>

datatype stream_event =
    Append "bytes \<Rightarrow> int" bytes
  | Notify "nat \<Rightarrow> bool"
  | Open nat LogEntryFilters
  | Close nat

definition stream_step :: "(bytes \<Rightarrow> bytes) \<Rightarrow> stream_event \<Rightarrow> stream_state \<Rightarrow> stream_state" where
  "stream_step sha ev s =
     (case ev of
        Append wr entryBytes \<Rightarrow>
          if sx_appended s \<noteq> None then s
          else (case tree_append sha wr entryBytes (sx_tree s) of
                  (Inl e, t) \<Rightarrow> s\<lparr>sx_tree := t\<rparr>
                | (Inr logIndex, t) \<Rightarrow>
                    (case decodeEntry entryBytes logIndex of
                       Inl e \<Rightarrow> s\<lparr>sx_tree := t\<rparr>
                     | Inr d \<Rightarrow> s\<lparr>sx_tree := t, sx_appended := Some d\<rparr>))
      | Notify broken \<Rightarrow>
          (case sx_appended s of
             None \<Rightarrow> s
           | Some d \<Rightarrow> s\<lparr>sx_subscribers := notifySubscribers broken d (tree_size (sx_tree s)) (sx_subscribers s), sx_appended := None\<rparr>)
      | Open sid filters \<Rightarrow> snd (open_stream sid filters s)
      | Close sid \<Rightarrow> close_stream sid s)"

section \<open>The feed\<close>

text \<open>\<open>parseInt(s, 10)\<close>, and the clamped page parameters of the routes.\<close>

definition parse_int :: "string \<Rightarrow> int option" where
  "parse_int s =
     (let u = dropWhile is_space s; negative = starts_with ''-'' u;
          v = (if negative \<or> starts_with ''+'' u then drop 1 u else u); digits = takeWhile is_digit v
      in if digits = [] then None else Some (if negative then - int (read_nat digits) else int (read_nat digits)))"

definition int_or :: "int \<Rightarrow> int option \<Rightarrow> int" where
  "int_or d v = (case v of None \<Rightarrow> d | Some n \<Rightarrow> if n = 0 then d else n)"

definition page_limit :: "query_params \<Rightarrow> nat" where
  "page_limit params = nat (min (max (int_or 20 (parse_int (get_or ''20'' (params ''limit'')))) 1) 100)"

definition page_offset :: "query_params \<Rightarrow> nat" where
  "page_offset params = nat (max (int_or 0 (parse_int (get_or ''0'' (params ''offset'')))) 0)"

text \<open>\<open>new Date(ms).toISOString()\<close>: the civil date of a count of days, and the largest time value.\<close>

definition civil :: "nat \<Rightarrow> nat \<times> nat \<times> nat" where
  "civil days =
     (let z = days + 719468; era = z div 146097; doe = z mod 146097;
          yoe = (doe - doe div 1460 + doe div 36524 - doe div 146096) div 365;
          doy = doe - (365 * yoe + yoe div 4 - yoe div 100); mp = (5 * doy + 2) div 153;
          d = doy - (153 * mp + 2) div 5 + 1; m = (if mp < 10 then mp + 3 else mp - 9)
      in (yoe + era * 400 + (if m \<le> 2 then 1 else 0), m, d))"

definition pad :: "nat \<Rightarrow> nat \<Rightarrow> string" where
  "pad k n = replicate (k - length (show_nat n)) (CHR ''0'') @ show_nat n"

definition toISOString :: "nat \<Rightarrow> string result" where
  "toISOString ms =
     (if 8640000000000000 < ms then Inl ''RangeError: Invalid time value''
      else case civil (ms div 86400000) of (y, m, d) \<Rightarrow>
        let r = ms mod 86400000
        in Inr ((if 9999 < y then ''+'' @ pad 6 y else pad 4 y) @ ''-'' @ pad 2 m @ ''-'' @ pad 2 d @ ''T''
                @ pad 2 (r div 3600000) @ '':'' @ pad 2 (r div 60000 mod 60) @ '':'' @ pad 2 (r div 1000 mod 60)
                @ ''.'' @ pad 3 (r mod 1000) @ ''Z''))"

record feed_item =
  fi_id :: string
  fi_url :: string
  fi_title :: string
  fi_content_text :: string
  fi_date_published :: string
  fi_atrib :: DecodedEntry

definition jsonFeedItem :: "string \<Rightarrow> DecodedEntry \<Rightarrow> feed_item result" where
  "jsonFeedItem baseUrl entry =
     rbind (toISOString (de_timestamp_ms entry)) (\<lambda>date.
       Inr \<lparr>fi_id = de_record_hash entry, fi_url = baseUrl @ ''/v1/lookup/'' @ drop 7 (de_record_hash entry),
            fi_title = de_event_type entry @ '' at log index '' @ show_nat (de_index entry),
            fi_content_text = ''atrib '' @ de_event_type entry @ '' entry '' @ show_nat (de_index entry)
              @ '' from '' @ de_creator_key entry,
            fi_date_published = date, fi_atrib = entry\<rparr>)"

definition requestBaseUrl :: "string list \<Rightarrow> string list \<Rightarrow> string" where
  "requestBaseUrl forwardedProto host =
     get_or ''http'' (headerFirst forwardedProto) @ ''://'' @ get_or ''log.atrib.dev'' (headerFirst host)"

record json_feed =
  jf_home_page_url :: string
  jf_feed_url :: string
  jf_items :: "feed_item list"
  jf_tree_size :: nat
  jf_limit :: nat
  jf_offset :: nat
  jf_filters :: "(string \<times> json) list"

definition handleJsonFeed ::
  "string list \<Rightarrow> string list \<Rightarrow> string \<Rightarrow> log_tree \<Rightarrow> LogEntryFilters \<Rightarrow> nat \<Rightarrow> nat \<Rightarrow> json_feed result" where
  "handleJsonFeed forwardedProto host url t filters limit offset =
     rbind (collectNewestEntries t filters limit offset) (\<lambda>found.
       let baseUrl = requestBaseUrl forwardedProto host
       in rbind (map_result (jsonFeedItem baseUrl) found) (\<lambda>items.
          Inr \<lparr>jf_home_page_url = baseUrl @ ''/'', jf_feed_url = baseUrl @ url, jf_items = items,
               jf_tree_size = tree_size t, jf_limit = limit, jf_offset = offset, jf_filters = publicFilterShape filters\<rparr>))"

section \<open>Decoded logs\<close>

definition decodable :: "log_tree \<Rightarrow> bool" where
  "decodable t \<longleftrightarrow> (\<forall>e \<in> set (rawEntries t). 89 \<le> length e)"

definition decoded :: "log_tree \<Rightarrow> nat \<Rightarrow> DecodedEntry" where
  "decoded t i = projr (decodeEntry (rawEntries t ! i) i)"

definition all_entries :: "log_tree \<Rightarrow> DecodedEntry list" where
  "all_entries t = map (decoded t) [0 ..< tree_size t]"

lemma entry_at_decoded:
  assumes "decodable t" and "i < tree_size t"
  shows "entry_at t i = Inr (decoded t i)"
proof -
  have "89 \<le> length (rawEntries t ! i)" using assms by (simp add: decodable_def tree_size_def)
  then show ?thesis
    using assms(2) by (simp add: entry_at_def tree_entryBytes_def decoded_def tree_size_def decodeEntry_def Let_def)
qed

lemma decodeEntry_index: "decodeEntry e i = Inr d \<Longrightarrow> de_index d = i"
  by (auto simp: decodeEntry_def Let_def split: if_splits)

lemma decoded_index: "decodable t \<Longrightarrow> i < tree_size t \<Longrightarrow> de_index (decoded t i) = i"
  using entry_at_decoded [of t i] decodeEntry_index by (auto simp: entry_at_def rbind_Inr_iff)

lemma entries_at_decoded:
  "decodable t \<Longrightarrow> set is \<subseteq> {0 ..< tree_size t} \<Longrightarrow> map_result (entry_at t) is = Inr (map (decoded t) is)"
  by (intro map_result_map ballI entry_at_decoded) auto

lemma handleRecent_window:
  assumes "decodable t"
  shows "handleRecent t limit offset = Inr \<lparr>rr_tree_size = tree_size t, rr_offset = offset,
    rr_returned = min limit (tree_size t - offset), rr_entries = take limit (drop offset (rev (all_entries t)))\<rparr>"
proof -
  let ?n = "tree_size t"
  have "map_result (entry_at t) (rev [?n - offset - limit ..< ?n - offset])
      = Inr (map (decoded t) (rev [?n - offset - limit ..< ?n - offset]))"
    by (rule entries_at_decoded [OF assms]) auto
  moreover have "map (decoded t) (rev [?n - offset - limit ..< ?n - offset]) = take limit (drop offset (rev (all_entries t)))"
    by (simp add: all_entries_def drop_rev take_rev rev_map take_map drop_map)
  ultimately show ?thesis by (simp add: handleRecent_def Let_def all_entries_def min_def)
qed

lemma collect_loop_window:
  assumes "decodable t"
  shows "i \<le> tree_size t \<Longrightarrow> length acc < limit \<Longrightarrow> skipped \<le> offset \<Longrightarrow> skipped < offset \<longrightarrow> acc = [] \<Longrightarrow>
    collect_loop t f limit offset i skipped acc
    = Inr (acc @ take (limit - length acc) (drop (offset - skipped)
        (filter (\<lambda>e. matchesEntryFilters e f) (rev (map (decoded t) [0 ..< i])))))"
proof (induction i arbitrary: skipped acc)
  case (Suc i)
  have e: "entry_at t i = Inr (decoded t i)" using assms Suc.prems(1) by (intro entry_at_decoded) auto
  let ?d = "decoded t i"
  show ?case
  proof (cases "\<not> matchesEntryFilters ?d f \<or> skipped < offset")
    case True
    then show ?thesis using Suc.IH Suc.prems e by (auto simp: drop_Cons')
  next
    case False
    then have "skipped = offset" using Suc.prems(3) by simp
    moreover have "take (limit - length acc) (?d # xs) = ?d # take (limit - Suc (length acc)) xs" for xs
      using Suc.prems(2) by (simp add: take_Cons')
    ultimately show ?thesis using False Suc.IH [of "acc @ [?d]" skipped] Suc.prems e by auto
  qed
qed simp

text \<open>The windows of the feed. On a log of well-formed entries, \<open>/v1/recent\<close> returns the window of the newest entries
  that its offset and limit name, and the filtered feed the same window of the entries that match its
  filters; without filters the two agree.\<close>

theorem newest_windows:
  assumes "decodable t" and "1 \<le> limit"
  shows "handleRecent t limit offset = Inr \<lparr>rr_tree_size = tree_size t, rr_offset = offset,
      rr_returned = min limit (tree_size t - offset), rr_entries = take limit (drop offset (rev (all_entries t)))\<rparr>
    \<and> collectNewestEntries t f limit offset
      = Inr (take limit (drop offset (filter (\<lambda>e. matchesEntryFilters e f) (rev (all_entries t)))))"
  using handleRecent_window [OF assms(1)] collect_loop_window [OF assms(1), of "tree_size t" "[]" limit 0 offset f] assms(2)
  by (simp add: collectNewestEntries_def all_entries_def)

definition plain_filters :: LogEntryFilters where
  "plain_filters = \<lparr>lf_creatorKey = None, lf_contextId = None, lf_eventType = None, lf_sinceMs = None, lf_afterIndex = None\<rparr>"

theorem newest_windows_witness:
  "\<exists>t. rawEntries t = [replicate 90 1, replicate 90 2, replicate 90 3]
    \<and> map de_index (projr (collectNewestEntries t plain_filters 2 1)) = [1, 0]
    \<and> map de_index (rr_entries (projr (handleRecent t 2 1))) = [1, 0]"
proof -
  obtain t :: log_tree where t: "rawEntries t = [replicate 90 1, replicate 90 2, replicate 90 3]"
    by (metis log_tree.select_convs(1))
  then have d: "decodable t" by (simp add: decodable_def)
  have "matchesEntryFilters e plain_filters" for e by (simp add: matchesEntryFilters_def plain_filters_def)
  moreover have "map de_index (rev (all_entries t)) = [2, 1, 0]"
    using decoded_index [OF d] by (simp add: all_entries_def t tree_size_def upt_rec)
  then obtain a b c where "rev (all_entries t) = [a, b, c]" "map de_index [a, b, c] = [2, 1, 0]"
    by (metis (no_types) length_map length_Cons length_0_conv list.size(3) length_Suc_conv)
  ultimately show ?thesis
    using newest_windows [OF d, of 2 1 plain_filters] t by (intro exI [of _ t]) (simp add: numeral_2_eq_2)
qed

section \<open>Statistics\<close>

definition entry_key :: "bytes \<Rightarrow> string" where
  "entry_key e = hexEncode (subarray 33 65 e)"

definition entry_time :: "bytes \<Rightarrow> nat" where
  "entry_time e = number_of_bigint (unat (get_be64 (subarray 81 89 e)))"

definition entry_event :: "bytes \<Rightarrow> string" where
  "entry_event e = event_label (if 89 < length e then Some (e ! 89) else None)"

definition counted :: "bytes list \<Rightarrow> string \<Rightarrow> nat" where
  "counted es l = length (filter (\<lambda>e. entry_event e = l) es)"

definition counts_of :: "bytes list \<Rightarrow> event_counts" where
  "counts_of es = \<lparr>ec_tool_call = counted es ''tool_call'', ec_transaction = counted es ''transaction'',
     ec_observation = counted es ''observation'', ec_directory_anchor = counted es ''directory_anchor'',
     ec_annotation = counted es ''annotation'', ec_revision = counted es ''revision'',
     ec_extension = counted es ''extension'', ec_reserved = counted es ''reserved''\<rparr>"

lemma counted_snoc: "counted (es @ [e]) l = (if entry_event e = l then Suc (counted es l) else counted es l)"
  by (simp add: counted_def)

lemma counts_of_snoc: "counts_of (es @ [e]) = count_event (if 89 < length e then Some (e ! 89) else None) (counts_of es)"
proof -
  define b where "b = (if 89 < length e then Some (e ! 89) else None)"
  have ev: "entry_event e = event_label b" by (simp add: entry_event_def b_def)
  consider "b = Some 0x01" | "b = Some 0x02" | "b = Some 0x03" | "b = Some 0x04" | "b = Some 0x05" | "b = Some 0x06"
    | "b = Some 0xff" | "b \<notin> {Some 0x01, Some 0x02, Some 0x03, Some 0x04, Some 0x05, Some 0x06, Some 0xff}" by blast
  then have "counts_of (es @ [e]) = count_event b (counts_of es)"
    by cases (simp_all add: counts_of_def counted_snoc ev count_event_def event_label_def)
  then show ?thesis by (simp only: b_def)
qed

lemma set_set_add [simp]: "set (set_add x xs) = insert x (set xs)"
  by (auto simp: set_add_def)

lemma distinct_set_add: "distinct xs \<Longrightarrow> distinct (set_add x xs)"
  by (simp add: set_add_def)

definition stats_ok :: "int \<Rightarrow> bytes list \<Rightarrow> log_stats \<Rightarrow> bool" where
  "stats_ok now es s \<longleftrightarrow>
     distinct (ls_signers s) \<and> set (ls_signers s) = entry_key ` set es
     \<and> distinct (ls_active24h s) \<and> set (ls_active24h s) = entry_key ` {e \<in> set es. now - 86400000 \<le> int (entry_time e)}
     \<and> distinct (ls_active7d s) \<and> set (ls_active7d s) = entry_key ` {e \<in> set es. now - 604800000 \<le> int (entry_time e)}
     \<and> ls_oldest s = (if es = [] then None else Some (Min (entry_time ` set es)))
     \<and> ls_newest s = (if es = [] then None else Some (Max (entry_time ` set es)))
     \<and> ls_counts s = counts_of es"

lemma stats_step_ok:
  assumes "stats_ok now es s" and "89 \<le> length e"
  shows "\<exists>s'. stats_step now e s = Inr s' \<and> stats_ok now (es @ [e]) s'"
proof -
  let ?s = "\<lparr>ls_signers = set_add (entry_key e) (ls_signers s),
     ls_active24h = (if now - 86400000 \<le> int (entry_time e) then set_add (entry_key e) (ls_active24h s) else ls_active24h s),
     ls_active7d = (if now - 604800000 \<le> int (entry_time e) then set_add (entry_key e) (ls_active7d s) else ls_active7d s),
     ls_oldest = (case ls_oldest s of None \<Rightarrow> Some (entry_time e) | Some o' \<Rightarrow> Some (if entry_time e < o' then entry_time e else o')),
     ls_newest = (case ls_newest s of None \<Rightarrow> Some (entry_time e) | Some n \<Rightarrow> Some (if n < entry_time e then entry_time e else n)),
     ls_counts = count_event (if 89 < length e then Some (e ! 89) else None) (ls_counts s)\<rparr>"
  have "stats_step now e s = Inr ?s"
    using assms(2) by (simp add: stats_step_def Let_def entry_key_def entry_time_def split: option.split)
  moreover have "stats_ok now (es @ [e]) ?s"
  proof -
    have active: "entry_key ` {x \<in> set (es @ [e]). P x}
        = (if P e then insert (entry_key e) (entry_key ` {x \<in> set es. P x}) else entry_key ` {x \<in> set es. P x})" for P by auto
    have least: "Min (entry_time ` set (es @ [e])) = (if es = [] then entry_time e else min (entry_time e) (Min (entry_time ` set es)))"
      "Max (entry_time ` set (es @ [e])) = (if es = [] then entry_time e else max (entry_time e) (Max (entry_time ` set es)))" by simp_all
    define lo hi where "lo = Min (entry_time ` set es)" and "hi = Max (entry_time ` set es)"
    show ?thesis
      using assms(1) unfolding stats_ok_def active least
      unfolding lo_def [symmetric] hi_def [symmetric]
      by (intro conjI) (simp_all add: distinct_set_add counts_of_snoc min_def max_def)
  qed
  ultimately show ?thesis by blast
qed

text \<open>Statistics. On a log of well-formed entries the counters of \<open>/v1/stats\<close> are those of the log: the number of
  distinct creator keys, in all and among the entries of the last day and week, the least and greatest
  timestamps, and the number of entries of each event type, which add up to the tree size.\<close>

theorem stats_correct:
  assumes "decodable t"
  shows "\<exists>r. handleStats now t = Inr r \<and> sr_tree_size r = tree_size t
    \<and> sr_distinct_signers r = card (entry_key ` set (rawEntries t))
    \<and> sr_active_signers_24h r = card (entry_key ` {e \<in> set (rawEntries t). now - 86400000 \<le> int (entry_time e)})
    \<and> sr_active_signers_7d r = card (entry_key ` {e \<in> set (rawEntries t). now - 604800000 \<le> int (entry_time e)})
    \<and> (rawEntries t \<noteq> [] \<longrightarrow> sr_oldest_timestamp_ms r = Some (Min (entry_time ` set (rawEntries t)))
         \<and> sr_newest_timestamp_ms r = Some (Max (entry_time ` set (rawEntries t))))
    \<and> sr_entries_by_event_type r = counts_of (rawEntries t)"
proof -
  let ?s0 = "\<lparr>ls_signers = [], ls_active24h = [], ls_active7d = [], ls_oldest = None, ls_newest = None, ls_counts = no_counts\<rparr>"
  have "\<forall>e \<in> set es. 89 \<le> length e \<Longrightarrow> \<exists>s. fold_result (stats_step now) es ?s0 = Inr s \<and> stats_ok now es s" for es
  proof (induction es rule: rev_induct)
    case Nil
    show ?case by (simp add: stats_ok_def counts_of_def counted_def no_counts_def)
  next
    case (snoc e es)
    then obtain s where "fold_result (stats_step now) es ?s0 = Inr s" "stats_ok now es s" by auto
    with stats_step_ok [OF this(2), of e] snoc.prems show ?case by (auto simp: fold_result_append)
  qed
  from this [of "rawEntries t"] assms obtain s where s: "fold_result (stats_step now) (rawEntries t) ?s0 = Inr s"
    "stats_ok now (rawEntries t) s" by (auto simp: decodable_def)
  then show ?thesis by (auto simp: handleStats_def stats_ok_def simp flip: distinct_card)
qed

theorem stats_correct_witness:
  "\<exists>t r. rawEntries t = [replicate 90 1, replicate 90 1, replicate 90 2] \<and> handleStats 0 t = Inr r
    \<and> sr_distinct_signers r = 2 \<and> ec_tool_call (sr_entries_by_event_type r) = 2 \<and> ec_transaction (sr_entries_by_event_type r) = 1"
proof -
  obtain t :: log_tree where t: "rawEntries t = [replicate 90 1, replicate 90 1, replicate 90 2]"
    by (metis log_tree.select_convs(1))
  then have "decodable t" by (simp add: decodable_def)
  from stats_correct [OF this, of 0] obtain r where r: "handleStats 0 t = Inr r"
    "sr_distinct_signers r = card (entry_key ` {replicate 90 1, replicate 90 2})"
    "sr_entries_by_event_type r = counts_of (rawEntries t)" by (auto simp: t)
  have "entry_key (replicate 90 1) \<noteq> entry_key (replicate 90 2)"
    by (simp add: entry_key_def subarray_def)
  with r t show ?thesis by (intro exI [of _ t] exI [of _ r]) (simp add: counts_of_def counted_def entry_event_def event_label_def)
qed

section \<open>Streams\<close>

definition stream_ok :: "(bytes \<Rightarrow> bytes) \<Rightarrow> stream_state \<Rightarrow> bool" where
  "stream_ok sha s \<longleftrightarrow> tree_inv sha (sx_tree s) \<and> decodable (sx_tree s)
     \<and> (\<forall>d. sx_appended s = Some d \<longrightarrow> 0 < tree_size (sx_tree s) \<and> d = decoded (sx_tree s) (tree_size (sx_tree s) - 1))"

text \<open>The entries whose notification has been sent: all but the one appended under a lock still held.\<close>

definition notified :: "stream_state \<Rightarrow> nat" where
  "notified s = tree_size (sx_tree s) - (if sx_appended s = None then 0 else 1)"

text \<open>Steps that leave a subscriber connected: its writes succeed, and no other client takes its identity.\<close>

definition quiet :: "nat \<Rightarrow> stream_event \<Rightarrow> bool" where
  "quiet sid ev = (case ev of Append wr e \<Rightarrow> 89 \<le> length e | Notify broken \<Rightarrow> \<not> broken sid
     | Open n f \<Rightarrow> n \<noteq> sid | Close n \<Rightarrow> n \<noteq> sid)"

definition extends :: "log_tree \<Rightarrow> log_tree \<Rightarrow> bool" where
  "extends t t' \<longleftrightarrow> (\<exists>new. rawEntries t' = rawEntries t @ new)"

lemma extends_trans: "extends t u \<Longrightarrow> extends u v \<Longrightarrow> extends t v"
  by (auto simp: extends_def)

lemma decoded_extends: "extends t t' \<Longrightarrow> i < tree_size t \<Longrightarrow> decoded t' i = decoded t i"
  by (auto simp: extends_def decoded_def tree_size_def nth_append)

definition received :: "stream_state \<Rightarrow> nat \<Rightarrow> LogEntryFilters \<Rightarrow> DecodedEntry list \<Rightarrow> bool" where
  "received s sid f ds \<longleftrightarrow> (\<exists>sb. map_of (sx_subscribers s) sid = Some sb \<and> sb_filters sb = f \<and> map fst (sb_out sb) = ds)"

lemma notify_received:
  "\<not> broken sid \<Longrightarrow> map_of (notifySubscribers broken d n subs) sid
    = map_option (\<lambda>sb. if matchesEntryFilters d (sb_filters sb) then sb\<lparr>sb_out := sb_out sb @ [(d, n)]\<rparr> else sb) (map_of subs sid)"
  by (induction subs) (auto simp: notifySubscribers_def notify_one_def)

lemma append_step:
  assumes ok: "stream_ok sha s" and "89 \<le> length e"
  shows "stream_ok sha (stream_step sha (Append wr e) s) \<and> extends (sx_tree s) (sx_tree (stream_step sha (Append wr e) s))
    \<and> notified (stream_step sha (Append wr e) s) = notified s
    \<and> sx_subscribers (stream_step sha (Append wr e) s) = sx_subscribers s"
proof (cases "sx_appended s")
  case None
  obtain r t where a: "tree_append sha wr e (sx_tree s) = (r, t)" by (cases "tree_append sha wr e (sx_tree s)")
  have inv: "tree_inv sha (sx_tree s)" and dec: "decodable (sx_tree s)" using ok by (auto simp: stream_ok_def)
  note m = tree_append_memory [OF inv a]
  show ?thesis
  proof (cases r)
    case (Inl x)
    with m None a dec show ?thesis
      by (auto simp: stream_step_def stream_ok_def notified_def extends_def tree_size_def decodable_def)
  next
    case (Inr i)
    obtain d where d: "decodeEntry e i = Inr d" using assms(2) by (simp add: decodeEntry_def Let_def)
    have t: "rawEntries t = rawEntries (sx_tree s) @ [e]" "i = length (rawEntries (sx_tree s))" "tree_inv sha t" using m Inr by auto
    then have "decoded t i = d" "decodable t" using d dec assms(2) by (auto simp: decoded_def decodable_def)
    with t None a Inr d show ?thesis
      by (auto simp: stream_step_def stream_ok_def notified_def extends_def tree_size_def)
  qed
qed (use ok in \<open>simp add: stream_step_def extends_def\<close>)

lemma stream_step_received:
  assumes ok: "stream_ok sha s" and q: "quiet sid ev" and r: "received s sid f ds"
  shows "stream_ok sha (stream_step sha ev s)" and "extends (sx_tree s) (sx_tree (stream_step sha ev s))"
    and "notified s \<le> notified (stream_step sha ev s)"
    and "received (stream_step sha ev s) sid f (ds @ filter (\<lambda>e. matchesEntryFilters e f)
           (map (decoded (sx_tree (stream_step sha ev s))) [notified s ..< notified (stream_step sha ev s)]))"
proof -
  let ?s = "stream_step sha ev s"
  have "stream_ok sha ?s \<and> extends (sx_tree s) (sx_tree ?s) \<and> notified s \<le> notified ?s
      \<and> received ?s sid f (ds @ filter (\<lambda>e. matchesEntryFilters e f) (map (decoded (sx_tree ?s)) [notified s ..< notified ?s]))"
  proof (cases ev)
    case (Append wr e)
    with append_step [OF ok, of e wr] q r show ?thesis by (auto simp: quiet_def received_def)
  next
    case (Notify broken)
    show ?thesis
    proof (cases "sx_appended s")
      case (Some d)
      with ok have d: "0 < tree_size (sx_tree s)" "d = decoded (sx_tree s) (tree_size (sx_tree s) - 1)" by (auto simp: stream_ok_def)
      then have "[notified s ..< tree_size (sx_tree s)] = [tree_size (sx_tree s) - 1]"
        using Some by (simp add: notified_def upt_rec)
      with Some Notify d ok q r notify_received [of broken sid d "tree_size (sx_tree s)" "sx_subscribers s"] show ?thesis
        by (auto simp: stream_step_def stream_ok_def notified_def extends_def received_def quiet_def)
    qed (use Notify ok r in \<open>simp add: stream_step_def extends_def\<close>)
  qed (use ok q r in \<open>auto simp: stream_step_def stream_ok_def open_stream_def close_stream_def quiet_def received_def
        notified_def extends_def Let_def jsmap_simps split: sum.splits\<close>)
  then show "stream_ok sha ?s" "extends (sx_tree s) (sx_tree ?s)" "notified s \<le> notified ?s"
    "received ?s sid f (ds @ filter (\<lambda>e. matchesEntryFilters e f) (map (decoded (sx_tree ?s)) [notified s ..< notified ?s]))" by auto
qed

lemma upt_split: "i \<le> j \<Longrightarrow> j \<le> k \<Longrightarrow> [i ..< k] = [i ..< j] @ [j ..< k]"
  by (metis le_Suc_ex upt_add_eq_append)

lemma stream_run_received:
  assumes "stream_ok sha s" and "list_all (quiet sid) evs" and "received s sid f ds"
  shows "extends (sx_tree s) (sx_tree (fold (stream_step sha) evs s)) \<and> notified s \<le> notified (fold (stream_step sha) evs s)
    \<and> received (fold (stream_step sha) evs s) sid f (ds @ filter (\<lambda>e. matchesEntryFilters e f)
        (map (decoded (sx_tree (fold (stream_step sha) evs s))) [notified s ..< notified (fold (stream_step sha) evs s)]))"
  using assms
proof (induction evs arbitrary: s ds)
  case Nil
  then show ?case by (simp add: extends_def)
next
  case (Cons ev evs)
  let ?s = "stream_step sha ev s"
  let ?u = "fold (stream_step sha) evs ?s"
  have q: "quiet sid ev" "list_all (quiet sid) evs" using Cons.prems(2) by auto
  note st = stream_step_received [OF Cons.prems(1) q(1) Cons.prems(3)]
  note ih = Cons.IH [OF st(1) q(2) st(4)]
  have "notified ?s \<le> tree_size (sx_tree ?s)" by (simp add: notified_def)
  then have "map (decoded (sx_tree ?u)) [notified s ..< notified ?s] = map (decoded (sx_tree ?s)) [notified s ..< notified ?s]"
    using ih by (auto intro!: decoded_extends)
  moreover have "[notified s ..< notified ?u] = [notified s ..< notified ?s] @ [notified ?s ..< notified ?u]"
    using ih st(3) by (intro upt_split) auto
  ultimately have "map (decoded (sx_tree ?u)) [notified s ..< notified ?u]
      = map (decoded (sx_tree ?s)) [notified s ..< notified ?s] @ map (decoded (sx_tree ?u)) [notified ?s ..< notified ?u]"
    by (simp only: map_append)
  then show ?case using ih st(2, 3) extends_trans [OF st(2)] by simp
qed

lemma open_stream_received:
  assumes ok: "stream_ok sha s" and "wants_replay f" and run: "open_stream sid f s = (Inr (), s1)"
  shows "stream_ok sha s1 \<and> sx_tree s1 = sx_tree s \<and> notified s1 = notified s
    \<and> received s1 sid f (filter (\<lambda>e. matchesEntryFilters e f) (map (decoded (sx_tree s)) [0 ..< tree_size (sx_tree s)]))"
proof -
  let ?t = "sx_tree s" and ?k = "case lf_afterIndex f of None \<Rightarrow> 0 | Some a \<Rightarrow> nat (a + 1)"
  have dec: "decodable ?t" using ok by (simp add: stream_ok_def)
  have "map_result (entry_at ?t) [?k ..< tree_size ?t] = Inr (map (decoded ?t) [?k ..< tree_size ?t])"
    by (rule entries_at_decoded [OF dec]) auto
  then have found: "replay_entries ?t f = Inr (filter (\<lambda>e. matchesEntryFilters e f) (map (decoded ?t) [?k ..< tree_size ?t]))"
    using assms(2) by (simp add: replay_entries_def)
  have "\<not> matchesEntryFilters (decoded ?t i) f" if "i < tree_size ?t" "i < ?k" for i
    using that decoded_index [OF dec that(1)] by (auto simp: matchesEntryFilters_def split: option.splits)
  then have skip: "filter (\<lambda>e. matchesEntryFilters e f) (map (decoded ?t) [0 ..< min ?k (tree_size ?t)]) = []"
    by (auto simp: filter_empty_conv)
  have "[0 ..< tree_size ?t] = [0 ..< min ?k (tree_size ?t)] @ [?k ..< tree_size ?t]"
    using upt_split [of 0 ?k "tree_size ?t"] by (cases "?k \<le> tree_size ?t") (simp_all add: min_def)
  then have "filter (\<lambda>e. matchesEntryFilters e f) (map (decoded ?t) [?k ..< tree_size ?t])
      = filter (\<lambda>e. matchesEntryFilters e f) (map (decoded ?t) [0 ..< tree_size ?t])"
    using skip by (metis append_Nil filter_append map_append)
  with run found ok show ?thesis
    by (auto simp: open_stream_def Let_def received_def stream_ok_def notified_def jsmap_simps comp_def split: if_splits)
qed

text \<open>C39: a resumed stream has no gap. A client that connects with a resume cursor or a start time, and stays
  connected, is sent every entry of the log that its filters match, in log order, up to the last entry
  notified. If no submission is between its append and its notification when the client connects, it is
  sent each once; otherwise the last entry at that time, if it matches, comes a second time.\<close>

theorem stream_no_gap:
  assumes "stream_ok sha s" and "wants_replay f" and "open_stream sid f s = (Inr (), s1)" and "list_all (quiet sid) evs"
    and "s' = fold (stream_step sha) evs s1"
  shows "\<exists>sb. map_of (sx_subscribers s') sid = Some sb
    \<and> map fst (sb_out sb) = filter (\<lambda>e. matchesEntryFilters e f)
        (map (decoded (sx_tree s')) [0 ..< tree_size (sx_tree s)] @ map (decoded (sx_tree s')) [notified s ..< notified s'])
    \<and> (sx_appended s = None \<longrightarrow> map fst (sb_out sb)
        = filter (\<lambda>e. matchesEntryFilters e f) (map (decoded (sx_tree s')) [0 ..< notified s']))"
proof -
  note o = open_stream_received [OF assms(1-3)]
  note r = stream_run_received [OF _ assms(4), of sha s1 f, folded assms(5)]
  from o r [of "filter (\<lambda>e. matchesEntryFilters e f) (map (decoded (sx_tree s)) [0 ..< tree_size (sx_tree s)])"]
  have ext: "extends (sx_tree s) (sx_tree s')" and le: "notified s \<le> notified s'"
    and rec: "received s' sid f (filter (\<lambda>e. matchesEntryFilters e f) (map (decoded (sx_tree s)) [0 ..< tree_size (sx_tree s)])
        @ filter (\<lambda>e. matchesEntryFilters e f) (map (decoded (sx_tree s')) [notified s ..< notified s']))" by auto
  have same: "map (decoded (sx_tree s)) [0 ..< tree_size (sx_tree s)] = map (decoded (sx_tree s')) [0 ..< tree_size (sx_tree s)]"
    using decoded_extends [OF ext] by simp
  have "[0 ..< tree_size (sx_tree s)] @ [notified s ..< notified s'] = [0 ..< notified s']" if "sx_appended s = None"
    using that le upt_split [of 0 "notified s" "notified s'"] by (simp add: notified_def)
  with rec same show ?thesis unfolding received_def by (metis filter_append map_append)
qed

theorem stream_no_gap_witness:
  "\<exists>s s1 sb d. sx_appended s = Some d
    \<and> open_stream 5 (plain_filters\<lparr>lf_afterIndex := Some (-1)\<rparr>) s = (Inr (), s1)
    \<and> map_of (sx_subscribers (fold (stream_step pad32) [Notify (\<lambda>_. False)] s1)) 5 = Some sb
    \<and> map fst (sb_out sb) = [d, d]"
proof -
  let ?e = "replicate 90 1 :: bytes" and ?f = "plain_filters\<lparr>lf_afterIndex := Some (-1)\<rparr>"
  have "write_progress (\<lambda>_ :: bytes. 1)" by (simp add: write_progress_def)
  with tree_append_progress [OF empty_tree_inv, of "\<lambda>_. 1" pad32 ?e None] obtain t
    where a: "tree_append pad32 (\<lambda>_. 1) ?e (empty_tree None) = (Inr 0, t)" by (auto simp: empty_tree_def)
  have t: "tree_inv pad32 t" "rawEntries t = [?e]"
    using tree_append_memory [OF empty_tree_inv a] by (simp_all add: empty_tree_def)
  let ?d = "decoded t 0" and ?s = "\<lparr>sx_tree = t, sx_subscribers = [], sx_appended = Some (decoded t 0)\<rparr>"
  have dec: "decodable t" using t(2) by (simp add: decodable_def)
  then have ok: "stream_ok pad32 ?s" using t by (simp add: stream_ok_def tree_size_def)
  have m: "matchesEntryFilters ?d ?f"
    by (simp add: matchesEntryFilters_def plain_filters_def)
  obtain s1 where s1: "open_stream 5 ?f ?s = (Inr (), s1)"
    using entries_at_decoded [OF dec, of "[0 ..< tree_size t]"] by (simp add: open_stream_def replay_entries_def wants_replay_def)
  have tree: "sx_tree s1 = t" "sx_appended s1 = Some ?d"
    using s1 by (auto simp: open_stream_def Let_def split: sum.splits if_splits)
  have "wants_replay ?f" "list_all (quiet 5) [Notify (\<lambda>_. False)]" by (simp_all add: wants_replay_def quiet_def)
  from stream_no_gap [OF ok this(1) s1 this(2) refl] obtain sb where
    "map_of (sx_subscribers (fold (stream_step pad32) [Notify (\<lambda>_. False)] s1)) 5 = Some sb"
    "map fst (sb_out sb) = [?d, ?d]"
    using tree m t(2) by (auto simp: stream_step_def notified_def tree_size_def)
  with s1 show ?thesis by (intro exI [of _ ?s] exI [of _ s1] exI [of _ sb] exI [of _ ?d]) simp
qed

section \<open>Sessions\<close>

definition of_session :: "string \<Rightarrow> string \<Rightarrow> DecodedEntry list \<Rightarrow> DecodedEntry list" where
  "of_session key c ds = filter (\<lambda>d. de_creator_key d = key \<and> de_context_id d = c) ds"

definition summarises :: "DecodedEntry list \<Rightarrow> SessionSummary \<Rightarrow> bool" where
  "summarises ds s \<longleftrightarrow>
     sm_node_count s = length ds \<and> sm_first_seen s = Min (de_timestamp_ms ` set ds)
     \<and> sm_last_seen s = Max (de_timestamp_ms ` set ds)
     \<and> (sm_has_transaction s \<longleftrightarrow> (\<exists>d \<in> set ds. de_event_type d = ''transaction''))
     \<and> (\<forall>e. get_or 0 (map_of (sm_count_by_event_type s) e) = length (filter (\<lambda>d. de_event_type d = e) ds))"

definition sessions_ok :: "string \<Rightarrow> DecodedEntry list \<Rightarrow> (string, SessionSummary) jsmap \<Rightarrow> bool" where
  "sessions_ok key ds m \<longleftrightarrow> distinct (map fst m)
     \<and> fst ` set m = de_context_id ` {d \<in> set ds. de_creator_key d = key}
     \<and> (\<forall>c s. map_of m c = Some s \<longrightarrow> sm_context_id s = c \<and> summarises (of_session key c ds) s)"

lemma summarises_first:
  "summarises [d] \<lparr>sm_context_id = c, sm_node_count = 1, sm_first_seen = de_timestamp_ms d, sm_last_seen = de_timestamp_ms d,
     sm_count_by_event_type = [(de_event_type d, 1)], sm_has_transaction = (de_event_type d = ''transaction'')\<rparr>"
  by (simp add: summarises_def get_or_def)

lemma summarises_snoc:
  assumes "summarises ds s" and "ds \<noteq> []"
  shows "summarises (ds @ [d]) (s\<lparr>sm_node_count := sm_node_count s + 1,
     sm_count_by_event_type := AList.update (de_event_type d)
       (get_or 0 (map_of (sm_count_by_event_type s) (de_event_type d)) + 1) (sm_count_by_event_type s),
     sm_has_transaction := sm_has_transaction s \<or> de_event_type d = ''transaction'',
     sm_first_seen := min (de_timestamp_ms d) (sm_first_seen s), sm_last_seen := max (de_timestamp_ms d) (sm_last_seen s)\<rparr>)"
  using assms by (auto simp: summarises_def get_or_def jsmap_simps)

lemma session_step_ok:
  assumes "sessions_ok key ds m"
  shows "sessions_ok key (ds @ [d]) (session_step key d m)"
proof (cases "de_creator_key d = key")
  case True
  let ?c = "de_context_id d"
  have other: "of_session key c (ds @ [d]) = of_session key c ds" if "c \<noteq> ?c" for c using that by (simp add: of_session_def)
  have own: "of_session key ?c (ds @ [d]) = of_session key ?c ds @ [d]" using True by (simp add: of_session_def)
  have keys: "map_of m ?c = None \<longleftrightarrow> of_session key ?c ds = []"
  proof -
    have "fst ` set m = de_context_id ` {d \<in> set ds. de_creator_key d = key}" using assms by (simp add: sessions_ok_def)
    then have "map_of m ?c = None \<longleftrightarrow> ?c \<notin> de_context_id ` {d \<in> set ds. de_creator_key d = key}"
      by (simp only: map_of_eq_None_iff)
    also have "\<dots> \<longleftrightarrow> of_session key ?c ds = []" by (force simp: of_session_def filter_empty_conv image_iff)
    finally show ?thesis .
  qed
  obtain s where s: "session_step key d m = AList.update ?c s m" "sm_context_id s = ?c" "summarises (of_session key ?c (ds @ [d])) s"
  proof (cases "map_of m ?c")
    case None
    with that [of "\<lparr>sm_context_id = ?c, sm_node_count = 1, sm_first_seen = de_timestamp_ms d, sm_last_seen = de_timestamp_ms d,
        sm_count_by_event_type = [(de_event_type d, 1)], sm_has_transaction = (de_event_type d = ''transaction'')\<rparr>"]
    show thesis using True keys own summarises_first [of d ?c] by (simp add: session_step_def get_or_def)
  next
    case (Some s0)
    then have "summarises (of_session key ?c ds) s0" "sm_context_id s0 = ?c" "of_session key ?c ds \<noteq> []"
      using assms keys by (auto simp: sessions_ok_def)
    with that show thesis
      using True Some own summarises_snoc [OF \<open>summarises (of_session key ?c ds) s0\<close>, of d]
      by (simp add: session_step_def get_or_def Let_def)
  qed
  have "distinct (map fst (AList.update ?c s m))" using assms by (simp add: sessions_ok_def distinct_update)
  moreover have "fst ` set (AList.update ?c s m) = insert ?c (fst ` set m)" by (simp add: dom_update)
  ultimately show ?thesis
    using assms s other True by (auto simp: sessions_ok_def jsmap_simps)
qed (use assms in \<open>auto simp: sessions_ok_def session_step_def of_session_def\<close>)

text \<open>Sessions of a creator. On a log of well-formed entries, \<open>/v1/by-creator\<close> lists one summary for each context in
  which the creator has entries, latest activity first, and each summary counts exactly the creator's
  entries of that context: their number, in all and by event type, the first and last timestamps, and
  whether one is a transaction.\<close>

theorem by_creator_summaries:
  assumes "decodable t"
  shows "\<exists>list. handleByCreator t key = Inr list \<and> distinct (map sm_context_id list)
    \<and> set (map sm_context_id list) = de_context_id ` {d \<in> set (all_entries t). de_creator_key d = key}
    \<and> (\<forall>s \<in> set list. summarises (of_session key (sm_context_id s) (all_entries t)) s)
    \<and> sorted_wrt (\<lambda>a b. sm_last_seen b \<le> sm_last_seen a) list"
proof -
  have fold: "sessions_ok key ds (fold (session_step key) ds [])" for ds
    by (induction ds rule: rev_induct) (auto simp: sessions_ok_def [of _ "[]"] intro: session_step_ok)
  define m where "m = fold (session_step key) (all_entries t) []"
  let ?cmp = "\<lambda>a b. int (sm_last_seen b) - int (sm_last_seen a)"
  define list where "list = sort_by ?cmp (map snd m)"
  have ok: "sessions_ok key (all_entries t) m" unfolding m_def by (rule fold)
  have run: "handleByCreator t key = Inr list"
    using entries_at_decoded [OF assms, of "[0 ..< tree_size t]"]
    by (simp add: handleByCreator_def list_def m_def all_entries_def)
  have elem: "\<exists>c. map_of m c = Some s" if "s \<in> snd ` set m" for s
    using that ok by (auto simp: sessions_ok_def)
  have ids: "map sm_context_id (map snd m) = map fst m"
    using ok by (auto simp: sessions_ok_def)
  have perm: "mset list = mset (map snd m)" unfolding list_def by (rule mset_sort_by)
  then have "mset (map sm_context_id list) = mset (map fst m)" by (metis ids mset_map)
  then have d: "distinct (map sm_context_id list)" "set (map sm_context_id list) = fst ` set m"
    using ok by (metis mset_eq_imp_distinct_iff sessions_ok_def, metis list.set_map set_mset_mset)
  have "sorted_wrt (\<lambda>a b. sm_last_seen b \<le> sm_last_seen a) list"
    unfolding list_def by (rule sorted_sort_by) auto
  moreover have "summarises (of_session key (sm_context_id s) (all_entries t)) s" if "s \<in> set list" for s
    using that elem ok perm by (metis list.set_map sessions_ok_def set_mset_mset)
  ultimately show ?thesis using run d ok by (auto simp: sessions_ok_def)
qed

theorem by_creator_summaries_witness:
  "\<exists>t s key. rawEntries t = [replicate 90 2, replicate 90 2] \<and> handleByCreator t key = Inr [s]
    \<and> sm_node_count s = 2 \<and> sm_has_transaction s"
proof -
  obtain t :: log_tree where t: "rawEntries t = [replicate 90 2, replicate 90 2]"
    by (metis log_tree.select_convs(1))
  let ?key = "base64urlEncode (replicate 32 2)" and ?c = "hexEncode (replicate 16 2)"
  have d: "decodable t" using t by (simp add: decodable_def)
  have e: "de_creator_key (decoded t i) = ?key \<and> de_context_id (decoded t i) = ?c
      \<and> de_event_type (decoded t i) = ''transaction''" if "i < 2" for i
  proof -
    have "rawEntries t ! i = replicate 90 2" using that t by (auto simp: less_2_cases_iff)
    then show ?thesis by (simp add: decoded_def decodeEntry_def subarray_def event_label_def Let_def)
  qed
  have all: "all_entries t = [decoded t 0, decoded t 1]" by (simp add: all_entries_def tree_size_def t upt_rec)
  have own: "of_session ?key ?c (all_entries t) = all_entries t" using e by (simp add: all of_session_def)
  have "{x \<in> set (all_entries t). de_creator_key x = ?key} = set (all_entries t)" using e by (auto simp: all)
  moreover have "de_context_id ` set (all_entries t) = {?c}" using e by (simp add: all)
  ultimately have one: "de_context_id ` {x \<in> set (all_entries t). de_creator_key x = ?key} = {?c}" by (simp only:)
  from by_creator_summaries [OF d, of ?key, unfolded one] obtain list where r: "handleByCreator t ?key = Inr list"
    "distinct (map sm_context_id list)" "set (map sm_context_id list) = {?c}"
    "\<forall>s \<in> set list. summarises (of_session ?key (sm_context_id s) (all_entries t)) s"
    by blast
  then have "length (map sm_context_id list) = 1" using distinct_card [OF r(2)] by simp
  then obtain s where s: "list = [s]" by (auto simp: length_Suc_conv)
  then have "summarises (all_entries t) s" using r(3, 4) own by auto
  then have "sm_node_count s = 2 \<and> sm_has_transaction s" using e by (auto simp: summarises_def all)
  with r(1) s t show ?thesis by blast
qed

end
