(* ===== verification/Tile_Client.thy ===== *)
theory Tile_Client
  imports Log_Tiles
begin

text \<open>
  How a witness reads a log (\<open>services/witness-node/src/witness.ts\<close>): tile paths and the ranges of leaf
  hashes. The network is an argument, a function from URLs to response bodies; requests that the code
  runs concurrently are made in the order of their results. The composition with the log server's
  endpoints is at the end.
\<close>

definition stripTrailingSlash :: "string \<Rightarrow> string" where
  "stripTrailingSlash value = rev (dropWhile (\<lambda>c. c = CHR ''/'') (rev value))"

definition encodeTileIndex :: "nat \<Rightarrow> string result" where
  "encodeTileIndex index =
     (if max_safe_integer < int index then Inl ''tile index must be non-negative''
      else let value = show_nat index;
               padded = replicate ((length value + 2) div 3 * 3 - length value) (CHR ''0'') @ value;
               groups = chunks 3 padded
        in Inr (join_with ''/'' (map (\<lambda>group. CHR ''x'' # group) (butlast groups) @ [last groups])))"

record FetchedLeafRange =
  fr_appended :: "bytes list"
  fr_overlap :: "bytes list option"
  fr_overlapStart :: nat

definition fetch_tile ::
  "(string \<Rightarrow> bytes result) \<Rightarrow> string \<Rightarrow> nat \<Rightarrow> nat \<Rightarrow> bytes list result" where
  "fetch_tile fetchBytes logBaseUrl toIndex tileIndex =
     (let tileStart = tileIndex * 256; width = min 256 (toIndex - tileStart)
      in rbind (encodeTileIndex tileIndex) (\<lambda>encoded.
         let path = (if width = 256 then encoded else encoded @ ''.p/'' @ show_nat width)
         in rbind (fetchBytes (stripTrailingSlash logBaseUrl @ ''/v1/tile/0/'' @ path)) (\<lambda>bytes.
            if length bytes \<noteq> width * 32 then Inl ''hash tile returned the wrong number of bytes''
            else Inr (map (\<lambda>i. subarray (i * 32) ((i + 1) * 32) bytes) [0 ..< width]))))"

definition fetchLeafHashRange ::
  "(string \<Rightarrow> bytes result) \<Rightarrow> string \<Rightarrow> nat \<Rightarrow> nat \<Rightarrow> FetchedLeafRange result" where
  "fetchLeafHashRange fetchBytes logBaseUrl fromIndex toIndex =
     (if toIndex = fromIndex
      then Inr \<lparr>fr_appended = [], fr_overlap = None, fr_overlapStart = fromIndex\<rparr>
      else if toIndex < fromIndex then Inl ''invalid leaf hash range''
      else let firstTile = fromIndex div 256; lastTile = (toIndex - 1) div 256
        in rbind (map_result (fetch_tile fetchBytes logBaseUrl toIndex) [firstTile ..< lastTile + 1]) (\<lambda>tiles.
           let flattened = concat tiles; firstTileStart = firstTile * 256;
               overlapCount = fromIndex - firstTileStart
           in Inr \<lparr>fr_appended = drop overlapCount flattened,
                   fr_overlap = (if 0 < overlapCount then Some (take overlapCount flattened) else None),
                   fr_overlapStart = firstTileStart\<rparr>))"

section \<open>Tile paths\<close>

lemma split_width_plain: "CHR ''.'' \<notin> set s \<Longrightarrow> split_width s = (s, None)"
  by (induction s) (auto simp: width_suffix_def split: list.splits)

lemma split_width_suffix:
  assumes "CHR ''.'' \<notin> set s" and "w \<noteq> []" and "list_all is_digit w" and "hd w \<noteq> CHR ''0''"
  shows "split_width (s @ ''.p/'' @ w) = (s, Some w)"
  using assms(1)
proof (induction s)
  case Nil
  have "width_suffix (''.p/'' @ w)" using assms(2-4) by (cases w) (simp_all add: width_suffix_def)
  then show ?case by simp
next
  case (Cons c s)
  then have "\<not> width_suffix (c # s @ ''.p/'' @ w)" by (auto simp: width_suffix_def split: list.splits)
  with Cons show ?case by simp
qed

definition path_char :: "char \<Rightarrow> bool" where
  "path_char c \<longleftrightarrow> is_digit c \<or> c = CHR ''x'' \<or> c = CHR ''/''"

lemma path_char_code: "path_char c \<Longrightarrow> (of_char c :: nat) \<notin> {10, 13, 226} \<and> c \<noteq> CHR ''.''"
  by (auto simp: path_char_def is_digit_def)

lemma no_line_terminator: "\<forall>c \<in> set s. (of_char c :: nat) \<notin> {10, 13, 226} \<Longrightarrow> \<not> has_line_terminator s"
  by (induction s) auto

lemma match_tile_encoded:
  assumes "e \<noteq> []" and "\<forall>c \<in> set e. path_char c"
  shows "match_tile e = Some (e, None)"
    and "1 \<le> w \<Longrightarrow> match_tile (e @ ''.p/'' @ show_nat w) = Some (e, Some (show_nat w))"
proof -
  obtain c cs where e: "e = c # cs" using assms(1) by (cases e) auto
  have dot: "CHR ''.'' \<notin> set cs" using assms(2) path_char_code e by auto
  have lt: "\<not> has_line_terminator e" using assms(2) path_char_code by (intro no_line_terminator) blast
  from dot lt show "match_tile e = Some (e, None)"
    by (simp add: e match_tile_def split_width_plain)
  assume "1 \<le> w"
  then have w: "hd (show_nat w) \<noteq> CHR ''0''" "list_all is_digit (show_nat w)"
    using hd_show_nat show_nat_digits by (auto simp: list_all_iff)
  have "\<forall>x \<in> set (e @ ''.p/'' @ show_nat w). (of_char x :: nat) \<notin> {10, 13, 226}"
  proof
    fix x assume "x \<in> set (e @ ''.p/'' @ show_nat w)"
    then have "path_char x \<or> x \<in> set ''.p/''"
      using assms(2) show_nat_digits [of x w] by (auto simp: path_char_def)
    then show "(of_char x :: nat) \<notin> {10, 13, 226}" using path_char_code [of x] by auto
  qed
  then have "\<not> has_line_terminator (e @ ''.p/'' @ show_nat w)" by (rule no_line_terminator)
  with dot w split_width_suffix [of cs "show_nat w"] show "match_tile (e @ ''.p/'' @ show_nat w) = Some (e, Some (show_nat w))"
    by (simp add: e match_tile_def)
qed

lemma read_nat_zeros: "read_nat (replicate k (CHR ''0'') @ s) = read_nat s"
  by (induction k) (simp_all add: read_nat_def)

lemma chunks_3:
  "length s = 3 * n \<Longrightarrow> concat (chunks 3 s) = s \<and> length (chunks 3 s) = n \<and> (\<forall>g \<in> set (chunks 3 s). length g = 3)"
proof (induction n arbitrary: s)
  case (Suc n)
  then have "length (drop 3 s) = 3 * n" "s \<noteq> []" by auto
  with Suc.IH [of "drop 3 s"] Suc.prems show ?case by (auto simp: chunks.simps [of 3 s])
qed (simp add: chunks.simps)

lemma filter_join:
  assumes "\<forall>g \<in> set gs. list_all is_digit g" and "gs \<noteq> []"
  shows "filter (\<lambda>c. c \<noteq> CHR ''x'' \<and> c \<noteq> CHR ''/'')
      (join_with ''/'' (map (\<lambda>g. CHR ''x'' # g) (butlast gs) @ [last gs])) = concat gs"
  using assms
proof (induction gs)
  case (Cons g gs)
  have keep: "filter (\<lambda>c. c \<noteq> CHR ''x'' \<and> c \<noteq> CHR ''/'') g = g"
    using Cons.prems(1) by (intro filter_True) (auto simp: list_all_iff is_digit_def)
  show ?case
  proof (cases "gs = []")
    case False
    with Cons keep show ?thesis by (simp add: join_with_Cons)
  qed (simp add: keep)
qed simp

text \<open>The groups of an encoded index.\<close>

lemma encodeTileIndex_groups:
  assumes "int index \<le> max_safe_integer"
  obtains gs where "gs \<noteq> []" "\<forall>g \<in> set gs. three_digits g" "read_nat (concat gs) = index"
    "encodeTileIndex index = Inr (join_with ''/'' (map (\<lambda>g. CHR ''x'' # g) (butlast gs) @ [last gs]))"
proof -
  let ?v = "show_nat index"
  let ?k = "(length ?v + 2) div 3"
  let ?p = "replicate (?k * 3 - length ?v) (CHR ''0'') @ ?v"
  define gs where "gs = chunks 3 ?p"
  have "length ?v \<le> ?k * 3" by arith
  then have "length ?p = 3 * ?k" by simp
  then have c: "concat gs = ?p" "length gs = ?k" "\<forall>g \<in> set gs. length g = 3"
    unfolding gs_def using chunks_3 by blast+
  have "0 < ?k" using show_nat_not_Nil [of index] by (cases ?v) auto
  then have "gs \<noteq> []" using c(2) by auto
  moreover have "\<forall>x \<in> set (concat gs). is_digit x"
  proof
    fix x assume "x \<in> set (concat gs)"
    then have "x = CHR ''0'' \<or> x \<in> set ?v" unfolding c(1) by auto
    then show "is_digit x" using show_nat_digits [of x index] by (auto simp: is_digit_def)
  qed
  then have "\<forall>g \<in> set gs. three_digits g" using c(3) by (simp add: three_digits_def list_all_iff)
  moreover have "read_nat (concat gs) = index" unfolding c(1) by (simp add: read_nat_zeros)
  moreover have "encodeTileIndex index = Inr (join_with ''/'' (map (\<lambda>g. CHR ''x'' # g) (butlast gs) @ [last gs]))"
    using assms by (simp add: encodeTileIndex_def Let_def gs_def)
  ultimately show thesis by (rule that)
qed

lemma encoded_shape:
  assumes "gs \<noteq> []" and "\<forall>g \<in> set gs. three_digits g"
    and "e = join_with ''/'' (map (\<lambda>g. CHR ''x'' # g) (butlast gs) @ [last gs])"
  shows "e \<noteq> []" and "\<forall>c \<in> set e. path_char c"
    and "(if three_digits e then Some (e, True)
          else if grouped_index e then Some (filter (\<lambda>c. c \<noteq> CHR ''x'' \<and> c \<noteq> CHR ''/'') e, True)
          else X) = Some (concat gs, True)"
proof -
  let ?parts = "map (\<lambda>g. CHR ''x'' # g) (butlast gs) @ [last gs]"
  have digits: "\<forall>g \<in> set gs. list_all is_digit g" using assms(2) by (auto simp: three_digits_def)
  have mem: "set (butlast gs) \<subseteq> set gs" "last gs \<in> set gs" using assms(1) by (auto dest: in_set_butlastD)
  have chars: "\<forall>p \<in> set ?parts. \<forall>c \<in> set p. is_digit c \<or> c = CHR ''x''"
    using digits mem by (auto simp: list_all_iff)
  have join: "set (join_with sep ps) \<subseteq> set sep \<union> \<Union> (set ` set ps)" for sep ps
    by (induction sep ps rule: join_with.induct) auto
  show "\<forall>c \<in> set e. path_char c"
  proof
    fix c assume "c \<in> set e"
    then have "c \<in> set ''/'' \<or> (\<exists>p \<in> set ?parts. c \<in> set p)"
      using join [of "''/''" ?parts] unfolding assms(3) by blast
    then show "path_char c" using chars unfolding path_char_def by (metis empty_set insertE list.simps(15) empty_iff)
  qed
  have "\<not> (is_digit (CHR ''/'') \<or> CHR ''/'' = CHR ''x'')" by (simp add: is_digit_def)
  with chars have "\<forall>p \<in> set ?parts. CHR ''/'' \<notin> set p" by blast
  then have split: "split_on (CHR ''/'') e = ?parts"
    unfolding assms(3) by (intro split_join) auto
  show "e \<noteq> []"
  proof
    assume "e = []"
    with split have "?parts = [[]]" by simp
    with mem(2) assms(2) show False by (auto simp: three_digits_def append_eq_Cons_conv)
  qed
  have groups: "list_all x_group (map (\<lambda>g. CHR ''x'' # g) (butlast gs))" "three_digits (last gs)"
    using assms(2) mem by (auto simp: list_all_iff x_group_def)
  show "(if three_digits e then Some (e, True)
          else if grouped_index e then Some (filter (\<lambda>c. c \<noteq> CHR ''x'' \<and> c \<noteq> CHR ''/'') e, True)
          else X) = Some (concat gs, True)"
  proof (cases "butlast gs = []")
    case True
    then obtain g where "gs = [g]" using assms(1) by (metis append_butlast_last_id append_Nil)
    with assms(2, 3) show ?thesis by simp
  next
    case False
    then have "2 \<le> length ?parts" by (cases "butlast gs") auto
    then have "grouped_index e" unfolding grouped_index_def split Let_def using groups by simp
    moreover have "\<not> three_digits e"
    proof
      assume "three_digits e"
      then have "CHR ''/'' \<notin> set e" by (auto simp: three_digits_def list_all_iff is_digit_def)
      then have "split_on (CHR ''/'') e = [e]" by (rule split_on_no_sep)
      with split \<open>2 \<le> length ?parts\<close> show False by simp
    qed
    ultimately show ?thesis using filter_join [OF digits assms(1)] by (simp add: assms(3))
  qed
qed

lemma parse_encoded:
  assumes "int index \<le> max_safe_integer"
  obtains e where "encodeTileIndex index = Inr e" "e \<noteq> []" "\<forall>c \<in> set e. path_char c"
    "parseTileAddress e = Some \<lparr>ta_index = index, ta_width = None, ta_canonical = True\<rparr>"
    "\<And>w. 1 \<le> w \<Longrightarrow> w < TILE_SIZE \<Longrightarrow> parseTileAddress (e @ ''.p/'' @ show_nat w)
       = Some \<lparr>ta_index = index, ta_width = Some w, ta_canonical = True\<rparr>"
proof -
  from encodeTileIndex_groups [OF assms] obtain gs where gs: "gs \<noteq> []" "\<forall>g \<in> set gs. three_digits g"
    "read_nat (concat gs) = index"
    "encodeTileIndex index = Inr (join_with ''/'' (map (\<lambda>g. CHR ''x'' # g) (butlast gs) @ [last gs]))" by blast
  define e where "e = join_with ''/'' (map (\<lambda>g. CHR ''x'' # g) (butlast gs) @ [last gs])"
  note sh = encoded_shape [OF gs(1, 2) e_def]
  note m = match_tile_encoded [OF sh(1, 2)]
  have "parseTileAddress e = Some \<lparr>ta_index = index, ta_width = None, ta_canonical = True\<rparr>"
    using assms gs(3) by (simp add: parseTileAddress_def m(1) sh(3))
  moreover have "parseTileAddress (e @ ''.p/'' @ show_nat w) = Some \<lparr>ta_index = index, ta_width = Some w, ta_canonical = True\<rparr>"
    if "1 \<le> w" "w < TILE_SIZE" for w
    using assms gs(3) m(2) [OF that(1)] that
    by (simp add: parseTileAddress_def sh(3) max_safe_integer_def TILE_SIZE_def)
  ultimately show thesis using that gs(4) sh(1, 2) e_def by blast
qed

section \<open>Against the log server\<close>

text \<open>An honest network: a request below the base URL is answered by the tile routes of a log.\<close>

definition log_fetch :: "(bytes \<Rightarrow> bytes) \<Rightarrow> log_tree \<Rightarrow> string \<Rightarrow> string \<Rightarrow> bytes result" where
  "log_fetch sha t base url =
     (if starts_with base url
      then (case route_tile sha t (drop (length base) url) of
              Inr (Binary d _) \<Rightarrow> Inr d | Inr (JsonError code _) \<Rightarrow> Inl ''returned an HTTP error'' | Inl e \<Rightarrow> Inl e)
      else Inl ''not found'')"

lemma route_level_zero:
  assumes "\<forall>c \<in> set value. path_char c \<or> c \<in> set ''.p''" and "value \<noteq> []"
  shows "route_tile sha t (''/v1/tile/0/'' @ value)
    = (case parseTileAddress value of None \<Rightarrow> Inr (JsonError 400 ''malformed tile path'')
       | Some a \<Rightarrow> handleTile sha t 0 a)"
proof -
  have "(of_char c :: nat) \<notin> {10, 13, 226}" if "c \<in> set value" for c
    using assms(1) that path_char_code [of c] by auto
  then have "\<forall>c \<in> set value. (of_char c :: nat) \<notin> {10, 13, 226}" by blast
  then have lt: "\<not> has_line_terminator value" by (rule no_line_terminator)
  have "match_rest ''/v1/tile/entries/'' (''/v1/tile/0/'' @ value) = None"
    by (simp add: match_rest_def starts_with_def)
  moreover have "match_level (''/v1/tile/0/'' @ value) = Some (''0'', value)"
    using assms(2) lt
    by (simp add: match_level_def tile_prefix_def starts_with_def match_rest_def is_digit_def)
  moreover have "parseCanonicalDecimal ''0'' = Some 0"
    by (simp add: parseCanonicalDecimal_def canonical_decimal_def read_nat_def max_safe_integer_def)
  ultimately show ?thesis by (simp add: route_tile_def split: option.split)
qed

lemma unpack_hashes:
  assumes "\<forall>h \<in> set hs. length h = 32"
  shows "map (\<lambda>i. subarray (i * 32) ((i + 1) * 32) (concat hs)) [0 ..< length hs] = hs"
proof (rule nth_equalityI)
  fix i assume "i < length (map (\<lambda>i. subarray (i * 32) ((i + 1) * 32) (concat hs)) [0 ..< length hs])"
  then show "map (\<lambda>i. subarray (i * 32) ((i + 1) * 32) (concat hs)) [0 ..< length hs] ! i = hs ! i"
    using nth_concat_32 [OF assms, of i "[]"] by simp
qed simp

lemma fetch_tile_served:
  assumes sha: "\<And>x. length (sha x) = 32" and inv: "tree_inv sha t"
    and "to \<le> length (rawEntries t)" and "int (length (rawEntries t)) \<le> max_safe_integer" and "i * 256 < to"
    and base: "stripTrailingSlash b = base"
  shows "fetch_tile (log_fetch sha t base) b to i
    = Inr (take (min 256 (to - i * 256)) (drop (i * 256) (map (leafHash sha) (rawEntries t))))"
proof -
  let ?hs = "map (leafHash sha) (rawEntries t)" and ?w = "min 256 (to - i * 256)"
  have "int i \<le> max_safe_integer" using assms(3-5) by linarith
  from parse_encoded [OF this] obtain e where e: "encodeTileIndex i = Inr e" "e \<noteq> []" "\<forall>c \<in> set e. path_char c"
    "parseTileAddress e = Some \<lparr>ta_index = i, ta_width = None, ta_canonical = True\<rparr>"
    "\<And>w. 1 \<le> w \<Longrightarrow> w < TILE_SIZE \<Longrightarrow> parseTileAddress (e @ ''.p/'' @ show_nat w)
       = Some \<lparr>ta_index = i, ta_width = Some w, ta_canonical = True\<rparr>" by metis
  let ?path = "if ?w = 256 then e else e @ ''.p/'' @ show_nat ?w"
  let ?a = "\<lparr>ta_index = i, ta_width = (if ?w = 256 then None else Some ?w), ta_canonical = True\<rparr>"
  have w: "1 \<le> ?w" using assms(5) by simp
  have ne: "rawEntries t \<noteq> []" using assms(3, 5) by auto
  have parsed: "parseTileAddress ?path = Some ?a"
    using e(4) e(5) [OF w] by (auto simp: TILE_SIZE_def)
  have chars: "\<forall>c \<in> set ?path. path_char c \<or> c \<in> set ''.p''" "?path \<noteq> []"
    using e(2, 3) show_nat_digits [of _ ?w] by (auto simp: path_char_def)
  have "route_tile sha t (''/v1/tile/0/'' @ ?path) = handleTile sha t 0 ?a"
    using route_level_zero [OF chars] parsed by simp
  also have "\<dots> = Inr (tile_spec ?hs ?a)"
    using handleTile_spec [OF inv ne, of 0 ?a] by (simp add: level_nodes_eq)
  also have "tile_spec ?hs ?a = Binary (concat (take ?w (drop (i * 256) ?hs))) True"
    using assms(3, 5) by (auto simp: tile_spec_def Let_def TILE_SIZE_def resolveServedTileWidth_def min_def)
  finally have fetched: "log_fetch sha t base (base @ ''/v1/tile/0/'' @ ?path)
      = Inr (concat (take ?w (drop (i * 256) ?hs)))"
    by (simp add: log_fetch_def)
  let ?ts = "take ?w (drop (i * 256) ?hs)"
  have len: "length ?ts = ?w" using assms(3, 5) by auto
  have h32: "\<forall>h \<in> set ?ts. length h = 32"
    using sha by (auto simp: leafHash_def dest!: in_set_takeD in_set_dropD)
  have bytes: "length (concat ?ts) = ?w * 32" using length_concat_entries [OF h32] len by simp
  have "map (\<lambda>j. subarray (j * 32) ((j + 1) * 32) (concat ?ts)) [0 ..< ?w] = ?ts"
    using unpack_hashes [OF h32] unfolding len .
  with bytes fetched e(1) base show ?thesis
    unfolding fetch_tile_def Let_def by (simp only: rbind_simps if_True if_False simp_thms not_True_eq_False)
qed

lemma concat_tiles:
  assumes "a \<le> b" and "to \<le> length xs"
  shows "concat (map (\<lambda>i. take (min 256 (to - i * 256)) (drop (i * 256) xs)) [a ..< b])
    = take (min (b * 256) to - a * 256) (drop (a * 256) xs)"
  using assms(1)
proof (induction b rule: dec_induct)
  case (step b)
  have "take (min (Suc b * 256) to - a * 256) (drop (a * 256) xs)
      = take (min (b * 256) to - a * 256 + min 256 (to - b * 256)) (drop (a * 256) xs)"
    using step.hyps(1) by (intro arg_cong [of _ _ "\<lambda>n. take n (drop (a * 256) xs)"]) (auto simp: min_def)
  also have "\<dots> = take (min (b * 256) to - a * 256) (drop (a * 256) xs)
      @ take (min 256 (to - b * 256)) (drop (min (b * 256) to - a * 256) (drop (a * 256) xs))"
    by (rule take_add)
  also have "take (min 256 (to - b * 256)) (drop (min (b * 256) to - a * 256) (drop (a * 256) xs))
      = take (min 256 (to - b * 256)) (drop (b * 256) xs)"
    using step.hyps(1) by (cases "b * 256 \<le> to") (simp_all add: min_def)
  finally show ?case using step by simp
qed simp

lemma fetch_range_served:
  assumes sha: "\<And>x. length (sha x) = 32" and inv: "tree_inv sha t"
    and range: "from < to" "to \<le> length (rawEntries t)"
    and safe: "int (length (rawEntries t)) \<le> max_safe_integer"
  shows "fetchLeafHashRange (log_fetch sha t (stripTrailingSlash url)) url from to
    = Inr \<lparr>fr_appended = subarray from to (map (leafHash sha) (rawEntries t)),
           fr_overlap = (if from mod 256 = 0 then None
                         else Some (subarray (from - from mod 256) from (map (leafHash sha) (rawEntries t)))),
           fr_overlapStart = from - from mod 256\<rparr>"
proof -
  let ?hs = "map (leafHash sha) (rawEntries t)" and ?a = "from div 256" and ?b = "(to - 1) div 256 + 1"
  let ?tile = "\<lambda>i. take (min 256 (to - i * 256)) (drop (i * 256) ?hs)"
  have ab: "?a \<le> ?b" using range(1) by (simp add: div_le_mono le_SucI)
  have "to \<le> ?b * 256" using dividend_less_div_times [of 256 "to - 1"] range(1) by simp
  then have cover: "min (?b * 256) to = to" by simp
  have start: "?a * 256 = from - from mod 256" by (metis minus_mod_eq_div_mult)
  have le: "?a * 256 \<le> from" by (rule div_times_less_eq_dividend)
  have "map_result (fetch_tile (log_fetch sha t (stripTrailingSlash url)) url to) [?a ..< ?b] = Inr (map ?tile [?a ..< ?b])"
  proof (rule map_result_map, rule ballI)
    fix i assume "i \<in> set [?a ..< ?b]"
    then have "i \<le> (to - 1) div 256" by auto
    then have "i * 256 < to" using range(1) by (simp add: less_eq_div_iff_mult_less_eq)
    then show "fetch_tile (log_fetch sha t (stripTrailingSlash url)) url to i = Inr (?tile i)"
      by (intro fetch_tile_served sha inv range(2) safe refl)
  qed
  moreover have "concat (map ?tile [?a ..< ?b]) = take (to - ?a * 256) (drop (?a * 256) ?hs)"
    using concat_tiles [OF ab, of to ?hs] range(2) unfolding cover by simp
  moreover have "drop (from - ?a * 256) (take (to - ?a * 256) (drop (?a * 256) ?hs)) = subarray from to ?hs"
    using le range(1) by (simp only: subarray_def drop_take drop_drop) simp
  moreover have "take (from - ?a * 256) (take (to - ?a * 256) (drop (?a * 256) ?hs)) = subarray (?a * 256) from ?hs"
    using range(1) by (simp only: subarray_def take_take min_absorb1 diff_le_mono less_imp_le)
  moreover have "from - (from - from mod 256) = from mod 256" by simp
  ultimately show ?thesis using range(1) unfolding start
    by (simp only: fetchLeafHashRange_def Let_def start rbind_simps) (simp del: take_map drop_map)
qed

text \<open>An honest network answers every range query of a witness with exactly the log's leaf hashes of that
  range, together with the hashes before it that lie in the same tile and the index where those begin.\<close>

theorem tile_fetch_complete:
  assumes sha: "\<And>x. length (sha x) = 32" and inv: "tree_inv sha t"
    and range: "from < to" "to \<le> length (rawEntries t)"
    and safe: "int (length (rawEntries t)) \<le> max_safe_integer"
  shows "fetchLeafHashRange (log_fetch sha t (stripTrailingSlash url)) url from to
    = Inr \<lparr>fr_appended = subarray from to (map (leafHash sha) (rawEntries t)),
           fr_overlap = (if from mod 256 = 0 then None
                         else Some (subarray (from - from mod 256) from (map (leafHash sha) (rawEntries t)))),
           fr_overlapStart = from - from mod 256\<rparr>"
  using assms by (rule fetch_range_served)

theorem tile_fetch_complete_witness:
  "\<exists>t. rawEntries t = [[1], [2], [3]]
    \<and> fetchLeafHashRange (log_fetch pad32 t ''log'') ''log/'' 1 3
        = Inr \<lparr>fr_appended = [leafHash pad32 [2], leafHash pad32 [3]],
               fr_overlap = Some [leafHash pad32 [1]], fr_overlapStart = 0\<rparr>"
proof -
  obtain t where t: "tree_inv pad32 t" "rawEntries t = [[1], [2], [3]]" using tree_of_entries by blast
  have "stripTrailingSlash ''log/'' = ''log''" by (simp add: stripTrailingSlash_def)
  moreover have "length (pad32 x) = 32" for x by (rule length_pad32)
  ultimately show ?thesis using tile_fetch_complete [of pad32 t 1 3 "''log/''"] t
    by (auto simp: subarray_def max_safe_integer_def)
qed

text \<open>Every tile path a witness builds, whole or partial, is read back by the log as the same index and
  width, and is recognised as canonical.\<close>

theorem tile_address_roundtrip:
  assumes "int index \<le> max_safe_integer"
  shows "\<exists>path. encodeTileIndex index = Inr path
    \<and> parseTileAddress path = Some \<lparr>ta_index = index, ta_width = None, ta_canonical = True\<rparr>
    \<and> (\<forall>w \<in> {1 ..< TILE_SIZE}. parseTileAddress (path @ ''.p/'' @ show_nat w)
         = Some \<lparr>ta_index = index, ta_width = Some w, ta_canonical = True\<rparr>)"
  using parse_encoded [OF assms] by (metis atLeastLessThan_iff)

theorem tile_address_roundtrip_witness:
  "encodeTileIndex 1067 = Inr ''x001/067''
    \<and> parseTileAddress ''x001/067.p/12'' = Some \<lparr>ta_index = 1067, ta_width = Some 12, ta_canonical = True\<rparr>"
proof -
  have e: "encodeTileIndex 1067 = Inr ''x001/067''"
    by (simp add: encodeTileIndex_def show_nat.simps chunks.simps max_safe_integer_def digit_char_def numeral_2_eq_2 char_of_def bit_Suc_0_iff)
  have s: "show_nat 12 = ''12''" by (simp add: show_nat.simps digit_char_def char_of_def bit_Suc_0_iff)
  from tile_address_roundtrip [of 1067] e
  have "\<forall>w \<in> {1 ..< TILE_SIZE}. parseTileAddress (''x001/067'' @ ''.p/'' @ show_nat w)
      = Some \<lparr>ta_index = 1067, ta_width = Some w, ta_canonical = True\<rparr>"
    by (simp add: max_safe_integer_def)
  moreover have "12 \<in> {1 ..< TILE_SIZE}" by (simp add: TILE_SIZE_def)
  ultimately have "parseTileAddress (''x001/067'' @ ''.p/'' @ show_nat 12)
      = Some \<lparr>ta_index = 1067, ta_width = Some 12, ta_canonical = True\<rparr>" by blast
  with e s show ?thesis by simp
qed

end
