(* ===== verification/Gossip.thy ===== *)
theory Gossip
  imports Witness
begin

text \<open>
  Checkpoint gossip (\<open>packages/verify/src/checkpoint-gossip.ts\<close>): \<open>analyzeCheckpointGossip\<close> verifies
  observations of one operator's checkpoints, compares every pair of them and reports split views
  and rollbacks. \<open>localeCompare\<close> depends on the locale data of the host and is an argument.
\<close>

datatype leaf_value = LeafBytes bytes | LeafText string

record CheckpointGossipObservation =
  go_source_id :: string
  go_observed_at_ms :: rat
  go_checkpoint_note :: string
  go_leaf_hashes :: "leaf_value list option"

record VerifiedCheckpointGossipObservation =
  vo_source_id :: string
  vo_observed_at_ms :: int
  vo_checkpoint_hash :: string
  vo_origin :: string
  vo_tree_size :: nat
  vo_root_hash_base64url :: string
  vo_leaf_hashes_verified :: bool
  vo_leafHashes :: "bytes list option"

datatype CheckpointGossipIssueCode =
  Source_id_invalid | Observed_at_invalid | Checkpoint_invalid | Leaf_hashes_invalid

record CheckpointGossipIssue =
  gi_source_id :: string
  gi_code :: CheckpointGossipIssueCode
  gi_message :: string

datatype CheckpointGossipIncidentKind = Same_size_split_view | Prefix_split_view | Source_rollback

record incident_observation =
  io_source_id :: string
  io_observed_at_ms :: int
  io_checkpoint_hash :: string
  io_tree_size :: nat
  io_root_hash_base64url :: string

record CheckpointGossipIncident =
  ic_schema :: string
  ic_incident_id :: string
  ic_kind :: CheckpointGossipIncidentKind
  ic_origin :: string
  ic_sources :: "string list"
  ic_observations :: "incident_observation list"

datatype gossip_status = Consistent | Conflict | Inconclusive | Invalid

record CheckpointGossipReport =
  gr_status :: gossip_status
  gr_observations :: "VerifiedCheckpointGossipObservation list"
  gr_issues :: "CheckpointGossipIssue list"
  gr_incidents :: "CheckpointGossipIncident list"
  gr_compared_pairs :: nat
  gr_uncompared_pairs :: nat

section \<open>Helpers\<close>

definition hashText :: "(bytes \<Rightarrow> bytes) \<Rightarrow> string \<Rightarrow> string" where
  "hashText sha value = ''sha256:'' @ hexEncode (sha (encode_utf8 value))"

definition hashCanonical :: "(bytes \<Rightarrow> bytes) \<Rightarrow> (json \<Rightarrow> string option) \<Rightarrow> json \<Rightarrow> string result" where
  "hashCanonical sha canon value =
     (case canon value of
        None \<Rightarrow> Inl ''checkpoint gossip canonicalization produced undefined''
      | Some json \<Rightarrow> Inr (hashText sha json))"

text \<open>\<open>Buffer.from(value, 'base64url')\<close> decodes as \<open>'base64'\<close> does.\<close>

fun normalizeLeafHash :: "leaf_value \<Rightarrow> bytes result" where
  "normalizeLeafHash (LeafBytes value) =
     (if length value \<noteq> 32 then Inl ''leaf hash must be 32 bytes'' else Inr value)"
| "normalizeLeafHash (LeafText value) =
     (if \<not> (length value = 43 \<and> list_all is_b64url_char value)
      then Inl ''leaf hash must be canonical unpadded base64url''
      else let bytes = buffer_from_base64 value
        in if length bytes \<noteq> 32 \<or> base64urlEncode bytes \<noteq> value
           then Inl ''leaf hash must decode to 32 canonical bytes''
           else Inr bytes)"

text \<open>Reading past the end of an array gives \<open>undefined\<close>, whose length the comparison reads.\<close>

fun hashArraysEqual :: "bytes list \<Rightarrow> bytes list \<Rightarrow> nat \<Rightarrow> bool result" where
  "hashArraysEqual left right 0 = Inr True"
| "hashArraysEqual (x # xs) (y # ys) (Suc n) =
     (if \<not> bytesEqual x y then Inr False else hashArraysEqual xs ys n)"
| "hashArraysEqual _ _ (Suc n) = Inl ''TypeError''"

definition incidentObservation :: "VerifiedCheckpointGossipObservation \<Rightarrow> incident_observation" where
  "incidentObservation o' =
     \<lparr>io_source_id = vo_source_id o', io_observed_at_ms = vo_observed_at_ms o',
      io_checkpoint_hash = vo_checkpoint_hash o', io_tree_size = vo_tree_size o',
      io_root_hash_base64url = vo_root_hash_base64url o'\<rparr>"

definition compareObservation ::
  "(string \<Rightarrow> string \<Rightarrow> int) \<Rightarrow> VerifiedCheckpointGossipObservation \<Rightarrow> VerifiedCheckpointGossipObservation \<Rightarrow> int" where
  "compareObservation lc left right =
     cmp_or (lc (vo_origin left) (vo_origin right))
       (cmp_or (lc (vo_source_id left) (vo_source_id right))
         (cmp_or (vo_observed_at_ms left - vo_observed_at_ms right)
           (lc (vo_checkpoint_hash left) (vo_checkpoint_hash right))))"

definition compareIncidentObservation ::
  "(string \<Rightarrow> string \<Rightarrow> int) \<Rightarrow> incident_observation \<Rightarrow> incident_observation \<Rightarrow> int" where
  "compareIncidentObservation lc left right =
     cmp_or (lc (io_source_id left) (io_source_id right))
       (cmp_or (io_observed_at_ms left - io_observed_at_ms right)
         (lc (io_checkpoint_hash left) (io_checkpoint_hash right)))"

definition kind_text :: "CheckpointGossipIncidentKind \<Rightarrow> string" where
  "kind_text k = (case k of Same_size_split_view \<Rightarrow> ''same_size_split_view''
     | Prefix_split_view \<Rightarrow> ''prefix_split_view'' | Source_rollback \<Rightarrow> ''source_rollback'')"

definition incident_schema :: string where
  "incident_schema = ''atrib.checkpoint-gossip-incident.v1''"

text \<open>The value whose canonical form is hashed to the incident id: the times are left out.\<close>

definition incident_value ::
  "CheckpointGossipIncidentKind \<Rightarrow> string \<Rightarrow> string list \<Rightarrow> incident_observation list \<Rightarrow> json" where
  "incident_value kind origin sources obs =
     JObj [(''schema'', JStr incident_schema), (''kind'', JStr (kind_text kind)),
       (''origin'', JStr origin), (''sources'', JArr (map JStr sources)),
       (''observations'', JArr (map (\<lambda>o'. JObj
          [(''source_id'', JStr (io_source_id o')), (''checkpoint_hash'', JStr (io_checkpoint_hash o')),
           (''tree_size'', JNum (of_nat (io_tree_size o'))),
           (''root_hash_base64url'', JStr (io_root_hash_base64url o'))]) obs))]"

text \<open>The incidents so far and the set of their ids.\<close>

type_synonym incident_state = "CheckpointGossipIncident list \<times> string list"

definition addIncident ::
  "(bytes \<Rightarrow> bytes) \<Rightarrow> (json \<Rightarrow> string option) \<Rightarrow> (string \<Rightarrow> string \<Rightarrow> int) \<Rightarrow> CheckpointGossipIncidentKind \<Rightarrow> string
   \<Rightarrow> VerifiedCheckpointGossipObservation \<Rightarrow> VerifiedCheckpointGossipObservation
   \<Rightarrow> incident_state \<Rightarrow> incident_state result" where
  "addIncident sha canon lc kind origin left right = (\<lambda>(incidents, keys).
     let observations = sort_by (compareIncidentObservation lc) [incidentObservation left, incidentObservation right];
         sources = sort_by cmp_string (remdups (map io_source_id observations))
     in rbind (hashCanonical sha canon (incident_value kind origin sources observations)) (\<lambda>incidentId.
          if incidentId \<in> set keys then Inr (incidents, keys)
          else Inr (incidents @ [\<lparr>ic_schema = incident_schema, ic_incident_id = incidentId, ic_kind = kind,
                      ic_origin = origin, ic_sources = sources, ic_observations = observations\<rparr>],
                    keys @ [incidentId])))"

section \<open>Verifying observations\<close>

definition issue :: "string \<Rightarrow> CheckpointGossipIssueCode \<Rightarrow> string \<Rightarrow> CheckpointGossipIssue" where
  "issue source code message = \<lparr>gi_source_id = source, gi_code = code, gi_message = message\<rparr>"

definition leaf_view ::
  "(bytes \<Rightarrow> bytes) \<Rightarrow> ParsedCheckpointNote \<Rightarrow> leaf_value list option \<Rightarrow> bytes list option result" where
  "leaf_view sha checkpoint leaf_hashes =
     (case leaf_hashes of
        None \<Rightarrow> Inr None
      | Some vs \<Rightarrow>
          rbind (map_result normalizeLeafHash vs) (\<lambda>leafHashes.
            if length leafHashes \<noteq> cn_treeSize checkpoint
            then Inl ''leaf hashes do not reconstruct the signed checkpoint root''
            else rbind (checkpointRootFromLeafHashes sha leafHashes) (\<lambda>r.
              if \<not> bytesEqual r (cn_rootHash checkpoint)
              then Inl ''leaf hashes do not reconstruct the signed checkpoint root''
              else Inr (Some leafHashes))))"

definition verify_observation ::
  "(bytes \<Rightarrow> bytes) \<Rightarrow> (bytes \<Rightarrow> bytes \<Rightarrow> bytes \<Rightarrow> bool) \<Rightarrow> TrustedCheckpointKey \<Rightarrow> CheckpointGossipObservation
   \<Rightarrow> CheckpointGossipIssue + VerifiedCheckpointGossipObservation" where
  "verify_observation sha ed_verify operatorKey obs =
     (let source = go_source_id obs
      in if source = [] \<or> nl \<in> set source \<or> CHR 0x0D \<in> set source
         then Inl (issue source Source_id_invalid ''source_id must be non-empty and single-line'')
         else if \<not> is_integer (go_observed_at_ms obs) \<or> \<not> is_safe_integer (int_part (go_observed_at_ms obs))
                \<or> go_observed_at_ms obs < 0
         then Inl (issue source Observed_at_invalid ''observed_at_ms must be a non-negative safe integer'')
         else case verifyOperatorCheckpoint sha ed_verify (go_checkpoint_note obs) operatorKey of
           Inl reason \<Rightarrow> Inl (issue source Checkpoint_invalid reason)
         | Inr checkpoint \<Rightarrow>
             (case leaf_view sha checkpoint (go_leaf_hashes obs) of
                Inl message \<Rightarrow> Inl (issue source Leaf_hashes_invalid message)
              | Inr leafHashes \<Rightarrow>
                  Inr \<lparr>vo_source_id = source, vo_observed_at_ms = int_part (go_observed_at_ms obs),
                       vo_checkpoint_hash = hashText sha (go_checkpoint_note obs),
                       vo_origin = cn_origin checkpoint, vo_tree_size = cn_treeSize checkpoint,
                       vo_root_hash_base64url = base64urlEncode (cn_rootHash checkpoint),
                       vo_leaf_hashes_verified = (leafHashes \<noteq> None), vo_leafHashes = leafHashes\<rparr>))"

section \<open>Comparing them\<close>

fun pairs :: "'a list \<Rightarrow> ('a \<times> 'a) list" where
  "pairs [] = []"
| "pairs (x # xs) = map (Pair x) xs @ pairs xs"

text \<open>State of the pair loop: incidents, compared and uncompared pairs.\<close>

type_synonym pair_state = "incident_state \<times> nat \<times> nat"

definition compare_pair ::
  "(bytes \<Rightarrow> bytes) \<Rightarrow> (json \<Rightarrow> string option) \<Rightarrow> (string \<Rightarrow> string \<Rightarrow> int)
   \<Rightarrow> VerifiedCheckpointGossipObservation \<times> VerifiedCheckpointGossipObservation \<Rightarrow> pair_state \<Rightarrow> pair_state result" where
  "compare_pair sha canon lc = (\<lambda>(left, right) (inc, compared, uncompared).
     if vo_origin left \<noteq> vo_origin right then Inr (inc, compared, uncompared + 1)
     else if vo_tree_size left = vo_tree_size right
     then (if vo_root_hash_base64url left \<noteq> vo_root_hash_base64url right
           then rbind (addIncident sha canon lc Same_size_split_view (vo_origin left) left right inc)
                  (\<lambda>inc'. Inr (inc', compared + 1, uncompared))
           else Inr (inc, compared + 1, uncompared))
     else (case (vo_leafHashes left, vo_leafHashes right) of
             (Some l, Some r) \<Rightarrow>
               rbind (hashArraysEqual l r (min (vo_tree_size left) (vo_tree_size right))) (\<lambda>same.
                 if \<not> same
                 then rbind (addIncident sha canon lc Prefix_split_view (vo_origin left) left right inc)
                        (\<lambda>inc'. Inr (inc', compared + 1, uncompared))
                 else Inr (inc, compared + 1, uncompared))
           | _ \<Rightarrow> Inr (inc, compared, uncompared + 1)))"

definition by_source ::
  "VerifiedCheckpointGossipObservation list \<Rightarrow> (string, VerifiedCheckpointGossipObservation list) jsmap" where
  "by_source verified =
     fold (\<lambda>o' m. AList.update (vo_source_id o')
        ((case map_of m (vo_source_id o') of None \<Rightarrow> [] | Some h \<Rightarrow> h) @ [o']) m) verified []"

definition history_order ::
  "(string \<Rightarrow> string \<Rightarrow> int) \<Rightarrow> VerifiedCheckpointGossipObservation \<Rightarrow> VerifiedCheckpointGossipObservation \<Rightarrow> int" where
  "history_order lc left right =
     cmp_or (vo_observed_at_ms left - vo_observed_at_ms right)
       (lc (vo_checkpoint_hash left) (vo_checkpoint_hash right))"

fun rollbacks ::
  "(bytes \<Rightarrow> bytes) \<Rightarrow> (json \<Rightarrow> string option) \<Rightarrow> (string \<Rightarrow> string \<Rightarrow> int)
   \<Rightarrow> VerifiedCheckpointGossipObservation list \<Rightarrow> incident_state \<Rightarrow> incident_state result" where
  "rollbacks sha canon lc (prior # current # rest) inc =
     rbind (if vo_tree_size current < vo_tree_size prior
            then addIncident sha canon lc Source_rollback (vo_origin current) prior current inc
            else Inr inc)
       (rollbacks sha canon lc (current # rest))"
| "rollbacks sha canon lc _ inc = Inr inc"

definition split_verified ::
  "('i + 'v) list \<Rightarrow> 'i list \<times> 'v list" where
  "split_verified rs = (concat (map (case_sum (\<lambda>i. [i]) (\<lambda>_. [])) rs), concat (map (case_sum (\<lambda>_. []) (\<lambda>v. [v])) rs))"

definition analyzeCheckpointGossip ::
  "(bytes \<Rightarrow> bytes) \<Rightarrow> (json \<Rightarrow> string option) \<Rightarrow> (bytes \<Rightarrow> bytes \<Rightarrow> bytes \<Rightarrow> bool) \<Rightarrow> (string \<Rightarrow> string \<Rightarrow> int)
   \<Rightarrow> CheckpointGossipObservation list \<Rightarrow> TrustedCheckpointKey \<Rightarrow> CheckpointGossipReport result" where
  "analyzeCheckpointGossip sha canon ed_verify lc observations operatorKey =
     (let (issues, accepted) = split_verified (map (verify_observation sha ed_verify operatorKey) observations);
          verified = sort_by (compareObservation lc) accepted
      in rbind (fold_result (compare_pair sha canon lc) (pairs verified) (([], []), 0, 0))
           (\<lambda>(inc, compared, uncompared).
         rbind (fold_result (\<lambda>(_, history). rollbacks sha canon lc (sort_by (history_order lc) history))
                  (by_source verified) inc) (\<lambda>(found, _).
         let incidents = sort_by (\<lambda>a b. lc (ic_incident_id a) (ic_incident_id b)) found
         in Inr \<lparr>gr_status = (if incidents \<noteq> [] then Conflict else if issues \<noteq> [] then Invalid
                               else if 0 < uncompared then Inconclusive else Consistent),
                 gr_observations = map (vo_leafHashes_update (\<lambda>_. None)) verified,
                 gr_issues = issues, gr_incidents = incidents,
                 gr_compared_pairs = compared, gr_uncompared_pairs = uncompared\<rparr>)))"

section \<open>Lemmas\<close>

definition incidents_ok :: "incident_state \<Rightarrow> bool" where
  "incidents_ok = (\<lambda>(incs, keys). keys = map ic_incident_id incs)"

lemma addIncident_Inr:
  assumes "addIncident sha canon lc kind origin l r inc = Inr inc'" and "incidents_ok inc"
  shows "incidents_ok inc' \<and> fst inc' \<noteq> []"
  using assms
  by (cases inc) (auto simp: addIncident_def incidents_ok_def Let_def rbind_Inr_iff split: if_splits)

lemma hashCanonical_total: "canon x \<noteq> None \<Longrightarrow> hashCanonical sha canon x \<noteq> Inl e"
  by (auto simp: hashCanonical_def)

lemma addIncident_total:
  assumes "\<forall>v. canon v \<noteq> None"
  shows "\<exists>inc'. addIncident sha canon lc kind origin l r inc = Inr inc'"
proof -
  obtain incs keys where inc: "inc = (incs, keys)" by (cases inc)
  have "addIncident sha canon lc kind origin l r inc \<noteq> Inl e" for e
    using hashCanonical_total [OF assms [rule_format]]
    by (auto simp: inc addIncident_def Let_def rbind_def split: sum.split)
  then show ?thesis by (cases "addIncident sha canon lc kind origin l r inc") auto
qed

text \<open>What a pair must satisfy for the comparison to find no incident in it.\<close>

definition no_split ::
  "VerifiedCheckpointGossipObservation \<Rightarrow> VerifiedCheckpointGossipObservation \<Rightarrow> bool" where
  "no_split v w \<longleftrightarrow>
     (vo_origin v = vo_origin w \<longrightarrow>
        (vo_tree_size v = vo_tree_size w \<longrightarrow> vo_root_hash_base64url v = vo_root_hash_base64url w)
        \<and> (\<forall>l r. vo_leafHashes v = Some l \<and> vo_leafHashes w = Some r \<and> vo_tree_size v \<noteq> vo_tree_size w
             \<longrightarrow> take (min (vo_tree_size v) (vo_tree_size w)) l = take (min (vo_tree_size v) (vo_tree_size w)) r))"

definition comparable ::
  "VerifiedCheckpointGossipObservation \<Rightarrow> VerifiedCheckpointGossipObservation \<Rightarrow> bool" where
  "comparable v w \<longleftrightarrow> vo_origin v = vo_origin w
     \<and> (vo_tree_size v = vo_tree_size w \<or> (vo_leafHashes v \<noteq> None \<and> vo_leafHashes w \<noteq> None))"

definition leaves_ok :: "VerifiedCheckpointGossipObservation \<Rightarrow> bool" where
  "leaves_ok v \<longleftrightarrow> (\<forall>l. vo_leafHashes v = Some l \<longrightarrow> length l = vo_tree_size v)"

lemma no_split_sym: "no_split v w \<longleftrightarrow> no_split w v"
  by (auto simp: no_split_def min.commute)

lemma comparable_sym: "comparable v w \<longleftrightarrow> comparable w v"
  by (auto simp: comparable_def)

lemma hashArraysEqual_eq:
  "n \<le> length l \<Longrightarrow> n \<le> length r \<Longrightarrow> hashArraysEqual l r n = Inr (take n l = take n r)"
  by (induction l r n rule: hashArraysEqual.induct) (auto simp: bytesEqual_iff)

lemma compare_pair_step:
  assumes "leaves_ok v" and "leaves_ok w" and "incidents_ok inc"
    and "compare_pair sha canon lc (v, w) (inc, c, u) = Inr (inc', c', u')"
  shows "incidents_ok inc'" and "fst inc' = [] \<Longrightarrow> fst inc = [] \<and> no_split v w"
    and "u' = 0 \<Longrightarrow> u = 0 \<and> comparable v w"
proof -
  have "incidents_ok inc' \<and> (fst inc' = [] \<longrightarrow> fst inc = [] \<and> no_split v w) \<and> (u' = 0 \<longrightarrow> u = 0 \<and> comparable v w)"
  proof (cases "vo_origin v = vo_origin w \<and> vo_tree_size v \<noteq> vo_tree_size w \<and> vo_leafHashes v \<noteq> None \<and> vo_leafHashes w \<noteq> None")
    case True
    then obtain l r where lr: "vo_leafHashes v = Some l" "vo_leafHashes w = Some r" by auto
    have "hashArraysEqual l r (min (vo_tree_size v) (vo_tree_size w))
        = Inr (take (min (vo_tree_size v) (vo_tree_size w)) l = take (min (vo_tree_size v) (vo_tree_size w)) r)"
      using assms(1, 2) lr by (intro hashArraysEqual_eq) (auto simp: leaves_ok_def)
    with True lr assms(3, 4) show ?thesis
      by (auto simp: compare_pair_def rbind_Inr_iff no_split_def comparable_def
          dest: addIncident_Inr split: if_splits)
  next
    case False
    with assms(3, 4) show ?thesis
      by (auto simp: compare_pair_def rbind_Inr_iff no_split_def comparable_def
          dest: addIncident_Inr split: if_splits option.splits)
  qed
  then show "incidents_ok inc'" "fst inc' = [] \<Longrightarrow> fst inc = [] \<and> no_split v w"
    "u' = 0 \<Longrightarrow> u = 0 \<and> comparable v w" by blast+
qed

lemma compare_pair_total:
  assumes "\<forall>v. canon v \<noteq> None" and "leaves_ok v" and "leaves_ok w"
  shows "\<exists>s'. compare_pair sha canon lc (v, w) s = Inr s'"
proof -
  obtain inc c u where s: "s = (inc, c, u)" by (cases s)
  have add: "\<exists>inc'. addIncident sha canon lc k o' v w inc = Inr inc'" for k o'
    by (rule addIncident_total [OF assms(1)])
  show ?thesis
  proof (cases "vo_leafHashes v = None \<or> vo_leafHashes w = None")
    case True
    with add [of Same_size_split_view "vo_origin w"] show ?thesis
      by (auto simp: s compare_pair_def rbind_Inr_iff split: option.split)
  next
    case False
    then obtain l r where lr: "vo_leafHashes v = Some l" "vo_leafHashes w = Some r" by auto
    have "hashArraysEqual l r (min (vo_tree_size v) (vo_tree_size w))
        = Inr (take (min (vo_tree_size v) (vo_tree_size w)) l = take (min (vo_tree_size v) (vo_tree_size w)) r)"
      using assms(2, 3) lr by (intro hashArraysEqual_eq) (auto simp: leaves_ok_def)
    with lr add [of Same_size_split_view "vo_origin w"] add [of Prefix_split_view "vo_origin w"] show ?thesis
      by (auto simp: s compare_pair_def rbind_Inr_iff)
  qed
qed

lemma compare_all:
  assumes "fold_result (compare_pair sha canon lc) ps (inc, c, u) = Inr (inc', c', u')"
    and "incidents_ok inc" and "\<forall>(v, w) \<in> set ps. leaves_ok v \<and> leaves_ok w"
  shows "incidents_ok inc' \<and> (fst inc' = [] \<longrightarrow> fst inc = [] \<and> (\<forall>(v, w) \<in> set ps. no_split v w))
    \<and> (u' = 0 \<longrightarrow> u = 0 \<and> (\<forall>(v, w) \<in> set ps. comparable v w))"
  using assms
proof (induction ps arbitrary: inc c u)
  case (Cons p ps)
  obtain v w where p: "p = (v, w)" by (cases p)
  from Cons.prems(1) obtain inc1 c1 u1 where
    first: "compare_pair sha canon lc (v, w) (inc, c, u) = Inr (inc1, c1, u1)"
    and rest: "fold_result (compare_pair sha canon lc) ps (inc1, c1, u1) = Inr (inc', c', u')"
    by (auto simp: p rbind_Inr_iff)
  have ok: "leaves_ok v" "leaves_ok w" using Cons.prems(3) by (simp_all add: p)
  note step = compare_pair_step [OF ok Cons.prems(2) first]
  have "\<forall>(v, w) \<in> set ps. leaves_ok v \<and> leaves_ok w" using Cons.prems(3) by simp
  from Cons.IH [OF rest step(1) this] step(2, 3) show ?case by (auto simp: p)
qed auto

lemma compare_all_total:
  assumes "\<forall>v. canon v \<noteq> None" and "\<forall>(v, w) \<in> set ps. leaves_ok v \<and> leaves_ok w"
  shows "\<exists>s'. fold_result (compare_pair sha canon lc) ps s = Inr s'"
  using assms(2)
proof (induction ps arbitrary: s)
  case (Cons p ps)
  obtain v w where p: "p = (v, w)" by (cases p)
  with Cons.prems obtain s1 where "compare_pair sha canon lc p s = Inr s1"
    using compare_pair_total [OF assms(1), of v w sha lc s] by auto
  with Cons show ?case by simp
qed (metis fold_result.simps(1))

lemma rollbacks_ok:
  assumes "rollbacks sha canon lc h inc = Inr inc'" and "incidents_ok inc"
  shows "incidents_ok inc' \<and> (fst inc' = [] \<longrightarrow> fst inc = [] \<and> sorted (map vo_tree_size h))"
  using assms
proof (induction sha canon lc h inc rule: rollbacks.induct)
  case (1 sha canon lc prior current rest inc)
  from "1.prems"(1) obtain inc1 where
    first: "(if vo_tree_size current < vo_tree_size prior
             then addIncident sha canon lc Source_rollback (vo_origin current) prior current inc else Inr inc) = Inr inc1"
    and rest: "rollbacks sha canon lc (current # rest) inc1 = Inr inc'"
    by (auto simp: rbind_Inr_iff)
  have s1: "incidents_ok inc1 \<and> (fst inc1 = [] \<longrightarrow> fst inc = [] \<and> vo_tree_size prior \<le> vo_tree_size current)"
    using first "1.prems"(2) by (auto dest: addIncident_Inr split: if_splits)
  from "1.IH" [OF first rest] s1 show ?case by fastforce
qed auto

lemma rollbacks_total:
  "\<forall>v. canon v \<noteq> None \<Longrightarrow> \<exists>inc'. rollbacks sha canon lc h inc = Inr inc'"
proof (induction sha canon lc h inc rule: rollbacks.induct)
  case (1 sha canon lc prior current rest inc)
  obtain inc1 where "(if vo_tree_size current < vo_tree_size prior
      then addIncident sha canon lc Source_rollback (vo_origin current) prior current inc else Inr inc) = Inr inc1"
    using addIncident_total [OF "1.prems", of sha lc Source_rollback "vo_origin current" prior current inc]
    by (cases "vo_tree_size current < vo_tree_size prior") auto
  with "1.IH" [OF this "1.prems"] show ?case by simp
qed auto

lemma histories_ok:
  assumes "fold_result (\<lambda>(_, h). rollbacks sha canon lc (g h)) m inc = Inr inc'" and "incidents_ok inc"
  shows "incidents_ok inc' \<and> (fst inc' = [] \<longrightarrow> fst inc = [] \<and> (\<forall>(k, h) \<in> set m. sorted (map vo_tree_size (g h))))"
  using assms
proof (induction m arbitrary: inc)
  case (Cons kh m)
  obtain k h where kh: "kh = (k, h)" by (cases kh)
  from Cons.prems(1) obtain inc1 where "rollbacks sha canon lc (g h) inc = Inr inc1"
    and rest: "fold_result (\<lambda>(_, h). rollbacks sha canon lc (g h)) m inc1 = Inr inc'"
    by (auto simp: kh rbind_Inr_iff)
  with rollbacks_ok [OF this(1) Cons.prems(2)] Cons.IH [OF rest] show ?case by (auto simp: kh)
qed auto

lemma histories_total:
  "\<forall>v. canon v \<noteq> None \<Longrightarrow>
   \<exists>inc'. fold_result (\<lambda>(_, h). rollbacks sha canon lc (g h)) m inc = Inr inc'"
proof (induction m arbitrary: inc)
  case (Cons kh m)
  obtain inc1 where "rollbacks sha canon lc (g (snd kh)) inc = Inr inc1"
    using rollbacks_total [OF Cons.prems] by blast
  with Cons show ?case by (simp add: case_prod_beta)
qed simp

lemma pairs_cover: "v \<in> set xs \<Longrightarrow> w \<in> set xs \<Longrightarrow> v \<noteq> w \<Longrightarrow> (v, w) \<in> set (pairs xs) \<or> (w, v) \<in> set (pairs xs)"
  by (induction xs) auto

lemma pairs_mem: "(v, w) \<in> set (pairs xs) \<Longrightarrow> v \<in> set xs \<and> w \<in> set xs"
  by (induction xs) auto

lemma by_source_mem:
  assumes "v \<in> set vs"
  shows "\<exists>h. map_of (by_source vs) (vo_source_id v) = Some h \<and> (\<forall>w \<in> set vs. vo_source_id w = vo_source_id v \<longrightarrow> w \<in> set h)"
proof -
  let ?step = "\<lambda>o' m. AList.update (vo_source_id o')
     ((case map_of m (vo_source_id o') of None \<Rightarrow> [] | Some h \<Rightarrow> h) @ [o']) m"
  have "\<forall>k. set (case map_of (fold ?step vs m) k of None \<Rightarrow> [] | Some h \<Rightarrow> h)
      = set (case map_of m k of None \<Rightarrow> [] | Some h \<Rightarrow> h) \<union> {w \<in> set vs. vo_source_id w = k}" for m
  proof (induction vs arbitrary: m)
    case (Cons a vs)
    then show ?case by (auto simp: jsmap_simps update_conv' split: option.splits)
  qed simp
  from spec [OF this [of "[]"], of "vo_source_id v"]
  have "set (case map_of (by_source vs) (vo_source_id v) of None \<Rightarrow> [] | Some h \<Rightarrow> h)
      = {w \<in> set vs. vo_source_id w = vo_source_id v}"
    by (simp add: by_source_def)
  with assms show ?thesis
    by (cases "map_of (by_source vs) (vo_source_id v)") auto
qed

lemma verify_observation_leaves: "verify_observation sha ed_verify key a = Inr v \<Longrightarrow> leaves_ok v"
  by (auto simp: verify_observation_def leaves_ok_def leaf_view_def Let_def rbind_Inr_iff
      split: if_splits sum.splits option.splits)

lemma split_verified_set:
  "set (snd (split_verified (map f xs))) = {v. \<exists>a \<in> set xs. f a = Inr v}"
  "fst (split_verified (map f xs)) = [] \<longleftrightarrow> (\<forall>a \<in> set xs. \<exists>v. f a = Inr v)"
  by (induction xs) (auto simp: split_verified_def split: sum.splits)

text \<open>The report, in terms of the accepted observations.\<close>

lemma analyze_Inr:
  assumes "analyzeCheckpointGossip sha canon ed_verify lc observations key = Inr rep"
    and "V = {v. \<exists>a \<in> set observations. verify_observation sha ed_verify key a = Inr v}"
  shows "(gr_incidents rep = [] \<longrightarrow> (\<forall>v \<in> V. \<forall>w \<in> V. no_split v w)
        \<and> (\<forall>v \<in> V. \<forall>w \<in> V. vo_source_id v = vo_source_id w \<and> vo_observed_at_ms v < vo_observed_at_ms w
             \<longrightarrow> vo_tree_size v \<le> vo_tree_size w))
    \<and> (gr_uncompared_pairs rep = 0 \<longrightarrow> (\<forall>v \<in> V. \<forall>w \<in> V. v \<noteq> w \<longrightarrow> comparable v w))
    \<and> (gr_issues rep = [] \<longleftrightarrow> (\<forall>a \<in> set observations. \<exists>v. verify_observation sha ed_verify key a = Inr v))
    \<and> gr_status rep = (if gr_incidents rep \<noteq> [] then Conflict else if gr_issues rep \<noteq> [] then Invalid
         else if 0 < gr_uncompared_pairs rep then Inconclusive else Consistent)"
proof -
  let ?sp = "split_verified (map (verify_observation sha ed_verify key) observations)"
  define vs where "vs = sort_by (compareObservation lc) (snd ?sp)"
  have V: "set vs = V" by (simp add: vs_def split_verified_set assms(2))
  from assms(1) obtain inc c u inc' where
    cmp: "fold_result (compare_pair sha canon lc) (pairs vs) (([], []), 0, 0) = Inr (inc, c, u)"
    and roll: "fold_result (\<lambda>(_, h). rollbacks sha canon lc (sort_by (history_order lc) h)) (by_source vs) inc = Inr inc'"
    and rep: "gr_incidents rep = sort_by (\<lambda>a b. lc (ic_incident_id a) (ic_incident_id b)) (fst inc')"
      "gr_uncompared_pairs rep = u" "gr_issues rep = fst ?sp"
      "gr_status rep = (if gr_incidents rep \<noteq> [] then Conflict else if gr_issues rep \<noteq> [] then Invalid
         else if 0 < gr_uncompared_pairs rep then Inconclusive else Consistent)"
    unfolding analyzeCheckpointGossip_def vs_def by (auto simp: case_prod_beta rbind_Inr_iff Let_def)
  have leaves: "\<forall>v \<in> set vs. leaves_ok v"
    unfolding V assms(2) using verify_observation_leaves by blast
  have "\<forall>(v, w) \<in> set (pairs vs). leaves_ok v \<and> leaves_ok w" using leaves pairs_mem by fast
  note c1 = compare_all [OF cmp _ this]
  have ok: "incidents_ok inc" "fst inc = [] \<Longrightarrow> \<forall>(v, w) \<in> set (pairs vs). no_split v w"
    "u = 0 \<Longrightarrow> \<forall>(v, w) \<in> set (pairs vs). comparable v w"
    using c1 by (auto simp: incidents_ok_def)
  have h1: "fst inc' = [] \<longrightarrow> fst inc = [] \<and>
      (\<forall>(k, h) \<in> set (by_source vs). sorted (map vo_tree_size (sort_by (history_order lc) h)))"
    using histories_ok [OF roll ok(1)] by blast
  have empty: "gr_incidents rep = [] \<longleftrightarrow> fst inc' = []"
    by (metis rep(1) length_0_conv length_sort_by)
  have split: "no_split v w" if "gr_incidents rep = []" "v \<in> V" "w \<in> V" for v w
  proof (cases "v = w")
    case False
    with that V have "(v, w) \<in> set (pairs vs) \<or> (w, v) \<in> set (pairs vs)" using pairs_cover by metis
    moreover have "\<forall>(v, w) \<in> set (pairs vs). no_split v w" using that(1) empty h1 ok(2) by blast
    ultimately show ?thesis using no_split_sym [of v w] by blast
  qed (simp add: no_split_def)
  have mono: "vo_tree_size v \<le> vo_tree_size w"
    if "gr_incidents rep = []" "v \<in> V" "w \<in> V" "vo_source_id v = vo_source_id w"
      "vo_observed_at_ms v < vo_observed_at_ms w" for v w
  proof -
    note prems = that
    obtain h where h: "map_of (by_source vs) (vo_source_id v) = Some h" "v \<in> set h" "w \<in> set h"
      using by_source_mem [of v vs] prems(2-4) V by metis
    let ?h = "sort_by (history_order lc) h"
    have sz: "sorted (map vo_tree_size ?h)"
      using h1 empty that(1) map_of_SomeD [OF h(1)] by auto
    have "sorted_wrt (\<lambda>a b. vo_observed_at_ms a \<le> vo_observed_at_ms b) ?h"
      by (rule sorted_sort_by) (auto simp: history_order_def cmp_or_def split: if_splits)
    then have tm: "sorted (map vo_observed_at_ms ?h)" by (simp add: sorted_map)
    obtain i j where ij: "i < length ?h" "?h ! i = v" "j < length ?h" "?h ! j = w"
      using h(2, 3) by (metis in_set_conv_nth set_sort_by)
    have "i < j"
    proof (rule ccontr)
      assume "\<not> i < j"
      with tm ij have "vo_observed_at_ms w \<le> vo_observed_at_ms v"
        by (metis length_map linorder_not_less nth_map sorted_nth_mono)
      with that(5) show False by simp
    qed
    with sz ij show ?thesis by (metis length_map less_imp_le_nat nth_map sorted_nth_mono)
  qed
  have "comparable v w" if "gr_uncompared_pairs rep = 0" "v \<in> V" "w \<in> V" "v \<noteq> w" for v w
    using that V ok(3) rep(2) pairs_cover [of v vs w] comparable_sym [of v w] by auto
  with split mono rep(3, 4) show ?thesis by (simp add: split_verified_set(2))
qed

lemma analyze_total:
  assumes "\<forall>v. canon v \<noteq> None"
  shows "\<exists>rep. analyzeCheckpointGossip sha canon ed_verify lc observations key = Inr rep"
proof -
  let ?sp = "split_verified (map (verify_observation sha ed_verify key) observations)"
  define vs where "vs = sort_by (compareObservation lc) (snd ?sp)"
  have "\<forall>v \<in> set vs. leaves_ok v"
    unfolding vs_def set_sort_by split_verified_set using verify_observation_leaves by blast
  then have "\<forall>(v, w) \<in> set (pairs vs). leaves_ok v \<and> leaves_ok w" using pairs_mem by fast
  with compare_all_total [OF assms, of "pairs vs" sha lc "(([], []), 0, 0)"] obtain inc c u where
    cmp: "fold_result (compare_pair sha canon lc) (pairs vs) (([], []), 0, 0) = Inr (inc, c, u)" by auto
  obtain incs keys where
    "fold_result (\<lambda>(_, h). rollbacks sha canon lc (sort_by (history_order lc) h)) (by_source vs) inc = Inr (incs, keys)"
    using histories_total [OF assms, of sha lc "sort_by (history_order lc)" "by_source vs" inc] by auto
  with cmp show ?thesis
    unfolding analyzeCheckpointGossip_def vs_def by (simp add: case_prod_beta Let_def)
qed

section \<open>Properties\<close>

text \<open>Two observations that can be views of one append-only log.\<close>

definition consistent_views ::
  "VerifiedCheckpointGossipObservation \<Rightarrow> VerifiedCheckpointGossipObservation \<Rightarrow> bool" where
  "consistent_views v w \<longleftrightarrow>
     vo_origin v = vo_origin w
     \<and> (vo_tree_size v = vo_tree_size w \<longrightarrow> vo_root_hash_base64url v = vo_root_hash_base64url w)
     \<and> (vo_tree_size v < vo_tree_size w \<longrightarrow>
          (\<exists>l r. vo_leafHashes v = Some l \<and> vo_leafHashes w = Some r \<and> l = take (length l) r))
     \<and> (vo_source_id v = vo_source_id w \<and> vo_observed_at_ms v < vo_observed_at_ms w
          \<longrightarrow> vo_tree_size v \<le> vo_tree_size w)"

text \<open>C26: a consistent report. If \<open>analyzeCheckpointGossip\<close> reports \<open>consistent\<close>, every observation
  passed verification, all are of one origin, two of the same size have the same root, of two of
  different sizes the leaf hashes of the smaller are a prefix of the larger's, and no source ever
  went back to a smaller tree.\<close>

theorem gossip_consistent_sound:
  assumes "analyzeCheckpointGossip sha canon ed_verify lc observations key = Inr rep"
    and "gr_status rep = Consistent"
  shows "(\<forall>a \<in> set observations. \<exists>v. verify_observation sha ed_verify key a = Inr v)
    \<and> (\<forall>a \<in> set observations. \<forall>b \<in> set observations. \<forall>v w.
         verify_observation sha ed_verify key a = Inr v \<and> verify_observation sha ed_verify key b = Inr w \<longrightarrow>
         consistent_views v w)"
proof -
  define V where "V = {v. \<exists>a \<in> set observations. verify_observation sha ed_verify key a = Inr v}"
  note rep = analyze_Inr [OF assms(1) V_def]
  have none: "gr_incidents rep = []" "gr_issues rep = []" "gr_uncompared_pairs rep = 0"
    using rep assms(2) by (auto split: if_splits)
  have all: "\<forall>v \<in> V. \<forall>w \<in> V. no_split v w" "\<forall>v \<in> V. \<forall>w \<in> V. v \<noteq> w \<longrightarrow> comparable v w"
    "\<forall>v \<in> V. \<forall>w \<in> V. vo_source_id v = vo_source_id w \<and> vo_observed_at_ms v < vo_observed_at_ms w
       \<longrightarrow> vo_tree_size v \<le> vo_tree_size w"
    using rep none by blast+
  have leaves: "\<forall>v \<in> V. leaves_ok v"
    unfolding V_def using verify_observation_leaves by blast
  have "consistent_views v w" if "v \<in> V" "w \<in> V" for v w
  proof (cases "v = w")
    case False
    then have "no_split v w" "comparable v w" "leaves_ok v" using all(1, 2) leaves that by blast+
    then have "vo_origin v = vo_origin w
        \<and> (vo_tree_size v = vo_tree_size w \<longrightarrow> vo_root_hash_base64url v = vo_root_hash_base64url w)
        \<and> (vo_tree_size v < vo_tree_size w \<longrightarrow>
             (\<exists>l r. vo_leafHashes v = Some l \<and> vo_leafHashes w = Some r \<and> l = take (length l) r))"
      by (auto simp: no_split_def comparable_def leaves_ok_def)
    with all(3) that show ?thesis unfolding consistent_views_def by blast
  qed (simp add: consistent_views_def)
  moreover have "\<forall>a \<in> set observations. \<exists>v. verify_observation sha ed_verify key a = Inr v"
    using rep none(2) by blast
  ultimately show ?thesis unfolding V_def by blast
qed

text \<open>Detection. With a canonicaliser that accepts the incident value, the analysis always ends in a
  report, and two accepted observations of one origin that cannot be views of one append-only log (same size
  and different roots, or leaf hashes that differ on the shared prefix) make its status \<open>conflict\<close>.\<close>

theorem gossip_detects_split_view:
  assumes "\<forall>v. canon v \<noteq> None"
    and "a \<in> set observations" "b \<in> set observations"
    and "verify_observation sha ed_verify key a = Inr v" "verify_observation sha ed_verify key b = Inr w"
    and "vo_origin v = vo_origin w"
    and "(vo_tree_size v = vo_tree_size w \<and> vo_root_hash_base64url v \<noteq> vo_root_hash_base64url w)
       \<or> (vo_leafHashes v = Some l \<and> vo_leafHashes w = Some r \<and> vo_tree_size v < vo_tree_size w
          \<and> l \<noteq> take (length l) r)"
  shows "\<exists>rep. analyzeCheckpointGossip sha canon ed_verify lc observations key = Inr rep
    \<and> gr_status rep = Conflict \<and> gr_incidents rep \<noteq> []"
proof -
  obtain rep where rep: "analyzeCheckpointGossip sha canon ed_verify lc observations key = Inr rep"
    using analyze_total [OF assms(1)] by blast
  have "\<not> no_split v w"
    using assms(6, 7) verify_observation_leaves [OF assms(4)]
    by (auto simp: no_split_def leaves_ok_def min_def)
  then have "gr_incidents rep \<noteq> []"
    using analyze_Inr [OF rep refl] assms(2-5) by blast
  with rep analyze_Inr [OF rep refl] show ?thesis by auto
qed

text \<open>Observations of a toy operator, for the witnesses.\<close>

definition toy_note :: "byte \<Rightarrow> string" where
  "toy_note b = signer_sign toy_sign (createCheckpointSigner pad32 [7] (pad32 [7]) ''log'') 3 (pad32 [b])"

definition toy_observation :: "string \<Rightarrow> byte \<Rightarrow> CheckpointGossipObservation" where
  "toy_observation source b =
     \<lparr>go_source_id = source, go_observed_at_ms = 1, go_checkpoint_note = toy_note b, go_leaf_hashes = None\<rparr>"

definition toy_verified :: "string \<Rightarrow> byte \<Rightarrow> VerifiedCheckpointGossipObservation" where
  "toy_verified source b =
     \<lparr>vo_source_id = source, vo_observed_at_ms = 1, vo_checkpoint_hash = hashText pad32 (toy_note b),
      vo_origin = ''log'', vo_tree_size = 3, vo_root_hash_base64url = base64urlEncode (pad32 [b]),
      vo_leaf_hashes_verified = False, vo_leafHashes = None\<rparr>"

definition toy_key :: TrustedCheckpointKey where
  "toy_key = \<lparr>tk_name = ''log'', tk_publicKey = RawKey (pad32 [7])\<rparr>"

lemma toy_observation_verified:
  assumes "source = ''a'' \<or> source = ''b''"
  shows "verify_observation pad32 toy_verify toy_key (toy_observation source b) = Inr (toy_verified source b)"
proof -
  have "\<exists>c. verifyOperatorCheckpoint pad32 toy_verify (toy_note b @ concat (map (\<lambda>l. l @ [nl]) [])) toy_key = Inr c
      \<and> cn_body c = formatCheckpointBody ''log'' 3 (pad32 [b]) \<and> cn_origin c = ''log''
      \<and> cn_treeSize c = 3 \<and> cn_rootHash c = pad32 [b] \<and> tl (cn_signatureLines c) = []"
    unfolding toy_note_def toy_key_def
    by (rule operator_note_accepted)
      (simp_all add: toy_signature word_text_def ws_prefix_ascii is_space_def max_safe_integer_def)
  then obtain c where c: "verifyOperatorCheckpoint pad32 toy_verify (toy_note b) toy_key = Inr c"
    "cn_origin c = ''log''" "cn_treeSize c = 3" "cn_rootHash c = pad32 [b]" by auto
  from assms c is_integer_of_int [of 1] show ?thesis
    by (auto simp: verify_observation_def toy_observation_def toy_verified_def leaf_view_def Let_def
        is_safe_integer_def max_safe_integer_def nl_def)
qed

theorem gossip_consistent_sound_witness:
  "\<exists>rep. analyzeCheckpointGossip pad32 (\<lambda>_. Some []) toy_verify (\<lambda>_ _. 0)
        [toy_observation ''a'' 1, toy_observation ''b'' 1] toy_key = Inr rep
      \<and> gr_status rep = Consistent
      \<and> consistent_views (toy_verified ''a'' 1) (toy_verified ''b'' 1)"
proof -
  have v: "verify_observation pad32 toy_verify toy_key (toy_observation ''a'' 1) = Inr (toy_verified ''a'' 1)"
    "verify_observation pad32 toy_verify toy_key (toy_observation ''b'' 1) = Inr (toy_verified ''b'' 1)"
    by (simp_all add: toy_observation_verified)
  obtain rep where rep: "analyzeCheckpointGossip pad32 (\<lambda>_. Some []) toy_verify (\<lambda>_ _. 0)
        [toy_observation ''a'' 1, toy_observation ''b'' 1] toy_key = Inr rep" "gr_status rep = Consistent"
    by (simp add: analyzeCheckpointGossip_def split_verified_def v compareObservation_def cmp_or_def
        compare_pair_def by_source_def history_order_def) (simp add: toy_verified_def)
  with gossip_consistent_sound [OF rep] v show ?thesis by auto
qed

lemma pad32_ne: "pad32 [1] \<noteq> pad32 [2]"
  by (simp add: pad32_def)

theorem gossip_detects_split_view_witness:
  "\<exists>rep. analyzeCheckpointGossip pad32 (\<lambda>_. Some []) toy_verify (\<lambda>_ _. 0)
        [toy_observation ''a'' 1, toy_observation ''b'' 2] toy_key = Inr rep
      \<and> gr_status rep = Conflict \<and> gr_incidents rep \<noteq> []"
proof (rule gossip_detects_split_view [where a = "toy_observation ''a'' 1" and b = "toy_observation ''b'' 2"])
  have "base64urlEncode (pad32 [1]) \<noteq> base64urlEncode (pad32 [2])"
    by (metis base64url_roundtrip sum.inject(2) pad32_ne)
  then show "(vo_tree_size (toy_verified ''a'' 1) = vo_tree_size (toy_verified ''b'' 2)
        \<and> vo_root_hash_base64url (toy_verified ''a'' 1) \<noteq> vo_root_hash_base64url (toy_verified ''b'' 2))
      \<or> (vo_leafHashes (toy_verified ''a'' 1) = Some [] \<and> vo_leafHashes (toy_verified ''b'' 2) = Some []
        \<and> vo_tree_size (toy_verified ''a'' 1) < vo_tree_size (toy_verified ''b'' 2)
        \<and> ([] :: bytes list) \<noteq> take (length ([] :: bytes list)) [])"
    by (simp add: toy_verified_def)
qed (simp_all add: toy_observation_verified toy_verified_def [of _ 1] toy_verified_def [of _ 2])

end
