(* ===== verification/Witness_Store.thy ===== *)
theory Witness_Store
  imports Gossip Log_Tree
begin

text \<open>
  The durable store of a witness (\<open>services/witness-node/src/store.ts\<close>). The directory is a record
  of maps: the state, health and incident files with the value their JSON text holds, the cosignature
  files, and the leaf file of each log as bytes. File names are the digests \<open>stableName\<close> computes.

  Files other than the leaf file are written to a temporary name and renamed, so that a write either
  happens or leaves the old file; the leaf file is truncated and extended in place. An operation takes
  the outcomes of its writes as an argument, and returns its result with the directory it leaves
  behind, also when it throws.
\<close>

record StoredWitnessState =
  ss_logOrigin :: string
  ss_treeSize :: int
  ss_rootHashBase64 :: string
  ss_checkpointBody :: string
  ss_checkpointNote :: string
  ss_cosignature :: string
  ss_witnessedAtSeconds :: int

record StoredWitnessHealth =
  sh_logOrigin :: string
  sh_lastCheckedAtSeconds :: int
  sh_lastSuccessfulCheckAtSeconds :: "int option"
  sh_lastError :: "string option"

record witness_store =
  st_states :: "(string, StoredWitnessState) jsmap"
  st_health :: "(string, StoredWitnessHealth) jsmap"
  st_leaves :: "(string, bytes) jsmap"
  st_cosigs :: "(string \<times> string, string) jsmap"
  st_incidents :: "(string, CheckpointGossipIncident) jsmap"

definition empty_store :: witness_store where
  "empty_store = \<lparr>st_states = [], st_health = [], st_leaves = [], st_cosigs = [], st_incidents = []\<rparr>"

text \<open>The outcomes of the writes of one operation: how many bytes each write to the leaf file takes,
  and whether the two renamed files are written.\<close>

record write_outcomes =
  wo_leaves :: "bytes \<Rightarrow> int"
  wo_cosig :: bool
  wo_file :: bool

definition stableName :: "(bytes \<Rightarrow> bytes) \<Rightarrow> string \<Rightarrow> string" where
  "stableName sha value = hexEncode (sha (encode_utf8 value))"

section \<open>Validation\<close>

fun includes_text :: "string \<Rightarrow> string \<Rightarrow> bool" where
  "includes_text sub [] = (sub = [])"
| "includes_text sub (c # cs) = (starts_with sub (c # cs) \<or> includes_text sub cs)"

definition validateState :: "StoredWitnessState \<Rightarrow> string \<Rightarrow> unit result" where
  "validateState state expectedOrigin =
     (if ss_logOrigin state \<noteq> expectedOrigin \<or> \<not> is_safe_integer (ss_treeSize state) \<or> ss_treeSize state < 1
        \<or> length (buffer_from_base64 (ss_rootHashBase64 state)) \<noteq> 32
        \<or> \<not> ends_with [nl] (ss_checkpointBody state)
        \<or> \<not> includes_text [nl, nl] (ss_checkpointNote state)
        \<or> \<not> ends_with [nl] (ss_cosignature state)
        \<or> \<not> is_safe_integer (ss_witnessedAtSeconds state)
      then Inl ''stored witness state is malformed'' else Inr ())"

definition validateHealth :: "StoredWitnessHealth \<Rightarrow> string \<Rightarrow> unit result" where
  "validateHealth health expectedOrigin =
     (if sh_logOrigin health \<noteq> expectedOrigin
        \<or> \<not> is_safe_integer (sh_lastCheckedAtSeconds health) \<or> sh_lastCheckedAtSeconds health < 0
        \<or> (case sh_lastSuccessfulCheckAtSeconds health of None \<Rightarrow> False
           | Some t \<Rightarrow> \<not> is_safe_integer t \<or> t < 0 \<or> sh_lastCheckedAtSeconds health < t)
        \<or> sh_lastError health = Some []
      then Inl ''stored witness health is malformed''
      else if sh_lastError health = None
        \<and> sh_lastSuccessfulCheckAtSeconds health \<noteq> Some (sh_lastCheckedAtSeconds health)
      then Inl ''stored witness health result is inconsistent''
      else Inr ())"

definition validateIncident :: "CheckpointGossipIncident \<Rightarrow> unit result" where
  "validateIncident incident =
     (if ic_schema incident \<noteq> incident_schema \<or> \<not> is_sha256_ref (ic_incident_id incident)
        \<or> ic_origin incident = [] \<or> ic_sources incident = [] \<or> length (ic_observations incident) < 2
      then Inl ''checkpoint gossip incident is malformed'' else Inr ())"

text \<open>The identity of an incident is its content without the observation times.\<close>

definition incidentIdentity ::
  "CheckpointGossipIncident \<Rightarrow> string \<times> CheckpointGossipIncidentKind \<times> string \<times> string list \<times> incident_observation list" where
  "incidentIdentity incident =
     (ic_incident_id incident, ic_kind incident, ic_origin incident, ic_sources incident,
      map (io_observed_at_ms_update (\<lambda>_. 0)) (ic_observations incident))"

section \<open>Reading\<close>

definition load :: "(bytes \<Rightarrow> bytes) \<Rightarrow> string \<Rightarrow> witness_store \<Rightarrow> StoredWitnessState option result" where
  "load sha logOrigin st =
     (case map_of (st_states st) (stableName sha logOrigin) of
        None \<Rightarrow> Inr None
      | Some parsed \<Rightarrow> rbind (validateState parsed logOrigin) (\<lambda>_. Inr (Some parsed)))"

definition loadHealth :: "(bytes \<Rightarrow> bytes) \<Rightarrow> string \<Rightarrow> witness_store \<Rightarrow> StoredWitnessHealth option result" where
  "loadHealth sha logOrigin st =
     (case map_of (st_health st) (stableName sha logOrigin) of
        None \<Rightarrow> Inr None
      | Some parsed \<Rightarrow> rbind (validateHealth parsed logOrigin) (\<lambda>_. Inr (Some parsed)))"

definition loadLeafHashes :: "(bytes \<Rightarrow> bytes) \<Rightarrow> StoredWitnessState \<Rightarrow> witness_store \<Rightarrow> bytes list result" where
  "loadLeafHashes sha state st =
     (case map_of (st_leaves st) (stableName sha (ss_logOrigin state)) of
        None \<Rightarrow> Inl ''stored witness leaf history is missing''
      | Some bs \<Rightarrow>
          if int (length bs) < ss_treeSize state * 32
          then Inl ''stored witness leaf history is shorter than the committed checkpoint''
          else Inr (map (\<lambda>i. subarray (i * 32) ((i + 1) * 32) bs) [0 ..< nat (ss_treeSize state)]))"

definition cosignaturePath :: "(bytes \<Rightarrow> bytes) \<Rightarrow> string \<Rightarrow> string \<Rightarrow> (string \<times> string) result" where
  "cosignaturePath sha logOrigin rootHashBase64url =
     (if \<not> (length rootHashBase64url = 43 \<and> list_all is_b64url_char rootHashBase64url)
      then Inl ''root hash must be 32-byte base64url''
      else Inr (stableName sha logOrigin, rootHashBase64url))"

definition getCosignature ::
  "(bytes \<Rightarrow> bytes) \<Rightarrow> string \<Rightarrow> string \<Rightarrow> witness_store \<Rightarrow> string option result" where
  "getCosignature sha logOrigin rootHashBase64url st =
     rbind (cosignaturePath sha logOrigin rootHashBase64url) (\<lambda>path. Inr (map_of (st_cosigs st) path))"

definition incidentPath :: "string \<Rightarrow> string result" where
  "incidentPath incidentId =
     (if \<not> is_sha256_ref incidentId then Inl ''checkpoint gossip incident id must be a SHA-256 URI''
      else Inr (drop 7 incidentId))"

definition getIncident :: "string \<Rightarrow> witness_store \<Rightarrow> CheckpointGossipIncident option result" where
  "getIncident incidentId st =
     rbind (incidentPath incidentId) (\<lambda>path.
       case map_of (st_incidents st) path of
         None \<Rightarrow> Inr None
       | Some incident \<Rightarrow> rbind (validateIncident incident) (\<lambda>_. Inr (Some incident)))"

definition listIncidents :: "witness_store \<Rightarrow> CheckpointGossipIncident list result" where
  "listIncidents st =
     map_result (\<lambda>(_, incident). rbind (validateIncident incident) (\<lambda>_. Inr incident))
       (sort_by (\<lambda>a b. cmp_string (fst a) (fst b))
         (filter (\<lambda>(name, _). lower_hex_string 64 name) (st_incidents st)))"

section \<open>Writing\<close>

definition writeDurably :: "bool \<Rightarrow> 'k \<Rightarrow> 'v \<Rightarrow> ('k, 'v) jsmap \<Rightarrow> unit result \<times> ('k, 'v) jsmap" where
  "writeDurably ok path content files =
     (if ok then (Inr (), AList.update path content files)
      else (Inl ''durable witness write made no progress'', files))"

text \<open>\<open>ftruncate\<close> cuts a file or extends it with zero bytes.\<close>

definition ftruncate :: "nat \<Rightarrow> bytes \<Rightarrow> bytes" where
  "ftruncate n bs = take n bs @ replicate (n - length bs) 0"

fun write_hashes :: "(bytes \<Rightarrow> int) \<Rightarrow> bytes list \<Rightarrow> bytes \<Rightarrow> unit result \<times> bytes" where
  "write_hashes wr [] buf = (Inr (), buf)"
| "write_hashes wr (h # hs) buf =
     (case appendDurably wr h buf of
        (Inl e, buf') \<Rightarrow> (Inl ''durable witness leaf write made no progress'', buf')
      | (Inr _, buf') \<Rightarrow> write_hashes wr hs buf')"

definition writeLeafHashesDurably ::
  "(bytes \<Rightarrow> int) \<Rightarrow> string \<Rightarrow> bytes list \<Rightarrow> nat \<Rightarrow> (string, bytes) jsmap \<Rightarrow> unit result \<times> (string, bytes) jsmap" where
  "writeLeafHashesDurably wr path hashes committedCount files =
     (if length hashes < committedCount
      then (Inl ''committed witness leaf count exceeds the new checkpoint'', files)
      else let buf = (case map_of files path of None \<Rightarrow> [] | Some bs \<Rightarrow> bs);
               (r, buf') = write_hashes wr (drop committedCount hashes) (ftruncate (committedCount * 32) buf)
        in (r, AList.update path buf' files))"

definition commit ::
  "(bytes \<Rightarrow> bytes) \<Rightarrow> write_outcomes \<Rightarrow> StoredWitnessState \<Rightarrow> bytes list \<Rightarrow> witness_store
   \<Rightarrow> unit result \<times> witness_store" where
  "commit sha io state leafHashes st =
     (case validateState state (ss_logOrigin state) of
        Inl e \<Rightarrow> (Inl e, st)
      | Inr _ \<Rightarrow>
     if int (length leafHashes) \<noteq> ss_treeSize state \<or> list_ex (\<lambda>h. length h \<noteq> 32) leafHashes
     then (Inl ''witness leaf history does not match the checkpoint tree size'', st)
     else (case load sha (ss_logOrigin state) st of
        Inl e \<Rightarrow> (Inl e, st)
      | Inr prior \<Rightarrow>
     if (case prior of None \<Rightarrow> False | Some p \<Rightarrow> ss_treeSize state < ss_treeSize p)
     then (Inl ''refusing to commit a witness checkpoint rollback'', st)
     else let name = stableName sha (ss_logOrigin state);
              (r, leaves) = writeLeafHashesDurably (wo_leaves io) name leafHashes
                              (case prior of None \<Rightarrow> 0 | Some p \<Rightarrow> nat (ss_treeSize p)) (st_leaves st);
              st1 = st\<lparr>st_leaves := leaves\<rparr>
     in (case r of Inl e \<Rightarrow> (Inl e, st1) | Inr _ \<Rightarrow>
     let rootHashBase64url = base64urlEncode (buffer_from_base64 (ss_rootHashBase64 state))
     in (case cosignaturePath sha (ss_logOrigin state) rootHashBase64url of
        Inl e \<Rightarrow> (Inl e, st1)
      | Inr path \<Rightarrow>
     let (r2, cosigs) = (case map_of (st_cosigs st1) path of
            Some existing \<Rightarrow>
              (if existing \<noteq> ss_cosignature state then Inl ''refusing to replace an immutable witness cosignature''
               else Inr (), st_cosigs st1)
          | None \<Rightarrow> writeDurably (wo_cosig io) path (ss_cosignature state) (st_cosigs st1));
         st2 = st1\<lparr>st_cosigs := cosigs\<rparr>
     in (case r2 of Inl e \<Rightarrow> (Inl e, st2) | Inr _ \<Rightarrow>
     let (r3, states) = writeDurably (wo_file io) name state (st_states st2)
     in (r3, st2\<lparr>st_states := states\<rparr>))))))"

definition recordCheck ::
  "(bytes \<Rightarrow> bytes) \<Rightarrow> bool \<Rightarrow> string \<Rightarrow> int \<Rightarrow> string option \<Rightarrow> witness_store
   \<Rightarrow> StoredWitnessHealth result \<times> witness_store" where
  "recordCheck sha ok logOrigin checkedAtSeconds err st =
     (if \<not> is_safe_integer checkedAtSeconds \<or> checkedAtSeconds < 0
      then (Inl ''witness check time must be a non-negative safe integer'', st)
      else (case loadHealth sha logOrigin st of
        Inl e \<Rightarrow> (Inl e, st)
      | Inr prior \<Rightarrow>
     if (case prior of None \<Rightarrow> False | Some p \<Rightarrow> checkedAtSeconds < sh_lastCheckedAtSeconds p)
     then (Inl ''refusing to move witness check time backward'', st)
     else let health = \<lparr>sh_logOrigin = logOrigin, sh_lastCheckedAtSeconds = checkedAtSeconds,
                sh_lastSuccessfulCheckAtSeconds =
                  (case err of None \<Rightarrow> Some checkedAtSeconds
                   | Some _ \<Rightarrow> (case prior of None \<Rightarrow> None | Some p \<Rightarrow> sh_lastSuccessfulCheckAtSeconds p)),
                sh_lastError = err\<rparr>;
              (r, files) = writeDurably ok (stableName sha logOrigin) health (st_health st)
     in (rbind r (\<lambda>_. Inr health), st\<lparr>st_health := files\<rparr>)))"

definition commitIncident ::
  "bool \<Rightarrow> CheckpointGossipIncident \<Rightarrow> witness_store \<Rightarrow> unit result \<times> witness_store" where
  "commitIncident ok incident st =
     (case rbind (validateIncident incident) (\<lambda>_. incidentPath (ic_incident_id incident)) of
        Inl e \<Rightarrow> (Inl e, st)
      | Inr path \<Rightarrow>
          (case map_of (st_incidents st) path of
             Some existing \<Rightarrow>
               (rbind (validateIncident existing) (\<lambda>_.
                  if incidentIdentity existing \<noteq> incidentIdentity incident
                  then Inl ''refusing to replace an immutable checkpoint gossip incident'' else Inr ()), st)
           | None \<Rightarrow>
               (case writeDurably ok path incident (st_incidents st) of
                  (r, files) \<Rightarrow> (r, st\<lparr>st_incidents := files\<rparr>))))"

section \<open>Lemmas\<close>

lemma ftruncate_shrink: "n \<le> length bs \<Longrightarrow> ftruncate n bs = take n bs"
  by (simp add: ftruncate_def)

lemma length_ftruncate [simp]: "length (ftruncate n bs) = n"
  by (simp add: ftruncate_def)

lemma write_hashes_extends: "\<exists>ext. snd (write_hashes wr hs buf) = buf @ ext"
proof (induction hs arbitrary: buf)
  case (Cons h hs)
  obtain r b where a: "appendDurably wr h buf = (r, b)" by (cases "appendDurably wr h buf")
  obtain m where "b = buf @ take m h" using appendDurably_shape [of wr h buf] a by auto
  with a Cons.IH [of b] show ?case by (auto split: sum.splits)
qed simp

lemma write_hashes_ok: "write_hashes wr hs buf = (Inr u, b) \<Longrightarrow> b = buf @ concat hs"
proof (induction hs arbitrary: buf)
  case (Cons h hs)
  then obtain c where a: "appendDurably wr h buf = (Inr (), c)" and rest: "write_hashes wr hs c = (Inr u, b)"
    by (auto split: prod.splits sum.splits)
  have "c = buf @ h" using appendDurably_ok [of wr h buf] a by simp
  with Cons.IH [OF rest] show ?case by simp
qed simp

lemma writeLeafHashesDurably_shape:
  assumes "writeLeafHashesDurably wr path hs n files = (r, files')"
  shows "(r = Inl ''committed witness leaf count exceeds the new checkpoint'' \<and> files' = files)
    \<or> (\<exists>ext. n \<le> length hs
        \<and> files' = AList.update path (ftruncate (n * 32) (case map_of files path of None \<Rightarrow> [] | Some bs \<Rightarrow> bs) @ ext) files
        \<and> (r = Inr () \<longrightarrow> ext = concat (drop n hs)))"
proof (cases "length hs < n")
  case True
  with assms show ?thesis by (simp add: writeLeafHashesDurably_def)
next
  case False
  let ?b = "ftruncate (n * 32) (case map_of files path of None \<Rightarrow> [] | Some bs \<Rightarrow> bs)"
  obtain ext where "snd (write_hashes wr (drop n hs) ?b) = ?b @ ext" using write_hashes_extends by blast
  with False assms write_hashes_ok [of wr "drop n hs" ?b] show ?thesis
    by (auto simp: writeLeafHashesDurably_def Let_def case_prod_beta prod_eq_iff)
qed

lemma load_Some: "load sha o' st = Inr (Some p) \<longleftrightarrow>
    map_of (st_states st) (stableName sha o') = Some p \<and> validateState p o' = Inr ()"
  by (auto simp: load_def rbind_Inr_iff split: option.splits)

lemma load_None: "load sha o' st = Inr None \<longleftrightarrow> map_of (st_states st) (stableName sha o') = None"
  by (auto simp: load_def rbind_Inr_iff split: option.splits)

lemma validateState_Inr:
  assumes "validateState s o' = Inr u"
  shows "ss_logOrigin s = o'" "1 \<le> ss_treeSize s" "length (buffer_from_base64 (ss_rootHashBase64 s)) = 32"
  using assms by (auto simp: validateState_def split: if_splits)

text \<open>What \<open>commit\<close> does to the directory.\<close>

definition cosignature_key :: "(bytes \<Rightarrow> bytes) \<Rightarrow> StoredWitnessState \<Rightarrow> string \<times> string" where
  "cosignature_key sha s =
     (stableName sha (ss_logOrigin s), base64urlEncode (buffer_from_base64 (ss_rootHashBase64 s)))"

lemma commit_cases:
  assumes "commit sha io s hs st = (r, st')"
  obtains (refused) "st' = st" "\<exists>e. r = Inl e"
  | (wrote) prior n ext cosigs where
      "load sha (ss_logOrigin s) st = Inr prior" "validateState s (ss_logOrigin s) = Inr ()"
      "int (length hs) = ss_treeSize s" "\<forall>h \<in> set hs. length h = 32"
      "n = (case prior of None \<Rightarrow> 0 | Some p \<Rightarrow> nat (ss_treeSize p))" "n \<le> length hs"
      "st_leaves st' = AList.update (stableName sha (ss_logOrigin s))
         (ftruncate (n * 32) (case map_of (st_leaves st) (stableName sha (ss_logOrigin s)) of None \<Rightarrow> [] | Some bs \<Rightarrow> bs) @ ext)
         (st_leaves st)"
      "st_health st' = st_health st" "st_incidents st' = st_incidents st" "st_cosigs st' = cosigs"
      "cosigs = st_cosigs st \<or> map_of (st_cosigs st) (cosignature_key sha s) = None
         \<and> cosigs = AList.update (cosignature_key sha s) (ss_cosignature s) (st_cosigs st)"
      "(\<exists>e. r = Inl e) \<and> st_states st' = st_states st
       \<or> r = Inr () \<and> ext = concat (drop n hs)
         \<and> st_states st' = AList.update (stableName sha (ss_logOrigin s)) s (st_states st)
         \<and> map_of cosigs (cosignature_key sha s) = Some (ss_cosignature s)"
proof (cases "\<exists>prior. validateState s (ss_logOrigin s) = Inr () \<and> int (length hs) = ss_treeSize s
    \<and> (\<forall>h \<in> set hs. length h = 32) \<and> load sha (ss_logOrigin s) st = Inr prior
    \<and> \<not> (case prior of None \<Rightarrow> False | Some p \<Rightarrow> ss_treeSize s < ss_treeSize p)")
  case False
  with assms have "st' = st \<and> (\<exists>e. r = Inl e)"
    by (auto simp: commit_def list_ex_iff split: sum.splits if_splits) metis
  then show thesis using refused by blast
next
  case True
  then obtain prior where ok: "validateState s (ss_logOrigin s) = Inr ()" "int (length hs) = ss_treeSize s"
    "\<forall>h \<in> set hs. length h = 32" "load sha (ss_logOrigin s) st = Inr prior"
    "\<not> (case prior of None \<Rightarrow> False | Some p \<Rightarrow> ss_treeSize s < ss_treeSize p)" by blast
  let ?name = "stableName sha (ss_logOrigin s)"
  let ?n = "case prior of None \<Rightarrow> 0 | Some p \<Rightarrow> nat (ss_treeSize p)"
  let ?root = "base64urlEncode (buffer_from_base64 (ss_rootHashBase64 s))"
  have n: "?n \<le> length hs" using ok(2, 5) by (auto split: option.splits)
  obtain r1 leaves where w: "writeLeafHashesDurably (wo_leaves io) ?name hs ?n (st_leaves st) = (r1, leaves)"
    by (cases "writeLeafHashesDurably (wo_leaves io) ?name hs ?n (st_leaves st)")
  have hs: "\<not> list_ex (\<lambda>h. length h \<noteq> 32) hs" using ok(3) by (auto simp: list_ex_iff)
  show thesis
  proof (cases r1)
    case (Inl e)
    from writeLeafHashesDurably_shape [OF w] n obtain ext where
      l: "st\<lparr>st_leaves := leaves\<rparr> = st \<or> leaves = AList.update ?name
        (ftruncate (?n * 32) (case map_of (st_leaves st) ?name of None \<Rightarrow> [] | Some bs \<Rightarrow> bs) @ ext) (st_leaves st)" by auto
    have "r = Inl e" "st' = st\<lparr>st_leaves := leaves\<rparr>"
      using assms ok hs w Inl by (simp_all add: commit_def Let_def)
    with l ok n show thesis
      using refused wrote [of prior ?n ext "st_cosigs st"] by auto
  next
    case (Inr u)
    from writeLeafHashesDurably_shape [OF w] n Inr obtain ext where
      l: "leaves = AList.update ?name
        (ftruncate (?n * 32) (case map_of (st_leaves st) ?name of None \<Rightarrow> [] | Some bs \<Rightarrow> bs) @ ext) (st_leaves st)"
      "ext = concat (drop ?n hs)" by auto
    have "length (buffer_from_base64 (ss_rootHashBase64 s)) = 32" by (rule validateState_Inr(3) [OF ok(1)])
    then have path: "cosignaturePath sha (ss_logOrigin s) ?root = Inr (?name, ?root)"
      by (simp add: cosignaturePath_def length_base64urlEncode_32 base64urlEncode_chars)
    show thesis
    proof (cases "map_of (st_cosigs st) (?name, ?root)")
      case None
      let ?cs = "AList.update (?name, ?root) (ss_cosignature s) (st_cosigs st)"
      have "st' = st\<lparr>st_leaves := leaves, st_cosigs := if wo_cosig io then ?cs else st_cosigs st,
            st_states := if wo_cosig io \<and> wo_file io then AList.update ?name s (st_states st) else st_states st\<rparr>
          \<and> r = (if wo_cosig io \<and> wo_file io then Inr () else Inl ''durable witness write made no progress'')"
        using assms ok hs w Inr path None
        by (cases "wo_cosig io"; cases "wo_file io") (auto simp: commit_def Let_def writeDurably_def)
      then show thesis
        using wrote [of prior ?n ext "if wo_cosig io then ?cs else st_cosigs st"] ok n l None
        by (auto simp: jsmap_simps cosignature_key_def split: if_splits)
    next
      case (Some c)
      have "st' = st\<lparr>st_leaves := leaves,
            st_states := if c = ss_cosignature s \<and> wo_file io then AList.update ?name s (st_states st) else st_states st\<rparr>"
          "(r = Inr () \<longleftrightarrow> c = ss_cosignature s \<and> wo_file io) \<and> (r \<noteq> Inr () \<longrightarrow> (\<exists>e. r = Inl e))"
        using assms ok hs w Inr path Some
        by (cases "wo_file io"; cases "c = ss_cosignature s", auto simp: commit_def Let_def writeDurably_def)+
      then show thesis
        using wrote [of prior ?n ext "st_cosigs st"] ok n l Some by (auto simp: cosignature_key_def split: if_splits)
    qed
  qed
qed

section \<open>The store only grows\<close>

datatype store_event =
    Commit write_outcomes StoredWitnessState "bytes list"
  | RecordCheck bool string int "string option"
  | CommitIncident bool CheckpointGossipIncident

definition store_step :: "(bytes \<Rightarrow> bytes) \<Rightarrow> store_event \<Rightarrow> witness_store \<Rightarrow> witness_store" where
  "store_step sha ev st =
     (case ev of
        Commit io s hs \<Rightarrow> snd (commit sha io s hs st)
      | RecordCheck ok logOrigin t err \<Rightarrow> snd (recordCheck sha ok logOrigin t err st)
      | CommitIncident ok incident \<Rightarrow> snd (commitIncident ok incident st))"

text \<open>A committed state and the leaf bytes it counts.\<close>

definition committed :: "witness_store \<Rightarrow> string \<Rightarrow> StoredWitnessState \<Rightarrow> bytes \<Rightarrow> bool" where
  "committed st k a ls \<longleftrightarrow>
     map_of (st_states st) k = Some a
     \<and> (\<exists>bs. map_of (st_leaves st) k = Some bs \<and> nat (ss_treeSize a) * 32 \<le> length bs
           \<and> ls = take (nat (ss_treeSize a) * 32) bs)"

definition store_le :: "witness_store \<Rightarrow> witness_store \<Rightarrow> bool" where
  "store_le s t \<longleftrightarrow>
     (\<forall>k a ls. committed s k a ls \<longrightarrow>
        (\<exists>b ms. committed t k b ms \<and> nat (ss_treeSize a) \<le> nat (ss_treeSize b) \<and> take (length ls) ms = ls))
     \<and> (\<forall>p c. map_of (st_cosigs s) p = Some c \<longrightarrow> map_of (st_cosigs t) p = Some c)
     \<and> (\<forall>p i. map_of (st_incidents s) p = Some i \<longrightarrow> map_of (st_incidents t) p = Some i)
     \<and> (\<forall>k h. map_of (st_health s) k = Some h \<longrightarrow>
          (\<exists>h'. map_of (st_health t) k = Some h' \<and> sh_lastCheckedAtSeconds h \<le> sh_lastCheckedAtSeconds h'))"

lemma committed_length: "committed st k a ls \<Longrightarrow> length ls = nat (ss_treeSize a) * 32"
  by (auto simp: committed_def)

lemma store_le_refl: "store_le s s"
  unfolding store_le_def by force

lemma store_le_trans:
  assumes "store_le s t" and "store_le t u"
  shows "store_le s u"
proof -
  have "\<exists>c ns. committed u k c ns \<and> nat (ss_treeSize a) \<le> nat (ss_treeSize c) \<and> take (length ls) ns = ls"
    if "committed s k a ls" for k a ls
  proof -
    from that assms(1) obtain b ms where b: "committed t k b ms" "nat (ss_treeSize a) \<le> nat (ss_treeSize b)"
      "take (length ls) ms = ls" unfolding store_le_def by blast
    with assms(2) obtain c ns where c: "committed u k c ns" "nat (ss_treeSize b) \<le> nat (ss_treeSize c)"
      "take (length ms) ns = ms" unfolding store_le_def by blast
    have "length ls \<le> length ms" using b committed_length that by force
    then have "take (length ls) ns = take (length ls) (take (length ms) ns)" by (simp add: min_def)
    with b c show ?thesis by (metis le_trans)
  qed
  moreover have "\<exists>h''. map_of (st_health u) k = Some h'' \<and> sh_lastCheckedAtSeconds h \<le> sh_lastCheckedAtSeconds h''"
    if "map_of (st_health s) k = Some h" for k h
    using that assms unfolding store_le_def by (meson order_trans)
  ultimately show ?thesis using assms unfolding store_le_def by blast
qed

text \<open>The leaf file after a commit over a committed state.\<close>

lemma commit_prior_leaves:
  assumes "commit sha io s hs st = (r, st')" and "committed st k a ls" and "k = stableName sha (ss_logOrigin s)"
  shows "\<exists>b ms. committed st' k b ms \<and> nat (ss_treeSize a) \<le> nat (ss_treeSize b) \<and> take (length ls) ms = ls"
  using assms(1)
proof (cases rule: commit_cases)
  case refused
  with assms(2) show ?thesis by force
next
  case (wrote prior n ext cosigs)
  from assms(2, 3) obtain bs where a: "map_of (st_states st) k = Some a" "map_of (st_leaves st) k = Some bs"
    "nat (ss_treeSize a) * 32 \<le> length bs" "ls = take (nat (ss_treeSize a) * 32) bs" by (auto simp: committed_def)
  have prior: "prior = Some a" using wrote(1) a(1) assms(3) by (auto simp: load_def rbind_Inr_iff split: option.splits)
  have n: "n = nat (ss_treeSize a)" using wrote(5) prior by simp
  have leaves: "map_of (st_leaves st') k = Some (ls @ ext)"
    using wrote(7) a assms(3) n by (simp add: ftruncate_shrink jsmap_simps)
  from wrote(12) show ?thesis
  proof
    assume "(\<exists>e. r = Inl e) \<and> st_states st' = st_states st"
    then have "committed st' k a ls" using leaves a by (simp add: committed_def)
    then show ?thesis by force
  next
    assume ok: "r = Inr () \<and> ext = concat (drop n hs)
         \<and> st_states st' = AList.update (stableName sha (ss_logOrigin s)) s (st_states st)
         \<and> map_of cosigs (cosignature_key sha s) = Some (ss_cosignature s)"
    have "length ls = n * 32" using a n by simp
    moreover have "\<forall>h \<in> set (drop n hs). length h = 32" using wrote(4) by (meson in_set_dropD)
    then have "length (concat (drop n hs)) = (length hs - n) * 32"
      using length_concat_entries [of "drop n hs" 32] by simp
    ultimately have "length (ls @ ext) = length hs * 32" using ok wrote(6) by (simp add: algebra_simps)
    then have "committed st' k s (ls @ ext)"
      using ok leaves assms(3) wrote(3) by (auto simp: committed_def jsmap_simps)
    moreover have "nat (ss_treeSize a) \<le> nat (ss_treeSize s)" using n wrote(3, 6) by simp
    ultimately show ?thesis by force
  qed
qed

lemma commit_le: "store_le st (snd (commit sha io s hs st))"
proof -
  obtain r st' where c: "commit sha io s hs st = (r, st')" by (cases "commit sha io s hs st")
  let ?name = "stableName sha (ss_logOrigin s)"
  have other: "committed st' k a ls" if "committed st k a ls" "k \<noteq> ?name" for k a ls
    using c
  proof (cases rule: commit_cases)
    case (wrote prior n ext cosigs)
    have "map_of (st_states st') k = map_of (st_states st) k" "map_of (st_leaves st') k = map_of (st_leaves st) k"
      using wrote(7, 12) that(2) by (auto simp: jsmap_simps)
    with that(1) show ?thesis by (simp add: committed_def)
  qed (use that in simp)
  have leaves: "\<exists>b ms. committed st' k b ms \<and> nat (ss_treeSize a) \<le> nat (ss_treeSize b) \<and> take (length ls) ms = ls"
    if "committed st k a ls" for k a ls
  proof (cases "k = ?name")
    case True
    then show ?thesis by (rule commit_prior_leaves [OF c that])
  next
    case False
    with other [OF that] show ?thesis by force
  qed
  have "st_health st' = st_health st" "st_incidents st' = st_incidents st"
    and "\<forall>p x. map_of (st_cosigs st) p = Some x \<longrightarrow> map_of (st_cosigs st') p = Some x"
    using c by (cases rule: commit_cases; auto simp: jsmap_simps)+
  with leaves c show ?thesis unfolding store_le_def by auto
qed

lemma recordCheck_le: "store_le st (snd (recordCheck sha ok logOrigin t err st))"
proof -
  obtain r st' where c: "recordCheck sha ok logOrigin t err st = (r, st')" by (cases "recordCheck sha ok logOrigin t err st")
  have same: "st_states st' = st_states st" "st_leaves st' = st_leaves st" "st_cosigs st' = st_cosigs st"
    "st_incidents st' = st_incidents st"
    using c by (auto simp: recordCheck_def Let_def split: if_splits sum.splits prod.splits)
  have "\<exists>h'. map_of (st_health st') k = Some h' \<and> sh_lastCheckedAtSeconds h \<le> sh_lastCheckedAtSeconds h'"
    if h: "map_of (st_health st) k = Some h" for k h
    using c h
    by (cases "k = stableName sha logOrigin")
      (auto simp: recordCheck_def Let_def writeDurably_def loadHealth_def rbind_Inr_iff jsmap_simps
        split: if_splits sum.splits option.splits)
  moreover have "committed st' = committed st" by (intro ext) (simp add: committed_def same)
  ultimately show ?thesis using store_le_refl [of st] c same unfolding store_le_def by auto
qed

lemma commitIncident_le: "store_le st (snd (commitIncident ok incident st))"
proof -
  obtain r st' where c: "commitIncident ok incident st = (r, st')" by (cases "commitIncident ok incident st")
  have same: "st_states st' = st_states st" "st_leaves st' = st_leaves st" "st_cosigs st' = st_cosigs st"
    "st_health st' = st_health st"
    using c by (auto simp: commitIncident_def split: sum.splits option.splits prod.splits)
  have "map_of (st_incidents st') p = Some i" if "map_of (st_incidents st) p = Some i" for p i
    using c that
    by (auto simp: commitIncident_def writeDurably_def jsmap_simps split: sum.splits option.splits if_splits)
  moreover have "committed st' = committed st" by (intro ext) (simp add: committed_def same)
  ultimately show ?thesis using store_le_refl [of st] c same unfolding store_le_def by auto
qed

interpretation store_machine: monotone_machine "store_step sha" store_le for sha
proof
  show "store_le s (store_step sha ev s)" for ev s
    by (cases ev) (simp_all add: store_step_def commit_le recordCheck_le commitIncident_le)
qed (fact store_le_refl, rule store_le_trans)

section \<open>Leaf hashes\<close>

lemma loadLeafHashes_concat:
  assumes "committed st (stableName sha (ss_logOrigin a)) a (concat hs)"
    and "\<forall>h \<in> set hs. length h = 32" and "int (length hs) = ss_treeSize a"
  shows "loadLeafHashes sha a st = Inr hs"
proof -
  have n: "nat (ss_treeSize a) = length hs" using assms(3) by simp
  from assms(1) obtain bs where bs: "map_of (st_leaves st) (stableName sha (ss_logOrigin a)) = Some bs"
    "length hs * 32 \<le> length bs" "take (length hs * 32) bs = concat hs"
    by (auto simp: committed_def n)
  then have "bs = concat hs @ drop (length hs * 32) bs" by (metis append_take_drop_id)
  then have "map (\<lambda>i. subarray (i * 32) ((i + 1) * 32) bs) [0 ..< length hs] = map ((!) hs) [0 ..< length hs]"
    using nth_concat_32 [OF assms(2)] by (metis (no_types, lifting) atLeastLessThan_iff map_eq_conv set_upt)
  with bs assms(3) show ?thesis by (auto simp: loadLeafHashes_def map_nth n)
qed

lemma loadLeafHashes_Inr:
  assumes "loadLeafHashes sha a st = Inr hs" and "0 \<le> ss_treeSize a"
  shows "\<forall>h \<in> set hs. length h = 32" and "int (length hs) = ss_treeSize a"
    and "map_of (st_states st) (stableName sha (ss_logOrigin a)) = Some a
         \<Longrightarrow> committed st (stableName sha (ss_logOrigin a)) a (concat hs)"
proof -
  from assms obtain bs where bs: "map_of (st_leaves st) (stableName sha (ss_logOrigin a)) = Some bs"
    "nat (ss_treeSize a) * 32 \<le> length bs"
    "hs = map (\<lambda>i. subarray (i * 32) ((i + 1) * 32) bs) [0 ..< nat (ss_treeSize a)]"
    by (auto simp: loadLeafHashes_def split: option.splits if_splits)
  show "\<forall>h \<in> set hs. length h = 32" using bs(2) by (auto simp: bs(3) subarray_def)
  show len: "int (length hs) = ss_treeSize a" using assms(2) by (simp add: bs(3))
  have "concat (map (\<lambda>i. subarray (i * 32) ((i + 1) * 32) bs) [0 ..< n]) = take (n * 32) bs"
    if "n * 32 \<le> length bs" for n
    using that
  proof (induction n)
    case (Suc n)
    then show ?case by (simp add: subarray_def take_add [of "n * 32" 32, symmetric] add.commute)
  qed simp
  with bs show "committed st (stableName sha (ss_logOrigin a)) a (concat hs)"
    if "map_of (st_states st) (stableName sha (ss_logOrigin a)) = Some a"
    using that by (auto simp: committed_def)
qed

section \<open>Properties\<close>

text \<open>Append-only history. Whatever sequence of commits, health checks and incident reports runs
  against the store, and however their writes fail, a committed tree size never falls, the leaf bytes it
  counts never change, and cosignatures and incidents once written are never replaced.\<close>

theorem witness_store_append_only: "store_le st (fold (store_step sha) evs st)"
  by (rule store_machine.run_le)

lemma commit_effect:
  assumes "load sha (ss_logOrigin s) st = Inr prior"
    and "\<And>p. prior = Some p \<Longrightarrow> loadLeafHashes sha p st = Inr old"
    and "prior = None \<Longrightarrow> old = []"
    and "take (length old) hs = old"
    and "commit sha io s hs st = (r, st')"
  shows "case r of
      Inl _ \<Rightarrow> load sha (ss_logOrigin s) st' = Inr prior
        \<and> (\<forall>p. prior = Some p \<longrightarrow> loadLeafHashes sha p st' = Inr old)
    | Inr _ \<Rightarrow> load sha (ss_logOrigin s) st' = Inr (Some s) \<and> loadLeafHashes sha s st' = Inr hs"
  using assms(5)
proof (cases rule: commit_cases)
  case refused
  with assms(1, 2) show ?thesis by auto
next
  case (wrote prior' n ext cosigs)
  let ?k = "stableName sha (ss_logOrigin s)"
  have prior': "prior' = prior" using wrote(1) assms(1) by simp
  have valid: "p = q \<Longrightarrow> load sha (ss_logOrigin s) st = Inr (Some p) \<Longrightarrow> ss_logOrigin p = ss_logOrigin s \<and> 1 \<le> ss_treeSize p" for p q
    by (auto simp: load_Some dest: validateState_Inr)
  have old: "n = length old" "\<forall>h \<in> set old. length h = 32"
    "ftruncate (n * 32) (case map_of (st_leaves st) ?k of None \<Rightarrow> [] | Some bs \<Rightarrow> bs) = concat old"
  proof (atomize (full), cases prior)
    case None
    with wrote(5) prior' assms(3) show "n = length old \<and> (\<forall>h \<in> set old. length h = 32)
        \<and> ftruncate (n * 32) (case map_of (st_leaves st) ?k of None \<Rightarrow> [] | Some bs \<Rightarrow> bs) = concat old"
      by (simp add: ftruncate_def)
  next
    case (Some p)
    note p = valid [OF refl assms(1) [unfolded Some]]
    note l = loadLeafHashes_Inr [OF assms(2) [OF Some]]
    have "map_of (st_states st) ?k = Some p" using assms(1) Some by (simp add: load_Some)
    then have "committed st ?k p (concat old)" using l(3) p by simp
    with l p wrote(5) prior' Some show "n = length old \<and> (\<forall>h \<in> set old. length h = 32)
        \<and> ftruncate (n * 32) (case map_of (st_leaves st) ?k of None \<Rightarrow> [] | Some bs \<Rightarrow> bs) = concat old"
      by (auto simp: committed_def ftruncate_shrink)
  qed
  have leaves: "map_of (st_leaves st') ?k = Some (concat old @ ext)"
    using wrote(7) old(3) by (simp add: jsmap_simps)
  from wrote(12) show ?thesis
  proof
    assume f: "(\<exists>e. r = Inl e) \<and> st_states st' = st_states st"
    then have "load sha (ss_logOrigin s) st' = Inr prior" using assms(1) by (simp add: load_def)
    moreover have "loadLeafHashes sha p st' = Inr old" if "prior = Some p" for p
    proof -
      note p = valid [OF refl assms(1) [unfolded that]]
      have "map_of (st_states st) ?k = Some p" using assms(1) that by (simp add: load_Some)
      then have "committed st' ?k p (concat old)"
        using f leaves p old wrote(5) prior' that length_concat_entries [OF old(2)] by (auto simp: committed_def)
      then show ?thesis
        using p old wrote(5) prior' that by (intro loadLeafHashes_concat) auto
    qed
    ultimately show ?thesis using f by auto
  next
    assume ok: "r = Inr () \<and> ext = concat (drop n hs) \<and> st_states st' = AList.update ?k s (st_states st)
         \<and> map_of cosigs (cosignature_key sha s) = Some (ss_cosignature s)"
    have "concat old @ ext = concat hs"
      using ok old(1) assms(4) by (metis append_take_drop_id concat_append)
    then have "committed st' ?k s (concat hs)"
      using ok leaves wrote(3) length_concat_entries [OF wrote(4)] by (auto simp: committed_def jsmap_simps)
    then have "loadLeafHashes sha s st' = Inr hs" using wrote(3, 4) by (intro loadLeafHashes_concat) auto
    moreover have "load sha (ss_logOrigin s) st' = Inr (Some s)"
      using ok wrote(2) by (simp add: load_Some jsmap_simps)
    ultimately show ?thesis using ok by simp
  qed
qed


definition toy_state :: StoredWitnessState where
  "toy_state = \<lparr>ss_logOrigin = ''log'', ss_treeSize = 1, ss_rootHashBase64 = base64Encode (pad32 [1]),
     ss_checkpointBody = [nl], ss_checkpointNote = [nl, nl], ss_cosignature = [nl], ss_witnessedAtSeconds = 5\<rparr>"


text \<open>Health files. A recorded check can be read back and followed by a later one, except after a
  failed check whose error message is empty: the file it writes fails \<open>validateHealth\<close>, and every later
  \<open>recordCheck\<close> and \<open>loadHealth\<close> for that log throws.\<close>

theorem health_readable_unless_empty_error:
  assumes "recordCheck sha ok logOrigin t err st = (Inr h, st')"
  shows "(err \<noteq> Some [] \<longrightarrow> loadHealth sha logOrigin st' = Inr (Some h)
        \<and> (t \<le> t' \<and> t' \<le> max_safe_integer \<longrightarrow> (\<exists>h'. fst (recordCheck sha True logOrigin t' err' st') = Inr h')))
    \<and> (err = Some [] \<longrightarrow> (\<exists>e. loadHealth sha logOrigin st' = Inl e)
        \<and> (\<exists>e. fst (recordCheck sha ok' logOrigin t' err' st') = Inl e))"
proof -
  obtain prior where load: "loadHealth sha logOrigin st = Inr prior"
    using assms by (cases "loadHealth sha logOrigin st") (auto simp: recordCheck_def split: if_splits)
  have t: "is_safe_integer t \<and> 0 \<le> t" using assms by (auto simp: recordCheck_def split: if_splits)
  have later: "\<not> (case prior of None \<Rightarrow> False | Some p \<Rightarrow> t < sh_lastCheckedAtSeconds p)"
    using assms load t by (auto simp: recordCheck_def split: if_splits)
  have ok: "ok" using assms load t later by (auto simp: recordCheck_def Let_def writeDurably_def split: if_splits)
  have w: "st' = st\<lparr>st_health := AList.update (stableName sha logOrigin) h (st_health st)\<rparr>"
    "h = \<lparr>sh_logOrigin = logOrigin, sh_lastCheckedAtSeconds = t,
        sh_lastSuccessfulCheckAtSeconds =
          (case err of None \<Rightarrow> Some t | Some _ \<Rightarrow> (case prior of None \<Rightarrow> None | Some p \<Rightarrow> sh_lastSuccessfulCheckAtSeconds p)),
        sh_lastError = err\<rparr>"
    using assms ok unfolding recordCheck_def load using t later by (simp_all add: writeDurably_def Let_def) blast
  have "case prior of None \<Rightarrow> True | Some q \<Rightarrow> validateHealth q logOrigin = Inr ()"
    using load by (auto simp: loadHealth_def rbind_Inr_iff split: option.splits)
  then have "validateHealth h logOrigin = Inr ()" if "err \<noteq> Some []"
    using that t later by (cases prior; cases err) (auto simp: w(2) validateHealth_def split: option.splits if_splits)
  then have good: "loadHealth sha logOrigin st' = Inr (Some h)" if "err \<noteq> Some []"
    using that by (simp add: w(1) loadHealth_def jsmap_simps)
  have bad: "\<exists>e. loadHealth sha logOrigin st' = Inl e" if "err = Some []"
    using that by (simp add: w loadHealth_def jsmap_simps validateHealth_def)
  have "\<exists>h'. fst (recordCheck sha True logOrigin t' err' st') = Inr h'"
    if "err \<noteq> Some []" "t \<le> t'" "t' \<le> max_safe_integer"
    using good [OF that(1)] that(2, 3) t w(2)
    by (simp add: recordCheck_def is_safe_integer_def max_safe_integer_def writeDurably_def Let_def)
  moreover have "\<exists>e. fst (recordCheck sha ok' logOrigin t' err' st') = Inl e" if "err = Some []"
    using bad [OF that] by (auto simp: recordCheck_def)
  ultimately show ?thesis using good bad by blast
qed

theorem health_readable_unless_empty_error_witness:
  "\<exists>h st' e. recordCheck pad32 True ''log'' 9 (Some []) empty_store = (Inr h, st') \<and> loadHealth pad32 ''log'' st' = Inl e"
proof -
  obtain h st' where *: "recordCheck pad32 True ''log'' 9 (Some []) empty_store = (Inr h, st')"
    by (simp add: recordCheck_def empty_store_def loadHealth_def writeDurably_def is_safe_integer_def max_safe_integer_def Let_def)
  from health_readable_unless_empty_error [OF this] * show ?thesis by blast
qed

end
