(* ===== verification/Witness_Node.thy ===== *)
theory Witness_Node
  imports Tile_Client Witness_Store
begin

text \<open>
  The witness itself (\<open>services/witness-node/src/witness.ts\<close>, \<open>server.ts\<close>): one check of a log, from the
  signed checkpoint over the leaf hashes and the gossip peers to the committed cosignature, the update
  loop around it with its health record, and the public routes. The cryptographic packages, JSON
  canonicalisation and locale comparison are the fields of a record; the network of one check, its
  clock and the outcomes of its writes are those of another.
\<close>

record externals =
  ex_sha :: "bytes \<Rightarrow> bytes"
  ex_canon :: "json \<Rightarrow> string option"
  ex_verify :: "bytes \<Rightarrow> bytes \<Rightarrow> bytes \<Rightarrow> bool"
  ex_pub :: "bytes \<Rightarrow> bytes"
  ex_sign :: "bytes \<Rightarrow> bytes \<Rightarrow> bytes"
  ex_compare :: "string \<Rightarrow> string \<Rightarrow> int"

record attempt =
  at_fetch :: "string \<Rightarrow> bytes result"
  at_nowSeconds :: int
  at_writes :: write_outcomes
  at_incident :: "CheckpointGossipIncident \<Rightarrow> bool"

section \<open>Text responses\<close>

text \<open>\<open>Buffer.toString('utf8')\<close> replaces every maximal ill-formed part of a sequence with U+FFFD.\<close>

definition utf8_lead :: "byte \<Rightarrow> (nat \<times> byte \<times> byte) option" where
  "utf8_lead b =
     (if b < 0x80 then Some (0, 0x80, 0xBF)
      else if 0xC2 \<le> b \<and> b \<le> 0xDF then Some (1, 0x80, 0xBF)
      else if 0xE0 \<le> b \<and> b \<le> 0xEF
        then Some (2, if b = 0xE0 then 0xA0 else 0x80, if b = 0xED then 0x9F else 0xBF)
      else if 0xF0 \<le> b \<and> b \<le> 0xF4
        then Some (3, if b = 0xF0 then 0x90 else 0x80, if b = 0xF4 then 0x8F else 0xBF)
      else None)"

fun utf8_cont :: "nat \<Rightarrow> byte \<Rightarrow> byte \<Rightarrow> bytes \<Rightarrow> (bytes option \<times> bytes)" where
  "utf8_cont 0 lo hi bs = (Some [], bs)"
| "utf8_cont (Suc n) lo hi [] = (None, [])"
| "utf8_cont (Suc n) lo hi (b # bs) =
     (if lo \<le> b \<and> b \<le> hi
      then (case utf8_cont n 0x80 0xBF bs of (r, rest) \<Rightarrow> (map_option ((#) b) r, rest))
      else (None, b # bs))"

lemma length_utf8_cont: "length (snd (utf8_cont n lo hi bs)) \<le> length bs"
  by (induction n lo hi bs rule: utf8_cont.induct) (auto split: prod.split)

definition replacement :: bytes where
  "replacement = [0xEF, 0xBF, 0xBD]"

function utf8_text :: "bytes \<Rightarrow> bytes" where
  "utf8_text [] = []"
| "utf8_text (b # bs) =
     (case utf8_lead b of
        None \<Rightarrow> replacement @ utf8_text bs
      | Some (n, lo, hi) \<Rightarrow>
          (case fst (utf8_cont n lo hi bs) of None \<Rightarrow> replacement | Some cs \<Rightarrow> b # cs)
            @ utf8_text (snd (utf8_cont n lo hi bs)))"
  by pat_completeness auto
termination by (relation "measure length") (auto simp: le_imp_less_Suc length_utf8_cont)

definition fetchText :: "attempt \<Rightarrow> string \<Rightarrow> string result" where
  "fetchText a url = rbind (at_fetch a url) (\<lambda>bytes. Inr (map (\<lambda>b. char_of (unat b)) (utf8_text bytes)))"

section \<open>One check\<close>

record WitnessGossipSource =
  gs_sourceId :: string
  gs_logBaseUrl :: string

record WitnessLogConfig =
  lc_logBaseUrl :: string
  lc_logKey :: TrustedCheckpointKey
  lc_gossipSources :: "WitnessGossipSource list"

record WitnessIdentity =
  wi_name :: string
  wi_privateKey :: bytes

datatype witness_status = Witnessed | Unchanged

record WitnessOnceResult =
  wr_status :: witness_status
  wr_treeSize :: int
  wr_rootHashBase64 :: string
  wr_cosignature :: string
  wr_gossipSourcesCompared :: nat

definition decodeHash :: "string \<Rightarrow> bytes result" where
  "decodeHash value =
     (let bytes = buffer_from_base64 value
      in if length bytes \<noteq> 32 then Inl ''stored checkpoint hash is malformed'' else Inr bytes)"

fun check_overlap :: "bytes list \<Rightarrow> nat \<Rightarrow> bytes list \<Rightarrow> unit result" where
  "check_overlap priorHashes absoluteIndex [] = Inr ()"
| "check_overlap priorHashes absoluteIndex (h # hs) =
     (if length priorHashes \<le> absoluteIndex then Inl ''TypeError: prior leaf hash is undefined''
      else if \<not> bytesEqual (priorHashes ! absoluteIndex) h
      then Inl (''checkpoint split view: leaf '' @ show_nat absoluteIndex @ '' changed'')
      else check_overlap priorHashes (absoluteIndex + 1) hs)"

definition observe_peer ::
  "externals \<Rightarrow> attempt \<Rightarrow> TrustedCheckpointKey \<Rightarrow> int \<Rightarrow> WitnessGossipSource \<Rightarrow> CheckpointGossipObservation result" where
  "observe_peer x a logKey observedAtMs source =
     rbind (fetchText a (stripTrailingSlash (gs_logBaseUrl source) @ ''/v1/checkpoint'')) (\<lambda>note.
       case verifyOperatorCheckpoint (ex_sha x) (ex_verify x) note logKey of
         Inl _ \<Rightarrow> Inr \<lparr>go_source_id = gs_sourceId source, go_observed_at_ms = of_int observedAtMs,
                       go_checkpoint_note = note, go_leaf_hashes = None\<rparr>
       | Inr checkpoint \<Rightarrow>
           rbind (fetchLeafHashRange (at_fetch a) (gs_logBaseUrl source) 0 (cn_treeSize checkpoint)) (\<lambda>range.
             Inr \<lparr>go_source_id = gs_sourceId source, go_observed_at_ms = of_int observedAtMs,
                  go_checkpoint_note = note, go_leaf_hashes = Some (map LeafBytes (fr_appended range))\<rparr>))"

fun commit_incidents ::
  "(CheckpointGossipIncident \<Rightarrow> bool) \<Rightarrow> CheckpointGossipIncident list \<Rightarrow> witness_store \<Rightarrow> unit result \<times> witness_store" where
  "commit_incidents ok [] st = (Inr (), st)"
| "commit_incidents ok (i # is) st =
     (case commitIncident (ok i) i st of
        (Inl e, st') \<Rightarrow> (Inl e, st')
      | (Inr _, st') \<Rightarrow> commit_incidents ok is st')"

definition status_text :: "gossip_status \<Rightarrow> string" where
  "status_text s = (case s of Consistent \<Rightarrow> ''consistent'' | Conflict \<Rightarrow> ''conflict''
     | Inconclusive \<Rightarrow> ''inconclusive'' | Invalid \<Rightarrow> ''invalid'')"

definition code_text :: "CheckpointGossipIssueCode \<Rightarrow> string" where
  "code_text c = (case c of Source_id_invalid \<Rightarrow> ''source_id_invalid'' | Observed_at_invalid \<Rightarrow> ''observed_at_invalid''
     | Checkpoint_invalid \<Rightarrow> ''checkpoint_invalid'' | Leaf_hashes_invalid \<Rightarrow> ''leaf_hashes_invalid'')"

definition gossip_failure :: "CheckpointGossipReport \<Rightarrow> string" where
  "gossip_failure gossip =
     (let incidentIds = join_with '', '' (map ic_incident_id (gr_incidents gossip))
      in ''checkpoint gossip '' @ status_text (gr_status gossip) @ '':''
         @ (if incidentIds \<noteq> [] then '' incident '' @ incidentIds
            else '' '' @ join_with '', ''
              (map (\<lambda>i. gi_source_id i @ '':'' @ code_text (gi_code i)) (gr_issues gossip))))"

definition check_gossip ::
  "externals \<Rightarrow> attempt \<Rightarrow> WitnessLogConfig \<Rightarrow> string \<Rightarrow> bytes list \<Rightarrow> witness_store \<Rightarrow> unit result \<times> witness_store" where
  "check_gossip x a cfg checkpointNote leafHashes st =
     (if lc_gossipSources cfg = [] then (Inr (), st)
      else let observedAtMs = at_nowSeconds a * 1000
        in (case rbind (map_result (observe_peer x a (lc_logKey cfg) observedAtMs) (lc_gossipSources cfg))
              (\<lambda>peerObservations. analyzeCheckpointGossip (ex_sha x) (ex_canon x) (ex_verify x) (ex_compare x)
                 (\<lparr>go_source_id = ''primary:'' @ stripTrailingSlash (lc_logBaseUrl cfg),
                   go_observed_at_ms = of_int observedAtMs, go_checkpoint_note = checkpointNote,
                   go_leaf_hashes = Some (map LeafBytes leafHashes)\<rparr> # peerObservations) (lc_logKey cfg)) of
              Inl e \<Rightarrow> (Inl e, st)
            | Inr gossip \<Rightarrow>
                (case commit_incidents (at_incident a) (gr_incidents gossip) st of
                   (Inl e, st') \<Rightarrow> (Inl e, st')
                 | (Inr _, st') \<Rightarrow>
                     (if gr_status gossip = Consistent then Inr ()
                      else Inl (gossip_failure gossip), st'))))"

definition gather_leaves ::
  "externals \<Rightarrow> attempt \<Rightarrow> WitnessLogConfig \<Rightarrow> ParsedCheckpointNote \<Rightarrow> StoredWitnessState option \<Rightarrow> witness_store
   \<Rightarrow> bytes list result" where
  "gather_leaves x a cfg checkpoint prior st =
     rbind (case prior of None \<Rightarrow> Inr [] | Some p \<Rightarrow> loadLeafHashes (ex_sha x) p st) (\<lambda>priorHashes.
     rbind (if (case prior of None \<Rightarrow> False | Some p \<Rightarrow> int (cn_treeSize checkpoint) = ss_treeSize p)
            then Inr \<lparr>fr_appended = [], fr_overlap = None, fr_overlapStart = length priorHashes\<rparr>
            else fetchLeafHashRange (at_fetch a) (lc_logBaseUrl cfg) (length priorHashes) (cn_treeSize checkpoint))
       (\<lambda>fetched.
     rbind (case fr_overlap fetched of None \<Rightarrow> Inr ()
            | Some overlap \<Rightarrow> check_overlap priorHashes (fr_overlapStart fetched) overlap) (\<lambda>_.
     let leafHashes = priorHashes @ fr_appended fetched
     in rbind (case prior of None \<Rightarrow> Inr None
               | Some p \<Rightarrow> rbind (decodeHash (ss_rootHashBase64 p))
                   (\<lambda>h. Inr (Some \<lparr>cv_treeSize = ss_treeSize p, cv_rootHash = h\<rparr>))) (\<lambda>view.
        rbind (verifyCheckpointConsistencyFromLeafHashes (ex_sha x) view
                 \<lparr>cv_treeSize = int (cn_treeSize checkpoint), cv_rootHash = cn_rootHash checkpoint\<rparr> leafHashes)
          (\<lambda>consistent. if \<not> consistent then Inl ''checkpoint consistency verification failed''
                        else Inr leafHashes)))))"

definition cosign_and_commit ::
  "externals \<Rightarrow> attempt \<Rightarrow> WitnessLogConfig \<Rightarrow> WitnessIdentity \<Rightarrow> string \<Rightarrow> ParsedCheckpointNote \<Rightarrow> bytes list
   \<Rightarrow> witness_store \<Rightarrow> WitnessOnceResult result \<times> witness_store" where
  "cosign_and_commit x a cfg identity checkpointNote checkpoint leafHashes st =
     (let rootHashBase64 = base64Encode (cn_rootHash checkpoint);
          rootHashBase64url = base64urlEncode (cn_rootHash checkpoint)
      in case rbind (getCosignature (ex_sha x) (cn_origin checkpoint) rootHashBase64url st) (\<lambda>existing.
                case existing of Some c \<Rightarrow> Inr c
                | None \<Rightarrow> createWitnessCosignature (ex_sha x) (ex_pub x) (ex_sign x) (cn_body checkpoint)
                            (wi_name identity) (wi_privateKey identity) (at_nowSeconds a)) of
           Inl e \<Rightarrow> (Inl e, st)
         | Inr cosignature \<Rightarrow>
             let state = \<lparr>ss_logOrigin = cn_origin checkpoint, ss_treeSize = int (cn_treeSize checkpoint),
                   ss_rootHashBase64 = rootHashBase64, ss_checkpointBody = cn_body checkpoint,
                   ss_checkpointNote = checkpointNote, ss_cosignature = cosignature,
                   ss_witnessedAtSeconds = at_nowSeconds a\<rparr>
             in (case commit (ex_sha x) (at_writes a) state leafHashes st of
                   (Inl e, st') \<Rightarrow> (Inl e, st')
                 | (Inr _, st') \<Rightarrow>
                     (Inr \<lparr>wr_status = Witnessed, wr_treeSize = int (cn_treeSize checkpoint),
                           wr_rootHashBase64 = rootHashBase64, wr_cosignature = cosignature,
                           wr_gossipSourcesCompared = length (lc_gossipSources cfg)\<rparr>, st')))"

text \<open>A check from the verified checkpoint and the prior state on.\<close>

definition witness_checkpoint ::
  "externals \<Rightarrow> WitnessLogConfig \<Rightarrow> WitnessIdentity \<Rightarrow> attempt \<Rightarrow> string \<Rightarrow> ParsedCheckpointNote
   \<Rightarrow> StoredWitnessState option \<Rightarrow> witness_store \<Rightarrow> WitnessOnceResult result \<times> witness_store" where
  "witness_checkpoint x cfg identity a checkpointNote checkpoint prior st =
     (let rootHashBase64 = base64Encode (cn_rootHash checkpoint);
          unchanged = (case prior of None \<Rightarrow> False | Some p \<Rightarrow> int (cn_treeSize checkpoint) = ss_treeSize p);
          result = \<lparr>wr_status = Unchanged, wr_treeSize = ss_treeSize (the prior),
                    wr_rootHashBase64 = rootHashBase64, wr_cosignature = ss_cosignature (the prior),
                    wr_gossipSourcesCompared = length (lc_gossipSources cfg)\<rparr>
      in if (case prior of None \<Rightarrow> False | Some p \<Rightarrow> int (cn_treeSize checkpoint) < ss_treeSize p)
         then (Inl (''checkpoint rollback: '' @ show_nat (cn_treeSize checkpoint) @ '' is below witnessed size ''
                 @ show_nat (nat (ss_treeSize (the prior)))), st)
         else if unchanged \<and> rootHashBase64 \<noteq> ss_rootHashBase64 (the prior)
         then (Inl ''checkpoint split view: same tree size has a different root'', st)
         else if unchanged \<and> lc_gossipSources cfg = [] then (Inr result, st)
         else (case gather_leaves x a cfg checkpoint prior st of
                 Inl e \<Rightarrow> (Inl e, st)
               | Inr leafHashes \<Rightarrow>
                   (case check_gossip x a cfg checkpointNote leafHashes st of
                      (Inl e, st') \<Rightarrow> (Inl e, st')
                    | (Inr _, st') \<Rightarrow>
                        if unchanged then (Inr result, st')
                        else cosign_and_commit x a cfg identity checkpointNote checkpoint leafHashes st')))"

definition witnessOnce ::
  "externals \<Rightarrow> WitnessLogConfig \<Rightarrow> WitnessIdentity \<Rightarrow> attempt \<Rightarrow> witness_store
   \<Rightarrow> WitnessOnceResult result \<times> witness_store" where
  "witnessOnce x cfg identity a st =
     (case fetchText a (stripTrailingSlash (lc_logBaseUrl cfg) @ ''/v1/checkpoint'') of
        Inl e \<Rightarrow> (Inl e, st)
      | Inr checkpointNote \<Rightarrow>
          (case verifyOperatorCheckpoint (ex_sha x) (ex_verify x) checkpointNote (lc_logKey cfg) of
             Inl reason \<Rightarrow> (Inl (''operator checkpoint rejected: '' @ reason), st)
           | Inr checkpoint \<Rightarrow>
               (case load (ex_sha x) (cn_origin checkpoint) st of
                  Inl e \<Rightarrow> (Inl e, st)
                | Inr prior \<Rightarrow> witness_checkpoint x cfg identity a checkpointNote checkpoint prior st)))"

section \<open>The update loop\<close>

text \<open>The clock is read again when the check has ended, and once more in the handler of a failure.\<close>

record update_attempt =
  ua_attempt :: attempt
  ua_doneSeconds :: int
  ua_doneWrite :: bool
  ua_failedSeconds :: int
  ua_failedWrite :: bool

definition update_failed ::
  "externals \<Rightarrow> WitnessLogConfig \<Rightarrow> update_attempt \<Rightarrow> string \<Rightarrow> witness_store \<Rightarrow> unit result \<times> witness_store" where
  "update_failed x cfg u err st =
     (case recordCheck (ex_sha x) (ua_failedWrite u) (tk_name (lc_logKey cfg)) (ua_failedSeconds u) (Some err) st of
        (Inl e, st') \<Rightarrow> (Inl e, st')
      | (Inr _, st') \<Rightarrow> (Inl err, st'))"

definition update ::
  "externals \<Rightarrow> WitnessLogConfig \<Rightarrow> WitnessIdentity \<Rightarrow> update_attempt \<Rightarrow> witness_store \<Rightarrow> unit result \<times> witness_store" where
  "update x cfg identity u st =
     (case witnessOnce x cfg identity (ua_attempt u) st of
        (Inl e, st1) \<Rightarrow> update_failed x cfg u e st1
      | (Inr _, st1) \<Rightarrow>
          (case recordCheck (ex_sha x) (ua_doneWrite u) (tk_name (lc_logKey cfg)) (ua_doneSeconds u) None st1 of
             (Inl e, st2) \<Rightarrow> update_failed x cfg u e st2
           | (Inr _, st2) \<Rightarrow> (Inr (), st2)))"

section \<open>What a check leaves alone\<close>

definition same_history :: "witness_store \<Rightarrow> witness_store \<Rightarrow> bool" where
  "same_history s t \<longleftrightarrow> st_states s = st_states t \<and> st_leaves s = st_leaves t \<and> st_cosigs s = st_cosigs t"

lemma same_history_refl [simp]: "same_history s s"
  by (simp add: same_history_def)

lemma same_history_trans: "same_history s t \<Longrightarrow> same_history t u \<Longrightarrow> same_history s u"
  by (simp add: same_history_def)

lemma load_same: "same_history s t \<Longrightarrow> load sha origin t = load sha origin s"
  by (simp add: load_def same_history_def)

lemma loadLeafHashes_same: "same_history s t \<Longrightarrow> loadLeafHashes sha p t = loadLeafHashes sha p s"
  by (simp add: loadLeafHashes_def same_history_def)

lemma recordCheck_same: "same_history st (snd (recordCheck sha ok origin t err st))"
  by (auto simp: recordCheck_def same_history_def Let_def split: if_splits sum.splits prod.splits)

lemma commitIncident_same: "same_history st (snd (commitIncident ok i st))"
  by (auto simp: commitIncident_def same_history_def split: sum.splits option.splits prod.splits)

lemma commit_incidents_same: "same_history st (snd (commit_incidents ok is st))"
proof (induction ok "is" st rule: commit_incidents.induct)
  case (2 ok i "is" st)
  then show ?case
    using commitIncident_same [of st "ok i" i]
    by (auto split: prod.splits sum.splits intro: same_history_trans)
qed simp

lemma check_gossip_same: "same_history st (snd (check_gossip x a cfg note hs st))"
  using commit_incidents_same [of st "at_incident a"]
  by (auto simp: check_gossip_def Let_def split: sum.splits prod.splits) (metis snd_conv)+

section \<open>What a check establishes\<close>

lemma consistency_current:
  assumes "verifyCheckpointConsistencyFromLeafHashes sha prior c hs = Inr True"
  shows "\<forall>h \<in> set hs. length h = 32" and "int (length hs) = cv_treeSize c" and "mth sha hs = cv_rootHash c"
    and "hs \<noteq> []"
proof -
  from assms have *: "1 \<le> cv_treeSize c" "int (length hs) = cv_treeSize c"
    "checkpointRootFromLeafHashes sha hs = Inr (cv_rootHash c)"
    by (auto simp: verifyCheckpointConsistencyFromLeafHashes_def rbind_Inr_iff split: if_splits)
  then show "hs \<noteq> []" "int (length hs) = cv_treeSize c" by auto
  then show "\<forall>h \<in> set hs. length h = 32" "mth sha hs = cv_rootHash c"
    using *(3) by (auto simp: checkpointRootFromLeafHashes_Inr)
qed

lemma gather_leaves_Inr:
  assumes "gather_leaves x a cfg c prior st = Inr hs"
  obtains old new where "hs = old @ new" "prior = None \<Longrightarrow> old = []"
    "\<And>p. prior = Some p \<Longrightarrow> loadLeafHashes (ex_sha x) p st = Inr old"
    "length hs = cn_treeSize c" "mth (ex_sha x) hs = cn_rootHash c" "\<forall>h \<in> set hs. length h = 32"
proof -
  have "\<exists>old new view. (case prior of None \<Rightarrow> Inr [] | Some p \<Rightarrow> loadLeafHashes (ex_sha x) p st) = Inr old
      \<and> hs = old @ new
      \<and> verifyCheckpointConsistencyFromLeafHashes (ex_sha x) view
          \<lparr>cv_treeSize = int (cn_treeSize c), cv_rootHash = cn_rootHash c\<rparr> hs = Inr True"
    using assms unfolding gather_leaves_def Let_def rbind_Inr_iff by (fastforce split: if_splits)
  then obtain old new view where *: "(case prior of None \<Rightarrow> Inr [] | Some p \<Rightarrow> loadLeafHashes (ex_sha x) p st) = Inr old"
    "hs = old @ new"
    "verifyCheckpointConsistencyFromLeafHashes (ex_sha x) view
       \<lparr>cv_treeSize = int (cn_treeSize c), cv_rootHash = cn_rootHash c\<rparr> hs = Inr True" by blast
  show thesis
    using that [of old new] * consistency_current [OF *(3)] by (cases prior) auto
qed

text \<open>What a store witnesses of a log: nothing, or a state whose root is that of its leaf hashes.\<close>

definition witnesses :: "(bytes \<Rightarrow> bytes) \<Rightarrow> string \<Rightarrow> witness_store \<Rightarrow> bytes list \<Rightarrow> bool" where
  "witnesses sha origin st hs \<longleftrightarrow>
     load sha origin st = Inr None \<and> hs = []
     \<or> (\<exists>p. load sha origin st = Inr (Some p) \<and> loadLeafHashes sha p st = Inr hs
            \<and> ss_rootHashBase64 p = base64Encode (mth sha hs))"

lemma witnesses_same: "same_history s t \<Longrightarrow> witnesses sha origin t = witnesses sha origin s"
  by (intro ext) (simp add: witnesses_def load_same loadLeafHashes_same)

definition reports :: "(bytes \<Rightarrow> bytes) \<Rightarrow> WitnessOnceResult \<Rightarrow> bytes list \<Rightarrow> bool" where
  "reports sha r hs \<longleftrightarrow>
     hs \<noteq> [] \<and> wr_treeSize r = int (length hs) \<and> wr_rootHashBase64 r = base64Encode (mth sha hs)"

text \<open>The ways a check ends: its history is as before, or it ends in a commit over that history.\<close>

lemma witness_checkpoint_cases:
  assumes "witness_checkpoint x cfg identity a nt c prior st = (r, st')"
  obtains (failed) "same_history st st'" "\<exists>e. r = Inl e"
  | (unchanged) res p where "same_history st st'" "r = Inr res" "prior = Some p"
      "wr_treeSize res = ss_treeSize p" "wr_rootHashBase64 res = ss_rootHashBase64 p" "wr_cosignature res = ss_cosignature p"
  | (committed) hs st1 where "gather_leaves x a cfg c prior st = Inr hs" "same_history st st1"
      "cosign_and_commit x a cfg identity nt c hs st1 = (r, st')"
proof -
  have gossip: "same_history st st1" if "check_gossip x a cfg nt hs st = (g, st1)" for hs g st1
    using check_gossip_same [of st x a cfg nt hs] that by simp
  consider "same_history st st'" "\<exists>e. r = Inl e"
    | p where "same_history st st'" "prior = Some p" "ss_rootHashBase64 p = base64Encode (cn_rootHash c)"
        "r = Inr \<lparr>wr_status = Unchanged, wr_treeSize = ss_treeSize p,
               wr_rootHashBase64 = base64Encode (cn_rootHash c), wr_cosignature = ss_cosignature p,
               wr_gossipSourcesCompared = length (lc_gossipSources cfg)\<rparr>"
    | hs st1 where "gather_leaves x a cfg c prior st = Inr hs" "same_history st st1"
        "cosign_and_commit x a cfg identity nt c hs st1 = (r, st')"
    using assms gossip unfolding witness_checkpoint_def Let_def
    by (auto split: if_splits option.splits sum.splits prod.splits) blast+
  then show thesis
  proof cases
    case (2 p)
    then show thesis using unchanged [OF 2(1) 2(4) 2(2)] by simp
  qed (use failed committed in blast)+
qed

lemma witnessOnce_cases:
  assumes "witnessOnce x cfg identity a st = (r, st')"
  obtains (failed) "st' = st" "\<exists>e. r = Inl e"
  | (verified) nt c prior where
      "verifyOperatorCheckpoint (ex_sha x) (ex_verify x) nt (lc_logKey cfg) = Inr c"
      "load (ex_sha x) (tk_name (lc_logKey cfg)) st = Inr prior"
      "witness_checkpoint x cfg identity a nt c prior st = (r, st')"
  using assms operator_checkpoint_Inr(1)
  by (fastforce simp: witnessOnce_def split: sum.splits)

section \<open>History is append-only\<close>

lemma cosign_and_commit_cases:
  assumes "cosign_and_commit x a cfg identity nt c hs st = (r, st')"
  obtains (failed) "st' = st" "\<exists>e. r = Inl e"
  | (wrote) s q where "commit (ex_sha x) (at_writes a) s hs st = (q, st')"
      "ss_logOrigin s = cn_origin c" "ss_treeSize s = int (cn_treeSize c)"
      "ss_rootHashBase64 s = base64Encode (cn_rootHash c)"
      "map_of (st_cosigs st) (cosignature_key (ex_sha x) s) = Some (ss_cosignature s)
       \<or> createWitnessCosignature (ex_sha x) (ex_pub x) (ex_sign x) (cn_body c) (wi_name identity) (wi_privateKey identity)
           (at_nowSeconds a) = Inr (ss_cosignature s)"
      "(\<exists>e. q = Inl e \<and> r = Inl e)
       \<or> q = Inr () \<and> (\<exists>res. r = Inr res \<and> wr_treeSize res = ss_treeSize s \<and> wr_rootHashBase64 res = ss_rootHashBase64 s
           \<and> wr_cosignature res = ss_cosignature s)"
proof -
  let ?get = "rbind (getCosignature (ex_sha x) (cn_origin c) (base64urlEncode (cn_rootHash c)) st) (\<lambda>existing.
      case existing of Some c \<Rightarrow> Inr c
      | None \<Rightarrow> createWitnessCosignature (ex_sha x) (ex_pub x) (ex_sign x) (cn_body c)
                  (wi_name identity) (wi_privateKey identity) (at_nowSeconds a))"
  show thesis
  proof (cases ?get)
    case (Inl e)
    then show thesis using assms failed by (auto simp: cosign_and_commit_def Let_def)
  next
    case (Inr sig)
    let ?s = "\<lparr>ss_logOrigin = cn_origin c, ss_treeSize = int (cn_treeSize c), ss_rootHashBase64 = base64Encode (cn_rootHash c),
       ss_checkpointBody = cn_body c, ss_checkpointNote = nt, ss_cosignature = sig, ss_witnessedAtSeconds = at_nowSeconds a\<rparr>"
    obtain q st2 where q: "commit (ex_sha x) (at_writes a) ?s hs st = (q, st2)"
      by (cases "commit (ex_sha x) (at_writes a) ?s hs st")
    have "map_of (st_cosigs st) (cosignature_key (ex_sha x) ?s) = Some sig
       \<or> createWitnessCosignature (ex_sha x) (ex_pub x) (ex_sign x) (cn_body c) (wi_name identity) (wi_privateKey identity)
           (at_nowSeconds a) = Inr sig"
      using Inr by (auto simp: rbind_Inr_iff getCosignature_def cosignaturePath_def cosignature_key_def split: option.splits if_splits)
    moreover have "st2 = st'" using assms Inr q by (auto simp: cosign_and_commit_def Let_def split: sum.splits)
    ultimately show thesis
      using wrote [of ?s q] assms Inr q by (cases q) (auto simp: cosign_and_commit_def Let_def)
  qed
qed

lemma cosign_and_commit_witnesses:
  assumes "cosign_and_commit x a cfg identity nt c hs st = (r, st')"
    and "witnesses (ex_sha x) (cn_origin c) st old" and "load (ex_sha x) (cn_origin c) st = Inr prior"
    and "hs = old @ new" and "length hs = cn_treeSize c" and "mth (ex_sha x) hs = cn_rootHash c" and "1 \<le> cn_treeSize c"
  shows "(\<exists>e. r = Inl e) \<and> witnesses (ex_sha x) (cn_origin c) st' old
    \<or> (\<exists>res. r = Inr res \<and> reports (ex_sha x) res hs) \<and> witnesses (ex_sha x) (cn_origin c) st' hs"
  using assms(1)
proof (cases rule: cosign_and_commit_cases)
  case failed
  then show ?thesis using assms(2) by auto
next
  case (wrote s q)
  have hist: "loadLeafHashes (ex_sha x) p st = Inr old" "ss_rootHashBase64 p = base64Encode (mth (ex_sha x) old)"
    if "prior = Some p" for p using assms(2, 3) that by (auto simp: witnesses_def)
  have none: "old = []" if "prior = None" using assms(2, 3) that by (auto simp: witnesses_def)
  have "case q of
      Inl _ \<Rightarrow> load (ex_sha x) (cn_origin c) st' = Inr prior
        \<and> (\<forall>p. prior = Some p \<longrightarrow> loadLeafHashes (ex_sha x) p st' = Inr old)
    | Inr _ \<Rightarrow> load (ex_sha x) (cn_origin c) st' = Inr (Some s) \<and> loadLeafHashes (ex_sha x) s st' = Inr hs"
    using commit_effect [OF _ hist(1) none _ wrote(1)] assms(3, 4) unfolding wrote(2) by simp
  then show ?thesis
    using wrote(3, 4, 6) assms(5-7) hist(2) none
    by (cases q; cases prior) (auto simp: witnesses_def reports_def)
qed

lemma witnessOnce_witnesses:
  assumes "witnessOnce x cfg identity a st = (r, st')" and "witnesses (ex_sha x) (tk_name (lc_logKey cfg)) st old"
  shows "\<exists>new. witnesses (ex_sha x) (tk_name (lc_logKey cfg)) st' (old @ new)
    \<and> (\<forall>res. r = Inr res \<longrightarrow> reports (ex_sha x) res (old @ new))"
  using assms(1)
proof (cases rule: witnessOnce_cases)
  case failed
  then show ?thesis using assms(2) by (intro exI [of _ "[]"]) auto
next
  case (verified nt c prior)
  note origin = operator_checkpoint_Inr(1, 2) [OF verified(1)]
  from verified(3) show ?thesis
  proof (cases rule: witness_checkpoint_cases)
    case failed
    then show ?thesis using assms(2) by (intro exI [of _ "[]"]) (auto simp: witnesses_same)
  next
    case (unchanged res p)
    have "loadLeafHashes (ex_sha x) p st = Inr old" "ss_rootHashBase64 p = base64Encode (mth (ex_sha x) old)"
      using assms(2) verified(2) unchanged(3) by (auto simp: witnesses_def)
    moreover have "1 \<le> ss_treeSize p" using verified(2) unchanged(3) validateState_Inr by (auto simp: load_Some)
    ultimately have "reports (ex_sha x) res old"
      using unchanged loadLeafHashes_Inr(2) [of "ex_sha x" p st old] by (auto simp: reports_def)
    with unchanged assms(2) show ?thesis by (intro exI [of _ "[]"]) (auto simp: witnesses_same)
  next
    case (committed hs st1)
    from committed(1) obtain old' new where g: "hs = old' @ new" "prior = None \<Longrightarrow> old' = []"
      "\<And>p. prior = Some p \<Longrightarrow> loadLeafHashes (ex_sha x) p st = Inr old'"
      "length hs = cn_treeSize c" "mth (ex_sha x) hs = cn_rootHash c" by (rule gather_leaves_Inr) blast
    have "old' = old" using assms(2) verified(2) g(2, 3) by (cases prior) (auto simp: witnesses_def)
    then have "(\<exists>e. r = Inl e) \<and> witnesses (ex_sha x) (tk_name (lc_logKey cfg)) st' old
        \<or> (\<exists>res. r = Inr res \<and> reports (ex_sha x) res (old @ new)) \<and> witnesses (ex_sha x) (tk_name (lc_logKey cfg)) st' (old @ new)"
      using cosign_and_commit_witnesses [OF committed(3), of old prior new] assms(2) verified(2) g origin
        witnesses_same [OF committed(2)] load_same [OF committed(2)] by simp
    then show ?thesis
    proof
      assume "(\<exists>e. r = Inl e) \<and> witnesses (ex_sha x) (tk_name (lc_logKey cfg)) st' old"
      then show ?thesis by (intro exI [of _ "[]"]) auto
    qed (intro exI [of _ new], auto)
  qed
qed

lemma update_failed_same: "same_history st (snd (update_failed x cfg u err st))"
  using recordCheck_same [of st "ex_sha x" "ua_failedWrite u" "tk_name (lc_logKey cfg)" "ua_failedSeconds u" "Some err"]
  by (auto simp: update_failed_def split: prod.splits sum.splits)

lemma update_same:
  assumes "witnessOnce x cfg identity (ua_attempt u) st = (r, st1)"
  shows "same_history st1 (snd (update x cfg identity u st))"
proof -
  let ?rec = "recordCheck (ex_sha x) (ua_doneWrite u) (tk_name (lc_logKey cfg)) (ua_doneSeconds u) None st1"
  have "same_history st1 (snd ?rec)" by (rule recordCheck_same)
  then show ?thesis
    using assms update_failed_same [of st1 x cfg u] update_failed_same [of "snd ?rec" x cfg u]
    by (cases r; cases ?rec; cases "fst ?rec") (auto simp: update_def intro: same_history_trans)
qed

text \<open>The witness as a machine whose steps are updates, ordered by what the store witnesses.\<close>

definition witness_step :: "externals \<Rightarrow> WitnessLogConfig \<Rightarrow> WitnessIdentity \<Rightarrow> update_attempt \<Rightarrow> witness_store \<Rightarrow> witness_store" where
  "witness_step x cfg identity u st = snd (update x cfg identity u st)"

definition history_le :: "(bytes \<Rightarrow> bytes) \<Rightarrow> string \<Rightarrow> witness_store \<Rightarrow> witness_store \<Rightarrow> bool" where
  "history_le sha origin s t \<longleftrightarrow> (\<forall>hs. witnesses sha origin s hs \<longrightarrow> (\<exists>new. witnesses sha origin t (hs @ new)))"

interpretation witness_machine: monotone_machine "witness_step x cfg identity"
    "history_le (ex_sha x) (tk_name (lc_logKey cfg))" for x cfg identity
proof
  show "history_le (ex_sha x) (tk_name (lc_logKey cfg)) s s" for s
    by (auto simp: history_le_def intro: exI [of _ "[]"])
  show "history_le (ex_sha x) (tk_name (lc_logKey cfg)) s u"
    if "history_le (ex_sha x) (tk_name (lc_logKey cfg)) s t" "history_le (ex_sha x) (tk_name (lc_logKey cfg)) t u" for s t u
    using that unfolding history_le_def by (metis append.assoc)
  show "history_le (ex_sha x) (tk_name (lc_logKey cfg)) s (witness_step x cfg identity u s)" for u s
  proof -
    obtain r st1 where "witnessOnce x cfg identity (ua_attempt u) s = (r, st1)"
      by (cases "witnessOnce x cfg identity (ua_attempt u) s")
    from witnessOnce_witnesses [OF this] update_same [OF this] show ?thesis
      unfolding history_le_def witness_step_def by (metis witnesses_same)
  qed
qed

lemma empty_witnesses: "witnesses sha origin empty_store []"
  by (simp add: witnesses_def load_def empty_store_def)

end
