(* ===== verification/Witness_Liveness.thy ===== *)
theory Witness_Liveness
  imports Witness_Node
begin

text \<open>
  A witness against a log that serves its checkpoint and tiles as \<open>services/log-node/src/server.ts\<close> does: what it has
  cosigned, that one check catches up with the log, and what a crash between the two durable writes of
  \<open>WitnessStore.commit\<close> leaves behind.
\<close>

section \<open>Cosignatures are backed by verified trees\<close>

definition cosigs_backed :: "externals \<Rightarrow> WitnessLogConfig \<Rightarrow> WitnessIdentity \<Rightarrow> witness_store \<Rightarrow> bool" where
  "cosigs_backed x cfg identity st \<longleftrightarrow>
     (\<forall>k sig. map_of (st_cosigs st) k = Some sig \<longrightarrow>
        (\<exists>hs t. hs \<noteq> [] \<and> (\<forall>h \<in> set hs. length h = 32)
           \<and> k = (stableName (ex_sha x) (tk_name (lc_logKey cfg)), base64urlEncode (mth (ex_sha x) hs))
           \<and> createWitnessCosignature (ex_sha x) (ex_pub x) (ex_sign x)
               (formatCheckpointBody (tk_name (lc_logKey cfg)) (length hs) (mth (ex_sha x) hs))
               (wi_name identity) (wi_privateKey identity) t = Inr sig))"

lemma backed_same: "same_history s t \<Longrightarrow> cosigs_backed x cfg identity t = cosigs_backed x cfg identity s"
  by (simp add: cosigs_backed_def same_history_def)

lemma cosign_and_commit_backed:
  assumes "cosigs_backed x cfg identity st" and "cosign_and_commit x a cfg identity nt c hs st = (r, st')"
    and "cn_origin c = tk_name (lc_logKey cfg)" and "cn_body c = formatCheckpointBody (cn_origin c) (cn_treeSize c) (cn_rootHash c)"
    and "length hs = cn_treeSize c" and "1 \<le> cn_treeSize c" and "mth (ex_sha x) hs = cn_rootHash c" and "\<forall>h \<in> set hs. length h = 32"
  shows "cosigs_backed x cfg identity st'"
  using assms(2)
proof (cases rule: cosign_and_commit_cases)
  case (wrote s q)
  from wrote(1) show ?thesis
  proof (cases rule: commit_cases)
    case (wrote prior n ext cosigs)
    show ?thesis
    proof (cases "cosigs = st_cosigs st")
      case True
      with wrote(10) assms(1) show ?thesis by (simp add: cosigs_backed_def)
    next
      case False
      with wrote(11) have new: "map_of (st_cosigs st) (cosignature_key (ex_sha x) s) = None"
        "cosigs = AList.update (cosignature_key (ex_sha x) s) (ss_cosignature s) (st_cosigs st)" by auto
      have key: "cosignature_key (ex_sha x) s
          = (stableName (ex_sha x) (tk_name (lc_logKey cfg)), base64urlEncode (mth (ex_sha x) hs))"
        using \<open>ss_logOrigin s = cn_origin c\<close> \<open>ss_rootHashBase64 s = base64Encode (cn_rootHash c)\<close> assms(3, 7)
        by (simp add: cosignature_key_def)
      have "createWitnessCosignature (ex_sha x) (ex_pub x) (ex_sign x)
          (formatCheckpointBody (tk_name (lc_logKey cfg)) (length hs) (mth (ex_sha x) hs))
          (wi_name identity) (wi_privateKey identity) (at_nowSeconds a) = Inr (ss_cosignature s)"
        using new(1) \<open>_ \<or> createWitnessCosignature _ _ _ _ _ _ _ = _\<close> assms(3-5, 7) by simp
      moreover have "hs \<noteq> []" using assms(5, 6) by auto
      ultimately show ?thesis
        using assms(1, 8) key unfolding cosigs_backed_def wrote(10) new(2) by (auto simp: jsmap_simps)
    qed
  qed (use assms(1) in simp)
qed (use assms(1) in simp)

lemma witnessOnce_backed:
  assumes "cosigs_backed x cfg identity st" and "witnessOnce x cfg identity a st = (r, st')"
  shows "cosigs_backed x cfg identity st'"
  using assms(2)
proof (cases rule: witnessOnce_cases)
  case (verified nt c prior)
  note op = operator_checkpoint_Inr [OF verified(1)]
  from verified(3) show ?thesis
  proof (cases rule: witness_checkpoint_cases)
    case (committed hs st1)
    from committed(1) have "length hs = cn_treeSize c \<and> mth (ex_sha x) hs = cn_rootHash c \<and> (\<forall>h \<in> set hs. length h = 32)"
      by (rule gather_leaves_Inr) blast
    then show ?thesis
      using cosign_and_commit_backed [OF _ committed(3)] assms(1) backed_same [OF committed(2)] op by blast
  qed (use assms(1) in \<open>simp_all add: backed_same\<close>)
qed (use assms(1) in simp)

interpretation backed_machine: state_machine "\<lambda>s. s = empty_store" "witness_step x cfg identity"
    "cosigs_backed x cfg identity" for x cfg identity
proof
  show "cosigs_backed x cfg identity s" if "s = empty_store" for s
    using that by (simp add: cosigs_backed_def empty_store_def)
  show "cosigs_backed x cfg identity (witness_step x cfg identity u s)" if "cosigs_backed x cfg identity s" for s u
  proof -
    obtain r st1 where w: "witnessOnce x cfg identity (ua_attempt u) s = (r, st1)"
      by (cases "witnessOnce x cfg identity (ua_attempt u) s")
    show ?thesis
      using witnessOnce_backed [OF that w] backed_same [OF update_same [OF w]] by (simp add: witness_step_def)
  qed
qed

text \<open>A witness signs only what it verified. Every cosignature in the store of a running witness, which is
  every cosignature its public route can serve, is the witness's cosignature of the checkpoint body of
  this log for some non-empty list of leaf hashes, with its length as tree size and its Merkle root as
  root, filed under that root.\<close>

theorem cosignatures_backed:
  assumes "map_of (st_cosigs (fold (witness_step x cfg identity) us empty_store)) (name, rt) = Some sig"
  shows "\<exists>hs t. hs \<noteq> [] \<and> name = stableName (ex_sha x) (tk_name (lc_logKey cfg))
    \<and> rt = base64urlEncode (mth (ex_sha x) hs)
    \<and> createWitnessCosignature (ex_sha x) (ex_pub x) (ex_sign x)
        (formatCheckpointBody (tk_name (lc_logKey cfg)) (length hs) (mth (ex_sha x) hs))
        (wi_name identity) (wi_privateKey identity) t = Inr sig"
  using backed_machine.run_inv [of empty_store x cfg identity us] assms unfolding cosigs_backed_def by fast

section \<open>An honest log\<close>

definition externals_ok :: "externals \<Rightarrow> bool" where
  "externals_ok x \<longleftrightarrow> (\<forall>m. length (ex_sha x m) = 32) \<and> (\<forall>k. length (ex_pub x k) = 32)
     \<and> (\<forall>m k. length (ex_sign x m k) = 64 \<and> ex_verify x (ex_sign x m k) m (ex_pub x k))"

definition log_signer :: "externals \<Rightarrow> bytes \<Rightarrow> string \<Rightarrow> CheckpointSigner" where
  "log_signer x sk origin = createCheckpointSigner (ex_sha x) sk (ex_pub x sk) origin"

text \<open>The network of a log: its checkpoint endpoint and its tile routes.\<close>

definition log_network :: "externals \<Rightarrow> bytes \<Rightarrow> string \<Rightarrow> log_tree \<Rightarrow> string \<Rightarrow> string \<Rightarrow> bytes result" where
  "log_network x sk origin t base url =
     (if url = base @ ''/v1/checkpoint''
      then (case handleCheckpoint (ex_sha x) (ex_sign x) t (log_signer x sk origin) of
              Inr (Inr text) \<Rightarrow> Inr (encode_utf8 text) | _ \<Rightarrow> Inl ''returned an HTTP error'')
      else log_fetch (ex_sha x) t base url)"

definition ascii :: "string \<Rightarrow> bool" where
  "ascii s \<longleftrightarrow> list_all (\<lambda>c. (of_char c :: nat) < 128) s"

lemma utf8_text_ascii: "ascii s \<Longrightarrow> utf8_text (encode_utf8 s @ rest) = encode_utf8 s @ utf8_text rest"
proof (induction s)
  case (Cons c s)
  then have "(of_char c :: byte) < 0x80" by (simp add: ascii_def word_less_nat_alt)
  with Cons show ?case by (simp add: ascii_def encode_utf8_def utf8_lead_def)
qed (simp add: encode_utf8_def)

lemma utf8_text_em_dash: "utf8_text (encode_utf8 EM_DASH @ rest) = encode_utf8 EM_DASH @ utf8_text rest"
proof -
  have bytes: "encode_utf8 EM_DASH = [0xE2, 0x80, 0x94]" by (simp add: EM_DASH_def encode_utf8_def)
  have "utf8_lead 0xE2 = Some (2, 0x80, 0xBF)" by (simp add: utf8_lead_def)
  then have lead: "utf8_lead 0xE2 = Some (Suc (Suc 0), 0x80, 0xBF)" by (simp only: numeral_2_eq_2)
  have "utf8_cont (Suc (Suc 0)) 0x80 0xBF (0x80 # 0x94 # rest) = (Some [0x80, 0x94], rest)" by simp
  with lead show ?thesis unfolding bytes by simp
qed

lemma ascii_append [simp]: "ascii (s @ t) \<longleftrightarrow> ascii s \<and> ascii t"
  by (simp add: ascii_def)

lemma ascii_show_nat: "ascii (show_nat n)"
proof -
  have "(of_char c :: nat) < 128" if "c \<in> set (show_nat n)" for c
    using show_nat_digits [OF that] by (auto simp: is_digit_def)
  then show ?thesis by (simp add: ascii_def list_all_iff)
qed

lemma ascii_base64: "ascii (base64Encode bs)"
  using base64Encode_char by (auto simp: ascii_def list_all_iff)

lemma signed_note_utf8:
  assumes "ascii origin"
  shows "utf8_text (encode_utf8 (signer_sign (ex_sign x) (log_signer x sk origin) n rh))
    = encode_utf8 (signer_sign (ex_sign x) (log_signer x sk origin) n rh)"
proof -
  define head where "head = formatCheckpointBody origin n rh @ [nl]"
  define tail where "tail = '' '' @ origin @ '' '' @ base64Encode (computeKeyId (ex_sha x) origin (ex_pub x sk)
        @ ex_sign x (encode_utf8 (formatCheckpointBody origin n rh)) sk) @ [nl]"
  have "ascii head" "ascii tail"
    using assms ascii_show_nat ascii_base64
    by (simp_all add: head_def tail_def formatCheckpointBody_def ascii_append del: append_Cons append.simps)
      (simp_all add: ascii_def nl_def)
  moreover have "signer_sign (ex_sign x) (log_signer x sk origin) n rh = head @ EM_DASH @ tail"
    by (simp add: log_signer_def signer_sign_lines signature_line_def head_def tail_def)
  ultimately show ?thesis
    using utf8_text_ascii [of tail "[]"] by (simp add: utf8_text_ascii utf8_text_em_dash)
qed

lemma char_of_encode: "map (\<lambda>b. char_of (unat b)) (encode_utf8 s) = s"
  by (induction s) (simp_all add: encode_utf8_def)

text \<open>What the witness needs to check such a log: its pinned key, its own key pair and a sane clock.\<close>

definition check_ready ::
  "externals \<Rightarrow> WitnessLogConfig \<Rightarrow> WitnessIdentity \<Rightarrow> bytes \<Rightarrow> attempt \<Rightarrow> log_tree \<Rightarrow> bool" where
  "check_ready x cfg identity sk a t \<longleftrightarrow>
     externals_ok x \<and> word_text (tk_name (lc_logKey cfg)) \<and> ascii (tk_name (lc_logKey cfg))
     \<and> tk_publicKey (lc_logKey cfg) = RawKey (ex_pub x sk) \<and> lc_gossipSources cfg = []
     \<and> word_text (wi_name identity) \<and> length (wi_privateKey identity) = 32
     \<and> 0 \<le> at_nowSeconds a \<and> at_nowSeconds a \<le> max_safe_integer
     \<and> at_fetch a = log_network x sk (tk_name (lc_logKey cfg)) t (stripTrailingSlash (lc_logBaseUrl cfg))
     \<and> tree_inv (ex_sha x) t \<and> rawEntries t \<noteq> [] \<and> int (length (rawEntries t)) \<le> max_safe_integer"

abbreviation leaf_hashes :: "externals \<Rightarrow> log_tree \<Rightarrow> bytes list" where
  "leaf_hashes x t \<equiv> map (leafHash (ex_sha x)) (rawEntries t)"

definition log_note :: "externals \<Rightarrow> WitnessLogConfig \<Rightarrow> bytes \<Rightarrow> log_tree \<Rightarrow> string" where
  "log_note x cfg sk t = signer_sign (ex_sign x) (log_signer x sk (tk_name (lc_logKey cfg)))
     (length (rawEntries t)) (mth (ex_sha x) (leaf_hashes x t))"

lemma length_mth_leaves:
  "externals_ok x \<Longrightarrow> rawEntries t \<noteq> [] \<Longrightarrow> length (mth (ex_sha x) (leaf_hashes x t)) = 32"
  by (rule length_mth) (auto simp: externals_ok_def leafHash_def)

lemma fetch_checkpoint:
  assumes "check_ready x cfg identity sk a t"
  shows "fetchText a (stripTrailingSlash (lc_logBaseUrl cfg) @ ''/v1/checkpoint'') = Inr (log_note x cfg sk t)"
proof -
  have "tree_root (ex_sha x) t = Inr (mth (ex_sha x) (leaf_hashes x t))"
    using assms tree_root_eq [of "ex_sha x" t] computeRoot_mth by (auto simp: check_ready_def)
  then show ?thesis
    using assms signed_note_utf8
    by (auto simp: check_ready_def fetchText_def log_network_def handleCheckpoint_def tree_size_def log_note_def char_of_encode)
qed

lemma log_note_verified:
  assumes "check_ready x cfg identity sk a t"
  obtains c where "verifyOperatorCheckpoint (ex_sha x) (ex_verify x) (log_note x cfg sk t) (lc_logKey cfg) = Inr c"
    "cn_body c = formatCheckpointBody (tk_name (lc_logKey cfg)) (length (rawEntries t)) (mth (ex_sha x) (leaf_hashes x t))"
    "cn_origin c = tk_name (lc_logKey cfg)" "cn_treeSize c = length (rawEntries t)"
    "cn_rootHash c = mth (ex_sha x) (leaf_hashes x t)"
proof -
  have key: "lc_logKey cfg = \<lparr>tk_name = tk_name (lc_logKey cfg), tk_publicKey = RawKey (ex_pub x sk)\<rparr>"
    using assms by (auto simp: check_ready_def)
  have "1 \<le> length (rawEntries t)" using assms by (cases "rawEntries t") (auto simp: check_ready_def)
  with assms length_mth_leaves [of x t]
  have "\<exists>c. verifyOperatorCheckpoint (ex_sha x) (ex_verify x) (log_note x cfg sk t @ concat (map (\<lambda>l. l @ [nl]) []))
      \<lparr>tk_name = tk_name (lc_logKey cfg), tk_publicKey = RawKey (ex_pub x sk)\<rparr> = Inr c
    \<and> cn_body c = formatCheckpointBody (tk_name (lc_logKey cfg)) (length (rawEntries t)) (mth (ex_sha x) (leaf_hashes x t))
    \<and> cn_origin c = tk_name (lc_logKey cfg) \<and> cn_treeSize c = length (rawEntries t)
    \<and> cn_rootHash c = mth (ex_sha x) (leaf_hashes x t) \<and> tl (cn_signatureLines c) = []"
    unfolding log_note_def log_signer_def
    by (intro operator_note_accepted) (auto simp: check_ready_def externals_ok_def)
  then show thesis using that key by auto
qed

lemma cosignature_created:
  assumes "externals_ok x" and "word_text origin" and "word_text name" and "length wk = 32"
    and "1 \<le> n" and "int n \<le> max_safe_integer" and "length rh = 32" and "0 \<le> ts" and "ts \<le> max_safe_integer"
  obtains sig where "createWitnessCosignature (ex_sha x) (ex_pub x) (ex_sign x) (formatCheckpointBody origin n rh) name wk ts
    = Inr (sig @ [nl])"
proof -
  have "checkpointKeyId (ex_sha x) name (ex_pub x wk) = Inr (computeKeyId (ex_sha x) name (ex_pub x wk))"
    using word_text_lines [OF assms(3)] assms(1) by (simp add: checkpointKeyId_def computeKeyId_def externals_ok_def)
  moreover have "is_safe_integer ts" using assms(8, 9) by (simp add: is_safe_integer_def max_safe_integer_def)
  ultimately show thesis
    using that parseCheckpointBodyOnly_format [OF assms(2, 5-7)] assms(1, 4, 8)
    by (auto simp: createWitnessCosignature_def witnessCosignatureInput_def externals_ok_def)
qed

lemma fetch_range_network:
  assumes "check_ready x cfg identity sk a t" and "from < length (rawEntries t)"
  shows "fetchLeafHashRange (at_fetch a) (lc_logBaseUrl cfg) from (length (rawEntries t))
    = Inr \<lparr>fr_appended = drop from (leaf_hashes x t),
           fr_overlap = (if from mod 256 = 0 then None else Some (subarray (from - from mod 256) from (leaf_hashes x t))),
           fr_overlapStart = from - from mod 256\<rparr>"
proof -
  let ?base = "stripTrailingSlash (lc_logBaseUrl cfg)"
  have net: "at_fetch a = log_network x sk (tk_name (lc_logKey cfg)) t ?base" using assms(1) by (simp add: check_ready_def)
  have "fetch_tile (at_fetch a) (lc_logBaseUrl cfg) n i = fetch_tile (log_fetch (ex_sha x) t ?base) (lc_logBaseUrl cfg) n i" for n i
    unfolding net by (simp add: fetch_tile_def log_network_def)
  then have "fetch_tile (at_fetch a) (lc_logBaseUrl cfg) = fetch_tile (log_fetch (ex_sha x) t ?base) (lc_logBaseUrl cfg)"
    by (intro ext)
  then have "fetchLeafHashRange (at_fetch a) (lc_logBaseUrl cfg) from (length (rawEntries t))
      = fetchLeafHashRange (log_fetch (ex_sha x) t ?base) (lc_logBaseUrl cfg) from (length (rawEntries t))"
    by (simp add: fetchLeafHashRange_def)
  then show ?thesis
    using fetch_range_served [of "ex_sha x" t "from" "length (rawEntries t)" "lc_logBaseUrl cfg"] assms
    by (simp add: check_ready_def externals_ok_def subarray_def)
qed

lemma check_overlap_prefix:
  "k + length os \<le> length P \<Longrightarrow> take (length os) (drop k P) = os \<Longrightarrow> check_overlap P k os = Inr ()"
proof (induction os arbitrary: k)
  case (Cons h os)
  then have "P ! k = h \<and> take (length os) (drop (Suc k) P) = os"
    by (cases "drop k P") (auto simp: nth_via_drop drop_Suc simp flip: tl_drop)
  with Cons show ?case by simp
qed simp

lemma consistency_accepts:
  assumes "externals_ok x" and "hs \<noteq> []" and "\<forall>h \<in> set hs. length h = 32" and "int (length hs) \<le> max_safe_integer"
    and "view = None \<or> (\<exists>n. 1 \<le> n \<and> n \<le> length hs \<and> view = Some \<lparr>cv_treeSize = int n, cv_rootHash = mth (ex_sha x) (take n hs)\<rparr>)"
  shows "verifyCheckpointConsistencyFromLeafHashes (ex_sha x) view
    \<lparr>cv_treeSize = int (length hs), cv_rootHash = mth (ex_sha x) hs\<rparr> hs = Inr True"
proof -
  have root: "checkpointRootFromLeafHashes (ex_sha x) (take n hs) = Inr (mth (ex_sha x) (take n hs))
      \<and> length (mth (ex_sha x) (take n hs)) = 32" if "1 \<le> n" for n
    using that assms(1-3) length_mth [of "ex_sha x" "take n hs"]
    by (subst checkpointRootFromLeafHashes_Inr) (auto simp: externals_ok_def dest: in_set_takeD)
  have "1 \<le> length hs" using assms(2) by (cases hs) auto
  with root [of "length hs"] root assms(4, 5) show ?thesis
    by (auto simp: verifyCheckpointConsistencyFromLeafHashes_def is_safe_integer_def max_safe_integer_def)
qed

lemma gather_honest:
  assumes ready: "check_ready x cfg identity sk a t"
    and w: "witnesses (ex_sha x) (tk_name (lc_logKey cfg)) st (take n (leaf_hashes x t))" and "n < length (rawEntries t)"
    and load: "load (ex_sha x) (tk_name (lc_logKey cfg)) st = Inr prior"
    and c: "cn_treeSize c = length (rawEntries t)" "cn_rootHash c = mth (ex_sha x) (leaf_hashes x t)"
  shows "gather_leaves x a cfg c prior st = Inr (leaf_hashes x t)"
    and "prior = Some p \<Longrightarrow> ss_treeSize p = int n"
proof -
  let ?hs = "leaf_hashes x t"
  have old: "(case prior of None \<Rightarrow> Inr [] | Some p \<Rightarrow> loadLeafHashes (ex_sha x) p st) = Inr (take n ?hs)"
    using w load by (auto simp: witnesses_def)
  show size: "ss_treeSize p = int n" if "prior = Some p" for p
  proof -
    have "1 \<le> ss_treeSize p" using load that validateState_Inr by (auto simp: load_Some)
    then show ?thesis using loadLeafHashes_Inr(2) [of "ex_sha x" p st "take n ?hs"] old that assms(3) by simp
  qed
  have over: "check_overlap (take n ?hs) (n - n mod 256) (subarray (n - n mod 256) n ?hs) = Inr ()"
    using assms(3) by (intro check_overlap_prefix) (auto simp: subarray_def min_def drop_take)
  define view where "view = (case prior of None \<Rightarrow> None
     | Some p \<Rightarrow> Some \<lparr>cv_treeSize = int n, cv_rootHash = mth (ex_sha x) (take n ?hs)\<rparr>)"
  have "1 \<le> n" if "prior = Some p" for p
    using size [OF that] load that validateState_Inr(2) [of p "tk_name (lc_logKey cfg)"] by (auto simp: load_Some)
  then have "view = None \<or> (\<exists>m. 1 \<le> m \<and> m \<le> length ?hs \<and> view = Some \<lparr>cv_treeSize = int m, cv_rootHash = mth (ex_sha x) (take m ?hs)\<rparr>)"
    using assms(3) by (cases prior) (auto simp: view_def intro: exI [of _ n])
  then have cons: "verifyCheckpointConsistencyFromLeafHashes (ex_sha x) view
      \<lparr>cv_treeSize = int (length ?hs), cv_rootHash = mth (ex_sha x) ?hs\<rparr> ?hs = Inr True"
    using ready by (intro consistency_accepts) (auto simp: check_ready_def externals_ok_def leafHash_def)
  have "(case prior of None \<Rightarrow> Inr None | Some p \<Rightarrow> rbind (decodeHash (ss_rootHashBase64 p))
      (\<lambda>h. Inr (Some \<lparr>cv_treeSize = ss_treeSize p, cv_rootHash = h\<rparr>))) = Inr view"
  proof (cases prior)
    case (Some p)
    then have "ss_rootHashBase64 p = base64Encode (mth (ex_sha x) (take n ?hs))" "validateState p (tk_name (lc_logKey cfg)) = Inr ()"
      using w load by (auto simp: witnesses_def load_Some)
    with validateState_Inr(3) [OF this(2)] size [OF Some] Some show ?thesis by (simp add: view_def decodeHash_def)
  qed (simp add: view_def)
  moreover have "\<not> (case prior of None \<Rightarrow> False | Some p \<Rightarrow> int (cn_treeSize c) = ss_treeSize p)"
    using size c(1) assms(3) by (auto split: option.splits)
  ultimately show "gather_leaves x a cfg c prior st = Inr ?hs"
    using fetch_range_network [OF ready assms(3)] over cons c assms(3)
    by (simp add: gather_leaves_def old min_def del: take_map drop_map)
qed

text \<open>With its prior state behind the log, a check comes to the commit of the log's leaf hashes.\<close>

lemma honest_check:
  assumes "check_ready x cfg identity sk a t"
    and "witnesses (ex_sha x) (tk_name (lc_logKey cfg)) st (take n (leaf_hashes x t))" and "n < length (rawEntries t)"
  obtains c where "witnessOnce x cfg identity a st
      = cosign_and_commit x a cfg identity (log_note x cfg sk t) c (leaf_hashes x t) st"
    "verifyOperatorCheckpoint (ex_sha x) (ex_verify x) (log_note x cfg sk t) (lc_logKey cfg) = Inr c"
    "cn_body c = formatCheckpointBody (tk_name (lc_logKey cfg)) (length (rawEntries t)) (mth (ex_sha x) (leaf_hashes x t))"
    "cn_origin c = tk_name (lc_logKey cfg)" "cn_treeSize c = length (rawEntries t)"
    "cn_rootHash c = mth (ex_sha x) (leaf_hashes x t)"
proof -
  obtain prior where prior: "load (ex_sha x) (tk_name (lc_logKey cfg)) st = Inr prior"
    using assms(2) by (auto simp: witnesses_def)
  obtain c where c: "verifyOperatorCheckpoint (ex_sha x) (ex_verify x) (log_note x cfg sk t) (lc_logKey cfg) = Inr c"
    "cn_body c = formatCheckpointBody (tk_name (lc_logKey cfg)) (length (rawEntries t)) (mth (ex_sha x) (leaf_hashes x t))"
    "cn_origin c = tk_name (lc_logKey cfg)" "cn_treeSize c = length (rawEntries t)"
    "cn_rootHash c = mth (ex_sha x) (leaf_hashes x t)"
    using log_note_verified [OF assms(1)] by blast
  note g = gather_honest [OF assms prior c(4, 5)]
  have "lc_gossipSources cfg = []" using assms(1) by (simp add: check_ready_def)
  then have "witness_checkpoint x cfg identity a (log_note x cfg sk t) c prior st
      = cosign_and_commit x a cfg identity (log_note x cfg sk t) c (leaf_hashes x t) st"
    using g assms(3) c(4) by (cases prior) (auto simp: witness_checkpoint_def check_gossip_def Let_def)
  then show thesis using that c fetch_checkpoint [OF assms(1)] prior by (simp add: witnessOnce_def)
qed

lemma includes_text_prefix: "includes_text u (u @ v)"
proof (cases "u @ v")
  case (Cons c cs)
  have "starts_with u (u @ v)" by (simp add: starts_with_def)
  with Cons show ?thesis by simp
qed simp

lemma includes_text_append: "includes_text u (s @ u @ v)"
  by (induction s) (simp_all add: includes_text_prefix)

lemma log_note_blank: "includes_text [nl, nl] (log_note x cfg sk t)"
proof -
  let ?rh = "mth (ex_sha x) (leaf_hashes x t)" and ?o = "tk_name (lc_logKey cfg)" and ?n = "length (rawEntries t)"
  let ?sig = "signature_line ?o (computeKeyId (ex_sha x) ?o (ex_pub x sk) @ ex_sign x (encode_utf8 (formatCheckpointBody ?o ?n ?rh)) sk)"
  have "log_note x cfg sk t = (?o @ [nl] @ show_nat ?n @ [nl] @ base64Encode ?rh) @ [nl, nl] @ ?sig @ [nl]"
    by (simp add: log_note_def log_signer_def signer_sign_lines) (simp add: formatCheckpointBody_def)
  then show ?thesis using includes_text_append by metis
qed

lemma write_hashes_progress: "write_progress wr \<Longrightarrow> write_hashes wr hs buf = (Inr (), buf @ concat hs)"
  by (induction hs arbitrary: buf) (simp_all add: appendDurably_progress)

text \<open>A commit whose leaf and cosignature writes succeed stores the cosignature, whether or not its last write does.\<close>

lemma commit_writes:
  assumes "validateState s (ss_logOrigin s) = Inr ()" and "int (length hs) = ss_treeSize s" and "\<forall>h \<in> set hs. length h = 32"
    and "load sha (ss_logOrigin s) st = Inr prior" and "\<And>p. prior = Some p \<Longrightarrow> ss_treeSize p \<le> ss_treeSize s"
    and "map_of (st_cosigs st) (cosignature_key sha s) \<in> {None, Some (ss_cosignature s)}"
    and "write_progress (wo_leaves io)" and "wo_cosig io"
  shows "fst (commit sha io s hs st) = (if wo_file io then Inr () else Inl ''durable witness write made no progress'')
    \<and> map_of (st_cosigs (snd (commit sha io s hs st))) (cosignature_key sha s) = Some (ss_cosignature s)
    \<and> (\<not> wo_file io \<longrightarrow> st_states (snd (commit sha io s hs st)) = st_states st)"
proof -
  have "\<not> list_ex (\<lambda>h. length h \<noteq> 32) hs" using assms(3) by (auto simp: list_ex_iff)
  moreover have n: "(case prior of None \<Rightarrow> 0 | Some p \<Rightarrow> nat (ss_treeSize p)) \<le> length hs"
    using assms(2, 5) by (auto split: option.splits)
  moreover have "\<not> (case prior of None \<Rightarrow> False | Some p \<Rightarrow> ss_treeSize s < ss_treeSize p)"
    using assms(5) by (auto split: option.splits)
  moreover obtain leaves where "writeLeafHashesDurably (wo_leaves io) (stableName sha (ss_logOrigin s)) hs
      (case prior of None \<Rightarrow> 0 | Some p \<Rightarrow> nat (ss_treeSize p)) (st_leaves st) = (Inr (), leaves)"
    using n assms(7) by (simp add: writeLeafHashesDurably_def write_hashes_progress Let_def)
  moreover have "cosignaturePath sha (ss_logOrigin s) (base64urlEncode (buffer_from_base64 (ss_rootHashBase64 s)))
      = Inr (cosignature_key sha s)"
    using validateState_Inr(3) [OF assms(1)]
    by (simp add: cosignaturePath_def cosignature_key_def length_base64urlEncode_32 base64urlEncode_chars)
  ultimately show ?thesis
    using assms(1, 2, 4, 6, 8)
    by (auto simp: commit_def writeDurably_def Let_def jsmap_simps)
qed

lemma createWitnessCosignature_ends:
  "createWitnessCosignature sha pub sign body name wk ts = Inr sig \<Longrightarrow> ends_with [nl] sig"
  by (auto simp: createWitnessCosignature_def rbind_Inr_iff Let_def ends_with_def split: if_splits)

lemma backed_ends: "cosigs_backed x cfg identity st \<Longrightarrow> map_of (st_cosigs st) k = Some sig \<Longrightarrow> ends_with [nl] sig"
  unfolding cosigs_backed_def using createWitnessCosignature_ends by metis

lemma ends_with_format: "ends_with [nl] (formatCheckpointBody origin n rh)"
  by (simp add: formatCheckpointBody_def ends_with_def)

lemma honest_commit:
  assumes ready: "check_ready x cfg identity sk a t"
    and w: "witnesses (ex_sha x) (tk_name (lc_logKey cfg)) st (take n (leaf_hashes x t))" and n: "n < length (rawEntries t)"
    and "cosigs_backed x cfg identity st" and "write_progress (wo_leaves (at_writes a))" and "wo_cosig (at_writes a)"
    and run: "witnessOnce x cfg identity a st = (r, st')"
  shows "(wo_file (at_writes a) \<longleftrightarrow> (\<exists>res. r = Inr res))
    \<and> (\<not> wo_file (at_writes a) \<longrightarrow> st_states st' = st_states st)
    \<and> (\<exists>sig. map_of (st_cosigs st') (stableName (ex_sha x) (tk_name (lc_logKey cfg)),
          base64urlEncode (mth (ex_sha x) (leaf_hashes x t))) = Some sig)"
proof -
  let ?o = "tk_name (lc_logKey cfg)" and ?rh = "mth (ex_sha x) (leaf_hashes x t)" and ?n = "length (rawEntries t)"
  let ?key = "(stableName (ex_sha x) ?o, base64urlEncode ?rh)"
  obtain prior where prior: "load (ex_sha x) ?o st = Inr prior" using w by (auto simp: witnesses_def)
  obtain c where c: "witnessOnce x cfg identity a st = cosign_and_commit x a cfg identity (log_note x cfg sk t) c (leaf_hashes x t) st"
    "cn_body c = formatCheckpointBody ?o ?n ?rh" "cn_origin c = ?o" "cn_treeSize c = ?n" "cn_rootHash c = ?rh"
    by (rule honest_check [OF ready w n]) blast
  have rh: "length ?rh = 32" using ready length_mth_leaves by (auto simp: check_ready_def)
  have safe: "1 \<le> ?n" "int ?n \<le> max_safe_integer" using ready n by (auto simp: check_ready_def)
  have get: "getCosignature (ex_sha x) ?o (base64urlEncode ?rh) st = Inr (map_of (st_cosigs st) ?key)"
    using rh by (simp add: getCosignature_def cosignaturePath_def length_base64urlEncode_32 base64urlEncode_chars)
  obtain new where new: "createWitnessCosignature (ex_sha x) (ex_pub x) (ex_sign x) (cn_body c)
      (wi_name identity) (wi_privateKey identity) (at_nowSeconds a) = Inr new"
    using cosignature_created [of x ?o "wi_name identity" "wi_privateKey identity" ?n ?rh "at_nowSeconds a"] ready rh safe
    unfolding c(2) check_ready_def by blast
  define sig where "sig = (case map_of (st_cosigs st) ?key of None \<Rightarrow> new | Some s \<Rightarrow> s)"
  have chosen: "rbind (getCosignature (ex_sha x) ?o (base64urlEncode ?rh) st) (\<lambda>existing. case existing of Some s \<Rightarrow> Inr s
      | None \<Rightarrow> createWitnessCosignature (ex_sha x) (ex_pub x) (ex_sign x) (cn_body c)
                  (wi_name identity) (wi_privateKey identity) (at_nowSeconds a)) = Inr sig"
    using new by (simp add: get sig_def split: option.split)
  have sig: "map_of (st_cosigs st) ?key \<in> {None, Some sig}" "ends_with [nl] sig"
    using backed_ends [OF assms(4)] createWitnessCosignature_ends [OF new] by (auto simp: sig_def split: option.splits)
  let ?s = "\<lparr>ss_logOrigin = ?o, ss_treeSize = int ?n, ss_rootHashBase64 = base64Encode ?rh, ss_checkpointBody = cn_body c,
      ss_checkpointNote = log_note x cfg sk t, ss_cosignature = sig, ss_witnessedAtSeconds = at_nowSeconds a\<rparr>"
  have valid: "validateState ?s (ss_logOrigin ?s) = Inr ()"
    using rh safe ready sig(2) log_note_blank ends_with_format
    by (auto simp: validateState_def c(2) check_ready_def is_safe_integer_def max_safe_integer_def)
  have size: "ss_treeSize p \<le> int ?n" if "prior = Some p" for p
    using gather_honest(2) [OF ready w n prior c(4, 5) that] n by simp
  have key: "cosignature_key (ex_sha x) ?s = ?key" by (simp add: cosignature_key_def)
  have h32: "\<forall>h \<in> set (leaf_hashes x t). length h = 32" using ready by (auto simp: check_ready_def externals_ok_def leafHash_def)
  note cw = commit_writes [OF valid _ h32, of "ex_sha x" st prior "at_writes a"]
  have "fst (commit (ex_sha x) (at_writes a) ?s (leaf_hashes x t) st)
        = (if wo_file (at_writes a) then Inr () else Inl ''durable witness write made no progress'')
      \<and> map_of (st_cosigs (snd (commit (ex_sha x) (at_writes a) ?s (leaf_hashes x t) st))) ?key = Some sig
      \<and> (\<not> wo_file (at_writes a) \<longrightarrow> st_states (snd (commit (ex_sha x) (at_writes a) ?s (leaf_hashes x t) st)) = st_states st)"
    using cw [unfolded key] prior size sig(1) assms(5, 6) by simp
  moreover have "(case commit (ex_sha x) (at_writes a) ?s (leaf_hashes x t) st of
      (Inl e, st') \<Rightarrow> (Inl e, st')
    | (Inr _, st') \<Rightarrow> (Inr \<lparr>wr_status = Witnessed, wr_treeSize = int ?n, wr_rootHashBase64 = base64Encode ?rh,
         wr_cosignature = sig, wr_gossipSourcesCompared = length (lc_gossipSources cfg)\<rparr>, st')) = (r, st')"
    using run unfolding c(1) cosign_and_commit_def Let_def c(3-5) chosen sum.case .
  ultimately show ?thesis by (auto split: prod.splits sum.splits if_splits)
qed

lemma witnessOnce_keeps_cosig:
  assumes "witnessOnce x cfg identity a st = (r, st')" and "map_of (st_cosigs st) k = Some sig"
  shows "map_of (st_cosigs st') k = Some sig"
  using assms(1)
proof (cases rule: witnessOnce_cases)
  case (verified nt c prior)
  from verified(3) show ?thesis
  proof (cases rule: witness_checkpoint_cases)
    case (committed hs st1)
    then have k: "map_of (st_cosigs st1) k = Some sig" using assms(2) by (simp add: same_history_def)
    from committed(3) show ?thesis
    proof (cases rule: cosign_and_commit_cases)
      case (wrote s q)
      then show ?thesis using k commit_le [of st1 "ex_sha x" "at_writes a" s hs] by (cases k) (simp add: store_le_def)
    qed (use k in simp)
  qed (use assms(2) in \<open>simp_all add: same_history_def\<close>)
qed (use assms(2) in simp)

lemma check_catches_up:
  assumes ready: "check_ready x cfg identity sk a t"
    and st: "st = fold (witness_step x cfg identity) us empty_store"
    and w: "witnesses (ex_sha x) (tk_name (lc_logKey cfg)) st (take n (leaf_hashes x t))"
    and io: "write_progress (wo_leaves (at_writes a))" "wo_cosig (at_writes a)" "wo_file (at_writes a)"
  shows "\<exists>res. fst (witnessOnce x cfg identity a st) = Inr res
    \<and> wr_treeSize res = int (length (rawEntries t))
    \<and> wr_rootHashBase64 res = base64Encode (mth (ex_sha x) (leaf_hashes x t))
    \<and> witnesses (ex_sha x) (tk_name (lc_logKey cfg)) (snd (witnessOnce x cfg identity a st)) (leaf_hashes x t)"
proof -
  obtain r st' where run: "witnessOnce x cfg identity a st = (r, st')" by (cases "witnessOnce x cfg identity a st")
  show ?thesis
  proof (cases "n < length (rawEntries t)")
    case True
    have backed: "cosigs_backed x cfg identity st" unfolding st by (rule backed_machine.run_inv) simp
    obtain res where r: "r = Inr res" using honest_commit [OF ready w True backed io(1, 2) run] io(3) by blast
    obtain prior where prior: "load (ex_sha x) (tk_name (lc_logKey cfg)) st = Inr prior" using w by (auto simp: witnesses_def)
    obtain c where c: "cosign_and_commit x a cfg identity (log_note x cfg sk t) c (leaf_hashes x t) st = (r, st')"
      "cn_origin c = tk_name (lc_logKey cfg)" "cn_treeSize c = length (rawEntries t)" "cn_rootHash c = mth (ex_sha x) (leaf_hashes x t)"
      using honest_check [OF ready w True] run by metis
    have "witnesses (ex_sha x) (tk_name (lc_logKey cfg)) st' (leaf_hashes x t) \<and> reports (ex_sha x) res (leaf_hashes x t)"
      using cosign_and_commit_witnesses [OF c(1), of "take n (leaf_hashes x t)" prior "drop n (leaf_hashes x t)"] c w prior r True
      by (auto simp del: take_map drop_map)
    then show ?thesis using run r by (simp add: reports_def)
  next
    case False
    then have all: "take n (leaf_hashes x t) = leaf_hashes x t" by simp
    have "rawEntries t \<noteq> []" using ready by (simp add: check_ready_def)
    then obtain p where p: "load (ex_sha x) (tk_name (lc_logKey cfg)) st = Inr (Some p)"
      "loadLeafHashes (ex_sha x) p st = Inr (leaf_hashes x t)" "ss_rootHashBase64 p = base64Encode (mth (ex_sha x) (leaf_hashes x t))"
      using w unfolding all witnesses_def by auto
    have "ss_treeSize p = int (length (rawEntries t))"
      using loadLeafHashes_Inr(2) [OF p(2)] p(1) validateState_Inr(2) [of p] by (force simp: load_Some)
    moreover obtain c where "verifyOperatorCheckpoint (ex_sha x) (ex_verify x) (log_note x cfg sk t) (lc_logKey cfg) = Inr c"
      "cn_origin c = tk_name (lc_logKey cfg)" "cn_treeSize c = length (rawEntries t)" "cn_rootHash c = mth (ex_sha x) (leaf_hashes x t)"
      using log_note_verified [OF ready] by metis
    moreover have "lc_gossipSources cfg = []" using ready by (simp add: check_ready_def)
    ultimately show ?thesis
      using fetch_checkpoint [OF ready] p w unfolding all
      by (simp add: witnessOnce_def witness_checkpoint_def)
  qed
qed

definition toy_externals :: externals where
  "toy_externals = \<lparr>ex_sha = pad32, ex_canon = (\<lambda>_. None), ex_verify = toy_verify, ex_pub = pad32, ex_sign = toy_sign,
     ex_compare = (\<lambda>_ _. 0)\<rparr>"

definition toy_config :: WitnessLogConfig where
  "toy_config = \<lparr>lc_logBaseUrl = ''http://log/'', lc_logKey = \<lparr>tk_name = ''log'', tk_publicKey = RawKey (pad32 [7])\<rparr>,
     lc_gossipSources = []\<rparr>"

definition toy_identity :: WitnessIdentity where
  "toy_identity = \<lparr>wi_name = ''w'', wi_privateKey = pad32 [9]\<rparr>"

definition toy_attempt :: "log_tree \<Rightarrow> bool \<Rightarrow> attempt" where
  "toy_attempt t ok = \<lparr>at_fetch = log_network toy_externals [7] ''log'' t ''http://log'', at_nowSeconds = 5,
     at_writes = \<lparr>wo_leaves = (\<lambda>_. 7), wo_cosig = True, wo_file = ok\<rparr>, at_incident = (\<lambda>_. True)\<rparr>"

lemma toy_writes: "write_progress (wo_leaves (at_writes (toy_attempt t ok)))" "wo_cosig (at_writes (toy_attempt t ok))"
  "wo_file (at_writes (toy_attempt t ok)) = ok"
  by (simp_all add: toy_attempt_def write_progress_def)

lemma toy_ready:
  assumes "tree_inv pad32 t" and "rawEntries t \<noteq> []" and "length (rawEntries t) \<le> 9"
  shows "check_ready toy_externals toy_config toy_identity [7] (toy_attempt t ok) t"
  using assms
  by (simp add: check_ready_def externals_ok_def toy_externals_def toy_config_def toy_identity_def toy_attempt_def toy_signature
      word_text_def ws_prefix_ascii is_space_def ascii_def max_safe_integer_def stripTrailingSlash_def)

section \<open>Properties\<close>


text \<open>C40: a crash can leave two cosigned forks. When a log shows one tree to a fresh witness whose write of the
  state file fails, and then any other tree, the witness accepts the second and keeps serving its
  cosignature of the first: both roots have a cosignature, although neither tree need extend the other.\<close>

theorem crash_leaves_forked_cosignature:
  assumes "check_ready x cfg identity sk a1 t1" and "check_ready x cfg identity sk a2 t2"
    and "write_progress (wo_leaves (at_writes a1))" "wo_cosig (at_writes a1)" "\<not> wo_file (at_writes a1)"
    and "write_progress (wo_leaves (at_writes a2))" "wo_cosig (at_writes a2)" "wo_file (at_writes a2)"
    and "witnessOnce x cfg identity a1 empty_store = (r1, st1)" and "witnessOnce x cfg identity a2 st1 = (r2, st2)"
  shows "(\<exists>e. r1 = Inl e) \<and> (\<exists>res. r2 = Inr res)
    \<and> (\<exists>sig1 sig2. getCosignature (ex_sha x) (tk_name (lc_logKey cfg)) (base64urlEncode (mth (ex_sha x) (leaf_hashes x t1))) st2 = Inr (Some sig1)
         \<and> getCosignature (ex_sha x) (tk_name (lc_logKey cfg)) (base64urlEncode (mth (ex_sha x) (leaf_hashes x t2))) st2 = Inr (Some sig2))"
proof -
  let ?o = "tk_name (lc_logKey cfg)"
  let ?key = "\<lambda>t. (stableName (ex_sha x) ?o, base64urlEncode (mth (ex_sha x) (leaf_hashes x t)))"
  have n: "0 < length (rawEntries t1)" "0 < length (rawEntries t2)" using assms(1, 2) by (auto simp: check_ready_def)
  have empty: "cosigs_backed x cfg identity empty_store" by (simp add: cosigs_backed_def empty_store_def)
  have w0: "witnesses (ex_sha x) ?o empty_store (take 0 (leaf_hashes x t1))" using empty_witnesses by simp
  note one = honest_commit [OF assms(1) w0 n(1) empty assms(3, 4, 9)]
  then obtain e where e: "r1 = Inl e" "st_states st1 = []" using assms(5) by (cases r1) (auto simp: empty_store_def)
  then have w1: "witnesses (ex_sha x) ?o st1 (take 0 (leaf_hashes x t2))" by (simp add: witnesses_def load_def)
  note two = honest_commit [OF assms(2) w1 n(2) witnessOnce_backed [OF empty assms(9)] assms(6, 7, 10)]
  from one obtain sig1 where "map_of (st_cosigs st1) (?key t1) = Some sig1" by blast
  then have "map_of (st_cosigs st2) (?key t1) = Some sig1" by (rule witnessOnce_keeps_cosig [OF assms(10)])
  moreover obtain sig2 where "map_of (st_cosigs st2) (?key t2) = Some sig2" using two by blast
  moreover have "getCosignature (ex_sha x) ?o (base64urlEncode (mth (ex_sha x) (leaf_hashes x t))) st2
      = Inr (map_of (st_cosigs st2) (?key t))" if "check_ready x cfg identity sk a t" for a t
    using length_mth_leaves [of x t] that
    by (simp add: check_ready_def getCosignature_def cosignaturePath_def length_base64urlEncode_32 base64urlEncode_chars)
  ultimately show ?thesis using e(1) two assms(1, 2, 8) by auto
qed


theorem crash_leaves_forked_cosignature_witness:
  "\<exists>t1 t2 st sig1 sig2. rawEntries t1 = [[1]] \<and> rawEntries t2 = [[2]]
    \<and> st = snd (witnessOnce toy_externals toy_config toy_identity (toy_attempt t2 True)
              (snd (witnessOnce toy_externals toy_config toy_identity (toy_attempt t1 False) empty_store)))
    \<and> getCosignature pad32 ''log'' (base64urlEncode (leafHash pad32 [1])) st = Inr (Some sig1)
    \<and> getCosignature pad32 ''log'' (base64urlEncode (leafHash pad32 [2])) st = Inr (Some sig2)"
proof -
  obtain t1 t2 where t: "tree_inv pad32 t1" "rawEntries t1 = [[1]]" "tree_inv pad32 t2" "rawEntries t2 = [[2]]"
    using tree_of_entries by metis
  then have r: "check_ready toy_externals toy_config toy_identity [7] (toy_attempt t1 False) t1"
    "check_ready toy_externals toy_config toy_identity [7] (toy_attempt t2 True) t2" by (simp_all add: toy_ready)
  have "ex_sha toy_externals = pad32" "tk_name (lc_logKey toy_config) = ''log''" by (simp_all add: toy_externals_def toy_config_def)
  with crash_leaves_forked_cosignature [OF r _ _ _ _ _ _ prod.collapse [symmetric] prod.collapse [symmetric]] t
  show ?thesis by (auto simp: toy_writes)
qed

theorem cosignatures_backed_witness:
  "\<exists>u root sig hs. map_of (st_cosigs (witness_step toy_externals toy_config toy_identity u empty_store))
        (stableName pad32 ''log'', root) = Some sig
    \<and> hs \<noteq> [] \<and> root = base64urlEncode (mth pad32 hs)"
proof -
  obtain t where t: "tree_inv pad32 t" "rawEntries t = [[1]]" using tree_of_entries by blast
  then have r: "check_ready toy_externals toy_config toy_identity [7] (toy_attempt t True) t" by (simp add: toy_ready)
  let ?u = "\<lparr>ua_attempt = toy_attempt t True, ua_doneSeconds = 5, ua_doneWrite = True, ua_failedSeconds = 5, ua_failedWrite = True\<rparr>"
  have x: "ex_sha toy_externals = pad32" "tk_name (lc_logKey toy_config) = ''log''" by (simp_all add: toy_externals_def toy_config_def)
  obtain q st1 where run: "witnessOnce toy_externals toy_config toy_identity (toy_attempt t True) empty_store = (q, st1)"
    by (cases "witnessOnce toy_externals toy_config toy_identity (toy_attempt t True) empty_store")
  have "cosigs_backed toy_externals toy_config toy_identity empty_store" by (simp add: cosigs_backed_def empty_store_def)
  with honest_commit [OF r _ _ _ toy_writes(1, 2) run, of 0] t empty_witnesses obtain root sig where
    "map_of (st_cosigs st1) (stableName pad32 ''log'', root) = Some sig" by (auto simp: x)
  with update_same [of toy_externals toy_config toy_identity ?u empty_store] run
  have "map_of (st_cosigs (witness_step toy_externals toy_config toy_identity ?u empty_store)) (stableName pad32 ''log'', root) = Some sig"
    by (simp add: same_history_def witness_step_def)
  then show ?thesis
    using cosignatures_backed [of toy_externals toy_config toy_identity "[?u]" "stableName pad32 ''log''" root sig] x by auto
qed

text \<open>C2: a witness never equivocates. Whatever the network answers, whatever writes fail and however many
  updates happen before, between and after, if an earlier and a later check both return a result, then
  there are leaf hashes of the earlier tree and leaf hashes of the later tree, the first a prefix of
  the second, whose Merkle roots and numbers are exactly the reported ones. Nothing is assumed about the digest.\<close>

theorem witness_never_equivocates:
  assumes "witnessOnce x cfg identity a1 (fold (witness_step x cfg identity) us empty_store) = (Inr r1, st1)"
    and "witnessOnce x cfg identity a2 (fold (witness_step x cfg identity) vs st1) = (Inr r2, st2)"
  shows "\<exists>old new. wr_treeSize r1 = int (length old) \<and> wr_rootHashBase64 r1 = base64Encode (mth (ex_sha x) old)
    \<and> wr_treeSize r2 = int (length (old @ new)) \<and> wr_rootHashBase64 r2 = base64Encode (mth (ex_sha x) (old @ new))"
proof -
  let ?w = "witnesses (ex_sha x) (tk_name (lc_logKey cfg))"
  have run: "\<exists>new. ?w (fold (witness_step x cfg identity) us st) (hs @ new)" if "?w st hs" for us st hs
    using witness_machine.run_le [of x cfg st identity us] that unfolding history_le_def by blast
  obtain hs where "?w (fold (witness_step x cfg identity) us empty_store) hs"
    using run [OF empty_witnesses] by auto
  with witnessOnce_witnesses [OF assms(1)] obtain old where old: "?w st1 old" "reports (ex_sha x) r1 old" by blast
  with run obtain mid where "?w (fold (witness_step x cfg identity) vs st1) (old @ mid)" by blast
  with witnessOnce_witnesses [OF assms(2)] obtain new where "reports (ex_sha x) r2 ((old @ mid) @ new)" by blast
  with old(2) show ?thesis unfolding reports_def by (metis append.assoc)
qed

theorem witness_never_equivocates_witness:
  "\<exists>a1 a2 r1 r2 st1 st2. witnessOnce toy_externals toy_config toy_identity a1 empty_store = (Inr r1, st1)
    \<and> witnessOnce toy_externals toy_config toy_identity a2 st1 = (Inr r2, st2)
    \<and> wr_treeSize r1 = 1 \<and> wr_treeSize r2 = 3
    \<and> (\<exists>old new. length old = 1 \<and> wr_rootHashBase64 r1 = base64Encode (mth pad32 old)
         \<and> length new = 2 \<and> wr_rootHashBase64 r2 = base64Encode (mth pad32 (old @ new)))"
proof -
  obtain t1 t2 where t: "tree_inv pad32 t1" "rawEntries t1 = [[1]]" "tree_inv pad32 t2" "rawEntries t2 = [[1], [2], [3]]"
    using tree_of_entries by metis
  then have r: "check_ready toy_externals toy_config toy_identity [7] (toy_attempt t1 True) t1"
    "check_ready toy_externals toy_config toy_identity [7] (toy_attempt t2 True) t2" by (simp_all add: toy_ready)
  let ?run = "witnessOnce toy_externals toy_config toy_identity"
  obtain r1 st1 where one: "?run (toy_attempt t1 True) empty_store = (Inr r1, st1)" "wr_treeSize r1 = 1"
    "witnesses pad32 ''log'' st1 [leafHash pad32 [1]]"
    using check_catches_up [OF r(1), of empty_store "[]" 0] t
    by (cases "?run (toy_attempt t1 True) empty_store") (auto simp: empty_witnesses toy_writes toy_externals_def toy_config_def)
  have "cosigs_backed toy_externals toy_config toy_identity empty_store" by (simp add: cosigs_backed_def empty_store_def)
  then have backed: "cosigs_backed toy_externals toy_config toy_identity st1" by (rule witnessOnce_backed [OF _ one(1)])
  have w: "witnesses (ex_sha toy_externals) (tk_name (lc_logKey toy_config)) st1 (take 1 (leaf_hashes toy_externals t2))"
    using one(3) t by (simp add: toy_externals_def toy_config_def)
  obtain q st2 where two: "?run (toy_attempt t2 True) st1 = (q, st2)" by (cases "?run (toy_attempt t2 True) st1")
  then obtain r2 where r2: "q = Inr r2" using honest_commit [OF r(2) w _ backed toy_writes(1, 2) two] t toy_writes by auto
  obtain c where "cosign_and_commit toy_externals (toy_attempt t2 True) toy_config toy_identity (log_note toy_externals toy_config [7] t2) c
      (leaf_hashes toy_externals t2) st1 = (Inr r2, st2)" "cn_treeSize c = 3"
    using honest_check [OF r(2) w] t two r2 by (metis length_Cons list.size(3) numeral_3_eq_3 one_less_numeral_iff semiring_norm(77))
  then have "wr_treeSize r2 = 3" by (auto elim!: cosign_and_commit_cases)
  with witness_never_equivocates [of toy_externals toy_config toy_identity _ "[]" r1 st1 _ "[]" r2 st2] one two r2
  show ?thesis by (fastforce simp: toy_externals_def)
qed

end
