(* ===== verification/Witness_Server.thy ===== *)
theory Witness_Server
  imports Witness_Liveness
begin

text \<open>
  The public routes of a witness (\<open>services/witness-node/src/server.ts\<close>) as a function from the store, the clock
  and a request to the response: keys, status, health, the witnessed checkpoint, incidents and
  cosignatures. A handler that throws answers 500. The path is that of the parsed URL.
\<close>

datatype witness_response = Json nat json bool | Text nat string bool

text \<open>\<open>decodeURIComponent\<close>: percent-escaped bytes have to form well-formed UTF-8 sequences.\<close>

fun escaped_byte :: "string \<Rightarrow> (byte \<times> string) option" where
  "escaped_byte (p # c # d # s) =
     (if p = CHR ''%'' \<and> is_hex c \<and> is_hex d then Some (of_nat (16 * hex_value c + hex_value d), s) else None)"
| "escaped_byte _ = None"

fun escaped_cont :: "nat \<Rightarrow> byte \<Rightarrow> byte \<Rightarrow> string \<Rightarrow> (bytes \<times> string) option" where
  "escaped_cont 0 lo hi s = Some ([], s)"
| "escaped_cont (Suc n) lo hi s =
     (case escaped_byte s of
        None \<Rightarrow> None
      | Some (b, s') \<Rightarrow>
          if lo \<le> b \<and> b \<le> hi then map_option (\<lambda>(bs, r). (b # bs, r)) (escaped_cont n 0x80 0xBF s') else None)"

lemma length_escaped_byte: "escaped_byte s = Some (b, r) \<Longrightarrow> length r < length s"
  by (cases s rule: escaped_byte.cases) (auto split: if_splits)

lemma length_escaped_cont: "escaped_cont n lo hi s = Some (bs, r) \<Longrightarrow> length r \<le> length s"
proof (induction n arbitrary: lo hi s bs)
  case (Suc n)
  then obtain b s' bs' where "escaped_byte s = Some (b, s')" "escaped_cont n 0x80 0xBF s' = Some (bs', r)"
    by (auto split: option.splits if_splits)
  with Suc.IH length_escaped_byte show ?case by fastforce
qed simp

function decodeURIComponent :: "string \<Rightarrow> string option" where
  "decodeURIComponent s =
     (case s of
        [] \<Rightarrow> Some []
      | c # cs \<Rightarrow>
          if c \<noteq> CHR ''%'' then map_option ((#) c) (decodeURIComponent cs)
          else (case escaped_byte s of
                  None \<Rightarrow> None
                | Some (b, r) \<Rightarrow>
                    (case utf8_lead b of
                       None \<Rightarrow> None
                     | Some (n, lo, hi) \<Rightarrow>
                         (case escaped_cont n lo hi r of
                            None \<Rightarrow> None
                          | Some (bs, r') \<Rightarrow>
                              map_option ((@) (map (\<lambda>b. char_of (unat b)) (b # bs))) (decodeURIComponent r')))))"
  by pat_completeness auto
termination
  by (relation "measure length") (auto dest!: length_escaped_byte length_escaped_cont)

declare decodeURIComponent.simps [simp del]

section \<open>Responses\<close>

definition opt_json :: "('a \<Rightarrow> json) \<Rightarrow> 'a option \<Rightarrow> json" where
  "opt_json f v = (case v of None \<Rightarrow> JNull | Some a \<Rightarrow> f a)"

definition int_json :: "int \<Rightarrow> json" where
  "int_json i = JNum (of_int i)"

definition incident_json :: "CheckpointGossipIncident \<Rightarrow> json" where
  "incident_json i =
     JObj [(''schema'', JStr (ic_schema i)), (''kind'', JStr (kind_text (ic_kind i))), (''origin'', JStr (ic_origin i)),
       (''sources'', JArr (map JStr (ic_sources i))),
       (''observations'', JArr (map (\<lambda>b. JObj [(''source_id'', JStr (io_source_id b)),
          (''observed_at_ms'', int_json (io_observed_at_ms b)), (''checkpoint_hash'', JStr (io_checkpoint_hash b)),
          (''tree_size'', int_json (int (io_tree_size b))), (''root_hash_base64url'', JStr (io_root_hash_base64url b))])
          (ic_observations i))), (''incident_id'', JStr (ic_incident_id i))]"

definition check_age :: "int \<Rightarrow> StoredWitnessHealth option \<Rightarrow> int option" where
  "check_age now health =
     map_option (\<lambda>s. max 0 (now - s)) (Option.bind health sh_lastSuccessfulCheckAtSeconds)"

definition pubkey_response :: "WitnessIdentity \<Rightarrow> bytes \<Rightarrow> bytes \<Rightarrow> witness_response" where
  "pubkey_response identity publicKey keyId =
     Json 200 (JObj [(''origin'', JStr (wi_name identity)), (''public_key'', JStr (base64urlEncode publicKey)),
       (''key_id'', JStr (hexEncode keyId)), (''algorithm'', JStr ''Ed25519'')]) False"

definition log_pubkey_response :: "WitnessIdentity \<Rightarrow> bytes \<Rightarrow> bytes \<Rightarrow> witness_response" where
  "log_pubkey_response identity publicKey keyId =
     Text 200 (wi_name identity @ ''+'' @ hexEncode keyId @ ''+'' @ base64Encode (1 # publicKey) @ [nl]) False"

definition status_response ::
  "(bytes \<Rightarrow> bytes) \<Rightarrow> WitnessIdentity \<Rightarrow> string \<Rightarrow> int \<Rightarrow> int \<Rightarrow> bool \<Rightarrow> witness_store \<Rightarrow> witness_response result" where
  "status_response sha identity origin maxAge now updating st =
     rbind (load sha origin st) (\<lambda>state. rbind (loadHealth sha origin st) (\<lambda>health.
       let age = check_age now health; lastError = Option.bind health sh_lastError;
           healthStatus = (if lastError \<noteq> None then ''error''
             else case age of None \<Rightarrow> ''stale'' | Some a \<Rightarrow> if maxAge < a then ''stale'' else ''ok'')
       in rbind (listIncidents st) (\<lambda>incidents.
          Inr (Json 200 (JObj [(''witness'', JStr (wi_name identity)), (''log_origin'', JStr origin),
            (''tree_size'', opt_json (int_json \<circ> ss_treeSize) state),
            (''root_hash'', opt_json (JStr \<circ> ss_rootHashBase64) state),
            (''checkpoint_witnessed_at'', opt_json (int_json \<circ> ss_witnessedAtSeconds) state),
            (''witnessed_at'', opt_json (int_json \<circ> ss_witnessedAtSeconds) state),
            (''last_checked_at'', opt_json (int_json \<circ> sh_lastCheckedAtSeconds) health),
            (''last_successful_check_at'', opt_json int_json (Option.bind health sh_lastSuccessfulCheckAtSeconds)),
            (''successful_check_age_seconds'', opt_json int_json age),
            (''health_max_check_age_seconds'', int_json maxAge), (''health'', JStr healthStatus),
            (''incident_count'', int_json (int (length incidents))), (''updating'', JBool updating),
            (''error'', opt_json JStr lastError)]) False))))"

definition health_response ::
  "(bytes \<Rightarrow> bytes) \<Rightarrow> string \<Rightarrow> int \<Rightarrow> int \<Rightarrow> witness_store \<Rightarrow> witness_response result" where
  "health_response sha origin maxAge now st =
     rbind (load sha origin st) (\<lambda>state. rbind (loadHealth sha origin st) (\<lambda>health.
       let age = check_age now health; lastError = Option.bind health sh_lastError;
           healthy = (state \<noteq> None \<and> lastError = None \<and> (case age of None \<Rightarrow> False | Some a \<Rightarrow> a \<le> maxAge))
       in rbind (listIncidents st) (\<lambda>incidents.
          Inr (Json (if healthy then 200 else 503) (JObj [
            (''status'', JStr (if healthy then ''ok'' else if lastError \<noteq> None \<and> lastError \<noteq> Some [] then ''error'' else ''stale'')),
            (''last_successful_check_at'', opt_json int_json (Option.bind health sh_lastSuccessfulCheckAtSeconds)),
            (''successful_check_age_seconds'', opt_json int_json age),
            (''incident_count'', int_json (int (length incidents)))]) False))))"

definition cosig_response :: "(bytes \<Rightarrow> bytes) \<Rightarrow> string \<Rightarrow> string \<Rightarrow> witness_store \<Rightarrow> witness_response result" where
  "cosig_response sha component rootText st =
     (case decodeURIComponent component of
        None \<Rightarrow> Inr (Json 400 (JObj [(''error'', JStr ''malformed log origin'')]) False)
      | Some logOrigin \<Rightarrow>
          rbind (getCosignature sha logOrigin rootText st) (\<lambda>cosignature.
            case cosignature of
              Some c \<Rightarrow> Inr (if c \<noteq> [] then Text 200 c True
                            else Json 404 (JObj [(''error'', JStr ''checkpoint not witnessed'')]) False)
            | None \<Rightarrow> Inr (Json 404 (JObj [(''error'', JStr ''checkpoint not witnessed'')]) False)))"

text \<open>\<open>/^\/v1\/incidents\/([0-9a-f]{64})$/\<close> and \<open>/^\/v1\/cosig\/([^/]+)\/([A-Za-z0-9_-]{43})$/\<close>\<close>

definition match_incident :: "string \<Rightarrow> string option" where
  "match_incident path =
     (let rest = drop 14 path
      in if starts_with ''/v1/incidents/'' path \<and> lower_hex_string 64 rest then Some rest else None)"

definition match_cosig :: "string \<Rightarrow> (string \<times> string) option" where
  "match_cosig path =
     (if \<not> starts_with ''/v1/cosig/'' path then None
      else case split_on (CHR ''/'') (drop 10 path) of
             [component, r] \<Rightarrow>
               if component \<noteq> [] \<and> length r = 43 \<and> list_all is_b64url_char r then Some (component, r) else None
           | _ \<Rightarrow> None)"

definition witness_route ::
  "(bytes \<Rightarrow> bytes) \<Rightarrow> WitnessLogConfig \<Rightarrow> WitnessIdentity \<Rightarrow> bytes \<Rightarrow> bytes \<Rightarrow> int \<Rightarrow> int \<Rightarrow> bool \<Rightarrow> string \<Rightarrow> string
   \<Rightarrow> witness_store \<Rightarrow> witness_response result" where
  "witness_route sha cfg identity publicKey keyId maxAge now updating verb path st =
     (let origin = tk_name (lc_logKey cfg)
      in if verb \<noteq> ''GET'' then Inr (Json 404 (JObj [(''error'', JStr ''not found'')]) False)
         else if path = ''/v1/pubkey'' then Inr (pubkey_response identity publicKey keyId)
         else if path = ''/v1/log-pubkey'' then Inr (log_pubkey_response identity publicKey keyId)
         else if path = ''/v1/status'' then status_response sha identity origin maxAge now updating st
         else if path = ''/v1/health'' then health_response sha origin maxAge now st
         else if path = ''/v1/checkpoint'' then
           rbind (load sha origin st) (\<lambda>state. case state of
             None \<Rightarrow> Inr (Json 404 (JObj [(''error'', JStr ''checkpoint not witnessed'')]) False)
           | Some s \<Rightarrow> Inr (Text 200 (ss_checkpointNote s) False))
         else if path = ''/v1/incidents'' then
           rbind (listIncidents st) (\<lambda>is. Inr (Json 200 (JObj [(''incidents'', JArr (map incident_json is))]) False))
         else case match_incident path of
           Some hex \<Rightarrow>
             rbind (getIncident (''sha256:'' @ hex) st) (\<lambda>incident. case incident of
               None \<Rightarrow> Inr (Json 404 (JObj [(''error'', JStr ''checkpoint gossip incident not found'')]) False)
             | Some i \<Rightarrow> Inr (Json 200 (incident_json i) True))
         | None \<Rightarrow>
             (case match_cosig path of
                Some (component, r) \<Rightarrow> cosig_response sha component r st
              | None \<Rightarrow> Inr (Json 404 (JObj [(''error'', JStr ''not found'')]) False)))"

definition witness_serve ::
  "(bytes \<Rightarrow> bytes) \<Rightarrow> WitnessLogConfig \<Rightarrow> WitnessIdentity \<Rightarrow> bytes \<Rightarrow> bytes \<Rightarrow> int \<Rightarrow> int \<Rightarrow> bool \<Rightarrow> string \<Rightarrow> string
   \<Rightarrow> witness_store \<Rightarrow> witness_response" where
  "witness_serve sha cfg identity publicKey keyId maxAge now updating verb path st =
     (case witness_route sha cfg identity publicKey keyId maxAge now updating verb path st of
        Inl e \<Rightarrow> Json 500 (JObj [(''error'', JStr e)]) False | Inr r \<Rightarrow> r)"

section \<open>The store behind the routes only grows\<close>

lemma commit_incidents_le: "store_le st (snd (commit_incidents ok is st))"
proof (induction ok "is" st rule: commit_incidents.induct)
  case (2 ok i "is" st)
  then show ?case
    using commitIncident_le [of st "ok i" i] store_le_trans
    by (fastforce split: prod.splits sum.splits)
qed (simp add: store_le_refl)

lemma check_gossip_le: "store_le st (snd (check_gossip x a cfg nt hs st))"
  using commit_incidents_le [of st "at_incident a"]
  by (auto simp: check_gossip_def Let_def store_le_refl split: sum.splits prod.splits) (metis snd_conv)+

lemma cosign_and_commit_le: "store_le st (snd (cosign_and_commit x a cfg identity nt c hs st))"
proof -
  obtain r st' where run: "cosign_and_commit x a cfg identity nt c hs st = (r, st')"
    by (cases "cosign_and_commit x a cfg identity nt c hs st")
  then show ?thesis
  proof (cases rule: cosign_and_commit_cases)
    case (wrote s q)
    with commit_le [of st "ex_sha x" "at_writes a" s hs] run show ?thesis by simp
  qed (simp add: run store_le_refl)
qed

lemma witness_checkpoint_le: "store_le st (snd (witness_checkpoint x cfg identity a nt c prior st))"
proof -
  have gossip: "store_le st st'" if "check_gossip x a cfg nt hs st = (g, st')" for hs g st'
    using check_gossip_le [of st x a cfg nt hs] that by simp
  moreover have "store_le st (snd (cosign_and_commit x a cfg identity nt c hs st'))"
    if "check_gossip x a cfg nt hs st = (g, st')" for hs g st'
    using gossip [OF that] cosign_and_commit_le by (rule store_le_trans)
  ultimately show ?thesis
    unfolding witness_checkpoint_def Let_def
    by (auto simp: store_le_refl split: sum.split prod.split)
qed

lemma witnessOnce_le: "store_le st (snd (witnessOnce x cfg identity a st))"
  by (auto simp: witnessOnce_def store_le_refl witness_checkpoint_le split: sum.split)

lemma update_failed_le: "store_le st (snd (update_failed x cfg u err st))"
  using recordCheck_le [of st "ex_sha x" "ua_failedWrite u" "tk_name (lc_logKey cfg)" "ua_failedSeconds u" "Some err"]
  by (auto simp: update_failed_def split: prod.splits sum.splits)

lemma update_le: "store_le st (snd (update x cfg identity u st))"
proof -
  obtain r st1 where w: "witnessOnce x cfg identity (ua_attempt u) st = (r, st1)"
    by (cases "witnessOnce x cfg identity (ua_attempt u) st")
  let ?rec = "recordCheck (ex_sha x) (ua_doneWrite u) (tk_name (lc_logKey cfg)) (ua_doneSeconds u) None st1"
  have "store_le st st1" using witnessOnce_le [of st x cfg identity "ua_attempt u"] w by simp
  moreover have "store_le st1 (snd ?rec)" by (rule recordCheck_le)
  ultimately have "store_le st (snd ?rec)" by (rule store_le_trans)
  moreover have "store_le st (snd (update_failed x cfg u e st'))" if "store_le st st'" for e st'
    using that update_failed_le by (rule store_le_trans)
  ultimately show ?thesis
    using w \<open>store_le st st1\<close> by (auto simp: update_def split: sum.split prod.splits)
qed

interpretation public_machine: monotone_machine "witness_step x cfg identity" store_le for x cfg identity
  by unfold_locales (simp_all add: store_le_refl witness_step_def update_le, rule store_le_trans)

section \<open>Properties\<close>

definition immutable :: "witness_response \<Rightarrow> bool" where
  "immutable r = (case r of Json _ _ b \<Rightarrow> b | Text _ _ b \<Rightarrow> b)"

lemma cosig_response_stable:
  assumes "store_le s t" and "cosig_response sha component r s = Inr res" and "immutable res"
  shows "cosig_response sha component r t = Inr res"
proof -
  from assms(2, 3) obtain o' c path where *: "decodeURIComponent component = Some o'" "cosignaturePath sha o' r = Inr path"
    "map_of (st_cosigs s) path = Some c" "c \<noteq> []" "res = Text 200 c True"
    by (auto simp: cosig_response_def rbind_Inr_iff getCosignature_def immutable_def split: option.splits if_splits)
  then have "map_of (st_cosigs t) path = Some c" using assms(1) by (cases path) (simp add: store_le_def)
  with * show ?thesis by (simp add: cosig_response_def getCosignature_def)
qed

text \<open>Immutable responses. What the witness answers with the immutable cache directive, a cosignature or an
  incident, it answers to the same request ever after, whatever checks run and whatever the clock says.\<close>

theorem immutable_responses_stable:
  assumes "witness_serve (ex_sha x) cfg identity pk kid maxAge now upd verb path st = res" and "immutable res"
  shows "witness_serve (ex_sha x) cfg identity pk kid maxAge now' upd' verb path (fold (witness_step x cfg identity) us st) = res"
proof -
  let ?t = "fold (witness_step x cfg identity) us st"
  have le: "store_le st ?t" by (rule public_machine.run_le)
  from assms have r: "witness_route (ex_sha x) cfg identity pk kid maxAge now upd verb path st = Inr res"
    by (auto simp: witness_serve_def immutable_def split: sum.splits)
  have "witness_route (ex_sha x) cfg identity pk kid maxAge now' upd' verb path ?t = Inr res"
  proof (cases "match_incident path")
    case (Some hex)
    with r assms(2) obtain i p where *: "verb = ''GET''" "incidentPath (''sha256:'' @ hex) = Inr p"
      "map_of (st_incidents st) p = Some i" "validateIncident i = Inr ()" "res = Json 200 (incident_json i) True"
      "path \<notin> {''/v1/pubkey'', ''/v1/log-pubkey'', ''/v1/status'', ''/v1/health'', ''/v1/checkpoint'', ''/v1/incidents''}"
      by (auto simp: witness_route_def Let_def immutable_def rbind_Inr_iff getIncident_def pubkey_response_def
          log_pubkey_response_def status_response_def health_response_def split: if_splits option.splits)
    then have "map_of (st_incidents ?t) p = Some i" using le by (simp add: store_le_def)
    with * Some show ?thesis by (simp add: witness_route_def Let_def getIncident_def)
  next
    case None
    with r assms(2) obtain component rt where *: "verb = ''GET''" "match_cosig path = Some (component, rt)"
      "cosig_response (ex_sha x) component rt st = Inr res"
      "path \<notin> {''/v1/pubkey'', ''/v1/log-pubkey'', ''/v1/status'', ''/v1/health'', ''/v1/checkpoint'', ''/v1/incidents''}"
      by (auto simp: witness_route_def Let_def immutable_def rbind_Inr_iff pubkey_response_def
          log_pubkey_response_def status_response_def health_response_def split: if_splits option.splits)
    then have "cosig_response (ex_sha x) component rt ?t = Inr res" by (intro cosig_response_stable [OF le] assms(2))
    with * None show ?thesis by (simp add: witness_route_def Let_def)
  qed
  then show ?thesis by (simp add: witness_serve_def)
qed

lemma split_component: "CHR ''/'' \<notin> set a \<Longrightarrow> CHR ''/'' \<notin> set b \<Longrightarrow> split_on (CHR ''/'') (a @ ''/'' @ b) = [a, b]"
  using split_join [of "[a, b]" "CHR ''/''"] by simp

theorem immutable_responses_stable_witness:
  "\<forall>u. witness_serve pad32 toy_config toy_identity [] [] 60 9 True ''GET'' (''/v1/cosig/log/'' @ replicate 43 (CHR ''A''))
     (fold (witness_step toy_externals toy_config toy_identity) [u]
       (empty_store\<lparr>st_cosigs := [((stableName pad32 ''log'', replicate 43 (CHR ''A'')), ''sig'')]\<rparr>))
   = Text 200 ''sig'' True"
proof
  fix u
  let ?r = "replicate 43 (CHR ''A'')"
  let ?st = "empty_store\<lparr>st_cosigs := [((stableName pad32 ''log'', ?r), ''sig'')]\<rparr>"
  have chars: "list_all is_b64url_char ?r" by (simp add: list_all_iff is_b64url_char_def CHARS_def)
  have "decodeURIComponent ''log'' = Some ''log''" by (simp add: decodeURIComponent.simps)
  then have "cosig_response pad32 ''log'' ?r ?st = Inr (Text 200 ''sig'' True)"
    using chars by (simp add: cosig_response_def getCosignature_def cosignaturePath_def)
  moreover have "match_cosig (''/v1/cosig/log/'' @ ?r) = Some (''log'', ?r)"
    using split_component [of "''log''" ?r] chars by (simp add: match_cosig_def starts_with_def)
  moreover have "match_incident (''/v1/cosig/log/'' @ ?r) = None"
    by (simp add: match_incident_def starts_with_def)
  ultimately have "witness_serve pad32 toy_config toy_identity [] [] 60 9 False ''GET'' (''/v1/cosig/log/'' @ ?r) ?st
      = Text 200 ''sig'' True"
    by (simp add: witness_serve_def witness_route_def Let_def)
  moreover have "ex_sha toy_externals = pad32" by (simp add: toy_externals_def)
  ultimately show "witness_serve pad32 toy_config toy_identity [] [] 60 9 True ''GET'' (''/v1/cosig/log/'' @ ?r)
      (fold (witness_step toy_externals toy_config toy_identity) [u] ?st) = Text 200 ''sig'' True"
    using immutable_responses_stable [of toy_externals toy_config toy_identity "[]" "[]" 60 9 False "''GET''"
        "''/v1/cosig/log/'' @ ?r" ?st "Text 200 ''sig'' True" 9 True "[u]"]
    by (simp add: immutable_def)
qed

lemma recordCheck_success:
  assumes "recordCheck sha ok origin t None st = (Inr h, st')"
  shows "loadHealth sha origin st' = Inr (Some \<lparr>sh_logOrigin = origin, sh_lastCheckedAtSeconds = t,
     sh_lastSuccessfulCheckAtSeconds = Some t, sh_lastError = None\<rparr>)"
proof -
  have "is_safe_integer t \<and> 0 \<le> t" using assms by (auto simp: recordCheck_def split: if_splits)
  moreover have "map_of (st_health st') (stableName sha origin) = Some \<lparr>sh_logOrigin = origin, sh_lastCheckedAtSeconds = t,
     sh_lastSuccessfulCheckAtSeconds = Some t, sh_lastError = None\<rparr>"
    using assms by (auto simp: recordCheck_def Let_def writeDurably_def jsmap_simps split: if_splits sum.splits)
  ultimately show ?thesis by (simp add: loadHealth_def validateHealth_def)
qed

text \<open>Health follows the checks. After an update that returns, the health endpoint answers 200 for as long as
  the allowed age of that check and 503 from then on, until another update runs.\<close>

theorem health_after_update:
  assumes "update x cfg identity u st = (Inr (), st')"
    and "witnesses (ex_sha x) (tk_name (lc_logKey cfg)) st old" and "listIncidents st' = Inr is" and "0 \<le> maxAge"
  shows "\<exists>body. witness_serve (ex_sha x) cfg identity pk kid maxAge now upd ''GET'' ''/v1/health'' st'
    = Json (if now - ua_doneSeconds u \<le> maxAge then 200 else 503) body False"
proof -
  let ?o = "tk_name (lc_logKey cfg)"
  from assms(1) obtain res st1 h where run: "witnessOnce x cfg identity (ua_attempt u) st = (Inr res, st1)"
    "recordCheck (ex_sha x) (ua_doneWrite u) ?o (ua_doneSeconds u) None st1 = (Inr h, st')"
    by (auto simp: update_def update_failed_def split: prod.splits sum.splits)
  from witnessOnce_witnesses [OF run(1) assms(2)] obtain hs where "witnesses (ex_sha x) ?o st1 hs" "hs \<noteq> []"
    by (auto simp: reports_def)
  moreover have "same_history st1 st'" using recordCheck_same [of st1 "ex_sha x" "ua_doneWrite u" ?o "ua_doneSeconds u" None] run(2) by simp
  ultimately obtain p where "load (ex_sha x) ?o st' = Inr (Some p)" by (auto simp: witnesses_def load_same)
  with recordCheck_success [OF run(2)] assms(3, 4) show ?thesis
    by (simp add: witness_serve_def witness_route_def health_response_def check_age_def Let_def)
qed

lemma cosign_and_commit_rest:
  assumes "cosign_and_commit x a cfg identity nt c hs st = (r, st')"
  shows "st_health st' = st_health st" and "st_incidents st' = st_incidents st"
  using assms by (auto elim!: cosign_and_commit_cases commit_cases)

theorem health_after_update_witness:
  "\<exists>u st'. update toy_externals toy_config toy_identity u empty_store = (Inr (), st')
    \<and> (\<exists>b. witness_serve pad32 toy_config toy_identity [] [] 60 50 False ''GET'' ''/v1/health'' st' = Json 200 b False)
    \<and> (\<exists>b. witness_serve pad32 toy_config toy_identity [] [] 60 70 False ''GET'' ''/v1/health'' st' = Json 503 b False)"
proof -
  obtain t where t: "tree_inv pad32 t" "rawEntries t = [[1]]" using tree_of_entries by blast
  then have r: "check_ready toy_externals toy_config toy_identity [7] (toy_attempt t True) t" by (simp add: toy_ready)
  let ?u = "\<lparr>ua_attempt = toy_attempt t True, ua_doneSeconds = 5, ua_doneWrite = True, ua_failedSeconds = 5, ua_failedWrite = True\<rparr>"
  have x: "ex_sha toy_externals = pad32" by (simp add: toy_externals_def)
  have w: "witnesses (ex_sha toy_externals) (tk_name (lc_logKey toy_config)) empty_store []" by (rule empty_witnesses)
  obtain res st1 where run: "witnessOnce toy_externals toy_config toy_identity (toy_attempt t True) empty_store = (Inr res, st1)"
    using check_catches_up [OF r, of empty_store "[]" 0] w toy_writes
    by (cases "witnessOnce toy_externals toy_config toy_identity (toy_attempt t True) empty_store") auto
  obtain nt c where "cosign_and_commit toy_externals (toy_attempt t True) toy_config toy_identity nt c
      (leaf_hashes toy_externals t) empty_store = (Inr res, st1)"
    using honest_check [OF r, of empty_store 0] w t run by (metis length_greater_0_conv list.discI take0)
  from cosign_and_commit_rest [OF this] have other: "st_health st1 = [] \<and> st_incidents st1 = []"
    by (simp add: empty_store_def)
  then obtain st' where u: "update toy_externals toy_config toy_identity ?u empty_store = (Inr (), st')" "st_incidents st' = []"
    using run by (auto simp: update_def recordCheck_def loadHealth_def writeDurably_def is_safe_integer_def max_safe_integer_def Let_def)
  have "listIncidents st' = Inr []" using u(2) by (simp add: listIncidents_def sort_by_def)
  with health_after_update [OF u(1) w, of "[]" 60 "[]" "[]" 50 False] health_after_update [OF u(1) w, of "[]" 60 "[]" "[]" 70 False]
  have "(\<exists>b. witness_serve pad32 toy_config toy_identity [] [] 60 50 False ''GET'' ''/v1/health'' st' = Json 200 b False)
      \<and> (\<exists>b. witness_serve pad32 toy_config toy_identity [] [] 60 70 False ''GET'' ''/v1/health'' st' = Json 503 b False)"
    by (simp add: x)
  with u(1) show ?thesis by blast
qed

end
