(* ===== verification/Submission_Queue.thy ===== *)
theory Submission_Queue
  imports Log_Server
begin

text \<open>
  The producer's side of the log: the queue that posts signed records, retries, keeps what could not
  be delivered and hands out the proofs it received (\<open>packages/mcp/src/submission.ts\<close>).

  Every call of \<open>submitWithRetry\<close> is a task. A task runs to its next \<open>await\<close> in one step: the fetch
  of the log, the archive submission, the pause before the next attempt. Tasks and flushes interleave
  at these points, so an event names the task it resumes and carries what the platform delivers: the
  response, or the time. The loop that makes room in the queue may never end, and a step is then
  \<open>None\<close>: the process hangs, since nothing else runs on its thread.

  \<open>URL\<close> is a class of the platform and a parameter. A promise that has settled leaves
  \<open>pendingPromises\<close> in the step that settles it.
\<close>

section \<open>Endpoints\<close>

definition SUBMISSION_PATH :: string where
  "SUBMISSION_PATH = ''/v1/entries''"

definition ARCHIVE_RECORDS_PATH :: string where
  "ARCHIVE_RECORDS_PATH = ''/v1/records''"

definition MAX_RETRIES :: nat where
  "MAX_RETRIES = 3"

definition INITIAL_BACKOFF_MS :: int where
  "INITIAL_BACKOFF_MS = 1000"

definition MAX_WINDOW_MS :: int where
  "MAX_WINDOW_MS = 30000"

record 'u url_api =
  url_parse :: "string \<Rightarrow> 'u option"
  url_pathname :: "'u \<Rightarrow> string"
  url_set_pathname :: "string \<Rightarrow> 'u \<Rightarrow> 'u"
  url_toString :: "'u \<Rightarrow> string"

definition normalizeLogEndpoint :: "'u url_api \<Rightarrow> string \<Rightarrow> string result" where
  "normalizeLogEndpoint api raw =
     (case url_parse api raw of
        None \<Rightarrow> Inl (''atrib: log endpoint '' @ [CHR 0x27] @ raw @ [CHR 0x27]
                 @ '' is not a valid URL. Expected something like '' @ [CHR 0x27]
                 @ ''https://log.example.com/v1/entries'' @ [CHR 0x27] @ ''.'')
      | Some url \<Rightarrow>
          if url_pathname api url = [] \<or> url_pathname api url = ''/''
          then Inr (url_toString api (url_set_pathname api SUBMISSION_PATH url))
          else Inr raw)"

definition normalizeArchiveEndpoint :: "'u url_api \<Rightarrow> string \<Rightarrow> string result" where
  "normalizeArchiveEndpoint api raw =
     (case url_parse api raw of
        None \<Rightarrow> Inl (''atrib: archive endpoint '' @ [CHR 0x27] @ raw @ [CHR 0x27]
                 @ '' is not a valid URL. Expected something like '' @ [CHR 0x27]
                 @ ''https://archive.example.com/v1/records'' @ [CHR 0x27] @ ''.'')
      | Some url \<Rightarrow>
          let p = url_pathname api url;
              path = (if ends_with ''/'' p then butlast p else p)
          in if path = [] \<or> path = ''/'' \<or> path = ''/v1'' \<or> ends_with ARCHIVE_RECORDS_PATH path
             then Inr (url_toString api (url_set_pathname api ARCHIVE_RECORDS_PATH url))
             else Inr raw)"

section \<open>The queue\<close>

datatype priority = High | Normal

record SubmissionSidecar =
  sc_authorizationEvidence :: "json list option"
  sc_resolvedFacts :: "js_object option"
  sc_args :: "js_object option"
  sc_result :: "js_object option"

record PendingEntry =
  pe_record :: js_object
  pe_priority :: priority
  pe_sidecar :: "SubmissionSidecar option"

record submission_queue =
  q_proofCache :: "(string, json) jsmap"
  q_pendingRecords :: "(string, PendingEntry) jsmap"
  q_totalEvictions :: nat

text \<open>What a step does to the outside. \<open>Evict\<close> marks a record that leaves the queue to make room;
  the console hears of the first and of every hundredth.\<close>

datatype queue_action =
    PostEntry string priority js_object
  | PostArchive js_object
  | Evict string
  | WarnEvicted nat string
  | WarnRejected nat string
  | WarnFailed string
  | WarnUnexpected string

text \<open>\<open>maxQueueDepth\<close>; \<open>None\<close> is \<open>Infinity\<close>, and a fraction counts as the next integer.\<close>

type_synonym depth = "int option"

definition at_cap :: "depth \<Rightarrow> submission_queue \<Rightarrow> bool" where
  "at_cap maxQueueDepth q =
     (case maxQueueDepth of None \<Rightarrow> False | Some d \<Rightarrow> d \<le> int (length (q_pendingRecords q)))"

text \<open>The scan for the victim: the first normal key, and the first key seen on the way.\<close>

fun oldest_keys :: "(string, PendingEntry) jsmap \<Rightarrow> string option \<Rightarrow> string option \<times> string option" where
  "oldest_keys [] firstAnyKey = (None, firstAnyKey)"
| "oldest_keys ((k, e) # rest) firstAnyKey =
     (let any' = (case firstAnyKey of None \<Rightarrow> Some k | Some a \<Rightarrow> Some a)
      in if pe_priority e = Normal then (Some k, any') else oldest_keys rest any')"

definition evictOneOldest :: "submission_queue \<Rightarrow> queue_action list \<times> submission_queue" where
  "evictOneOldest q =
     (let (firstNormalKey, firstAnyKey) = oldest_keys (q_pendingRecords q) None
      in case (case firstNormalKey of None \<Rightarrow> firstAnyKey | Some k \<Rightarrow> Some k) of
           None \<Rightarrow> ([], q)
         | Some victim \<Rightarrow>
             let n = Suc (q_totalEvictions q)
             in (Evict victim # (if n = 1 \<or> n mod 100 = 0 then [WarnEvicted n victim] else []),
                 q\<lparr>q_pendingRecords := AList.delete victim (q_pendingRecords q), q_totalEvictions := n\<rparr>))"

partial_function (option) evict_loop ::
  "depth \<Rightarrow> queue_action list \<Rightarrow> submission_queue \<Rightarrow> (queue_action list \<times> submission_queue) option" where
  "evict_loop maxQueueDepth acts q =
     (if at_cap maxQueueDepth q
      then evict_loop maxQueueDepth (acts @ fst (evictOneOldest q)) (snd (evictOneOldest q))
      else Some (acts, q))"

definition recordHash :: "(bytes \<Rightarrow> bytes) \<Rightarrow> (json \<Rightarrow> string option) \<Rightarrow> js_object \<Rightarrow> string result" where
  "recordHash sha canon r = rbind (canonicalRecord canon r) (\<lambda>canonical. Inr (hexEncode (sha canonical)))"

definition getProof :: "string \<Rightarrow> submission_queue \<Rightarrow> json option" where
  "getProof h q = map_of (q_proofCache q) h"

section \<open>One submission\<close>

text \<open>How a task ends: with a proof, with a success that carried none, with a refusal, or in the queue.\<close>

datatype outcome = Proved | Unproved | Rejected nat | Queued

datatype phase = Fetching | Archiving | Sleeping | Finished outcome

record task =
  ts_record :: js_object
  ts_priority :: priority
  ts_sidecar :: "SubmissionSidecar option"
  ts_hash :: string
  ts_startTime :: int
  ts_attempt :: nat
  ts_backoff :: int
  ts_phase :: phase

definition is_finished :: "task \<Rightarrow> bool" where
  "is_finished t = (case ts_phase t of Finished _ \<Rightarrow> True | _ \<Rightarrow> False)"

text \<open>What a fetch delivers: no response, or a status with a body that is JSON or not.\<close>

datatype http_result = NetworkError | HttpResponse nat "json option"

fun is_string :: "json \<Rightarrow> bool" where
  "is_string (JStr _) = True"
| "is_string _ = False"

definition valid_proof :: "json \<Rightarrow> bool" where
  "valid_proof raw \<longleftrightarrow>
     (case jget raw ''log_index'' of Some (JNum n) \<Rightarrow> is_integer n \<and> 0 \<le> n | _ \<Rightarrow> False)
     \<and> (case jget raw ''checkpoint'' of Some v \<Rightarrow> is_string v | None \<Rightarrow> False)
     \<and> (case jget raw ''inclusion_proof'' of Some (JArr es) \<Rightarrow> list_all is_string es | _ \<Rightarrow> False)
     \<and> (case jget raw ''leaf_hash'' of Some v \<Rightarrow> is_string v | None \<Rightarrow> False)"

definition submitToArchive :: "bool \<Rightarrow> js_object \<Rightarrow> json \<Rightarrow> SubmissionSidecar option \<Rightarrow> queue_action list" where
  "submitToArchive archiveSubmission r proof sidecar =
     (if \<not> archiveSubmission then []
      else [PostArchive
        ([(''record'', JObj r), (''proof'', proof)]
         @ (case sidecar of None \<Rightarrow> [] | Some sc \<Rightarrow>
              (case sc_authorizationEvidence sc of None \<Rightarrow> []
               | Some ev \<Rightarrow> if ev = [] then [] else [(''authorizationEvidence'', JArr ev)])
              @ (case sc_resolvedFacts sc of None \<Rightarrow> []
                 | Some facts \<Rightarrow> if facts = [] then [] else [(''resolvedFacts'', JObj facts)])))])"

definition post_entry :: "task \<Rightarrow> queue_action" where
  "post_entry t = PostEntry (ts_hash t) (ts_priority t) (ts_record t)"

text \<open>\<open>submitWithRetry\<close> from its start to the first fetch.\<close>

definition start_task ::
  "(bytes \<Rightarrow> bytes) \<Rightarrow> (json \<Rightarrow> string option) \<Rightarrow> int \<Rightarrow> js_object \<Rightarrow> priority \<Rightarrow> SubmissionSidecar option
   \<Rightarrow> task result" where
  "start_task sha canon now r prio sidecar =
     rbind (recordHash sha canon r) (\<lambda>h.
       Inr \<lparr>ts_record = r, ts_priority = prio, ts_sidecar = sidecar, ts_hash = h, ts_startTime = now,
            ts_attempt = 0, ts_backoff = INITIAL_BACKOFF_MS, ts_phase = Fetching\<rparr>)"

type_synonym task_step = "(queue_action list \<times> task \<times> submission_queue) option"

definition finish_task :: "outcome \<Rightarrow> task \<Rightarrow> submission_queue \<Rightarrow> task \<times> submission_queue" where
  "finish_task outcome t q =
     (t\<lparr>ts_phase := Finished outcome\<rparr>,
      q\<lparr>q_pendingRecords := AList.delete (ts_hash t) (q_pendingRecords q)\<rparr>)"

text \<open>All retries failed: make room, then keep the record.\<close>

definition give_up :: "depth \<Rightarrow> task \<Rightarrow> submission_queue \<Rightarrow> task_step" where
  "give_up maxQueueDepth t q =
     (case evict_loop maxQueueDepth [] q of
        None \<Rightarrow> None
      | Some (acts, q') \<Rightarrow>
          Some (WarnFailed (ts_hash t) # acts, t\<lparr>ts_phase := Finished Queued\<rparr>,
            q'\<lparr>q_pendingRecords := AList.update (ts_hash t)
                 \<lparr>pe_record = ts_record t, pe_priority = ts_priority t, pe_sidecar = ts_sidecar t\<rparr>
                 (q_pendingRecords q')\<rparr>))"

definition after_failure :: "depth \<Rightarrow> task \<Rightarrow> submission_queue \<Rightarrow> task_step" where
  "after_failure maxQueueDepth t q =
     (if ts_attempt t < MAX_RETRIES - 1 then Some ([], t\<lparr>ts_phase := Sleeping\<rparr>, q)
      else give_up maxQueueDepth t q)"

text \<open>The fetch settles. A body that is not JSON, or is \<open>null\<close>, throws inside the \<open>try\<close>.\<close>

definition on_reply :: "bool \<Rightarrow> depth \<Rightarrow> http_result \<Rightarrow> task \<Rightarrow> submission_queue \<Rightarrow> task_step" where
  "on_reply archiveSubmission maxQueueDepth resp t q =
     (case resp of
        NetworkError \<Rightarrow> after_failure maxQueueDepth t q
      | HttpResponse status body \<Rightarrow>
          if 200 \<le> status \<and> status < 300
          then (case body of
                  None \<Rightarrow> after_failure maxQueueDepth t q
                | Some raw \<Rightarrow>
                    if raw = JNull then after_failure maxQueueDepth t q
                    else if valid_proof raw
                    then Some (submitToArchive archiveSubmission (ts_record t) raw (ts_sidecar t),
                           t\<lparr>ts_phase := Archiving\<rparr>,
                           q\<lparr>q_proofCache := AList.update (ts_hash t) raw (q_proofCache q)\<rparr>)
                    else Some ([], finish_task Unproved t q))
          else if 400 \<le> status \<and> status < 500
          then Some ([WarnRejected status (ts_hash t)], finish_task (Rejected status) t q)
          else after_failure maxQueueDepth t q)"

text \<open>The archive has answered, failed or timed out.\<close>

definition on_archived :: "task \<Rightarrow> submission_queue \<Rightarrow> task_step" where
  "on_archived t q = Some ([], finish_task Proved t q)"

text \<open>The pause is over: the next attempt, unless the window has passed.\<close>

definition on_wake :: "depth \<Rightarrow> int \<Rightarrow> task \<Rightarrow> submission_queue \<Rightarrow> task_step" where
  "on_wake maxQueueDepth now t q =
     (let t' = t\<lparr>ts_attempt := Suc (ts_attempt t), ts_backoff := 2 * ts_backoff t\<rparr>
      in if MAX_WINDOW_MS < now - ts_startTime t then give_up maxQueueDepth t' q
         else Some ([post_entry t'], t'\<lparr>ts_phase := Fetching\<rparr>, q))"

section \<open>The running queue\<close>

datatype flush_phase = Draining "nat list" | Retrying "nat list" | Flushed

record queue_system =
  qs_queue :: submission_queue
  qs_tasks :: "task list"
  qs_promises :: "nat list"
  qs_flushes :: "flush_phase list"

datatype queue_event =
    Submit js_object priority "SubmissionSidecar option" int
  | Reply nat http_result
  | ArchiveEnds nat
  | Wake nat int
  | Flush int
  | FlushGoesOn nat int

definition createSubmissionQueue :: queue_system where
  "createSubmissionQueue =
     \<lparr>qs_queue = \<lparr>q_proofCache = [], q_pendingRecords = [], q_totalEvictions = 0\<rparr>,
      qs_tasks = [], qs_promises = [], qs_flushes = []\<rparr>"

text \<open>A new task joins the running ones and posts; \<open>Inl\<close> when the record does not canonicalise.\<close>

definition spawn ::
  "(bytes \<Rightarrow> bytes) \<Rightarrow> (json \<Rightarrow> string option) \<Rightarrow> int \<Rightarrow> js_object \<Rightarrow> priority \<Rightarrow> SubmissionSidecar option
   \<Rightarrow> queue_system \<Rightarrow> (queue_action \<times> nat \<times> queue_system) result" where
  "spawn sha canon now r prio sidecar s =
     rbind (start_task sha canon now r prio sidecar) (\<lambda>t.
       Inr (post_entry t, length (qs_tasks s), s\<lparr>qs_tasks := qs_tasks s @ [t]\<rparr>))"

definition submit ::
  "(bytes \<Rightarrow> bytes) \<Rightarrow> (json \<Rightarrow> string option) \<Rightarrow> int \<Rightarrow> js_object \<Rightarrow> priority \<Rightarrow> SubmissionSidecar option
   \<Rightarrow> queue_system \<Rightarrow> queue_action list \<times> queue_system" where
  "submit sha canon now r prio sidecar s =
     (case spawn sha canon now r prio sidecar s of
        Inl err \<Rightarrow> ([WarnUnexpected err], s)
      | Inr (act, tid, s') \<Rightarrow> ([act], s'\<lparr>qs_promises := qs_promises s' @ [tid]\<rparr>))"

text \<open>The retries of a flush: high before normal, each in queue order.\<close>

definition highFirst :: "(string, PendingEntry) jsmap \<Rightarrow> PendingEntry list" where
  "highFirst m = filter (\<lambda>e. pe_priority e = High) (map snd m) @ filter (\<lambda>e. pe_priority e = Normal) (map snd m)"

fun spawn_all ::
  "(bytes \<Rightarrow> bytes) \<Rightarrow> (json \<Rightarrow> string option) \<Rightarrow> int \<Rightarrow> PendingEntry list \<Rightarrow> queue_system
   \<Rightarrow> queue_action list \<times> nat list \<times> queue_system" where
  "spawn_all sha canon now [] s = ([], [], s)"
| "spawn_all sha canon now (e # es) s =
     (case spawn sha canon now (pe_record e) (pe_priority e) (pe_sidecar e) s of
        Inl _ \<Rightarrow> spawn_all sha canon now es s
      | Inr (act, tid, s') \<Rightarrow>
          (case spawn_all sha canon now es s' of (acts, tids, s'') \<Rightarrow> (act # acts, tid # tids, s'')))"

text \<open>\<open>flush\<close> from its loop condition to its next \<open>await\<close>.\<close>

definition flush_on ::
  "(bytes \<Rightarrow> bytes) \<Rightarrow> (json \<Rightarrow> string option) \<Rightarrow> int \<Rightarrow> queue_system
   \<Rightarrow> queue_action list \<times> flush_phase \<times> queue_system" where
  "flush_on sha canon now s =
     (if qs_promises s \<noteq> [] then ([], Draining (qs_promises s), s\<lparr>qs_promises := []\<rparr>)
      else if q_pendingRecords (qs_queue s) \<noteq> []
      then (case spawn_all sha canon now (highFirst (q_pendingRecords (qs_queue s))) s of
              (acts, tids, s') \<Rightarrow> (acts, Retrying tids, s'))
      else ([], Flushed, s))"

definition all_settled :: "queue_system \<Rightarrow> nat list \<Rightarrow> bool" where
  "all_settled s tids = list_all (\<lambda>i. i < length (qs_tasks s) \<longrightarrow> is_finished (qs_tasks s ! i)) tids"

text \<open>A task that waits in phase \<open>p\<close> takes a step; one that settles leaves the promises.\<close>

definition resume ::
  "nat \<Rightarrow> phase \<Rightarrow> (task \<Rightarrow> submission_queue \<Rightarrow> task_step) \<Rightarrow> queue_system
   \<Rightarrow> (queue_action list \<times> queue_system) option" where
  "resume i p f s =
     (if i < length (qs_tasks s) \<and> ts_phase (qs_tasks s ! i) = p
      then (case f (qs_tasks s ! i) (qs_queue s) of
              None \<Rightarrow> None
            | Some (acts, t, q) \<Rightarrow>
                Some (acts, s\<lparr>qs_queue := q, qs_tasks := (qs_tasks s)[i := t],
                              qs_promises := (if is_finished t then remove1 i (qs_promises s) else qs_promises s)\<rparr>))
      else Some ([], s))"

definition queue_step ::
  "(bytes \<Rightarrow> bytes) \<Rightarrow> (json \<Rightarrow> string option) \<Rightarrow> bool \<Rightarrow> depth \<Rightarrow> queue_event \<Rightarrow> queue_system
   \<Rightarrow> (queue_action list \<times> queue_system) option" where
  "queue_step sha canon archive depth ev s =
     (case ev of
        Submit r prio sidecar now \<Rightarrow> Some (submit sha canon now r prio sidecar s)
      | Reply i resp \<Rightarrow> resume i Fetching (on_reply archive depth resp) s
      | ArchiveEnds i \<Rightarrow> resume i Archiving on_archived s
      | Wake i now \<Rightarrow> resume i Sleeping (on_wake depth now) s
      | Flush now \<Rightarrow>
          (case flush_on sha canon now s of
             (acts, p, s') \<Rightarrow> Some (acts, s'\<lparr>qs_flushes := qs_flushes s' @ [p]\<rparr>))
      | FlushGoesOn f now \<Rightarrow>
          if f < length (qs_flushes s)
          then (case qs_flushes s ! f of
                  Flushed \<Rightarrow> Some ([], s)
                | Retrying tids \<Rightarrow>
                    Some ([], if all_settled s tids then s\<lparr>qs_flushes := (qs_flushes s)[f := Flushed]\<rparr> else s)
                | Draining tids \<Rightarrow>
                    if all_settled s tids
                    then (case flush_on sha canon now s of
                            (acts, p, s') \<Rightarrow> Some (acts, s'\<lparr>qs_flushes := (qs_flushes s')[f := p]\<rparr>))
                    else Some ([], s))
          else Some ([], s))"

fun queue_run ::
  "(bytes \<Rightarrow> bytes) \<Rightarrow> (json \<Rightarrow> string option) \<Rightarrow> bool \<Rightarrow> depth \<Rightarrow> queue_event list \<Rightarrow> queue_system
   \<Rightarrow> (queue_action list \<times> queue_system) option" where
  "queue_run sha canon archive depth [] s = Some ([], s)"
| "queue_run sha canon archive depth (ev # evs) s =
     (case queue_step sha canon archive depth ev s of
        None \<Rightarrow> None
      | Some (acts, s') \<Rightarrow>
          (case queue_run sha canon archive depth evs s' of
             None \<Rightarrow> None
           | Some (acts', s'') \<Rightarrow> Some (acts @ acts', s'')))"

section \<open>Making room\<close>

definition victim_of :: "(string, PendingEntry) jsmap \<Rightarrow> string option" where
  "victim_of m = (case fst (oldest_keys m None) of None \<Rightarrow> snd (oldest_keys m None) | Some k \<Rightarrow> Some k)"

lemma oldest_keys_normal:
  "(case fst (oldest_keys m any) of None \<Rightarrow> \<forall>(k, e) \<in> set m. pe_priority e = High
    | Some k \<Rightarrow> \<exists>e. (k, e) \<in> set m \<and> pe_priority e = Normal)"
  by (induction m any rule: oldest_keys.induct) (auto simp: Let_def split: option.splits, (metis priority.exhaust)+)

lemma oldest_keys_any:
  "fst (oldest_keys m any) = None \<Longrightarrow>
   snd (oldest_keys m any) = (case any of Some a \<Rightarrow> Some a | None \<Rightarrow> (case m of [] \<Rightarrow> None | (k, e) # _ \<Rightarrow> Some k))"
  by (induction m any rule: oldest_keys.induct) (auto simp: Let_def split: option.splits if_splits)

lemma victim_of_None: "victim_of m = None \<longleftrightarrow> m = []"
  using oldest_keys_any [of m None] oldest_keys_normal [of m None]
  by (auto simp: victim_of_def split: option.splits list.splits)

lemma victim_of_Some:
  assumes "victim_of m = Some k"
  shows "\<exists>e. (k, e) \<in> set m \<and> (pe_priority e = Normal \<or> (\<forall>(k', e') \<in> set m. pe_priority e' = High))"
  using assms oldest_keys_any [of m None] oldest_keys_normal [of m None]
  by (cases m) (auto simp: victim_of_def split: option.splits list.splits)

lemma evictOneOldest_victim:
  "evictOneOldest q = (case victim_of (q_pendingRecords q) of None \<Rightarrow> ([], q) | Some k \<Rightarrow>
     (Evict k # (if Suc (q_totalEvictions q) = 1 \<or> Suc (q_totalEvictions q) mod 100 = 0
                 then [WarnEvicted (Suc (q_totalEvictions q)) k] else []),
      q\<lparr>q_pendingRecords := AList.delete k (q_pendingRecords q), q_totalEvictions := Suc (q_totalEvictions q)\<rparr>))"
  by (simp add: evictOneOldest_def victim_of_def Let_def split: option.split prod.split)

text \<open>The keys that a list of actions evicts, and the number of high-priority records in the queue.\<close>

definition evicted :: "queue_action list \<Rightarrow> string set" where
  "evicted acts = {k. Evict k \<in> set acts}"

lemma evicted_simps [simp]:
  "evicted [] = {}" "evicted (Evict k # acts) = insert k (evicted acts)"
  "evicted (PostEntry h p r # acts) = evicted acts" "evicted (PostArchive v # acts) = evicted acts"
  "evicted (WarnEvicted n k # acts) = evicted acts" "evicted (WarnRejected st h # acts) = evicted acts"
  "evicted (WarnFailed h # acts) = evicted acts" "evicted (WarnUnexpected err # acts) = evicted acts"
  "evicted (acts @ acts') = evicted acts \<union> evicted acts'"
  by (auto simp: evicted_def)

definition highs :: "submission_queue \<Rightarrow> (string, PendingEntry) jsmap" where
  "highs q = filter (\<lambda>(k, e). pe_priority e = High) (q_pendingRecords q)"

text \<open>What making room may do: only the evicted keys leave, and a key of high priority is evicted
  only from a queue that is full of them.\<close>

definition room_made :: "depth \<Rightarrow> queue_action list \<Rightarrow> submission_queue \<Rightarrow> submission_queue \<Rightarrow> bool" where
  "room_made depth acts q q' \<longleftrightarrow>
     q_proofCache q' = q_proofCache q
     \<and> q_pendingRecords q' = filter (\<lambda>(k, e). k \<notin> evicted acts) (q_pendingRecords q)
     \<and> (\<forall>k \<in> evicted acts. (\<exists>e. (k, e) \<in> set (q_pendingRecords q) \<and>
          (pe_priority e = Normal \<or> (\<exists>d. depth = Some d \<and> d \<le> int (length (highs q))))))"

lemma room_made_refl: "room_made depth [] q q"
  by (simp add: room_made_def case_prod_beta)

lemma delete_filter: "AList.delete k m = filter (\<lambda>(k', v). k' \<noteq> k) m"
  by (auto simp: AList.delete_eq intro!: filter_cong)

lemma room_made_one:
  assumes "at_cap depth q"
  shows "room_made depth (fst (evictOneOldest q)) q (snd (evictOneOldest q))"
proof (cases "victim_of (q_pendingRecords q)")
  case None
  then show ?thesis by (simp add: evictOneOldest_victim room_made_refl)
next
  case (Some k)
  let ?P = "q_pendingRecords q"
  obtain e where e: "(k, e) \<in> set ?P" "pe_priority e = Normal \<or> (\<forall>(k', e') \<in> set ?P. pe_priority e' = High)"
    using victim_of_Some [OF Some] by blast
  have full: "\<exists>d. depth = Some d \<and> d \<le> int (length (highs q))" if "\<forall>(k', e') \<in> set ?P. pe_priority e' = High"
  proof -
    have "highs q = ?P" using that by (auto simp: highs_def filter_id_conv)
    with assms show ?thesis by (auto simp: at_cap_def split: option.splits)
  qed
  have "evicted (fst (evictOneOldest q)) = {k}" by (simp add: evictOneOldest_victim Some)
  with e full show ?thesis
    by (auto simp: room_made_def evictOneOldest_victim Some delete_filter)
qed

lemma length_filter_filter_le: "length (filter P (filter Q xs)) \<le> length (filter P xs)"
  by (induction xs) auto

lemma room_made_trans:
  assumes "room_made depth acts q q'" and "room_made depth acts' q' q''"
  shows "room_made depth (acts @ acts') q q''"
proof -
  have sub: "set (q_pendingRecords q') \<subseteq> set (q_pendingRecords q)" using assms(1) by (auto simp: room_made_def)
  have "length (highs q') \<le> length (highs q)"
    using assms(1) unfolding room_made_def highs_def by (metis length_filter_filter_le)
  then have hi: "d \<le> int (length (highs q')) \<Longrightarrow> d \<le> int (length (highs q))" for d by linarith
  have "q_pendingRecords q'' = filter (\<lambda>(k, e). k \<notin> evicted acts \<union> evicted acts') (q_pendingRecords q)"
    using assms by (auto simp: room_made_def intro!: filter_cong)
  moreover have "\<exists>e. (k, e) \<in> set (q_pendingRecords q) \<and>
      (pe_priority e = Normal \<or> (\<exists>d. depth = Some d \<and> d \<le> int (length (highs q))))"
    if "k \<in> evicted acts \<union> evicted acts'" for k
  proof (cases "k \<in> evicted acts")
    case True
    with assms(1) show ?thesis by (simp add: room_made_def)
  next
    case False
    with that have "k \<in> evicted acts'" by simp
    with assms(2) obtain e where "(k, e) \<in> set (q_pendingRecords q')"
      "pe_priority e = Normal \<or> (\<exists>d. depth = Some d \<and> d \<le> int (length (highs q')))"
      by (auto simp: room_made_def)
    with sub hi show ?thesis by blast
  qed
  ultimately show ?thesis using assms by (auto simp: room_made_def)
qed

lemma evict_loop_room:
  assumes "evict_loop depth acts q = Some r"
  shows "\<exists>acts' q'. r = (acts @ acts', q') \<and> room_made depth acts' q q' \<and> \<not> at_cap depth q'"
proof (rule evict_loop.raw_induct [OF _ assms])
  fix loop depth acts q r
  assume IH: "\<And>depth acts q r. loop depth acts q = Some r \<Longrightarrow>
      \<exists>acts' q'. r = (acts @ acts', q') \<and> room_made depth acts' q q' \<and> \<not> at_cap depth q'"
    and body: "(if at_cap depth q then loop depth (acts @ fst (evictOneOldest q)) (snd (evictOneOldest q))
      else Some (acts, q)) = Some r"
  show "\<exists>acts' q'. r = (acts @ acts', q') \<and> room_made depth acts' q q' \<and> \<not> at_cap depth q'"
  proof (cases "at_cap depth q")
    case True
    then obtain acts' q' where r: "r = ((acts @ fst (evictOneOldest q)) @ acts', q')"
      "room_made depth acts' (snd (evictOneOldest q)) q'" "\<not> at_cap depth q'"
      using IH [of depth "acts @ fst (evictOneOldest q)" "snd (evictOneOldest q)" r] body by auto
    with room_made_trans [OF room_made_one [OF True] r(2)] show ?thesis by fastforce
  next
    case False
    with body show ?thesis by (auto simp: room_made_refl)
  qed
qed

definition positive_depth :: "depth \<Rightarrow> bool" where
  "positive_depth depth = (case depth of None \<Rightarrow> True | Some d \<Rightarrow> 0 < d)"

lemma evict_loop_returns:
  assumes "positive_depth depth"
  shows "\<exists>r. evict_loop depth acts q = Some r"
proof (induction "length (q_pendingRecords q)" arbitrary: acts q rule: less_induct)
  case less
  show ?case
  proof (cases "at_cap depth q")
    case True
    with assms have "q_pendingRecords q \<noteq> []"
      by (auto simp: at_cap_def positive_depth_def split: option.splits)
    then obtain k where k: "victim_of (q_pendingRecords q) = Some k"
      using victim_of_None [of "q_pendingRecords q"] by auto
    then obtain e where "(k, e) \<in> set (q_pendingRecords q)" using victim_of_Some by blast
    then have "length (q_pendingRecords (snd (evictOneOldest q))) < length (q_pendingRecords q)"
      by (auto simp: evictOneOldest_victim k delete_filter intro!: length_filter_less)
    from less [OF this] True show ?thesis by (simp add: evict_loop.simps [of depth acts q])
  qed (simp add: evict_loop.simps)
qed

lemma evict_loop_diverges: "\<not> positive_depth depth \<Longrightarrow> evict_loop depth acts q = None"
  using evict_loop_room [of depth acts q]
  by (cases "evict_loop depth acts q") (auto simp: positive_depth_def at_cap_def split: option.splits)

section \<open>What one step does\<close>

text \<open>A task step goes on waiting, settles the record, or gives up and keeps it.\<close>

definition waits :: "task \<Rightarrow> submission_queue \<Rightarrow> task \<Rightarrow> submission_queue \<Rightarrow> bool" where
  "waits t q t' q' \<longleftrightarrow>
     q_pendingRecords q' = q_pendingRecords q \<and> \<not> is_finished t'
     \<and> (ts_phase t' = Archiving \<longrightarrow> map_of (q_proofCache q') (ts_hash t) \<noteq> None)
     \<and> dom (map_of (q_proofCache q)) \<subseteq> dom (map_of (q_proofCache q'))"

definition settles :: "task \<Rightarrow> submission_queue \<Rightarrow> task \<Rightarrow> submission_queue \<Rightarrow> bool" where
  "settles t q t' q' \<longleftrightarrow>
     (\<exists>oc. oc \<noteq> Queued \<and> (oc = Proved \<longrightarrow> ts_phase t = Archiving) \<and> (t', q') = finish_task oc t q)"

definition keeps :: "depth \<Rightarrow> queue_action list \<Rightarrow> task \<Rightarrow> submission_queue \<Rightarrow> task \<Rightarrow> submission_queue \<Rightarrow> bool" where
  "keeps depth acts t q t' q' \<longleftrightarrow>
     (\<exists>q0 e. room_made depth acts q q0 \<and> \<not> at_cap depth q0 \<and> ts_phase t' = Finished Queued
        \<and> pe_record e = ts_record t \<and> pe_priority e = ts_priority t
        \<and> q' = q0\<lparr>q_pendingRecords := AList.update (ts_hash t) e (q_pendingRecords q0)\<rparr>)"

definition same_job :: "task \<Rightarrow> task \<Rightarrow> bool" where
  "same_job t t' \<longleftrightarrow> ts_record t' = ts_record t \<and> ts_hash t' = ts_hash t \<and> ts_priority t' = ts_priority t"

text \<open>A bound on the steps a task has left.\<close>

definition task_rank :: "task \<Rightarrow> nat" where
  "task_rank t =
     (case ts_phase t of
        Fetching \<Rightarrow> 2 * (MAX_RETRIES - ts_attempt t)
      | Sleeping \<Rightarrow> 2 * (MAX_RETRIES - ts_attempt t) - 1
      | Archiving \<Rightarrow> 1
      | Finished _ \<Rightarrow> 0)"

definition attempts_ok :: "task \<Rightarrow> bool" where
  "attempts_ok t \<longleftrightarrow>
     (case ts_phase t of Fetching \<Rightarrow> ts_attempt t < MAX_RETRIES | Sleeping \<Rightarrow> Suc (ts_attempt t) < MAX_RETRIES
      | _ \<Rightarrow> True)"

definition task_moves ::
  "depth \<Rightarrow> queue_action list \<Rightarrow> task \<Rightarrow> submission_queue \<Rightarrow> task \<Rightarrow> submission_queue \<Rightarrow> bool" where
  "task_moves depth acts t q t' q' \<longleftrightarrow>
     same_job t t' \<and> task_rank t' < task_rank t \<and> attempts_ok t'
     \<and> (evicted acts = {} \<and> (waits t q t' q' \<or> settles t q t' q') \<or> keeps depth acts t q t' q')"

lemma give_up_keeps:
  assumes "give_up depth t q = Some (acts, t', q')"
  shows "keeps depth acts t q t' q' \<and> same_job t t' \<and> ts_phase t' = Finished Queued"
proof -
  obtain acts0 q0 where l: "evict_loop depth [] q = Some (acts0, q0)"
    using assms by (auto simp: give_up_def split: option.splits)
  have room: "room_made depth (WarnFailed (ts_hash t) # acts0) q q0" "\<not> at_cap depth q0"
    using evict_loop_room [OF l] by (auto simp: room_made_def)
  with assms l show ?thesis
    unfolding keeps_def
    by (auto simp: give_up_def same_job_def intro!: exI [of _ q0]
        exI [of _ "\<lparr>pe_record = ts_record t, pe_priority = ts_priority t, pe_sidecar = ts_sidecar t\<rparr>"])
qed

lemma give_up_moves:
  assumes "give_up depth t q = Some (acts, t', q')" and "0 < task_rank u" and "same_job u t"
  shows "task_moves depth acts u q t' q'"
proof -
  note g = give_up_keeps [OF assms(1)]
  have "keeps depth acts u q t' q'" using g assms(3) unfolding keeps_def same_job_def by metis
  with g assms(2, 3) show ?thesis by (simp add: task_moves_def task_rank_def attempts_ok_def same_job_def)
qed

lemma after_failure_moves:
  assumes "after_failure depth t q = Some (acts, t', q')" and "ts_phase t = Fetching" and "attempts_ok t"
  shows "task_moves depth acts t q t' q'"
proof (cases "ts_attempt t < MAX_RETRIES - 1")
  case True
  with assms show ?thesis
    by (auto simp: after_failure_def task_moves_def same_job_def task_rank_def attempts_ok_def MAX_RETRIES_def
        waits_def is_finished_def)
next
  case False
  with assms(1) have "give_up depth t q = Some (acts, t', q')" by (simp add: after_failure_def)
  with assms(2, 3) show ?thesis
    by (intro give_up_moves) (simp_all add: task_rank_def attempts_ok_def same_job_def)
qed

lemma evicted_archive [simp]: "evicted (submitToArchive archive r proof sc) = {}"
  by (simp add: submitToArchive_def)

lemma finish_task_moves:
  assumes "(t', q') = finish_task oc t q" and "oc \<noteq> Queued" and "oc = Proved \<longrightarrow> ts_phase t = Archiving"
    and "0 < task_rank t" and "evicted acts = {}"
  shows "task_moves depth acts t q t' q'"
  using assms by (auto simp: task_moves_def settles_def same_job_def finish_task_def task_rank_def attempts_ok_def)

lemma on_reply_moves:
  assumes "on_reply archive depth resp t q = Some (acts, t', q')" and "ts_phase t = Fetching" and "attempts_ok t"
  shows "task_moves depth acts t q t' q'"
proof -
  have rank: "0 < task_rank t" using assms(2, 3) by (simp add: task_rank_def attempts_ok_def)
  consider (failed) "after_failure depth t q = Some (acts, t', q')"
    | (unproved) "finish_task Unproved t q = (t', q')" "evicted acts = {}"
    | (refused) st where "finish_task (Rejected st) t q = (t', q')" "evicted acts = {}"
    | (proved) raw where "t' = t\<lparr>ts_phase := Archiving\<rparr>" "evicted acts = {}"
        "q' = q\<lparr>q_proofCache := AList.update (ts_hash t) raw (q_proofCache q)\<rparr>"
    using assms(1) by (auto simp: on_reply_def split: http_result.splits if_splits option.splits)
  then show ?thesis
  proof cases
    case failed
    with assms(2, 3) show ?thesis by (rule after_failure_moves [rotated])
  next
    case unproved
    then show ?thesis by (intro finish_task_moves [OF _ _ _ rank, of _ _ Unproved]) auto
  next
    case refused
    then show ?thesis by (intro finish_task_moves [OF _ _ _ rank, of _ _ "Rejected st"]) auto
  next
    case proved
    with rank assms(2, 3) show ?thesis
      by (auto simp: task_moves_def same_job_def waits_def is_finished_def task_rank_def attempts_ok_def
          MAX_RETRIES_def update_conv')
  qed
qed

lemma on_wake_moves:
  assumes "on_wake depth now t q = Some (acts, t', q')" and "ts_phase t = Sleeping" and "attempts_ok t"
  shows "task_moves depth acts t q t' q'"
proof (cases "MAX_WINDOW_MS < now - ts_startTime t")
  case True
  with assms show ?thesis
    by (intro give_up_moves [of depth "t\<lparr>ts_attempt := Suc (ts_attempt t), ts_backoff := 2 * ts_backoff t\<rparr>"])
      (auto simp: on_wake_def Let_def task_rank_def attempts_ok_def same_job_def)
next
  case False
  with assms show ?thesis
    by (auto simp: on_wake_def Let_def post_entry_def task_moves_def same_job_def waits_def is_finished_def
        task_rank_def attempts_ok_def)
qed

lemma on_archived_moves:
  assumes "on_archived t q = Some (acts, t', q')" and "ts_phase t = Archiving"
  shows "task_moves depth acts t q t' q'"
  using assms by (intro finish_task_moves [of _ _ Proved]) (auto simp: on_archived_def task_rank_def)

text \<open>A step of the queue starts tasks, or moves one, or only changes a flush.\<close>

definition starts ::
  "(bytes \<Rightarrow> bytes) \<Rightarrow> (json \<Rightarrow> string option) \<Rightarrow> queue_event \<Rightarrow> submission_queue \<Rightarrow> task \<Rightarrow> bool" where
  "starts sha canon ev q t \<longleftrightarrow>
     recordHash sha canon (ts_record t) = Inr (ts_hash t) \<and> ts_phase t = Fetching \<and> ts_attempt t = 0
     \<and> ((\<exists>sc now. ev = Submit (ts_record t) (ts_priority t) sc now)
        \<or> (\<exists>k e. (k, e) \<in> set (q_pendingRecords q) \<and> pe_record e = ts_record t \<and> pe_priority e = ts_priority t))"

lemma spawn_all_tasks:
  "spawn_all sha canon now es s = (acts, tids, s') \<Longrightarrow>
   \<exists>ts. s' = s\<lparr>qs_tasks := qs_tasks s @ ts\<rparr> \<and> acts = map post_entry ts
     \<and> (\<forall>t \<in> set ts. \<exists>e \<in> set es. start_task sha canon now (pe_record e) (pe_priority e) (pe_sidecar e) = Inr t)"
proof (induction es arbitrary: s acts tids)
  case (Cons e es)
  show ?case
  proof (cases "start_task sha canon now (pe_record e) (pe_priority e) (pe_sidecar e)")
    case (Inl err)
    with Cons.prems have "spawn_all sha canon now es s = (acts, tids, s')" by (simp add: spawn_def)
    from Cons.IH [OF this] show ?thesis by auto
  next
    case (Inr t)
    let ?s = "s\<lparr>qs_tasks := qs_tasks s @ [t]\<rparr>"
    obtain acts' tids' where r: "spawn_all sha canon now es ?s = (acts', tids', s')" "acts = post_entry t # acts'"
      using Cons.prems Inr by (auto simp: spawn_def split: prod.splits)
    from Cons.IH [OF r(1)] obtain ts where "s' = s\<lparr>qs_tasks := qs_tasks s @ t # ts\<rparr>" "acts' = map post_entry ts"
      "\<forall>t \<in> set ts. \<exists>e \<in> set es. start_task sha canon now (pe_record e) (pe_priority e) (pe_sidecar e) = Inr t"
      by auto
    with Inr r(2) show ?thesis by (intro exI [of _ "t # ts"]) auto
  qed
qed simp

lemma evicted_posts [simp]: "evicted (map post_entry ts) = {}"
  by (auto simp: evicted_def post_entry_def)

lemma start_task_starts:
  assumes "start_task sha canon now r p sc = Inr t"
  shows "recordHash sha canon (ts_record t) = Inr (ts_hash t) \<and> ts_phase t = Fetching \<and> ts_attempt t = 0
    \<and> ts_record t = r \<and> ts_priority t = p"
  using assms by (auto simp: start_task_def rbind_Inr_iff)

lemma flush_on_tasks:
  assumes "flush_on sha canon now s = (acts, p, s')"
  shows "\<exists>ts. qs_queue s' = qs_queue s \<and> qs_tasks s' = qs_tasks s @ ts \<and> evicted acts = {}
    \<and> (\<forall>t \<in> set ts. starts sha canon ev (qs_queue s) t)"
proof (cases "qs_promises s \<noteq> [] \<or> q_pendingRecords (qs_queue s) = []")
  case True
  with assms show ?thesis by (auto simp: flush_on_def split: if_splits intro!: exI [of _ "[]"])
next
  case False
  let ?es = "highFirst (q_pendingRecords (qs_queue s))"
  obtain tids where r: "spawn_all sha canon now ?es s = (acts, tids, s')"
    using assms False by (auto simp: flush_on_def split: prod.splits)
  obtain ts where ts: "s' = s\<lparr>qs_tasks := qs_tasks s @ ts\<rparr>" "acts = map post_entry ts"
    "\<forall>t \<in> set ts. \<exists>e \<in> set ?es. start_task sha canon now (pe_record e) (pe_priority e) (pe_sidecar e) = Inr t"
    using spawn_all_tasks [OF r] by blast
  have "starts sha canon ev (qs_queue s) t" if mem: "t \<in> set ts" for t
  proof -
    obtain e where e: "e \<in> set ?es" "start_task sha canon now (pe_record e) (pe_priority e) (pe_sidecar e) = Inr t"
      using ts(3) mem by blast
    then obtain k where "(k, e) \<in> set (q_pendingRecords (qs_queue s))" by (auto simp: highFirst_def)
    with start_task_starts [OF e(2)] show ?thesis by (auto simp: starts_def)
  qed
  with ts(1, 2) show ?thesis by auto
qed

lemma resume_cases [consumes 1, case_names idle moved]:
  assumes "resume i p f s = Some (acts, s')"
    and "\<And>t q acts t' q'. f t q = Some (acts, t', q') \<Longrightarrow> ts_phase t = p \<Longrightarrow> attempts_ok t \<Longrightarrow>
       task_moves depth acts t q t' q'"
    and "\<forall>t \<in> set (qs_tasks s). attempts_ok t"
  obtains "s' = s" "acts = []"
  | t' where "i < length (qs_tasks s)" "task_moves depth acts (qs_tasks s ! i) (qs_queue s) t' (qs_queue s')"
      "qs_tasks s' = (qs_tasks s)[i := t']"
proof (cases "i < length (qs_tasks s) \<and> ts_phase (qs_tasks s ! i) = p")
  case True
  then obtain t' q' where "f (qs_tasks s ! i) (qs_queue s) = Some (acts, t', q')"
      "qs_queue s' = q'" "qs_tasks s' = (qs_tasks s)[i := t']"
    using assms(1) by (auto simp: resume_def split: option.splits)
  with assms(2) [of "qs_tasks s ! i" "qs_queue s" acts t' q'] assms(3) True show ?thesis by (auto intro: that(2))
next
  case False
  with assms(1) have "s' = s" "acts = []" by (auto simp: resume_def split: if_splits)
  then show ?thesis by (rule that(1))
qed

lemma queue_step_cases [consumes 2, case_names started moved]:
  assumes "queue_step sha canon archive depth ev s = Some (acts, s')"
    and "\<forall>t \<in> set (qs_tasks s). attempts_ok t"
  obtains ts where "qs_queue s' = qs_queue s" "qs_tasks s' = qs_tasks s @ ts" "evicted acts = {}"
      "\<forall>t \<in> set ts. starts sha canon ev (qs_queue s) t"
      "\<forall>r p sc now h. ev = Submit r p sc now \<and> recordHash sha canon r = Inr h \<longrightarrow> (\<exists>t \<in> set ts. ts_hash t = h)"
  | i t' where "i < length (qs_tasks s)" "task_moves depth acts (qs_tasks s ! i) (qs_queue s) t' (qs_queue s')"
      "qs_tasks s' = (qs_tasks s)[i := t']" "\<forall>r p sc now. ev \<noteq> Submit r p sc now"
proof (cases ev)
  case (Submit r p sc now)
  show ?thesis
  proof (cases "start_task sha canon now r p sc")
    case (Inl err)
    then have "recordHash sha canon r \<noteq> Inr h" for h by (auto simp: start_task_def)
    with assms(1) Submit Inl show ?thesis
      by (intro that(1) [of "[]"]) (auto simp: queue_step_def submit_def spawn_def)
  next
    case (Inr t)
    with assms(1) Submit start_task_starts [OF Inr] show ?thesis
      by (intro that(1) [of "[t]"]) (auto simp: queue_step_def submit_def spawn_def starts_def post_entry_def)
  qed
next
  case (Reply i resp)
  with assms(1) have "resume i Fetching (on_reply archive depth resp) s = Some (acts, s')" by (simp add: queue_step_def)
  from this on_reply_moves assms(2) show ?thesis
    by (rule resume_cases [where depth = depth]) (use Reply in \<open>auto intro: that(1) [of "[]"] that(2)\<close>)
next
  case (ArchiveEnds i)
  with assms(1) have "resume i Archiving on_archived s = Some (acts, s')" by (simp add: queue_step_def)
  from this on_archived_moves assms(2) show ?thesis
    by (rule resume_cases [where depth = depth]) (use ArchiveEnds in \<open>auto intro: that(1) [of "[]"] that(2)\<close>)
next
  case (Wake i now)
  with assms(1) have "resume i Sleeping (on_wake depth now) s = Some (acts, s')" by (simp add: queue_step_def)
  from this on_wake_moves assms(2) show ?thesis
    by (rule resume_cases [where depth = depth]) (use Wake in \<open>auto intro: that(1) [of "[]"] that(2)\<close>)
next
  case (Flush now)
  obtain acts' p s1 where f: "flush_on sha canon now s = (acts', p, s1)" by (metis prod_cases3)
  with assms(1) Flush have s': "acts = acts'" "s' = s1\<lparr>qs_flushes := qs_flushes s1 @ [p]\<rparr>" by (auto simp: queue_step_def)
  obtain ts where "qs_queue s1 = qs_queue s" "qs_tasks s1 = qs_tasks s @ ts" "evicted acts = {}"
      "\<forall>t \<in> set ts. starts sha canon ev (qs_queue s) t" using flush_on_tasks [OF f, of ev] s' by auto
  then show ?thesis by (intro that(1) [of ts]) (simp_all add: s' Flush)
next
  case (FlushGoesOn f now)
  show ?thesis
  proof (cases "f < length (qs_flushes s) \<and> (\<exists>tids. qs_flushes s ! f = Draining tids \<and> all_settled s tids)")
    case True
    obtain acts' p s1 where g: "flush_on sha canon now s = (acts', p, s1)" by (metis prod_cases3)
    with assms(1) FlushGoesOn True have s': "acts = acts'" "s' = s1\<lparr>qs_flushes := (qs_flushes s1)[f := p]\<rparr>"
      by (auto simp: queue_step_def)
    obtain ts where "qs_queue s1 = qs_queue s" "qs_tasks s1 = qs_tasks s @ ts" "evicted acts = {}"
        "\<forall>t \<in> set ts. starts sha canon ev (qs_queue s) t" using flush_on_tasks [OF g, of ev] s' by auto
    then show ?thesis by (intro that(1) [of ts]) (simp_all add: s' FlushGoesOn)
  next
    case False
    with assms(1) FlushGoesOn have "qs_queue s' = qs_queue s" "qs_tasks s' = qs_tasks s" "acts = []"
      by (auto simp: queue_step_def split: if_splits flush_phase.splits)
    then show ?thesis by (intro that(1) [of "[]"]) (simp_all add: FlushGoesOn)
  qed
qed

section \<open>Runs\<close>

text \<open>
  A machine whose steps may hang and that emits actions: a property of the events so far, the actions
  so far and the state that holds at the start and that every completed step keeps.
\<close>

locale traced_machine =
  fixes start :: 's
    and step :: "'e \<Rightarrow> 's \<Rightarrow> ('a list \<times> 's) option"
    and run :: "'e list \<Rightarrow> 's \<Rightarrow> ('a list \<times> 's) option"
    and inv :: "'e list \<Rightarrow> 'a list \<Rightarrow> 's \<Rightarrow> bool"
  assumes run_Nil: "run [] s = Some ([], s)"
    and run_Cons: "run (e # es) s = (case step e s of None \<Rightarrow> None | Some (as, s') \<Rightarrow>
          (case run es s' of None \<Rightarrow> None | Some (bs, s'') \<Rightarrow> Some (as @ bs, s'')))"
    and start_inv: "inv [] [] start"
    and step_inv: "inv es as s \<Longrightarrow> step e s = Some (bs, s') \<Longrightarrow> inv (es @ [e]) (as @ bs) s'"
begin

lemma run_from: "inv es as s \<Longrightarrow> run fs s = Some (bs, s') \<Longrightarrow> inv (es @ fs) (as @ bs) s'"
proof (induction fs arbitrary: es as s bs)
  case Nil
  then show ?case by (simp add: run_Nil)
next
  case (Cons e fs)
  then obtain cs t ds where step: "step e s = Some (cs, t)" "run fs t = Some (ds, s')" "bs = cs @ ds"
    by (auto simp: run_Cons split: option.splits prod.splits)
  from Cons.IH [OF step_inv [OF Cons.prems(1) step(1)] step(2)] show ?case by (simp add: step(3))
qed

lemma run_inv: "run es start = Some (as, s) \<Longrightarrow> inv es as s"
  using run_from [OF start_inv] by simp

end

definition submitted ::
  "(bytes \<Rightarrow> bytes) \<Rightarrow> (json \<Rightarrow> string option) \<Rightarrow> queue_event list \<Rightarrow> priority \<Rightarrow> string \<Rightarrow> bool" where
  "submitted sha canon evs p h \<longleftrightarrow> (\<exists>r sc now. Submit r p sc now \<in> set evs \<and> recordHash sha canon r = Inr h)"

definition pending_keys :: "submission_queue \<Rightarrow> string set" where
  "pending_keys q = fst ` set (q_pendingRecords q)"

definition pending_ok :: "depth \<Rightarrow> submission_queue \<Rightarrow> bool" where
  "pending_ok depth q \<longleftrightarrow> distinct (map fst (q_pendingRecords q))
     \<and> (\<forall>d. depth = Some d \<longrightarrow> int (length (q_pendingRecords q)) \<le> max 0 d)"

definition task_ok ::
  "(bytes \<Rightarrow> bytes) \<Rightarrow> (json \<Rightarrow> string option) \<Rightarrow> queue_event list \<Rightarrow> submission_queue \<Rightarrow> task \<Rightarrow> bool" where
  "task_ok sha canon evs q t \<longleftrightarrow>
     recordHash sha canon (ts_record t) = Inr (ts_hash t) \<and> submitted sha canon evs (ts_priority t) (ts_hash t)
     \<and> attempts_ok t
     \<and> (ts_phase t = Archiving \<or> ts_phase t = Finished Proved \<longrightarrow> getProof (ts_hash t) q \<noteq> None)"

definition entry_ok ::
  "(bytes \<Rightarrow> bytes) \<Rightarrow> (json \<Rightarrow> string option) \<Rightarrow> queue_event list \<Rightarrow> string \<times> PendingEntry \<Rightarrow> bool" where
  "entry_ok sha canon evs = (\<lambda>(k, e).
     recordHash sha canon (pe_record e) = Inr k \<and> submitted sha canon evs (pe_priority e) k)"

text \<open>The log refused the record, or took it without a proof of the right shape.\<close>

definition answered :: "queue_system \<Rightarrow> string \<Rightarrow> bool" where
  "answered s h \<longleftrightarrow> (\<exists>t \<in> set (qs_tasks s). ts_hash t = h
     \<and> (ts_phase t = Finished Unproved \<or> (\<exists>st. ts_phase t = Finished (Rejected st))))"

definition accounted :: "queue_action list \<Rightarrow> queue_system \<Rightarrow> task \<Rightarrow> bool" where
  "accounted acts s t \<longleftrightarrow> (ts_phase t = Finished Queued \<longrightarrow>
     ts_hash t \<in> pending_keys (qs_queue s) \<or> ts_hash t \<in> evicted acts
     \<or> getProof (ts_hash t) (qs_queue s) \<noteq> None \<or> answered s (ts_hash t))"

definition eviction_ok ::
  "(bytes \<Rightarrow> bytes) \<Rightarrow> (json \<Rightarrow> string option) \<Rightarrow> depth \<Rightarrow> queue_event list \<Rightarrow> string \<Rightarrow> bool" where
  "eviction_ok sha canon depth evs h \<longleftrightarrow> submitted sha canon evs Normal h
     \<or> (\<exists>d. depth = Some d \<and> d \<le> int (card {k. submitted sha canon evs High k}))"

definition queue_inv ::
  "(bytes \<Rightarrow> bytes) \<Rightarrow> (json \<Rightarrow> string option) \<Rightarrow> depth \<Rightarrow> queue_event list \<Rightarrow> queue_action list \<Rightarrow> queue_system \<Rightarrow> bool" where
  "queue_inv sha canon depth evs acts s \<longleftrightarrow>
     pending_ok depth (qs_queue s)
     \<and> (\<forall>t \<in> set (qs_tasks s). task_ok sha canon evs (qs_queue s) t \<and> accounted acts s t)
     \<and> (\<forall>x \<in> set (q_pendingRecords (qs_queue s)). entry_ok sha canon evs x)
     \<and> (\<forall>h \<in> evicted acts. eviction_ok sha canon depth evs h)
     \<and> (\<forall>p h. submitted sha canon evs p h \<longrightarrow> (\<exists>t \<in> set (qs_tasks s). ts_hash t = h))"

lemma submitted_append [simp]:
  "submitted sha canon (evs @ evs') p h \<longleftrightarrow> submitted sha canon evs p h \<or> submitted sha canon evs' p h"
  unfolding submitted_def set_append by blast

lemma finite_submitted: "finite {k. submitted sha canon evs p k}"
proof (rule finite_subset)
  show "{k. submitted sha canon evs p k} \<subseteq>
      set (map (\<lambda>ev. case ev of Submit r p sc now \<Rightarrow> projr (recordHash sha canon r) | _ \<Rightarrow> []) evs)"
    by (force simp: submitted_def image_iff split: queue_event.splits)
qed simp

lemma eviction_ok_mono: "eviction_ok sha canon depth evs h \<Longrightarrow> eviction_ok sha canon depth (evs @ evs') h"
  using card_mono [OF finite_submitted, of "{k. submitted sha canon evs High k}" sha canon "evs @ evs'" High]
  by (force simp: eviction_ok_def)

lemma task_ok_mono:
  assumes "task_ok sha canon evs q t" and "dom (map_of (q_proofCache q)) \<subseteq> dom (map_of (q_proofCache q'))"
  shows "task_ok sha canon (evs @ evs') q' t"
  using assms by (auto simp: task_ok_def getProof_def)

lemma highs_submitted:
  assumes "\<forall>x \<in> set (q_pendingRecords q). entry_ok sha canon evs x" and "distinct (map fst (q_pendingRecords q))"
  shows "length (highs q) \<le> card {k. submitted sha canon evs High k}"
proof -
  have "distinct (map fst (highs q))" using assms(2) by (simp add: highs_def distinct_map_filter)
  then have "length (highs q) = card (fst ` set (highs q))" by (metis distinct_card length_map list.set_map)
  also have "\<dots> \<le> card {k. submitted sha canon evs High k}"
    using assms(1) by (intro card_mono finite_submitted) (fastforce simp: highs_def entry_ok_def)
  finally show ?thesis .
qed

lemma pending_keys_update: "pending_keys (q\<lparr>q_pendingRecords := AList.update k e (q_pendingRecords q)\<rparr>) = insert k (pending_keys q)"
  by (simp add: pending_keys_def dom_map_of_conv_image_fst [symmetric] update_conv')

lemma room_made_pending_ok:
  assumes "pending_ok depth q" and "room_made depth acts q q0" and "\<not> at_cap depth q0"
  shows "pending_ok depth (q0\<lparr>q_pendingRecords := AList.update k e (q_pendingRecords q0)\<rparr>)"
proof -
  have "distinct (map fst (q_pendingRecords q0))"
    using assms(1, 2) by (simp add: pending_ok_def room_made_def distinct_map_filter)
  moreover have "int (length (AList.update k e (q_pendingRecords q0))) \<le> max 0 d" if "depth = Some d" for d
  proof -
    have "int (length (AList.update k e (q_pendingRecords q0))) \<le> int (Suc (length (q_pendingRecords q0)))"
      by (simp only: zle_int length_update_le)
    with assms(3) that show ?thesis by (simp add: at_cap_def)
  qed
  ultimately show ?thesis by (simp add: pending_ok_def distinct_update)
qed

text \<open>What a move guarantees of the queue, and the three kinds of moves.\<close>

definition move_ok ::
  "(bytes \<Rightarrow> bytes) \<Rightarrow> (json \<Rightarrow> string option) \<Rightarrow> depth \<Rightarrow> queue_event list \<Rightarrow> queue_action list
   \<Rightarrow> task \<Rightarrow> submission_queue \<Rightarrow> task \<Rightarrow> submission_queue \<Rightarrow> bool" where
  "move_ok sha canon depth evs acts t q t' q' \<longleftrightarrow>
     pending_ok depth q' \<and> (\<forall>x \<in> set (q_pendingRecords q'). entry_ok sha canon evs x)
     \<and> dom (map_of (q_proofCache q)) \<subseteq> dom (map_of (q_proofCache q'))
     \<and> (\<forall>h \<in> evicted acts. eviction_ok sha canon depth evs h)
     \<and> (ts_phase t' = Archiving \<or> ts_phase t' = Finished Proved \<longrightarrow> getProof (ts_hash t) q' \<noteq> None)
     \<and> pending_keys q \<subseteq> pending_keys q' \<union> evicted acts \<union> (if settles t q t' q' then {ts_hash t} else {})
     \<and> (ts_phase t' = Finished Queued \<longrightarrow> ts_hash t \<in> pending_keys q')"

lemma waits_move_ok:
  assumes "waits t q t' q'" and "evicted acts = {}" and "pending_ok depth q"
    and "\<forall>x \<in> set (q_pendingRecords q). entry_ok sha canon evs x"
  shows "move_ok sha canon depth evs acts t q t' q'"
  using assms
  by (auto simp: move_ok_def waits_def pending_ok_def pending_keys_def getProof_def is_finished_def split: phase.splits)

lemma settles_move_ok:
  assumes st: "settles t q t' q'" and "evicted acts = {}" and ok: "pending_ok depth q"
    and "\<forall>x \<in> set (q_pendingRecords q). entry_ok sha canon evs x" and "task_ok sha canon evs q t"
  shows "move_ok sha canon depth evs acts t q t' q'"
proof -
  obtain oc where oc: "oc \<noteq> Queued" "oc = Proved \<longrightarrow> ts_phase t = Archiving" "(t', q') = finish_task oc t q"
    using st by (auto simp: settles_def)
  have "int (length (AList.delete (ts_hash t) (q_pendingRecords q))) \<le> max 0 d" if "depth = Some d" for d
    using ok that length_delete_le [of "ts_hash t" "q_pendingRecords q"] by (auto simp: pending_ok_def)
  then have "pending_ok depth q'"
    using ok oc(3) by (auto simp: pending_ok_def finish_task_def distinct_delete)
  with assms oc show ?thesis
    by (auto simp: move_ok_def finish_task_def task_ok_def getProof_def pending_keys_def delete_filter)
qed

lemma keeps_move_ok:
  assumes kp: "keeps depth acts t q t' q'" and ok: "pending_ok depth q"
    and en: "\<forall>x \<in> set (q_pendingRecords q). entry_ok sha canon evs x" and t: "task_ok sha canon evs q t"
  shows "move_ok sha canon depth evs acts t q t' q'"
proof -
  obtain q0 e where k: "room_made depth acts q q0" "\<not> at_cap depth q0" "ts_phase t' = Finished Queued"
    "pe_record e = ts_record t" "pe_priority e = ts_priority t"
    "q' = q0\<lparr>q_pendingRecords := AList.update (ts_hash t) e (q_pendingRecords q0)\<rparr>"
    using kp by (auto simp: keeps_def)
  have hi: "length (highs q) \<le> card {k. submitted sha canon evs High k}"
    using highs_submitted [OF en] ok by (simp add: pending_ok_def)
  have ev: "eviction_ok sha canon depth evs h" if h: "h \<in> evicted acts" for h
  proof -
    obtain e where e: "(h, e) \<in> set (q_pendingRecords q)"
        "pe_priority e = Normal \<or> (\<exists>d. depth = Some d \<and> d \<le> int (length (highs q)))"
      using k(1) h by (auto simp: room_made_def)
    have "submitted sha canon evs (pe_priority e) h" using en e(1) by (auto simp: entry_ok_def)
    with e(2) hi show ?thesis by (fastforce simp: eviction_ok_def)
  qed
  have sub: "set (q_pendingRecords q') \<subseteq> insert (ts_hash t, e) (set (q_pendingRecords q))"
    using set_update_subset [of "ts_hash t" e "q_pendingRecords q0"] k(1) by (auto simp: k(6) room_made_def)
  have "\<forall>x \<in> set (q_pendingRecords q'). entry_ok sha canon evs x"
    using sub en t k(4, 5) by (auto simp: entry_ok_def task_ok_def)
  moreover have "pending_keys q \<subseteq> pending_keys q0 \<union> evicted acts"
    using k(1) by (force simp: room_made_def pending_keys_def)
  ultimately show ?thesis
    using ev room_made_pending_ok [OF ok k(1, 2)] k(1, 3) pending_keys_update [of "ts_hash t" e q0]
    by (auto simp: move_ok_def k(6) room_made_def)
qed

lemma task_moves_ok:
  assumes "task_moves depth acts t q t' q'" and "pending_ok depth q"
    and "\<forall>x \<in> set (q_pendingRecords q). entry_ok sha canon evs x" and "task_ok sha canon evs q t"
  shows "move_ok sha canon depth evs acts t q t' q'"
  using assms by (auto simp: task_moves_def intro: waits_move_ok settles_move_ok keeps_move_ok)

lemma settles_outcome:
  assumes "settles t q t' q'" and "move_ok sha canon depth evs acts t q t' q'"
  shows "getProof (ts_hash t) q' \<noteq> None \<or> ts_phase t' = Finished Unproved \<or> (\<exists>st. ts_phase t' = Finished (Rejected st))"
proof -
  obtain oc where "oc \<noteq> Queued" "(t', q') = finish_task oc t q" using assms(1) by (auto simp: settles_def)
  with assms(2) show ?thesis by (cases oc) (auto simp: move_ok_def finish_task_def)
qed

section \<open>The invariant of the running queue\<close>

lemma queue_inv_started:
  assumes inv: "queue_inv sha canon depth evs acts s" and "qs_queue s' = qs_queue s" and "qs_tasks s' = qs_tasks s @ ts"
    and "evicted bs = {}" and new: "\<forall>t \<in> set ts. starts sha canon ev (qs_queue s) t"
    and all: "\<forall>r p sc now h. ev = Submit r p sc now \<and> recordHash sha canon r = Inr h \<longrightarrow> (\<exists>t \<in> set ts. ts_hash t = h)"
  shows "queue_inv sha canon depth (evs @ [ev]) (acts @ bs) s'"
proof -
  have ts: "task_ok sha canon (evs @ [ev]) (qs_queue s) t \<and> accounted (acts @ bs) s' t" if "t \<in> set ts" for t
  proof -
    have st: "recordHash sha canon (ts_record t) = Inr (ts_hash t)" "ts_phase t = Fetching" "ts_attempt t = 0"
      using new that by (auto simp: starts_def)
    have "submitted sha canon (evs @ [ev]) (ts_priority t) (ts_hash t)"
      using new that inv st(1) by (fastforce simp: starts_def submitted_def queue_inv_def entry_ok_def)
    with st show ?thesis by (simp add: task_ok_def attempts_ok_def MAX_RETRIES_def accounted_def)
  qed
  have old: "task_ok sha canon (evs @ [ev]) (qs_queue s) t \<and> accounted (acts @ bs) s' t" if t: "t \<in> set (qs_tasks s)" for t
    using inv t task_ok_mono [of sha canon evs "qs_queue s" t "qs_queue s" "[ev]"] assms(2, 3)
    by (auto simp: queue_inv_def accounted_def answered_def)
  have "\<exists>t \<in> set (qs_tasks s'). ts_hash t = h" if h: "submitted sha canon (evs @ [ev]) p h" for p h
    using h inv all assms(3) by (fastforce simp: queue_inv_def submitted_def)
  with inv ts old assms(2-4) show ?thesis
    by (auto simp: queue_inv_def eviction_ok_mono entry_ok_def split: prod.splits)
qed

lemma accounted_moved:
  assumes inv: "queue_inv sha canon depth evs acts s" and i: "i < length (qs_tasks s)"
    and mv: "task_moves depth bs (qs_tasks s ! i) (qs_queue s) t' (qs_queue s')"
    and ts: "qs_tasks s' = (qs_tasks s)[i := t']"
    and ok: "move_ok sha canon depth evs bs (qs_tasks s ! i) (qs_queue s) t' (qs_queue s')"
    and u: "u \<in> set (qs_tasks s')"
  shows "accounted (acts @ bs) s' u"
proof -
  let ?t = "qs_tasks s ! i" and ?q = "qs_queue s" and ?q' = "qs_queue s'"
  let ?good = "\<lambda>h. h \<in> pending_keys ?q' \<or> h \<in> evicted (acts @ bs) \<or> getProof h ?q' \<noteq> None \<or> answered s' h"
  have hash: "ts_hash t' = ts_hash ?t" using mv by (simp add: task_moves_def same_job_def)
  have new: "t' \<in> set (qs_tasks s')" using i by (simp add: ts set_update_memI)
  have settled: "?good (ts_hash ?t)" if "settles ?t ?q t' ?q'"
    using settles_outcome [OF that ok] new hash by (auto simp: answered_def)
  have pend: "?good h" if "h \<in> pending_keys ?q" for h
    using ok that settled by (auto simp: move_ok_def split: if_splits)
  have known: "?good h" if "getProof h ?q \<noteq> None" for h
    using ok that by (auto simp: move_ok_def getProof_def)
  have answ: "answered s' h" if h: "answered s h" for h
  proof -
    obtain j where j: "j < length (qs_tasks s)" "ts_hash (qs_tasks s ! j) = h" "is_finished (qs_tasks s ! j)"
      "ts_phase (qs_tasks s ! j) = Finished Unproved \<or> (\<exists>st. ts_phase (qs_tasks s ! j) = Finished (Rejected st))"
      using h by (auto simp: answered_def in_set_conv_nth is_finished_def)
    have "0 < task_rank ?t" using mv by (auto simp: task_moves_def)
    with j have "j \<noteq> i" by (auto simp: task_rank_def is_finished_def split: phase.splits)
    with j have "qs_tasks s ! j \<in> set (qs_tasks s')" by (auto simp: ts in_set_conv_nth intro!: exI [of _ j])
    with j show ?thesis unfolding answered_def by blast
  qed
  show ?thesis
  proof (cases "u = t'")
    case True
    with ok hash show ?thesis by (auto simp: accounted_def move_ok_def)
  next
    case False
    with u i have "accounted acts s u"
      using inv set_update_subset_insert [of "qs_tasks s" i t'] by (auto simp: queue_inv_def ts)
    with pend known answ show ?thesis by (auto simp: accounted_def)
  qed
qed

lemma queue_inv_moved:
  assumes inv: "queue_inv sha canon depth evs acts s" and i: "i < length (qs_tasks s)"
    and mv: "task_moves depth bs (qs_tasks s ! i) (qs_queue s) t' (qs_queue s')"
    and ts: "qs_tasks s' = (qs_tasks s)[i := t']" and ev: "\<forall>r p sc now. ev \<noteq> Submit r p sc now"
  shows "queue_inv sha canon depth (evs @ [ev]) (acts @ bs) s'"
proof -
  let ?t = "qs_tasks s ! i" and ?q = "qs_queue s" and ?q' = "qs_queue s'"
  have t: "task_ok sha canon evs ?q ?t" using inv i by (simp add: queue_inv_def)
  have ok: "move_ok sha canon depth evs bs ?t ?q t' ?q'"
    using task_moves_ok [OF mv] inv t by (auto simp: queue_inv_def)
  have job: "same_job ?t t'" "attempts_ok t'" using mv by (simp_all add: task_moves_def)
  have sub: "submitted sha canon (evs @ [ev]) p h \<longleftrightarrow> submitted sha canon evs p h" for p h
    using ev by (auto simp: submitted_def)
  have mem: "set (qs_tasks s') \<subseteq> insert t' (set (qs_tasks s))" "t' \<in> set (qs_tasks s')"
    using i by (auto simp: ts set_update_subset_insert set_update_memI)
  have dom: "dom (map_of (q_proofCache ?q)) \<subseteq> dom (map_of (q_proofCache ?q'))" using ok by (simp add: move_ok_def)
  have "task_ok sha canon (evs @ [ev]) ?q' t'" using ok job t by (auto simp: move_ok_def task_ok_def same_job_def)
  moreover have "task_ok sha canon (evs @ [ev]) ?q' u" if "u \<in> set (qs_tasks s)" for u
    using task_ok_mono [OF _ dom] inv that by (auto simp: queue_inv_def)
  moreover have "accounted (acts @ bs) s' u" if "u \<in> set (qs_tasks s')" for u
    by (rule accounted_moved [OF inv i mv ts ok that])
  moreover have "\<exists>u \<in> set (qs_tasks s'). ts_hash u = h" if h: "submitted sha canon evs p h" for p h
  proof -
    obtain u where "u \<in> set (qs_tasks s)" "ts_hash u = h" using inv h unfolding queue_inv_def by meson
    then obtain j where j: "j < length (qs_tasks s)" "ts_hash (qs_tasks s ! j) = h"
      by (auto simp: in_set_conv_nth)
    have "(qs_tasks s)[i := t'] ! j \<in> set (qs_tasks s')" using j(1) by (simp add: ts)
    moreover have "ts_hash ((qs_tasks s)[i := t'] ! j) = h"
      using i j job(1) by (cases "i = j") (simp_all add: same_job_def)
    ultimately show ?thesis by blast
  qed
  ultimately show ?thesis
    using ok inv mem(1) sub unfolding queue_inv_def
    by (auto simp: move_ok_def eviction_ok_def entry_ok_def split: prod.splits)
qed

lemma queue_step_inv:
  assumes "queue_inv sha canon depth evs acts s" and "queue_step sha canon archive depth ev s = Some (bs, s')"
  shows "queue_inv sha canon depth (evs @ [ev]) (acts @ bs) s'"
proof -
  have "\<forall>t \<in> set (qs_tasks s). attempts_ok t" using assms(1) by (simp add: queue_inv_def task_ok_def)
  with assms(2) show ?thesis
  proof (cases rule: queue_step_cases)
    case (started ts)
    with assms(1) show ?thesis by (rule queue_inv_started)
  next
    case (moved i t')
    with assms(1) show ?thesis by (rule queue_inv_moved)
  qed
qed

lemma queue_inv_start: "queue_inv sha canon depth [] [] createSubmissionQueue"
  by (simp add: createSubmissionQueue_def queue_inv_def pending_ok_def submitted_def)

interpretation queue_machine:
  traced_machine createSubmissionQueue "queue_step sha canon archive depth" "queue_run sha canon archive depth"
    "queue_inv sha canon depth" for sha canon archive depth
  by unfold_locales (simp_all add: queue_inv_start queue_step_inv)

section \<open>Properties\<close>

lemma queue_run_Cons:
  "queue_run sha canon archive depth (ev # evs) s = Option.bind (queue_step sha canon archive depth ev s)
     (\<lambda>(acts, s'). map_option (\<lambda>(acts', s''). (acts @ acts', s'')) (queue_run sha canon archive depth evs s'))"
  by (simp split: option.splits prod.splits)

lemma queue_run_None:
  "queue_run sha canon archive depth evs s = None \<Longrightarrow>
   \<exists>pre ev acts s'. queue_run sha canon archive depth pre s = Some (acts, s')
     \<and> queue_step sha canon archive depth ev s' = None"
proof (induction evs arbitrary: s)
  case (Cons ev evs)
  show ?case
  proof (cases "queue_step sha canon archive depth ev s")
    case None
    then show ?thesis by (intro exI [of _ "[]"]) auto
  next
    case (Some p)
    obtain acts s1 where p: "p = (acts, s1)" by fastforce
    with Some Cons.prems have "queue_run sha canon archive depth evs s1 = None" by (auto split: option.splits)
    from Cons.IH [OF this] obtain pre ev' acts' s' where
      "queue_run sha canon archive depth pre s1 = Some (acts', s')" "queue_step sha canon archive depth ev' s' = None"
      by blast
    with Some p show ?thesis by (intro exI [of _ "ev # pre"]) auto
  qed
qed simp

lemma give_up_None: "give_up depth t q = None \<longleftrightarrow> \<not> positive_depth depth"
  using evict_loop_returns [of depth "[]" q] evict_loop_diverges [of depth "[]" q] by (auto simp: give_up_def)

lemma queue_step_None:
  assumes "queue_step sha canon archive depth ev s = None"
  shows "\<not> positive_depth depth \<and> qs_tasks s \<noteq> []"
proof -
  obtain i p f where "resume i p f s = None" and f: "f = on_archived \<or> (\<exists>r. f = on_reply archive depth r) \<or> (\<exists>n. f = on_wake depth n)"
    using assms unfolding queue_step_def
    by (auto split: queue_event.splits prod.splits if_splits flush_phase.splits) blast+
  then have "qs_tasks s \<noteq> []" and "f (qs_tasks s ! i) (qs_queue s) = None"
    by (auto simp: resume_def split: if_splits option.splits)
  with f show ?thesis
    by (auto simp: give_up_None on_archived_def on_reply_def on_wake_def after_failure_def Let_def
        split: http_result.splits if_splits option.splits)
qed

text \<open>Three failed attempts of one submission.\<close>

definition three_failures :: "js_object \<Rightarrow> queue_event list" where
  "three_failures r =
     [Submit r Normal None 0, Reply 0 NetworkError, Wake 0 1000, Reply 0 NetworkError, Wake 0 3000, Reply 0 NetworkError]"

lemma three_failures_hang:
  assumes "\<not> positive_depth depth" and "recordHash sha canon r = Inr h"
  shows "queue_run sha canon archive depth (three_failures r) createSubmissionQueue = None"
  using assms evict_loop_diverges [OF assms(1)]
  by (simp add: three_failures_def queue_step_def submit_def spawn_def start_task_def createSubmissionQueue_def
      resume_def on_reply_def after_failure_def on_wake_def MAX_RETRIES_def MAX_WINDOW_MS_def is_finished_def
      give_up_def post_entry_def)

lemma recordHash_defined: "(\<exists>h. recordHash sha canon r = Inr h) \<longleftrightarrow> canon (JObj r) \<noteq> None"
  by (cases "canon (JObj r)") (simp_all add: recordHash_def canonicalRecord_def canonical_bytes_def)

text \<open>C29: the loop that makes room. A queue can hang, that is, a run of it can reach a step that does not
  return, exactly when its \<open>maxQueueDepth\<close> is zero or negative and some record canonicalises; three failed
  attempts of one record are then enough. With a positive or infinite depth every step of every run
  returns.\<close>

theorem queue_hangs_iff:
  "(\<exists>evs. queue_run sha canon archive depth evs createSubmissionQueue = None)
     \<longleftrightarrow> \<not> positive_depth depth \<and> (\<exists>r. canon (JObj r) \<noteq> None)"
proof
  assume "\<exists>evs. queue_run sha canon archive depth evs createSubmissionQueue = None"
  then obtain pre ev acts s where run: "queue_run sha canon archive depth pre createSubmissionQueue = Some (acts, s)"
    and st: "queue_step sha canon archive depth ev s = None" using queue_run_None by blast
  have "queue_inv sha canon depth pre acts s" by (rule queue_machine.run_inv [OF run])
  moreover obtain t where "t \<in> set (qs_tasks s)" using queue_step_None [OF st] by (cases "qs_tasks s") auto
  ultimately have "recordHash sha canon (ts_record t) = Inr (ts_hash t)" by (simp add: queue_inv_def task_ok_def)
  then have "canon (JObj (ts_record t)) \<noteq> None" using recordHash_defined [of sha canon] by blast
  with queue_step_None [OF st] show "\<not> positive_depth depth \<and> (\<exists>r. canon (JObj r) \<noteq> None)" by blast
next
  assume "\<not> positive_depth depth \<and> (\<exists>r. canon (JObj r) \<noteq> None)"
  then obtain r h where "\<not> positive_depth depth" "recordHash sha canon r = Inr h"
    using recordHash_defined [of sha canon] by blast
  then show "\<exists>evs. queue_run sha canon archive depth evs createSubmissionQueue = None"
    using three_failures_hang by blast
qed

text \<open>The queue is bounded. After any run the keys of \<open>pendingRecords\<close> are distinct and, with a positive
  \<open>maxQueueDepth\<close>, there are at most that many; each key is the hash of its record.\<close>

theorem pending_bounded:
  assumes "queue_run sha canon archive (Some d) evs createSubmissionQueue = Some (acts, s)" and "0 < d"
  shows "int (length (q_pendingRecords (qs_queue s))) \<le> d \<and> distinct (map fst (q_pendingRecords (qs_queue s)))
    \<and> (\<forall>(k, e) \<in> set (q_pendingRecords (qs_queue s)). recordHash sha canon (pe_record e) = Inr k)"
  using queue_machine.run_inv [OF assms(1)] assms(2)
  by (auto simp: queue_inv_def pending_ok_def entry_ok_def)

text \<open>C27: no submission is lost silently. After any run, a submitted record that no task works on any more
  has its proof in the cache, or waits in the queue, or was answered by the log with a refusal or with
  a success that carried no proof, or was evicted; and it can have been evicted only if it was submitted
  at normal priority, or if at least \<open>maxQueueDepth\<close> different records were submitted at high priority.\<close>

theorem submissions_accounted:
  assumes "queue_run sha canon archive depth evs createSubmissionQueue = Some (acts, s)"
    and "submitted sha canon evs p h"
    and "\<forall>t \<in> set (qs_tasks s). ts_hash t = h \<longrightarrow> is_finished t"
  shows "getProof h (qs_queue s) \<noteq> None \<or> h \<in> pending_keys (qs_queue s) \<or> answered s h
    \<or> Evict h \<in> set acts \<and> (submitted sha canon evs Normal h
        \<or> (\<exists>d. depth = Some d \<and> d \<le> int (card {k. submitted sha canon evs High k})))"
proof -
  have inv: "queue_inv sha canon depth evs acts s" by (rule queue_machine.run_inv [OF assms(1)])
  obtain t where t: "t \<in> set (qs_tasks s)" "ts_hash t = h" using inv assms(2) unfolding queue_inv_def by meson
  with assms(3) have "is_finished t" by blast
  then obtain oc where oc: "ts_phase t = Finished oc" by (cases "ts_phase t") (auto simp: is_finished_def)
  have ok: "task_ok sha canon evs (qs_queue s) t" "accounted acts s t" using inv t(1) by (simp_all add: queue_inv_def)
  have ev: "h \<in> evicted acts \<Longrightarrow> eviction_ok sha canon depth evs h" using inv by (simp add: queue_inv_def)
  show ?thesis
  proof (cases oc)
    case Queued
    with ok(2) t(2) oc ev show ?thesis by (auto simp: accounted_def evicted_def eviction_ok_def)
  qed (use ok(1) t oc in \<open>auto simp: task_ok_def answered_def\<close>)
qed

text \<open>The retries a flush posts.\<close>

lemma spawn_all_posts:
  "\<forall>(k, e) \<in> set kes. recordHash sha canon (pe_record e) = Inr k \<Longrightarrow>
   fst (spawn_all sha canon now (map snd kes) s) = map (\<lambda>(k, e). PostEntry k (pe_priority e) (pe_record e)) kes"
proof (induction kes arbitrary: s)
  case (Cons ke kes)
  obtain k e where ke: "ke = (k, e)" by fastforce
  obtain t where t: "start_task sha canon now (pe_record e) (pe_priority e) (pe_sidecar e) = Inr t"
      "post_entry t = PostEntry k (pe_priority e) (pe_record e)"
    using Cons.prems by (auto simp: ke start_task_def post_entry_def)
  from Cons.IH [of "s\<lparr>qs_tasks := qs_tasks s @ [t]\<rparr>"] Cons.prems t show ?case
    by (auto simp: ke spawn_def split: prod.splits)
qed simp

definition with_priority :: "priority \<Rightarrow> (string, PendingEntry) jsmap \<Rightarrow> (string, PendingEntry) jsmap" where
  "with_priority p m = filter (\<lambda>(k, e). pe_priority e = p) m"

lemma highFirst_entries: "highFirst m = map snd (with_priority High m @ with_priority Normal m)"
  by (simp add: highFirst_def with_priority_def filter_map comp_def case_prod_unfold)

text \<open>Flush order. In any state the queue reaches with no submission in flight, a flush posts every record
  that waits in the queue once, under its own hash and priority: first those of high priority, then those
  of normal priority, each group in the order of the queue.\<close>

theorem flush_high_first:
  assumes "queue_run sha canon archive depth evs createSubmissionQueue = Some (acts, s)" and "qs_promises s = []"
    and "queue_step sha canon archive depth (Flush now) s = Some (acts', s')"
  shows "acts' = map (\<lambda>(k, e). PostEntry k (pe_priority e) (pe_record e))
      (with_priority High (q_pendingRecords (qs_queue s)) @ with_priority Normal (q_pendingRecords (qs_queue s)))"
proof -
  let ?m = "q_pendingRecords (qs_queue s)"
  let ?kes = "with_priority High ?m @ with_priority Normal ?m"
  have "\<forall>x \<in> set ?m. entry_ok sha canon evs x"
    using queue_machine.run_inv [OF assms(1)] by (simp add: queue_inv_def)
  then have "\<forall>(k, e) \<in> set ?kes. recordHash sha canon (pe_record e) = Inr k"
    by (auto simp: with_priority_def entry_ok_def)
  from spawn_all_posts [OF this, of now s] assms(2, 3) show ?thesis
    by (auto simp: queue_step_def flush_on_def highFirst_entries with_priority_def split: prod.splits if_splits)
qed

text \<open>How often a run moves the task \<open>i\<close>.\<close>

fun moves_of ::
  "(bytes \<Rightarrow> bytes) \<Rightarrow> (json \<Rightarrow> string option) \<Rightarrow> bool \<Rightarrow> depth \<Rightarrow> nat \<Rightarrow> queue_event list \<Rightarrow> queue_system \<Rightarrow> nat" where
  "moves_of sha canon archive depth i [] s = 0"
| "moves_of sha canon archive depth i (ev # evs) s =
     (case queue_step sha canon archive depth ev s of
        None \<Rightarrow> 0
      | Some (_, s') \<Rightarrow>
          (if i < length (qs_tasks s) \<and> qs_tasks s' ! i \<noteq> qs_tasks s ! i then 1 else 0)
            + moves_of sha canon archive depth i evs s')"

definition rank_at :: "nat \<Rightarrow> queue_system \<Rightarrow> nat" where
  "rank_at i s = (if i < length (qs_tasks s) then task_rank (qs_tasks s ! i) else 2 * MAX_RETRIES)"

lemma task_rank_le: "task_rank t \<le> 2 * MAX_RETRIES"
  by (cases "ts_phase t") (simp_all add: task_rank_def MAX_RETRIES_def)

lemma queue_step_rank:
  assumes "queue_step sha canon archive depth ev s = Some (acts, s')" and "\<forall>t \<in> set (qs_tasks s). attempts_ok t"
  shows "(if i < length (qs_tasks s) \<and> qs_tasks s' ! i \<noteq> qs_tasks s ! i then 1 else 0) + rank_at i s' \<le> rank_at i s
    \<and> (\<forall>t \<in> set (qs_tasks s'). attempts_ok t)"
  using assms
proof (cases rule: queue_step_cases)
  case (started ts)
  have "\<forall>t \<in> set ts. attempts_ok t" using started(4) by (auto simp: starts_def attempts_ok_def MAX_RETRIES_def)
  with started assms(2) show ?thesis by (auto simp: rank_at_def nth_append task_rank_le)
next
  case (moved j t')
  have "\<forall>t \<in> set (qs_tasks s'). attempts_ok t"
    using moved(1-3) assms(2) set_update_subset_insert [of "qs_tasks s" j t'] by (auto simp: task_moves_def)
  with moved show ?thesis by (auto simp: rank_at_def task_moves_def nth_list_update)
qed

lemma moves_bound: "\<forall>t \<in> set (qs_tasks s). attempts_ok t \<Longrightarrow> moves_of sha canon archive depth i evs s \<le> rank_at i s"
proof (induction evs arbitrary: s)
  case (Cons ev evs)
  show ?case
  proof (cases "queue_step sha canon archive depth ev s")
    case (Some p)
    obtain acts s' where p: "p = (acts, s')" by fastforce
    with Some have st: "queue_step sha canon archive depth ev s = Some (acts, s')" by simp
    note r = queue_step_rank [OF st Cons.prems, of i]
    from Cons.IH [of s'] r Some p show ?thesis by (auto split: if_splits)
  qed simp
qed simp

lemma resume_moves:
  assumes "i < length (qs_tasks s)" and "ts_phase (qs_tasks s ! i) = p" and "f (qs_tasks s ! i) (qs_queue s) = Some (acts, t, q)"
  shows "\<exists>s'. resume i p f s = Some (acts, s') \<and> qs_tasks s' = (qs_tasks s)[i := t]"
  using assms by (simp add: resume_def)

lemma unfinished_moves:
  assumes i: "i < length (qs_tasks s)" and "\<not> is_finished (qs_tasks s ! i)" and ok: "\<forall>t \<in> set (qs_tasks s). attempts_ok t"
  shows "\<exists>ev acts s'. queue_step sha canon archive depth ev s = Some (acts, s') \<and> rank_at i s' < rank_at i s"
proof -
  let ?t = "qs_tasks s ! i"
  have t: "attempts_ok ?t" using ok i by simp
  have lower: ?thesis
    if r: "resume i (ts_phase ?t) f s = queue_step sha canon archive depth ev s"
      "f ?t (qs_queue s) = Some (acts, t', q')" "task_rank t' < task_rank ?t" for ev f acts t' q'
  proof -
    obtain s' where "queue_step sha canon archive depth ev s = Some (acts, s')" "qs_tasks s' = (qs_tasks s)[i := t']"
      using resume_moves [where f = f, OF i refl r(2)] r(1) by auto
    with r(3) i show ?thesis by (intro exI [of _ ev] exI [of _ acts] exI [of _ s']) (simp add: rank_at_def)
  qed
  show ?thesis
  proof (cases "ts_phase ?t")
    case Fetching
    have f: "on_reply archive depth (HttpResponse 400 None) ?t (qs_queue s)
        = Some ([WarnRejected 400 (ts_hash ?t)], finish_task (Rejected 400) ?t (qs_queue s))"
      by (simp add: on_reply_def)
    show ?thesis
      by (rule lower [of "on_reply archive depth (HttpResponse 400 None)" "Reply i (HttpResponse 400 None)"])
        (use f t Fetching in \<open>auto simp: queue_step_def finish_task_def task_rank_def attempts_ok_def\<close>)
  next
    case Archiving
    show ?thesis
      by (rule lower [of on_archived "ArchiveEnds i"])
        (use Archiving in \<open>auto simp: queue_step_def on_archived_def finish_task_def task_rank_def\<close>)
  next
    case Sleeping
    show ?thesis
      by (rule lower [of "on_wake depth (ts_startTime ?t)" "Wake i (ts_startTime ?t)"])
        (use Sleeping t in \<open>auto simp: queue_step_def on_wake_def Let_def MAX_WINDOW_MS_def task_rank_def attempts_ok_def\<close>)
  next
    case (Finished oc)
    with assms(2) show ?thesis by (simp add: is_finished_def)
  qed
qed

text \<open>Submissions end. However replies, archive results, timers and flushes are ordered, no task moves
  more than six times (three attempts, the pauses between them, the archive); and in every reachable state
  a task that has not finished can still be moved on, by an event that lowers the bound on the moves it
  has left.\<close>

theorem submission_ends:
  "moves_of sha canon archive depth i evs createSubmissionQueue \<le> 2 * MAX_RETRIES
   \<and> (case queue_run sha canon archive depth evs createSubmissionQueue of
        None \<Rightarrow> True
      | Some (acts, s) \<Rightarrow> length (qs_tasks s) \<le> i \<or> is_finished (qs_tasks s ! i)
          \<or> (\<exists>ev acts' s'. queue_step sha canon archive depth ev s = Some (acts', s') \<and> rank_at i s' < rank_at i s))"
proof (intro conjI)
  show "moves_of sha canon archive depth i evs createSubmissionQueue \<le> 2 * MAX_RETRIES"
    using moves_bound [of createSubmissionQueue sha canon archive depth i evs]
    by (simp add: createSubmissionQueue_def rank_at_def)
next
  show "case queue_run sha canon archive depth evs createSubmissionQueue of
        None \<Rightarrow> True
      | Some (acts, s) \<Rightarrow> length (qs_tasks s) \<le> i \<or> is_finished (qs_tasks s ! i)
          \<or> (\<exists>ev acts' s'. queue_step sha canon archive depth ev s = Some (acts', s') \<and> rank_at i s' < rank_at i s)"
  proof (cases "queue_run sha canon archive depth evs createSubmissionQueue")
    case (Some p)
    obtain acts s where p: "p = (acts, s)" by fastforce
    with Some have "queue_inv sha canon depth evs acts s" by (simp add: queue_machine.run_inv)
    then have "\<forall>t \<in> set (qs_tasks s). attempts_ok t" by (simp add: queue_inv_def task_ok_def)
    with unfinished_moves [of i s sha canon archive depth] Some p show ?thesis by (fastforce simp: not_le)
  qed simp
qed

section \<open>The queue and the log\<close>

text \<open>What \<open>sendJson(res, 200, proof)\<close> puts on the wire, as the queue reads it.\<close>

definition bundle_json :: "ProofBundle \<Rightarrow> json" where
  "bundle_json b = JObj
     [(''log_index'', JNum (of_nat (pb_log_index b))), (''checkpoint'', JStr (pb_checkpoint b)),
      (''inclusion_proof'', JArr (map JStr (pb_inclusion_proof b))), (''leaf_hash'', JStr (pb_leaf_hash b))]"

lemma valid_bundle_json: "valid_proof (bundle_json b)"
  using is_integer_of_int [of "int (pb_log_index b)"]
  by (simp add: valid_proof_def bundle_json_def list_all_iff)

lemma proved_reply:
  assumes "i < length (qs_tasks s)" and "ts_phase (qs_tasks s ! i) = Fetching"
  shows "\<exists>a1 s1 a2 s2. queue_step sha canon archive depth (Reply i (HttpResponse 200 (Some (bundle_json b)))) s = Some (a1, s1)
    \<and> queue_step sha canon archive depth (ArchiveEnds i) s1 = Some (a2, s2)
    \<and> getProof (ts_hash (qs_tasks s ! i)) (qs_queue s2) = Some (bundle_json b)
    \<and> ts_hash (qs_tasks s ! i) \<notin> pending_keys (qs_queue s2) \<and> is_finished (qs_tasks s2 ! i)"
proof -
  have null: "bundle_json b \<noteq> JNull" by (simp add: bundle_json_def)
  show ?thesis
    using assms valid_bundle_json [of b] null
    by (auto simp: queue_step_def resume_def on_reply_def on_archived_def finish_task_def is_finished_def
        getProof_def pending_keys_def update_conv' delete_filter)
qed

text \<open>C5: from the producer to the log and back. A task of a reachable queue that waits for its fetch has posted a
  record; when the record is valid and verifies, a reachable log with the lock free answers that post
  with a proof bundle, and once the queue has received it and the archive is done, the queue hands out
  that bundle under the hash of the record, no longer keeps the record, and the bundle proves that the
  log has an entry for this hash.\<close>

theorem queue_gets_checking_proof:
  assumes "operator_ok sha ed_sign ed_verify sk pk origin"
    and "lg = log_run sha canon ed_verify ed_sign (createCheckpointSigner sha sk pk origin) fanout levs f"
    and "sy_holder lg = None" and "int (length (entries lg)) < max_safe_integer" and "write_progress wr"
    and "queue_run sha canon archive depth evs createSubmissionQueue = Some (acts, s)"
    and "i < length (qs_tasks s)" and "ts_phase (qs_tasks s ! i) = Fetching"
    and "validateSubmission now (JObj (ts_record (qs_tasks s ! i))) = Inr ()"
    and "verifyRecord canon ed_verify now (ts_record (qs_tasks s ! i))"
  shows "\<exists>b lacts sv a1 s1 a2 s2.
      handleSubmit sha canon ed_verify ed_sign (createCheckpointSigner sha sk pk origin) fanout wr now
        (Parsed (JObj (ts_record (qs_tasks s ! i)))) (sy_server lg) = (SendProof b # lacts, sv)
    \<and> queue_step sha canon archive depth (Reply i (HttpResponse 200 (Some (bundle_json b)))) s = Some (a1, s1)
    \<and> queue_step sha canon archive depth (ArchiveEnds i) s1 = Some (a2, s2)
    \<and> recordHash sha canon (ts_record (qs_tasks s ! i)) = Inr (ts_hash (qs_tasks s ! i))
    \<and> getProof (ts_hash (qs_tasks s ! i)) (qs_queue s2) = Some (bundle_json b)
    \<and> ts_hash (qs_tasks s ! i) \<notin> pending_keys (qs_queue s2)
    \<and> proof_for sha ed_verify \<lparr>tk_name = origin, tk_publicKey = RawKey pk\<rparr> (ts_hash (qs_tasks s ! i))
        (rawEntries (sv_tree sv)) b"
proof -
  let ?t = "qs_tasks s ! i"
  have hash: "recordHash sha canon (ts_record ?t) = Inr (ts_hash ?t)"
    using queue_machine.run_inv [OF assms(6)] assms(7) by (simp add: queue_inv_def task_ok_def)
  then obtain cb where cb: "canonicalRecord canon (ts_record ?t) = Inr cb" "ts_hash ?t = hexEncode (sha cb)"
    by (auto simp: recordHash_def rbind_Inr_iff)
  obtain b lacts sv where "handleSubmit sha canon ed_verify ed_sign (createCheckpointSigner sha sk pk origin) fanout wr now
        (Parsed (JObj (ts_record ?t))) (sy_server lg) = (SendProof b # lacts, sv)"
      "proof_for sha ed_verify \<lparr>tk_name = origin, tk_publicKey = RawKey pk\<rparr> (ts_hash ?t) (rawEntries (sv_tree sv)) b"
    using submission_answered [OF assms(1-4, 9, 10) cb(1) assms(5)] cb(2) by auto
  with hash proved_reply [OF assms(7, 8), of sha canon archive depth b] show ?thesis by metis
qed

section \<open>Concrete runs\<close>

text \<open>Toy records: the canonical form is the name of the only member.\<close>

definition toy_key :: "string \<Rightarrow> js_object" where
  "toy_key k = [(k, JNull)]"

definition failed_submissions :: "queue_event list" where
  "failed_submissions =
     [Submit (toy_key ''n'') Normal None 0, Reply 0 NetworkError, Wake 0 1000, Reply 0 NetworkError, Wake 0 3000,
      Reply 0 NetworkError,
      Submit (toy_key ''h'') High None 4000, Reply 1 NetworkError, Wake 1 5000, Reply 1 NetworkError, Wake 1 7000,
      Reply 1 NetworkError]"

definition failed_flush :: "queue_event list" where
  "failed_flush =
     failed_submissions @
     [Flush 8000, Reply 2 NetworkError, Reply 3 NetworkError, Wake 2 9000, Wake 3 9000,
      Reply 2 NetworkError, Reply 3 NetworkError, Wake 2 11000, Wake 3 11000,
      Reply 3 NetworkError, Reply 2 NetworkError, FlushGoesOn 0 12000]"

abbreviation toy_queue_run :: "queue_event list \<Rightarrow> (queue_action list \<times> queue_system) option" where
  "toy_queue_run evs \<equiv> queue_run (\<lambda>x. x) toy_canon False (Some 2) evs createSubmissionQueue"

declare evict_loop.simps [code]

text \<open>A flush can lose a record although the queue has room. The cap is two and only two records are ever
  submitted, \<open>n\<close> at normal and \<open>h\<close> at high priority; the log is unreachable throughout. When the flush
  retries both and they fail again, each makes room for itself although it is still in the queue; \<open>n\<close>
  gives up first and is then evicted by \<open>h\<close>. The queue ends with the single record \<open>h\<close>.\<close>

theorem flush_loses_record:
  "case toy_queue_run failed_flush of
     None \<Rightarrow> False
   | Some (acts, s) \<Rightarrow>
       Evict (hexEncode (encode_utf8 ''n'')) \<in> set acts
       \<and> map fst (q_pendingRecords (qs_queue s)) = [hexEncode (encode_utf8 ''h'')]
       \<and> getProof (hexEncode (encode_utf8 ''n'')) (qs_queue s) = None
       \<and> qs_flushes s = [Flushed] \<and> list_all is_finished (qs_tasks s)"
  by code_simp

lemma failed_submissions_run:
  "case toy_queue_run failed_submissions of
     None \<Rightarrow> False
   | Some (acts, s) \<Rightarrow> qs_promises s = []
       \<and> map fst (q_pendingRecords (qs_queue s)) = [hexEncode (encode_utf8 ''n''), hexEncode (encode_utf8 ''h'')]"
  by code_simp

theorem pending_bounded_witness:
  "\<exists>acts s. toy_queue_run failed_flush = Some (acts, s) \<and> int (length (q_pendingRecords (qs_queue s))) \<le> 2
    \<and> distinct (map fst (q_pendingRecords (qs_queue s)))"
proof -
  have "toy_queue_run failed_flush \<noteq> None" by code_simp
  then obtain acts s where "toy_queue_run failed_flush = Some (acts, s)" by auto
  with pending_bounded [OF this] show ?thesis by auto
qed

theorem submissions_accounted_witness:
  "\<exists>acts s. toy_queue_run failed_submissions = Some (acts, s)
    \<and> (getProof (hexEncode (encode_utf8 ''n'')) (qs_queue s) \<noteq> None
       \<or> hexEncode (encode_utf8 ''n'') \<in> pending_keys (qs_queue s) \<or> answered s (hexEncode (encode_utf8 ''n''))
       \<or> Evict (hexEncode (encode_utf8 ''n'')) \<in> set acts)"
proof -
  have "case toy_queue_run failed_submissions of None \<Rightarrow> False | Some (acts, s) \<Rightarrow> list_all is_finished (qs_tasks s)"
    by code_simp
  then obtain acts s where run: "toy_queue_run failed_submissions = Some (acts, s)"
    and fin: "\<forall>t \<in> set (qs_tasks s). ts_hash t = hexEncode (encode_utf8 ''n'') \<longrightarrow> is_finished t"
    by (auto simp: list_all_iff split: option.splits)
  have "recordHash (\<lambda>x. x) toy_canon (toy_key ''n'') = Inr (hexEncode (encode_utf8 ''n''))"
    by (simp add: recordHash_def canonicalRecord_def canonical_bytes_def toy_canon_def toy_key_def)
  then have "submitted (\<lambda>x. x) toy_canon failed_submissions Normal (hexEncode (encode_utf8 ''n''))"
    unfolding submitted_def failed_submissions_def by (intro exI) (auto intro!: disjI1)
  with submissions_accounted [OF run _ fin] run show ?thesis by blast
qed

theorem flush_high_first_witness:
  "\<exists>acts s acts' s'. toy_queue_run failed_submissions = Some (acts, s)
    \<and> queue_step (\<lambda>x. x) toy_canon False (Some 2) (Flush 8000) s = Some (acts', s')
    \<and> acts' = map (\<lambda>(k, e). PostEntry k (pe_priority e) (pe_record e))
      (with_priority High (q_pendingRecords (qs_queue s)) @ with_priority Normal (q_pendingRecords (qs_queue s)))"
proof -
  obtain acts s where run: "toy_queue_run failed_submissions = Some (acts, s)" and no: "qs_promises s = []"
    using failed_submissions_run by (auto split: option.splits)
  obtain acts' s' where st: "queue_step (\<lambda>x. x) toy_canon False (Some 2) (Flush 8000) s = Some (acts', s')"
    using queue_step_None [of "\<lambda>x. x" toy_canon False "Some 2" "Flush 8000" s] by (fastforce simp: positive_depth_def)
  show ?thesis using run st flush_high_first [OF run no st] by blast
qed

text \<open>The toy submission of the log server, posted by a fresh queue.\<close>

definition toy_post :: "queue_event list" where
  "toy_post = [Submit toy_submission High None 0]"

theorem queue_gets_checking_proof_witness:
  "\<exists>acts s b lacts sv a1 s1 a2 s2.
      queue_run pad32 toy_canon False None toy_post createSubmissionQueue = Some (acts, s)
    \<and> handleSubmit pad32 toy_canon toy_verify toy_sign (createCheckpointSigner pad32 [7] (pad32 [7]) ''log'') True (\<lambda>b. 1) 2000
        (Parsed (JObj (ts_record (qs_tasks s ! 0)))) (sy_server (fresh_system (empty_tree (Some [])))) = (SendProof b # lacts, sv)
    \<and> queue_step pad32 toy_canon False None (Reply 0 (HttpResponse 200 (Some (bundle_json b)))) s = Some (a1, s1)
    \<and> queue_step pad32 toy_canon False None (ArchiveEnds 0) s1 = Some (a2, s2)
    \<and> getProof (ts_hash (qs_tasks s ! 0)) (qs_queue s2) = Some (bundle_json b)
    \<and> proof_for pad32 toy_verify \<lparr>tk_name = ''log'', tk_publicKey = RawKey (pad32 [7])\<rparr> (ts_hash (qs_tasks s ! 0))
        (rawEntries (sv_tree sv)) b"
proof -
  let ?lg = "log_run pad32 toy_canon toy_verify toy_sign (createCheckpointSigner pad32 [7] (pad32 [7]) ''log'') True [] (Some [])"
  have lg: "?lg = fresh_system (empty_tree (Some []))" by (simp add: log_run_def)
  obtain h where h: "recordHash pad32 toy_canon toy_submission = Inr h"
    by (simp add: recordHash_def toy_canonical)
  let ?t = "\<lparr>ts_record = toy_submission, ts_priority = High, ts_sidecar = None, ts_hash = h, ts_startTime = 0,
    ts_attempt = 0, ts_backoff = INITIAL_BACKOFF_MS, ts_phase = Fetching\<rparr>"
  obtain acts s where run: "queue_run pad32 toy_canon False None toy_post createSubmissionQueue = Some (acts, s)"
    and s: "qs_tasks s = [?t]"
    using h by (auto simp: toy_post_def queue_step_def submit_def spawn_def start_task_def createSubmissionQueue_def)
  have i: "0 < length (qs_tasks s)" "ts_phase (qs_tasks s ! 0) = Fetching" "ts_record (qs_tasks s ! 0) = toy_submission"
    by (simp_all add: s)
  have lg': "sy_holder ?lg = None" "int (length (entries ?lg)) < max_safe_integer"
    by (simp_all add: lg fresh_system_def empty_tree_def max_safe_integer_def)
  have valid: "validateSubmission 2000 (JObj (ts_record (qs_tasks s ! 0))) = Inr ()"
    "verifyRecord toy_canon toy_verify 2000 (ts_record (qs_tasks s ! 0))"
    unfolding i(3) by (rule toy_submission_valid, rule toy_submission_verifies)
  from queue_gets_checking_proof [OF toy_operator_ok refl lg' write_progress_one run i(1, 2) valid] run
  show ?thesis unfolding lg by blast
qed

end
