(* ===== verification/Graph_Types.thy ===== *)
theory Graph_Types
  imports Attribution_Record
begin

text \<open>
  The attribution graph as services exchange it (\<open>packages/verify/src/types.ts\<close>) and the revocation
  registry that marks its nodes (\<open>packages/verify/src/revocations.ts\<close>). An optional field that is absent
  or \<open>null\<close> is \<open>None\<close>; the fields that describe an unresolved reference are present together, so they
  are one record.
\<close>

datatype graph_label =
    Tool_call | Transaction | Observation | Directory_anchor | Annotation | Revision
  | Gap_node | Dangling_node | Extension

definition graphLabelFromEventTypeUri :: "string \<Rightarrow> graph_label" where
  "graphLabelFromEventTypeUri uri =
     (if uri = ''https://atrib.dev/v1/types/tool_call'' then Tool_call
      else if uri = ''https://atrib.dev/v1/types/transaction'' then Transaction
      else if uri = ''https://atrib.dev/v1/types/observation'' then Observation
      else if uri = ''https://atrib.dev/v1/types/directory_anchor'' then Directory_anchor
      else if uri = ''https://atrib.dev/v1/types/annotation'' then Annotation
      else if uri = ''https://atrib.dev/v1/types/revision'' then Revision
      else Extension)"

datatype edge_type =
    CHAIN_PRECEDES | SESSION_PRECEDES | SESSION_PARALLEL | CONVERGES_ON | CROSS_SESSION
  | INFORMED_BY | PROVENANCE_OF | ANNOTATES | REVISES

definition edge_type_name :: "edge_type \<Rightarrow> string" where
  "edge_type_name t =
     (case t of CHAIN_PRECEDES \<Rightarrow> ''CHAIN_PRECEDES'' | SESSION_PRECEDES \<Rightarrow> ''SESSION_PRECEDES''
      | SESSION_PARALLEL \<Rightarrow> ''SESSION_PARALLEL'' | CONVERGES_ON \<Rightarrow> ''CONVERGES_ON''
      | CROSS_SESSION \<Rightarrow> ''CROSS_SESSION'' | INFORMED_BY \<Rightarrow> ''INFORMED_BY''
      | PROVENANCE_OF \<Rightarrow> ''PROVENANCE_OF'' | ANNOTATES \<Rightarrow> ''ANNOTATES'' | REVISES \<Rightarrow> ''REVISES'')"

datatype verification_state = Unsigned | Signature_valid | Log_committed | Witnessed_state | Revoked_after_revocation

datatype reference_status = External | Missing | Unresolved

record Reference =
  rf_status :: reference_status
  rf_hash :: "string option"
  rf_token :: "string option"
  rf_context_id :: "string option"
  rf_event_type :: "graph_label option"
  rf_log_index :: "int option"

record GraphNode =
  gn_id :: string
  gn_event_type :: graph_label
  gn_event_type_uri :: "string option"
  gn_content_id :: "string option"
  gn_creator_key :: "string option"
  gn_chain_root :: "string option"
  gn_context_id :: string
  gn_timestamp :: rat
  gn_log_index :: "int option"
  gn_verification_state :: verification_state
  gn_is_genesis :: bool
  gn_reference :: "Reference option"

record GraphEdge =
  ge_type :: edge_type
  ge_source :: string
  ge_target :: string
  ge_directed :: bool
  ge_dangling :: "(Reference \<times> string option) option"

record GraphResponse =
  gr_context_id :: string
  gr_node_count :: nat
  gr_edge_count :: nat
  gr_has_transaction :: bool
  gr_cross_session_count :: nat
  gr_nodes :: "GraphNode list"
  gr_edges :: "GraphEdge list"

record GapNode =
  gp_tool_url :: string
  gp_tool_name :: string
  gp_context_id :: string
  gp_timestamp :: rat

section \<open>Revocations\<close>

datatype revocation_reason = Rotation | Retirement | Compromise

record RevocationEntry =
  re_revoked_key :: string
  re_log_index :: int
  re_reason :: revocation_reason
  re_successor_key :: "string option"
  re_emergency_signed_by :: "string option"

definition KEY_REVOCATION_URI :: string where
  "KEY_REVOCATION_URI = ''https://atrib.dev/v1/types/key_revocation''"

definition isRevocationRecord :: "js_object \<Rightarrow> bool" where
  "isRevocationRecord r \<longleftrightarrow>
     map_of r ''event_type'' = Some (JStr ''key_revocation'')
     \<or> map_of r ''event_type'' = Some (JStr KEY_REVOCATION_URI)
     \<or> map_of r ''event_type_uri'' = Some (JStr KEY_REVOCATION_URI)"

definition revocation_reason_of :: "json option \<Rightarrow> revocation_reason option" where
  "revocation_reason_of v =
     (if v = Some (JStr ''rotation'') then Some Rotation
      else if v = Some (JStr ''retirement'') then Some Retirement
      else if v = Some (JStr ''compromise'') then Some Compromise
      else None)"

text \<open>A spread \<open>...(r.k ? { k: r.k } : {})\<close> of a member declared as a string.\<close>

definition nonempty_string :: "json option \<Rightarrow> string option" where
  "nonempty_string v = (case str_of v of Some s \<Rightarrow> if s = [] then None else Some s | None \<Rightarrow> None)"

text \<open>The claim a record makes, when it is well shaped.\<close>

definition revocation_claim :: "js_object \<Rightarrow> RevocationEntry option" where
  "revocation_claim r =
     (if \<not> isRevocationRecord r then None
      else case nonempty_string (map_of r ''revoked_key'') of
        None \<Rightarrow> None
      | Some key \<Rightarrow>
          (case map_of r ''log_index'' of
             Some (JNum n) \<Rightarrow>
               if \<not> is_integer n \<or> \<not> is_safe_integer (int_part n) \<or> int_part n < 0 then None
               else (case revocation_reason_of (map_of r ''revocation_reason'') of
                       None \<Rightarrow> None
                     | Some reason \<Rightarrow>
                         Some \<lparr>re_revoked_key = key, re_log_index = int_part n, re_reason = reason,
                           re_successor_key = nonempty_string (map_of r ''successor_key''),
                           re_emergency_signed_by = nonempty_string (map_of r ''emergency_signed_by'')\<rparr>)
           | _ \<Rightarrow> None))"

definition register_revocation :: "(string, RevocationEntry) jsmap \<Rightarrow> js_object \<Rightarrow> (string, RevocationEntry) jsmap" where
  "register_revocation registry r =
     (case revocation_claim r of
        None \<Rightarrow> registry
      | Some entry \<Rightarrow>
          (case map_of registry (re_revoked_key entry) of
             Some existing \<Rightarrow>
               if re_log_index existing \<le> re_log_index entry then registry
               else AList.update (re_revoked_key entry) entry registry
           | None \<Rightarrow> AList.update (re_revoked_key entry) entry registry))"

definition buildRevocationRegistry :: "js_object list \<Rightarrow> (string, RevocationEntry) jsmap" where
  "buildRevocationRegistry records = foldl register_revocation [] records"

definition applyRevocation ::
  "string option \<Rightarrow> int option \<Rightarrow> verification_state \<Rightarrow> (string, RevocationEntry) jsmap \<Rightarrow> verification_state" where
  "applyRevocation creator_key log_index state registry =
     (case creator_key of
        None \<Rightarrow> state
      | Some key \<Rightarrow>
          if key = [] then state
          else case log_index of
            None \<Rightarrow> state
          | Some i \<Rightarrow>
              (case map_of registry key of
                 None \<Rightarrow> state
               | Some entry \<Rightarrow>
                   if i < re_log_index entry then state
                   else if i = re_log_index entry then state
                   else Revoked_after_revocation))"

section \<open>The registry holds the earliest claims\<close>

text \<open>The log indices at which records of a list revoke a key.\<close>

definition revoked_at :: "js_object list \<Rightarrow> string \<Rightarrow> int set" where
  "revoked_at records key =
     {re_log_index c | c r. r \<in> set records \<and> revocation_claim r = Some c \<and> re_revoked_key c = key}"

lemma revoked_at_snoc:
  "revoked_at (rs @ [r]) key = revoked_at rs key \<union>
     (case revocation_claim r of None \<Rightarrow> {} | Some c \<Rightarrow> if re_revoked_key c = key then {re_log_index c} else {})"
  by (auto simp: revoked_at_def split: option.splits)

definition registry_ok :: "js_object list \<Rightarrow> (string, RevocationEntry) jsmap \<Rightarrow> bool" where
  "registry_ok records registry \<longleftrightarrow> (\<forall>key. case map_of registry key of
      None \<Rightarrow> revoked_at records key = {}
    | Some e \<Rightarrow> re_log_index e \<in> revoked_at records key \<and> (\<forall>i \<in> revoked_at records key. re_log_index e \<le> i))"

lemma registry_ok_step:
  assumes "registry_ok rs registry"
  shows "registry_ok (rs @ [r]) (register_revocation registry r)"
proof (cases "revocation_claim r")
  case None
  then have "revoked_at (rs @ [r]) = revoked_at rs" by (simp add: fun_eq_iff revoked_at_snoc)
  with assms show ?thesis by (simp only: register_revocation_def registry_ok_def None option.case simp_thms)
next
  case (Some c)
  show ?thesis
    unfolding registry_ok_def
  proof
    fix key
    have "case map_of registry key of None \<Rightarrow> revoked_at rs key = {}
        | Some e \<Rightarrow> re_log_index e \<in> revoked_at rs key \<and> (\<forall>i \<in> revoked_at rs key. re_log_index e \<le> i)"
      using assms by (simp add: registry_ok_def)
    with Some show "case map_of (register_revocation registry r) key of None \<Rightarrow> revoked_at (rs @ [r]) key = {}
        | Some e \<Rightarrow> re_log_index e \<in> revoked_at (rs @ [r]) key \<and> (\<forall>i \<in> revoked_at (rs @ [r]) key. re_log_index e \<le> i)"
      by (fastforce simp: register_revocation_def revoked_at_snoc update_conv' split: option.splits if_splits)
  qed
qed

lemma registry_ok_build: "registry_ok records (buildRevocationRegistry records)"
proof (induction records rule: rev_induct)
  case Nil
  then show ?case by (simp add: registry_ok_def buildRevocationRegistry_def revoked_at_def)
next
  case (snoc r rs)
  then show ?case using registry_ok_step [of rs _ r] by (simp add: buildRevocationRegistry_def)
qed

lemma revocation_claim_key: "revocation_claim r = Some c \<Longrightarrow> re_revoked_key c \<noteq> []"
  by (auto simp: revocation_claim_def nonempty_string_def split: option.splits if_splits json.splits)

text \<open>Revocation. With the registry built from a list of records, a node is marked as signed after a
  revocation exactly when some well-shaped revocation of its creator key among these records has a
  smaller log index than the node; every other node keeps its state. In particular the earliest
  revocation of a key decides, whatever the order of the records, and a node at the index of the
  revocation itself is not marked.\<close>

theorem revoked_iff_earlier_revocation:
  "applyRevocation creator_key log_index state (buildRevocationRegistry records) =
     (case (creator_key, log_index) of
        (Some key, Some i) \<Rightarrow> if \<exists>j \<in> revoked_at records key. j < i then Revoked_after_revocation else state
      | _ \<Rightarrow> state)"
proof (cases "creator_key = None \<or> log_index = None")
  case True
  then show ?thesis by (auto simp: applyRevocation_def split: option.splits)
next
  case False
  then obtain key i where ki: "creator_key = Some key" "log_index = Some i" by auto
  have empty: "revoked_at records [] = {}" using revocation_claim_key by (auto simp: revoked_at_def)
  have "case map_of (buildRevocationRegistry records) key of None \<Rightarrow> revoked_at records key = {}
      | Some e \<Rightarrow> re_log_index e \<in> revoked_at records key \<and> (\<forall>i \<in> revoked_at records key. re_log_index e \<le> i)"
    using registry_ok_build [of records] by (simp add: registry_ok_def)
  with empty show ?thesis by (cases "key = []") (force simp: ki applyRevocation_def split: option.splits)+
qed

end
