(* ===== verification/Graph_Search.thy ===== *)
theory Graph_Search
  imports Prelude
begin

text \<open>
  The breadth-first searches of the calculation (\<open>packages/verify/src/calculate.ts\<close>): the nodes that can
  reach a transaction, the edge types on the way, and the shortest chain. Adjacency is an
  insertion-ordered map from node ids; the sets of visited ids are lists without repetition. The
  searches end because every id they queue is new and occurs in the adjacency.
\<close>

section \<open>Adjacency\<close>

text \<open>\<open>adj.get(k) ?? []\<close> and \<open>adj.get(k)?.push(v)\<close>.\<close>

definition adj_at :: "(string, 'a list) jsmap \<Rightarrow> string \<Rightarrow> 'a list" where
  "adj_at adj k = (case map_of adj k of None \<Rightarrow> [] | Some vs \<Rightarrow> vs)"

definition push_at :: "string \<Rightarrow> 'a \<Rightarrow> (string, 'a list) jsmap \<Rightarrow> (string, 'a list) jsmap" where
  "push_at k v adj = (case map_of adj k of None \<Rightarrow> adj | Some vs \<Rightarrow> AList.update k (vs @ [v]) adj)"

lemma adj_at_push_at:
  "adj_at (push_at k v adj) j = (if j = k \<and> k \<in> dom (map_of adj) then adj_at adj k @ [v] else adj_at adj j)"
  by (auto simp: adj_at_def push_at_def update_conv' split: option.splits)

lemma dom_push_at [simp]: "dom (map_of (push_at k v adj)) = dom (map_of adj)"
  by (auto simp: push_at_def update_conv' split: option.splits)

definition adj_universe :: "('a \<Rightarrow> string) \<Rightarrow> (string, 'a list) jsmap \<Rightarrow> string set" where
  "adj_universe f adj = f ` set (concat (map snd adj))"

lemma finite_adj_universe: "finite (adj_universe f adj)"
  by (simp add: adj_universe_def)

lemma adj_at_universe: "f ` set (adj_at adj k) \<subseteq> adj_universe f adj"
proof (cases "map_of adj k")
  case (Some vs)
  then have "vs \<in> set (map snd adj)" by (force dest: map_of_SomeD)
  then have "set vs \<subseteq> set (concat (map snd adj))" by auto
  with Some show ?thesis by (simp add: adj_at_def adj_universe_def image_mono)
qed (simp add: adj_at_def)

section \<open>Visiting\<close>

text \<open>\<open>if (!seen.has(x)) \{ seen.add(x); queue.push(x) \}\<close> for every neighbour.\<close>

definition visit_new :: "string list \<Rightarrow> string list \<times> string list \<Rightarrow> string list \<times> string list" where
  "visit_new xs = fold (\<lambda>x (seen, queue). if x \<in> set seen then (seen, queue) else (seen @ [x], queue @ [x])) xs"

lemma visit_new_Cons:
  "visit_new (x # xs) (seen, queue) = visit_new xs (if x \<in> set seen then (seen, queue) else (seen @ [x], queue @ [x]))"
  by (simp add: visit_new_def)

lemma visit_new_eq:
  "\<exists>new. visit_new xs (seen, queue) = (seen @ new, queue @ new) \<and> set new = set xs - set seen"
proof (induction xs arbitrary: seen queue)
  case Nil
  then show ?case by (simp add: visit_new_def)
next
  case (Cons x xs)
  show ?case
  proof (cases "x \<in> set seen")
    case True
    with Cons.IH [of seen queue] show ?thesis by (auto simp: visit_new_Cons)
  next
    case False
    obtain new where "visit_new xs (seen @ [x], queue @ [x]) = ((seen @ [x]) @ new, (queue @ [x]) @ new)"
      "set new = set xs - set (seen @ [x])" using Cons.IH by blast
    with False show ?thesis by (intro exI [of _ "x # new"]) (auto simp: visit_new_Cons)
  qed
qed

text \<open>Every search decreases this measure: the ids not seen yet, then the queue.\<close>

definition unseen :: "string set \<Rightarrow> string list \<Rightarrow> nat" where
  "unseen U seen = card (U - set seen)"

lemma search_decreases:
  assumes "finite U" and "set xs \<subseteq> U" and "visit_new xs (seen, queue) = (seen', queue')"
  shows "unseen U seen' < unseen U seen \<or> (unseen U seen' = unseen U seen \<and> queue' = queue)"
proof -
  obtain new where new: "seen' = seen @ new" "queue' = queue @ new" "set new = set xs - set seen"
    using visit_new_eq [of xs seen queue] assms(3) by auto
  show ?thesis
  proof (cases "new = []")
    case False
    then obtain x where "x \<in> set new" by (cases new) auto
    with new assms(2) have "x \<in> U - set seen" "x \<notin> U - set seen'" "U - set seen' \<subseteq> U - set seen" by auto
    then have "U - set seen' \<subset> U - set seen" by blast
    with assms(1) show ?thesis by (simp add: unseen_def psubset_card_mono)
  qed (simp add: new)
qed

section \<open>Reachability\<close>

function reach_loop :: "(string, string list) jsmap \<Rightarrow> string list \<Rightarrow> string list \<Rightarrow> string list" where
  "reach_loop adj seen [] = seen"
| "reach_loop adj seen (cur # queue) =
     (case visit_new (adj_at adj cur) (seen, queue) of (seen', queue') \<Rightarrow> reach_loop adj seen' queue')"
  by pat_completeness auto
termination
proof (relation "measures [\<lambda>(adj, seen, queue). unseen (adj_universe (\<lambda>x. x) adj) seen, \<lambda>(adj, seen, queue). length queue]")
  fix adj seen cur queue seen' queue'
  assume "(seen', queue') = visit_new (adj_at adj cur) (seen, queue)"
  then have "visit_new (adj_at adj cur) (seen, queue) = (seen', queue')" by simp
  moreover have "set (adj_at adj cur) \<subseteq> adj_universe (\<lambda>x. x) adj"
    using adj_at_universe [of "\<lambda>x. x" adj cur] by simp
  ultimately have "unseen (adj_universe (\<lambda>x. x) adj) seen' < unseen (adj_universe (\<lambda>x. x) adj) seen
      \<or> unseen (adj_universe (\<lambda>x. x) adj) seen' = unseen (adj_universe (\<lambda>x. x) adj) seen \<and> queue' = queue"
    by (intro search_decreases [OF finite_adj_universe])
  then show "((adj, seen', queue'), (adj, seen, cur # queue))
      \<in> measures [\<lambda>(adj, seen, queue). unseen (adj_universe (\<lambda>x. x) adj) seen, \<lambda>(adj, seen, queue). length queue]"
    by auto
qed simp

definition adj_rel :: "(string, string list) jsmap \<Rightarrow> (string \<times> string) set" where
  "adj_rel adj = {(a, b). b \<in> set (adj_at adj a)}"

lemma Image_subset_rtrancl: "S \<subseteq> R\<^sup>* `` T \<Longrightarrow> R\<^sup>* `` S \<subseteq> R\<^sup>* `` T"
proof
  fix c assume S: "S \<subseteq> R\<^sup>* `` T" and "c \<in> R\<^sup>* `` S"
  then obtain b where "b \<in> S" "(b, c) \<in> R\<^sup>*" by blast
  with S show "c \<in> R\<^sup>* `` T" by (auto intro: rtrancl_trans)
qed

lemma reach_loop_sound:
  "set queue \<subseteq> set seen \<Longrightarrow> set (reach_loop adj seen queue) \<subseteq> (adj_rel adj)\<^sup>* `` set seen"
proof (induction adj seen queue rule: reach_loop.induct)
  case (2 adj seen cur queue)
  obtain new where new: "visit_new (adj_at adj cur) (seen, queue) = (seen @ new, queue @ new)"
    "set new = set (adj_at adj cur) - set seen" using visit_new_eq by blast
  have "set (seen @ new) \<subseteq> (adj_rel adj)\<^sup>* `` set seen"
    using new(2) "2.prems" by (auto simp: adj_rel_def)
  then have "(adj_rel adj)\<^sup>* `` set (seen @ new) \<subseteq> (adj_rel adj)\<^sup>* `` set seen"
    by (rule Image_subset_rtrancl)
  with "2.IH" [OF new(1) [symmetric]] "2.prems" show ?case by (auto simp: new(1))
qed auto

lemma reach_loop_closed:
  assumes "set queue \<subseteq> set seen" and "\<forall>a \<in> set seen - set queue. set (adj_at adj a) \<subseteq> set seen"
  shows "set seen \<subseteq> set (reach_loop adj seen queue)
    \<and> (\<forall>a \<in> set (reach_loop adj seen queue). set (adj_at adj a) \<subseteq> set (reach_loop adj seen queue))"
  using assms
proof (induction adj seen queue rule: reach_loop.induct)
  case (2 adj seen cur queue)
  obtain new where new: "visit_new (adj_at adj cur) (seen, queue) = (seen @ new, queue @ new)"
    "set new = set (adj_at adj cur) - set seen" using visit_new_eq by blast
  have "\<forall>a \<in> set (seen @ new) - set (queue @ new). set (adj_at adj a) \<subseteq> set (seen @ new)"
    using "2.prems"(2) new(2) by auto
  with "2.IH" [OF new(1) [symmetric]] "2.prems"(1) show ?case by (auto simp: new(1))
qed auto

lemma reach_loop_eq: "set (reach_loop adj starts starts) = (adj_rel adj)\<^sup>* `` set starts"
proof
  show "set (reach_loop adj starts starts) \<subseteq> (adj_rel adj)\<^sup>* `` set starts" by (rule reach_loop_sound) simp
next
  let ?R = "set (reach_loop adj starts starts)"
  have closed: "set starts \<subseteq> ?R" "\<And>a b. a \<in> ?R \<Longrightarrow> (a, b) \<in> adj_rel adj \<Longrightarrow> b \<in> ?R"
    using reach_loop_closed [of starts starts adj] by (auto simp: adj_rel_def)
  show "(adj_rel adj)\<^sup>* `` set starts \<subseteq> ?R"
  proof
    fix b assume "b \<in> (adj_rel adj)\<^sup>* `` set starts"
    then obtain a where "a \<in> set starts" "(a, b) \<in> (adj_rel adj)\<^sup>*" by blast
    from this(2, 1) show "b \<in> ?R" by (induction rule: rtrancl_induct) (use closed in auto)
  qed
qed

section \<open>Edge types on the way\<close>

text \<open>\<open>collected.add(type)\<close>.\<close>

definition set_add :: "'t \<Rightarrow> 't list \<Rightarrow> 't list" where
  "set_add t ts = (if t \<in> set ts then ts else ts @ [t])"

lemma set_search_add [simp]: "set (set_add t ts) = insert t (set ts)"
  by (auto simp: set_add_def)

text \<open>One neighbour: \<open>can\<close> tells whether it counts, \<open>stop\<close> whether the search ends there.\<close>

definition collect_edge ::
  "(string \<Rightarrow> bool) \<Rightarrow> (string \<Rightarrow> bool) \<Rightarrow> 't \<times> string \<Rightarrow> 't list \<times> string list \<times> string list
   \<Rightarrow> 't list \<times> string list \<times> string list" where
  "collect_edge can stop = (\<lambda>(t, to) (collected, visited, queue).
     if \<not> can to then (collected, visited, queue)
     else let collected' = set_add t collected
          in if \<not> stop to \<and> to \<notin> set visited then (collected', visited @ [to], queue @ [to])
             else (collected', visited, queue))"

lemma collect_edges:
  "\<exists>collected'. fold (collect_edge can stop) es (collected, visited, queue)
     = (collected', visit_new (map snd (filter (\<lambda>(t, to). can to \<and> \<not> stop to) es)) (visited, queue))
   \<and> set collected' = set collected \<union> {t. \<exists>to. (t, to) \<in> set es \<and> can to}"
proof (induction es arbitrary: collected visited queue)
  case (Cons e es)
  obtain t to where e: "e = (t, to)" by fastforce
  show ?case
  proof (cases "can to")
    case True
    obtain v q where vq: "(v, q) = (if \<not> stop to \<and> to \<notin> set visited then (visited @ [to], queue @ [to]) else (visited, queue))"
      by (metis surj_pair)
    from Cons.IH [of "set_add t collected" v q] obtain c where
      c: "fold (collect_edge can stop) es (set_add t collected, v, q)
        = (c, visit_new (map snd (filter (\<lambda>(t, to). can to \<and> \<not> stop to) es)) (v, q))"
      "set c = set (set_add t collected) \<union> {t. \<exists>to. (t, to) \<in> set es \<and> can to}" by blast
    have "fold (collect_edge can stop) (e # es) (collected, visited, queue)
        = fold (collect_edge can stop) es (set_add t collected, v, q)"
      using True vq by (auto simp: e collect_edge_def Let_def split: if_splits)
    moreover have "visit_new (map snd (filter (\<lambda>(t, to). can to \<and> \<not> stop to) (e # es))) (visited, queue)
        = visit_new (map snd (filter (\<lambda>(t, to). can to \<and> \<not> stop to) es)) (v, q)"
      using True vq by (auto simp: e visit_new_Cons split: if_splits)
    ultimately show ?thesis using c True by (intro exI [of _ c]) (auto simp: e)
  next
    case False
    with Cons.IH [of collected visited queue] show ?thesis by (auto simp: e collect_edge_def)
  qed
qed (simp add: visit_new_def)

function types_loop ::
  "(string, ('t \<times> string) list) jsmap \<Rightarrow> (string \<Rightarrow> bool) \<Rightarrow> (string \<Rightarrow> bool) \<Rightarrow> 't list \<Rightarrow> string list \<Rightarrow> string list \<Rightarrow> 't list" where
  "types_loop adj can stop collected visited [] = collected"
| "types_loop adj can stop collected visited (cur # queue) =
     (case fold (collect_edge can stop) (adj_at adj cur) (collected, visited, queue) of
        (collected', visited', queue') \<Rightarrow> types_loop adj can stop collected' visited' queue')"
  by pat_completeness auto
termination
proof (relation "measures [\<lambda>(adj, can, stop, collected, visited, queue). unseen (adj_universe snd adj) visited,
    \<lambda>(adj, can, stop, collected, visited, queue). length queue]")
  fix adj :: "(string, ('t \<times> string) list) jsmap" and can stop collected visited cur queue collected' q visited' queue'
  assume a: "(collected', q) = fold (collect_edge can stop) (adj_at adj cur) (collected, visited, queue)"
    "(visited', queue') = q"
  let ?xs = "map snd (filter (\<lambda>(t, to). can to \<and> \<not> stop to) (adj_at adj cur))"
  have "visit_new ?xs (visited, queue) = (visited', queue')"
    using collect_edges [of can stop "adj_at adj cur" collected visited queue] a by auto
  moreover have "set ?xs \<subseteq> adj_universe snd adj" using adj_at_universe [of snd adj cur] by auto
  ultimately have "unseen (adj_universe snd adj) visited' < unseen (adj_universe snd adj) visited
      \<or> unseen (adj_universe snd adj) visited' = unseen (adj_universe snd adj) visited \<and> queue' = queue"
    by (intro search_decreases [OF finite_adj_universe])
  then show "((adj, can, stop, collected', visited', queue'), (adj, can, stop, collected, visited, cur # queue))
      \<in> measures [\<lambda>(adj, can, stop, collected, visited, queue). unseen (adj_universe snd adj) visited,
        \<lambda>(adj, can, stop, collected, visited, queue). length queue]"
    by auto
qed simp

text \<open>The edges the search follows, and the types it sees from a set of ids.\<close>

definition go_rel :: "(string, ('t \<times> string) list) jsmap \<Rightarrow> (string \<Rightarrow> bool) \<Rightarrow> (string \<Rightarrow> bool) \<Rightarrow> (string \<times> string) set" where
  "go_rel adj can stop = {(a, b). b \<in> snd ` set (adj_at adj a) \<and> can b \<and> \<not> stop b}"

definition types_from :: "(string, ('t \<times> string) list) jsmap \<Rightarrow> (string \<Rightarrow> bool) \<Rightarrow> string set \<Rightarrow> 't set" where
  "types_from adj can V = {t. \<exists>a \<in> V. \<exists>b. (t, b) \<in> set (adj_at adj a) \<and> can b}"

lemma collect_step:
  obtains collected' new where
    "fold (collect_edge can stop) (adj_at adj cur) (collected, visited, queue) = (collected', visited @ new, queue @ new)"
    "set collected' = set collected \<union> types_from adj can {cur}"
    "set new = go_rel adj can stop `` {cur} - set visited"
proof -
  let ?xs = "map snd (filter (\<lambda>(t, to). can to \<and> \<not> stop to) (adj_at adj cur))"
  obtain new where new: "visit_new ?xs (visited, queue) = (visited @ new, queue @ new)" "set new = set ?xs - set visited"
    using visit_new_eq by blast
  have xs: "set ?xs = go_rel adj can stop `` {cur}" by (auto simp: go_rel_def image_def case_prod_unfold) force
  obtain c where c: "fold (collect_edge can stop) (adj_at adj cur) (collected, visited, queue) = (c, visit_new ?xs (visited, queue))"
    "set c = set collected \<union> {t. \<exists>to. (t, to) \<in> set (adj_at adj cur) \<and> can to}"
    using collect_edges [of can stop "adj_at adj cur" collected visited queue] by auto
  have "types_from adj can {cur} = {t. \<exists>to. (t, to) \<in> set (adj_at adj cur) \<and> can to}" by (simp add: types_from_def)
  with c new xs show ?thesis by (intro that [of c new]) simp_all
qed

lemma types_from_mono: "V \<subseteq> W \<Longrightarrow> types_from adj can V \<subseteq> types_from adj can W"
  by (auto simp: types_from_def)

lemma types_from_Un: "types_from adj can (V \<union> W) = types_from adj can V \<union> types_from adj can W"
  by (auto simp: types_from_def)

lemma collect_loop_reaches:
  assumes "set queue \<subseteq> set visited" and "set visited \<subseteq> (go_rel adj can stop)\<^sup>* `` {s}" and "s \<in> set visited"
    and "\<forall>a \<in> set visited - set queue. go_rel adj can stop `` {a} \<subseteq> set visited"
    and "types_from adj can (set visited - set queue) \<subseteq> set collected" and "set collected \<subseteq> types_from adj can (set visited)"
  shows "set (types_loop adj can stop collected visited queue) = types_from adj can ((go_rel adj can stop)\<^sup>* `` {s})"
  using assms
proof (induction adj can stop collected visited queue rule: types_loop.induct)
  case (1 adj can stop collected visited)
  have "x \<in> set visited" if "(s, x) \<in> (go_rel adj can stop)\<^sup>*" for x
    using that by (induction rule: rtrancl_induct) (use 1(3, 4) in auto)
  with 1(2) have "set visited = (go_rel adj can stop)\<^sup>* `` {s}" by auto
  with 1(5, 6) show ?case by simp
next
  case (2 adj can stop collected visited cur queue)
  let ?R = "go_rel adj can stop"
  obtain collected' new where st:
    "fold (collect_edge can stop) (adj_at adj cur) (collected, visited, queue) = (collected', visited @ new, queue @ new)"
    "set collected' = set collected \<union> types_from adj can {cur}" "set new = ?R `` {cur} - set visited"
    by (rule collect_step)
  have cur: "cur \<in> set visited" "set queue \<subseteq> set visited" using "2.prems"(1) by auto
  have "set new \<subseteq> ?R\<^sup>* `` {s}" using st(3) cur(1) "2.prems"(2) by (auto intro: rtrancl_into_rtrancl)
  moreover have "\<forall>a \<in> set (visited @ new) - set (queue @ new). ?R `` {a} \<subseteq> set (visited @ new)"
    using "2.prems"(4) st(3) by auto
  moreover have "types_from adj can (set (visited @ new) - set (queue @ new)) \<subseteq> set collected'"
  proof -
    have "set (visited @ new) - set (queue @ new) \<subseteq> (set visited - set (cur # queue)) \<union> {cur}" by auto
    from types_from_mono [OF this, of adj can] st(2) "2.prems"(5) show ?thesis unfolding types_from_Un by blast
  qed
  moreover have "set collected' \<subseteq> types_from adj can (set (visited @ new))"
  proof -
    have "types_from adj can (set visited) \<subseteq> types_from adj can (set (visited @ new))"
      "types_from adj can {cur} \<subseteq> types_from adj can (set (visited @ new))"
      using cur(1) by (auto intro!: types_from_mono)
    with st(2) "2.prems"(6) show ?thesis by blast
  qed
  ultimately have "set (types_loop adj can stop collected' (visited @ new) (queue @ new)) = types_from adj can (?R\<^sup>* `` {s})"
    using cur "2.prems"(2, 3) by (intro "2.IH" [OF st(1) [symmetric] refl]) auto
  then show ?case by (simp add: st(1))
qed

lemma types_loop_eq:
  "set (types_loop adj can stop [] [s] [s]) = types_from adj can ((go_rel adj can stop)\<^sup>* `` {s})"
  by (rule collect_loop_reaches) (auto simp: types_from_def)

section \<open>Shortest paths\<close>

function depth_loop :: "(string, string list) jsmap \<Rightarrow> (string \<Rightarrow> bool) \<Rightarrow> string list \<Rightarrow> (string \<times> nat) list \<Rightarrow> nat option" where
  "depth_loop adj goal visited [] = None"
| "depth_loop adj goal visited ((x, depth) # queue) =
     (if goal x then Some depth
      else (case visit_new (adj_at adj x) (visited, []) of
              (visited', new) \<Rightarrow> depth_loop adj goal visited' (queue @ map (\<lambda>y. (y, Suc depth)) new)))"
  by pat_completeness auto
termination
proof (relation "measures [\<lambda>(adj, goal, visited, queue). unseen (adj_universe (\<lambda>x. x) adj) visited,
    \<lambda>(adj, goal, visited, queue). length queue]")
  fix adj goal visited x depth queue visited' new
  assume "\<not> goal x" and "(visited', new) = visit_new (adj_at adj x) (visited, [])"
  then have "visit_new (adj_at adj x) (visited, []) = (visited', new)" by simp
  moreover have "set (adj_at adj x) \<subseteq> adj_universe (\<lambda>x. x) adj"
    using adj_at_universe [of "\<lambda>x. x" adj x] by simp
  ultimately have "unseen (adj_universe (\<lambda>x. x) adj) visited' < unseen (adj_universe (\<lambda>x. x) adj) visited
      \<or> unseen (adj_universe (\<lambda>x. x) adj) visited' = unseen (adj_universe (\<lambda>x. x) adj) visited \<and> new = []"
    by (intro search_decreases [OF finite_adj_universe])
  then show "((adj, goal, visited', queue @ map (\<lambda>y. (y, Suc depth)) new), (adj, goal, visited, (x, depth) # queue))
      \<in> measures [\<lambda>(adj, goal, visited, queue). unseen (adj_universe (\<lambda>x. x) adj) visited,
        \<lambda>(adj, goal, visited, queue). length queue]"
    by auto
qed simp

text \<open>The ids within \<open>n\<close> steps.\<close>

definition within :: "('a \<times> 'a) set \<Rightarrow> 'a \<Rightarrow> nat \<Rightarrow> 'a set" where
  "within R s n = {x. \<exists>m \<le> n. (s, x) \<in> R ^^ m}"

lemma within_0: "within R s 0 = {s}"
  by (auto simp: within_def)

lemma within_Suc: "within R s (Suc n) = within R s n \<union> R `` within R s n"
proof
  show "within R s (Suc n) \<subseteq> within R s n \<union> R `` within R s n"
  proof
    fix x assume "x \<in> within R s (Suc n)"
    then obtain m where m: "m \<le> Suc n" "(s, x) \<in> R ^^ m" by (auto simp: within_def)
    show "x \<in> within R s n \<union> R `` within R s n"
    proof (cases m)
      case (Suc k)
      with m obtain y where "(s, y) \<in> R ^^ k" "(y, x) \<in> R" by auto
      with Suc m(1) show ?thesis by (auto simp: within_def)
    qed (use m in \<open>auto simp: within_def\<close>)
  qed
next
  show "within R s n \<union> R `` within R s n \<subseteq> within R s (Suc n)"
  proof
    fix x assume "x \<in> within R s n \<union> R `` within R s n"
    then show "x \<in> within R s (Suc n)"
    proof
      assume "x \<in> within R s n"
      then show ?thesis unfolding within_def using le_SucI by blast
    next
      assume "x \<in> R `` within R s n"
      then obtain y m where "m \<le> n" "(s, y) \<in> R ^^ m" "(y, x) \<in> R" by (auto simp: within_def)
      then have "Suc m \<le> Suc n" "(s, x) \<in> R ^^ Suc m" by (auto intro: relcompI)
      then show ?thesis unfolding within_def by blast
    qed
  qed
qed

lemma within_closed: "R `` within R s n \<subseteq> within R s n \<Longrightarrow> R\<^sup>* `` {s} = within R s n"
proof
  assume closed: "R `` within R s n \<subseteq> within R s n"
  show "R\<^sup>* `` {s} \<subseteq> within R s n"
  proof
    fix x assume "x \<in> R\<^sup>* `` {s}"
    then have "(s, x) \<in> R\<^sup>*" by simp
    then show "x \<in> within R s n"
    proof (induction rule: rtrancl_induct)
      case base
      show ?case unfolding within_def by (force intro: exI [of _ 0])
    next
      case (step y z)
      with closed show ?case by auto
    qed
  qed
next
  show "within R s n \<subseteq> R\<^sup>* `` {s}" by (auto simp: within_def intro: relpow_imp_rtrancl)
qed

text \<open>The state of the search: \<open>A\<close> is what is left of level \<open>d\<close>, \<open>B\<close> the part of the next level found so far.\<close>

definition levels ::
  "(string \<times> string) set \<Rightarrow> (string \<Rightarrow> bool) \<Rightarrow> string \<Rightarrow> string list \<Rightarrow> nat \<Rightarrow> string list \<Rightarrow> string list \<Rightarrow> bool" where
  "levels R goal s visited d A B \<longleftrightarrow>
     set visited = within R s d \<union> set B \<and> set A \<subseteq> within R s d \<and> set B \<subseteq> within R s (Suc d)
     \<and> (\<forall>x \<in> within R s d - set A. R `` {x} \<subseteq> set visited \<and> \<not> goal x)
     \<and> (\<forall>m < d. \<forall>x. (s, x) \<in> R ^^ m \<longrightarrow> \<not> goal x)"

lemma levels_next:
  assumes "levels R goal s visited d [] B"
  shows "levels R goal s visited (Suc d) B []"
proof -
  have exp: "R `` within R s d \<subseteq> set visited" "\<forall>x \<in> within R s d. \<not> goal x"
    using assms by (auto simp: levels_def)
  have vis: "set visited = within R s (Suc d)"
    using assms exp(1) by (auto simp: levels_def within_Suc)
  have "\<not> goal x" if "m < Suc d" "(s, x) \<in> R ^^ m" for m x
    using exp(2) that by (auto simp: within_def less_Suc_eq_le)
  moreover have "within R s (Suc d) - set B \<subseteq> within R s d" using assms vis by (auto simp: levels_def)
  ultimately show ?thesis
    using assms vis exp by (auto simp: levels_def within_Suc)
qed

lemma levels_pop:
  assumes "levels R goal s visited d (x # A) B" and "\<not> goal x" and "set new = R `` {x} - set visited"
  shows "levels R goal s (visited @ new) d A (B @ new)"
proof -
  have "R `` {x} \<subseteq> within R s (Suc d)" using assms(1) by (auto simp: levels_def within_Suc)
  then have "set new \<subseteq> within R s (Suc d)" using assms(3) by auto
  moreover have "R `` {y} \<subseteq> set (visited @ new) \<and> \<not> goal y" if "y \<in> within R s d - set A" for y
  proof (cases "y = x")
    case True
    with assms show ?thesis by auto
  next
    case False
    with that have "y \<in> within R s d - set (x # A)" by simp
    with assms(1) have "R `` {y} \<subseteq> set visited \<and> \<not> goal y" unfolding levels_def by blast
    then show ?thesis by auto
  qed
  ultimately show ?thesis using assms(1) by (auto simp: levels_def)
qed

lemma levels_goal:
  assumes "levels R goal s visited d (x # A) B" and "goal x"
  shows "(s, x) \<in> R ^^ d"
proof -
  obtain m where m: "m \<le> d" "(s, x) \<in> R ^^ m" using assms(1) by (auto simp: levels_def within_def)
  have "\<forall>m < d. \<forall>x. (s, x) \<in> R ^^ m \<longrightarrow> \<not> goal x" using assms(1) by (simp add: levels_def)
  with m assms(2) have "\<not> m < d" by blast
  with m show ?thesis by simp
qed

definition nearest :: "(string \<times> string) set \<Rightarrow> (string \<Rightarrow> bool) \<Rightarrow> string \<Rightarrow> nat option \<Rightarrow> bool" where
  "nearest R goal s r \<longleftrightarrow>
     (case r of
        Some n \<Rightarrow> (\<exists>x. goal x \<and> (s, x) \<in> R ^^ n) \<and> (\<forall>m < n. \<forall>x. (s, x) \<in> R ^^ m \<longrightarrow> \<not> goal x)
      | None \<Rightarrow> \<forall>x. (s, x) \<in> R\<^sup>* \<longrightarrow> \<not> goal x)"

lemma depth_loop_nearest:
  assumes "levels (adj_rel adj) goal s visited d A B"
    and "queue = map (\<lambda>x. (x, d)) A @ map (\<lambda>x. (x, Suc d)) B"
  shows "nearest (adj_rel adj) goal s (depth_loop adj goal visited queue)"
  using assms
proof (induction adj goal visited queue arbitrary: d A B rule: depth_loop.induct)
  case (1 adj goal visited)
  then have lv: "levels (adj_rel adj) goal s visited (Suc d) [] []" using levels_next by fastforce
  have "adj_rel adj `` within (adj_rel adj) s (Suc d) \<subseteq> within (adj_rel adj) s (Suc d)"
    using lv by (auto simp: levels_def)
  from within_closed [OF this] have "(adj_rel adj)\<^sup>* `` {s} = within (adj_rel adj) s (Suc d)" .
  with lv show ?case by (auto simp: nearest_def levels_def)
next
  case (2 adj goal visited x depth queue)
  have "\<exists>d' A' B'. levels (adj_rel adj) goal s visited d' (x # A') B' \<and> depth = d'
      \<and> queue = map (\<lambda>x. (x, d')) A' @ map (\<lambda>x. (x, Suc d')) B'"
  proof (cases A)
    case Nil
    with "2.prems" have "levels (adj_rel adj) goal s visited (Suc d) B []" by (simp add: levels_next)
    with "2.prems"(2) Nil show ?thesis by (cases B) auto
  next
    case (Cons a A')
    with "2.prems" show ?thesis by auto
  qed
  then obtain d' A' B' where lv: "levels (adj_rel adj) goal s visited d' (x # A') B'" "depth = d'"
    "queue = map (\<lambda>x. (x, d')) A' @ map (\<lambda>x. (x, Suc d')) B'" by blast
  show ?case
  proof (cases "goal x")
    case True
    have "\<forall>m < d'. \<forall>x. (s, x) \<in> adj_rel adj ^^ m \<longrightarrow> \<not> goal x" using lv(1) by (simp add: levels_def)
    with levels_goal [OF lv(1) True] True lv(2) show ?thesis by (auto simp: nearest_def)
  next
    case False
    obtain new where new: "visit_new (adj_at adj x) (visited, []) = (visited @ new, [] @ new)"
      "set new = set (adj_at adj x) - set visited" using visit_new_eq by blast
    have "set new = adj_rel adj `` {x} - set visited" using new(2) by (auto simp: adj_rel_def)
    note next_state = levels_pop [OF lv(1) False this]
    from next_state False new(1) lv(2, 3)
    show ?thesis using "2.IH" [OF False new(1) [symmetric], of d' A' "B' @ new"] by simp
  qed
qed

lemma depth_loop_shortest: "nearest (adj_rel adj) goal s (depth_loop adj goal [s] [(s, 0)])"
  by (rule depth_loop_nearest [of _ _ _ _ 0 "[s]" "[]"]) (auto simp: levels_def within_0)

end
