(* ===== verification/Js_Number.thy ===== *)
theory Js_Number
  imports Complex_Main Prelude
begin

text \<open>
  JavaScript numbers as the calculation of shares uses them: exact fractions, the two infinities and
  NaN, with the rules of IEEE 754 for the special values. Rounding, overflow and the sign of zero are
  not modelled: a sum or quotient of finite numbers is the exact one.
\<close>

datatype jsnum = Fin rat | Pos_inf | Neg_inf | NaN

definition is_fin :: "jsnum \<Rightarrow> bool" where
  "is_fin x = (case x of Fin _ \<Rightarrow> True | _ \<Rightarrow> False)"

definition fin_val :: "jsnum \<Rightarrow> rat" where
  "fin_val x = (case x of Fin r \<Rightarrow> r | _ \<Rightarrow> 0)"

definition signed_inf :: "bool \<Rightarrow> jsnum" where
  "signed_inf positive = (if positive then Pos_inf else Neg_inf)"

instantiation jsnum :: "{zero, one, plus, uminus, minus, times, inverse, ord}"
begin

definition zero_jsnum :: jsnum where "zero_jsnum = Fin 0"

definition one_jsnum :: jsnum where "one_jsnum = Fin 1"

fun plus_jsnum :: "jsnum \<Rightarrow> jsnum \<Rightarrow> jsnum" where
  "plus_jsnum NaN y = NaN"
| "plus_jsnum x NaN = NaN"
| "plus_jsnum (Fin a) (Fin b) = Fin (a + b)"
| "plus_jsnum Pos_inf Neg_inf = NaN"
| "plus_jsnum Neg_inf Pos_inf = NaN"
| "plus_jsnum Pos_inf y = Pos_inf"
| "plus_jsnum Neg_inf y = Neg_inf"
| "plus_jsnum x Pos_inf = Pos_inf"
| "plus_jsnum x Neg_inf = Neg_inf"

fun uminus_jsnum :: "jsnum \<Rightarrow> jsnum" where
  "uminus_jsnum (Fin a) = Fin (- a)"
| "uminus_jsnum Pos_inf = Neg_inf"
| "uminus_jsnum Neg_inf = Pos_inf"
| "uminus_jsnum NaN = NaN"

definition minus_jsnum :: "jsnum \<Rightarrow> jsnum \<Rightarrow> jsnum" where
  "minus_jsnum x y = x + (- y)"

fun times_jsnum :: "jsnum \<Rightarrow> jsnum \<Rightarrow> jsnum" where
  "times_jsnum NaN y = NaN"
| "times_jsnum x NaN = NaN"
| "times_jsnum (Fin a) (Fin b) = Fin (a * b)"
| "times_jsnum (Fin a) y = (if a = 0 then NaN else signed_inf ((0 < a) = (y = Pos_inf)))"
| "times_jsnum x (Fin b) = (if b = 0 then NaN else signed_inf ((0 < b) = (x = Pos_inf)))"
| "times_jsnum x y = signed_inf (x = y)"

fun divide_jsnum :: "jsnum \<Rightarrow> jsnum \<Rightarrow> jsnum" where
  "divide_jsnum NaN y = NaN"
| "divide_jsnum x NaN = NaN"
| "divide_jsnum (Fin a) (Fin b) =
     (if b \<noteq> 0 then Fin (a / b) else if a = 0 then NaN else signed_inf (0 < a))"
| "divide_jsnum (Fin a) y = Fin 0"
| "divide_jsnum x (Fin b) = signed_inf ((0 \<le> b) = (x = Pos_inf))"
| "divide_jsnum x y = NaN"

definition inverse_jsnum :: "jsnum \<Rightarrow> jsnum" where
  "inverse_jsnum x = Fin 1 div x"

fun less_jsnum :: "jsnum \<Rightarrow> jsnum \<Rightarrow> bool" where
  "less_jsnum (Fin a) (Fin b) \<longleftrightarrow> a < b"
| "less_jsnum (Fin a) y \<longleftrightarrow> y = Pos_inf"
| "less_jsnum Neg_inf y \<longleftrightarrow> y \<noteq> Neg_inf \<and> y \<noteq> NaN"
| "less_jsnum x y \<longleftrightarrow> False"

definition less_eq_jsnum :: "jsnum \<Rightarrow> jsnum \<Rightarrow> bool" where
  "less_eq_jsnum x y \<longleftrightarrow> x < y \<or> x = y \<and> x \<noteq> NaN"

instance ..

end

definition js_max :: "jsnum \<Rightarrow> jsnum \<Rightarrow> jsnum" where
  "js_max x y = (if x = NaN \<or> y = NaN then NaN else if x < y then y else x)"

definition js_min :: "jsnum \<Rightarrow> jsnum \<Rightarrow> jsnum" where
  "js_min x y = (if x = NaN \<or> y = NaN then NaN else if y < x then y else x)"

text \<open>A loop that adds up values, in their order.\<close>

definition js_sum :: "jsnum list \<Rightarrow> jsnum" where
  "js_sum xs = foldl (+) 0 xs"

section \<open>Finite numbers\<close>

lemma is_fin_simps [simp]: "is_fin (Fin r)" "\<not> is_fin Pos_inf" "\<not> is_fin Neg_inf" "\<not> is_fin NaN"
  by (simp_all add: is_fin_def)

lemma fin_val_Fin [simp]: "fin_val (Fin r) = r"
  by (simp add: fin_val_def)

lemma is_fin_iff: "is_fin x \<longleftrightarrow> x = Fin (fin_val x)"
  by (cases x) simp_all

lemma jsnum_consts [simp]: "is_fin 0" "is_fin 1" "fin_val 0 = 0" "fin_val 1 = 1"
  by (simp_all add: zero_jsnum_def one_jsnum_def)

lemma is_fin_plus [simp]: "is_fin (x + y) \<longleftrightarrow> is_fin x \<and> is_fin y"
  by (cases x; cases y) simp_all

lemma fin_val_plus: "is_fin x \<Longrightarrow> is_fin y \<Longrightarrow> fin_val (x + y) = fin_val x + fin_val y"
  by (cases x; cases y) simp_all

lemma Fin_plus_foldl: "is_fin (foldl (+) a xs) \<longleftrightarrow> is_fin a \<and> list_all is_fin xs"
  by (induction xs arbitrary: a) auto

lemma is_fin_js_sum: "is_fin (js_sum xs) \<longleftrightarrow> list_all is_fin xs"
  by (simp add: js_sum_def Fin_plus_foldl)

lemma fin_val_foldl:
  "is_fin a \<Longrightarrow> list_all is_fin xs \<Longrightarrow> fin_val (foldl (+) a xs) = fin_val a + sum_list (map fin_val xs)"
  by (induction xs arbitrary: a) (simp_all add: fin_val_plus)

lemma fin_val_js_sum: "list_all is_fin xs \<Longrightarrow> fin_val (js_sum xs) = sum_list (map fin_val xs)"
  by (simp add: js_sum_def fin_val_foldl)

lemma js_sum_Fin: "list_all is_fin xs \<Longrightarrow> js_sum xs = Fin (sum_list (map fin_val xs))"
  using is_fin_js_sum [of xs] fin_val_js_sum [of xs] by (simp add: is_fin_iff [of "js_sum xs"])

section \<open>Numbers that are not negative\<close>

text \<open>Zero or more, or NaN: what no comparison with zero shows to be negative.\<close>

definition nonneg :: "jsnum \<Rightarrow> bool" where
  "nonneg x \<longleftrightarrow> \<not> x < 0"

lemma nonneg_simps [simp]: "nonneg (Fin r) \<longleftrightarrow> 0 \<le> r" "nonneg Pos_inf" "\<not> nonneg Neg_inf" "nonneg NaN"
  by (auto simp: nonneg_def zero_jsnum_def)

lemma nonneg_consts [simp]: "nonneg 0" "nonneg 1"
  by (simp_all add: zero_jsnum_def one_jsnum_def)

lemma nonneg_plus: "nonneg x \<Longrightarrow> nonneg y \<Longrightarrow> nonneg (x + y)"
  by (cases x; cases y) simp_all

lemma nonneg_times: "nonneg x \<Longrightarrow> nonneg y \<Longrightarrow> nonneg (x * y)"
  by (cases x; cases y) (simp_all add: signed_inf_def)

lemma nonneg_divide: "nonneg x \<Longrightarrow> nonneg y \<Longrightarrow> nonneg (x / y)"
  by (cases x; cases y) (simp_all add: signed_inf_def)

lemma nonneg_minus: "\<not> x < y \<Longrightarrow> nonneg x \<Longrightarrow> nonneg (x - y)"
  by (cases x; cases y) (simp_all add: minus_jsnum_def)

lemma nonneg_foldl: "nonneg a \<Longrightarrow> list_all nonneg xs \<Longrightarrow> nonneg (foldl (+) a xs)"
  by (induction xs arbitrary: a) (simp_all add: nonneg_plus)

lemma nonneg_js_sum: "list_all nonneg xs \<Longrightarrow> nonneg (js_sum xs)"
  by (simp add: js_sum_def nonneg_foldl)

lemma nonneg_less: "nonneg x \<Longrightarrow> x < y \<Longrightarrow> nonneg y"
  by (cases x; cases y) simp_all

lemma nonneg_min: "nonneg x \<Longrightarrow> nonneg y \<Longrightarrow> nonneg (js_min x y)"
  by (simp add: js_min_def)

lemma less_jsnum_asym: "(x :: jsnum) < y \<Longrightarrow> \<not> y < x"
  by (cases x; cases y) auto

end
