(* ===== verification/Calculation.thy ===== *)
theory Calculation
  imports Graph_Types Graph_Search Js_Number
begin

text \<open>
  The attribution calculation (\<open>packages/verify/src/calculate.ts\<close>): from a graph, a policy and the floors
  of a session policy to the shares of the creators. The policy arrives as JSON. \<open>to_num\<close> is the
  conversion of a JSON value to a number that arithmetic applies to a modifier parameter, \<open>pow2\<close> is
  \<open>Math.pow(2.0, _)\<close>; both are arguments. Numbers are exact (theory \<open>Js_Number\<close>), with NaN and the
  infinities that a division by zero or a missing parameter gives.
\<close>

section \<open>Policies\<close>

text \<open>\<open>Object.values\<close> of what passes \<open>typeof v === 'object' && v !== null\<close>.\<close>

fun object_values :: "json \<Rightarrow> json list option" where
  "object_values (JObj ms) = Some (map snd ms)"
| "object_values (JArr xs) = Some xs"
| "object_values _ = None"

fun is_nonneg_number :: "json \<Rightarrow> bool" where
  "is_nonneg_number (JNum r) \<longleftrightarrow> 0 \<le> r"
| "is_nonneg_number _ \<longleftrightarrow> False"

text \<open>A member that is a number once the policy is valid.\<close>

definition number_member :: "json option \<Rightarrow> string \<Rightarrow> jsnum option" where
  "number_member v k =
     (case v of None \<Rightarrow> None
      | Some w \<Rightarrow> (case jget w k of Some (JNum r) \<Rightarrow> Some (Fin r) | _ \<Rightarrow> None))"

definition isValidPolicy :: "json \<Rightarrow> bool" where
  "isValidPolicy policy \<longleftrightarrow>
     jget policy ''spec_version'' = Some (JStr ''atrib/1.0'')
     \<and> (case jget policy ''edge_weights'' of None \<Rightarrow> True
        | Some w \<Rightarrow> (case object_values w of None \<Rightarrow> False | Some vs \<Rightarrow> list_all is_nonneg_number vs))
     \<and> (case jget policy ''constraints'' of None \<Rightarrow> True
        | Some c \<Rightarrow>
            (case object_values c of None \<Rightarrow> False | Some vs \<Rightarrow> list_all is_nonneg_number vs)
            \<and> (case (number_member (Some c) ''minimum_share'', number_member (Some c) ''maximum_share'') of
                 (Some lo, Some hi) \<Rightarrow> \<not> hi < lo
               | _ \<Rightarrow> True))"

definition DEFAULT_POLICY :: json where
  "DEFAULT_POLICY = JObj
     [(''spec_version'', JStr ''atrib/1.0''),
      (''policy_id'', JStr ''https://atrib.dev/policies/default/v1''),
      (''role'', JStr ''default''),
      (''edge_weights'', JObj
         [(''CHAIN_PRECEDES'', JNum 1), (''SESSION_PRECEDES'', JNum 1), (''SESSION_PARALLEL'', JNum 1),
          (''CONVERGES_ON'', JNum 1), (''CROSS_SESSION'', JNum 1), (''unsigned'', JNum 0)]),
      (''modifiers'', JArr []),
      (''distribution'', JStr ''proportional''),
      (''constraints'', JObj [])]"

section \<open>Contributing nodes\<close>

definition transaction_ids :: "GraphResponse \<Rightarrow> string list" where
  "transaction_ids graph = map gn_id (filter (\<lambda>n. gn_event_type n = Transaction) (gr_nodes graph))"

definition identifyContributingNodes :: "GraphResponse \<Rightarrow> GraphNode list" where
  "identifyContributingNodes graph =
     (let txNodeIds = transaction_ids graph;
          hasEdgeToTx = map ge_source
            (filter (\<lambda>e. (ge_type e = CONVERGES_ON \<or> ge_type e = CROSS_SESSION) \<and> ge_target e \<in> set txNodeIds)
              (gr_edges graph))
      in sort_by (\<lambda>a b. cmp_string (gn_id a) (gn_id b))
           (filter (\<lambda>n. (gn_event_type n = Tool_call \<or> gn_event_type n = Gap_node) \<and> gn_id n \<in> set hasEdgeToTx)
             (gr_nodes graph)))"

section \<open>Raw scores\<close>

definition empty_adj :: "GraphResponse \<Rightarrow> (string, 'a list) jsmap" where
  "empty_adj graph = fold (\<lambda>n m. AList.update (gn_id n) [] m) (gr_nodes graph) []"

definition typed_adjacency :: "GraphResponse \<Rightarrow> (string, (edge_type \<times> string) list) jsmap" where
  "typed_adjacency graph =
     fold (\<lambda>e adj. let adj' = push_at (ge_source e) (ge_type e, ge_target e) adj
                    in if ge_directed e then adj' else push_at (ge_target e) (ge_type e, ge_source e) adj')
       (gr_edges graph) (empty_adj graph)"

definition reverse_adjacency :: "GraphResponse \<Rightarrow> (string, string list) jsmap" where
  "reverse_adjacency graph =
     fold (\<lambda>e adj. let adj' = push_at (ge_target e) (ge_source e) adj
                    in if ge_directed e then adj' else push_at (ge_source e) (ge_target e) adj')
       (gr_edges graph) (empty_adj graph)"

text \<open>\<open>new Map(nodes.map(n => [n.id, n]))\<close>: the last node with an id.\<close>

definition node_map :: "GraphResponse \<Rightarrow> (string, GraphNode) jsmap" where
  "node_map graph = fold (\<lambda>n m. AList.update (gn_id n) n m) (gr_nodes graph) []"

definition collectEdgeTypesToTransaction :: "string \<Rightarrow> GraphResponse \<Rightarrow> edge_type list" where
  "collectEdgeTypesToTransaction nodeId graph =
     (let txNodeIds = fold set_add (transaction_ids graph) [];
          canReachTx = reach_loop (reverse_adjacency graph) txNodeIds txNodeIds
      in types_loop (typed_adjacency graph)
           (\<lambda>to. to \<in> set canReachTx \<and> map_of (node_map graph) to \<noteq> None)
           (\<lambda>to. case map_of (node_map graph) to of None \<Rightarrow> True | Some n \<Rightarrow> gn_event_type n = Transaction)
           [] [nodeId] [nodeId])"

definition max_safe_depth :: nat where
  "max_safe_depth = nat max_safe_integer"

definition chain_adjacency :: "GraphResponse \<Rightarrow> (string, string list) jsmap" where
  "chain_adjacency graph =
     fold (\<lambda>e adj. if ge_type e = CHAIN_PRECEDES then push_at (ge_source e) (ge_target e) adj else adj)
       (gr_edges graph) (empty_adj graph)"

definition shortestChainPath :: "string \<Rightarrow> GraphResponse \<Rightarrow> nat" where
  "shortestChainPath nodeId graph =
     (case depth_loop (chain_adjacency graph) (\<lambda>x. x \<in> set (transaction_ids graph)) [nodeId] [(nodeId, 0)] of
        None \<Rightarrow> max_safe_depth
      | Some depth \<Rightarrow> depth)"

definition countNodesWithSameContentId :: "string option \<Rightarrow> GraphResponse \<Rightarrow> nat" where
  "countNodesWithSameContentId contentId graph =
     (case contentId of
        None \<Rightarrow> 1
      | Some c \<Rightarrow> if c = [] then 1 else length (filter (\<lambda>n. gn_content_id n = Some c) (gr_nodes graph)))"

text \<open>A parameter of a modifier; one that is absent counts as NaN in arithmetic.\<close>

definition parameter :: "(json \<Rightarrow> jsnum) \<Rightarrow> json \<Rightarrow> string \<Rightarrow> jsnum" where
  "parameter to_num m k = (case jget m k of None \<Rightarrow> NaN | Some v \<Rightarrow> to_num v)"

definition applyModifier ::
  "(json \<Rightarrow> jsnum) \<Rightarrow> (jsnum \<Rightarrow> jsnum) \<Rightarrow> json \<Rightarrow> GraphNode \<Rightarrow> GraphResponse \<Rightarrow> GraphNode \<Rightarrow> jsnum \<Rightarrow> jsnum result" where
  "applyModifier to_num pow2 modifier node graph txNode score =
     (if modifier = JNull then Inl ''TypeError''
      else if jget modifier ''type'' = Some (JStr ''temporal_decay'')
      then let deltaMs = gn_timestamp txNode - gn_timestamp node
           in if deltaMs < 0 then Inr 0
              else Inr (score * pow2 (- (Fin deltaMs / parameter to_num modifier ''half_life_ms'')))
      else if jget modifier ''type'' = Some (JStr ''chain_depth_penalty'')
      then let depth = shortestChainPath (gn_id node) graph;
               factor = js_max 0 (1 - Fin (of_nat depth) * parameter to_num modifier ''penalty_per_level'')
           in Inr (score * factor)
      else if jget modifier ''type'' = Some (JStr ''call_count_boost'')
      then let count = countNodesWithSameContentId (gn_content_id node) graph;
               factor = js_min (parameter to_num modifier ''cap'')
                 (1 + Fin (of_nat count - 1) * parameter to_num modifier ''multiplier_per_call'')
           in Inr (score * factor)
      else Inr score)"

text \<open>\<open>policy.modifiers ?? []\<close> as a \<open>for ... of\<close> loop reads it; the characters of a string are unknown modifiers.\<close>

definition modifiers_of :: "json \<Rightarrow> json list result" where
  "modifiers_of policy =
     (case jget policy ''modifiers'' of
        None \<Rightarrow> Inr []
      | Some JNull \<Rightarrow> Inr []
      | Some (JArr ms) \<Rightarrow> Inr ms
      | Some (JStr s) \<Rightarrow> Inr []
      | _ \<Rightarrow> Inl ''TypeError'')"

definition weight :: "json \<Rightarrow> string \<Rightarrow> jsnum" where
  "weight policy k = (case number_member (jget policy ''edge_weights'') k of None \<Rightarrow> 0 | Some w \<Rightarrow> w)"

definition max_weight :: "json \<Rightarrow> edge_type list \<Rightarrow> jsnum" where
  "max_weight policy types =
     foldl (\<lambda>best t. let w = weight policy (edge_type_name t) in if best < w then w else best) Neg_inf types"

definition base_weight :: "json \<Rightarrow> GraphResponse \<Rightarrow> GraphNode \<Rightarrow> jsnum" where
  "base_weight policy graph node =
     (if gn_event_type node = Gap_node then weight policy ''unsigned''
      else let edgeTypes = collectEdgeTypesToTransaction (gn_id node) graph
           in if edgeTypes = [] then 0
              else let m = max_weight policy edgeTypes in if m = Neg_inf then 0 else m)"

definition rawScore ::
  "(json \<Rightarrow> jsnum) \<Rightarrow> (jsnum \<Rightarrow> jsnum) \<Rightarrow> json \<Rightarrow> GraphResponse \<Rightarrow> GraphNode \<Rightarrow> GraphNode \<Rightarrow> jsnum result" where
  "rawScore to_num pow2 policy graph txNode node =
     rbind (modifiers_of policy) (\<lambda>ms.
     rbind (fold_result (\<lambda>m score. applyModifier to_num pow2 m node graph txNode score) ms (base_weight policy graph node))
       (\<lambda>score. Inr (if score < 0 then 0 else score)))"

section \<open>Constraints\<close>

type_synonym shares = "(string, jsnum) jsmap"

definition total_of :: "shares \<Rightarrow> jsnum" where
  "total_of m = js_sum (map snd m)"

definition map_shares :: "(jsnum \<Rightarrow> jsnum) \<Rightarrow> shares \<Rightarrow> shares" where
  "map_shares f m = map (\<lambda>(k, s). (k, f s)) m"

definition applyMinimumFloor :: "shares \<Rightarrow> jsnum \<Rightarrow> shares" where
  "applyMinimumFloor normalized lo =
     (let below = filter (\<lambda>(k, s). s < lo) normalized;
          above = filter (\<lambda>(k, s). \<not> s < lo) normalized;
          boostNeeded = js_sum (map (\<lambda>(k, s). lo - s) below);
          aboveTotal = total_of above
      in if aboveTotal \<le> boostNeeded
         then map_shares (\<lambda>_. Fin 1 / Fin (of_nat (length normalized))) normalized
         else let scale = (aboveTotal - boostNeeded) / aboveTotal
              in map_shares (\<lambda>_. lo) below @ map_shares (\<lambda>s. s * scale) above)"

text \<open>One pass of \<open>applyMaximumCap\<close>; \<open>None\<close> when no share exceeds the cap.\<close>

definition cap_pass :: "jsnum \<Rightarrow> shares \<Rightarrow> shares option" where
  "cap_pass cap cur =
     (let above = filter (\<lambda>(k, s). cap < s) cur;
          below = filter (\<lambda>(k, s). \<not> cap < s) cur
      in if above = [] then None
         else let excess = js_sum (map (\<lambda>(k, s). s - cap) above);
                  belowTotal = total_of below
              in Some (map_shares (\<lambda>_. cap) above
                   @ (if 0 < belowTotal then map_shares (\<lambda>s. s * ((belowTotal + excess) / belowTotal)) below
                      else below)))"

fun cap_loop :: "nat \<Rightarrow> jsnum \<Rightarrow> shares \<Rightarrow> shares" where
  "cap_loop 0 cap cur = map_shares (\<lambda>s. js_min s cap) cur"
| "cap_loop (Suc n) cap cur = (case cap_pass cap cur of None \<Rightarrow> cur | Some result \<Rightarrow> cap_loop n cap result)"

definition applyMaximumCap :: "shares \<Rightarrow> jsnum \<Rightarrow> shares" where
  "applyMaximumCap normalized cap = cap_loop (length normalized + 1) cap normalized"

definition applyConstraints :: "shares \<Rightarrow> json option \<Rightarrow> shares" where
  "applyConstraints rawScores constraints =
     (let contributors = filter (\<lambda>(k, s). 0 < s) rawScores
      in if contributors = [] then []
         else let total = total_of contributors;
                  normalized = map_shares (\<lambda>s. s / total) contributors;
                  floored = (case number_member constraints ''minimum_share'' of None \<Rightarrow> normalized
                             | Some lo \<Rightarrow> applyMinimumFloor normalized lo)
              in (case number_member constraints ''maximum_share'' of None \<Rightarrow> floored
                  | Some hi \<Rightarrow> applyMaximumCap floored hi))"

definition finalNormalize :: "shares \<Rightarrow> shares" where
  "finalNormalize shares =
     (let total = total_of shares
      in if \<not> is_fin total \<or> total \<le> 0 then []
         else map_shares (\<lambda>s. let normalized = s / total in if is_fin normalized then normalized else 0) shares)"

section \<open>Creators\<close>

definition unsigned_creator :: string where
  "unsigned_creator = ''__unsigned__''"

definition aggregateByCreator :: "shares \<Rightarrow> GraphResponse \<Rightarrow> shares" where
  "aggregateByCreator normalized graph =
     fold (\<lambda>id byCreator.
         case map_of (node_map graph) id of
           None \<Rightarrow> byCreator
         | Some node \<Rightarrow>
             let key = (case gn_creator_key node of None \<Rightarrow> unsigned_creator | Some k \<Rightarrow> k)
             in AList.update key
                  ((case map_of byCreator key of None \<Rightarrow> 0 | Some v \<Rightarrow> v) + the (map_of normalized id)) byCreator)
       (sort_by cmp_string (map fst normalized)) []"

definition applyCreatorFloors :: "shares \<Rightarrow> shares \<Rightarrow> shares" where
  "applyCreatorFloors byCreator creatorFloors =
     (if creatorFloors = [] then byCreator
      else let flooredKeys = map fst (filter (\<lambda>(k, lo). case map_of byCreator k of None \<Rightarrow> False | Some s \<Rightarrow> s < lo)
                 (sort_by (\<lambda>a b. if cmp_string (fst a) (fst b) < 0 then - 1 else 1) creatorFloors))
           in if flooredKeys = [] then byCreator
              else let boostNeeded = js_sum (map (\<lambda>k. the (map_of creatorFloors k) - the (map_of byCreator k)) flooredKeys);
                       nonFloored = filter (\<lambda>(k, v). k \<notin> set flooredKeys) byCreator;
                       nonFlooredTotal = total_of nonFloored
                   in if nonFlooredTotal \<le> boostNeeded then byCreator
                      else let scale = (nonFlooredTotal - boostNeeded) / nonFlooredTotal;
                               floored = fold (\<lambda>k m. AList.update k (the (map_of creatorFloors k)) m)
                                 (sort_by cmp_string flooredKeys) byCreator
                           in fold (\<lambda>(k, v) m. AList.update k (v * scale) m)
                                (sort_by (\<lambda>a b. if cmp_string (fst a) (fst b) < 0 then - 1 else 1) nonFloored) floored)"

definition distributionFromMap :: "shares \<Rightarrow> shares" where
  "distributionFromMap m = map (\<lambda>k. (k, the (map_of m k))) (sort_by cmp_string (map fst m))"

section \<open>The calculation\<close>

definition raw_scores ::
  "(json \<Rightarrow> jsnum) \<Rightarrow> (jsnum \<Rightarrow> jsnum) \<Rightarrow> json \<Rightarrow> GraphResponse \<Rightarrow> GraphNode \<Rightarrow> GraphNode list \<Rightarrow> shares result" where
  "raw_scores to_num pow2 policy graph txNode contributing =
     fold_result (\<lambda>node m. rbind (rawScore to_num pow2 policy graph txNode node) (\<lambda>s. Inr (AList.update (gn_id node) s m)))
       contributing []"

definition valid_policy :: "json \<Rightarrow> json" where
  "valid_policy policy = (if isValidPolicy policy then policy else DEFAULT_POLICY)"

definition calculate ::
  "(json \<Rightarrow> jsnum) \<Rightarrow> (jsnum \<Rightarrow> jsnum) \<Rightarrow> GraphResponse \<Rightarrow> json \<Rightarrow> shares option \<Rightarrow> shares result" where
  "calculate to_num pow2 graph policy minimum_floors =
     (case find (\<lambda>n. gn_event_type n = Transaction) (gr_nodes graph) of
        None \<Rightarrow> Inr []
      | Some txNode \<Rightarrow>
          let validatedPolicy = valid_policy policy
          in rbind (raw_scores to_num pow2 validatedPolicy graph txNode (identifyContributingNodes graph)) (\<lambda>rawScores.
             let constrained = applyConstraints rawScores (jget validatedPolicy ''constraints'');
                 normalized = finalNormalize constrained;
                 byCreator = aggregateByCreator normalized graph;
                 floored = applyCreatorFloors byCreator (case minimum_floors of None \<Rightarrow> [] | Some m \<Rightarrow> m)
             in Inr (distributionFromMap (finalNormalize floored))))"

section \<open>Shares stay non-negative and sum to one\<close>

definition nonneg_shares :: "shares \<Rightarrow> bool" where
  "nonneg_shares m \<longleftrightarrow> list_all nonneg (map snd m)"

named_theorems share_intros

lemma nonneg_shares_simps [simp]:
  "nonneg_shares []" "nonneg_shares ((k, s) # m) \<longleftrightarrow> nonneg s \<and> nonneg_shares m"
  "nonneg_shares (m @ m') \<longleftrightarrow> nonneg_shares m \<and> nonneg_shares m'"
  by (simp_all add: nonneg_shares_def)

lemma nonneg_shares_iff: "nonneg_shares m \<longleftrightarrow> (\<forall>(k, s) \<in> set m. nonneg s)"
  by (auto simp: nonneg_shares_def list_all_iff)

lemma nonneg_shares_filter [share_intros]: "nonneg_shares m \<Longrightarrow> nonneg_shares (filter P m)"
  by (auto simp: nonneg_shares_iff)

lemma nonneg_map_shares [simp]: "nonneg_shares (map_shares f m) \<longleftrightarrow> (\<forall>(k, s) \<in> set m. nonneg (f s))"
  by (auto simp: nonneg_shares_iff map_shares_def)

lemma nonneg_member: "nonneg_shares m \<Longrightarrow> (k, s) \<in> set m \<Longrightarrow> nonneg s"
  by (auto simp: nonneg_shares_iff)

lemma nonneg_shares_update [share_intros]: "nonneg_shares m \<Longrightarrow> nonneg s \<Longrightarrow> nonneg_shares (AList.update k s m)"
  by (induction m) auto

lemma nonneg_total [share_intros]: "nonneg_shares m \<Longrightarrow> nonneg (total_of m)"
  by (simp add: total_of_def nonneg_shares_def nonneg_js_sum)

lemma nonneg_lookup: "nonneg_shares m \<Longrightarrow> map_of m k = Some s \<Longrightarrow> nonneg s"
  by (auto simp: nonneg_shares_iff dest: map_of_SomeD)

lemma map_fst_map_shares [simp]: "map fst (map_shares f m) = map fst m"
  by (simp add: map_shares_def case_prod_unfold)

lemma nonneg_minimum_floor:
  assumes "nonneg_shares m" and "nonneg lo"
  shows "nonneg_shares (applyMinimumFloor m lo)"
proof -
  let ?above = "filter (\<lambda>(k, s). \<not> s < lo) m"
  let ?boost = "js_sum (map (\<lambda>(k, s). lo - s) (filter (\<lambda>(k, s). s < lo) m))"
  have above: "nonneg_shares ?above" by (rule nonneg_shares_filter [OF assms(1)])
  have scale: "nonneg ((total_of ?above - ?boost) / total_of ?above)" if "\<not> total_of ?above \<le> ?boost"
    using that above by (intro nonneg_divide nonneg_minus nonneg_total) (auto simp: less_eq_jsnum_def)
  have "nonneg (Fin 1 / Fin (of_nat (length m)))" by (rule nonneg_divide) simp_all
  then show ?thesis
    using scale assms
    by (auto simp: applyMinimumFloor_def Let_def intro!: nonneg_times dest: nonneg_member)
qed

lemma nonneg_cap_pass:
  assumes "nonneg_shares m" and "nonneg hi" and "cap_pass hi m = Some m'"
  shows "nonneg_shares m'"
proof -
  let ?above = "filter (\<lambda>(k, s). hi < s) m" and ?below = "filter (\<lambda>(k, s). \<not> hi < s) m"
  let ?excess = "js_sum (map (\<lambda>(k, s). s - hi) ?above)"
  have "list_all nonneg (map (\<lambda>(k, s). s - hi) ?above)"
    using assms(1) by (auto simp: list_all_iff intro!: nonneg_minus dest: less_jsnum_asym nonneg_member)
  then have "nonneg ?excess" by (rule nonneg_js_sum)
  moreover have "nonneg (total_of ?below)" by (intro share_intros assms)
  ultimately have scale: "nonneg ((total_of ?below + ?excess) / total_of ?below)"
    by (intro nonneg_divide nonneg_plus)
  with assms show ?thesis
    by (auto simp: cap_pass_def Let_def split: if_splits intro!: share_intros nonneg_times dest: nonneg_member)
qed

lemma nonneg_cap_loop: "nonneg_shares m \<Longrightarrow> nonneg hi \<Longrightarrow> nonneg_shares (cap_loop n hi m)"
proof (induction n arbitrary: m)
  case 0
  then show ?case by (auto intro!: nonneg_min dest: nonneg_member)
next
  case (Suc n)
  then show ?case using nonneg_cap_pass by (auto split: option.split)
qed

text \<open>The constraints of a policy that was validated.\<close>

definition constraints_ok :: "json option \<Rightarrow> bool" where
  "constraints_ok c \<longleftrightarrow> (\<forall>k s. number_member c k = Some s \<longrightarrow> nonneg s)"

lemma object_values_jget: "jget v k = Some w \<Longrightarrow> \<exists>vs. object_values v = Some vs \<and> w \<in> set vs"
  by (cases v) (force dest: map_of_SomeD)+

lemma valid_constraints: "constraints_ok (jget (valid_policy policy) ''constraints'')"
proof (cases "isValidPolicy policy")
  case True
  have "nonneg s" if s: "number_member (jget policy ''constraints'') k = Some s" for k s
  proof -
    obtain c r where c: "jget policy ''constraints'' = Some c" "jget c k = Some (JNum r)" "s = Fin r"
      using s by (auto simp: number_member_def split: option.splits json.splits)
    obtain vs where vs: "object_values c = Some vs" "JNum r \<in> set vs" using object_values_jget [OF c(2)] by blast
    then have "list_all is_nonneg_number vs" using True c(1) by (auto simp: isValidPolicy_def)
    with vs(2) c(3) show ?thesis by (auto simp: list_all_iff)
  qed
  with True show ?thesis by (simp add: constraints_ok_def valid_policy_def)
next
  case False
  have "jget DEFAULT_POLICY ''constraints'' = Some (JObj [])" by (simp add: DEFAULT_POLICY_def)
  with False show ?thesis by (simp add: constraints_ok_def valid_policy_def number_member_def)
qed

lemma nonneg_constraints:
  assumes "nonneg_shares m" and "constraints_ok c"
  shows "nonneg_shares (applyConstraints m c)"
proof -
  let ?con = "filter (\<lambda>(k, s). 0 < s) m"
  have con: "nonneg_shares ?con" by (rule nonneg_shares_filter [OF assms(1)])
  have norm: "nonneg_shares (map_shares (\<lambda>s. s / total_of ?con) ?con)"
    using con assms(1) by (auto intro!: nonneg_divide nonneg_total dest: nonneg_member)
  have lo: "number_member c ''minimum_share'' = Some lo \<Longrightarrow> nonneg lo" for lo
    using assms(2) by (auto simp: constraints_ok_def)
  have hi: "number_member c ''maximum_share'' = Some hi \<Longrightarrow> nonneg hi" for hi
    using assms(2) by (auto simp: constraints_ok_def)
  show ?thesis
    using norm nonneg_minimum_floor [OF norm] lo hi
    by (auto simp: applyConstraints_def Let_def applyMaximumCap_def simp del: cap_loop.simps
        split: option.split intro!: nonneg_cap_loop)
qed

text \<open>A distribution: empty, or finite shares from zero on that sum to one.\<close>

definition distribution_ok :: "shares \<Rightarrow> bool" where
  "distribution_ok m \<longleftrightarrow> m = [] \<or>
     (\<forall>(k, s) \<in> set m. is_fin s \<and> 0 \<le> fin_val s) \<and> sum_list (map (\<lambda>(k, s). fin_val s) m) = 1"

lemma sum_list_divide: "sum_list (map (\<lambda>x. f x / (T :: rat)) xs) = sum_list (map f xs) / T"
  by (induction xs) (simp_all add: add_divide_distrib)

lemma finalNormalize_ok:
  assumes "nonneg_shares m"
  shows "distribution_ok (finalNormalize m)"
proof (cases "is_fin (total_of m) \<and> \<not> total_of m \<le> 0")
  case True
  let ?T = "fin_val (total_of m)"
  have T: "total_of m = Fin ?T" using True is_fin_iff by blast
  have fin: "list_all is_fin (map snd m)" using True by (simp add: total_of_def is_fin_js_sum)
  have sum: "?T = sum_list (map (fin_val \<circ> snd) m)"
    using fin_val_js_sum [OF fin] by (simp add: total_of_def)
  have pos: "0 < ?T" using True T by (metis less_eq_jsnum_def less_jsnum.simps(1) not_less_iff_gr_or_eq jsnum.inject zero_jsnum_def jsnum.distinct(5))
  have val: "s / total_of m = Fin (fin_val s / ?T) \<and> nonneg s" if "(k, s) \<in> set m" for k s
  proof -
    have "is_fin s" using fin that by (auto simp: list_all_iff)
    then have "s = Fin (fin_val s)" by (simp add: is_fin_iff [symmetric])
    moreover have "nonneg s" using assms that by (auto simp: nonneg_shares_iff)
    ultimately show ?thesis using pos by (subst T) (cases s, simp_all)
  qed
  have eq: "finalNormalize m = map (\<lambda>(k, s). (k, Fin (fin_val s / ?T))) m"
    using True val by (auto simp: finalNormalize_def Let_def map_shares_def)
  have "sum_list (map (\<lambda>(k, s). fin_val s) (finalNormalize m)) = sum_list (map (\<lambda>x. fin_val (snd x) / ?T) m)"
    by (simp add: eq comp_def case_prod_unfold)
  also have "\<dots> = ?T / ?T" by (simp add: sum sum_list_divide comp_def)
  finally have "sum_list (map (\<lambda>(k, s). fin_val s) (finalNormalize m)) = 1" using pos by simp
  moreover have "0 \<le> fin_val s / ?T" if "(k, s) \<in> set m" for k s
    using val [OF that] fin pos that by (cases s) (auto simp: list_all_iff)
  then have "\<forall>(k, s) \<in> set (finalNormalize m). is_fin s \<and> 0 \<le> fin_val s" by (auto simp: eq)
  ultimately show ?thesis by (simp add: distribution_ok_def)
next
  case False
  then show ?thesis by (auto simp: finalNormalize_def Let_def distribution_ok_def)
qed

lemma nonneg_distribution: "distribution_ok m \<Longrightarrow> nonneg_shares m"
proof -
  have "nonneg s" if "is_fin s" "0 \<le> fin_val s" for s using that by (cases s) auto
  then show "distribution_ok m \<Longrightarrow> nonneg_shares m" by (auto simp: distribution_ok_def nonneg_shares_iff)
qed

lemma keys_finalNormalize: "map fst (finalNormalize m) = (if finalNormalize m = [] then [] else map fst m)"
  by (auto simp: finalNormalize_def Let_def)

lemma fold_invariant:
  "P s \<Longrightarrow> (\<And>x s. x \<in> set xs \<Longrightarrow> P s \<Longrightarrow> P (f x s)) \<Longrightarrow> P (fold f xs s)"
  by (induction xs arbitrary: s) auto

definition good_shares :: "shares \<Rightarrow> bool" where
  "good_shares m \<longleftrightarrow> nonneg_shares m \<and> distinct (map fst m)"

lemma good_shares_update [share_intros]: "good_shares m \<Longrightarrow> nonneg s \<Longrightarrow> good_shares (AList.update k s m)"
  by (simp add: good_shares_def nonneg_shares_update distinct_update)

lemma aggregate_good:
  assumes "nonneg_shares m"
  shows "good_shares (aggregateByCreator m graph)"
  unfolding aggregateByCreator_def
proof (rule fold_invariant)
  fix k byCreator assume k: "k \<in> set (sort_by cmp_string (map fst m))" and g: "good_shares byCreator"
  then obtain s where s: "map_of m k = Some s" by (metis map_of_eq_None_iff not_Some_eq set_map set_sort_by)
  have "nonneg s" using nonneg_lookup [OF assms s] .
  moreover have "nonneg v" if "map_of byCreator key = Some v" for key v
    using nonneg_lookup [OF _ that] g by (simp add: good_shares_def)
  ultimately show "good_shares (case map_of (node_map graph) k of None \<Rightarrow> byCreator
      | Some node \<Rightarrow> let key = case gn_creator_key node of None \<Rightarrow> unsigned_creator | Some k \<Rightarrow> k
          in AList.update key ((case map_of byCreator key of None \<Rightarrow> 0 | Some v \<Rightarrow> v) + the (map_of m k)) byCreator)"
    using g s by (auto simp: Let_def split: option.split intro!: share_intros nonneg_plus)
qed (simp add: good_shares_def)

lemma creator_floors_good:
  assumes g: "good_shares m" and dist: "distinct (map fst floors)"
  shows "good_shares (applyCreatorFloors m floors)"
proof -
  let ?keys = "map fst (filter (\<lambda>(k, lo). case map_of m k of None \<Rightarrow> False | Some s \<Rightarrow> s < lo)
      (sort_by (\<lambda>a b. if cmp_string (fst a) (fst b) < 0 then - 1 else 1) floors))"
  let ?boost = "js_sum (map (\<lambda>k. the (map_of floors k) - the (map_of m k)) ?keys)"
  let ?rest = "filter (\<lambda>(k, v). k \<notin> set ?keys) m"
  let ?floored = "fold (\<lambda>k m. AList.update k (the (map_of floors k)) m) (sort_by cmp_string ?keys) m"
  let ?scale = "(total_of ?rest - ?boost) / total_of ?rest"
  have nn: "nonneg_shares m" using g by (simp add: good_shares_def)
  have floored: "good_shares ?floored"
  proof (rule fold_invariant)
    fix k s assume "k \<in> set (sort_by cmp_string ?keys)" and s: "good_shares s"
    then obtain lo v where lo: "(k, lo) \<in> set floors" and v: "map_of m k = Some v" "v < lo"
      by (auto split: option.splits)
    have "nonneg lo" using nonneg_lookup [OF nn v(1)] v(2) by (rule nonneg_less)
    moreover have "map_of floors k = Some lo" using lo dist by simp
    ultimately show "good_shares (AList.update k (the (map_of floors k)) s)" using s by (simp add: good_shares_update)
  qed (rule g)
  have scaled: "good_shares (fold (\<lambda>(k, v) m. AList.update k (v * ?scale) m)
      (sort_by (\<lambda>a b. if cmp_string (fst a) (fst b) < 0 then - 1 else 1) ?rest) ?floored)" if "\<not> total_of ?rest \<le> ?boost"
  proof (rule fold_invariant)
    have "nonneg (total_of ?rest)" by (intro share_intros nn)
    with that have scale: "nonneg ?scale" by (intro nonneg_divide nonneg_minus) (auto simp: less_eq_jsnum_def)
    fix x s assume "x \<in> set (sort_by (\<lambda>a b. if cmp_string (fst a) (fst b) < 0 then - 1 else 1) ?rest)" and s: "good_shares s"
    then have "nonneg (snd x)" using nn by (auto dest: nonneg_member)
    with scale s show "good_shares ((\<lambda>(k, v) m. AList.update k (v * ?scale) m) x s)"
      by (auto simp: case_prod_unfold intro!: share_intros nonneg_times)
  qed (rule floored)
  show ?thesis using g scaled by (simp add: applyCreatorFloors_def Let_def)
qed

lemma distributionFromMap_set:
  assumes "distinct (map fst m)"
  shows "mset (distributionFromMap m) = mset m"
proof -
  have "mset (distributionFromMap m) = image_mset (\<lambda>k. (k, the (map_of m k))) (mset (map fst m))"
    by (simp add: distributionFromMap_def)
  also have "\<dots> = mset (map (\<lambda>x. (fst x, the (map_of m (fst x)))) m)" by (simp add: image_mset.compositionality comp_def)
  also have "map (\<lambda>x. (fst x, the (map_of m (fst x)))) m = m"
    using assms by (intro map_idI) auto
  finally show ?thesis .
qed

lemma distribution_ok_mset: "mset m = mset m' \<Longrightarrow> distribution_ok m \<Longrightarrow> distribution_ok m'"
proof -
  assume eq: "mset m = mset m'" and ok: "distribution_ok m"
  have "set m = set m'" "(m = []) = (m' = [])" using eq by (metis set_mset_mset, metis mset_zero_iff)
  moreover have "sum_list (map (\<lambda>(k, s). fin_val s) m) = sum_list (map (\<lambda>(k, s). fin_val s) m')"
    using eq by (metis mset_map sum_mset_sum_list)
  ultimately show ?thesis using ok by (simp add: distribution_ok_def)
qed

lemma raw_scores_good:
  assumes "raw_scores to_num pow2 policy graph txNode nodes = Inr m"
  shows "good_shares m"
  using assms unfolding raw_scores_def
proof (rule fold_result_inv)
  fix n s t assume "good_shares s" and "rbind (rawScore to_num pow2 policy graph txNode n) (\<lambda>v. Inr (AList.update (gn_id n) v s)) = Inr t"
  then obtain v where v: "rawScore to_num pow2 policy graph txNode n = Inr v" "t = AList.update (gn_id n) v s"
    by (auto simp: rbind_Inr_iff)
  have "nonneg (if score < 0 then 0 else score)" for score
    by (cases "score < 0") (simp, simp add: nonneg_def)
  with v(1) have "nonneg v" by (auto simp: rawScore_def rbind_Inr_iff)
  with v(2) \<open>good_shares s\<close> show "good_shares t" by (simp add: good_shares_update)
qed (simp add: good_shares_def)

lemma calculate_stages:
  assumes "calculate to_num pow2 graph policy floors = Inr result"
  obtains "result = []"
  | raw txNode where "find (\<lambda>n. gn_event_type n = Transaction) (gr_nodes graph) = Some txNode"
      "raw_scores to_num pow2 (valid_policy policy) graph txNode (identifyContributingNodes graph) = Inr raw"
      "result = distributionFromMap (finalNormalize (applyCreatorFloors
         (aggregateByCreator (finalNormalize (applyConstraints raw (jget (valid_policy policy) ''constraints''))) graph)
         (case floors of None \<Rightarrow> [] | Some m \<Rightarrow> m)))"
  using assms by (auto simp: calculate_def Let_def rbind_Inr_iff split: option.splits)

lemma utf16_key_inject: "utf16_key a = utf16_key b \<longleftrightarrow> a = b"
proof -
  let ?f = "\<lambda>c :: char. if of_char c \<in> {0xEE :: nat, 0xEF} then of_char c + 256 else of_char c :: nat"
  have "inj ?f"
  proof (rule injI)
    fix c d :: char assume eq: "?f c = ?f d"
    have "of_char c < (256 :: nat)" "of_char d < (256 :: nat)" using nat_of_char_less_256 [of c] nat_of_char_less_256 [of d] by auto
    with eq have "of_char c = (of_char d :: nat)" by (auto split: if_splits simp del: nat_of_char_less_256)
    then show "c = d" by simp
  qed
  have "(map ?f a = map ?f b) = (a = b)" by (rule inj_map_eq_map [OF \<open>inj ?f\<close>])
  then show ?thesis unfolding utf16_key_def .
qed

lemma sorted_cmp_string: "distinct ks \<Longrightarrow> sorted_wrt (\<lambda>a b. cmp_string a b < 0) (sort_by cmp_string ks)"
proof -
  assume dist: "distinct ks"
  have "sorted_wrt (\<lambda>a b. utf16_key a \<le> utf16_key b) (sort_by cmp_string ks)"
    by (rule sorted_sort_by) (auto simp: cmp_string_def cmp_ord_def split: if_splits)
  then have "sorted (map utf16_key (sort_by cmp_string ks))" by (simp add: sorted_wrt_map)
  moreover have "distinct (map utf16_key (sort_by cmp_string ks))"
    using dist by (simp add: distinct_map inj_on_def utf16_key_inject)
  ultimately have "sorted_wrt (<) (map utf16_key (sort_by cmp_string ks))" by (simp add: strict_sorted_iff)
  then show ?thesis unfolding sorted_wrt_map by (rule sorted_wrt_mono_rel [rotated]) (simp add: cmp_string_def cmp_ord_def)
qed


section \<open>The searches against their specification\<close>

definition node_ids :: "GraphResponse \<Rightarrow> string set" where
  "node_ids graph = gn_id ` set (gr_nodes graph)"

definition graph_closed :: "GraphResponse \<Rightarrow> bool" where
  "graph_closed graph \<longleftrightarrow> (\<forall>e \<in> set (gr_edges graph). ge_source e \<in> node_ids graph \<and> ge_target e \<in> node_ids graph)"

text \<open>One step along an edge of the given type; an undirected edge can be taken both ways.\<close>

definition hop :: "GraphResponse \<Rightarrow> string \<Rightarrow> edge_type \<Rightarrow> string \<Rightarrow> bool" where
  "hop graph a t b \<longleftrightarrow> (\<exists>e \<in> set (gr_edges graph). ge_type e = t
     \<and> (ge_source e = a \<and> ge_target e = b \<or> \<not> ge_directed e \<and> ge_target e = a \<and> ge_source e = b))"

definition hops :: "GraphResponse \<Rightarrow> (string \<times> string) set" where
  "hops graph = {(a, b). \<exists>t. hop graph a t b}"

definition transactions :: "GraphResponse \<Rightarrow> string set" where
  "transactions graph = gn_id ` {n \<in> set (gr_nodes graph). gn_event_type n = Transaction}"

lemma set_transaction_ids [simp]: "set (transaction_ids graph) = transactions graph"
  by (auto simp: transaction_ids_def transactions_def)

lemma adj_at_empty: "adj_at (fold (\<lambda>n m. AList.update (gn_id n) [] m) ns m) k = (if k \<in> gn_id ` set ns then [] else adj_at m k)"
  by (induction ns arbitrary: m) (auto simp: adj_at_def update_conv')

lemma dom_empty: "dom (map_of (fold (\<lambda>n m. AList.update (gn_id n) [] m) ns m)) = dom (map_of m) \<union> gn_id ` set ns"
  by (induction ns arbitrary: m) (auto simp: update_conv')

text \<open>An adjacency that is filled from the edges, by the pushes each of them makes.\<close>

definition pushes :: "(string \<times> 'a) list \<Rightarrow> (string, 'a list) jsmap \<Rightarrow> (string, 'a list) jsmap" where
  "pushes = fold (\<lambda>(k, v). push_at k v)"

lemma dom_pushes [simp]: "dom (map_of (pushes ps adj)) = dom (map_of adj)"
  unfolding pushes_def by (induction ps arbitrary: adj) (simp_all add: case_prod_unfold)

lemma set_adj_at_pushes:
  "set (adj_at (pushes ps adj) k) = set (adj_at adj k) \<union> (if k \<in> dom (map_of adj) then {v. (k, v) \<in> set ps} else {})"
proof (induction ps arbitrary: adj)
  case (Cons p ps)
  obtain j v where p: "p = (j, v)" by fastforce
  have "pushes (p # ps) adj = pushes ps (push_at j v adj)" by (simp add: pushes_def p)
  with Cons [of "push_at j v adj"] show ?case by (auto simp: adj_at_push_at p simp del: not_None_eq)
qed (simp add: pushes_def)

lemma fold_pushes: "fold (\<lambda>e adj. pushes (f e) adj) es adj = pushes (concat (map f es)) adj"
  unfolding pushes_def by (induction es arbitrary: adj) simp_all

definition forward_pushes :: "GraphEdge \<Rightarrow> (string \<times> edge_type \<times> string) list" where
  "forward_pushes e = (ge_source e, ge_type e, ge_target e) # (if ge_directed e then [] else [(ge_target e, ge_type e, ge_source e)])"

definition backward_pushes :: "GraphEdge \<Rightarrow> (string \<times> string) list" where
  "backward_pushes e = (ge_target e, ge_source e) # (if ge_directed e then [] else [(ge_source e, ge_target e)])"

lemma adjacency_pushes:
  "typed_adjacency graph = pushes (concat (map forward_pushes (gr_edges graph))) (empty_adj graph)"
  "reverse_adjacency graph = pushes (concat (map backward_pushes (gr_edges graph))) (empty_adj graph)"
  "chain_adjacency graph = pushes (concat (map (\<lambda>e. if ge_type e = CHAIN_PRECEDES then [(ge_source e, ge_target e)] else [])
      (gr_edges graph))) (empty_adj graph)"
  by (simp_all add: typed_adjacency_def reverse_adjacency_def chain_adjacency_def flip: fold_pushes)
    (auto simp: pushes_def forward_pushes_def backward_pushes_def Let_def intro!: fold_cong)

lemma adj_at_empty_adj [simp]: "adj_at (empty_adj graph) k = []"
  by (simp add: empty_adj_def adj_at_empty) (simp add: adj_at_def)

lemma dom_empty_adj [simp]: "dom (map_of (empty_adj graph)) = node_ids graph"
  by (simp add: empty_adj_def dom_empty node_ids_def)

lemma in_forward_pushes:
  "(a, t, b) \<in> set (concat (map forward_pushes (gr_edges graph))) \<longleftrightarrow> hop graph a t b"
  by (auto simp: forward_pushes_def hop_def split: if_splits)

lemma in_backward_pushes:
  "(b, a) \<in> set (concat (map backward_pushes (gr_edges graph))) \<longleftrightarrow> (a, b) \<in> hops graph"
  by (auto simp: backward_pushes_def hops_def hop_def split: if_splits)

lemma hop_closed: "graph_closed graph \<Longrightarrow> hop graph a t b \<Longrightarrow> a \<in> node_ids graph \<and> b \<in> node_ids graph"
  by (auto simp: graph_closed_def hop_def)

lemma typed_adjacency_hop:
  assumes "graph_closed graph"
  shows "(t, b) \<in> set (adj_at (typed_adjacency graph) a) \<longleftrightarrow> hop graph a t b"
  using hop_closed [OF assms, of a t b] in_forward_pushes [of a t b graph]
  unfolding adjacency_pushes set_adj_at_pushes by auto

lemma reverse_adjacency_hops:
  assumes "graph_closed graph"
  shows "adj_rel (reverse_adjacency graph) = (hops graph)\<inverse>"
proof -
  have "(b, a) \<in> adj_rel (reverse_adjacency graph) \<longleftrightarrow> (a, b) \<in> hops graph" for a b
    using in_backward_pushes [of b a graph] hop_closed [OF assms, of a _ b]
    unfolding adjacency_pushes adj_rel_def set_adj_at_pushes by (auto simp: hops_def)
  then show ?thesis by auto
qed

definition chain_rel :: "GraphResponse \<Rightarrow> (string \<times> string) set" where
  "chain_rel graph = {(a, b). \<exists>e \<in> set (gr_edges graph). ge_type e = CHAIN_PRECEDES \<and> ge_source e = a \<and> ge_target e = b}"

lemma chain_adjacency_rel: "graph_closed graph \<Longrightarrow> adj_rel (chain_adjacency graph) = chain_rel graph"
  unfolding adjacency_pushes adj_rel_def set_adj_at_pushes
  by (auto simp: chain_rel_def graph_closed_def split: if_splits)

definition reaches_transaction :: "GraphResponse \<Rightarrow> string \<Rightarrow> bool" where
  "reaches_transaction graph b \<longleftrightarrow> (\<exists>tx \<in> transactions graph. (b, tx) \<in> (hops graph)\<^sup>*)"

lemma set_fold_set_add: "set (fold set_add xs ys) = set xs \<union> set ys"
  by (induction xs arbitrary: ys) auto

lemma can_reach:
  assumes "graph_closed graph"
  shows "x \<in> set (reach_loop (reverse_adjacency graph) (fold set_add (transaction_ids graph) []) (fold set_add (transaction_ids graph) []))
    \<longleftrightarrow> reaches_transaction graph x"
  by (auto simp: reach_loop_eq reverse_adjacency_hops [OF assms] set_fold_set_add reaches_transaction_def rtrancl_converse)

lemma node_map_dom: "dom (map_of (node_map graph)) = node_ids graph"
proof -
  have "dom (map_of (fold (\<lambda>n m. AList.update (gn_id n) n m) ns m)) = dom (map_of m) \<union> gn_id ` set ns" for ns and m :: "(string, GraphNode) jsmap"
    by (induction ns arbitrary: m) (auto simp: update_conv')
  from this [of "gr_nodes graph" "[]"] show ?thesis by (simp add: node_map_def node_ids_def)
qed

lemma map_of_fold_update:
  "map_of (fold (\<lambda>n m. AList.update (f n) n m) ns m) k
     = (case map_of (rev (map (\<lambda>n. (f n, n)) ns)) k of Some n \<Rightarrow> Some n | None \<Rightarrow> map_of m k)"
  by (induction ns arbitrary: m) (auto simp: update_conv' map_add_def split: option.splits)

lemma node_map_eq:
  assumes "distinct (map gn_id (gr_nodes graph))" and "n \<in> set (gr_nodes graph)"
  shows "map_of (node_map graph) (gn_id n) = Some n"
proof -
  have "distinct (map fst (rev (map (\<lambda>n. (gn_id n, n)) (gr_nodes graph))))"
    using assms(1) by (simp add: rev_map [symmetric] comp_def)
  with assms(2) have "map_of (rev (map (\<lambda>n. (gn_id n, n)) (gr_nodes graph))) (gn_id n) = Some n"
    by (intro map_of_is_SomeI) auto
  then show ?thesis by (simp add: node_map_def map_of_fold_update)
qed

lemma is_transaction_node:
  assumes "distinct (map gn_id (gr_nodes graph))" and "b \<in> node_ids graph"
  shows "(case map_of (node_map graph) b of None \<Rightarrow> True | Some n \<Rightarrow> gn_event_type n = Transaction) \<longleftrightarrow> b \<in> transactions graph"
proof -
  obtain n where n: "n \<in> set (gr_nodes graph)" "b = gn_id n" using assms(2) by (auto simp: node_ids_def)
  have "gn_id m = gn_id n \<Longrightarrow> m \<in> set (gr_nodes graph) \<Longrightarrow> m = n" for m
    using assms(1) n(1) by (auto simp: distinct_map inj_on_def)
  with n node_map_eq [OF assms(1) n(1)] show ?thesis by (auto simp: transactions_def)
qed

text \<open>The walks of the specification: through nodes that are no transaction.\<close>

definition walks :: "GraphResponse \<Rightarrow> (string \<times> string) set" where
  "walks graph = {(a, b). (a, b) \<in> hops graph \<and> b \<notin> transactions graph}"

lemma reaches_back: "(a, b) \<in> (walks graph)\<^sup>* \<Longrightarrow> reaches_transaction graph b \<Longrightarrow> reaches_transaction graph a"
proof -
  assume "(a, b) \<in> (walks graph)\<^sup>*"
  then have "(a, b) \<in> (hops graph)\<^sup>*" by (rule rtrancl_mono [THEN subsetD, rotated]) (auto simp: walks_def)
  then show "reaches_transaction graph b \<Longrightarrow> reaches_transaction graph a"
    by (auto simp: reaches_transaction_def intro: rtrancl_trans)
qed

lemma edge_types_eq:
  assumes closed: "graph_closed graph" and dist: "distinct (map gn_id (gr_nodes graph))"
  shows "set (collectEdgeTypesToTransaction s graph)
    = {t. \<exists>a b. (s, a) \<in> (walks graph)\<^sup>* \<and> hop graph a t b \<and> reaches_transaction graph b}"
proof -
  let ?can = "\<lambda>to. to \<in> set (reach_loop (reverse_adjacency graph) (fold set_add (transaction_ids graph) [])
      (fold set_add (transaction_ids graph) [])) \<and> map_of (node_map graph) to \<noteq> None"
  let ?stop = "\<lambda>to. case map_of (node_map graph) to of None \<Rightarrow> True | Some n \<Rightarrow> gn_event_type n = Transaction"
  have can: "?can b \<longleftrightarrow> reaches_transaction graph b" if "b \<in> node_ids graph" for b
    using that can_reach [OF closed, of b] node_map_dom [of graph] by auto
  have typed: "(t, b) \<in> set (adj_at (typed_adjacency graph) a) \<longleftrightarrow> hop graph a t b" for a t b
    by (rule typed_adjacency_hop [OF closed])
  have go: "go_rel (typed_adjacency graph) ?can ?stop = {(a, b). (a, b) \<in> walks graph \<and> reaches_transaction graph b}" (is "?G = ?W")
  proof -
    have "(a, b) \<in> ?G \<longleftrightarrow> (a, b) \<in> ?W" for a b
    proof (cases "\<exists>t. hop graph a t b")
      case True
      then have b: "b \<in> node_ids graph" using hop_closed [OF closed] by blast
      have "b \<in> snd ` set (adj_at (typed_adjacency graph) a)" using True typed by (force simp: image_iff)
      with True show ?thesis
        using can [OF b] is_transaction_node [OF dist b] by (simp add: go_rel_def walks_def hops_def) blast
    next
      case False
      then have "b \<notin> snd ` set (adj_at (typed_adjacency graph) a)" using typed by auto
      with False show ?thesis by (simp add: go_rel_def walks_def hops_def)
    qed
    then show ?thesis by auto
  qed
  have types: "types_from (typed_adjacency graph) ?can V = {t. \<exists>a \<in> V. \<exists>b. hop graph a t b \<and> reaches_transaction graph b}" for V
    using can hop_closed [OF closed] by (fastforce simp: types_from_def typed)
  have "(s, a) \<in> ?W\<^sup>* \<longleftrightarrow> (s, a) \<in> (walks graph)\<^sup>*" if "reaches_transaction graph a" for a
  proof
    assume "(s, a) \<in> ?W\<^sup>*"
    then show "(s, a) \<in> (walks graph)\<^sup>*" by (rule rtrancl_mono [THEN subsetD, rotated]) auto
  next
    assume "(s, a) \<in> (walks graph)\<^sup>*"
    from this that show "(s, a) \<in> ?W\<^sup>*"
    proof (induction rule: rtrancl_induct)
      case (step b c)
      have "reaches_transaction graph b" using reaches_back [of b c graph] step.hyps(2) step.prems by blast
      with step show ?case by (auto intro: rtrancl_into_rtrancl)
    qed simp
  qed
  moreover have "reaches_transaction graph a" if "hop graph a t b" "reaches_transaction graph b" for a t b
    using that by (auto simp: reaches_transaction_def hops_def intro: converse_rtrancl_into_rtrancl)
  ultimately show ?thesis
    unfolding collectEdgeTypesToTransaction_def Let_def types_loop_eq go types by blast
qed

text \<open>The edge types of a node. On a graph whose edges join nodes of the graph and whose ids are distinct,
  the two searches collect for a node exactly the types of the edges on the walks that lead from it to a
  transaction without passing through another one before that edge, where only undirected edges are
  taken backwards.\<close>

theorem edge_types_are_those_of_walks:
  assumes "graph_closed graph" and "distinct (map gn_id (gr_nodes graph))"
  shows "set (collectEdgeTypesToTransaction s graph)
    = {t. \<exists>a b. (s, a) \<in> (walks graph)\<^sup>* \<and> hop graph a t b \<and> reaches_transaction graph b}"
  using assms by (rule edge_types_eq)

text \<open>Chain depth. On a closed graph the depth of a node is the length of a shortest path of chain edges
  from it to a transaction; without such a path it is \<open>Number.MAX_SAFE_INTEGER\<close>.\<close>

theorem chain_depth_is_shortest:
  assumes "graph_closed graph"
  shows "if \<exists>n tx. tx \<in> transactions graph \<and> (s, tx) \<in> chain_rel graph ^^ n
    then (\<exists>tx \<in> transactions graph. (s, tx) \<in> chain_rel graph ^^ shortestChainPath s graph)
      \<and> (\<forall>n < shortestChainPath s graph. \<forall>tx \<in> transactions graph. (s, tx) \<notin> chain_rel graph ^^ n)
    else shortestChainPath s graph = max_safe_depth"
proof -
  let ?r = "depth_loop (chain_adjacency graph) (\<lambda>x. x \<in> set (transaction_ids graph)) [s] [(s, 0)]"
  have "nearest (chain_rel graph) (\<lambda>x. x \<in> transactions graph) s ?r"
    using depth_loop_shortest [of "chain_adjacency graph" "\<lambda>x. x \<in> transactions graph" s] chain_adjacency_rel [OF assms] by simp
  then show ?thesis
    by (cases ?r) (auto simp: nearest_def shortestChainPath_def rtrancl_is_UN_relpow)
qed

end
