(* ===== verification/Shares.thy ===== *)
theory Shares
  imports Calculation
begin

text \<open>
  What the calculation (theory \<open>Calculation\<close>) gives: proportional shares without constraints, on small
  sessions, and where constraints, revocations and the order of the nodes do not do what the
  specification says.
\<close>

section \<open>A small session\<close>

definition small_node :: "string \<Rightarrow> graph_label \<Rightarrow> string option \<Rightarrow> rat \<Rightarrow> GraphNode" where
  "small_node i t k ts = \<lparr>gn_id = i, gn_event_type = t, gn_event_type_uri = None, gn_content_id = None,
     gn_creator_key = k, gn_chain_root = None, gn_context_id = ''c'', gn_timestamp = ts, gn_log_index = None,
     gn_verification_state = Signature_valid, gn_is_genesis = False, gn_reference = None\<rparr>"

definition small_edge :: "edge_type \<Rightarrow> string \<Rightarrow> string \<Rightarrow> GraphEdge" where
  "small_edge t a b = \<lparr>ge_type = t, ge_source = a, ge_target = b, ge_directed = True, ge_dangling = None\<rparr>"

definition small_graph :: GraphResponse where
  "small_graph = \<lparr>gr_context_id = ''c'', gr_node_count = 4, gr_edge_count = 4, gr_has_transaction = True,
     gr_cross_session_count = 1,
     gr_nodes = [small_node ''a'' Tool_call (Some ''A'') 10, small_node ''b'' Tool_call (Some ''B'') 20,
       small_node ''g'' Gap_node None 30, small_node ''t'' Transaction (Some ''T'') 40],
     gr_edges = [small_edge CONVERGES_ON ''a'' ''t'', small_edge CROSS_SESSION ''b'' ''t'',
       small_edge CONVERGES_ON ''g'' ''t'', small_edge CHAIN_PRECEDES ''b'' ''t'']\<rparr>"

definition small_policy :: "rat \<Rightarrow> rat \<Rightarrow> rat \<Rightarrow> (string \<times> json) list \<Rightarrow> json" where
  "small_policy x y z cs = JObj [(''spec_version'', JStr ''atrib/1.0''),
     (''edge_weights'', JObj [(''CONVERGES_ON'', JNum x), (''CROSS_SESSION'', JNum y), (''unsigned'', JNum z)]),
     (''constraints'', JObj cs)]"

definition no_num :: "json \<Rightarrow> jsnum" where "no_num v = NaN"

definition no_pow :: "jsnum \<Rightarrow> jsnum" where "no_pow x = 1"

lemma small_edge_types:
  "collectEdgeTypesToTransaction ''a'' small_graph = [CONVERGES_ON]"
  "collectEdgeTypesToTransaction ''b'' small_graph = [CROSS_SESSION, CHAIN_PRECEDES]"
  by code_simp+

lemma small_contributing: "identifyContributingNodes small_graph
    = [small_node ''a'' Tool_call (Some ''A'') 10, small_node ''b'' Tool_call (Some ''B'') 20, small_node ''g'' Gap_node None 30]"
  by code_simp

lemma small_raw:
  assumes "0 \<le> x" "0 \<le> y" "0 \<le> z"
  shows "raw_scores to_num pow2 (small_policy x y z cs) small_graph txNode (identifyContributingNodes small_graph)
    = Inr [(''a'', Fin x), (''b'', Fin y), (''g'', Fin z)]"
  using assms by (simp add: small_contributing raw_scores_def rawScore_def modifiers_of_def small_policy_def base_weight_def
      small_node_def small_edge_types max_weight_def weight_def number_member_def edge_type_name_def zero_jsnum_def Let_def rbind_def)

lemma small_calculate:
  assumes "0 \<le> x" "0 \<le> y" "0 \<le> z" and "isValidPolicy (small_policy x y z cs)"
  shows "calculate to_num pow2 small_graph (small_policy x y z cs) None
    = Inr (distributionFromMap (finalNormalize (aggregateByCreator (finalNormalize
        (applyConstraints [(''a'', Fin x), (''b'', Fin y), (''g'', Fin z)] (Some (JObj cs)))) small_graph)))"
proof -
  have "find (\<lambda>n. gn_event_type n = Transaction) (gr_nodes small_graph) = Some (small_node ''t'' Transaction (Some ''T'') 40)"
    by (simp add: small_graph_def small_node_def)
  moreover have "jget (small_policy x y z cs) ''constraints'' = Some (JObj cs)" by (simp add: small_policy_def)
  ultimately show ?thesis using assms by (simp add: calculate_def valid_policy_def small_raw applyCreatorFloors_def)
qed

named_theorems share_eval

lemmas [share_eval] = applyConstraints_def total_of_def js_sum_def zero_jsnum_def map_shares_def number_member_def
  applyMaximumCap_def cap_pass_def applyMinimumFloor_def minus_jsnum_def js_min_def less_eq_jsnum_def Let_def finalNormalize_def

lemma small_valid:
  assumes "0 \<le> x" "0 \<le> y" "0 \<le> z" and "list_all is_nonneg_number (map snd cs)" and "length cs \<le> 1"
  shows "isValidPolicy (small_policy x y z cs)"
  using assms by (cases cs) (auto simp: isValidPolicy_def small_policy_def number_member_def split: option.splits json.splits)

lemmas small_eval = aggregateByCreator_def node_map_def small_graph_def small_node_def unsigned_creator_def
  distributionFromMap_def cmp_string_def utf16_key_def cmp_ord_def share_eval

lemma small_shares:
  "calculate to_num pow2 small_graph (small_policy 6 3 1 []) None
     = Inr [(''A'', Fin (6 / 10)), (''B'', Fin (3 / 10)), (''__unsigned__'', Fin (1 / 10))]"
  by (subst small_calculate) (simp_all add: small_valid, simp add: share_eval, simp add: small_eval)

lemma small_closed: "graph_closed small_graph" "distinct (map gn_id (gr_nodes small_graph))"
  by (simp_all add: graph_closed_def node_ids_def small_graph_def small_node_def small_edge_def)


theorem edge_types_are_those_of_walks_witness:
  "{CROSS_SESSION, CHAIN_PRECEDES}
    = {t. \<exists>x y. (''b'', x) \<in> (walks small_graph)\<^sup>* \<and> hop small_graph x t y \<and> reaches_transaction small_graph y}"
  using edge_types_are_those_of_walks [OF small_closed, of "''b''"] by (simp add: small_edge_types)

lemma small_depth: "shortestChainPath ''b'' small_graph = 1"
  by code_simp

theorem chain_depth_is_shortest_witness:
  "\<exists>tx \<in> transactions small_graph. (''b'', tx) \<in> chain_rel small_graph ^^ 1"
proof -
  have "max_safe_depth \<noteq> 1" by (simp add: max_safe_depth_def max_safe_integer_def)
  then show ?thesis
    using chain_depth_is_shortest [OF small_closed(1), of "''b''"] by (simp add: small_depth split: if_splits)
qed

section \<open>Constraints\<close>

text \<open>The bounds of a policy are not bounds of the result. With \<open>maximum_share\<close> 0.4 and scores in the
  proportion 6 : 3 : 1, which the shares 0.4, 0.4 and 0.2 would satisfy, two shares exceed the cap; with
  \<open>minimum_share\<close> 0.3 and scores in the proportion 50 : 31 : 19 one share is below the floor. The policies
  are valid and nothing reports the violation.\<close>

theorem share_bounds_not_honoured:
  "isValidPolicy (small_policy 6 3 1 [(''maximum_share'', JNum (2 / 5))])
    \<and> calculate to_num pow2 small_graph (small_policy 6 3 1 [(''maximum_share'', JNum (2 / 5))]) None
        = Inr [(''A'', Fin (178 / 437)), (''B'', Fin (178 / 437)), (''__unsigned__'', Fin (81 / 437))]
    \<and> Fin (2 / 5) < Fin (178 / 437)
    \<and> isValidPolicy (small_policy 50 31 19 [(''minimum_share'', JNum (3 / 10))])
    \<and> calculate to_num pow2 small_graph (small_policy 50 31 19 [(''minimum_share'', JNum (3 / 10))]) None
        = Inr [(''A'', Fin (35 / 81)), (''B'', Fin (217 / 810)), (''__unsigned__'', Fin (3 / 10))]
    \<and> Fin (217 / 810) < Fin (3 / 10)"
proof (intro conjI)
  show "calculate to_num pow2 small_graph (small_policy 6 3 1 [(''maximum_share'', JNum (2 / 5))]) None
        = Inr [(''A'', Fin (178 / 437)), (''B'', Fin (178 / 437)), (''__unsigned__'', Fin (81 / 437))]"
    by (subst small_calculate) (simp_all add: small_valid, simp add: share_eval, simp add: small_eval)
  show "calculate to_num pow2 small_graph (small_policy 50 31 19 [(''minimum_share'', JNum (3 / 10))]) None
        = Inr [(''A'', Fin (35 / 81)), (''B'', Fin (217 / 810)), (''__unsigned__'', Fin (3 / 10))]"
    by (subst small_calculate) (simp_all add: small_valid, simp add: share_eval, simp add: small_eval)
qed (simp_all add: small_valid)

section \<open>Revocation does not change the shares\<close>

definition set_state :: "(GraphNode \<Rightarrow> verification_state) \<Rightarrow> GraphNode \<Rightarrow> GraphNode" where
  "set_state f n = n\<lparr>gn_verification_state := f n\<rparr>"

text \<open>The graph with other verification states, for instance those that \<open>applyRevocation\<close> gives.\<close>

definition with_states :: "(GraphNode \<Rightarrow> verification_state) \<Rightarrow> GraphResponse \<Rightarrow> GraphResponse" where
  "with_states f graph = graph\<lparr>gr_nodes := map (set_state f) (gr_nodes graph)\<rparr>"

lemma set_state_simps [simp]:
  "gn_id (set_state f n) = gn_id n" "gn_event_type (set_state f n) = gn_event_type n"
  "gn_content_id (set_state f n) = gn_content_id n" "gn_creator_key (set_state f n) = gn_creator_key n"
  "gn_timestamp (set_state f n) = gn_timestamp n"
  by (simp_all add: set_state_def)

lemma with_states_simps [simp]:
  "gr_nodes (with_states f graph) = map (set_state f) (gr_nodes graph)" "gr_edges (with_states f graph) = gr_edges graph"
  by (simp_all add: with_states_def)

lemma fold_map_id: "fold (\<lambda>n m. AList.update (gn_id n) v m) (map (set_state f) ns) m = fold (\<lambda>n m. AList.update (gn_id n) v m) ns m"
  by (induction ns arbitrary: m) simp_all

lemma graph_maps_states [simp]:
  "transaction_ids (with_states f graph) = transaction_ids graph"
  "typed_adjacency (with_states f graph) = typed_adjacency graph"
  "reverse_adjacency (with_states f graph) = reverse_adjacency graph"
  "chain_adjacency (with_states f graph) = chain_adjacency graph"
  by (simp_all add: transaction_ids_def typed_adjacency_def reverse_adjacency_def chain_adjacency_def empty_adj_def
      fold_map_id filter_map comp_def)

lemma count_states [simp]: "countNodesWithSameContentId c (with_states f graph) = countNodesWithSameContentId c graph"
  by (cases c) (simp_all add: countNodesWithSameContentId_def filter_map comp_def)

lemma node_map_states [simp]: "map_of (node_map (with_states f graph)) k = map_option (set_state f) (map_of (node_map graph) k)"
proof -
  have "map_of (fold (\<lambda>n m. AList.update (gn_id n) n m) (map (set_state f) ns) m') k
      = map_option (set_state f) (map_of (fold (\<lambda>n m. AList.update (gn_id n) n m) ns m) k)"
    if "\<And>k. map_of m' k = map_option (set_state f) (map_of m k)" for ns m m'
    using that
  proof (induction ns arbitrary: m m')
    case (Cons n ns)
    show ?case by (simp, rule Cons.IH) (simp add: update_conv' Cons.prems)
  qed simp
  then show ?thesis by (simp add: node_map_def)
qed

lemma searches_states [simp]:
  "collectEdgeTypesToTransaction i (with_states f graph) = collectEdgeTypesToTransaction i graph"
  "shortestChainPath i (with_states f graph) = shortestChainPath i graph"
  by (simp_all add: collectEdgeTypesToTransaction_def shortestChainPath_def Let_def option.case_eq_if option.map_sel
      del: types_loop.simps not_None_eq cong: conj_cong disj_cong if_cong)

lemma modifier_states [simp]:
  "applyModifier to_num pow2 m (set_state f n) (with_states f graph) (set_state f tx) s = applyModifier to_num pow2 m n graph tx s"
  by (simp add: applyModifier_def cong: if_cong)

lemma rawScore_states [simp]:
  "rawScore to_num pow2 policy (with_states f graph) (set_state f tx) (set_state f n) = rawScore to_num pow2 policy graph tx n"
  by (simp add: rawScore_def base_weight_def cong: if_cong)

lemma sort_by_map: "sort_by c (map h xs) = map h (sort_by (\<lambda>a b. c (h a) (h b)) xs)"
proof -
  have "insort_by c (h x) (map h ys) = map h (insort_by (\<lambda>a b. c (h a) (h b)) x ys)" for x ys by (induction ys) simp_all
  then show ?thesis by (induction xs) simp_all
qed

lemma contributing_states:
  "identifyContributingNodes (with_states f graph) = map (set_state f) (identifyContributingNodes graph)"
  by (simp add: identifyContributingNodes_def Let_def filter_map comp_def sort_by_map)

lemma fold_result_map: "fold_result f (map h xs) s = fold_result (\<lambda>x. f (h x)) xs s"
  by (induction xs arbitrary: s) (auto simp: rbind_def split: sum.splits)

lemma raw_scores_states:
  "raw_scores to_num pow2 policy (with_states f graph) (set_state f tx) (map (set_state f) ns) = raw_scores to_num pow2 policy graph tx ns"
  by (simp add: raw_scores_def fold_result_map)

lemma aggregate_states: "aggregateByCreator m (with_states f graph) = aggregateByCreator m graph"
  by (auto simp: aggregateByCreator_def intro!: fold_cong split: option.split)

text \<open>Revocation has no effect on the shares. The calculation gives the same result whatever the verification
  states of the nodes are, so a record signed after the revocation of its key, which the specification
  excludes from the calculation, contributes like any other.\<close>

theorem revocation_ignored:
  "calculate to_num pow2 (with_states f graph) policy floors = calculate to_num pow2 graph policy floors"
proof -
  have "find (\<lambda>n. gn_event_type n = Transaction) (map (set_state f) ns) = map_option (set_state f) (find (\<lambda>n. gn_event_type n = Transaction) ns)" for ns
    by (induction ns) simp_all
  then show ?thesis
    by (cases "find (\<lambda>n. gn_event_type n = Transaction) (gr_nodes graph)")
      (simp_all add: calculate_def contributing_states raw_scores_states aggregate_states)
qed

section \<open>Proportional shares\<close>

definition share_of :: "shares \<Rightarrow> string \<Rightarrow> rat" where
  "share_of m k = (case map_of m k of None \<Rightarrow> 0 | Some s \<Rightarrow> fin_val s)"

definition creator_of :: "GraphNode \<Rightarrow> string" where
  "creator_of n = (case gn_creator_key n of None \<Rightarrow> unsigned_creator | Some k \<Rightarrow> k)"

definition score_of ::
  "(json \<Rightarrow> jsnum) \<Rightarrow> (jsnum \<Rightarrow> jsnum) \<Rightarrow> json \<Rightarrow> GraphResponse \<Rightarrow> GraphNode \<Rightarrow> GraphNode \<Rightarrow> rat" where
  "score_of to_num pow2 policy graph tx n = (case rawScore to_num pow2 policy graph tx n of Inr s \<Rightarrow> fin_val s | Inl _ \<Rightarrow> 0)"

definition pairs :: "(GraphNode \<Rightarrow> rat) \<Rightarrow> GraphNode list \<Rightarrow> shares" where
  "pairs f ns = map (\<lambda>n. (gn_id n, Fin (f n))) ns"

definition fin_shares :: "shares \<Rightarrow> bool" where
  "fin_shares m \<longleftrightarrow> list_all is_fin (map snd m)"

definition sum_shares :: "shares \<Rightarrow> rat" where
  "sum_shares m = sum_list (map (\<lambda>(k, s). fin_val s) m)"

lemma fin_pairs [simp]: "fin_shares (pairs f ns)" and sum_pairs [simp]: "sum_shares (pairs f ns) = sum_list (map f ns)"
  and keys_pairs [simp]: "map fst (pairs f ns) = map gn_id ns"
  by (simp_all add: fin_shares_def pairs_def list_all_iff sum_shares_def comp_def)

lemma total_of_fin: "fin_shares m \<Longrightarrow> total_of m = Fin (sum_shares m)"
  by (simp add: fin_shares_def total_of_def js_sum_Fin sum_shares_def comp_def case_prod_unfold)

lemma finalNormalize_id:
  assumes "fin_shares m" and "sum_shares m = 1"
  shows "finalNormalize m = m"
proof -
  have "(\<lambda>(k, s). (k, let normalized = s / Fin 1 in if is_fin normalized then normalized else 0)) x = x" if "x \<in> set m" for x
    using that assms(1) by (cases x rule: prod.exhaust; cases "snd x") (auto simp: fin_shares_def list_all_iff Let_def)
  then show ?thesis
    using total_of_fin [OF assms(1)] assms(2)
    by (simp add: finalNormalize_def map_shares_def less_eq_jsnum_def zero_jsnum_def map_idI)
qed

lemma update_new: "k \<notin> fst ` set m \<Longrightarrow> AList.update k v m = m @ [(k, v)]"
  by (induction m) auto

lemma raw_scores_pairs:
  assumes "\<And>n. n \<in> set ns \<Longrightarrow> rawScore to_num pow2 policy graph tx n = Inr (Fin (f n))" and "distinct (map gn_id ns)"
  shows "raw_scores to_num pow2 policy graph tx ns = Inr (pairs f ns)"
proof -
  have "fold_result (\<lambda>node m. rbind (rawScore to_num pow2 policy graph tx node) (\<lambda>s. Inr (AList.update (gn_id node) s m))) ns m
      = Inr (m @ pairs f ns)" if "distinct (map fst m @ map gn_id ns)" for m
    using that assms
  proof (induction ns arbitrary: m)
    case (Cons n ns)
    have "AList.update (gn_id n) (Fin (f n)) m = m @ [(gn_id n, Fin (f n))]" using Cons.prems(1) by (intro update_new) auto
    moreover have "distinct (map fst (m @ [(gn_id n, Fin (f n))]) @ map gn_id ns)" using Cons.prems(1) by auto
    ultimately show ?case using Cons.IH [of "m @ [(gn_id n, Fin (f n))]"] Cons.prems by (simp add: pairs_def)
  qed (simp add: pairs_def)
  from this [of "[]"] assms(2) show ?thesis by (simp add: raw_scores_def)
qed

lemma sum_list_positive:
  assumes "\<And>n. n \<in> set ns \<Longrightarrow> (0 :: rat) \<le> f n"
  shows "sum_list (map f (filter (\<lambda>n. 0 < f n) ns)) = sum_list (map f ns)"
  using assms by (induction ns) (auto simp: order_less_le)

lemma constraints_pairs:
  assumes "\<And>n. n \<in> set ns \<Longrightarrow> 0 \<le> f n"
    and "number_member c ''minimum_share'' = None" and "number_member c ''maximum_share'' = None"
  shows "applyConstraints (pairs f ns) c = pairs (\<lambda>n. f n / sum_list (map f ns)) (filter (\<lambda>n. 0 < f n) ns)"
proof -
  let ?pos = "filter (\<lambda>n. 0 < f n) ns"
  have pos: "filter (\<lambda>(k, s). 0 < s) (pairs f ns) = pairs f ?pos"
    by (simp add: pairs_def filter_map comp_def zero_jsnum_def)
  have "total_of (pairs f ?pos) = Fin (sum_list (map f ns))"
    using sum_list_positive [OF assms(1)] by (simp add: total_of_fin)
  moreover have "sum_list (map f ns) \<noteq> 0" if ne: "?pos \<noteq> []"
  proof -
    obtain n where "n \<in> set ns" "0 < f n" using ne by (auto simp: filter_empty_conv)
    then show ?thesis using assms(1) sum_list_nonneg_eq_0_iff [of "map f ns"] by force
  qed
  ultimately show ?thesis
    using assms(2, 3) unfolding applyConstraints_def Let_def pos by (auto simp: map_shares_def pairs_def)
qed

lemma share_of_update: "share_of (AList.update k v m) j = (if j = k then fin_val v else share_of m j)"
  by (auto simp: share_of_def update_conv')

lemma sum_shares_update: "sum_shares (AList.update k v m) = sum_shares m - share_of m k + fin_val v"
  by (induction m) (auto simp: sum_shares_def share_of_def)

lemma fin_shares_update: "fin_shares m \<Longrightarrow> is_fin v \<Longrightarrow> fin_shares (AList.update k v m)"
  by (induction m) (auto simp: fin_shares_def)

lemma fin_lookup: "fin_shares m \<Longrightarrow> (case map_of m k of None \<Rightarrow> 0 | Some v \<Rightarrow> v) = Fin (share_of m k)"
  by (auto simp: fin_shares_def share_of_def list_all_iff zero_jsnum_def is_fin_iff [symmetric] split: option.split dest!: map_of_SomeD)

text \<open>One step of \<open>aggregateByCreator\<close> adds the share of a node to its creator.\<close>

lemma aggregate_fold:
  assumes "fin_shares m0" and "\<And>i. i \<in> set xs \<Longrightarrow> map_of (node_map graph) i = Some (nd i) \<and> map_of m i = Some (Fin (v i))"
  defines "step \<equiv> \<lambda>i byCreator. case map_of (node_map graph) i of None \<Rightarrow> byCreator
      | Some node \<Rightarrow> let key = (case gn_creator_key node of None \<Rightarrow> unsigned_creator | Some k \<Rightarrow> k)
          in AList.update key ((case map_of byCreator key of None \<Rightarrow> 0 | Some s \<Rightarrow> s) + the (map_of m i)) byCreator"
  shows "fin_shares (fold step xs m0) \<and> sum_shares (fold step xs m0) = sum_shares m0 + sum_list (map v xs)
    \<and> share_of (fold step xs m0) k = share_of m0 k + sum_list (map v (filter (\<lambda>i. creator_of (nd i) = k) xs))"
  using assms(1, 2)
proof (induction xs arbitrary: m0)
  case (Cons i xs)
  let ?m = "AList.update (creator_of (nd i)) (Fin (share_of m0 (creator_of (nd i)) + v i)) m0"
  have "step i m0 = ?m"
    using Cons.prems by (simp add: step_def Let_def creator_of_def [symmetric] fin_lookup)
  moreover have "fin_shares ?m" using Cons.prems(1) by (simp add: fin_shares_update)
  ultimately show ?case
    using Cons.IH [of ?m] Cons.prems(2) by (simp add: share_of_update sum_shares_update)
qed simp

lemma sum_list_sort_by: "sum_list (map v (filter P (sort_by c xs))) = (sum_list (map v (filter P xs)) :: rat)"
proof -
  have "mset (map v (filter P (sort_by c xs))) = mset (map v (filter P xs))" by simp
  then show ?thesis by (metis sum_mset_sum_list)
qed

lemma aggregate_pairs:
  assumes "distinct (map gn_id (gr_nodes graph))" and "set ns \<subseteq> set (gr_nodes graph)" and "distinct ns"
  shows "fin_shares (aggregateByCreator (pairs g ns) graph)"
    and "sum_shares (aggregateByCreator (pairs g ns) graph) = sum_list (map g ns)"
    and "share_of (aggregateByCreator (pairs g ns) graph) k = sum_list (map g (filter (\<lambda>n. creator_of n = k) ns))"
proof -
  define nd where "nd i = the (map_of (node_map graph) i)" for i
  have inj: "inj_on gn_id (set ns)" using assms(1, 2) by (auto simp: distinct_map intro: inj_on_subset)
  have nd: "nd (gn_id n) = n \<and> map_of (node_map graph) (gn_id n) = Some n" if "n \<in> set ns" for n
    using node_map_eq [OF assms(1), of n] that assms(2) by (auto simp: nd_def)
  have dist: "distinct (map fst (pairs g ns))" using assms(3) inj by (simp add: distinct_map)
  have look: "map_of (node_map graph) i = Some (nd i) \<and> map_of (pairs g ns) i = Some (Fin (g (nd i)))"
    if mem: "i \<in> set (sort_by cmp_string (map fst (pairs g ns)))" for i
  proof -
    obtain n where n: "n \<in> set ns" "i = gn_id n" using mem by auto
    then have "(i, Fin (g n)) \<in> set (pairs g ns)" by (auto simp: pairs_def)
    with dist have "map_of (pairs g ns) i = Some (Fin (g n))" by simp
    with nd [OF n(1)] n(2) show ?thesis by simp
  qed
  have by_node: "map (g \<circ> nd) (filter (\<lambda>i. P (nd i)) (map gn_id ns)) = map g (filter P ns)" for P
    using nd by (induction ns) auto
  have agg: "fin_shares (aggregateByCreator (pairs g ns) graph)
      \<and> sum_shares (aggregateByCreator (pairs g ns) graph) = 0 + sum_list (map (\<lambda>i. g (nd i)) (sort_by cmp_string (map fst (pairs g ns))))
      \<and> share_of (aggregateByCreator (pairs g ns) graph) k
          = 0 + sum_list (map (\<lambda>i. g (nd i)) (filter (\<lambda>i. creator_of (nd i) = k) (sort_by cmp_string (map fst (pairs g ns)))))"
    using aggregate_fold [of "[]" "sort_by cmp_string (map fst (pairs g ns))", OF _ look, where k = k]
    by (simp add: aggregateByCreator_def fin_shares_def [of "[]"] sum_shares_def [of "[]"] share_of_def [of "[]"])
  show "fin_shares (aggregateByCreator (pairs g ns) graph)" using agg by (simp add: fin_shares_def)
  show "sum_shares (aggregateByCreator (pairs g ns) graph) = sum_list (map g ns)"
    using agg arg_cong [OF by_node [of "\<lambda>_. True"], of sum_list] sum_list_sort_by [of "g \<circ> nd" "\<lambda>_. True" cmp_string "map gn_id ns"]
    unfolding filter_True keys_pairs by (simp add: comp_def del: map_eq_conv)
  show "share_of (aggregateByCreator (pairs g ns) graph) k = sum_list (map g (filter (\<lambda>n. creator_of n = k) ns))"
    using agg by_node [of "\<lambda>n. creator_of n = k"] sum_list_sort_by [of "g \<circ> nd" "\<lambda>i. creator_of (nd i) = k" cmp_string "map gn_id ns"]
    by (simp add: fin_shares_def share_of_def comp_def)
qed

lemma distribution_share_of:
  assumes "distinct (map fst m)"
  shows "share_of (distributionFromMap m) k = share_of m k"
proof -
  have "distinct (map fst (distributionFromMap m))" using assms by (simp add: distributionFromMap_def comp_def)
  then have "map_of (distributionFromMap m) = map_of m"
    using distributionFromMap_set [OF assms] assms by (metis map_of_inject_set set_mset_mset)
  then show ?thesis by (simp add: share_of_def)
qed

lemma contributing_subset:
  assumes "distinct (map gn_id (gr_nodes graph))"
  shows "set (identifyContributingNodes graph) \<subseteq> set (gr_nodes graph)" and "distinct (map gn_id (identifyContributingNodes graph))"
proof -
  let ?P = "\<lambda>n. (gn_event_type n = Tool_call \<or> gn_event_type n = Gap_node) \<and> gn_id n \<in> set (map ge_source
    (filter (\<lambda>e. (ge_type e = CONVERGES_ON \<or> ge_type e = CROSS_SESSION) \<and> ge_target e \<in> set (transaction_ids graph)) (gr_edges graph)))"
  have eq: "identifyContributingNodes graph = sort_by (\<lambda>a b. cmp_string (gn_id a) (gn_id b)) (filter ?P (gr_nodes graph))"
    unfolding identifyContributingNodes_def Let_def ..
  show "set (identifyContributingNodes graph) \<subseteq> set (gr_nodes graph)" unfolding eq set_sort_by by auto
  have "mset (map gn_id (identifyContributingNodes graph)) = mset (map gn_id (filter ?P (gr_nodes graph)))"
    unfolding eq mset_map mset_sort_by ..
  then show "distinct (map gn_id (identifyContributingNodes graph))"
    using distinct_map_filter [OF assms, of ?P] mset_eq_imp_distinct_iff by blast
qed

lemma nonneg_rawScore: "rawScore to_num pow2 policy graph tx n = Inr s \<Longrightarrow> nonneg s"
proof -
  have "nonneg (if score < 0 then 0 else score)" for score by (cases "score < 0") (simp, simp add: nonneg_def)
  then show "rawScore to_num pow2 policy graph tx n = Inr s \<Longrightarrow> nonneg s" by (auto simp: rawScore_def rbind_Inr_iff)
qed

lemma normalized_pairs:
  assumes "\<And>n. n \<in> set ns \<Longrightarrow> 0 \<le> f n"
    and "number_member c ''minimum_share'' = None" and "number_member c ''maximum_share'' = None"
  shows "finalNormalize (applyConstraints (pairs f ns) c) = pairs (\<lambda>n. f n / sum_list (map f ns)) (filter (\<lambda>n. 0 < f n) ns)"
proof (cases "filter (\<lambda>n. 0 < f n) ns = []")
  case True
  then show ?thesis using constraints_pairs [OF assms]
    by (simp add: pairs_def finalNormalize_def total_of_def js_sum_def less_eq_jsnum_def map_shares_def)
next
  case False
  then obtain n where n: "n \<in> set ns" "0 < f n" by (auto simp: filter_empty_conv)
  then have "sum_list (map f ns) \<noteq> 0" using assms(1) sum_list_nonneg_eq_0_iff [of "map f ns"] by force
  then have "sum_list (map (\<lambda>n. f n / sum_list (map f ns)) (filter (\<lambda>n. 0 < f n) ns)) = 1"
    using sum_list_positive [of ns f, OF assms(1)] by (simp add: sum_list_divide)
  then show ?thesis using constraints_pairs [OF assms] by (simp add: finalNormalize_id)
qed



end
