(* ===== verification/Chain_Components.thy ===== *)
theory Chain_Components
  imports Attribution_Record
begin

text \<open>
  The components of the chain (\<open>findChainRoot\<close> and \<open>unionChain\<close> of
  \<open>services/graph-node/src/graph-builder.ts\<close>): a forest of parent pointers. The walk to the root loops as
  long as the pointers lead on, so its result is an option; that it always returns is proved. What the
  graph builder relies on is the interface \<open>components\<close>.
\<close>

section \<open>The forest\<close>

type_synonym parents = "(string, string) jsmap"

partial_function (option) chain_walk :: "parents \<Rightarrow> string \<Rightarrow> string option" where
  "chain_walk m node =
     (case map_of m node of
        None \<Rightarrow> Some node
      | Some parent \<Rightarrow> if parent = node then Some node else chain_walk m parent)"

declare chain_walk.simps [code]

text \<open>The loop that compresses the path assigns \<open>walker = next\<close> before it tests \<open>next === walker\<close>, so it
  ends after its first round: only the pointer of the node itself is set.\<close>

definition findChainRoot :: "string \<Rightarrow> parents \<Rightarrow> (string \<times> parents) option" where
  "findChainRoot i m =
     (case chain_walk m i of
        None \<Rightarrow> None
      | Some r \<Rightarrow> Some (r, if i = r then m else AList.update i r m))"

definition unionChain :: "string \<Rightarrow> string \<Rightarrow> parents \<Rightarrow> parents option" where
  "unionChain a b m =
     (case findChainRoot a m of
        None \<Rightarrow> None
      | Some (rootA, m1) \<Rightarrow>
          (case findChainRoot b m1 of
             None \<Rightarrow> None
           | Some (rootB, m2) \<Rightarrow> Some (if rootA \<noteq> rootB then AList.update rootA rootB m2 else m2)))"

section \<open>The interface\<close>

text \<open>Everything that can be told apart: the nodes joined so far are linked in both directions.\<close>

definition linked :: "('a \<times> 'a) list \<Rightarrow> ('a \<times> 'a) set" where
  "linked es = (set es \<union> (set es)\<inverse>)\<^sup>*"

lemma linked_sym: "(x, y) \<in> linked es \<longleftrightarrow> (y, x) \<in> linked es"
proof -
  have "sym (set es \<union> (set es)\<inverse>)" by (auto simp: sym_def)
  then have "sym (linked es)" unfolding linked_def by (rule sym_rtrancl)
  then show ?thesis by (auto dest: symD)
qed

lemma linked_trans: "(x, y) \<in> linked es \<Longrightarrow> (y, z) \<in> linked es \<Longrightarrow> (x, z) \<in> linked es"
  unfolding linked_def by (rule rtrancl_trans)

lemma linked_Nil [simp]: "linked [] = Id"
  by (simp add: linked_def)

lemma linked_snoc:
  "(x, y) \<in> linked (es @ [(a, b)]) \<longleftrightarrow> (x, y) \<in> linked es
     \<or> (x, a) \<in> linked es \<and> (b, y) \<in> linked es \<or> (x, b) \<in> linked es \<and> (a, y) \<in> linked es"
proof -
  have "set (es @ [(a, b)]) \<union> (set (es @ [(a, b)]))\<inverse> = insert (a, b) (insert (b, a) (set es \<union> (set es)\<inverse>))" by auto
  then have "linked (es @ [(a, b)]) = (insert (a, b) (insert (b, a) (set es \<union> (set es)\<inverse>)))\<^sup>*"
    by (simp only: linked_def)
  also have "\<dots> = {(x, y). (x, y) \<in> linked es \<or> (x, b) \<in> linked es \<and> (a, y) \<in> linked es
      \<or> ((x, a) \<in> linked es \<or> (x, b) \<in> linked es \<and> (a, a) \<in> linked es)
        \<and> ((b, y) \<in> linked es \<or> (b, b) \<in> linked es \<and> (a, y) \<in> linked es)}"
    unfolding rtrancl_insert linked_def by blast
  finally show ?thesis using linked_trans [of x a es y] linked_trans [of x b es y] by (auto simp: linked_def)
qed

locale components =
  fixes ok :: "'s \<Rightarrow> bool"
    and rep :: "'s \<Rightarrow> 'a \<Rightarrow> 'a"
    and find_rep :: "'a \<Rightarrow> 's \<Rightarrow> ('a \<times> 's) option"
    and join :: "'a \<Rightarrow> 'a \<Rightarrow> 's \<Rightarrow> 's option"
  assumes find_law: "ok s \<Longrightarrow> \<exists>s'. find_rep x s = Some (rep s x, s') \<and> ok s' \<and> rep s' = rep s"
    and join_law: "ok s \<Longrightarrow> \<exists>s'. join a b s = Some s' \<and> ok s'
      \<and> rep s' = (\<lambda>x. if rep s x = rep s a then rep s b else rep s x)"
begin

definition joins :: "('a \<times> 'a) list \<Rightarrow> 's \<Rightarrow> bool" where
  "joins es s \<longleftrightarrow> ok s \<and> (\<forall>x y. rep s x = rep s y \<longleftrightarrow> (x, y) \<in> linked es)"

lemma joins_find: "joins es s \<Longrightarrow> \<exists>s'. find_rep x s = Some (rep s x, s') \<and> joins es s' \<and> rep s' = rep s"
  using find_law unfolding joins_def by metis

lemma joins_join:
  assumes "joins es s"
  shows "\<exists>s'. join a b s = Some s' \<and> joins (es @ [(a, b)]) s'"
proof -
  have s: "ok s" "\<And>x y. rep s x = rep s y \<longleftrightarrow> (x, y) \<in> linked es" using assms by (simp_all add: joins_def)
  obtain s' where s': "join a b s = Some s'" "ok s'" "rep s' = (\<lambda>x. if rep s x = rep s a then rep s b else rep s x)"
    using join_law [OF s(1)] by blast
  have "rep s' x = rep s' y \<longleftrightarrow> (x, y) \<in> linked (es @ [(a, b)])" for x y
    unfolding s'(3) linked_snoc s(2) [symmetric] by auto
  with s' show ?thesis by (simp add: joins_def)
qed

end

section \<open>The forest provides it\<close>

definition chain_forest :: "parents \<Rightarrow> bool" where
  "chain_forest m \<longleftrightarrow> (\<forall>x. chain_walk m x \<noteq> None)"

definition chain_rep :: "parents \<Rightarrow> string \<Rightarrow> string" where
  "chain_rep m x = the (chain_walk m x)"

lemma walk_at_root: "map_of m r = None \<or> map_of m r = Some r \<Longrightarrow> chain_walk m r = Some r"
  by (subst chain_walk.simps) auto

lemma walk_induct [consumes 1, case_names at_root step]:
  assumes "chain_walk m z = Some q"
    and "\<And>z. map_of m z = None \<or> map_of m z = Some z \<Longrightarrow> P z z"
    and "\<And>z y q. map_of m z = Some y \<Longrightarrow> y \<noteq> z \<Longrightarrow> chain_walk m y = Some q \<Longrightarrow> P y q \<Longrightarrow> P z q"
  shows "P z q"
proof -
  have "m' = m \<Longrightarrow> chain_walk m' z = Some q \<and> P z q" if "chain_walk m' z = Some q" for m'
    using that
  proof (induction rule: chain_walk.raw_induct)
    case (1 walk m' node q)
    show ?case
    proof (cases "map_of m' node")
      case None
      then show ?thesis using 1 assms(2) [of node] walk_at_root [of m node] by auto
    next
      case (Some y)
      show ?thesis
      proof (cases "y = node")
        case True
        then show ?thesis using 1 Some assms(2) [of node] walk_at_root [of m node] by auto
      next
        case False
        then have "walk m' y = Some q" using 1(2) Some by simp
        moreover have "chain_walk m y = Some q" using 1(3, 4) Some False by (simp add: chain_walk.simps [of m node])
        ultimately have "chain_walk m y = Some q \<and> P y q" using 1(1) [of m' y q] 1(3, 4) by simp
        then show ?thesis using assms(3) [of node y q] Some False 1(3, 4) by (simp add: chain_walk.simps [of m node])
      qed
    qed
  qed (rule that)
  with assms(1) show ?thesis by blast
qed

lemma walk_step: "map_of m x = Some y \<Longrightarrow> y \<noteq> x \<Longrightarrow> chain_walk m x = chain_walk m y"
  by (subst chain_walk.simps) simp

lemma walk_root: "chain_walk m x = Some r \<Longrightarrow> map_of m r = None \<or> map_of m r = Some r"
  by (induction rule: walk_induct) auto

text \<open>Pointing a node at its root changes no root, and pointing a root at another root joins their trees.\<close>

lemma walk_compress:
  assumes "chain_walk m x = Some r" and "x \<noteq> r" and "chain_walk m z = Some q"
  shows "chain_walk (AList.update x r m) z = Some q"
  using assms(3)
proof (induction rule: walk_induct)
  case (at_root z)
  have "z \<noteq> x" using walk_at_root [OF at_root] assms(1, 2) by auto
  with at_root show ?case by (intro walk_at_root) (simp add: update_conv')
next
  case (step z y q)
  show ?case
  proof (cases "z = x")
    case True
    then have "q = r" using step.hyps assms(1) walk_step [of m z y] by simp
    moreover have "chain_walk (AList.update x r m) r = Some r"
      using walk_root [OF assms(1)] assms(2) by (intro walk_at_root) (simp add: update_conv')
    ultimately show ?thesis using True assms(2) walk_step [of "AList.update x r m" x r] by (simp add: update_conv')
  next
    case False
    then show ?thesis using step walk_step [of "AList.update x r m" z y] by (simp add: update_conv')
  qed
qed

lemma walk_union:
  assumes "chain_walk m ra = Some ra" and "chain_walk m rb = Some rb" and "ra \<noteq> rb" and "chain_walk m z = Some q"
  shows "chain_walk (AList.update ra rb m) z = Some (if q = ra then rb else q)"
  using assms(4)
proof (induction rule: walk_induct)
  case (at_root z)
  have rb: "chain_walk (AList.update ra rb m) rb = Some rb"
    using walk_root [OF assms(2)] assms(3) by (intro walk_at_root) (simp add: update_conv')
  show ?case
  proof (cases "z = ra")
    case True
    then show ?thesis using rb assms(3) walk_step [of "AList.update ra rb m" ra rb] by (simp add: update_conv')
  next
    case False
    with at_root show ?thesis by (simp add: walk_at_root update_conv')
  qed
next
  case (step z y q)
  have "z \<noteq> ra" using walk_root [OF assms(1)] step.hyps(1, 2) by auto
  with step show ?case using walk_step [of "AList.update ra rb m" z y] by (simp add: update_conv')
qed

lemma forest_find:
  assumes "chain_forest m"
  shows "\<exists>m'. findChainRoot x m = Some (chain_rep m x, m') \<and> chain_forest m' \<and> chain_rep m' = chain_rep m"
proof -
  obtain r where r: "chain_walk m x = Some r" using assms by (auto simp: chain_forest_def)
  let ?m' = "if x = r then m else AList.update x r m"
  have "chain_walk ?m' z = chain_walk m z" for z
  proof -
    obtain q where q: "chain_walk m z = Some q" using assms by (auto simp: chain_forest_def)
    with walk_compress [OF r _ q] show ?thesis by simp
  qed
  with assms r show ?thesis by (auto simp: findChainRoot_def chain_rep_def chain_forest_def fun_eq_iff)
qed

lemma rep_root: "chain_forest m \<Longrightarrow> chain_walk m (chain_rep m x) = Some (chain_rep m x)"
  using walk_root [of m x] walk_at_root [of m] by (force simp: chain_forest_def chain_rep_def)

interpretation chain: components chain_forest chain_rep findChainRoot unionChain
proof
  show "\<exists>m'. findChainRoot x m = Some (chain_rep m x, m') \<and> chain_forest m' \<and> chain_rep m' = chain_rep m"
    if "chain_forest m" for m x by (rule forest_find [OF that])
  show "\<exists>m'. unionChain a b m = Some m' \<and> chain_forest m'
      \<and> chain_rep m' = (\<lambda>x. if chain_rep m x = chain_rep m a then chain_rep m b else chain_rep m x)"
    if ok: "chain_forest m" for m a b
  proof -
    obtain m1 where m1: "findChainRoot a m = Some (chain_rep m a, m1)" "chain_forest m1" "chain_rep m1 = chain_rep m"
      using forest_find [OF ok] by blast
    obtain m2 where m2: "findChainRoot b m1 = Some (chain_rep m b, m2)" "chain_forest m2" "chain_rep m2 = chain_rep m"
      using forest_find [OF m1(2)] m1(3) by metis
    show ?thesis
    proof (cases "chain_rep m a = chain_rep m b")
      case True
      with m1 m2 show ?thesis by (auto simp: unionChain_def fun_eq_iff)
    next
      case False
      let ?m' = "AList.update (chain_rep m a) (chain_rep m b) m2"
      have walk_m2: "chain_walk m2 z = Some (chain_rep m2 z)" for z using m2(2) by (force simp: chain_forest_def chain_rep_def)
      have walk: "chain_walk ?m' z = Some (if chain_rep m z = chain_rep m a then chain_rep m b else chain_rep m z)" for z
        using walk_union [OF _ _ False, of m2 z "chain_rep m z"] rep_root [OF m2(2), of a] rep_root [OF m2(2), of b] m2(2, 3)
          walk_m2 [of z] by (simp add: m2(3))
      then have "chain_forest ?m'" "chain_rep ?m' = (\<lambda>x. if chain_rep m x = chain_rep m a then chain_rep m b else chain_rep m x)"
        by (simp_all add: chain_forest_def chain_rep_def [of ?m'] fun_eq_iff)
      with m1 m2 False show ?thesis by (simp add: unionChain_def)
    qed
  qed
qed

end
