(* ===== verification/Graph_Builder.thy ===== *)
theory Graph_Builder
  imports Chain_Components Calculation
begin

text \<open>
  The derivation of the attribution graph (\<open>services/graph-node/src/graph-builder.ts\<close>): nodes from records and
  unsigned hops, then the nine kinds of edges in their order. Records have the type \<open>AtribRecord\<close>; a
  member that the type declares as a string and that is missing reads as the empty string here. The
  digest, canonicalisation and Ed25519 are arguments, \<open>nowMs\<close> is the time at which the signatures are
  checked. The result is \<open>Inl\<close> when canonicalisation throws and \<open>Inr None\<close> when a loop does not end,
  which is proved not to happen.
\<close>

section \<open>Records and nodes\<close>

record ReferenceTarget =
  rt_record_hash :: string
  rt_event_type :: graph_label
  rt_event_type_uri :: "string option"
  rt_creator_key :: "string option"
  rt_context_id :: string
  rt_timestamp :: rat
  rt_log_index :: "int option"

record BuildGraphOptions =
  bo_includeGapNodes :: bool
  bo_includeCrossSession :: bool
  bo_revocations :: "(string, RevocationEntry) jsmap option"
  bo_logIndexLookup :: "(string \<Rightarrow> int option) option"
  bo_compact :: bool
  bo_resolveRecord :: "(string \<Rightarrow> ReferenceTarget option) option"
  bo_resolveProvenance :: "(string \<Rightarrow> string \<Rightarrow> ReferenceTarget option) option"

record record_info =
  in_record :: js_object
  in_hash :: string
  in_nodeId :: string
  in_token16 :: string

definition member_string :: "js_object \<Rightarrow> string \<Rightarrow> string" where
  "member_string r k = (case str_of (map_of r k) of None \<Rightarrow> [] | Some s \<Rightarrow> s)"

definition timestamp_of :: "js_object \<Rightarrow> rat" where
  "timestamp_of r = (case map_of r ''timestamp'' of Some (JNum t) \<Rightarrow> t | _ \<Rightarrow> 0)"

definition info_of :: "(bytes \<Rightarrow> bytes) \<Rightarrow> (json \<Rightarrow> string option) \<Rightarrow> js_object \<Rightarrow> record_info result" where
  "info_of sha canon r =
     rbind (canonicalRecord canon r) (\<lambda>canonical.
       let digest = sha canonical; hash = hexEncode digest
       in Inr \<lparr>in_record = r, in_hash = hash, in_nodeId = sha256_prefix @ hash,
                in_token16 = base64urlEncode (take 16 digest)\<rparr>)"

definition info_order :: "record_info \<Rightarrow> record_info \<Rightarrow> int" where
  "info_order a b =
     (let ta = timestamp_of (in_record a); tb = timestamp_of (in_record b);
          key = (\<lambda>i. member_string (in_record i) ''context_id'' @ '':''
            @ (case str_of (map_of (in_record i) ''content_id'') of None \<Rightarrow> in_nodeId i | Some c \<Rightarrow> c))
      in if ta \<noteq> tb then (if ta < tb then - 1 else 1) else cmp_string (key a) (key b))"

definition record_node ::
  "(bytes \<Rightarrow> bytes) \<Rightarrow> (json \<Rightarrow> string option) \<Rightarrow> (bytes \<Rightarrow> bytes \<Rightarrow> bytes \<Rightarrow> bool) \<Rightarrow> int
   \<Rightarrow> BuildGraphOptions \<Rightarrow> record_info \<Rightarrow> GraphNode" where
  "record_node sha canon ed_verify nowMs opts i =
     (let r = in_record i;
          state = (if verifyRecord canon ed_verify nowMs r then Signature_valid else Unsigned);
          chain_root = member_string r ''chain_root''; context_id = member_string r ''context_id'';
          creator_key = member_string r ''creator_key''; event_type = member_string r ''event_type'';
          logIndex = (case bo_logIndexLookup opts of None \<Rightarrow> None | Some f \<Rightarrow> f (in_hash i))
      in \<lparr>gn_id = in_nodeId i, gn_event_type = graphLabelFromEventTypeUri event_type,
           gn_event_type_uri = Some event_type, gn_content_id = str_of (map_of r ''content_id''),
           gn_creator_key = Some creator_key, gn_chain_root = Some chain_root, gn_context_id = context_id,
           gn_timestamp = timestamp_of r, gn_log_index = logIndex,
           gn_verification_state = (case bo_revocations opts of None \<Rightarrow> state
              | Some registry \<Rightarrow> applyRevocation (Some creator_key) logIndex state registry),
           gn_is_genesis = (starts_with sha256_prefix chain_root \<and> chain_root = genesisChainRoot sha context_id),
           gn_reference = None\<rparr>)"

definition gap_id :: "(bytes \<Rightarrow> bytes) \<Rightarrow> GapNode \<Rightarrow> string" where
  "gap_id sha g = ''gap:'' @ hexEncode (sha (encode_utf8 (gp_tool_url g @ '':'' @ gp_tool_name g @ '':'' @ gp_context_id g)))"

definition gap_node :: "(bytes \<Rightarrow> bytes) \<Rightarrow> GapNode \<Rightarrow> GraphNode" where
  "gap_node sha g =
     \<lparr>gn_id = gap_id sha g, gn_event_type = Gap_node, gn_event_type_uri = None, gn_content_id = None,
      gn_creator_key = None, gn_chain_root = None, gn_context_id = gp_context_id g, gn_timestamp = gp_timestamp g,
      gn_log_index = None, gn_verification_state = Unsigned, gn_is_genesis = False, gn_reference = None\<rparr>"

definition base_nodes ::
  "(bytes \<Rightarrow> bytes) \<Rightarrow> (json \<Rightarrow> string option) \<Rightarrow> (bytes \<Rightarrow> bytes \<Rightarrow> bytes \<Rightarrow> bool) \<Rightarrow> int
   \<Rightarrow> BuildGraphOptions \<Rightarrow> record_info list \<Rightarrow> GapNode list \<Rightarrow> GraphNode list" where
  "base_nodes sha canon ed_verify nowMs opts infos gaps =
     map (record_node sha canon ed_verify nowMs opts) infos
     @ (if bo_includeGapNodes opts then map (gap_node sha) gaps else [])"

definition hash_ids :: "record_info list \<Rightarrow> (string, string) jsmap" where
  "hash_ids infos = fold (\<lambda>i. AList.update (in_hash i) (in_nodeId i)) infos []"

section \<open>Chain and session edges\<close>

definition plain_edge :: "edge_type \<Rightarrow> bool \<Rightarrow> string \<Rightarrow> string \<Rightarrow> GraphEdge" where
  "plain_edge t directed a b = \<lparr>ge_type = t, ge_source = a, ge_target = b, ge_directed = directed, ge_dangling = None\<rparr>"

text \<open>\<open>s.replace(pattern, '')\<close>: the first occurrence is removed.\<close>

fun remove_first :: "string \<Rightarrow> string \<Rightarrow> string" where
  "remove_first pat [] = []"
| "remove_first pat (c # cs) =
     (if starts_with pat (c # cs) then drop (length pat) (c # cs) else c # remove_first pat cs)"

definition pair_key :: "string \<Rightarrow> string \<Rightarrow> string" where
  "pair_key a b = a @ ''->'' @ b"

definition paired :: "string list \<Rightarrow> string \<Rightarrow> string \<Rightarrow> bool" where
  "paired ps a b \<longleftrightarrow> pair_key a b \<in> set ps \<or> pair_key b a \<in> set ps"

fun fold_option :: "('a \<Rightarrow> 's \<Rightarrow> 's option) \<Rightarrow> 'a list \<Rightarrow> 's \<Rightarrow> 's option" where
  "fold_option f [] s = Some s"
| "fold_option f (x # xs) s = (case f x s of None \<Rightarrow> None | Some s' \<Rightarrow> fold_option f xs s')"

definition chain_parent :: "(string, string) jsmap \<Rightarrow> GraphNode \<Rightarrow> string option" where
  "chain_parent hashToNodeId node =
     (if gn_is_genesis node \<or> gn_event_type node = Gap_node then None
      else case gn_chain_root node of
        None \<Rightarrow> None
      | Some c \<Rightarrow> if c = [] then None else map_of hashToNodeId (remove_first sha256_prefix c))"

type_synonym session_state = "GraphEdge list \<times> string list \<times> parents"

definition chain_step :: "bool \<Rightarrow> (string, string) jsmap \<Rightarrow> GraphNode \<Rightarrow> session_state \<Rightarrow> session_state option" where
  "chain_step compactEdges hashToNodeId node = (\<lambda>(edges, chainPrecedesPairs, chainParent).
     (case chain_parent hashToNodeId node of
        None \<Rightarrow> Some (edges, chainPrecedesPairs, chainParent)
      | Some parentId \<Rightarrow>
          let edges' = edges @ [plain_edge CHAIN_PRECEDES True parentId (gn_id node)];
              ps' = chainPrecedesPairs @ [pair_key parentId (gn_id node), pair_key (gn_id node) parentId]
          in if compactEdges
             then (case unionChain parentId (gn_id node) chainParent of
                     None \<Rightarrow> None | Some chainParent' \<Rightarrow> Some (edges', ps', chainParent'))
             else Some (edges', ps', chainParent)))"

definition group_by :: "('a \<Rightarrow> 'k) \<Rightarrow> 'a list \<Rightarrow> ('k, 'a list) jsmap" where
  "group_by f xs = fold (\<lambda>x m. AList.update (f x) ((case map_of m (f x) of None \<Rightarrow> [] | Some l \<Rightarrow> l) @ [x]) m) xs []"

text \<open>The pairs of \<open>for (i ...) for (j = i + 1 ...)\<close>.\<close>

fun index_pairs :: "'a list \<Rightarrow> ('a \<times> 'a) list" where
  "index_pairs [] = []"
| "index_pairs (x # xs) = map (Pair x) xs @ index_pairs xs"

definition precedes_step :: "string list \<Rightarrow> GraphNode \<times> GraphNode \<Rightarrow> GraphEdge list \<times> string list \<Rightarrow> GraphEdge list \<times> string list" where
  "precedes_step chainPrecedesPairs = (\<lambda>(a, b) (edges, sp).
     if paired chainPrecedesPairs (gn_id a) (gn_id b) then (edges, sp)
     else if gn_timestamp a < gn_timestamp b
     then (edges @ [plain_edge SESSION_PRECEDES True (gn_id a) (gn_id b)],
           sp @ [pair_key (gn_id a) (gn_id b), pair_key (gn_id b) (gn_id a)])
     else if gn_timestamp b < gn_timestamp a
     then (edges @ [plain_edge SESSION_PRECEDES True (gn_id b) (gn_id a)],
           sp @ [pair_key (gn_id a) (gn_id b), pair_key (gn_id b) (gn_id a)])
     else (edges, sp))"

definition parallel_step :: "string list \<Rightarrow> string list \<Rightarrow> GraphNode \<times> GraphNode \<Rightarrow> GraphEdge list \<Rightarrow> GraphEdge list" where
  "parallel_step chainPrecedesPairs sp = (\<lambda>(a, b) edges.
     if paired chainPrecedesPairs (gn_id a) (gn_id b) then edges
     else if paired sp (gn_id a) (gn_id b) then edges
     else edges @ [plain_edge SESSION_PARALLEL False (gn_id a) (gn_id b)])"

definition full_session_edges :: "string list \<Rightarrow> GraphNode list list \<Rightarrow> GraphEdge list \<Rightarrow> GraphEdge list" where
  "full_session_edges chainPrecedesPairs groups edges =
     (let (edges', sp) = fold (\<lambda>ns. fold (precedes_step chainPrecedesPairs) (index_pairs ns)) groups (edges, [])
      in fold (\<lambda>ns. fold (parallel_step chainPrecedesPairs sp) (index_pairs ns)) groups edges')"

text \<open>The order of \<open>[...contextNodes].sort(...)\<close>.\<close>

definition node_order :: "GraphNode \<Rightarrow> GraphNode \<Rightarrow> int" where
  "node_order a b =
     (if gn_timestamp a \<noteq> gn_timestamp b then (if gn_timestamp a < gn_timestamp b then - 1 else 1)
      else cmp_string (gn_id a) (gn_id b))"

text \<open>Whether two nodes have one chain root, with the two calls of \<open>findChainRoot\<close>.\<close>

definition same_component :: "string \<Rightarrow> string \<Rightarrow> parents \<Rightarrow> (bool \<times> parents) option" where
  "same_component a b m =
     (case findChainRoot a m of
        None \<Rightarrow> None
      | Some (rootA, m1) \<Rightarrow>
          (case findChainRoot b m1 of None \<Rightarrow> None | Some (rootB, m2) \<Rightarrow> Some (rootA = rootB, m2)))"

definition compact_precedes_step :: "string list \<Rightarrow> GraphNode \<times> GraphNode \<Rightarrow> session_state \<Rightarrow> session_state option" where
  "compact_precedes_step chainPrecedesPairs = (\<lambda>(a, b) (edges, sp, m).
     if gn_timestamp b \<le> gn_timestamp a then Some (edges, sp, m)
     else if paired chainPrecedesPairs (gn_id a) (gn_id b) then Some (edges, sp, m)
     else (case same_component (gn_id a) (gn_id b) m of
             None \<Rightarrow> None
           | Some (True, m') \<Rightarrow> Some (edges, sp, m')
           | Some (False, m') \<Rightarrow>
               Some (edges @ [plain_edge SESSION_PRECEDES True (gn_id a) (gn_id b)],
                     sp @ [pair_key (gn_id a) (gn_id b), pair_key (gn_id b) (gn_id a)], m')))"

definition compact_parallel_step ::
  "string list \<Rightarrow> string list \<Rightarrow> GraphNode \<times> GraphNode \<Rightarrow> GraphEdge list \<times> parents \<Rightarrow> (GraphEdge list \<times> parents) option" where
  "compact_parallel_step chainPrecedesPairs sp = (\<lambda>(a, b) (edges, m).
     if paired chainPrecedesPairs (gn_id a) (gn_id b) then Some (edges, m)
     else if paired sp (gn_id a) (gn_id b) then Some (edges, m)
     else (case same_component (gn_id a) (gn_id b) m of
             None \<Rightarrow> None
           | Some (True, m') \<Rightarrow> Some (edges, m')
           | Some (False, m') \<Rightarrow> Some (edges @ [plain_edge SESSION_PARALLEL False (gn_id a) (gn_id b)], m')))"

definition consecutive :: "'a list \<Rightarrow> ('a \<times> 'a) list" where
  "consecutive xs = zip xs (tl xs)"

definition compact_session_edges :: "string list \<Rightarrow> GraphNode list list \<Rightarrow> GraphEdge list \<Rightarrow> parents \<Rightarrow> GraphEdge list option" where
  "compact_session_edges chainPrecedesPairs groups edges chainParent =
     (case fold_option (\<lambda>ns. fold_option (compact_precedes_step chainPrecedesPairs) (consecutive (sort_by node_order ns)))
             groups (edges, [], chainParent) of
        None \<Rightarrow> None
      | Some (edges', sp, m) \<Rightarrow>
          map_option fst
            (fold_option (\<lambda>ns. fold_option (\<lambda>peers. fold_option (compact_parallel_step chainPrecedesPairs sp) (index_pairs peers))
                (map snd (group_by gn_timestamp ns))) groups (edges', m)))"

section \<open>Edges to transactions\<close>

definition is_transaction_node :: "GraphNode \<Rightarrow> bool" where
  "is_transaction_node n \<longleftrightarrow> gn_event_type n = Transaction"

definition converges_edges :: "GraphNode list \<Rightarrow> GraphEdge list" where
  "converges_edges contextNodes =
     concat (map (\<lambda>tx. map (\<lambda>n. plain_edge CONVERGES_ON True (gn_id n) (gn_id tx))
         (filter (\<lambda>n. gn_event_type n = Tool_call \<or> gn_event_type n = Gap_node) contextNodes))
       (filter is_transaction_node contextNodes))"

definition session_token :: "record_info list \<Rightarrow> string \<Rightarrow> string option" where
  "session_token infos i =
     (case map_of (rev (map (\<lambda>j. (in_nodeId j, j)) infos)) i of
        None \<Rightarrow> None
      | Some j \<Rightarrow> str_of (map_of (in_record j) ''session_token''))"

definition cross_session_edges :: "record_info list \<Rightarrow> GraphNode list \<Rightarrow> GraphEdge list" where
  "cross_session_edges infos nodes =
     concat (map (\<lambda>tx.
         (case session_token infos (gn_id tx) of
            None \<Rightarrow> []
          | Some t \<Rightarrow>
              if t = [] then []
              else map (\<lambda>n. plain_edge CROSS_SESSION True (gn_id n) (gn_id tx))
                (filter (\<lambda>n. gn_context_id n \<noteq> gn_context_id tx \<and> gn_event_type n = Tool_call
                   \<and> session_token infos (gn_id n) = Some t) nodes)))
       (filter is_transaction_node nodes))"

section \<open>Declared references\<close>

type_synonym ref_state = "GraphNode list \<times> GraphEdge list"
type_synonym classified = "reference_status \<times> ReferenceTarget option \<times> string option"

definition reference_of :: "reference_status \<Rightarrow> string option \<Rightarrow> string option \<Rightarrow> ReferenceTarget option \<Rightarrow> Reference" where
  "reference_of status hash token target =
     \<lparr>rf_status = status, rf_hash = hash, rf_token = token,
      rf_context_id = map_option rt_context_id target,
      rf_event_type = map_option rt_event_type target,
      rf_log_index = (case target of None \<Rightarrow> None | Some t \<Rightarrow> rt_log_index t)\<rparr>"

definition dangling_node ::
  "string \<Rightarrow> reference_status \<Rightarrow> string option \<Rightarrow> string option \<Rightarrow> ReferenceTarget option \<Rightarrow> GraphNode" where
  "dangling_node i status hash token target =
     \<lparr>gn_id = i, gn_event_type = Dangling_node, gn_event_type_uri = None, gn_content_id = None,
      gn_creator_key = (case target of None \<Rightarrow> None | Some t \<Rightarrow> rt_creator_key t), gn_chain_root = None,
      gn_context_id = (case target of None \<Rightarrow> [] | Some t \<Rightarrow> rt_context_id t),
      gn_timestamp = (case target of None \<Rightarrow> 0 | Some t \<Rightarrow> rt_timestamp t),
      gn_log_index = (case target of None \<Rightarrow> None | Some t \<Rightarrow> rt_log_index t),
      gn_verification_state = (case target of None \<Rightarrow> Unsigned
        | Some t \<Rightarrow> if rt_log_index t = None then Signature_valid else Log_committed),
      gn_is_genesis = False, gn_reference = Some (reference_of status hash token target)\<rparr>"

definition ensureReferenceNode ::
  "string \<Rightarrow> reference_status \<Rightarrow> string option \<Rightarrow> string option \<Rightarrow> ReferenceTarget option \<Rightarrow> GraphNode list \<Rightarrow> GraphNode list" where
  "ensureReferenceNode i status hash token target nodes =
     (if i \<in> gn_id ` set nodes then nodes else nodes @ [dangling_node i status hash token target])"

definition classifyRecordReference :: "BuildGraphOptions \<Rightarrow> string \<Rightarrow> classified" where
  "classifyRecordReference opts refHash =
     (case bo_resolveRecord opts of
        None \<Rightarrow> (Unresolved, None, None)
      | Some f \<Rightarrow>
          (case f refHash of
             Some target \<Rightarrow> (External, Some target, Some ''target_out_of_scope'')
           | None \<Rightarrow> (Missing, None, Some ''target_not_found'')))"

definition classifyProvenanceReference :: "BuildGraphOptions \<Rightarrow> string \<Rightarrow> string \<Rightarrow> classified" where
  "classifyProvenanceReference opts token16 sourceContextId =
     (case bo_resolveProvenance opts of
        None \<Rightarrow> (Unresolved, None, Some ''no_token_source_in_record_set'')
      | Some f \<Rightarrow>
          (case f token16 sourceContextId of
             Some target \<Rightarrow> (External, Some target, Some ''target_out_of_scope'')
           | None \<Rightarrow> (Missing, None, Some ''target_not_found'')))"

definition dangling_edge ::
  "edge_type \<Rightarrow> string \<Rightarrow> string \<Rightarrow> classified \<Rightarrow> string option \<Rightarrow> string option \<Rightarrow> GraphEdge" where
  "dangling_edge t a b c hash token =
     (case c of (status, target, reason) \<Rightarrow>
        \<lparr>ge_type = t, ge_source = a, ge_target = b, ge_directed = True,
         ge_dangling = Some (reference_of status hash token target, reason)\<rparr>)"

text \<open>The common part of steps 6, 8 and 9: an edge to the referenced record, or to a placeholder.\<close>

definition link_reference ::
  "BuildGraphOptions \<Rightarrow> (string, string) jsmap \<Rightarrow> edge_type \<Rightarrow> string \<Rightarrow> string \<Rightarrow> ref_state \<Rightarrow> ref_state" where
  "link_reference opts hashToNodeId t sourceId ref = (\<lambda>(nodes, edges).
     (let refHash = drop 7 ref
      in case map_of hashToNodeId refHash of
           Some targetId \<Rightarrow> (nodes, edges @ [plain_edge t True sourceId targetId])
         | None \<Rightarrow>
             let danglingId = ''dangling:'' @ ref; c = classifyRecordReference opts refHash
             in (case c of (status, target, reason) \<Rightarrow>
                   (ensureReferenceNode danglingId status (Some ref) None target nodes,
                    edges @ [dangling_edge t sourceId danglingId c (Some ref) None]))))"

definition informed_by_step ::
  "BuildGraphOptions \<Rightarrow> (string, string) jsmap \<Rightarrow> record_info \<Rightarrow> ref_state \<Rightarrow> ref_state" where
  "informed_by_step opts hashToNodeId i st =
     (case map_of (in_record i) ''informed_by'' of
        Some (JArr refs) \<Rightarrow>
          fold (\<lambda>ref st. case ref of
                  JStr s \<Rightarrow> if starts_with sha256_prefix s then link_reference opts hashToNodeId INFORMED_BY (in_nodeId i) s st else st
                | _ \<Rightarrow> st) refs st
      | _ \<Rightarrow> st)"

definition provenance_step ::
  "(bytes \<Rightarrow> bytes) \<Rightarrow> BuildGraphOptions \<Rightarrow> record_info list \<Rightarrow> record_info \<Rightarrow> ref_state \<Rightarrow> ref_state" where
  "provenance_step sha opts infos i = (\<lambda>(nodes, edges).
     (let context_id = member_string (in_record i) ''context_id''
      in case str_of (map_of (in_record i) ''provenance_token'') of
           None \<Rightarrow> (nodes, edges)
         | Some token \<Rightarrow>
             if token = [] then (nodes, edges)
             else if member_string (in_record i) ''chain_root'' \<noteq> genesisChainRoot sha context_id then (nodes, edges)
             else (case find (\<lambda>j. member_string (in_record j) ''context_id'' \<noteq> context_id \<and> in_token16 j = token) infos of
                     Some j \<Rightarrow> (nodes, edges @ [plain_edge PROVENANCE_OF True (in_nodeId i) (in_nodeId j)])
                   | None \<Rightarrow>
                       let danglingId = ''dangling:provenance:'' @ token;
                           c = classifyProvenanceReference opts token context_id
                       in (case c of (status, target, reason) \<Rightarrow>
                             (ensureReferenceNode danglingId status None (Some token) target nodes,
                              edges @ [dangling_edge PROVENANCE_OF (in_nodeId i) danglingId c None (Some token)])))))"

text \<open>Steps 8 and 9: \<open>annotates\<close> of annotations, \<open>revises\<close> of revisions.\<close>

definition declared_step ::
  "string \<Rightarrow> string \<Rightarrow> edge_type \<Rightarrow> BuildGraphOptions \<Rightarrow> (string, string) jsmap \<Rightarrow> record_info \<Rightarrow> ref_state \<Rightarrow> ref_state" where
  "declared_step uri field t opts hashToNodeId i st =
     (if member_string (in_record i) ''event_type'' \<noteq> uri then st
      else case map_of (in_record i) field of
        Some (JStr s) \<Rightarrow> if starts_with sha256_prefix s then link_reference opts hashToNodeId t (in_nodeId i) s st else st
      | _ \<Rightarrow> st)"

definition reference_steps ::
  "(bytes \<Rightarrow> bytes) \<Rightarrow> BuildGraphOptions \<Rightarrow> record_info list \<Rightarrow> ref_state \<Rightarrow> ref_state" where
  "reference_steps sha opts infos st =
     (let h = hash_ids infos
      in fold (declared_step ''https://atrib.dev/v1/types/revision'' ''revises'' REVISES opts h) infos
           (fold (declared_step ''https://atrib.dev/v1/types/annotation'' ''annotates'' ANNOTATES opts h) infos
             (fold (provenance_step sha opts infos) infos
               (fold (informed_by_step opts h) infos st))))"

section \<open>The graph\<close>

definition session_edges :: "BuildGraphOptions \<Rightarrow> record_info list \<Rightarrow> GraphNode list \<Rightarrow> GraphEdge list option" where
  "session_edges opts infos nodes =
     (case fold_option (chain_step (bo_compact opts) (hash_ids infos)) nodes ([], [], []) of
        None \<Rightarrow> None
      | Some (edges, chainPrecedesPairs, chainParent) \<Rightarrow>
          let groups = map snd (group_by gn_context_id nodes)
          in if bo_compact opts then compact_session_edges chainPrecedesPairs groups edges chainParent
             else Some (full_session_edges chainPrecedesPairs groups edges))"

definition derive_graph ::
  "(bytes \<Rightarrow> bytes) \<Rightarrow> BuildGraphOptions \<Rightarrow> record_info list \<Rightarrow> GraphNode list \<Rightarrow> GraphResponse option" where
  "derive_graph sha opts infos nodes =
     (case session_edges opts infos nodes of
        None \<Rightarrow> None
      | Some edges \<Rightarrow>
          let converges = concat (map converges_edges (map snd (group_by gn_context_id nodes)));
              cross = (if bo_includeCrossSession opts then cross_session_edges infos nodes else []);
              (nodes', edges') = reference_steps sha opts infos (nodes, edges @ converges @ cross)
          in Some \<lparr>gr_context_id = (case nodes' of [] \<Rightarrow> [] | n # _ \<Rightarrow> gn_context_id n),
                   gr_node_count = length nodes', gr_edge_count = length edges',
                   gr_has_transaction = list_ex is_transaction_node nodes',
                   gr_cross_session_count = length (filter (\<lambda>e. ge_type e = CROSS_SESSION) edges'),
                   gr_nodes = nodes', gr_edges = edges'\<rparr>)"

definition buildGraph ::
  "(bytes \<Rightarrow> bytes) \<Rightarrow> (json \<Rightarrow> string option) \<Rightarrow> (bytes \<Rightarrow> bytes \<Rightarrow> bytes \<Rightarrow> bool) \<Rightarrow> int
   \<Rightarrow> js_object list \<Rightarrow> GapNode list \<Rightarrow> BuildGraphOptions \<Rightarrow> GraphResponse option result" where
  "buildGraph sha canon ed_verify nowMs records gaps opts =
     rbind (map_result (info_of sha canon) records) (\<lambda>recordInfo.
       let infos = sort_by info_order recordInfo
       in Inr (derive_graph sha opts infos (base_nodes sha canon ed_verify nowMs opts infos gaps)))"

end
