(* ===== verification/Graph_Edges.thy ===== *)
theory Graph_Edges
  imports Graph_Builder
begin

text \<open>
  What the derivation of the graph (theory \<open>Graph_Builder\<close>) gives: it always returns, its edges join its
  nodes, and the chain, session, transaction and cross-session edges are exactly those of the
  specification, in the full and in the compact mode.
\<close>

section \<open>Folds in closed form\<close>

lemma fold_append_list:
  assumes "\<And>x s. x \<in> set xs \<Longrightarrow> f x s = s @ g x"
  shows "fold f xs s = s @ concat (map g xs)"
  using assms by (induction xs arbitrary: s) auto

lemma fold_option_inv:
  assumes "P s" and "\<And>x s. x \<in> set xs \<Longrightarrow> P s \<Longrightarrow> \<exists>s'. f x s = Some s' \<and> P s'"
  shows "\<exists>s'. fold_option f xs s = Some s' \<and> P s'"
  using assms
proof (induction xs arbitrary: s)
  case (Cons x xs)
  from Cons.prems obtain s' where "f x s = Some s'" "P s'" by auto
  with Cons.IH [of s'] Cons.prems(2) show ?case by auto
qed simp

lemma fold_option_trace:
  assumes "P [] s" and "\<And>x xs' s. P xs' s \<Longrightarrow> \<exists>s'. f x s = Some s' \<and> P (xs' @ [x]) s'"
  shows "\<exists>s'. fold_option f xs s = Some s' \<and> P xs s'"
proof -
  have "\<exists>s'. fold_option f ys s = Some s' \<and> P (zs @ ys) s'" if "P zs s" for zs ys s
    using that
  proof (induction ys arbitrary: zs s)
    case (Cons y ys)
    obtain s' where "f y s = Some s'" "P (zs @ [y]) s'" using assms(2) Cons.prems by blast
    with Cons.IH [of "zs @ [y]" s'] show ?case by auto
  qed simp
  from this [OF assms(1)] show ?thesis by simp
qed

lemma index_pairs_mem: "(a, b) \<in> set (index_pairs xs) \<Longrightarrow> a \<in> set xs \<and> b \<in> set xs"
  by (induction xs) auto

lemma index_pairs_cover: "a \<in> set xs \<Longrightarrow> b \<in> set xs \<Longrightarrow> a \<noteq> b \<Longrightarrow> (a, b) \<in> set (index_pairs xs) \<or> (b, a) \<in> set (index_pairs xs)"
  by (induction xs) auto

lemma index_pairs_distinct: "distinct xs \<Longrightarrow> (a, b) \<in> set (index_pairs xs) \<Longrightarrow> a \<noteq> b"
  by (induction xs) auto

lemma consecutive_mem: "(a, b) \<in> set (consecutive xs) \<Longrightarrow> a \<in> set xs \<and> b \<in> set xs"
  by (cases xs) (auto simp: consecutive_def dest: set_zip_leftD set_zip_rightD)

text \<open>Groups partition a list.\<close>

lemma group_by_get:
  "map_of (group_by f xs) k = (if \<exists>x \<in> set xs. f x = k then Some (filter (\<lambda>x. f x = k) xs) else None)"
proof -
  have "map_of (fold (\<lambda>x m. AList.update (f x) ((case map_of m (f x) of None \<Rightarrow> [] | Some l \<Rightarrow> l) @ [x]) m) xs m) k
      = (if \<exists>x \<in> set xs. f x = k then Some ((case map_of m k of None \<Rightarrow> [] | Some l \<Rightarrow> l) @ filter (\<lambda>x. f x = k) xs) else map_of m k)" for m
    by (induction xs arbitrary: m) (auto simp: update_conv' split: option.splits)
  then show ?thesis by (simp add: group_by_def)
qed

lemma distinct_group_by: "distinct (map fst (group_by f xs))"
proof -
  have "distinct (map fst m) \<Longrightarrow> distinct (map fst (fold (\<lambda>x m. AList.update (f x) ((case map_of m (f x) of None \<Rightarrow> [] | Some l \<Rightarrow> l) @ [x]) m) xs m))" for m
    by (induction xs arbitrary: m) (simp_all add: distinct_update)
  from this [of "[]"] show ?thesis by (simp add: group_by_def)
qed

lemma groups_mem: "g \<in> set (map snd (group_by f xs)) \<longleftrightarrow> (\<exists>x \<in> set xs. g = filter (\<lambda>y. f y = f x) xs)"
proof -
  have "g \<in> set (map snd (group_by f xs)) \<longleftrightarrow> (\<exists>k. map_of (group_by f xs) k = Some g)"
    using distinct_group_by [of f xs] by (force simp: map_of_eq_Some_iff)
  then show ?thesis by (auto simp: group_by_get split: if_splits)
qed

section \<open>Chain edges\<close>

definition chain_pairs :: "(string, string) jsmap \<Rightarrow> GraphNode list \<Rightarrow> (string \<times> string) list" where
  "chain_pairs h nodes = concat (map (\<lambda>n. case chain_parent h n of None \<Rightarrow> [] | Some p \<Rightarrow> [(p, gn_id n)]) nodes)"

definition chain_keys :: "(string \<times> string) list \<Rightarrow> string list" where
  "chain_keys ps = concat (map (\<lambda>(p, i). [pair_key p i, pair_key i p]) ps)"

lemma chain_forest_empty: "chain.joins [] []"
proof -
  have "chain_walk [] x = Some x" for x by (rule walk_at_root) simp
  then show ?thesis by (simp add: chain.joins_def chain_forest_def chain_rep_def)
qed

lemma chain_fold:
  "\<exists>m. fold_option (chain_step compactEdges h) nodes ([], [], [])
      = Some (map (\<lambda>(p, i). plain_edge CHAIN_PRECEDES True p i) (chain_pairs h nodes), chain_keys (chain_pairs h nodes), m)
    \<and> (compactEdges \<longrightarrow> chain.joins (chain_pairs h nodes) m)"
proof -
  let ?P = "\<lambda>ns (es, ps, m). es = map (\<lambda>(p, i). plain_edge CHAIN_PRECEDES True p i) (chain_pairs h ns)
      \<and> ps = chain_keys (chain_pairs h ns) \<and> (compactEdges \<longrightarrow> chain.joins (chain_pairs h ns) m)"
  have "\<exists>s'. fold_option (chain_step compactEdges h) nodes ([], [], []) = Some s' \<and> ?P nodes s'"
  proof (rule fold_option_trace)
    show "?P [] ([], [], [])" by (simp add: chain_pairs_def chain_keys_def chain_forest_empty)
    fix n ns s assume P: "?P ns s"
    obtain es ps m where s: "s = (es, ps, m)" by (cases s)
    show "\<exists>s'. chain_step compactEdges h n s = Some s' \<and> ?P (ns @ [n]) s'"
    proof (cases "chain_parent h n")
      case None
      with P show ?thesis by (simp add: s chain_step_def chain_pairs_def)
    next
      case (Some p)
      have new: "chain_pairs h (ns @ [n]) = chain_pairs h ns @ [(p, gn_id n)]" by (simp add: chain_pairs_def Some)
      show ?thesis
      proof (cases compactEdges)
        case True
        then obtain m' where "unionChain p (gn_id n) m = Some m'" "chain.joins (chain_pairs h ns @ [(p, gn_id n)]) m'"
          using P chain.joins_join [of "chain_pairs h ns" m p "gn_id n"] by (auto simp: s)
        with P True Some show ?thesis by (simp add: s chain_step_def new chain_keys_def Let_def)
      next
        case False
        with P Some show ?thesis by (simp add: s chain_step_def new chain_keys_def Let_def)
      qed
    qed
  qed
  then show ?thesis by (auto simp: case_prod_unfold)
qed

text \<open>The keys of pairs tell apart ids in which no greater-than sign occurs, as in all ids of base nodes.\<close>

definition plain_id :: "string \<Rightarrow> bool" where
  "plain_id i \<longleftrightarrow> CHR ''>'' \<notin> set i"

lemma pair_key_inject:
  assumes "plain_id a" and "plain_id c"
  shows "pair_key a b = pair_key c d \<longleftrightarrow> a = c \<and> b = d"
proof
  assume eq: "pair_key a b = pair_key c d"
  have "takeWhile (\<lambda>x. x \<noteq> CHR ''>'') (pair_key x y) = x @ ''-''" if "plain_id x" for x y
    using that by (subst pair_key_def, subst takeWhile_append2) (auto simp: plain_id_def)
  with eq assms have "a @ ''-'' = c @ ''-''" by metis
  with eq show "a = c \<and> b = d" by (simp add: pair_key_def)
qed simp

definition adjacent :: "(string \<times> string) list \<Rightarrow> string \<Rightarrow> string \<Rightarrow> bool" where
  "adjacent ps a b \<longleftrightarrow> (a, b) \<in> set ps \<or> (b, a) \<in> set ps"

lemma adjacent_sym: "adjacent ps a b \<longleftrightarrow> adjacent ps b a"
  by (auto simp: adjacent_def)

lemma paired_keys:
  assumes "\<And>p i. (p, i) \<in> set ps \<Longrightarrow> plain_id p \<and> plain_id i" and "plain_id a" and "plain_id b"
  shows "paired (chain_keys ps) a b \<longleftrightarrow> adjacent ps a b"
proof -
  have "pair_key x y \<in> set (chain_keys ps) \<longleftrightarrow> adjacent ps x y" if xy: "plain_id x" "plain_id y" for x y
    using assms(1) pair_key_inject [OF xy(1)] by (fastforce simp: chain_keys_def adjacent_def)
  with assms(2, 3) show ?thesis by (auto simp: paired_def adjacent_def)
qed

section \<open>The full mode\<close>

definition precedes_pair :: "string list \<Rightarrow> GraphNode \<times> GraphNode \<Rightarrow> bool" where
  "precedes_pair ks = (\<lambda>(a, b). \<not> paired ks (gn_id a) (gn_id b) \<and> gn_timestamp a \<noteq> gn_timestamp b)"

definition precedes_edge :: "GraphNode \<times> GraphNode \<Rightarrow> GraphEdge" where
  "precedes_edge = (\<lambda>(a, b). if gn_timestamp a < gn_timestamp b then plain_edge SESSION_PRECEDES True (gn_id a) (gn_id b)
     else plain_edge SESSION_PRECEDES True (gn_id b) (gn_id a))"

lemma precedes_fold:
  "fold (precedes_step ks) ps (es, sp) = (es @ map precedes_edge (filter (precedes_pair ks) ps),
     sp @ chain_keys (map (\<lambda>(a, b). (gn_id a, gn_id b)) (filter (precedes_pair ks) ps)))"
proof (induction ps arbitrary: es sp)
  case (Cons p ps)
  obtain a b where p: "p = (a, b)" by fastforce
  have "precedes_step ks p (es, sp) = (if precedes_pair ks p
      then (es @ [precedes_edge p], sp @ chain_keys [(gn_id a, gn_id b)]) else (es, sp))"
    by (auto simp: p precedes_step_def precedes_pair_def precedes_edge_def chain_keys_def)
  with Cons show ?case by (simp add: p chain_keys_def)
qed (simp add: chain_keys_def)

definition group_pairs :: "GraphNode list list \<Rightarrow> (GraphNode \<times> GraphNode) list" where
  "group_pairs groups = concat (map index_pairs groups)"

lemma fold_concat_pairs: "fold (\<lambda>ns. fold f (index_pairs ns)) groups s = fold f (group_pairs groups) s"
  by (induction groups arbitrary: s) (simp_all add: group_pairs_def)

lemma parallel_fold:
  "fold (parallel_step ks sp) ps es = es @ map (\<lambda>(a, b). plain_edge SESSION_PARALLEL False (gn_id a) (gn_id b))
     (filter (\<lambda>(a, b). \<not> paired ks (gn_id a) (gn_id b) \<and> \<not> paired sp (gn_id a) (gn_id b)) ps)"
proof (induction ps arbitrary: es)
  case (Cons p ps)
  obtain a b where p: "p = (a, b)" by fastforce
  have "parallel_step ks sp p es = (if \<not> paired ks (gn_id a) (gn_id b) \<and> \<not> paired sp (gn_id a) (gn_id b)
      then es @ [plain_edge SESSION_PARALLEL False (gn_id a) (gn_id b)] else es)"
    by (simp add: p parallel_step_def)
  with Cons show ?case by (simp add: p)
qed simp

definition session_pairs :: "string list \<Rightarrow> GraphNode list list \<Rightarrow> (string \<times> string) list" where
  "session_pairs ks groups = map (\<lambda>(a, b). (gn_id a, gn_id b)) (filter (precedes_pair ks) (group_pairs groups))"

lemma full_session_edges_eq:
  "full_session_edges ks groups es = es @ map precedes_edge (filter (precedes_pair ks) (group_pairs groups))
     @ map (\<lambda>(a, b). plain_edge SESSION_PARALLEL False (gn_id a) (gn_id b))
         (filter (\<lambda>(a, b). \<not> paired ks (gn_id a) (gn_id b) \<and> \<not> paired (chain_keys (session_pairs ks groups)) (gn_id a) (gn_id b))
           (group_pairs groups))"
  by (simp add: full_session_edges_def fold_concat_pairs precedes_fold parallel_fold session_pairs_def)

lemma group_pairs_set: "set (group_pairs gs) = (\<Union>g \<in> set gs. set (index_pairs g))"
  by (simp add: group_pairs_def)

lemma context_pairs_mem:
  assumes "distinct nodes" and "(a, b) \<in> set (group_pairs (map snd (group_by f nodes)))"
  shows "a \<in> set nodes \<and> b \<in> set nodes \<and> a \<noteq> b \<and> f a = f b"
proof -
  obtain g where g: "g \<in> set (map snd (group_by f nodes))" "(a, b) \<in> set (index_pairs g)"
    using assms(2) unfolding group_pairs_set by blast
  then obtain x where "g = filter (\<lambda>y. f y = f x) nodes" unfolding groups_mem by blast
  with g(2) assms(1) index_pairs_mem [OF g(2)] index_pairs_distinct [of g a b] show ?thesis by auto
qed

lemma context_pairs_cover:
  assumes "a \<in> set nodes" "b \<in> set nodes" "a \<noteq> b" "f a = f b"
  shows "(a, b) \<in> set (group_pairs (map snd (group_by f nodes))) \<or> (b, a) \<in> set (group_pairs (map snd (group_by f nodes)))"
proof -
  let ?g = "filter (\<lambda>y. f y = f a) nodes"
  have "?g \<in> set (map snd (group_by f nodes))" unfolding groups_mem using assms(1) by blast
  moreover have "(a, b) \<in> set (index_pairs ?g) \<or> (b, a) \<in> set (index_pairs ?g)"
    using assms by (intro index_pairs_cover) auto
  ultimately show ?thesis unfolding group_pairs_set by blast
qed

definition has_edge :: "GraphEdge list \<Rightarrow> edge_type \<Rightarrow> string \<Rightarrow> string \<Rightarrow> bool" where
  "has_edge es t a b \<longleftrightarrow> (\<exists>e \<in> set es. ge_type e = t \<and> ge_source e = a \<and> ge_target e = b)"

text \<open>What the derivation relies on: the base nodes have ids of their own without a greater-than sign, and the
  hashes lead to base nodes.\<close>

definition base_ok :: "(string, string) jsmap \<Rightarrow> GraphNode list \<Rightarrow> bool" where
  "base_ok h nodes \<longleftrightarrow> distinct (map gn_id nodes) \<and> (\<forall>n \<in> set nodes. plain_id (gn_id n))
     \<and> (\<forall>k i. map_of h k = Some i \<longrightarrow> i \<in> gn_id ` set nodes)"

lemma base_ok_eq: "base_ok h nodes \<Longrightarrow> n \<in> set nodes \<Longrightarrow> n' \<in> set nodes \<Longrightarrow> gn_id n = gn_id n' \<Longrightarrow> n = n'"
  by (auto simp: base_ok_def distinct_map inj_on_def)

lemma base_ok_distinct: "base_ok h nodes \<Longrightarrow> distinct nodes"
  by (simp add: base_ok_def distinct_map)

lemma chain_pairs_mem: "(p, i) \<in> set (chain_pairs h nodes) \<longleftrightarrow> (\<exists>n \<in> set nodes. gn_id n = i \<and> chain_parent h n = Some p)"
  by (force simp: chain_pairs_def split: option.splits)

lemma chain_parent_hash: "chain_parent h n = Some p \<Longrightarrow> \<exists>k. map_of h k = Some p"
  by (auto simp: chain_parent_def split: option.splits if_splits)

lemma chain_pairs_plain: "base_ok h nodes \<Longrightarrow> (p, i) \<in> set (chain_pairs h nodes) \<Longrightarrow> plain_id p \<and> plain_id i
    \<and> p \<in> gn_id ` set nodes \<and> i \<in> gn_id ` set nodes"
proof -
  assume ok: "base_ok h nodes" and "(p, i) \<in> set (chain_pairs h nodes)"
  then obtain n k where n: "n \<in> set nodes" "gn_id n = i" "map_of h k = Some p"
    using chain_parent_hash unfolding chain_pairs_mem by blast
  then have "p \<in> gn_id ` set nodes" "i \<in> gn_id ` set nodes" using ok by (auto simp: base_ok_def)
  with ok show ?thesis by (auto simp: base_ok_def)
qed

definition unchained :: "(string, string) jsmap \<Rightarrow> GraphNode list \<Rightarrow> GraphNode \<Rightarrow> GraphNode \<Rightarrow> bool" where
  "unchained h nodes n n' \<longleftrightarrow> n \<in> set nodes \<and> n' \<in> set nodes \<and> n \<noteq> n' \<and> gn_context_id n = gn_context_id n'
     \<and> \<not> adjacent (chain_pairs h nodes) (gn_id n) (gn_id n')"

lemma paired_chain:
  assumes "base_ok h nodes" "n \<in> set nodes" "n' \<in> set nodes"
  shows "paired (chain_keys (chain_pairs h nodes)) (gn_id n) (gn_id n') \<longleftrightarrow> adjacent (chain_pairs h nodes) (gn_id n) (gn_id n')"
  using assms chain_pairs_plain [OF assms(1)] by (intro paired_keys) (auto simp: base_ok_def)

lemma full_precedes:
  assumes "base_ok h nodes"
  shows "e \<in> set (map precedes_edge (filter (precedes_pair (chain_keys (chain_pairs h nodes))) (group_pairs (map snd (group_by gn_context_id nodes)))))
    \<longleftrightarrow> (\<exists>n n'. unchained h nodes n n' \<and> gn_timestamp n < gn_timestamp n' \<and> e = plain_edge SESSION_PRECEDES True (gn_id n) (gn_id n'))"
    (is "?L \<longleftrightarrow> ?R")
proof
  assume ?L
  then obtain a b where ab: "(a, b) \<in> set (group_pairs (map snd (group_by gn_context_id nodes)))"
    "precedes_pair (chain_keys (chain_pairs h nodes)) (a, b)" "e = precedes_edge (a, b)" by auto
  have mem: "a \<in> set nodes" "b \<in> set nodes" "a \<noteq> b" "gn_context_id a = gn_context_id b"
    using context_pairs_mem [OF base_ok_distinct [OF assms] ab(1)] by auto
  with ab(2) paired_chain [OF assms] have "unchained h nodes a b" "unchained h nodes b a" "gn_timestamp a \<noteq> gn_timestamp b"
    by (auto simp: unchained_def precedes_pair_def adjacent_sym)
  then show ?R using ab(3) by (cases "gn_timestamp a < gn_timestamp b") (force simp: precedes_edge_def)+
next
  assume ?R
  then obtain n n' where n: "unchained h nodes n n'" "gn_timestamp n < gn_timestamp n'"
    "e = plain_edge SESSION_PRECEDES True (gn_id n) (gn_id n')" by blast
  then have mem: "n \<in> set nodes" "n' \<in> set nodes" "n \<noteq> n'" "gn_context_id n = gn_context_id n'" by (auto simp: unchained_def)
  have "precedes_pair (chain_keys (chain_pairs h nodes)) (n, n')" "precedes_pair (chain_keys (chain_pairs h nodes)) (n', n)"
    using n paired_chain [OF assms] mem by (auto simp: precedes_pair_def unchained_def adjacent_sym)
  moreover have "e = precedes_edge (n, n')" "e = precedes_edge (n', n)" using n(2, 3) by (auto simp: precedes_edge_def)
  ultimately show ?L using context_pairs_cover [OF mem] unfolding set_map [of precedes_edge] set_filter by blast
qed

definition hop_in :: "GraphEdge list \<Rightarrow> string \<Rightarrow> edge_type \<Rightarrow> string \<Rightarrow> bool" where
  "hop_in es a t b \<longleftrightarrow> (\<exists>e \<in> set es. ge_type e = t
     \<and> (ge_source e = a \<and> ge_target e = b \<or> \<not> ge_directed e \<and> ge_target e = a \<and> ge_source e = b))"

lemma hop_hop_in: "hop graph a t b \<longleftrightarrow> hop_in (gr_edges graph) a t b"
  by (simp add: hop_def hop_in_def)

lemma hop_in_append [simp]: "hop_in (es @ es') a t b \<longleftrightarrow> hop_in es a t b \<or> hop_in es' a t b"
  and hop_in_Nil [simp]: "\<not> hop_in [] a t b"
  by (auto simp: hop_in_def)

lemma plain_edge_simps [simp]:
  "ge_type (plain_edge t d a b) = t" "ge_source (plain_edge t d a b) = a" "ge_target (plain_edge t d a b) = b"
  "ge_directed (plain_edge t d a b) = d"
  by (simp_all add: plain_edge_def)

lemma hop_in_pairs:
  "hop_in (map (\<lambda>(p, i). plain_edge t' d (f p) (g i)) ps) a t b \<longleftrightarrow> t = t'
     \<and> (\<exists>(p, i) \<in> set ps. f p = a \<and> g i = b \<or> \<not> d \<and> f p = b \<and> g i = a)"
  by (force simp: hop_in_def)

lemma hop_in_precedes:
  assumes "\<And>e. e \<in> set es \<longleftrightarrow> (\<exists>n n'. P n n' \<and> e = plain_edge SESSION_PRECEDES True (gn_id n) (gn_id n'))"
  shows "hop_in es a t b \<longleftrightarrow> t = SESSION_PRECEDES \<and> (\<exists>n n'. P n n' \<and> gn_id n = a \<and> gn_id n' = b)"
proof -
  have "set es = {plain_edge SESSION_PRECEDES True (gn_id n) (gn_id n') | n n'. P n n'}" using assms by blast
  then have "hop_in es a t b \<longleftrightarrow> (\<exists>n n'. P n n' \<and> t = SESSION_PRECEDES \<and> gn_id n = a \<and> gn_id n' = b)"
    unfolding hop_in_def by (simp add: Bex_def) (metis plain_edge_simps)
  then show ?thesis by metis
qed

lemma session_paired:
  assumes ok: "base_ok h nodes" and n: "unchained h nodes n n'"
  shows "paired (chain_keys (session_pairs (chain_keys (chain_pairs h nodes)) (map snd (group_by gn_context_id nodes)))) (gn_id n) (gn_id n')
    \<longleftrightarrow> gn_timestamp n \<noteq> gn_timestamp n'"
proof -
  let ?ps = "session_pairs (chain_keys (chain_pairs h nodes)) (map snd (group_by gn_context_id nodes))"
  have mem: "n \<in> set nodes" "n' \<in> set nodes" "n \<noteq> n'" "gn_context_id n = gn_context_id n'" using n by (auto simp: unchained_def)
  have ps: "(p, i) \<in> set ?ps \<longleftrightarrow> (\<exists>c d. (c, d) \<in> set (group_pairs (map snd (group_by gn_context_id nodes)))
      \<and> precedes_pair (chain_keys (chain_pairs h nodes)) (c, d) \<and> p = gn_id c \<and> i = gn_id d)" for p i
    unfolding session_pairs_def by force
  have nodes: "c \<in> set nodes \<and> d \<in> set nodes" if "(c, d) \<in> set (group_pairs (map snd (group_by gn_context_id nodes)))" for c d
    using context_pairs_mem [OF base_ok_distinct [OF ok] that] by simp
  have "plain_id p \<and> plain_id i" if "(p, i) \<in> set ?ps" for p i
    using that nodes ok unfolding ps by (auto simp: base_ok_def)
  then have "paired (chain_keys ?ps) (gn_id n) (gn_id n') \<longleftrightarrow> adjacent ?ps (gn_id n) (gn_id n')"
    using ok mem by (intro paired_keys) (auto simp: base_ok_def)
  also have "\<dots> \<longleftrightarrow> precedes_pair (chain_keys (chain_pairs h nodes)) (n, n')"
  proof -
    have sym: "precedes_pair (chain_keys (chain_pairs h nodes)) (n', n) \<longleftrightarrow> precedes_pair (chain_keys (chain_pairs h nodes)) (n, n')"
      by (auto simp: precedes_pair_def paired_def)
    have eq: "c = n" if "c \<in> set nodes" "gn_id c = gn_id n" for c using base_ok_eq [OF ok that(1) mem(1) that(2)] .
    have eq': "c = n'" if "c \<in> set nodes" "gn_id c = gn_id n'" for c using base_ok_eq [OF ok that(1) mem(2) that(2)] .
    show ?thesis
      unfolding adjacent_def ps using context_pairs_cover [OF mem] nodes eq eq' sym by metis
  qed
  also have "\<dots> \<longleftrightarrow> gn_timestamp n \<noteq> gn_timestamp n'"
    using n paired_chain [OF ok mem(1, 2)] by (simp add: precedes_pair_def unchained_def)
  finally show ?thesis .
qed

lemma unchained_sym: "unchained h nodes n n' \<longleftrightarrow> unchained h nodes n' n"
  unfolding unchained_def adjacent_def by metis

lemma full_parallel:
  assumes ok: "base_ok h nodes"
  defines "ks \<equiv> chain_keys (chain_pairs h nodes)" and "groups \<equiv> map snd (group_by gn_context_id nodes)"
  shows "hop_in (map (\<lambda>(a, b). plain_edge SESSION_PARALLEL False (gn_id a) (gn_id b))
      (filter (\<lambda>(a, b). \<not> paired ks (gn_id a) (gn_id b) \<and> \<not> paired (chain_keys (session_pairs ks groups)) (gn_id a) (gn_id b))
         (group_pairs groups))) i t j
    \<longleftrightarrow> t = SESSION_PARALLEL \<and> (\<exists>n n'. unchained h nodes n n' \<and> gn_timestamp n = gn_timestamp n' \<and> gn_id n = i \<and> gn_id n' = j)"
proof -
  let ?Q = "\<lambda>a b. \<not> paired ks (gn_id a) (gn_id b) \<and> \<not> paired (chain_keys (session_pairs ks groups)) (gn_id a) (gn_id b)"
  have Q: "?Q a b \<longleftrightarrow> unchained h nodes a b \<and> gn_timestamp a = gn_timestamp b"
    if "a \<in> set nodes" "b \<in> set nodes" "a \<noteq> b" "gn_context_id a = gn_context_id b" for a b
    using that paired_chain [OF ok that(1, 2)] session_paired [OF ok, of a b]
    by (auto simp: ks_def groups_def unchained_def)
  have mem: "a \<in> set nodes \<and> b \<in> set nodes \<and> a \<noteq> b \<and> gn_context_id a = gn_context_id b" if "(a, b) \<in> set (group_pairs groups)" for a b
    using context_pairs_mem [OF base_ok_distinct [OF ok], of a b gn_context_id] that by (simp add: groups_def)
  have cover: "(a, b) \<in> set (group_pairs groups) \<or> (b, a) \<in> set (group_pairs groups)" if "unchained h nodes a b" for a b
    using context_pairs_cover [of a nodes b gn_context_id] that by (simp add: groups_def unchained_def)
  have "(\<exists>(a, b) \<in> set (filter (\<lambda>(a, b). ?Q a b) (group_pairs groups)). gn_id a = i \<and> gn_id b = j \<or> \<not> False \<and> gn_id a = j \<and> gn_id b = i)
      \<longleftrightarrow> (\<exists>n n'. unchained h nodes n n' \<and> gn_timestamp n = gn_timestamp n' \<and> gn_id n = i \<and> gn_id n' = j)" (is "?L \<longleftrightarrow> ?R")
  proof
    assume ?L
    then obtain a b where ab: "(a, b) \<in> set (group_pairs groups)" "?Q a b" "gn_id a = i \<and> gn_id b = j \<or> gn_id a = j \<and> gn_id b = i" by auto
    then have "unchained h nodes a b" "gn_timestamp a = gn_timestamp b" using Q [of a b] mem [of a b] by auto
    then show ?R using ab(3) unchained_sym [of h nodes a b] by metis
  next
    assume ?R
    then obtain n n' where n: "unchained h nodes n n'" "gn_timestamp n = gn_timestamp n'" "gn_id n = i" "gn_id n' = j" by blast
    then have "?Q n n'" "?Q n' n" using Q [of n n'] Q [of n' n] unchained_sym [of h nodes n n'] by (auto simp: unchained_def)
    then show ?L using cover [OF n(1)] n(3, 4) by auto
  qed
  then show ?thesis unfolding hop_in_pairs by simp
qed

text \<open>The edges before those to transactions, in the full mode.\<close>

lemma full_session_hops:
  assumes "base_ok h nodes"
  shows "hop_in (full_session_edges (chain_keys (chain_pairs h nodes)) (map snd (group_by gn_context_id nodes))
      (map (\<lambda>(p, i). plain_edge CHAIN_PRECEDES True p i) (chain_pairs h nodes))) i t j
    \<longleftrightarrow> t = CHAIN_PRECEDES \<and> (i, j) \<in> set (chain_pairs h nodes)
      \<or> t = SESSION_PRECEDES \<and> (\<exists>n n'. unchained h nodes n n' \<and> gn_timestamp n < gn_timestamp n' \<and> gn_id n = i \<and> gn_id n' = j)
      \<or> t = SESSION_PARALLEL \<and> (\<exists>n n'. unchained h nodes n n' \<and> gn_timestamp n = gn_timestamp n' \<and> gn_id n = i \<and> gn_id n' = j)"
proof -
  have precedes: "hop_in (map precedes_edge (filter (precedes_pair (chain_keys (chain_pairs h nodes)))
        (group_pairs (map snd (group_by gn_context_id nodes))))) i t j
      \<longleftrightarrow> t = SESSION_PRECEDES \<and> (\<exists>n n'. (unchained h nodes n n' \<and> gn_timestamp n < gn_timestamp n') \<and> gn_id n = i \<and> gn_id n' = j)"
    using full_precedes [OF assms] by (intro hop_in_precedes) (simp add: conj_assoc)
  show ?thesis
    unfolding full_session_edges_eq hop_in_append full_parallel [OF assms] precedes
    using hop_in_pairs [of CHAIN_PRECEDES True "\<lambda>x. x" "\<lambda>x. x" "chain_pairs h nodes" i t j] by auto
qed

section \<open>The compact mode\<close>

lemma fold_option_append: "fold_option f (xs @ ys) s = (case fold_option f xs s of None \<Rightarrow> None | Some s' \<Rightarrow> fold_option f ys s')"
  by (induction xs arbitrary: s) (auto split: option.split)

lemma fold_option_concat: "fold_option (\<lambda>x. fold_option f (g x)) xs s = fold_option f (concat (map g xs)) s"
  by (induction xs arbitrary: s) (auto simp: fold_option_append split: option.split)

lemma same_component_joins:
  assumes "chain.joins cps m"
  shows "\<exists>m'. same_component a b m = Some ((a, b) \<in> linked cps, m') \<and> chain.joins cps m'"
proof -
  obtain m1 where m1: "findChainRoot a m = Some (chain_rep m a, m1)" "chain.joins cps m1" "chain_rep m1 = chain_rep m"
    using chain.joins_find [OF assms] by blast
  obtain m2 where m2: "findChainRoot b m1 = Some (chain_rep m b, m2)" "chain.joins cps m2"
    using chain.joins_find [OF m1(2)] m1(3) by metis
  have "chain_rep m a = chain_rep m b \<longleftrightarrow> (a, b) \<in> linked cps" using assms by (simp add: chain.joins_def)
  with m1 m2 show ?thesis by (simp add: same_component_def)
qed

definition compact_precedes :: "string list \<Rightarrow> (string \<times> string) list \<Rightarrow> GraphNode \<times> GraphNode \<Rightarrow> bool" where
  "compact_precedes ks cps = (\<lambda>(a, b). gn_timestamp a < gn_timestamp b \<and> \<not> paired ks (gn_id a) (gn_id b)
     \<and> (gn_id a, gn_id b) \<notin> linked cps)"

definition compact_parallel :: "string list \<Rightarrow> string list \<Rightarrow> (string \<times> string) list \<Rightarrow> GraphNode \<times> GraphNode \<Rightarrow> bool" where
  "compact_parallel ks sp cps = (\<lambda>(a, b). \<not> paired ks (gn_id a) (gn_id b) \<and> \<not> paired sp (gn_id a) (gn_id b)
     \<and> (gn_id a, gn_id b) \<notin> linked cps)"

definition id_edge :: "edge_type \<Rightarrow> bool \<Rightarrow> GraphNode \<times> GraphNode \<Rightarrow> GraphEdge" where
  "id_edge t d = (\<lambda>(a, b). plain_edge t d (gn_id a) (gn_id b))"

lemma compact_precedes_fold:
  assumes "chain.joins cps m"
  shows "\<exists>m'. fold_option (compact_precedes_step ks) ps (es, [], m)
      = Some (es @ map (id_edge SESSION_PRECEDES True) (filter (compact_precedes ks cps) ps),
          chain_keys (map (\<lambda>(a, b). (gn_id a, gn_id b)) (filter (compact_precedes ks cps) ps)), m')
    \<and> chain.joins cps m'"
proof -
  let ?P = "\<lambda>qs (es', sp, m'). es' = es @ map (id_edge SESSION_PRECEDES True) (filter (compact_precedes ks cps) qs)
      \<and> sp = chain_keys (map (\<lambda>(a, b). (gn_id a, gn_id b)) (filter (compact_precedes ks cps) qs)) \<and> chain.joins cps m'"
  have "\<exists>s'. fold_option (compact_precedes_step ks) ps (es, [], m) = Some s' \<and> ?P ps s'"
  proof (rule fold_option_trace)
    show "?P [] (es, [], m)" using assms by (simp add: chain_keys_def)
    fix p :: "GraphNode \<times> GraphNode" and qs s assume P: "?P qs s"
    obtain es' sp m' where s: "s = (es', sp, m')" by (cases s)
    obtain a b where p: "p = (a, b)" by fastforce
    obtain m'' where "same_component (gn_id a) (gn_id b) m' = Some ((gn_id a, gn_id b) \<in> linked cps, m'')" "chain.joins cps m''"
      using same_component_joins [of cps m'] P s by auto
    with P show "\<exists>s'. compact_precedes_step ks p s = Some s' \<and> ?P (qs @ [p]) s'"
      by (auto simp: s p compact_precedes_step_def compact_precedes_def id_edge_def chain_keys_def not_less split: bool.split)
  qed
  then show ?thesis by auto
qed

lemma compact_parallel_fold:
  assumes "chain.joins cps m"
  shows "\<exists>m'. fold_option (compact_parallel_step ks sp) ps (es, m)
      = Some (es @ map (id_edge SESSION_PARALLEL False) (filter (compact_parallel ks sp cps) ps), m')"
proof -
  let ?P = "\<lambda>qs (es', m'). es' = es @ map (id_edge SESSION_PARALLEL False) (filter (compact_parallel ks sp cps) qs) \<and> chain.joins cps m'"
  have "\<exists>s'. fold_option (compact_parallel_step ks sp) ps (es, m) = Some s' \<and> ?P ps s'"
  proof (rule fold_option_trace)
    show "?P [] (es, m)" using assms by simp
    fix p :: "GraphNode \<times> GraphNode" and qs s assume P: "?P qs s"
    obtain es' m' where s: "s = (es', m')" by (cases s)
    obtain a b where p: "p = (a, b)" by fastforce
    obtain m'' where "same_component (gn_id a) (gn_id b) m' = Some ((gn_id a, gn_id b) \<in> linked cps, m'')" "chain.joins cps m''"
      using same_component_joins [of cps m'] P s by auto
    with P show "\<exists>s'. compact_parallel_step ks sp p s = Some s' \<and> ?P (qs @ [p]) s'"
      by (auto simp: s p compact_parallel_step_def compact_parallel_def id_edge_def split: bool.split)
  qed
  then show ?thesis by auto
qed

definition neighbours :: "GraphNode list list \<Rightarrow> (GraphNode \<times> GraphNode) list" where
  "neighbours groups = concat (map (\<lambda>ns. consecutive (sort_by node_order ns)) groups)"

definition peers :: "GraphNode list list \<Rightarrow> (GraphNode \<times> GraphNode) list" where
  "peers groups = concat (map (\<lambda>ns. group_pairs (map snd (group_by gn_timestamp ns))) groups)"

lemma compact_session_edges_eq:
  fixes ks :: "string list" and groups :: "GraphNode list list"
  assumes "chain.joins cps m"
  defines "ps \<equiv> filter (compact_precedes ks cps) (neighbours groups)"
  shows "compact_session_edges ks groups es m = Some (es @ map (id_edge SESSION_PRECEDES True) ps
    @ map (id_edge SESSION_PARALLEL False) (filter (compact_parallel ks (chain_keys (map (\<lambda>(a, b). (gn_id a, gn_id b)) ps)) cps) (peers groups)))"
proof -
  obtain m' where m': "fold_option (compact_precedes_step ks) (neighbours groups) (es, [], m)
      = Some (es @ map (id_edge SESSION_PRECEDES True) ps, chain_keys (map (\<lambda>(a, b). (gn_id a, gn_id b)) ps), m')" "chain.joins cps m'"
    using compact_precedes_fold [OF assms(1)] unfolding ps_def by blast
  let ?sp = "chain_keys (map (\<lambda>(a, b). (gn_id a, gn_id b)) ps)"
  let ?es = "es @ map (id_edge SESSION_PRECEDES True) ps"
  obtain m2 where m2: "fold_option (compact_parallel_step ks ?sp) (peers groups) (?es, m')
      = Some (?es @ map (id_edge SESSION_PARALLEL False) (filter (compact_parallel ks ?sp cps) (peers groups)), m2)"
    using compact_parallel_fold [OF m'(2)] by blast
  have "concat (map index_pairs (concat (map (\<lambda>ns. map snd (group_by gn_timestamp ns)) groups))) = peers groups"
    unfolding peers_def group_pairs_def by (induction groups) simp_all
  with m'(1) m2 show ?thesis
    by (simp add: compact_session_edges_def fold_option_concat neighbours_def)
qed

definition unlinked :: "(string, string) jsmap \<Rightarrow> GraphNode list \<Rightarrow> GraphNode \<Rightarrow> GraphNode \<Rightarrow> bool" where
  "unlinked h nodes n n' \<longleftrightarrow> n \<in> set nodes \<and> n' \<in> set nodes \<and> gn_context_id n = gn_context_id n'
     \<and> (gn_id n, gn_id n') \<notin> linked (chain_pairs h nodes)"

lemma adjacent_linked: "adjacent ps a b \<Longrightarrow> (a, b) \<in> linked ps"
  by (auto simp: adjacent_def linked_def)

lemma unlinked_unchained: "unlinked h nodes n n' \<Longrightarrow> unchained h nodes n n'"
  using adjacent_linked [of "chain_pairs h nodes" "gn_id n" "gn_id n'"]
  by (auto simp: unlinked_def unchained_def linked_def)

lemma unlinked_sym: "unlinked h nodes n n' \<longleftrightarrow> unlinked h nodes n' n"
  unfolding unlinked_def using linked_sym [of "gn_id n" "gn_id n'"] by metis

lemma neighbours_mem:
  assumes "(a, b) \<in> set (neighbours (map snd (group_by gn_context_id nodes)))"
  shows "a \<in> set nodes \<and> b \<in> set nodes \<and> gn_context_id a = gn_context_id b"
proof -
  obtain g where g: "g \<in> set (map snd (group_by gn_context_id nodes))" "(a, b) \<in> set (consecutive (sort_by node_order g))"
    using assms by (auto simp: neighbours_def)
  then obtain x :: GraphNode where "g = filter (\<lambda>y. gn_context_id y = gn_context_id x) nodes" unfolding groups_mem by blast
  with consecutive_mem [OF g(2)] show ?thesis by simp
qed

lemma peers_mem:
  assumes "distinct nodes" and "(a, b) \<in> set (peers (map snd (group_by gn_context_id nodes)))"
  shows "a \<in> set nodes \<and> b \<in> set nodes \<and> a \<noteq> b \<and> gn_context_id a = gn_context_id b \<and> gn_timestamp a = gn_timestamp b"
proof -
  obtain g where g: "g \<in> set (map snd (group_by gn_context_id nodes))" "(a, b) \<in> set (group_pairs (map snd (group_by gn_timestamp g)))"
    using assms(2) by (auto simp: peers_def)
  then obtain x :: GraphNode where x: "g = filter (\<lambda>y. gn_context_id y = gn_context_id x) nodes" unfolding groups_mem by blast
  then have "distinct g" using assms(1) by simp
  from context_pairs_mem [OF this g(2)] x show ?thesis by simp
qed

lemma peers_cover:
  assumes "a \<in> set nodes" "b \<in> set nodes" "a \<noteq> b" "gn_context_id a = gn_context_id b" "gn_timestamp a = gn_timestamp b"
  shows "(a, b) \<in> set (peers (map snd (group_by gn_context_id nodes))) \<or> (b, a) \<in> set (peers (map snd (group_by gn_context_id nodes)))"
proof -
  let ?g = "filter (\<lambda>y. gn_context_id y = gn_context_id a) nodes"
  have g: "?g \<in> set (map snd (group_by gn_context_id nodes))" unfolding groups_mem using assms(1) by blast
  have "set (peers gs) = (\<Union>g \<in> set gs. set (group_pairs (map snd (group_by gn_timestamp g))))" for gs
    by (simp add: peers_def)
  moreover have "(a, b) \<in> set (group_pairs (map snd (group_by gn_timestamp ?g))) \<or> (b, a) \<in> set (group_pairs (map snd (group_by gn_timestamp ?g)))"
    using assms by (intro context_pairs_cover) auto
  ultimately show ?thesis using g by blast
qed

lemma compact_session_hops:
  assumes ok: "base_ok h nodes" and joins: "chain.joins (chain_pairs h nodes) m"
  defines "groups \<equiv> map snd (group_by gn_context_id nodes)"
  shows "\<exists>es. compact_session_edges (chain_keys (chain_pairs h nodes)) groups
      (map (\<lambda>(p, i). plain_edge CHAIN_PRECEDES True p i) (chain_pairs h nodes)) m = Some es
    \<and> (\<forall>i t j. hop_in es i t j
        \<longleftrightarrow> t = CHAIN_PRECEDES \<and> (i, j) \<in> set (chain_pairs h nodes)
          \<or> t = SESSION_PRECEDES \<and> (\<exists>n n'. (n, n') \<in> set (neighbours groups) \<and> unlinked h nodes n n'
              \<and> gn_timestamp n < gn_timestamp n' \<and> gn_id n = i \<and> gn_id n' = j)
          \<or> t = SESSION_PARALLEL \<and> (\<exists>n n'. unlinked h nodes n n' \<and> gn_timestamp n = gn_timestamp n' \<and> gn_id n = i \<and> gn_id n' = j))"
proof -
  let ?cps = "chain_pairs h nodes" and ?ks = "chain_keys (chain_pairs h nodes)"
  define ps where "ps = filter (compact_precedes ?ks ?cps) (neighbours groups)"
  let ?sp = "chain_keys (map (\<lambda>(a, b). (gn_id a, gn_id b)) ps)"
  let ?par = "filter (compact_parallel ?ks ?sp ?cps) (peers groups)"
  have mem: "a \<in> set nodes \<and> b \<in> set nodes \<and> gn_context_id a = gn_context_id b" if "(a, b) \<in> set (neighbours groups)" for a b
    using neighbours_mem [of a b nodes] that by (simp add: groups_def)
  have not_linked: "\<not> paired ?ks (gn_id a) (gn_id b)" if "unlinked h nodes a b" for a b
    using that paired_chain [OF ok] adjacent_linked [of ?cps "gn_id a" "gn_id b"] by (auto simp: unlinked_def)
  have prec: "(a, b) \<in> set ps \<longleftrightarrow> (a, b) \<in> set (neighbours groups) \<and> unlinked h nodes a b \<and> gn_timestamp a < gn_timestamp b" for a b
    using mem [of a b] not_linked [of a b] by (auto simp: ps_def compact_precedes_def unlinked_def)
  have sp: "\<not> paired ?sp (gn_id a) (gn_id b)" if ab: "a \<in> set nodes" "b \<in> set nodes" "gn_timestamp a = gn_timestamp b" for a b
  proof -
    have ps_nodes: "c \<in> set nodes \<and> d \<in> set nodes" if "(c, d) \<in> set ps" for c d using that mem [of c d] by (auto simp: prec)
    have "paired ?sp (gn_id a) (gn_id b) \<longleftrightarrow> adjacent (map (\<lambda>(a, b). (gn_id a, gn_id b)) ps) (gn_id a) (gn_id b)"
      using ok ab ps_nodes by (intro paired_keys) (auto simp: base_ok_def)
    also have "\<not> \<dots>"
    proof
      assume "adjacent (map (\<lambda>(a, b). (gn_id a, gn_id b)) ps) (gn_id a) (gn_id b)"
      then obtain c d where cd: "(c, d) \<in> set ps" "gn_id c = gn_id a \<and> gn_id d = gn_id b \<or> gn_id c = gn_id b \<and> gn_id d = gn_id a"
        by (auto simp: adjacent_def)
      then have "gn_timestamp c = gn_timestamp d" using base_ok_eq [OF ok] ps_nodes ab by metis
      with cd(1) show False by (simp add: prec)
    qed
    finally show ?thesis .
  qed
  have par: "(a, b) \<in> set ?par \<longleftrightarrow> (a, b) \<in> set (peers groups) \<and> unlinked h nodes a b" for a b
    using peers_mem [OF base_ok_distinct [OF ok], of a b] sp [of a b] not_linked [of a b]
    by (auto simp: compact_parallel_def unlinked_def groups_def)
  have parallel: "(\<exists>(n, n') \<in> set ?par. gn_id n = i \<and> gn_id n' = j \<or> gn_id n = j \<and> gn_id n' = i)
      \<longleftrightarrow> (\<exists>n n'. unlinked h nodes n n' \<and> gn_timestamp n = gn_timestamp n' \<and> gn_id n = i \<and> gn_id n' = j)" (is "?L \<longleftrightarrow> ?R") for i j
  proof
    assume ?L
    then obtain a b where ab: "(a, b) \<in> set (peers groups)" "unlinked h nodes a b" "gn_id a = i \<and> gn_id b = j \<or> gn_id a = j \<and> gn_id b = i"
      using par by blast
    then have "gn_timestamp a = gn_timestamp b" using peers_mem [OF base_ok_distinct [OF ok], of a b] by (simp add: groups_def)
    with ab unlinked_sym [of h nodes a b] show ?R by metis
  next
    assume ?R
    then obtain a b where ab: "unlinked h nodes a b" "gn_timestamp a = gn_timestamp b" "gn_id a = i" "gn_id b = j" by blast
    then have "a \<in> set nodes" "b \<in> set nodes" "a \<noteq> b" "gn_context_id a = gn_context_id b"
      using unlinked_unchained [OF ab(1)] by (auto simp: unchained_def)
    then have "(a, b) \<in> set (peers groups) \<or> (b, a) \<in> set (peers groups)"
      using peers_cover ab(2) unfolding groups_def by blast
    then have "(a, b) \<in> set ?par \<or> (b, a) \<in> set ?par" using par ab(1) unlinked_sym [of h nodes a b] by blast
    then show ?L using ab(3, 4) by blast
  qed
  let ?chain = "map (\<lambda>(p, i). plain_edge CHAIN_PRECEDES True p i) ?cps"
  let ?es = "?chain @ map (id_edge SESSION_PRECEDES True) ps @ map (id_edge SESSION_PARALLEL False) ?par"
  have chain_hop: "hop_in ?chain i t j \<longleftrightarrow> t = CHAIN_PRECEDES \<and> (i, j) \<in> set ?cps" for i t j
    using hop_in_pairs [of CHAIN_PRECEDES True "\<lambda>x. x" "\<lambda>x. x" ?cps i t j] by auto
  have prec_hop: "hop_in (map (id_edge SESSION_PRECEDES True) ps) i t j
      \<longleftrightarrow> t = SESSION_PRECEDES \<and> (\<exists>(n, n') \<in> set ps. gn_id n = i \<and> gn_id n' = j)" for i t j
    using hop_in_pairs [of SESSION_PRECEDES True gn_id gn_id ps i t j] by (simp add: id_edge_def)
  have par_hop: "hop_in (map (id_edge SESSION_PARALLEL False) ?par) i t j \<longleftrightarrow> t = SESSION_PARALLEL
      \<and> (\<exists>n n'. unlinked h nodes n n' \<and> gn_timestamp n = gn_timestamp n' \<and> gn_id n = i \<and> gn_id n' = j)" for i t j
    using hop_in_pairs [of SESSION_PARALLEL False gn_id gn_id ?par i t j] parallel [of i j] by (simp add: id_edge_def)
  have "hop_in ?es i t j
        \<longleftrightarrow> t = CHAIN_PRECEDES \<and> (i, j) \<in> set ?cps
          \<or> t = SESSION_PRECEDES \<and> (\<exists>n n'. (n, n') \<in> set (neighbours groups) \<and> unlinked h nodes n n'
              \<and> gn_timestamp n < gn_timestamp n' \<and> gn_id n = i \<and> gn_id n' = j)
          \<or> t = SESSION_PARALLEL \<and> (\<exists>n n'. unlinked h nodes n n' \<and> gn_timestamp n = gn_timestamp n' \<and> gn_id n = i \<and> gn_id n' = j)" for i t j
    unfolding hop_in_append chain_hop prec_hop par_hop using prec by blast
  moreover have "compact_session_edges ?ks groups ?chain m = Some ?es"
    using compact_session_edges_eq [OF joins, of ?ks groups ?chain] by (simp add: ps_def)
  ultimately show ?thesis by blast
qed

end
