(* ===== verification/Built_Graph.thy ===== *)
theory Built_Graph
  imports Graph_Edges
begin

text \<open>
  The graph that \<open>buildGraph\<close> returns (theories \<open>Graph_Builder\<close> and \<open>Graph_Edges\<close>): declared references only add
  placeholders and edges of their own kinds, so the graph is closed, its ids are distinct when those of
  the inputs are, and the session and transaction edges are those of the specification.
\<close>

section \<open>Declared references\<close>

definition reference_types :: "edge_type set" where
  "reference_types = {INFORMED_BY, PROVENANCE_OF, ANNOTATES, REVISES}"

definition refs_ok :: "string set \<Rightarrow> ref_state \<Rightarrow> ref_state \<Rightarrow> bool" where
  "refs_ok ids st0 st \<longleftrightarrow> (\<exists>ns es. fst st = fst st0 @ ns \<and> snd st = snd st0 @ es
     \<and> (\<forall>n \<in> set ns. gn_event_type n = Dangling_node \<and> starts_with ''dangling:'' (gn_id n))
     \<and> distinct (map gn_id ns) \<and> gn_id ` set ns \<inter> gn_id ` set (fst st0) = {}
     \<and> (\<forall>e \<in> set es. ge_type e \<in> reference_types \<and> ge_directed e \<and> ge_source e \<in> ids \<and> ge_target e \<in> gn_id ` set (fst st0 @ ns)))"

lemma refs_ok_refl: "refs_ok ids st st"
  by (auto simp: refs_ok_def)

lemma refs_ok_nodes: "refs_ok ids st0 (nodes, edges) \<Longrightarrow> i \<in> gn_id ` set (fst st0) \<Longrightarrow> i \<in> gn_id ` set nodes"
  by (auto simp: refs_ok_def)

lemma refs_ok_edge:
  assumes "refs_ok ids st0 (nodes, edges)" and "ge_type e \<in> reference_types" "ge_directed e" "ge_source e \<in> ids" "ge_target e \<in> gn_id ` set nodes"
  shows "refs_ok ids st0 (nodes, edges @ [e])"
proof -
  obtain ns es where "nodes = fst st0 @ ns" "edges = snd st0 @ es" and
    "(\<forall>n \<in> set ns. gn_event_type n = Dangling_node \<and> starts_with ''dangling:'' (gn_id n))
     \<and> distinct (map gn_id ns) \<and> gn_id ` set ns \<inter> gn_id ` set (fst st0) = {}
     \<and> (\<forall>e \<in> set es. ge_type e \<in> reference_types \<and> ge_directed e \<and> ge_source e \<in> ids \<and> ge_target e \<in> gn_id ` set (fst st0 @ ns))"
    using assms(1) by (auto simp: refs_ok_def)
  with assms(2-) show ?thesis
    unfolding refs_ok_def by (intro exI [of _ ns] exI [of _ "es @ [e]"]) auto
qed

lemma ensure_mem: "i \<in> gn_id ` set (ensureReferenceNode i status hash token target nodes)"
  by (auto simp: ensureReferenceNode_def dangling_node_def)

lemma refs_ok_node:
  assumes "refs_ok ids st0 (nodes, edges)"
  shows "refs_ok ids st0 (ensureReferenceNode (''dangling:'' @ x) status hash token target nodes, edges)"
proof (cases "''dangling:'' @ x \<in> gn_id ` set nodes")
  case False
  obtain ns es where eq: "nodes = fst st0 @ ns" "edges = snd st0 @ es" and ok:
    "(\<forall>n \<in> set ns. gn_event_type n = Dangling_node \<and> starts_with ''dangling:'' (gn_id n))
     \<and> distinct (map gn_id ns) \<and> gn_id ` set ns \<inter> gn_id ` set (fst st0) = {}
     \<and> (\<forall>e \<in> set es. ge_type e \<in> reference_types \<and> ge_directed e \<and> ge_source e \<in> ids \<and> ge_target e \<in> gn_id ` set (fst st0 @ ns))"
    using assms by (auto simp: refs_ok_def)
  let ?n = "dangling_node (''dangling:'' @ x) status hash token target"
  have "gn_id ?n = ''dangling:'' @ x" "gn_event_type ?n = Dangling_node" by (simp_all add: dangling_node_def)
  moreover have "starts_with ''dangling:'' (''dangling:'' @ x)" by (rule starts_with_append)
  ultimately show ?thesis
    using False ok unfolding refs_ok_def eq ensureReferenceNode_def
    by (intro exI [of _ "ns @ [?n]"] exI [of _ es]) auto
qed (use assms in \<open>simp add: ensureReferenceNode_def\<close>)

lemma dangling_edge_simps [simp]:
  "ge_type (dangling_edge t a b c hash token) = t" "ge_source (dangling_edge t a b c hash token) = a"
  "ge_target (dangling_edge t a b c hash token) = b" "ge_directed (dangling_edge t a b c hash token)"
  by (simp_all add: dangling_edge_def case_prod_unfold)

lemma refs_ok_dangling:
  assumes "refs_ok ids st0 (nodes, edges)" and "t \<in> reference_types" and "a \<in> ids"
  shows "refs_ok ids st0 (ensureReferenceNode (''dangling:'' @ x) status hash token target nodes,
    edges @ [dangling_edge t a (''dangling:'' @ x) c hash' token'])"
  using refs_ok_node [OF assms(1)] assms(2, 3) ensure_mem by (intro refs_ok_edge) simp_all

lemma hash_ids_mem: "map_of (hash_ids infos) k = Some i \<Longrightarrow> \<exists>j \<in> set infos. in_hash j = k \<and> in_nodeId j = i"
proof -
  have "map_of (fold (\<lambda>i. AList.update (in_hash i) (in_nodeId i)) infos m) k = Some i
      \<Longrightarrow> (\<exists>j \<in> set infos. in_hash j = k \<and> in_nodeId j = i) \<or> map_of m k = Some i" for m
    by (induction infos arbitrary: m) (fastforce simp: update_conv' split: if_splits)+
  from this [of "[]"] show "map_of (hash_ids infos) k = Some i \<Longrightarrow> ?thesis" by (simp add: hash_ids_def)
qed

definition ids_of :: "record_info list \<Rightarrow> string set" where
  "ids_of infos = in_nodeId ` set infos"

lemma link_reference_ok:
  assumes "refs_ok (ids_of infos) st0 st" and "ids_of infos \<subseteq> gn_id ` set (fst st0)"
    and "t \<in> reference_types" and "a \<in> ids_of infos"
  shows "refs_ok (ids_of infos) st0 (link_reference opts (hash_ids infos) t a ref st)"
proof -
  obtain nodes edges where st: "st = (nodes, edges)" by fastforce
  show ?thesis
  proof (cases "map_of (hash_ids infos) (drop 7 ref)")
    case None
    then show ?thesis
      using refs_ok_dangling [OF assms(1) [unfolded st] assms(3, 4)]
      by (auto simp: link_reference_def st Let_def split: prod.split)
  next
    case (Some i)
    then obtain j where "j \<in> set infos" "in_nodeId j = i" using hash_ids_mem by blast
    then have "i \<in> gn_id ` set (fst st0)" using assms(2) by (auto simp: ids_of_def)
    then have "i \<in> gn_id ` set nodes" by (rule refs_ok_nodes [OF assms(1) [unfolded st]])
    with Some show ?thesis
      using refs_ok_edge [OF assms(1) [unfolded st], of "plain_edge t True a i"] assms(3, 4) by (simp add: link_reference_def st)
  qed
qed

lemma informed_by_ok:
  assumes "refs_ok (ids_of infos) st0 st" and "ids_of infos \<subseteq> gn_id ` set (fst st0)" and "i \<in> set infos"
  shows "refs_ok (ids_of infos) st0 (informed_by_step opts (hash_ids infos) i st)"
proof -
  have "in_nodeId i \<in> ids_of infos" using assms(3) by (simp add: ids_of_def)
  then have "refs_ok (ids_of infos) st0 (case ref of
      JStr s \<Rightarrow> if starts_with sha256_prefix s then link_reference opts (hash_ids infos) INFORMED_BY (in_nodeId i) s st' else st'
      | _ \<Rightarrow> st')" if "refs_ok (ids_of infos) st0 st'" for ref st'
    using link_reference_ok [OF that assms(2)] that by (auto simp: reference_types_def split: json.split)
  then have "refs_ok (ids_of infos) st0 (fold (\<lambda>ref st. case ref of
      JStr s \<Rightarrow> if starts_with sha256_prefix s then link_reference opts (hash_ids infos) INFORMED_BY (in_nodeId i) s st else st
      | _ \<Rightarrow> st) refs st)" for refs
    by (rule fold_invariant [where P = "refs_ok (ids_of infos) st0", OF assms(1)])
  with assms(1) show ?thesis by (auto simp: informed_by_step_def split: option.split json.split)
qed

lemma declared_ok:
  assumes "refs_ok (ids_of infos) st0 st" and "ids_of infos \<subseteq> gn_id ` set (fst st0)" and "i \<in> set infos" and "t \<in> reference_types"
  shows "refs_ok (ids_of infos) st0 (declared_step uri field t opts (hash_ids infos) i st)"
proof -
  have "in_nodeId i \<in> ids_of infos" using assms(3) by (simp add: ids_of_def)
  with link_reference_ok [OF assms(1, 2, 4)] assms(1) show ?thesis
    by (auto simp: declared_step_def split: option.split json.split)
qed

lemma provenance_ok:
  assumes "refs_ok (ids_of infos) st0 st" and "ids_of infos \<subseteq> gn_id ` set (fst st0)" and "i \<in> set infos"
  shows "refs_ok (ids_of infos) st0 (provenance_step sha opts infos i st)"
proof -
  obtain nodes edges where st: "st = (nodes, edges)" by fastforce
  have i: "in_nodeId i \<in> ids_of infos" "PROVENANCE_OF \<in> reference_types" using assms(3) by (simp_all add: ids_of_def reference_types_def)
  have found: "refs_ok (ids_of infos) st0 (nodes, edges @ [plain_edge PROVENANCE_OF True (in_nodeId i) (in_nodeId j)])"
    if "find P infos = Some j" for P j
  proof -
    have "j \<in> set infos" using that by (auto simp: find_Some_iff)
    then have "in_nodeId j \<in> gn_id ` set (fst st0)" using assms(2) by (auto simp: ids_of_def)
    then have "in_nodeId j \<in> gn_id ` set nodes" by (rule refs_ok_nodes [OF assms(1) [unfolded st]])
    then show ?thesis using refs_ok_edge [OF assms(1) [unfolded st], of "plain_edge PROVENANCE_OF True (in_nodeId i) (in_nodeId j)"] i by simp
  qed
  have dangling: "refs_ok (ids_of infos) st0 (ensureReferenceNode (''dangling:provenance:'' @ token) status hash tok target nodes,
      edges @ [dangling_edge PROVENANCE_OF (in_nodeId i) (''dangling:provenance:'' @ token) c hash' tok'])" for token status hash tok target c hash' tok'
    using refs_ok_dangling [OF assms(1) [unfolded st] i(2, 1), of "''provenance:'' @ token"] by simp
  show ?thesis
    using assms(1) found dangling by (auto simp: provenance_step_def st Let_def split: option.split prod.split)
qed

lemma reference_steps_ok:
  assumes "ids_of infos \<subseteq> gn_id ` set (fst st0)"
  shows "refs_ok (ids_of infos) st0 (reference_steps sha opts infos st0)"
proof -
  let ?P = "refs_ok (ids_of infos) st0"
  note inv = fold_invariant [where P = ?P]
  have types: "REVISES \<in> reference_types" "ANNOTATES \<in> reference_types" by (simp_all add: reference_types_def)
  have informed: "?P (fold (informed_by_step opts (hash_ids infos)) infos st0)"
    by (rule inv [OF refs_ok_refl]) (rule informed_by_ok [OF _ assms])
  have prov: "?P (fold (provenance_step sha opts infos) infos st)" if "?P st" for st
    by (rule inv [OF that]) (rule provenance_ok [OF _ assms])
  have decl: "?P (fold (declared_step uri field t opts (hash_ids infos)) infos st)" if "?P st" "t \<in> reference_types" for uri field t st
    by (rule inv [OF that(1)]) (rule declared_ok [OF _ assms _ that(2)])
  show ?thesis
    unfolding reference_steps_def Let_def by (rule decl [OF decl [OF prov [OF informed] types(2)] types(1)])
qed

section \<open>The derived graph\<close>

definition edge_within :: "string set \<Rightarrow> GraphEdge \<Rightarrow> bool" where
  "edge_within ids e \<longleftrightarrow> ge_source e \<in> ids \<and> ge_target e \<in> ids"

definition session_types :: "edge_type set" where
  "session_types = {CHAIN_PRECEDES, SESSION_PRECEDES, SESSION_PARALLEL}"

lemma group_member: "g \<in> set (map snd (group_by f xs)) \<Longrightarrow> x \<in> set g \<Longrightarrow> x \<in> set xs"
  by (auto simp: groups_mem simp del: set_map)

lemma group_pairs_in:
  assumes "(a, b) \<in> set (group_pairs (map snd (group_by f xs)))"
  shows "a \<in> set xs \<and> b \<in> set xs"
proof -
  obtain g where g: "g \<in> set (map snd (group_by f xs))" "(a, b) \<in> set (index_pairs g)"
    using assms unfolding group_pairs_set by blast
  with index_pairs_mem [OF g(2)] group_member [OF g(1)] show ?thesis by blast
qed

lemma peers_in:
  assumes "(a, b) \<in> set (peers (map snd (group_by f xs)))"
  shows "a \<in> set xs \<and> b \<in> set xs"
proof -
  obtain g where g: "g \<in> set (map snd (group_by f xs))" "(a, b) \<in> set (group_pairs (map snd (group_by gn_timestamp g)))"
    using assms by (auto simp: peers_def)
  with group_pairs_in [OF g(2)] group_member [OF g(1)] show ?thesis by blast
qed

lemma session_edges_shape:
  assumes "ids_of infos \<subseteq> gn_id ` set nodes"
  shows "\<exists>es. session_edges opts infos nodes = Some es \<and> (\<forall>e \<in> set es. ge_type e \<in> session_types \<and> edge_within (gn_id ` set nodes) e)"
proof -
  let ?h = "hash_ids infos" and ?groups = "map snd (group_by gn_context_id nodes)"
  let ?cps = "chain_pairs ?h nodes"
  let ?chain = "map (\<lambda>(p, i). plain_edge CHAIN_PRECEDES True p i) ?cps"
  let ?ok = "\<lambda>e. ge_type e \<in> session_types \<and> edge_within (gn_id ` set nodes) e"
  obtain m where m: "fold_option (chain_step (bo_compact opts) ?h) nodes ([], [], []) = Some (?chain, chain_keys ?cps, m)"
    "bo_compact opts \<longrightarrow> chain.joins ?cps m" using chain_fold by blast
  have chain_ok: "?ok e" if mem: "e \<in> set ?chain" for e
  proof -
    obtain p i where pi: "(p, i) \<in> set ?cps" "e = plain_edge CHAIN_PRECEDES True p i" using mem by auto
    then obtain n k where n: "n \<in> set nodes" "gn_id n = i" "map_of ?h k = Some p"
      using chain_parent_hash unfolding chain_pairs_mem by blast
    then obtain j where "j \<in> set infos" "in_nodeId j = p" using hash_ids_mem by blast
    then have "p \<in> gn_id ` set nodes" using assms by (auto simp: ids_of_def)
    with n pi show ?thesis by (auto simp: session_types_def edge_within_def)
  qed
  show ?thesis
  proof (cases "bo_compact opts")
    case True
    let ?ps = "filter (compact_precedes (chain_keys ?cps) ?cps) (neighbours ?groups)"
    let ?par = "filter (compact_parallel (chain_keys ?cps) (chain_keys (map (\<lambda>(a, b). (gn_id a, gn_id b)) ?ps)) ?cps) (peers ?groups)"
    have "?ok e" if "e \<in> set (map (id_edge SESSION_PRECEDES True) ?ps)" for e
      using that neighbours_mem [of _ _ nodes] by (auto simp: id_edge_def session_types_def edge_within_def)
    moreover have "?ok e" if "e \<in> set (map (id_edge SESSION_PARALLEL False) ?par)" for e
      using that peers_in [of _ _ gn_context_id nodes] by (auto simp: id_edge_def session_types_def edge_within_def)
    moreover have "session_edges opts infos nodes = Some (?chain @ map (id_edge SESSION_PRECEDES True) ?ps @ map (id_edge SESSION_PARALLEL False) ?par)"
      using m True compact_session_edges_eq [of ?cps m "chain_keys ?cps" ?groups ?chain] by (simp add: session_edges_def)
    moreover have "\<forall>e \<in> set (?chain @ map (id_edge SESSION_PRECEDES True) ?ps @ map (id_edge SESSION_PARALLEL False) ?par). ?ok e"
      unfolding set_append using chain_ok calculation(1, 2) by blast
    ultimately show ?thesis by blast
  next
    case False
    let ?ps = "filter (precedes_pair (chain_keys ?cps)) (group_pairs ?groups)"
    have "?ok e" if "e \<in> set (map precedes_edge ?ps)" for e
      using that group_pairs_in [of _ _ gn_context_id nodes] by (auto simp: precedes_edge_def session_types_def edge_within_def)
    moreover have "?ok e" if "e \<in> set (map (\<lambda>(a, b). plain_edge SESSION_PARALLEL False (gn_id a) (gn_id b)) (filter P (group_pairs ?groups)))" for e P
      using that group_pairs_in [of _ _ gn_context_id nodes] by (auto simp: session_types_def edge_within_def)
    moreover have "session_edges opts infos nodes = Some (full_session_edges (chain_keys ?cps) ?groups ?chain)"
      using m False by (simp add: session_edges_def)
    moreover have "\<forall>e \<in> set (full_session_edges (chain_keys ?cps) ?groups ?chain). ?ok e"
      unfolding full_session_edges_eq set_append using chain_ok calculation(1, 2) by blast
    ultimately show ?thesis by blast
  qed
qed

definition contributor :: "GraphNode \<Rightarrow> bool" where
  "contributor n \<longleftrightarrow> gn_event_type n = Tool_call \<or> gn_event_type n = Gap_node"

lemma converges_mem:
  "e \<in> set (concat (map converges_edges (map snd (group_by gn_context_id nodes))))
    \<longleftrightarrow> (\<exists>n \<in> set nodes. \<exists>tx \<in> set nodes. gn_context_id n = gn_context_id tx \<and> contributor n \<and> is_transaction_node tx
        \<and> e = plain_edge CONVERGES_ON True (gn_id n) (gn_id tx))" (is "?L \<longleftrightarrow> ?R")
proof
  assume ?L
  then obtain g where g: "g \<in> set (map snd (group_by gn_context_id nodes))" "e \<in> set (converges_edges g)" by auto
  then obtain x :: GraphNode where x: "g = filter (\<lambda>y. gn_context_id y = gn_context_id x) nodes" unfolding groups_mem by blast
  from g(2) obtain n tx where "n \<in> set g" "contributor n" "tx \<in> set g" "is_transaction_node tx" "e = plain_edge CONVERGES_ON True (gn_id n) (gn_id tx)"
    by (auto simp: converges_edges_def contributor_def)
  moreover from this x have "n \<in> set nodes" "tx \<in> set nodes" "gn_context_id n = gn_context_id tx" by simp_all
  ultimately show ?R by blast
next
  assume ?R
  then obtain n tx where n: "n \<in> set nodes" "tx \<in> set nodes" "gn_context_id n = gn_context_id tx" "contributor n" "is_transaction_node tx"
    "e = plain_edge CONVERGES_ON True (gn_id n) (gn_id tx)" by blast
  let ?g = "filter (\<lambda>y. gn_context_id y = gn_context_id tx) nodes"
  have g: "?g \<in> set (map snd (group_by gn_context_id nodes))" unfolding groups_mem using n(2) by blast
  have "e \<in> set (converges_edges ?g)" using n by (auto simp: converges_edges_def contributor_def)
  with g show ?L unfolding set_concat set_map [of converges_edges] by blast
qed

definition same_token :: "record_info list \<Rightarrow> GraphNode \<Rightarrow> GraphNode \<Rightarrow> bool" where
  "same_token infos n tx \<longleftrightarrow> (\<exists>t. t \<noteq> [] \<and> session_token infos (gn_id tx) = Some t \<and> session_token infos (gn_id n) = Some t)"

lemma cross_mem:
  "e \<in> set (cross_session_edges infos nodes) \<longleftrightarrow> (\<exists>n \<in> set nodes. \<exists>tx \<in> set nodes. is_transaction_node tx
     \<and> gn_event_type n = Tool_call \<and> gn_context_id n \<noteq> gn_context_id tx \<and> same_token infos n tx
     \<and> e = plain_edge CROSS_SESSION True (gn_id n) (gn_id tx))"
  by (fastforce simp: cross_session_edges_def same_token_def split: option.splits if_splits)

text \<open>The parts of the result.\<close>

lemma derive_graph_parts:
  assumes "ids_of infos \<subseteq> gn_id ` set nodes"
  obtains g es ns rs where "derive_graph sha opts infos nodes = Some g"
    and "session_edges opts infos nodes = Some es"
    and "\<forall>e \<in> set es. ge_type e \<in> session_types \<and> edge_within (gn_id ` set nodes) e"
    and "gr_nodes g = nodes @ ns"
    and "gr_edges g = es @ concat (map converges_edges (map snd (group_by gn_context_id nodes)))
       @ (if bo_includeCrossSession opts then cross_session_edges infos nodes else []) @ rs"
    and "gr_node_count g = length (gr_nodes g)" and "gr_edge_count g = length (gr_edges g)"
    and "\<forall>n \<in> set ns. gn_event_type n = Dangling_node \<and> starts_with ''dangling:'' (gn_id n)"
    and "distinct (map gn_id ns)" and "gn_id ` set ns \<inter> gn_id ` set nodes = {}"
    and "\<forall>e \<in> set rs. ge_type e \<in> reference_types \<and> ge_directed e \<and> ge_source e \<in> ids_of infos \<and> ge_target e \<in> gn_id ` set (nodes @ ns)"
proof -
  obtain es where es: "session_edges opts infos nodes = Some es" "\<forall>e \<in> set es. ge_type e \<in> session_types \<and> edge_within (gn_id ` set nodes) e"
    using session_edges_shape [OF assms] by blast
  let ?st0 = "(nodes, es @ concat (map converges_edges (map snd (group_by gn_context_id nodes)))
       @ (if bo_includeCrossSession opts then cross_session_edges infos nodes else []))"
  have "refs_ok (ids_of infos) ?st0 (reference_steps sha opts infos ?st0)" using assms by (intro reference_steps_ok) simp
  then obtain ns rs where st: "reference_steps sha opts infos ?st0 = (nodes @ ns, snd ?st0 @ rs)"
    and ns: "\<forall>n \<in> set ns. gn_event_type n = Dangling_node \<and> starts_with ''dangling:'' (gn_id n)"
      "distinct (map gn_id ns)" "gn_id ` set ns \<inter> gn_id ` set nodes = {}"
      "\<forall>e \<in> set rs. ge_type e \<in> reference_types \<and> ge_directed e \<and> ge_source e \<in> ids_of infos \<and> ge_target e \<in> gn_id ` set (nodes @ ns)"
    unfolding refs_ok_def by (metis fst_conv prod.collapse)
  obtain g where g: "derive_graph sha opts infos nodes = Some g" "gr_nodes g = nodes @ ns" "gr_edges g = snd ?st0 @ rs"
    "gr_node_count g = length (nodes @ ns)" "gr_edge_count g = length (snd ?st0 @ rs)"
    using es(1) st by (simp add: derive_graph_def Let_def)
  show ?thesis
    by (rule that [OF g(1) es g(2) _ _ _ ns]) (simp_all add: g)
qed

lemma derived_closed:
  assumes "ids_of infos \<subseteq> gn_id ` set nodes" and "derive_graph sha opts infos nodes = Some g"
  shows "graph_closed g"
proof -
  obtain g' es ns rs where g': "derive_graph sha opts infos nodes = Some g'"
    and es: "\<forall>e \<in> set es. ge_type e \<in> session_types \<and> edge_within (gn_id ` set nodes) e"
    and nodes: "gr_nodes g' = nodes @ ns"
    and edges: "gr_edges g' = es @ concat (map converges_edges (map snd (group_by gn_context_id nodes)))
       @ (if bo_includeCrossSession opts then cross_session_edges infos nodes else []) @ rs"
    and rs: "\<forall>e \<in> set rs. ge_type e \<in> reference_types \<and> ge_directed e \<and> ge_source e \<in> ids_of infos \<and> ge_target e \<in> gn_id ` set (nodes @ ns)"
    by (rule derive_graph_parts [OF assms(1), of sha opts]) blast
  have g: "g = g'" using assms(2) g' by simp
  have ids: "node_ids g' = gn_id ` set (nodes @ ns)" by (simp add: node_ids_def nodes)
  show ?thesis
    unfolding g graph_closed_def ids edges
  proof (intro ballI)
    fix e assume "e \<in> set (es @ concat (map converges_edges (map snd (group_by gn_context_id nodes)))
       @ (if bo_includeCrossSession opts then cross_session_edges infos nodes else []) @ rs)"
    then consider "e \<in> set es" | "e \<in> set (concat (map converges_edges (map snd (group_by gn_context_id nodes))))"
      | "e \<in> set (cross_session_edges infos nodes)" | "e \<in> set rs"
      by (cases "bo_includeCrossSession opts"; simp only: set_append Un_iff if_True if_False list.set empty_iff simp_thms; blast)
    then show "ge_source e \<in> gn_id ` set (nodes @ ns) \<and> ge_target e \<in> gn_id ` set (nodes @ ns)"
    proof cases
      case 1
      then show ?thesis using es by (auto simp: edge_within_def)
    next
      case 2
      then show ?thesis unfolding converges_mem by auto
    next
      case 3
      then show ?thesis unfolding cross_mem by auto
    next
      case 4
      then have "ge_source e \<in> ids_of infos" "ge_target e \<in> gn_id ` set (nodes @ ns)" using rs by auto
      with assms(1) show ?thesis by auto
    qed
  qed
qed

lemma hop_in_typed: "(\<And>e. e \<in> set es \<Longrightarrow> ge_type e \<noteq> t) \<Longrightarrow> \<not> hop_in es i t j"
  by (auto simp: hop_in_def)

lemma hop_in_directed:
  assumes "\<And>e. e \<in> set es \<Longrightarrow> ge_type e = t \<and> ge_directed e"
  shows "hop_in es i t j \<longleftrightarrow> (\<exists>e. e \<in> set es \<and> ge_source e = i \<and> ge_target e = j)"
  using assms by (auto simp: hop_in_def)

lemma ex_plain_edge:
  "(\<exists>e. (\<exists>n \<in> A. \<exists>x \<in> B. P n x \<and> e = plain_edge t d (gn_id n) (gn_id x)) \<and> ge_source e = i \<and> ge_target e = j)
    \<longleftrightarrow> (\<exists>n \<in> A. \<exists>x \<in> B. P n x \<and> gn_id n = i \<and> gn_id x = j)"
proof -
  have "(\<exists>e. (\<exists>n \<in> A. \<exists>x \<in> B. P n x \<and> e = plain_edge t d (gn_id n) (gn_id x)) \<and> ge_source e = i \<and> ge_target e = j)
      \<longleftrightarrow> (\<exists>n \<in> A. \<exists>x \<in> B. P n x \<and> (\<exists>e. e = plain_edge t d (gn_id n) (gn_id x) \<and> ge_source e = i \<and> ge_target e = j))"
    by blast
  then show ?thesis by simp
qed

lemma derived_hops:
  assumes "ids_of infos \<subseteq> gn_id ` set nodes" and "derive_graph sha opts infos nodes = Some g"
  shows "\<exists>es. session_edges opts infos nodes = Some es \<and> (\<forall>i j t. t \<in> session_types \<longrightarrow> hop g i t j = hop_in es i t j)"
    and "hop g i CONVERGES_ON j \<longleftrightarrow> (\<exists>n \<in> set nodes. \<exists>tx \<in> set nodes. gn_context_id n = gn_context_id tx
      \<and> contributor n \<and> is_transaction_node tx \<and> gn_id n = i \<and> gn_id tx = j)"
    and "hop g i CROSS_SESSION j \<longleftrightarrow> bo_includeCrossSession opts \<and> (\<exists>n \<in> set nodes. \<exists>tx \<in> set nodes. is_transaction_node tx
      \<and> gn_event_type n = Tool_call \<and> gn_context_id n \<noteq> gn_context_id tx \<and> same_token infos n tx \<and> gn_id n = i \<and> gn_id tx = j)"
    and "distinct (map gn_id nodes) \<Longrightarrow> distinct (map gn_id (gr_nodes g))"
    and "gr_node_count g = length (gr_nodes g)" and "gr_edge_count g = length (gr_edges g)"
    and "\<exists>ns. gr_nodes g = nodes @ ns \<and> (\<forall>n \<in> set ns. gn_event_type n = Dangling_node) \<and> gn_id ` set ns \<inter> gn_id ` set nodes = {}"
    and "\<And>e. e \<in> set (gr_edges g) \<Longrightarrow> ge_type e = CONVERGES_ON \<or> ge_type e = CROSS_SESSION \<Longrightarrow> ge_directed e"
proof -
  obtain g' es ns rs where g': "derive_graph sha opts infos nodes = Some g'"
    and es: "session_edges opts infos nodes = Some es" "\<forall>e \<in> set es. ge_type e \<in> session_types \<and> edge_within (gn_id ` set nodes) e"
    and nodes: "gr_nodes g' = nodes @ ns"
    and edges: "gr_edges g' = es @ concat (map converges_edges (map snd (group_by gn_context_id nodes)))
       @ (if bo_includeCrossSession opts then cross_session_edges infos nodes else []) @ rs"
    and counts: "gr_node_count g' = length (gr_nodes g')" "gr_edge_count g' = length (gr_edges g')"
    and ns: "\<forall>n \<in> set ns. gn_event_type n = Dangling_node \<and> starts_with ''dangling:'' (gn_id n)"
      "distinct (map gn_id ns)" "gn_id ` set ns \<inter> gn_id ` set nodes = {}"
    and rs: "\<forall>e \<in> set rs. ge_type e \<in> reference_types \<and> ge_directed e \<and> ge_source e \<in> ids_of infos \<and> ge_target e \<in> gn_id ` set (nodes @ ns)"
    by (rule derive_graph_parts [OF assms(1), of sha opts]) blast
  have g: "g = g'" using assms(2) g' by simp
  let ?con = "concat (map converges_edges (map snd (group_by gn_context_id nodes)))"
  let ?cross = "if bo_includeCrossSession opts then cross_session_edges infos nodes else []"
  have hop: "hop g i t j \<longleftrightarrow> hop_in es i t j \<or> hop_in ?con i t j \<or> hop_in ?cross i t j \<or> hop_in rs i t j" for i t j
    unfolding g hop_hop_in edges hop_in_append ..
  have es_type: "\<not> hop_in es i t j" if "t \<notin> session_types" for i t j
    using es(2) that by (intro hop_in_typed) auto
  have con_type: "ge_type e = CONVERGES_ON \<and> ge_directed e" if "e \<in> set ?con" for e
    using that unfolding converges_mem by auto
  have cross_type: "ge_type e = CROSS_SESSION \<and> ge_directed e" if "e \<in> set ?cross" for e
    using that cross_mem [of e infos nodes] by (auto split: if_splits)
  have rs_type: "\<not> hop_in rs i t j" if "t \<notin> reference_types" for i t j
    using rs that by (intro hop_in_typed) auto
  have con: "\<not> hop_in ?con i t j" if "t \<noteq> CONVERGES_ON" for i t j using con_type that by (intro hop_in_typed) metis
  have cross: "\<not> hop_in ?cross i t j" if "t \<noteq> CROSS_SESSION" for i t j using cross_type that by (intro hop_in_typed) metis
  have "hop g i t j = hop_in es i t j" if "t \<in> session_types" for i t j
    using that con [of t i j] cross [of t i j] rs_type [of t i j] unfolding hop by (auto simp: session_types_def reference_types_def)
  with es(1) show "\<exists>es. session_edges opts infos nodes = Some es \<and> (\<forall>i j t. t \<in> session_types \<longrightarrow> hop g i t j = hop_in es i t j)"
    by blast
  have "hop g i CONVERGES_ON j \<longleftrightarrow> hop_in ?con i CONVERGES_ON j"
    using es_type [of CONVERGES_ON] cross [of CONVERGES_ON] rs_type [of CONVERGES_ON] unfolding hop
    by (auto simp: session_types_def reference_types_def)
  also have "\<dots> \<longleftrightarrow> (\<exists>e. e \<in> set ?con \<and> ge_source e = i \<and> ge_target e = j)"
    by (rule hop_in_directed) (rule con_type)
  also have "\<dots> \<longleftrightarrow> (\<exists>n \<in> set nodes. \<exists>tx \<in> set nodes. gn_context_id n = gn_context_id tx
      \<and> contributor n \<and> is_transaction_node tx \<and> gn_id n = i \<and> gn_id tx = j)"
    unfolding converges_mem
    using ex_plain_edge [where P = "\<lambda>n tx. gn_context_id n = gn_context_id tx \<and> contributor n \<and> is_transaction_node tx"
        and A = "set nodes" and B = "set nodes" and t = CONVERGES_ON and d = True and i = i and j = j]
    by (simp only: conj_assoc)
  finally show "hop g i CONVERGES_ON j \<longleftrightarrow> (\<exists>n \<in> set nodes. \<exists>tx \<in> set nodes. gn_context_id n = gn_context_id tx
      \<and> contributor n \<and> is_transaction_node tx \<and> gn_id n = i \<and> gn_id tx = j)" .
  have "hop g i CROSS_SESSION j \<longleftrightarrow> hop_in ?cross i CROSS_SESSION j"
    using es_type [of CROSS_SESSION] con [of CROSS_SESSION] rs_type [of CROSS_SESSION] unfolding hop
    by (auto simp: session_types_def reference_types_def)
  also have "\<dots> \<longleftrightarrow> (\<exists>e. e \<in> set ?cross \<and> ge_source e = i \<and> ge_target e = j)"
    by (rule hop_in_directed) (rule cross_type)
  also have "\<dots> \<longleftrightarrow> bo_includeCrossSession opts \<and> (\<exists>e. e \<in> set (cross_session_edges infos nodes) \<and> ge_source e = i \<and> ge_target e = j)"
    by simp
  also have "(\<exists>e. e \<in> set (cross_session_edges infos nodes) \<and> ge_source e = i \<and> ge_target e = j)
      \<longleftrightarrow> (\<exists>n \<in> set nodes. \<exists>tx \<in> set nodes. is_transaction_node tx
        \<and> gn_event_type n = Tool_call \<and> gn_context_id n \<noteq> gn_context_id tx \<and> same_token infos n tx \<and> gn_id n = i \<and> gn_id tx = j)"
    unfolding cross_mem
    using ex_plain_edge [where P = "\<lambda>n tx. is_transaction_node tx
          \<and> gn_event_type n = Tool_call \<and> gn_context_id n \<noteq> gn_context_id tx \<and> same_token infos n tx"
        and A = "set nodes" and B = "set nodes" and t = CROSS_SESSION and d = True and i = i and j = j]
    by (simp only: conj_assoc)
  finally show "hop g i CROSS_SESSION j \<longleftrightarrow> bo_includeCrossSession opts \<and> (\<exists>n \<in> set nodes. \<exists>tx \<in> set nodes. is_transaction_node tx
      \<and> gn_event_type n = Tool_call \<and> gn_context_id n \<noteq> gn_context_id tx \<and> same_token infos n tx \<and> gn_id n = i \<and> gn_id tx = j)" .
  show "distinct (map gn_id nodes) \<Longrightarrow> distinct (map gn_id (gr_nodes g))" using ns(2, 3) by (auto simp: g nodes)
  show "gr_node_count g = length (gr_nodes g)" "gr_edge_count g = length (gr_edges g)" using counts by (simp_all add: g)
  show "\<exists>ns. gr_nodes g = nodes @ ns \<and> (\<forall>n \<in> set ns. gn_event_type n = Dangling_node) \<and> gn_id ` set ns \<inter> gn_id ` set nodes = {}"
    using ns nodes by (auto simp: g)
  show "ge_directed e" if "e \<in> set (gr_edges g)" "ge_type e = CONVERGES_ON \<or> ge_type e = CROSS_SESSION" for e
  proof -
    have "e \<in> set es \<or> e \<in> set ?con \<or> e \<in> set ?cross \<or> e \<in> set rs"
      using that(1) unfolding g edges set_append by blast
    moreover have "e \<notin> set es" using es(2) that(2) by (auto simp: session_types_def)
    ultimately show ?thesis using con_type cross_type rs by blast
  qed
qed

section \<open>The built graph\<close>

text \<open>The records in the order of the derivation, and the nodes before any placeholder.\<close>

definition graph_infos :: "(bytes \<Rightarrow> bytes) \<Rightarrow> (json \<Rightarrow> string option) \<Rightarrow> js_object list \<Rightarrow> record_info list" where
  "graph_infos sha canon records =
     (case map_result (info_of sha canon) records of Inl _ \<Rightarrow> [] | Inr infos \<Rightarrow> sort_by info_order infos)"

definition graph_base ::
  "(bytes \<Rightarrow> bytes) \<Rightarrow> (json \<Rightarrow> string option) \<Rightarrow> (bytes \<Rightarrow> bytes \<Rightarrow> bytes \<Rightarrow> bool) \<Rightarrow> int
   \<Rightarrow> js_object list \<Rightarrow> GapNode list \<Rightarrow> BuildGraphOptions \<Rightarrow> GraphNode list" where
  "graph_base sha canon ed_verify nowMs records gaps opts =
     base_nodes sha canon ed_verify nowMs opts (graph_infos sha canon records) gaps"

lemma buildGraph_Inr:
  assumes "buildGraph sha canon ed_verify nowMs records gaps opts = Inr r"
  shows "r = derive_graph sha opts (graph_infos sha canon records) (graph_base sha canon ed_verify nowMs records gaps opts)"
  using assms by (auto simp: buildGraph_def graph_infos_def graph_base_def rbind_Inr_iff Let_def)

lemma infos_are_base: "ids_of (graph_infos sha canon records) \<subseteq> gn_id ` set (graph_base sha canon ed_verify nowMs records gaps opts)"
proof -
  have id: "gn_id (record_node sha canon ed_verify nowMs opts i) = in_nodeId i" for i by (simp add: record_node_def Let_def)
  have "ids_of (graph_infos sha canon records) = gn_id ` record_node sha canon ed_verify nowMs opts ` set (graph_infos sha canon records)"
    by (simp add: ids_of_def image_image id)
  then show ?thesis unfolding graph_base_def base_nodes_def by auto
qed

lemma graph_info_ids: "i \<in> set (graph_infos sha canon records) \<Longrightarrow> \<exists>d. in_nodeId i = sha256_prefix @ hexEncode d \<and> in_hash i = hexEncode d"
proof -
  assume i: "i \<in> set (graph_infos sha canon records)"
  then obtain infos where infos: "map_result (info_of sha canon) records = Inr infos" "i \<in> set infos"
    by (cases "map_result (info_of sha canon) records") (auto simp: graph_infos_def)
  then have "list_all2 (\<lambda>r i. info_of sha canon r = Inr i) records infos" by (simp add: map_result_Inr_iff)
  then have "\<forall>i \<in> set infos. \<exists>r. info_of sha canon r = Inr i" by (induction rule: list_all2_induct) auto
  with infos(2) obtain r where "info_of sha canon r = Inr i" by blast
  then show ?thesis by (auto simp: info_of_def rbind_Inr_iff Let_def)
qed

lemma plain_hex: "plain_id (p @ hexEncode d) \<longleftrightarrow> plain_id p"
proof -
  have "CHR ''>'' \<notin> set (hexEncode d)"
    using hexEncode_lower_hex [of d] by (auto simp: list_all_iff is_lower_hex_def is_digit_def)
  then show ?thesis by (simp add: plain_id_def)
qed

lemma graph_base_plain: "n \<in> set (graph_base sha canon ed_verify nowMs records gaps opts) \<Longrightarrow> plain_id (gn_id n)"
proof -
  assume "n \<in> set (graph_base sha canon ed_verify nowMs records gaps opts)"
  then consider i where "i \<in> set (graph_infos sha canon records)" "gn_id n = in_nodeId i" | g where "gn_id n = gap_id sha g"
    by (auto simp: graph_base_def base_nodes_def record_node_def gap_node_def Let_def split: if_splits)
  then show ?thesis
  proof cases
    case 1
    then show ?thesis using graph_info_ids [of i sha canon records] plain_hex [of sha256_prefix]
      by (auto simp: plain_id_def sha256_prefix_def)
  next
    case 2
    then show ?thesis unfolding 2 gap_id_def plain_hex by (simp add: plain_id_def)
  qed
qed

lemma graph_base_ok:
  assumes "distinct (map gn_id (graph_base sha canon ed_verify nowMs records gaps opts))"
  shows "base_ok (hash_ids (graph_infos sha canon records)) (graph_base sha canon ed_verify nowMs records gaps opts)"
proof -
  let ?nodes = "graph_base sha canon ed_verify nowMs records gaps opts"
  have "i \<in> gn_id ` set ?nodes" if id: "map_of (hash_ids (graph_infos sha canon records)) k = Some i" for k i
  proof -
    obtain j where "j \<in> set (graph_infos sha canon records)" "in_nodeId j = i" using hash_ids_mem [OF id] by blast
    then have "i \<in> ids_of (graph_infos sha canon records)" by (auto simp: ids_of_def)
    then show ?thesis using infos_are_base by blast
  qed
  with assms graph_base_plain show ?thesis by (auto simp: base_ok_def)
qed

text \<open>C25: the derivation ends. Building a graph never fails to return, in the compact mode with its loops
  over parent pointers included: it throws when a record cannot be canonicalised, or returns a graph.\<close>

theorem graph_derivation_returns: "buildGraph sha canon ed_verify nowMs records gaps opts \<noteq> Inr None"
proof
  assume "buildGraph sha canon ed_verify nowMs records gaps opts = Inr None"
  then have "derive_graph sha opts (graph_infos sha canon records) (graph_base sha canon ed_verify nowMs records gaps opts) = None"
    using buildGraph_Inr by metis
  moreover obtain g where
    "derive_graph sha opts (graph_infos sha canon records) (graph_base sha canon ed_verify nowMs records gaps opts) = Some g"
    by (rule derive_graph_parts [OF infos_are_base]) blast
  ultimately show False by simp
qed

lemma built_cases:
  assumes "buildGraph sha canon ed_verify nowMs records gaps opts = Inr (Some g)"
  shows "derive_graph sha opts (graph_infos sha canon records) (graph_base sha canon ed_verify nowMs records gaps opts) = Some g"
  using buildGraph_Inr [OF assms] by simp

text \<open>C22: built graphs are well formed. Every edge of a built graph joins two of its nodes, the counts are those
  of its lists, and when no two records or unsigned hops share an id, no two nodes do.\<close>

theorem built_graph_well_formed:
  assumes "buildGraph sha canon ed_verify nowMs records gaps opts = Inr (Some g)"
    and "distinct (map gn_id (graph_base sha canon ed_verify nowMs records gaps opts))"
  shows "graph_closed g \<and> distinct (map gn_id (gr_nodes g))
    \<and> gr_node_count g = length (gr_nodes g) \<and> gr_edge_count g = length (gr_edges g)"
  using derived_closed [OF infos_are_base built_cases [OF assms(1)]]
    derived_hops(4) [OF infos_are_base built_cases [OF assms(1)] assms(2)]
    derived_hops(5, 6) [OF infos_are_base built_cases [OF assms(1)]] by simp

lemma built_session_hops:
  assumes "buildGraph sha canon ed_verify nowMs records gaps opts = Inr (Some g)"
  shows "\<exists>es. session_edges opts (graph_infos sha canon records) (graph_base sha canon ed_verify nowMs records gaps opts) = Some es
    \<and> (\<forall>i j t. t \<in> session_types \<longrightarrow> hop g i t j = hop_in es i t j)"
  by (rule derived_hops(1) [OF infos_are_base built_cases [OF assms]])

lemma hash_ids_iff:
  assumes "\<And>a b. a \<in> set infos \<Longrightarrow> b \<in> set infos \<Longrightarrow> in_hash a = in_hash b \<Longrightarrow> in_nodeId a = in_nodeId b"
  shows "map_of (hash_ids infos) k = Some i \<longleftrightarrow> (\<exists>j \<in> set infos. in_hash j = k \<and> in_nodeId j = i)"
proof
  assume "\<exists>j \<in> set infos. in_hash j = k \<and> in_nodeId j = i"
  then obtain j where j: "j \<in> set infos" "in_hash j = k" "in_nodeId j = i" by blast
  have "map_of (fold (\<lambda>i. AList.update (in_hash i) (in_nodeId i)) infos m) k \<noteq> None" if "j \<in> set infos \<or> map_of m k \<noteq> None" for m infos
    using that j(2) by (induction infos arbitrary: m) (auto simp: update_conv')
  then obtain i' where i': "map_of (hash_ids infos) k = Some i'" using j(1) by (auto simp: hash_ids_def)
  then obtain j' where "j' \<in> set infos" "in_hash j' = k" "in_nodeId j' = i'" using hash_ids_mem by blast
  with assms [of j' j] j i' show "map_of (hash_ids infos) k = Some i" by simp
qed (rule hash_ids_mem)

text \<open>Whether a record names another as its parent in the chain.\<close>

definition chains_to :: "(bytes \<Rightarrow> bytes) \<Rightarrow> record_info \<Rightarrow> record_info \<Rightarrow> bool" where
  "chains_to sha p c \<longleftrightarrow>
     (let chain_root = member_string (in_record c) ''chain_root''
      in chain_root \<noteq> [] \<and> chain_root \<noteq> genesisChainRoot sha (member_string (in_record c) ''context_id'')
         \<and> remove_first sha256_prefix chain_root = in_hash p)"

lemma chains_to_parent: "\<lbrakk>member_string (in_record c) ''chain_root'' = sha256_prefix @ in_hash p;
    sha256_prefix @ in_hash p \<noteq> genesisChainRoot sha (member_string (in_record c) ''context_id'')\<rbrakk> \<Longrightarrow> chains_to sha p c"
  by (auto simp: chains_to_def sha256_prefix_def starts_with_def)

lemma built_chain_pairs:
  "(i, j) \<in> set (chain_pairs (hash_ids (graph_infos sha canon records)) (graph_base sha canon ed_verify nowMs records gaps opts))
    \<longleftrightarrow> (\<exists>p \<in> set (graph_infos sha canon records). \<exists>c \<in> set (graph_infos sha canon records).
          chains_to sha p c \<and> in_nodeId p = i \<and> in_nodeId c = j)"
proof -
  let ?infos = "graph_infos sha canon records"
  have ids: "in_nodeId a = in_nodeId b" if "a \<in> set ?infos" "b \<in> set ?infos" "in_hash a = in_hash b" for a b
    using graph_info_ids [OF that(1)] graph_info_ids [OF that(2)] that(3) by auto
  have parent: "chain_parent (hash_ids ?infos) (record_node sha canon ed_verify nowMs opts c) = Some i
      \<longleftrightarrow> (\<exists>p \<in> set ?infos. chains_to sha p c \<and> in_nodeId p = i)" for c
  proof -
    let ?root = "member_string (in_record c) ''chain_root''"
    have "graphLabelFromEventTypeUri uri \<noteq> Gap_node" for uri by (simp add: graphLabelFromEventTypeUri_def)
    moreover have "starts_with sha256_prefix (genesisChainRoot sha x)" for x by (simp add: genesisChainRoot_def)
    ultimately have "chain_parent (hash_ids ?infos) (record_node sha canon ed_verify nowMs opts c)
        = (if ?root = genesisChainRoot sha (member_string (in_record c) ''context_id'') \<or> ?root = [] then None
           else map_of (hash_ids ?infos) (remove_first sha256_prefix ?root))"
      by (auto simp: chain_parent_def record_node_def Let_def)
    then have "chain_parent (hash_ids ?infos) (record_node sha canon ed_verify nowMs opts c) = Some i
        \<longleftrightarrow> ?root \<noteq> genesisChainRoot sha (member_string (in_record c) ''context_id'') \<and> ?root \<noteq> []
          \<and> map_of (hash_ids ?infos) (remove_first sha256_prefix ?root) = Some i" by simp
    also have "map_of (hash_ids ?infos) (remove_first sha256_prefix ?root) = Some i
        \<longleftrightarrow> (\<exists>p \<in> set ?infos. in_hash p = remove_first sha256_prefix ?root \<and> in_nodeId p = i)"
      by (rule hash_ids_iff) (rule ids)
    finally show ?thesis unfolding chains_to_def Let_def by metis
  qed
  have id: "gn_id (record_node sha canon ed_verify nowMs opts c) = in_nodeId c" for c by (simp add: record_node_def Let_def)
  have gap: "chain_parent h (gap_node sha g) = None" for h g by (simp add: chain_parent_def gap_node_def)
  have "(\<exists>n \<in> set (graph_base sha canon ed_verify nowMs records gaps opts). gn_id n = j \<and> chain_parent (hash_ids ?infos) n = Some i)
      \<longleftrightarrow> (\<exists>c \<in> set ?infos. in_nodeId c = j \<and> chain_parent (hash_ids ?infos) (record_node sha canon ed_verify nowMs opts c) = Some i)"
    using gap id by (auto simp: graph_base_def base_nodes_def bex_Un)
  then show ?thesis unfolding chain_pairs_mem parent by blast
qed

lemma session_edges_full:
  assumes "base_ok (hash_ids infos) nodes" and "\<not> bo_compact opts" and "session_edges opts infos nodes = Some es"
  shows "hop_in es i t j
    \<longleftrightarrow> t = CHAIN_PRECEDES \<and> (i, j) \<in> set (chain_pairs (hash_ids infos) nodes)
      \<or> t = SESSION_PRECEDES \<and> (\<exists>n n'. unchained (hash_ids infos) nodes n n' \<and> gn_timestamp n < gn_timestamp n' \<and> gn_id n = i \<and> gn_id n' = j)
      \<or> t = SESSION_PARALLEL \<and> (\<exists>n n'. unchained (hash_ids infos) nodes n n' \<and> gn_timestamp n = gn_timestamp n' \<and> gn_id n = i \<and> gn_id n' = j)"
proof -
  obtain m where m: "fold_option (chain_step (bo_compact opts) (hash_ids infos)) nodes ([], [], [])
      = Some (map (\<lambda>(p, i). plain_edge CHAIN_PRECEDES True p i) (chain_pairs (hash_ids infos) nodes), chain_keys (chain_pairs (hash_ids infos) nodes), m)"
    using chain_fold by blast
  then have "es = full_session_edges (chain_keys (chain_pairs (hash_ids infos) nodes)) (map snd (group_by gn_context_id nodes))
      (map (\<lambda>(p, i). plain_edge CHAIN_PRECEDES True p i) (chain_pairs (hash_ids infos) nodes))"
    using assms(2, 3) by (simp add: session_edges_def)
  then show ?thesis using full_session_hops [OF assms(1)] by simp
qed

lemma session_edges_compact:
  assumes "base_ok (hash_ids infos) nodes" and "bo_compact opts" and "session_edges opts infos nodes = Some es"
  shows "hop_in es i t j
    \<longleftrightarrow> t = CHAIN_PRECEDES \<and> (i, j) \<in> set (chain_pairs (hash_ids infos) nodes)
      \<or> t = SESSION_PRECEDES \<and> (\<exists>n n'. (n, n') \<in> set (neighbours (map snd (group_by gn_context_id nodes)))
          \<and> unlinked (hash_ids infos) nodes n n' \<and> gn_timestamp n < gn_timestamp n' \<and> gn_id n = i \<and> gn_id n' = j)
      \<or> t = SESSION_PARALLEL \<and> (\<exists>n n'. unlinked (hash_ids infos) nodes n n' \<and> gn_timestamp n = gn_timestamp n' \<and> gn_id n = i \<and> gn_id n' = j)"
proof -
  obtain m where m: "fold_option (chain_step (bo_compact opts) (hash_ids infos)) nodes ([], [], [])
      = Some (map (\<lambda>(p, i). plain_edge CHAIN_PRECEDES True p i) (chain_pairs (hash_ids infos) nodes), chain_keys (chain_pairs (hash_ids infos) nodes), m)"
    "bo_compact opts \<longrightarrow> chain.joins (chain_pairs (hash_ids infos) nodes) m"
    using chain_fold by blast
  then have "compact_session_edges (chain_keys (chain_pairs (hash_ids infos) nodes)) (map snd (group_by gn_context_id nodes))
      (map (\<lambda>(p, i). plain_edge CHAIN_PRECEDES True p i) (chain_pairs (hash_ids infos) nodes)) m = Some es"
    using assms(2, 3) by (simp add: session_edges_def)
  then show ?thesis using compact_session_hops [OF assms(1) m(2) [rule_format, OF assms(2)]] by auto
qed

text \<open>Chain edges, in both modes. There is a \<open>CHAIN_PRECEDES\<close> edge from \<open>i\<close> to \<open>j\<close> exactly when these are the ids
  of two records of which the second names the first as its parent: its \<open>chain_root\<close>, without the prefix, is
  the hash of the first, and it is not the root of a new session.\<close>

theorem chain_edges_spec:
  assumes "buildGraph sha canon ed_verify nowMs records gaps opts = Inr (Some g)"
    and "distinct (map gn_id (graph_base sha canon ed_verify nowMs records gaps opts))"
  shows "hop g i CHAIN_PRECEDES j \<longleftrightarrow> (\<exists>p \<in> set (graph_infos sha canon records). \<exists>c \<in> set (graph_infos sha canon records).
    chains_to sha p c \<and> in_nodeId p = i \<and> in_nodeId c = j)"
proof -
  let ?infos = "graph_infos sha canon records" and ?nodes = "graph_base sha canon ed_verify nowMs records gaps opts"
  obtain es where es: "session_edges opts ?infos ?nodes = Some es" "\<forall>i j t. t \<in> session_types \<longrightarrow> hop g i t j = hop_in es i t j"
    using built_session_hops [OF assms(1)] by blast
  have "hop_in es i CHAIN_PRECEDES j \<longleftrightarrow> (i, j) \<in> set (chain_pairs (hash_ids ?infos) ?nodes)"
    using session_edges_full [OF graph_base_ok [OF assms(2)] _ es(1)] session_edges_compact [OF graph_base_ok [OF assms(2)] _ es(1)]
    by (cases "bo_compact opts") simp_all
  with es(2) show ?thesis by (simp add: session_types_def built_chain_pairs)
qed

lemma built_chain_hop:
  assumes "buildGraph sha canon ed_verify nowMs records gaps opts = Inr (Some g)"
    and "distinct (map gn_id (graph_base sha canon ed_verify nowMs records gaps opts))"
  shows "(i, j) \<in> set (chain_pairs (hash_ids (graph_infos sha canon records)) (graph_base sha canon ed_verify nowMs records gaps opts))
    \<longleftrightarrow> hop g i CHAIN_PRECEDES j"
proof -
  let ?infos = "graph_infos sha canon records" and ?nodes = "graph_base sha canon ed_verify nowMs records gaps opts"
  obtain es where es: "session_edges opts ?infos ?nodes = Some es" "\<forall>i j t. t \<in> session_types \<longrightarrow> hop g i t j = hop_in es i t j"
    using built_session_hops [OF assms(1)] by blast
  then show ?thesis
    using session_edges_full [OF graph_base_ok [OF assms(2)] _ es(1)] session_edges_compact [OF graph_base_ok [OF assms(2)] _ es(1)]
    by (cases "bo_compact opts") (simp_all add: session_types_def)
qed


text \<open>Two ids are in one component when chain edges lead from one to the other, in whatever direction.\<close>

definition chain_component :: "GraphResponse \<Rightarrow> (string \<times> string) set" where
  "chain_component g = {(a, b). hop g a CHAIN_PRECEDES b \<or> hop g b CHAIN_PRECEDES a}\<^sup>*"

lemma built_linked:
  assumes "buildGraph sha canon ed_verify nowMs records gaps opts = Inr (Some g)"
    and "distinct (map gn_id (graph_base sha canon ed_verify nowMs records gaps opts))"
  shows "linked (chain_pairs (hash_ids (graph_infos sha canon records)) (graph_base sha canon ed_verify nowMs records gaps opts))
    = chain_component g"
proof -
  let ?ps = "chain_pairs (hash_ids (graph_infos sha canon records)) (graph_base sha canon ed_verify nowMs records gaps opts)"
  have "set ?ps \<union> (set ?ps)\<inverse> = {(a, b). hop g a CHAIN_PRECEDES b \<or> hop g b CHAIN_PRECEDES a}"
    using built_chain_hop [OF assms] by auto
  then show ?thesis by (simp only: linked_def chain_component_def)
qed

text \<open>Session edges in the compact mode. A \<open>SESSION_PRECEDES\<close> edge joins two nodes exactly when they are
  neighbours in the order by timestamp and id of their context, their timestamps differ and they are in
  different chain components; a \<open>SESSION_PARALLEL\<close> edge exactly when they share context and timestamp and are
  in different components. The parent pointers compute the components.\<close>

theorem compact_session_edges_spec:
  assumes "buildGraph sha canon ed_verify nowMs records gaps opts = Inr (Some g)"
    and "distinct (map gn_id (graph_base sha canon ed_verify nowMs records gaps opts))" and "bo_compact opts"
  shows "(hop g i SESSION_PRECEDES j \<longleftrightarrow> (\<exists>n n'.
        (n, n') \<in> set (neighbours (map snd (group_by gn_context_id (graph_base sha canon ed_verify nowMs records gaps opts))))
        \<and> gn_id n = i \<and> gn_id n' = j \<and> gn_timestamp n < gn_timestamp n' \<and> (i, j) \<notin> chain_component g))
    \<and> (hop g i SESSION_PARALLEL j \<longleftrightarrow> (\<exists>n \<in> set (graph_base sha canon ed_verify nowMs records gaps opts).
      \<exists>n' \<in> set (graph_base sha canon ed_verify nowMs records gaps opts). gn_id n = i \<and> gn_id n' = j
        \<and> gn_context_id n = gn_context_id n' \<and> gn_timestamp n = gn_timestamp n' \<and> (i, j) \<notin> chain_component g))" (is "?P \<and> ?Q")
proof -
  let ?infos = "graph_infos sha canon records" and ?nodes = "graph_base sha canon ed_verify nowMs records gaps opts"
  note ok = graph_base_ok [OF assms(2)]
  obtain es where es: "session_edges opts ?infos ?nodes = Some es" "\<forall>i j t. t \<in> session_types \<longrightarrow> hop g i t j = hop_in es i t j"
    using built_session_hops [OF assms(1)] by blast
  have un: "unlinked (hash_ids ?infos) ?nodes n n' \<longleftrightarrow> n \<in> set ?nodes \<and> n' \<in> set ?nodes
      \<and> gn_context_id n = gn_context_id n' \<and> (gn_id n, gn_id n') \<notin> chain_component g" for n n'
    by (simp add: unlinked_def built_linked [OF assms(1, 2)])
  have hops: "hop g i SESSION_PRECEDES j = hop_in es i SESSION_PRECEDES j" "hop g i SESSION_PARALLEL j = hop_in es i SESSION_PARALLEL j"
    using es(2) by (simp_all add: session_types_def)
  have ?P unfolding hops session_edges_compact [OF ok assms(3) es(1)] un using neighbours_mem [of _ _ ?nodes] by auto
  moreover have ?Q unfolding hops session_edges_compact [OF ok assms(3) es(1)] un by auto
  ultimately show ?thesis ..
qed

text \<open>The compact graph is part of the full one. Every chain and session edge that the compact mode derives
  is an edge of the graph that the full mode derives from the same input.\<close>

theorem compact_edges_are_full_edges:
  assumes "buildGraph sha canon ed_verify nowMs records gaps opts = Inr (Some g)" and "\<not> bo_compact opts"
    and "buildGraph sha canon ed_verify nowMs records gaps (opts\<lparr>bo_compact := True\<rparr>) = Inr (Some g')"
    and "distinct (map gn_id (graph_base sha canon ed_verify nowMs records gaps opts))"
    and "t \<in> session_types" and "hop g' i t j"
  shows "hop g i t j"
proof -
  let ?opts = "opts\<lparr>bo_compact := True\<rparr>"
  let ?infos = "graph_infos sha canon records" and ?nodes = "graph_base sha canon ed_verify nowMs records gaps opts"
  have base: "graph_base sha canon ed_verify nowMs records gaps ?opts = ?nodes"
    by (simp add: graph_base_def base_nodes_def record_node_def)
  note ok = graph_base_ok [OF assms(4)]
  obtain es where es: "session_edges opts ?infos ?nodes = Some es" "\<forall>i j t. t \<in> session_types \<longrightarrow> hop g i t j = hop_in es i t j"
    using built_session_hops [OF assms(1)] by blast
  obtain es' where es': "session_edges ?opts ?infos ?nodes = Some es'" "\<forall>i j t. t \<in> session_types \<longrightarrow> hop g' i t j = hop_in es' i t j"
    using built_session_hops [OF assms(3)] by (auto simp: base)
  have compact_mode: "bo_compact ?opts" by simp
  have "hop_in es' i t j" using es'(2) assms(5, 6) by simp
  then have "hop_in es i t j"
    unfolding session_edges_full [OF ok assms(2) es(1)] session_edges_compact [OF ok compact_mode es'(1)]
    using unlinked_unchained by blast
  with es(2) assms(5) show ?thesis by simp
qed

text \<open>Edges to transactions. The graph has a \<open>CONVERGES_ON\<close> edge from each tool call and unsigned hop to every
  transaction of its context, a \<open>CROSS_SESSION\<close> edge from each tool call to every transaction of another context
  that carries the same session token, when these are asked for, and no other edge of these kinds.\<close>

theorem transaction_edges_spec:
  assumes "buildGraph sha canon ed_verify nowMs records gaps opts = Inr (Some g)"
  shows "(hop g i CONVERGES_ON j \<longleftrightarrow> (\<exists>n \<in> set (graph_base sha canon ed_verify nowMs records gaps opts).
      \<exists>tx \<in> set (graph_base sha canon ed_verify nowMs records gaps opts). gn_context_id n = gn_context_id tx
        \<and> contributor n \<and> is_transaction_node tx \<and> gn_id n = i \<and> gn_id tx = j))
    \<and> (hop g i CROSS_SESSION j \<longleftrightarrow> bo_includeCrossSession opts
      \<and> (\<exists>n \<in> set (graph_base sha canon ed_verify nowMs records gaps opts).
      \<exists>tx \<in> set (graph_base sha canon ed_verify nowMs records gaps opts). is_transaction_node tx
        \<and> gn_event_type n = Tool_call \<and> gn_context_id n \<noteq> gn_context_id tx
        \<and> same_token (graph_infos sha canon records) n tx \<and> gn_id n = i \<and> gn_id tx = j))"
  using derived_hops(2, 3) [OF infos_are_base built_cases [OF assms]] by simp

text \<open>Contribution in terms of edges to transactions, which are nodes from before placeholders were added.\<close>

lemma contributing_iff:
  assumes "buildGraph sha canon ed_verify nowMs records gaps opts = Inr (Some g)"
  shows "n \<in> set (identifyContributingNodes g) \<longleftrightarrow> n \<in> set (graph_base sha canon ed_verify nowMs records gaps opts) \<and> contributor n
    \<and> (\<exists>tx \<in> set (graph_base sha canon ed_verify nowMs records gaps opts). is_transaction_node tx
        \<and> (hop g (gn_id n) CONVERGES_ON (gn_id tx) \<or> hop g (gn_id n) CROSS_SESSION (gn_id tx)))"
proof -
  let ?nodes = "graph_base sha canon ed_verify nowMs records gaps opts"
  let ?E = "{e \<in> set (gr_edges g). (ge_type e = CONVERGES_ON \<or> ge_type e = CROSS_SESSION) \<and> ge_target e \<in> transactions g}"
  note derived = built_cases [OF assms]
  obtain ns where ns: "gr_nodes g = ?nodes @ ns" "\<forall>n \<in> set ns. gn_event_type n = Dangling_node"
    using derived_hops(7) [OF infos_are_base derived] by blast
  have base: "n \<in> set ?nodes" if "n \<in> set (gr_nodes g)" "gn_event_type n \<noteq> Dangling_node" for n
    using that ns by auto
  have "gn_id n \<in> ge_source ` ?E \<longleftrightarrow> (\<exists>tx \<in> set ?nodes. is_transaction_node tx
      \<and> (hop g (gn_id n) CONVERGES_ON (gn_id tx) \<or> hop g (gn_id n) CROSS_SESSION (gn_id tx)))" (is "?L \<longleftrightarrow> ?R")
  proof
    assume ?L
    then obtain e where e: "e \<in> set (gr_edges g)" "ge_type e = CONVERGES_ON \<or> ge_type e = CROSS_SESSION" "ge_target e \<in> transactions g" "ge_source e = gn_id n"
      by auto
    then obtain tx where "tx \<in> set (gr_nodes g)" "gn_event_type tx = Transaction" "gn_id tx = ge_target e" by (auto simp: transactions_def)
    moreover from this have "tx \<in> set ?nodes" using base by simp
    ultimately show ?R using e by (metis hop_def is_transaction_node_def)
  next
    assume ?R
    then obtain tx t where tx: "tx \<in> set ?nodes" "gn_event_type tx = Transaction" "hop g (gn_id n) t (gn_id tx)" "t = CONVERGES_ON \<or> t = CROSS_SESSION"
      by (auto simp: is_transaction_node_def)
    then obtain e where "e \<in> set (gr_edges g)" "ge_type e = t" "ge_source e = gn_id n" "ge_target e = gn_id tx"
      using derived_hops(8) [OF infos_are_base derived] unfolding hop_def by metis
    moreover have "gn_id tx \<in> transactions g" using tx(1, 2) ns(1) by (auto simp: transactions_def)
    ultimately show ?L using tx(4) by (intro image_eqI [of _ _ e]) auto
  qed
  moreover have "contributor n \<Longrightarrow> n \<in> set (gr_nodes g) \<longleftrightarrow> n \<in> set ?nodes"
    using base [of n] ns(1) by (auto simp: contributor_def)
  moreover have "n \<in> set (identifyContributingNodes g) \<longleftrightarrow> n \<in> set (gr_nodes g) \<and> contributor n \<and> gn_id n \<in> ge_source ` ?E"
    unfolding identifyContributingNodes_def Let_def set_sort_by contributor_def by (simp add: image_def)
  ultimately show ?thesis by blast
qed


end
