(* ===== verification/Compact_Order.thy ===== *)
theory Compact_Order
  imports Built_Graph
begin

text \<open>
  What the compact mode of the graph builder keeps of the order of a session. The compact edges imply
  the order by timestamp when chains do not fork, timestamps grow along them and no two nodes of a
  context share one; the sessions of \<open>Graph_Cases\<close> show that none of this can be left out.
\<close>

text \<open>The order that the edges of a graph imply.\<close>

definition happens_before :: "GraphResponse \<Rightarrow> (string \<times> string) set" where
  "happens_before g = {(i, j). hop g i CHAIN_PRECEDES j \<or> hop g i SESSION_PRECEDES j}\<^sup>+"

lemma consecutive_nth: "Suc k < length xs \<Longrightarrow> (xs ! k, xs ! Suc k) \<in> set (consecutive xs)"
  by (cases xs) (auto simp: consecutive_def set_zip intro!: exI [of _ k])

lemma sorted_wrt_consecutive:
  assumes "\<And>a b. (a, b) \<in> set (consecutive xs) \<Longrightarrow> (f a, f b) \<in> r\<^sup>+"
  shows "sorted_wrt (\<lambda>a b. (f a, f b) \<in> r\<^sup>+) xs"
proof -
  have "transp (\<lambda>a b. (f a, f b) \<in> r\<^sup>+)" by (rule transpI) (rule trancl_trans)
  then show ?thesis using assms consecutive_nth by (auto simp: sorted_wrt_iff_nth_Suc_transp)
qed

lemma sorted_wrt_pair:
  assumes "sorted_wrt P xs" and "sorted_wrt Q xs" and "a \<in> set xs" "b \<in> set xs" "a \<noteq> b" "\<not> Q b a"
  shows "P a b"
proof -
  obtain i j where ij: "i < length xs" "xs ! i = a" "j < length xs" "xs ! j = b"
    using assms(3, 4) by (auto simp: in_set_conv_nth)
  have "i < j"
  proof (rule ccontr)
    assume "\<not> i < j"
    with ij assms(5) have "j < i" by (cases "i = j") auto
    then have "Q b a" using assms(2) ij by (auto simp: sorted_wrt_iff_nth_less)
    with assms(6) show False by blast
  qed
  then show ?thesis using assms(1) ij by (auto simp: sorted_wrt_iff_nth_less)
qed

lemma trancl_ends:
  fixes f :: "'a \<Rightarrow> 'b" and ts :: "'a \<Rightarrow> 'c :: order"
  assumes step: "\<And>i j. (i, j) \<in> r \<Longrightarrow> \<exists>a \<in> A. \<exists>b \<in> A. f a = i \<and> f b = j \<and> ts a < ts b" and inj: "inj_on f A" and "(i, j) \<in> r\<^sup>+"
  shows "\<exists>a \<in> A. \<exists>b \<in> A. f a = i \<and> f b = j \<and> ts a < ts b"
  using assms(3)
proof (induction rule: trancl_induct)
  case (step j k)
  then obtain a b where ab: "a \<in> A" "b \<in> A" "f a = i" "f b = j" "ts a < ts b" by blast
  obtain c d where cd: "c \<in> A" "d \<in> A" "f c = j" "f d = k" "ts c < ts d" using assms(1) [OF step(2)] by blast
  have "b = c" using ab cd inj by (simp add: inj_on_def)
  then have "ts a < ts d" using ab(5) cd(5) by (meson less_trans)
  with ab cd show ?case by blast
qed (rule assms(1))

text \<open>A relation in which neither targets nor sources repeat is a set of paths.\<close>

lemma paths_linked:
  assumes "\<And>x y z. (x, y) \<in> r \<Longrightarrow> (x, z) \<in> r \<Longrightarrow> y = z" and "\<And>x y z. (y, x) \<in> r \<Longrightarrow> (z, x) \<in> r \<Longrightarrow> y = z"
    and "(a, b) \<in> (r \<union> r\<inverse>)\<^sup>*"
  shows "(a, b) \<in> r\<^sup>* \<or> (b, a) \<in> r\<^sup>*"
  using assms(3)
proof (induction rule: rtrancl_induct)
  case (step y z)
  then consider "(a, y) \<in> r\<^sup>*" "(y, z) \<in> r" | "(a, y) \<in> r\<^sup>*" "(z, y) \<in> r"
    | "(y, a) \<in> r\<^sup>*" "(y, z) \<in> r" | "(y, a) \<in> r\<^sup>*" "(z, y) \<in> r" by blast
  then show ?case
  proof cases
    case 1 then show ?thesis by (meson rtrancl.rtrancl_into_rtrancl)
  next
    case 2
    show ?thesis using 2(1)
    proof (cases rule: rtranclE)
      case base with 2(2) show ?thesis by blast
    next
      case (step w)
      with assms(2) [OF 2(2)] have "z = w" by blast
      with step show ?thesis by blast
    qed
  next
    case 3
    show ?thesis using 3(1)
    proof (cases rule: converse_rtranclE)
      case base with 3(2) show ?thesis by blast
    next
      case (step w)
      with assms(1) [OF 3(2)] have "z = w" by blast
      with step show ?thesis by blast
    qed
  next
    case 4 then show ?thesis by (meson converse_rtrancl_into_rtrancl)
  qed
qed simp

lemma parents_unique:
  assumes "distinct (map gn_id (graph_base sha canon ed_verify nowMs records gaps opts))"
    and "(i, j) \<in> set (chain_pairs (hash_ids (graph_infos sha canon records)) (graph_base sha canon ed_verify nowMs records gaps opts))"
    and "(i', j) \<in> set (chain_pairs (hash_ids (graph_infos sha canon records)) (graph_base sha canon ed_verify nowMs records gaps opts))"
  shows "i = i'"
proof -
  have eq: "n = n'" if "n \<in> set (graph_base sha canon ed_verify nowMs records gaps opts)"
    "n' \<in> set (graph_base sha canon ed_verify nowMs records gaps opts)" "gn_id n = gn_id n'" for n n'
    using base_ok_eq [OF graph_base_ok [OF assms(1)] that] .
  show ?thesis using assms(2, 3) unfolding chain_pairs_mem by (metis eq option.inject)
qed

text \<open>The nodes of a context, in the order of the compact mode, have sorted timestamps.\<close>

lemma session_sorted: "sorted_wrt (\<lambda>a b. gn_timestamp a \<le> gn_timestamp b) (sort_by node_order ns)"
  by (rule sorted_sort_by) (auto simp: node_order_def split: if_splits)

lemma session_neighbours:
  assumes "n \<in> set nodes"
    and "(a, b) \<in> set (consecutive (sort_by node_order (filter (\<lambda>y. gn_context_id y = gn_context_id n) nodes)))"
  shows "(a, b) \<in> set (neighbours (map snd (group_by gn_context_id nodes)))"
proof -
  have "filter (\<lambda>y. gn_context_id y = gn_context_id n) nodes \<in> set (map snd (group_by gn_context_id nodes))"
    unfolding groups_mem using assms(1) by blast
  with assms(2) show ?thesis unfolding neighbours_def set_concat set_map by blast
qed

lemma chain_pairs_ends:
  assumes "base_ok h nodes" and "(i, j) \<in> set (chain_pairs h nodes)"
  shows "\<exists>a \<in> set nodes. \<exists>b \<in> set nodes. gn_id a = i \<and> gn_id b = j"
proof -
  obtain b :: GraphNode where b: "b \<in> set nodes" "gn_id b = j" "chain_parent h b = Some i" using assms(2) unfolding chain_pairs_mem by blast
  then obtain k where "map_of h k = Some i" using chain_parent_hash by blast
  with assms(1) b show ?thesis by (force simp: base_ok_def)
qed

lemma linked_before:
  assumes ok: "base_ok h nodes"
    and forks: "\<And>x y z. (x, y) \<in> set (chain_pairs h nodes) \<Longrightarrow> (x, z) \<in> set (chain_pairs h nodes) \<Longrightarrow> y = z"
    and parents: "\<And>x y z. (y, x) \<in> set (chain_pairs h nodes) \<Longrightarrow> (z, x) \<in> set (chain_pairs h nodes) \<Longrightarrow> y = z"
    and grow: "\<And>n n'. n \<in> set nodes \<Longrightarrow> n' \<in> set nodes \<Longrightarrow> (gn_id n, gn_id n') \<in> set (chain_pairs h nodes) \<Longrightarrow> gn_timestamp n < gn_timestamp n'"
    and "a \<in> set nodes" "b \<in> set nodes" and "(gn_id a, gn_id b) \<in> linked (chain_pairs h nodes)" and before: "gn_timestamp a < gn_timestamp b"
  shows "(gn_id a, gn_id b) \<in> (set (chain_pairs h nodes))\<^sup>+"
proof -
  note eq = base_ok_eq [OF ok]
  have inj: "inj_on gn_id (set nodes)" using eq by (auto simp: inj_on_def)
  have ends: "\<exists>a \<in> set nodes. \<exists>b \<in> set nodes. gn_id a = i \<and> gn_id b = j \<and> gn_timestamp a < gn_timestamp b"
    if "(i, j) \<in> set (chain_pairs h nodes)" for i j using chain_pairs_ends [OF ok that] grow that by blast
  have "(gn_id a, gn_id b) \<in> (set (chain_pairs h nodes))\<^sup>* \<or> (gn_id b, gn_id a) \<in> (set (chain_pairs h nodes))\<^sup>*"
    by (rule paths_linked [OF forks parents]) (use assms(7) in \<open>simp_all add: linked_def\<close>)
  moreover have "gn_id a \<noteq> gn_id b" using eq [OF assms(5, 6)] before by auto
  ultimately consider "(gn_id a, gn_id b) \<in> (set (chain_pairs h nodes))\<^sup>+" | "(gn_id b, gn_id a) \<in> (set (chain_pairs h nodes))\<^sup>+"
    unfolding rtrancl_eq_or_trancl by metis
  then show ?thesis
  proof cases
    case 2
    then obtain x y where "x \<in> set nodes" "y \<in> set nodes" "gn_id x = gn_id b" "gn_id y = gn_id a" "gn_timestamp x < gn_timestamp y"
      using trancl_ends [OF ends inj] by blast
    with eq assms(5, 6) before show ?thesis by (metis less_asym)
  qed
qed

lemma neighbours_less:
  assumes "base_ok h nodes" and "\<forall>n \<in> set nodes. \<forall>n' \<in> set nodes. gn_context_id n = gn_context_id n' \<and> gn_timestamp n = gn_timestamp n' \<longrightarrow> n = n'"
    and "n \<in> set nodes" and "(a, b) \<in> set (consecutive (sort_by node_order (filter (\<lambda>y. gn_context_id y = gn_context_id n) nodes)))"
  shows "gn_timestamp a < gn_timestamp b"
proof -
  let ?xs = "sort_by node_order (filter (\<lambda>y. gn_context_id y = gn_context_id n) nodes)"
  have "distinct ?xs" using base_ok_distinct [OF assms(1)] by simp
  moreover obtain k where k: "Suc k < length ?xs" "a = ?xs ! k" "b = ?xs ! Suc k"
    using assms(4) unfolding consecutive_def in_set_conv_nth by (auto simp: nth_tl less_diff_conv simp del: length_sort_by)
  ultimately have "a \<noteq> b" by (simp add: nth_eq_iff_index_eq)
  moreover have "gn_timestamp a \<le> gn_timestamp b"
    using session_sorted [of "filter (\<lambda>y. gn_context_id y = gn_context_id n) nodes"] k by (auto simp: sorted_wrt_iff_nth_less)
  moreover have "a \<in> set nodes" "b \<in> set nodes" "gn_context_id a = gn_context_id b"
    using consecutive_mem [OF assms(4)] by auto
  ultimately show ?thesis using assms(2) by (metis order_le_less)
qed

text \<open>The two kinds of hop that a compact graph orders its nodes by, and what each says of the timestamps.\<close>

lemma compact_session_hop:
  assumes "buildGraph sha canon ed_verify nowMs records gaps opts = Inr (Some g)"
    and "distinct (map gn_id (graph_base sha canon ed_verify nowMs records gaps opts))" and "bo_compact opts"
  shows "hop g i SESSION_PRECEDES j \<longleftrightarrow>
    (\<exists>n n'. (n, n') \<in> set (neighbours (map snd (group_by gn_context_id (graph_base sha canon ed_verify nowMs records gaps opts))))
      \<and> unlinked (hash_ids (graph_infos sha canon records)) (graph_base sha canon ed_verify nowMs records gaps opts) n n'
      \<and> gn_timestamp n < gn_timestamp n' \<and> gn_id n = i \<and> gn_id n' = j)"
proof -
  obtain es where es: "session_edges opts (graph_infos sha canon records) (graph_base sha canon ed_verify nowMs records gaps opts) = Some es"
    "\<forall>i j t. t \<in> session_types \<longrightarrow> hop g i t j = hop_in es i t j"
    using built_session_hops [OF assms(1)] by blast
  then show ?thesis using session_edges_compact [OF graph_base_ok [OF assms(2)] assms(3) es(1)] by (simp add: session_types_def)
qed

lemma compact_hop_ends:
  assumes "buildGraph sha canon ed_verify nowMs records gaps opts = Inr (Some g)"
    and "distinct (map gn_id (graph_base sha canon ed_verify nowMs records gaps opts))" and "bo_compact opts"
    and grow: "\<forall>n \<in> set (graph_base sha canon ed_verify nowMs records gaps opts).
      \<forall>n' \<in> set (graph_base sha canon ed_verify nowMs records gaps opts).
        hop g (gn_id n) CHAIN_PRECEDES (gn_id n') \<longrightarrow> gn_timestamp n < gn_timestamp n'"
    and "hop g i CHAIN_PRECEDES j \<or> hop g i SESSION_PRECEDES j"
  shows "\<exists>a \<in> set (graph_base sha canon ed_verify nowMs records gaps opts).
    \<exists>b \<in> set (graph_base sha canon ed_verify nowMs records gaps opts). gn_id a = i \<and> gn_id b = j \<and> gn_timestamp a < gn_timestamp b"
proof (cases "hop g i CHAIN_PRECEDES j")
  case True
  then obtain a b where "a \<in> set (graph_base sha canon ed_verify nowMs records gaps opts)"
    "b \<in> set (graph_base sha canon ed_verify nowMs records gaps opts)" "gn_id a = i" "gn_id b = j"
    using chain_pairs_ends [OF graph_base_ok [OF assms(2)]] built_chain_hop [OF assms(1, 2)] by blast
  with True grow show ?thesis by blast
next
  case False
  with assms(5) compact_session_hop [OF assms(1-3)] neighbours_mem show ?thesis by blast
qed


end
