(* ===== verification/Graph_Cases.thy ===== *)
theory Graph_Cases
  imports Compact_Order
begin

text \<open>
  Small sessions, built by the definitions: a fork in the chain of a session, an unsigned hop that occurs
  twice. They show what the compact mode leaves out and where ids collide, and they are the inputs at
  which the theorems about built graphs are applied.
\<close>

section \<open>The sessions\<close>

text \<open>The canonical form of a record is its \<open>content_id\<close> here, and the digest is the identity.\<close>

definition case_canon :: "json \<Rightarrow> string option" where
  "case_canon v = (case v of JObj m \<Rightarrow> str_of (map_of m ''content_id'') | _ \<Rightarrow> None)"

definition case_record :: "string \<Rightarrow> string \<Rightarrow> rat \<Rightarrow> string \<Rightarrow> js_object" where
  "case_record i uri t chain_root =
     [(''content_id'', JStr i), (''event_type'', JStr uri), (''context_id'', JStr ''c''), (''timestamp'', JNum t),
      (''chain_root'', JStr chain_root), (''creator_key'', JStr ''k'')]"

definition case_id :: "string \<Rightarrow> string" where
  "case_id i = sha256_prefix @ hexEncode (encode_utf8 i)"

text \<open>A genesis record \<open>r\<close>, two records \<open>x\<close> and \<open>y\<close> that both chain to it, and a transaction that chains to \<open>y\<close>.\<close>

definition fork_records :: "js_object list" where
  "fork_records =
     [case_record ''r'' EVENT_TYPE_TOOL_CALL_URI 1 (case_id ''c''),
      case_record ''x'' EVENT_TYPE_TOOL_CALL_URI 2 (case_id ''r''),
      case_record ''y'' EVENT_TYPE_TOOL_CALL_URI 3 (case_id ''r''),
      case_record ''t'' EVENT_TYPE_TRANSACTION_URI 4 (case_id ''y'')]"

definition case_options :: "bool \<Rightarrow> BuildGraphOptions" where
  "case_options compactEdges =
     \<lparr>bo_includeGapNodes = True, bo_includeCrossSession = False, bo_revocations = None, bo_logIndexLookup = None,
      bo_compact = compactEdges, bo_resolveRecord = None, bo_resolveProvenance = None\<rparr>"

definition case_build :: "js_object list \<Rightarrow> GapNode list \<Rightarrow> bool \<Rightarrow> GraphResponse option result" where
  "case_build records gaps compactEdges =
     buildGraph (\<lambda>x. x) case_canon (\<lambda>_ _ _. False) 5 records gaps (case_options compactEdges)"

definition edges_of :: "GraphResponse option result \<Rightarrow> (string \<times> edge_type \<times> string) list" where
  "edges_of r = (case r of Inr (Some g) \<Rightarrow> map (\<lambda>e. (ge_source e, ge_type e, ge_target e)) (gr_edges g) | _ \<Rightarrow> [])"

text \<open>The pairs that the chain and session edges of a result order.\<close>

definition ordered_pairs :: "GraphResponse option result \<Rightarrow> (string \<times> string) list" where
  "ordered_pairs r = map (\<lambda>(i, t, j). (i, j)) (filter (\<lambda>(i, t, j). t = CHAIN_PRECEDES \<or> t = SESSION_PRECEDES) (edges_of r))"

definition directed_order :: "GraphResponse option result \<Rightarrow> bool" where
  "directed_order r = (case r of
       Inr (Some g) \<Rightarrow> list_all (\<lambda>e. ge_type e = CHAIN_PRECEDES \<or> ge_type e = SESSION_PRECEDES \<longrightarrow> ge_directed e) (gr_edges g)
     | _ \<Rightarrow> False)"

lemma order_hop:
  assumes "case_build records gaps c = Inr (Some g)" and "directed_order (case_build records gaps c)"
    and "t = CHAIN_PRECEDES \<or> t = SESSION_PRECEDES"
  shows "hop g i t j \<longleftrightarrow> (i, t, j) \<in> set (edges_of (case_build records gaps c))"
  using assms(2, 3) by (force simp: hop_def edges_of_def assms(1) directed_order_def list_all_iff)

lemma happens_before_pairs:
  assumes "case_build records gaps c = Inr (Some g)" and "directed_order (case_build records gaps c)"
  shows "happens_before g = (set (ordered_pairs (case_build records gaps c)))\<^sup>+"
proof -
  have "{(i, j). hop g i CHAIN_PRECEDES j \<or> hop g i SESSION_PRECEDES j} = set (ordered_pairs (case_build records gaps c))"
    using order_hop [OF assms] by (force simp: ordered_pairs_def)
  then show ?thesis by (simp add: happens_before_def)
qed

lemma case_build_returns: "directed_order (case_build records gaps c) \<Longrightarrow> \<exists>g. case_build records gaps c = Inr (Some g)"
  by (auto simp: directed_order_def split: sum.splits option.splits)

section \<open>What the compact mode leaves out\<close>

lemma fork_directed: "directed_order (case_build fork_records [] False)" "directed_order (case_build fork_records [] True)"
  by code_simp+

lemma fork_pairs:
  "ordered_pairs (case_build fork_records [] False) =
    [(case_id ''r'', case_id ''x''), (case_id ''r'', case_id ''y''), (case_id ''y'', case_id ''t''),
     (case_id ''r'', case_id ''t''), (case_id ''x'', case_id ''y''), (case_id ''x'', case_id ''t'')]"
  "ordered_pairs (case_build fork_records [] True) =
    [(case_id ''r'', case_id ''x''), (case_id ''r'', case_id ''y''), (case_id ''y'', case_id ''t'')]"
  by code_simp+

lemma case_id_eq [simp]: "case_id [a] = case_id [b] \<longleftrightarrow> encode_utf8 [a] = encode_utf8 [b]"
  by (simp add: case_id_def)

text \<open>Three records without parents, the first two at one time.\<close>

definition tie_records :: "js_object list" where
  "tie_records =
     [case_record ''a'' EVENT_TYPE_TOOL_CALL_URI 1 [], case_record ''b'' EVENT_TYPE_TOOL_CALL_URI 1 [],
      case_record ''d'' EVENT_TYPE_TOOL_CALL_URI 2 []]"

lemma tie_directed: "directed_order (case_build tie_records [] False)" "directed_order (case_build tie_records [] True)"
  by code_simp+

lemma tie_pairs:
  "ordered_pairs (case_build tie_records [] False) = [(case_id ''a'', case_id ''d''), (case_id ''b'', case_id ''d'')]"
  "ordered_pairs (case_build tie_records [] True) = [(case_id ''b'', case_id ''d'')]"
  by code_simp+


text \<open>The nodes of a session before placeholders are added.\<close>

definition case_base :: "js_object list \<Rightarrow> GapNode list \<Rightarrow> bool \<Rightarrow> GraphNode list" where
  "case_base records gaps c = graph_base (\<lambda>x. x) case_canon (\<lambda>_ _ _. False) 5 records gaps (case_options c)"

definition fork_node :: "string \<Rightarrow> graph_label \<Rightarrow> string \<Rightarrow> rat \<Rightarrow> string \<Rightarrow> GraphNode" where
  "fork_node i l uri t parent =
     \<lparr>gn_id = case_id i, gn_event_type = l, gn_event_type_uri = Some uri, gn_content_id = Some i,
      gn_creator_key = Some ''k'', gn_chain_root = Some parent, gn_context_id = ''c'', gn_timestamp = t,
      gn_log_index = None, gn_verification_state = Unsigned, gn_is_genesis = (parent = case_id ''c''), gn_reference = None\<rparr>"

definition fork_nodes :: "GraphNode list" where
  "fork_nodes =
     [fork_node ''r'' Tool_call EVENT_TYPE_TOOL_CALL_URI 1 (case_id ''c''),
      fork_node ''x'' Tool_call EVENT_TYPE_TOOL_CALL_URI 2 (case_id ''r''),
      fork_node ''y'' Tool_call EVENT_TYPE_TOOL_CALL_URI 3 (case_id ''r''),
      fork_node ''t'' Transaction EVENT_TYPE_TRANSACTION_URI 4 (case_id ''y'')]"

lemma fork_base: "case_base fork_records [] c = fork_nodes"
  by (cases c) (code_simp)+

lemma fork_ids: "distinct (map gn_id (case_base fork_records [] c))"
  unfolding fork_base by code_simp

lemma fork_full: obtains g where "case_build fork_records [] False = Inr (Some g)"
  using case_build_returns [OF fork_directed(1)] by blast

lemma fork_compact: obtains g where "case_build fork_records [] True = Inr (Some g)"
  using case_build_returns [OF fork_directed(2)] by blast

lemmas case_defs = case_build_def case_base_def

theorem built_graph_well_formed_witness:
  "\<exists>g. case_build fork_records [] False = Inr (Some g) \<and> graph_closed g \<and> distinct (map gn_id (gr_nodes g))
    \<and> gr_node_count g = length (gr_nodes g) \<and> gr_edge_count g = length (gr_edges g)"
proof -
  obtain g where g: "case_build fork_records [] False = Inr (Some g)" by (rule fork_full)
  with built_graph_well_formed [OF g [unfolded case_defs] fork_ids [unfolded case_defs]] show ?thesis by blast
qed

lemma fork_infos: "map in_nodeId (graph_infos (\<lambda>x. x) case_canon fork_records) = map case_id [''r'', ''x'', ''y'', ''t'']"
  by code_simp

theorem chain_edges_spec_witness:
  "\<exists>g. case_build fork_records [] True = Inr (Some g) \<and> hop g (case_id ''r'') CHAIN_PRECEDES (case_id ''x'')
    \<and> (\<exists>p \<in> set (graph_infos (\<lambda>x. x) case_canon fork_records). \<exists>c \<in> set (graph_infos (\<lambda>x. x) case_canon fork_records).
        chains_to (\<lambda>x. x) p c \<and> in_nodeId p = case_id ''r'' \<and> in_nodeId c = case_id ''x'')"
proof -
  obtain g where g: "case_build fork_records [] True = Inr (Some g)" by (rule fork_compact)
  have "\<exists>p \<in> set (graph_infos (\<lambda>x. x) case_canon fork_records). \<exists>c \<in> set (graph_infos (\<lambda>x. x) case_canon fork_records).
        chains_to (\<lambda>x. x) p c \<and> in_nodeId p = case_id ''r'' \<and> in_nodeId c = case_id ''x''" by code_simp
  with g chain_edges_spec [OF g [unfolded case_defs] fork_ids [unfolded case_defs]] show ?thesis by blast
qed


text \<open>Two chains of one context, \<open>r\<close> before \<open>v\<close> and \<open>u\<close> before \<open>t\<close>, that take turns.\<close>

definition line_records :: "js_object list" where
  "line_records =
     [case_record ''r'' EVENT_TYPE_TOOL_CALL_URI 1 (case_id ''c''),
      case_record ''u'' EVENT_TYPE_TOOL_CALL_URI 2 (case_id ''z''),
      case_record ''v'' EVENT_TYPE_TOOL_CALL_URI 3 (case_id ''r''),
      case_record ''t'' EVENT_TYPE_TRANSACTION_URI 4 (case_id ''u'')]"

lemma line_directed: "directed_order (case_build line_records [] False)" "directed_order (case_build line_records [] True)"
  by code_simp+

lemma line_edges: "edges_of (case_build line_records [] True) =
    [(case_id ''r'', CHAIN_PRECEDES, case_id ''v''), (case_id ''u'', CHAIN_PRECEDES, case_id ''t''),
     (case_id ''r'', SESSION_PRECEDES, case_id ''u''), (case_id ''u'', SESSION_PRECEDES, case_id ''v''),
     (case_id ''v'', SESSION_PRECEDES, case_id ''t''),
     (case_id ''r'', CONVERGES_ON, case_id ''t''), (case_id ''u'', CONVERGES_ON, case_id ''t''),
     (case_id ''v'', CONVERGES_ON, case_id ''t'')]"
  by code_simp

lemma line_ids: "distinct (map gn_id (case_base line_records [] c))"
  by (cases c) (code_simp)+

lemma compact_on: "bo_compact (case_options True)" and compact_off: "\<not> bo_compact (case_options False)"
  and compact_update: "case_options False\<lparr>bo_compact := True\<rparr> = case_options True"
  by (simp_all add: case_options_def)

theorem compact_session_edges_spec_witness:
  "\<exists>g. case_build line_records [] True = Inr (Some g) \<and> hop g (case_id ''u'') SESSION_PRECEDES (case_id ''v'')
    \<and> (case_id ''u'', case_id ''v'') \<notin> chain_component g
    \<and> \<not> hop g (case_id ''u'') SESSION_PARALLEL (case_id ''u'')"
proof -
  obtain g where g: "case_build line_records [] True = Inr (Some g)" using case_build_returns [OF line_directed(2)] by blast
  have "hop g (case_id ''u'') SESSION_PRECEDES (case_id ''v'')"
    unfolding order_hop [OF g line_directed(2) disjI2 [OF refl]] line_edges by simp
  moreover have "(case_id ''u'', case_id ''u'') \<in> chain_component g" by (simp add: chain_component_def)
  ultimately show ?thesis
    using g compact_session_edges_spec [OF g [unfolded case_defs] line_ids [unfolded case_defs] compact_on] by blast
qed

theorem compact_edges_are_full_edges_witness:
  "\<exists>g g'. case_build line_records [] False = Inr (Some g) \<and> case_build line_records [] True = Inr (Some g')
    \<and> hop g' (case_id ''u'') SESSION_PRECEDES (case_id ''v'') \<and> hop g (case_id ''u'') SESSION_PRECEDES (case_id ''v'')"
proof -
  obtain g where g: "case_build line_records [] False = Inr (Some g)" using case_build_returns [OF line_directed(1)] by blast
  obtain g' where g': "case_build line_records [] True = Inr (Some g')" using case_build_returns [OF line_directed(2)] by blast
  have "hop g' (case_id ''u'') SESSION_PRECEDES (case_id ''v'')"
    unfolding order_hop [OF g' line_directed(2) disjI2 [OF refl]] line_edges by simp
  moreover from this have "hop g (case_id ''u'') SESSION_PRECEDES (case_id ''v'')"
    by (rule compact_edges_are_full_edges [OF g [unfolded case_defs] compact_off _ line_ids [unfolded case_defs], rotated 2])
      (use g' in \<open>simp_all add: case_build_def compact_update session_types_def\<close>)
  ultimately show ?thesis using g g' by blast
qed


theorem transaction_edges_spec_witness:
  "\<exists>g. case_build fork_records [] True = Inr (Some g) \<and> hop g (case_id ''x'') CONVERGES_ON (case_id ''t'')
    \<and> \<not> hop g (case_id ''t'') CONVERGES_ON (case_id ''t'') \<and> \<not> hop g (case_id ''x'') CROSS_SESSION (case_id ''t'')"
proof -
  obtain g where g: "case_build fork_records [] True = Inr (Some g)" by (rule fork_compact)
  note spec = transaction_edges_spec [OF g [unfolded case_defs], folded case_base_def, unfolded fork_base]
  have "\<exists>n \<in> set fork_nodes. \<exists>tx \<in> set fork_nodes. gn_context_id n = gn_context_id tx \<and> contributor n
      \<and> is_transaction_node tx \<and> gn_id n = case_id ''x'' \<and> gn_id tx = case_id ''t''" by code_simp
  moreover have "\<not> (\<exists>n \<in> set fork_nodes. \<exists>tx \<in> set fork_nodes. gn_context_id n = gn_context_id tx \<and> contributor n
      \<and> is_transaction_node tx \<and> gn_id n = case_id ''t'' \<and> gn_id tx = case_id ''t'')" by code_simp
  moreover have "\<not> bo_includeCrossSession (case_options True)" by (simp add: case_options_def)
  ultimately show ?thesis using g spec by blast
qed


section \<open>Unsigned hops that occur twice\<close>

definition hop_of :: "rat \<Rightarrow> GapNode" where
  "hop_of t = \<lparr>gp_tool_url = ''u'', gp_tool_name = ''n'', gp_context_id = ''c'', gp_timestamp = t\<rparr>"

definition hop_id :: string where
  "hop_id = ''gap:'' @ hexEncode (encode_utf8 ''u:n:c'')"

text \<open>Repeated unsigned hops collide. Two calls of one unsigned tool in one context become two nodes with one id,
  and the graph orders this id before itself: the ids of built graphs are distinct only when those of the
  records and hops are.\<close>

theorem repeated_hop_collides:
  "\<exists>g. case_build [] [hop_of 1, hop_of 2] False = Inr (Some g)
    \<and> map gn_id (gr_nodes g) = [hop_id, hop_id] \<and> hop g hop_id SESSION_PRECEDES hop_id"
proof -
  have run: "directed_order (case_build [] [hop_of 1, hop_of 2] False)" by code_simp
  then obtain g where g: "case_build [] [hop_of 1, hop_of 2] False = Inr (Some g)" using case_build_returns by blast
  have "case case_build [] [hop_of 1, hop_of 2] False of Inr (Some g) \<Rightarrow> map gn_id (gr_nodes g) = [hop_id, hop_id] | _ \<Rightarrow> False"
    by code_simp
  moreover have "hop g hop_id SESSION_PRECEDES hop_id"
    unfolding order_hop [OF g run disjI2 [OF refl]] by code_simp
  ultimately show ?thesis using g by simp
qed

end
