(* ===== verification/Record_Store.thy ===== *)
theory Record_Store
  imports Graph_Cases
begin

text \<open>
  The record store of the graph service (\<open>services/graph-node/src/store.ts\<close>): every record once, and
  maps that index them by context, creator, hash and the first half of the hash. The store of the code
  is a closure over its maps; here it is a record of them that the operations return updated. What the
  indexes answer is proved from the list of all records: they refine the abstract store \<open>first_adds\<close>,
  which keeps the first occurrence of each record and the first log index given for it.
\<close>

section \<open>State\<close>

record stored_record =
  sr_record :: js_object
  sr_recordHash :: string
  sr_token16 :: string

record record_store =
  rs_byContext :: "(string, js_object list) jsmap"
  rs_gapsByContext :: "(string, GapNode list) jsmap"
  rs_byCreator :: "(string, string list) jsmap"
  rs_seenRecordHashes :: "string list"
  rs_logIndexByHash :: "(string, int) jsmap"
  rs_recordByHash :: "(string, stored_record) jsmap"
  rs_hashesByToken16 :: "(string, string list) jsmap"
  rs_allRecords :: "stored_record list"

definition createRecordStore :: record_store where
  "createRecordStore =
     \<lparr>rs_byContext = [], rs_gapsByContext = [], rs_byCreator = [], rs_seenRecordHashes = [],
      rs_logIndexByHash = [], rs_recordByHash = [], rs_hashesByToken16 = [], rs_allRecords = []\<rparr>"

section \<open>Operations\<close>

text \<open>\<open>map.get(k) ?? []\<close>, and the element added to a \<open>Set\<close>.\<close>

definition get_list :: "(string, 'a list) jsmap \<Rightarrow> string \<Rightarrow> 'a list" where
  "get_list m k = (case map_of m k of None \<Rightarrow> [] | Some l \<Rightarrow> l)"

definition add_to_set :: "'a \<Rightarrow> 'a list \<Rightarrow> 'a list" where
  "add_to_set x xs = (if x \<in> set xs then xs else xs @ [x])"

definition set_index :: "string \<Rightarrow> int option \<Rightarrow> (string, int) jsmap \<Rightarrow> (string, int) jsmap" where
  "set_index recordHash logIndex m = (case logIndex of None \<Rightarrow> m | Some i \<Rightarrow> AList.update recordHash i m)"

definition insert_record :: "stored_record \<Rightarrow> int option \<Rightarrow> record_store \<Rightarrow> record_store" where
  "insert_record x logIndex s =
     (let context_id = member_string (sr_record x) ''context_id'';
          creator_key = member_string (sr_record x) ''creator_key''
      in \<lparr>rs_byContext = AList.update context_id (get_list (rs_byContext s) context_id @ [sr_record x]) (rs_byContext s),
          rs_gapsByContext = rs_gapsByContext s,
          rs_byCreator = AList.update creator_key (add_to_set context_id (get_list (rs_byCreator s) creator_key)) (rs_byCreator s),
          rs_seenRecordHashes = add_to_set (sr_recordHash x) (rs_seenRecordHashes s),
          rs_logIndexByHash = set_index (sr_recordHash x) logIndex (rs_logIndexByHash s),
          rs_recordByHash = AList.update (sr_recordHash x) x (rs_recordByHash s),
          rs_hashesByToken16 = AList.update (sr_token16 x)
            (get_list (rs_hashesByToken16 s) (sr_token16 x) @ [sr_recordHash x]) (rs_hashesByToken16 s),
          rs_allRecords = rs_allRecords s @ [x]\<rparr>)"

definition stored_of :: "(bytes \<Rightarrow> bytes) \<Rightarrow> (json \<Rightarrow> string option) \<Rightarrow> js_object \<Rightarrow> stored_record result" where
  "stored_of sha canon r =
     rbind (canonicalRecord canon r) (\<lambda>canonical.
       let digest = sha canonical
       in Inr \<lparr>sr_record = r, sr_recordHash = hexEncode digest, sr_token16 = base64urlEncode (take 16 digest)\<rparr>)"

text \<open>Whether the record was new, and the store.\<close>

definition addRecord ::
  "(bytes \<Rightarrow> bytes) \<Rightarrow> (json \<Rightarrow> string option) \<Rightarrow> js_object \<Rightarrow> int option \<Rightarrow> record_store \<Rightarrow> (bool \<times> record_store) result" where
  "addRecord sha canon r logIndex s =
     rbind (stored_of sha canon r) (\<lambda>x.
       if sr_recordHash x \<in> set (rs_seenRecordHashes s)
       then Inr (False, if map_of (rs_logIndexByHash s) (sr_recordHash x) = None
                        then s\<lparr>rs_logIndexByHash := set_index (sr_recordHash x) logIndex (rs_logIndexByHash s)\<rparr> else s)
       else Inr (True, insert_record x logIndex s))"

definition addGapNode :: "GapNode \<Rightarrow> record_store \<Rightarrow> record_store" where
  "addGapNode g s =
     s\<lparr>rs_gapsByContext := AList.update (gp_context_id g) (get_list (rs_gapsByContext s) (gp_context_id g) @ [g]) (rs_gapsByContext s)\<rparr>"

definition getRecordsByContextId :: "record_store \<Rightarrow> string \<Rightarrow> js_object list" where
  "getRecordsByContextId s contextId = get_list (rs_byContext s) contextId"

definition getGapNodesByContextId :: "record_store \<Rightarrow> string \<Rightarrow> GapNode list" where
  "getGapNodesByContextId s contextId = get_list (rs_gapsByContext s) contextId"

definition hasContext :: "record_store \<Rightarrow> string \<Rightarrow> bool" where
  "hasContext s contextId \<longleftrightarrow> map_of (rs_byContext s) contextId \<noteq> None \<or> map_of (rs_gapsByContext s) contextId \<noteq> None"

definition getLogIndex :: "record_store \<Rightarrow> string \<Rightarrow> int option" where
  "getLogIndex s recordHashHex = map_of (rs_logIndexByHash s) recordHashHex"

definition getAllRecords :: "record_store \<Rightarrow> (js_object \<times> int option) list" where
  "getAllRecords s = map (\<lambda>x. (sr_record x, getLogIndex s (sr_recordHash x))) (rs_allRecords s)"

definition getRecordCount :: "record_store \<Rightarrow> nat" where
  "getRecordCount s = length (rs_allRecords s)"

definition getContextCount :: "record_store \<Rightarrow> nat" where
  "getContextCount s = length (rs_byContext s)"

record StoredRecordReference =
  sf_record :: js_object
  sf_record_hash :: string
  sf_log_index :: "int option"

definition reference_to :: "record_store \<Rightarrow> stored_record \<Rightarrow> StoredRecordReference" where
  "reference_to s x =
     \<lparr>sf_record = sr_record x, sf_record_hash = sha256_prefix @ sr_recordHash x, sf_log_index = getLogIndex s (sr_recordHash x)\<rparr>"

definition getRecordByHash :: "record_store \<Rightarrow> string \<Rightarrow> StoredRecordReference option" where
  "getRecordByHash s recordHashHex = map_option (reference_to s) (map_of (rs_recordByHash s) recordHashHex)"

fun scan_hashes :: "record_store \<Rightarrow> string option \<Rightarrow> string list \<Rightarrow> StoredRecordReference option" where
  "scan_hashes s excludeContextId [] = None"
| "scan_hashes s excludeContextId (h # hs) =
     (case map_of (rs_recordByHash s) h of
        None \<Rightarrow> scan_hashes s excludeContextId hs
      | Some x \<Rightarrow>
          (case excludeContextId of
             None \<Rightarrow> Some (reference_to s x)
           | Some c \<Rightarrow> if c \<noteq> [] \<and> member_string (sr_record x) ''context_id'' = c
                       then scan_hashes s excludeContextId hs else Some (reference_to s x)))"

definition getRecordByToken16 :: "record_store \<Rightarrow> string \<Rightarrow> string option \<Rightarrow> StoredRecordReference option" where
  "getRecordByToken16 s token16 excludeContextId = scan_hashes s excludeContextId (get_list (rs_hashesByToken16 s) token16)"

section \<open>Sessions of a creator\<close>

record GraphSessionSummary =
  gs_context_id :: string
  gs_first_seen :: rat
  gs_last_seen :: rat
  gs_node_count :: nat
  gs_has_transaction :: bool
  gs_count_by_event_type :: "(string, nat) jsmap"
  gs_has_genesis :: bool

definition types_prefix :: string where
  "types_prefix = ''https://atrib.dev/v1/types/''"

definition session_label :: "js_object \<Rightarrow> string" where
  "session_label r =
     (let event_type = member_string r ''event_type''
      in if starts_with types_prefix event_type then drop (length types_prefix) event_type else event_type)"

text \<open>One round of the pass over the records of a session. The counts are a map here; in the code they are an
  object, on which a label such as \<open>constructor\<close> would find an inherited member instead of no count.\<close>

definition summary_step :: "string \<Rightarrow> js_object \<Rightarrow> GraphSessionSummary \<Rightarrow> GraphSessionSummary" where
  "summary_step expectedGenesis r m =
     (let t = timestamp_of r; label = session_label r
      in m\<lparr>gs_first_seen := (if t < gs_first_seen m then t else gs_first_seen m),
           gs_last_seen := (if gs_last_seen m < t then t else gs_last_seen m),
           gs_count_by_event_type := AList.update label
             (Suc (case map_of (gs_count_by_event_type m) label of None \<Rightarrow> 0 | Some n \<Rightarrow> n)) (gs_count_by_event_type m),
           gs_has_transaction := (gs_has_transaction m \<or> label = ''transaction''),
           gs_has_genesis := (gs_has_genesis m \<or> member_string r ''chain_root'' = expectedGenesis)\<rparr>)"

definition session_summary :: "(bytes \<Rightarrow> bytes) \<Rightarrow> record_store \<Rightarrow> string \<Rightarrow> GraphSessionSummary option" where
  "session_summary sha s contextId =
     (case getRecordsByContextId s contextId of
        [] \<Rightarrow> None
      | r # rs \<Rightarrow>
          Some (fold (summary_step (genesisChainRoot sha contextId)) (r # rs)
            \<lparr>gs_context_id = contextId, gs_first_seen = timestamp_of r, gs_last_seen = timestamp_of r,
             gs_node_count = Suc (length rs) + length (getGapNodesByContextId s contextId),
             gs_has_transaction = False, gs_count_by_event_type = [], gs_has_genesis = False\<rparr>))"

definition last_seen_order :: "GraphSessionSummary \<Rightarrow> GraphSessionSummary \<Rightarrow> int" where
  "last_seen_order a b = (if gs_last_seen b < gs_last_seen a then - 1 else if gs_last_seen a < gs_last_seen b then 1 else 0)"

definition getSessionsByCreatorKey :: "(bytes \<Rightarrow> bytes) \<Rightarrow> record_store \<Rightarrow> string \<Rightarrow> GraphSessionSummary list" where
  "getSessionsByCreatorKey sha s creatorKey =
     sort_by last_seen_order (List.map_filter (session_summary sha s) (get_list (rs_byCreator s) creatorKey))"

section \<open>The abstract store\<close>

text \<open>What happens to a store. The abstract store is the list of these events: of the records that were added
  the first of each hash counts, and of the log indices given for a hash the first.\<close>

datatype store_event = Add js_object "int option" | Gap GapNode

definition store_step ::
  "(bytes \<Rightarrow> bytes) \<Rightarrow> (json \<Rightarrow> string option) \<Rightarrow> store_event \<Rightarrow> record_store \<Rightarrow> record_store result" where
  "store_step sha canon e s =
     (case e of
        Add r i \<Rightarrow> rbind (addRecord sha canon r i s) (\<lambda>(new, s'). Inr s')
      | Gap g \<Rightarrow> Inr (addGapNode g s))"

fun run_store ::
  "(bytes \<Rightarrow> bytes) \<Rightarrow> (json \<Rightarrow> string option) \<Rightarrow> store_event list \<Rightarrow> record_store \<Rightarrow> record_store result" where
  "run_store sha canon [] s = Inr s"
| "run_store sha canon (e # es) s = rbind (store_step sha canon e s) (run_store sha canon es)"

fun first_by :: "('a \<Rightarrow> 'k) \<Rightarrow> 'a list \<Rightarrow> 'a list" where
  "first_by f [] = []"
| "first_by f (x # xs) = x # filter (\<lambda>y. f y \<noteq> f x) (first_by f xs)"

definition added :: "(bytes \<Rightarrow> bytes) \<Rightarrow> (json \<Rightarrow> string option) \<Rightarrow> store_event list \<Rightarrow> (stored_record \<times> int option) list" where
  "added sha canon es = List.map_filter (\<lambda>e. case e of
       Add r i \<Rightarrow> (case stored_of sha canon r of Inl _ \<Rightarrow> None | Inr x \<Rightarrow> Some (x, i)) | Gap g \<Rightarrow> None) es"

definition gaps_added :: "store_event list \<Rightarrow> GapNode list" where
  "gaps_added es = List.map_filter (\<lambda>e. case e of Add r i \<Rightarrow> None | Gap g \<Rightarrow> Some g) es"

definition distinct_records :: "(bytes \<Rightarrow> bytes) \<Rightarrow> (json \<Rightarrow> string option) \<Rightarrow> store_event list \<Rightarrow> stored_record list" where
  "distinct_records sha canon es = first_by sr_recordHash (map fst (added sha canon es))"

definition given_index :: "(stored_record \<times> int option) list \<Rightarrow> string \<Rightarrow> int option" where
  "given_index adds h = (case filter (\<lambda>(x, i). sr_recordHash x = h \<and> i \<noteq> None) adds of [] \<Rightarrow> None | (x, i) # _ \<Rightarrow> i)"

definition context_of :: "stored_record \<Rightarrow> string" where
  "context_of x = member_string (sr_record x) ''context_id''"

definition creator_key_of :: "stored_record \<Rightarrow> string" where
  "creator_key_of x = member_string (sr_record x) ''creator_key''"

lemma set_first_by: "f ` set (first_by f xs) = f ` set xs"
proof (induction xs)
  case (Cons x xs)
  have "f ` {y \<in> set (first_by f xs). f y \<noteq> f x} = f ` set (first_by f xs) - {f x}" by auto
  with Cons show ?case by auto
qed simp

lemma first_by_snoc: "first_by f (xs @ [x]) = (if f x \<in> f ` set xs then first_by f xs else first_by f xs @ [x])"
  by (induction xs) auto

lemma first_by_subset: "set (first_by f xs) \<subseteq> set xs"
  by (induction xs) auto

lemma distinct_first_by: "distinct (map f (first_by f xs))"
  by (induction xs) (auto simp: distinct_map intro: inj_on_subset)

lemma added_simps [simp]:
  "added sha canon [] = []"
  "added sha canon (es @ [e]) = added sha canon es @ added sha canon [e]"
  by (simp_all add: added_def map_filter_def)

lemma gaps_added_simps [simp]:
  "gaps_added [] = []"
  "gaps_added (es @ [e]) = gaps_added es @ gaps_added [e]"
  by (simp_all add: gaps_added_def map_filter_def)

lemma given_index_snoc:
  "given_index (adds @ [(x, i)]) h = (case given_index adds h of None \<Rightarrow> if sr_recordHash x = h then i else None | Some j \<Rightarrow> Some j)"
  by (auto simp: given_index_def split: list.splits dest: filter_eq_ConsD)

section \<open>The indexes agree with the list of records\<close>

definition uniques :: "'a list \<Rightarrow> 'a list" where
  "uniques xs = rev (remdups (rev xs))"

lemma uniques_snoc [simp]: "uniques (xs @ [x]) = add_to_set x (uniques xs)"
  by (simp add: uniques_def add_to_set_def)

lemma uniques_simps [simp]: "uniques [] = []" "set (uniques xs) = set xs" "distinct (uniques xs)"
  by (simp_all add: uniques_def)

definition indexed :: "record_store \<Rightarrow> stored_record list \<Rightarrow> bool" where
  "indexed s xs \<longleftrightarrow> rs_allRecords s = xs \<and> rs_seenRecordHashes s = map sr_recordHash xs \<and> distinct (map sr_recordHash xs)
     \<and> (\<forall>h. map_of (rs_recordByHash s) h = find (\<lambda>x. sr_recordHash x = h) xs)
     \<and> (\<forall>t. get_list (rs_hashesByToken16 s) t = map sr_recordHash (filter (\<lambda>x. sr_token16 x = t) xs))
     \<and> (\<forall>c. get_list (rs_byContext s) c = map sr_record (filter (\<lambda>x. context_of x = c) xs))
     \<and> map fst (rs_byContext s) = uniques (map context_of xs)
     \<and> (\<forall>k. get_list (rs_byCreator s) k = uniques (map context_of (filter (\<lambda>x. creator_key_of x = k) xs)))"

lemma indexed_empty: "indexed createRecordStore []"
  by (simp add: indexed_def createRecordStore_def get_list_def)

lemma get_list_update: "get_list (AList.update k l m) k' = (if k' = k then l else get_list m k')"
  by (simp add: get_list_def update_conv')

lemma keys_add_to_set: "map fst (AList.update k l m) = add_to_set k (map fst m)"
  by (simp add: add_to_set_def keys_update)

lemma find_snoc: "find P (xs @ [x]) = (case find P xs of None \<Rightarrow> if P x then Some x else None | Some y \<Rightarrow> Some y)"
  by (induction xs) auto

lemma indexed_insert:
  assumes "indexed s xs" and "sr_recordHash x \<notin> set (rs_seenRecordHashes s)"
  shows "indexed (insert_record x i s) (xs @ [x])"
proof -
  have new: "sr_recordHash x \<notin> sr_recordHash ` set xs" using assms by (auto simp: indexed_def)
  then have "find (\<lambda>y. sr_recordHash y = sr_recordHash x) xs = None" by (auto simp: find_None_iff image_iff)
  with assms new show ?thesis
    by (auto simp: indexed_def insert_record_def Let_def get_list_update keys_add_to_set find_snoc update_conv'
        context_of_def creator_key_of_def add_to_set_def split: option.splits)
qed

text \<open>The store after a list of events, as a function of the list.\<close>

definition store_of :: "(bytes \<Rightarrow> bytes) \<Rightarrow> (json \<Rightarrow> string option) \<Rightarrow> store_event list \<Rightarrow> record_store \<Rightarrow> bool" where
  "store_of sha canon es s \<longleftrightarrow> indexed s (distinct_records sha canon es)
     \<and> (\<forall>h. getLogIndex s h = given_index (added sha canon es) h)
     \<and> (\<forall>c. getGapNodesByContextId s c = filter (\<lambda>g. gp_context_id g = c) (gaps_added es))
     \<and> fst ` set (rs_gapsByContext s) = gp_context_id ` set (gaps_added es)"

lemma indexed_other:
  "indexed (s\<lparr>rs_logIndexByHash := m\<rparr>) xs = indexed s xs" "indexed (s\<lparr>rs_gapsByContext := g\<rparr>) xs = indexed s xs"
  by (simp_all add: indexed_def)

lemma distinct_records_add:
  assumes "stored_of sha canon r = Inr x"
  shows "distinct_records sha canon (es @ [Add r i]) = (if sr_recordHash x \<in> sr_recordHash ` set (distinct_records sha canon es)
      then distinct_records sha canon es else distinct_records sha canon es @ [x])"
proof -
  have "added sha canon [Add r i] = [(x, i)]" by (simp add: added_def map_filter_def assms)
  then show ?thesis by (simp add: distinct_records_def first_by_snoc set_first_by)
qed

lemma store_of_add:
  assumes s: "store_of sha canon es s" and add: "addRecord sha canon r i s = Inr (new, s')"
  shows "store_of sha canon (es @ [Add r i]) s'"
proof -
  obtain x where x: "stored_of sha canon r = Inr x" using add by (auto simp: addRecord_def rbind_Inr_iff)
  have one: "added sha canon [Add r i] = [(x, i)]" "gaps_added [Add r i] = []"
    by (simp_all add: added_def gaps_added_def map_filter_def x)
  note idx = s [unfolded store_of_def]
  have seen: "set (rs_seenRecordHashes s) = sr_recordHash ` set (distinct_records sha canon es)"
    using idx by (auto simp: indexed_def)
  show ?thesis
  proof (cases "sr_recordHash x \<in> set (rs_seenRecordHashes s)")
    case True
    with add have s': "s' = (if map_of (rs_logIndexByHash s) (sr_recordHash x) = None
                        then s\<lparr>rs_logIndexByHash := set_index (sr_recordHash x) i (rs_logIndexByHash s)\<rparr> else s)"
      by (simp add: addRecord_def x)
    have "getLogIndex s' h = given_index (added sha canon es @ [(x, i)]) h" for h
      using idx unfolding s' by (auto simp: getLogIndex_def given_index_snoc set_index_def update_conv' split: option.splits)
    moreover have "distinct_records sha canon (es @ [Add r i]) = distinct_records sha canon es"
      using True seen by (simp add: distinct_records_add [OF x])
    ultimately show ?thesis using idx unfolding s' by (auto simp: store_of_def one indexed_other getGapNodesByContextId_def)
  next
    case False
    with add have s': "s' = insert_record x i s" by (simp add: addRecord_def x)
    have none: "getLogIndex s (sr_recordHash x) = None"
    proof -
      have "sr_recordHash x \<notin> sr_recordHash ` set (map fst (added sha canon es))"
        using False seen unfolding distinct_records_def set_first_by by simp
      then have "filter (\<lambda>(y, j). sr_recordHash y = sr_recordHash x \<and> j \<noteq> None) (added sha canon es) = []"
        by (auto simp: filter_empty_conv image_iff)
      with idx show ?thesis by (simp add: given_index_def)
    qed
    have "getLogIndex s' h = given_index (added sha canon es @ [(x, i)]) h" for h
      using idx none unfolding s' by (auto simp: getLogIndex_def given_index_snoc insert_record_def Let_def set_index_def update_conv' split: option.splits)
    moreover have "distinct_records sha canon (es @ [Add r i]) = distinct_records sha canon es @ [x]"
      using False seen by (simp add: distinct_records_add [OF x])
    ultimately show ?thesis using idx indexed_insert [OF conjunct1 [OF idx] False, of i] unfolding s'
      by (auto simp: store_of_def one getGapNodesByContextId_def insert_record_def Let_def)
  qed
qed

lemma store_of_gap:
  assumes "store_of sha canon es s"
  shows "store_of sha canon (es @ [Gap g]) (addGapNode g s)"
proof -
  have one: "added sha canon [Gap g] = []" "gaps_added [Gap g] = [g]"
    by (simp_all add: added_def gaps_added_def map_filter_def)
  then have "distinct_records sha canon (es @ [Gap g]) = distinct_records sha canon es" by (simp add: distinct_records_def)
  with assms one show ?thesis
    by (auto simp: store_of_def addGapNode_def indexed_other getGapNodesByContextId_def get_list_update getLogIndex_def
        dom_update dest: arg_cong [where f = "\<lambda>A. x \<in> A" for x])
qed

lemma store_of_run:
  "run_store sha canon es s = Inr s' \<Longrightarrow> store_of sha canon es0 s \<Longrightarrow> store_of sha canon (es0 @ es) s'"
proof (induction es arbitrary: s es0)
  case (Cons e es)
  obtain s1 where s1: "store_step sha canon e s = Inr s1" "run_store sha canon es s1 = Inr s'"
    using Cons.prems(1) by (auto simp: rbind_Inr_iff)
  have "store_of sha canon (es0 @ [e]) s1"
    using s1(1) Cons.prems(2) store_of_add store_of_gap
    by (cases e) (auto simp: store_step_def rbind_Inr_iff)
  with Cons.IH [OF s1(2)] show ?case by fastforce
qed simp

lemma store_of_empty: "store_of sha canon [] createRecordStore"
  using indexed_empty by (simp add: store_of_def distinct_records_def getLogIndex_def given_index_def createRecordStore_def
      getGapNodesByContextId_def get_list_def)

lemmas store_of_built = store_of_run [OF _ store_of_empty, simplified]

lemma find_key: "distinct (map f ys) \<Longrightarrow> x \<in> set ys \<Longrightarrow> find (\<lambda>y. f y = f x) ys = Some x"
  by (induction ys) (auto simp: image_iff)

lemma scan_hashes_find:
  assumes "\<And>h. map_of (rs_recordByHash s) h = find (\<lambda>x. sr_recordHash x = h) ys" and "distinct (map sr_recordHash ys)" and "set xs \<subseteq> set ys"
  shows "scan_hashes s c (map sr_recordHash xs)
    = map_option (reference_to s) (find (\<lambda>x. \<not> (\<exists>d. c = Some d \<and> d \<noteq> [] \<and> context_of x = d)) xs)"
  using assms(3)
proof (induction xs)
  case (Cons x xs)
  have "find (\<lambda>y. sr_recordHash y = sr_recordHash x) ys = Some x"
    using Cons.prems by (intro find_key [OF assms(2)]) simp
  with Cons show ?case by (auto simp: assms(1) context_of_def split: option.splits)
qed simp

text \<open>C8: the indexes refine the list of records. Of a store that any sequence of additions has built, all queries
  are those of the abstract store: the distinct records in their order, found by context, by hash and by
  the first half of the hash outside a given context, each with the first log index that was ever given
  for it; the unsigned hops of a context in their order.\<close>

theorem store_refines:
  assumes "run_store sha canon es createRecordStore = Inr s"
  shows "getAllRecords s = map (\<lambda>x. (sr_record x, given_index (added sha canon es) (sr_recordHash x))) (distinct_records sha canon es)
    \<and> (\<forall>c. getRecordsByContextId s c = map sr_record (filter (\<lambda>x. context_of x = c) (distinct_records sha canon es)))
    \<and> (\<forall>c. getGapNodesByContextId s c = filter (\<lambda>g. gp_context_id g = c) (gaps_added es))
    \<and> (\<forall>h. getRecordByHash s h = map_option (reference_to s) (find (\<lambda>x. sr_recordHash x = h) (distinct_records sha canon es)))
    \<and> (\<forall>t c. getRecordByToken16 s t c = map_option (reference_to s)
        (find (\<lambda>x. \<not> (\<exists>d. c = Some d \<and> d \<noteq> [] \<and> context_of x = d)) (filter (\<lambda>x. sr_token16 x = t) (distinct_records sha canon es))))
    \<and> (\<forall>h. getLogIndex s h = given_index (added sha canon es) h)"
proof -
  let ?xs = "distinct_records sha canon es"
  have so: "indexed s ?xs" "\<And>h. getLogIndex s h = given_index (added sha canon es) h"
    "\<And>c. getGapNodesByContextId s c = filter (\<lambda>g. gp_context_id g = c) (gaps_added es)"
    using store_of_built [OF assms] by (auto simp: store_of_def)
  have "getRecordByToken16 s t c = map_option (reference_to s)
        (find (\<lambda>x. \<not> (\<exists>d. c = Some d \<and> d \<noteq> [] \<and> context_of x = d)) (filter (\<lambda>x. sr_token16 x = t) ?xs))" for t c
  proof -
    have "get_list (rs_hashesByToken16 s) t = map sr_recordHash (filter (\<lambda>x. sr_token16 x = t) ?xs)"
      using so(1) by (simp add: indexed_def)
    then show ?thesis unfolding getRecordByToken16_def
      by (simp only:) (rule scan_hashes_find [of s ?xs], use so(1) in \<open>auto simp: indexed_def\<close>)
  qed
  with so show ?thesis
    by (simp add: getAllRecords_def getRecordsByContextId_def getRecordByHash_def indexed_def)
qed

section \<open>Summaries\<close>

definition labelled :: "string \<Rightarrow> js_object list \<Rightarrow> nat" where
  "labelled l rs = length (filter (\<lambda>r. session_label r = l) rs)"

lemma summary_step_simps [simp]:
  "gs_context_id (summary_step g r m) = gs_context_id m"
  "gs_node_count (summary_step g r m) = gs_node_count m"
  "gs_first_seen (summary_step g r m) = min (timestamp_of r) (gs_first_seen m)"
  "gs_last_seen (summary_step g r m) = max (timestamp_of r) (gs_last_seen m)"
  "gs_has_transaction (summary_step g r m) \<longleftrightarrow> gs_has_transaction m \<or> session_label r = ''transaction''"
  "gs_has_genesis (summary_step g r m) \<longleftrightarrow> gs_has_genesis m \<or> member_string r ''chain_root'' = g"
  by (simp_all add: summary_step_def Let_def)

lemma summary_fold:
  "gs_context_id (fold (summary_step g) rs m) = gs_context_id m
    \<and> gs_node_count (fold (summary_step g) rs m) = gs_node_count m
    \<and> (gs_has_transaction (fold (summary_step g) rs m) \<longleftrightarrow> gs_has_transaction m \<or> (\<exists>r \<in> set rs. session_label r = ''transaction''))
    \<and> (gs_has_genesis (fold (summary_step g) rs m) \<longleftrightarrow> gs_has_genesis m \<or> (\<exists>r \<in> set rs. member_string r ''chain_root'' = g))"
  by (induction rs arbitrary: m) auto

lemma summary_first: "gs_first_seen (fold (summary_step g) rs m) = Min (insert (gs_first_seen m) (timestamp_of ` set rs))"
proof (induction rs arbitrary: m)
  case (Cons r rs)
  have "Min (insert (min (timestamp_of r) (gs_first_seen m)) (timestamp_of ` set rs))
      = min (min (timestamp_of r) (gs_first_seen m)) (Min (insert (gs_first_seen m) (timestamp_of ` set rs)))"
    by (cases "rs = []") (simp_all add: min.assoc min.left_commute)
  then show ?case by (cases "rs = []") (simp_all add: Cons min.assoc min.left_commute insert_commute)
qed simp

lemma summary_last: "gs_last_seen (fold (summary_step g) rs m) = Max (insert (gs_last_seen m) (timestamp_of ` set rs))"
proof (induction rs arbitrary: m)
  case (Cons r rs)
  have "Max (insert (max (timestamp_of r) (gs_last_seen m)) (timestamp_of ` set rs))
      = max (max (timestamp_of r) (gs_last_seen m)) (Max (insert (gs_last_seen m) (timestamp_of ` set rs)))"
    by (cases "rs = []") (simp_all add: max.assoc max.left_commute)
  then show ?case by (cases "rs = []") (simp_all add: Cons max.assoc max.left_commute insert_commute)
qed simp

lemma summary_counts:
  "map_of (gs_count_by_event_type (fold (summary_step g) rs m)) l
    = (case map_of (gs_count_by_event_type m) l of
         None \<Rightarrow> if labelled l rs = 0 then None else Some (labelled l rs)
       | Some n \<Rightarrow> Some (n + labelled l rs))"
  by (induction rs arbitrary: m) (auto simp: labelled_def summary_step_def Let_def update_conv' split: option.splits)

text \<open>What a summary says of a session.\<close>

definition summarises :: "(bytes \<Rightarrow> bytes) \<Rightarrow> record_store \<Rightarrow> GraphSessionSummary \<Rightarrow> bool" where
  "summarises sha s m \<longleftrightarrow>
     (let rs = getRecordsByContextId s (gs_context_id m)
      in rs \<noteq> [] \<and> gs_first_seen m = Min (timestamp_of ` set rs) \<and> gs_last_seen m = Max (timestamp_of ` set rs)
         \<and> gs_node_count m = length rs + length (getGapNodesByContextId s (gs_context_id m))
         \<and> (gs_has_transaction m \<longleftrightarrow> (\<exists>r \<in> set rs. session_label r = ''transaction''))
         \<and> (gs_has_genesis m \<longleftrightarrow> (\<exists>r \<in> set rs. member_string r ''chain_root'' = genesisChainRoot sha (gs_context_id m)))
         \<and> (\<forall>l. map_of (gs_count_by_event_type m) l = (if labelled l rs = 0 then None else Some (labelled l rs))))"

lemma session_summary_spec:
  "case session_summary sha s c of None \<Rightarrow> getRecordsByContextId s c = [] | Some m \<Rightarrow> gs_context_id m = c \<and> summarises sha s m"
proof (cases "getRecordsByContextId s c")
  case (Cons r rs)
  then show ?thesis
    by (simp add: session_summary_def summarises_def Let_def summary_fold summary_first summary_last summary_counts
        del: fold_simps fold.simps)
qed (simp add: session_summary_def)

lemma map_filter_summaries:
  assumes "\<forall>c \<in> set cs. getRecordsByContextId s c \<noteq> []"
  shows "map gs_context_id (List.map_filter (session_summary sha s) cs) = cs
    \<and> (\<forall>m \<in> set (List.map_filter (session_summary sha s) cs). summarises sha s m)"
  using assms
proof (induction cs)
  case (Cons c cs)
  obtain m where "session_summary sha s c = Some m" "gs_context_id m = c" "summarises sha s m"
    using session_summary_spec [where sha = sha and s = s and c = c] Cons.prems by (cases "session_summary sha s c") auto
  with Cons show ?case by (simp add: map_filter_def)
qed (simp add: map_filter_def)

lemma creator_sessions_facts:
  assumes "run_store sha canon es createRecordStore = Inr s"
  shows "set (map gs_context_id (getSessionsByCreatorKey sha s k)) = {c. \<exists>x \<in> set (distinct_records sha canon es). creator_key_of x = k \<and> context_of x = c}
    \<and> distinct (map gs_context_id (getSessionsByCreatorKey sha s k))
    \<and> sorted_wrt (\<lambda>a b. gs_last_seen b \<le> gs_last_seen a) (getSessionsByCreatorKey sha s k)
    \<and> (\<forall>m \<in> set (getSessionsByCreatorKey sha s k). summarises sha s m)"
proof -
  let ?xs = "distinct_records sha canon es" and ?L = "getSessionsByCreatorKey sha s k"
  define cs where "cs = uniques (map context_of (filter (\<lambda>x. creator_key_of x = k) ?xs))"
  have idx: "indexed s ?xs" using store_of_built [OF assms] by (simp add: store_of_def)
  then have cs: "get_list (rs_byCreator s) k = cs" by (simp add: indexed_def cs_def)
  have "\<forall>c \<in> set cs. getRecordsByContextId s c \<noteq> []"
    using idx by (auto simp: cs_def getRecordsByContextId_def indexed_def filter_empty_conv)
  note summaries = map_filter_summaries [OF this, where sha = sha]
  have mset: "mset ?L = mset (List.map_filter (session_summary sha s) cs)" by (simp add: getSessionsByCreatorKey_def cs)
  then have "mset (map gs_context_id ?L) = mset cs" using summaries by (metis mset_map)
  then have "set (map gs_context_id ?L) = set cs" "distinct (map gs_context_id ?L)"
    by (metis mset_eq_setD) (metis \<open>mset (map gs_context_id ?L) = mset cs\<close> cs_def mset_eq_imp_distinct_iff uniques_simps(3))
  moreover have "\<forall>m \<in> set ?L. summarises sha s m" using summaries mset_eq_setD [OF mset] by simp
  moreover have "sorted_wrt (\<lambda>a b. gs_last_seen b \<le> gs_last_seen a) ?L"
    unfolding getSessionsByCreatorKey_def by (rule sorted_sort_by) (auto simp: last_seen_order_def split: if_splits)
  ultimately show ?thesis by (auto simp: cs_def)
qed

text \<open>The sessions of a creator. The summaries are one for each context in which the creator signed a record,
  latest first, and each counts what the store holds for its context: first and last timestamp, records and
  unsigned hops, records per event type, whether there is a transaction and a genesis record.\<close>

theorem creator_sessions_spec:
  assumes "run_store sha canon es createRecordStore = Inr s"
  shows "set (map gs_context_id (getSessionsByCreatorKey sha s k)) = {c. \<exists>x \<in> set (distinct_records sha canon es). creator_key_of x = k \<and> context_of x = c}
    \<and> distinct (map gs_context_id (getSessionsByCreatorKey sha s k))
    \<and> sorted_wrt (\<lambda>a b. gs_last_seen b \<le> gs_last_seen a) (getSessionsByCreatorKey sha s k)
    \<and> (\<forall>m \<in> set (getSessionsByCreatorKey sha s k). summarises sha s m)"
  by (rule creator_sessions_facts [OF assms])

section \<open>Graphs of stored records\<close>

lemma added_mem: "(x, i) \<in> set (added sha canon es) \<longleftrightarrow> (\<exists>r. Add r i \<in> set es \<and> stored_of sha canon r = Inr x)"
  by (induction es) (auto simp: added_def map_filter_simps split: store_event.splits sum.splits)

lemma stored_of_distinct: "x \<in> set (distinct_records sha canon es) \<Longrightarrow> stored_of sha canon (sr_record x) = Inr x"
proof -
  assume "x \<in> set (distinct_records sha canon es)"
  then have "x \<in> fst ` set (added sha canon es)" using first_by_subset unfolding distinct_records_def by force
  then obtain r where "stored_of sha canon r = Inr x" using added_mem by force
  then show ?thesis by (auto simp: stored_of_def rbind_Inr_iff Let_def)
qed

lemma stored_info:
  assumes "stored_of sha canon (sr_record x) = Inr x"
  shows "info_of sha canon (sr_record x)
    = Inr \<lparr>in_record = sr_record x, in_hash = sr_recordHash x, in_nodeId = sha256_prefix @ sr_recordHash x, in_token16 = sr_token16 x\<rparr>"
proof -
  obtain b where b: "canonicalRecord canon (sr_record x) = Inr b"
    and x: "\<lparr>sr_record = sr_record x, sr_recordHash = hexEncode (sha b), sr_token16 = base64urlEncode (take 16 (sha b))\<rparr> = x"
    using assms by (auto simp: stored_of_def rbind_Inr_iff Let_def)
  have "sr_recordHash x = hexEncode (sha b)" "sr_token16 x = base64urlEncode (take 16 (sha b))"
    using arg_cong [OF x, of sr_recordHash] arg_cong [OF x, of sr_token16] by simp_all
  with b show ?thesis by (simp add: info_of_def Let_def)
qed

definition info_of_stored :: "stored_record \<Rightarrow> record_info" where
  "info_of_stored x =
     \<lparr>in_record = sr_record x, in_hash = sr_recordHash x, in_nodeId = sha256_prefix @ sr_recordHash x, in_token16 = sr_token16 x\<rparr>"

lemma stored_infos:
  assumes "\<forall>x \<in> set xs. stored_of sha canon (sr_record x) = Inr x"
  shows "graph_infos sha canon (map sr_record xs) = sort_by info_order (map info_of_stored xs)"
proof -
  have "map_result (info_of sha canon) (map sr_record xs) = Inr (map info_of_stored xs)"
    using assms stored_info
    by (auto simp: map_result_Inr_iff list_all2_map1 list_all2_map2 list_all2_same info_of_stored_def)
  then show ?thesis by (simp add: graph_infos_def)
qed

lemma record_node_id: "gn_id (record_node sha canon ed_verify nowMs opts i) = in_nodeId i"
  by (simp add: record_node_def Let_def)

lemma stored_node_ids:
  assumes "\<forall>x \<in> set xs. stored_of sha canon (sr_record x) = Inr x"
    and "n \<in> set (graph_base sha canon ed_verify nowMs (map sr_record xs) gaps opts)"
  shows "(\<exists>x \<in> set xs. gn_id n = sha256_prefix @ sr_recordHash x) \<or> (\<exists>g. n = gap_node sha g)"
  using assms(2) by (auto simp: graph_base_def base_nodes_def stored_infos [OF assms(1)] record_node_id info_of_stored_def split: if_splits)

text \<open>Records of the store have distinct ids, whichever of them a handler picks.\<close>

lemma stored_base_ids:
  assumes "\<forall>x \<in> set xs. stored_of sha canon (sr_record x) = Inr x" and "distinct (map sr_recordHash xs)"
  shows "distinct (map gn_id (graph_base sha canon ed_verify nowMs (map sr_record xs) [] opts))"
proof -
  have "map gn_id (graph_base sha canon ed_verify nowMs (map sr_record xs) [] opts) = map in_nodeId (sort_by info_order (map info_of_stored xs))"
    by (simp add: graph_base_def base_nodes_def stored_infos [OF assms(1)] record_node_id)
  moreover have "mset (map in_nodeId (sort_by info_order (map info_of_stored xs))) = mset (map in_nodeId (map info_of_stored xs))"
    by (simp only: mset_map mset_sort_by)
  moreover have "distinct (map in_nodeId (map info_of_stored xs))" using assms(2) by (simp add: info_of_stored_def distinct_map inj_on_def)
  ultimately show ?thesis using mset_eq_imp_distinct_iff by metis
qed

lemma stored_build_returns:
  assumes "\<forall>x \<in> set xs. stored_of sha canon (sr_record x) = Inr x"
  shows "\<exists>g. buildGraph sha canon ed_verify nowMs (map sr_record xs) gaps opts = Inr (Some g)"
proof -
  have "map_result (info_of sha canon) (map sr_record xs) = Inr (map info_of_stored xs)"
    using assms stored_info
    by (auto simp: map_result_Inr_iff list_all2_map1 list_all2_map2 list_all2_same info_of_stored_def)
  moreover obtain g where
    "derive_graph sha opts (graph_infos sha canon (map sr_record xs)) (graph_base sha canon ed_verify nowMs (map sr_record xs) gaps opts) = Some g"
    by (rule derive_graph_parts [OF infos_are_base]) blast
  ultimately show ?thesis by (simp add: buildGraph_def graph_infos_def graph_base_def Let_def)
qed

text \<open>The node of a stored record.\<close>

lemma stored_node:
  assumes stored: "\<forall>x \<in> set xs. stored_of sha canon (sr_record x) = Inr x" and "distinct (map sr_recordHash xs)"
    and "buildGraph sha canon ed_verify nowMs (map sr_record xs) gaps opts = Inr (Some g)" and y: "y \<in> set xs"
  shows "n \<in> set (gr_nodes g) \<and> gn_id n = sha256_prefix @ sr_recordHash y
    \<longleftrightarrow> n = record_node sha canon ed_verify nowMs opts (info_of_stored y)"
proof -
  let ?base = "graph_base sha canon ed_verify nowMs (map sr_record xs) gaps opts"
  let ?node = "\<lambda>x. record_node sha canon ed_verify nowMs opts (info_of_stored x)"
  have id: "gn_id (?node x) = sha256_prefix @ sr_recordHash x" for x by (simp add: record_node_id info_of_stored_def)
  have base: "set ?base = ?node ` set xs \<union> (if bo_includeGapNodes opts then gap_node sha ` set gaps else {})"
    by (auto simp: graph_base_def base_nodes_def stored_infos [OF stored])
  obtain ns where ns: "gr_nodes g = ?base @ ns" "gn_id ` set ns \<inter> gn_id ` set ?base = {}"
    using derived_hops(7) [OF infos_are_base built_cases [OF assms(3)]] by blast
  have in_base: "?node y \<in> set ?base" using base y by blast
  show ?thesis
  proof
    assume n: "n \<in> set (gr_nodes g) \<and> gn_id n = sha256_prefix @ sr_recordHash y"
    then have "gn_id n \<in> gn_id ` set ?base" using in_base id [of y] by (metis image_eqI)
    with n ns have "n \<in> set ?base" by auto
    moreover have "n \<noteq> gap_node sha h" for h using n by (auto simp: gap_node_def gap_id_def sha256_prefix_def)
    ultimately obtain x where x: "x \<in> set xs" "n = ?node x" using base by (auto split: if_splits)
    then have "sr_recordHash x = sr_recordHash y" using n id [of x] by simp
    with x y assms(2) show "n = ?node y" by (auto simp: distinct_map inj_on_def)
  qed (use in_base ns(1) id in auto)
qed

lemma stored_graph_ok:
  assumes "\<forall>x \<in> set xs. stored_of sha canon (sr_record x) = Inr x" and "distinct (map sr_recordHash xs)"
    and "buildGraph sha canon ed_verify nowMs (map sr_record xs) [] opts = Inr (Some g)"
  shows "graph_closed g \<and> distinct (map gn_id (gr_nodes g))"
  using derived_closed [OF infos_are_base built_cases [OF assms(3)]]
    derived_hops(4) [OF infos_are_base built_cases [OF assms(3)] stored_base_ids [OF assms(1, 2)]] by blast

text \<open>Graphs of stored records are well formed. However a store was built, no two records of a context share an
  id, so the edges of its graph join distinct nodes of the graph. Nothing is assumed of the digest: the
  store keeps one record for each hash.\<close>

theorem stored_context_graph_well_formed:
  assumes "run_store sha canon es createRecordStore = Inr s"
    and "buildGraph sha canon ed_verify nowMs (getRecordsByContextId s c) [] opts = Inr (Some g)"
  shows "graph_closed g \<and> distinct (map gn_id (gr_nodes g))"
proof -
  let ?ys = "filter (\<lambda>x. context_of x = c) (distinct_records sha canon es)"
  have idx: "indexed s (distinct_records sha canon es)" using store_of_built [OF assms(1)] by (simp add: store_of_def)
  then have eq: "getRecordsByContextId s c = map sr_record ?ys" by (simp add: getRecordsByContextId_def indexed_def)
  have "distinct (map sr_recordHash ?ys)" using idx by (simp add: indexed_def distinct_map_filter)
  moreover have "\<forall>x \<in> set ?ys. stored_of sha canon (sr_record x) = Inr x" using stored_of_distinct by auto
  ultimately show ?thesis by (rule stored_graph_ok [OF _ _ assms(2) [unfolded eq], rotated])
qed

section \<open>A small store\<close>

text \<open>The fork of \<open>Graph_Cases\<close>, with one record posted twice and its log index given the second time.\<close>

definition case_events :: "store_event list" where
  "case_events =
     [Add (fork_records ! 0) None, Add (fork_records ! 1) (Some 7), Add (fork_records ! 0) (Some 3), Gap (hop_of 2),
      Add (fork_records ! 3) (Some 9)]"

definition case_store :: "record_store result" where
  "case_store = run_store (\<lambda>x. x) case_canon case_events createRecordStore"

lemma case_store_returns: obtains s where "run_store (\<lambda>x. x) case_canon case_events createRecordStore = Inr s"
proof -
  have "case case_store of Inl _ \<Rightarrow> False | Inr _ \<Rightarrow> True" by code_simp
  then show ?thesis using that by (auto simp: case_store_def split: sum.splits)
qed

theorem store_refines_witness:
  "\<exists>s. run_store (\<lambda>x. x) case_canon case_events createRecordStore = Inr s
    \<and> getAllRecords s = [(fork_records ! 0, Some 3), (fork_records ! 1, Some 7), (fork_records ! 3, Some 9)]
    \<and> getRecordsByContextId s ''c'' = [fork_records ! 0, fork_records ! 1, fork_records ! 3]"
proof -
  obtain s where s: "run_store (\<lambda>x. x) case_canon case_events createRecordStore = Inr s" by (rule case_store_returns)
  have "map (\<lambda>x. (sr_record x, given_index (added (\<lambda>x. x) case_canon case_events) (sr_recordHash x)))
      (distinct_records (\<lambda>x. x) case_canon case_events) = [(fork_records ! 0, Some 3), (fork_records ! 1, Some 7), (fork_records ! 3, Some 9)]"
    by code_simp
  moreover have "map sr_record (filter (\<lambda>x. context_of x = ''c'') (distinct_records (\<lambda>x. x) case_canon case_events))
      = [fork_records ! 0, fork_records ! 1, fork_records ! 3]" by code_simp
  ultimately show ?thesis using s store_refines [OF s] by simp
qed

lemma pair_image: "{c. \<exists>x \<in> A. p x = k \<and> q x = c} = {c. (k, c) \<in> (\<lambda>x. (p x, q x)) ` A}"
  by auto

theorem creator_sessions_spec_witness:
  "\<exists>s. run_store (\<lambda>x. x) case_canon case_events createRecordStore = Inr s
    \<and> set (map gs_context_id (getSessionsByCreatorKey (\<lambda>x. x) s ''k'')) = {''c''}"
proof -
  obtain s where s: "run_store (\<lambda>x. x) case_canon case_events createRecordStore = Inr s" by (rule case_store_returns)
  have "map (\<lambda>x. (creator_key_of x, context_of x)) (distinct_records (\<lambda>x. x) case_canon case_events)
      = [(''k'', ''c''), (''k'', ''c''), (''k'', ''c'')]" by code_simp
  then have "(\<lambda>x. (creator_key_of x, context_of x)) ` set (distinct_records (\<lambda>x. x) case_canon case_events) = {(''k'', ''c'')}"
    unfolding set_map [symmetric] by simp
  then have "{c. \<exists>x \<in> set (distinct_records (\<lambda>x. x) case_canon case_events). creator_key_of x = ''k'' \<and> context_of x = c} = {''c''}"
    unfolding pair_image by simp
  with s creator_sessions_spec [OF s, of "''k''"] show ?thesis by metis
qed

theorem stored_context_graph_well_formed_witness:
  "\<exists>s g. run_store (\<lambda>x. x) case_canon case_events createRecordStore = Inr s
    \<and> case_build (getRecordsByContextId s ''c'') [] True = Inr (Some g) \<and> graph_closed g \<and> distinct (map gn_id (gr_nodes g))"
proof -
  obtain s where s: "run_store (\<lambda>x. x) case_canon case_events createRecordStore = Inr s" by (rule case_store_returns)
  have "case case_store of Inl _ \<Rightarrow> False | Inr s \<Rightarrow> (case case_build (getRecordsByContextId s ''c'') [] True of Inr (Some g) \<Rightarrow> True | _ \<Rightarrow> False)"
    by code_simp
  with s obtain g where g: "case_build (getRecordsByContextId s ''c'') [] True = Inr (Some g)"
    by (auto simp: case_store_def split: sum.splits option.splits)
  with s stored_context_graph_well_formed [OF s g [unfolded case_build_def]] show ?thesis by blast
qed

end
