(* ===== verification/Record_Archive.thy ===== *)
theory Record_Archive
  imports Record_Store Checkpoint
begin

text \<open>
  The archive of the graph service (\<open>services/graph-node/src/persistence.ts\<close>): a file of one JSON object per
  line that mirrors the store, and its replay at the start (\<open>main.ts\<close>). The file is a string here, and
  \<open>JSON.stringify\<close> and \<open>JSON.parse\<close> are the arguments \<open>print\<close> and \<open>parse\<close>; what is used of them is named in
  \<open>line_ok\<close>. The theorems say what a restart restores, what it loses, and what a torn line costs.
\<close>

section \<open>Lines\<close>

definition archive_entry :: "js_object \<Rightarrow> int option \<Rightarrow> json" where
  "archive_entry r logIndex =
     JObj [(''record'', JObj r), (''log_index'', case logIndex of None \<Rightarrow> JNull | Some i \<Rightarrow> JNum (of_int i))]"

definition archive_line :: "(json \<Rightarrow> string) \<Rightarrow> js_object \<Rightarrow> int option \<Rightarrow> string" where
  "archive_line print r logIndex = print (archive_entry r logIndex) @ [nl]"

text \<open>\<open>append\<close>: a write may fail or be cut short, and then leaves \<open>n\<close> characters of its line.\<close>

definition archive_append :: "(json \<Rightarrow> string) \<Rightarrow> nat option \<Rightarrow> js_object \<Rightarrow> int option \<Rightarrow> string \<Rightarrow> string" where
  "archive_append print torn r logIndex content =
     content @ (case torn of None \<Rightarrow> archive_line print r logIndex | Some n \<Rightarrow> take n (archive_line print r logIndex))"

text \<open>The lines that \<open>readline\<close> delivers end with LF, CR or both; an empty line in between is skipped below.\<close>

definition cr :: char where
  "cr = CHR 0x0D"

definition read_lines :: "string \<Rightarrow> string list" where
  "read_lines content = concat (map (split_on cr) (split_on nl content))"

section \<open>Replay\<close>

record ReplayResult =
  rp_total :: nat
  rp_ingested :: nat
  rp_skipped :: nat

definition index_value :: "json option \<Rightarrow> int option" where
  "index_value v = (case v of Some (JNum q) \<Rightarrow> Some (int_part q) | _ \<Rightarrow> None)"

text \<open>What \<open>ingest\<close> does with a parsed line, \<open>None\<close> when it throws. A member \<open>record\<close> that is missing cannot be
  canonicalised; one that is no object, which the service never writes, is taken for missing.\<close>

definition ingest_line ::
  "(bytes \<Rightarrow> bytes) \<Rightarrow> (json \<Rightarrow> string option) \<Rightarrow> json \<Rightarrow> record_store \<Rightarrow> record_store option" where
  "ingest_line sha canon v s =
     (case jget v ''record'' of
        Some (JObj r) \<Rightarrow>
          (case addRecord sha canon r (index_value (jget v ''log_index'')) s of Inl _ \<Rightarrow> None | Inr (new, s') \<Rightarrow> Some s')
      | _ \<Rightarrow> None)"

definition replay_line ::
  "(bytes \<Rightarrow> bytes) \<Rightarrow> (json \<Rightarrow> string option) \<Rightarrow> (string \<Rightarrow> json option) \<Rightarrow> string
   \<Rightarrow> ReplayResult \<times> record_store \<Rightarrow> ReplayResult \<times> record_store" where
  "replay_line sha canon parse line = (\<lambda>(res, s).
     (let trimmed = trim line
      in if trimmed = [] then (res, s)
         else let res' = res\<lparr>rp_total := Suc (rp_total res)\<rparr>
           in case (case parse trimmed of None \<Rightarrow> None | Some v \<Rightarrow> ingest_line sha canon v s) of
                None \<Rightarrow> (res'\<lparr>rp_skipped := Suc (rp_skipped res)\<rparr>, s)
              | Some s' \<Rightarrow> (res'\<lparr>rp_ingested := Suc (rp_ingested res)\<rparr>, s')))"

definition no_lines :: ReplayResult where
  "no_lines = \<lparr>rp_total = 0, rp_ingested = 0, rp_skipped = 0\<rparr>"

text \<open>A file that does not exist is \<open>None\<close>.\<close>

definition replayArchive ::
  "(bytes \<Rightarrow> bytes) \<Rightarrow> (json \<Rightarrow> string option) \<Rightarrow> (string \<Rightarrow> json option) \<Rightarrow> string option
   \<Rightarrow> record_store \<Rightarrow> ReplayResult \<times> record_store" where
  "replayArchive sha canon parse file s =
     (case file of
        None \<Rightarrow> (no_lines, s)
      | Some content \<Rightarrow> fold (replay_line sha canon parse) (read_lines content) (no_lines, s))"

section \<open>Reading what was written\<close>

text \<open>What is used of \<open>JSON.stringify\<close> and \<open>JSON.parse\<close> at a line: the text is not empty, has no line ends and no
  white space around it, and parses to the value it was made from.\<close>

definition line_ok :: "(json \<Rightarrow> string) \<Rightarrow> (string \<Rightarrow> json option) \<Rightarrow> js_object \<Rightarrow> int option \<Rightarrow> bool" where
  "line_ok print parse r i \<longleftrightarrow>
     (let t = print (archive_entry r i)
      in t \<noteq> [] \<and> nl \<notin> set t \<and> cr \<notin> set t \<and> trim t = t \<and> parse t = Some (archive_entry r i))"

lemma split_on_concat: "split_on c (s @ c # t) = split_on c s @ split_on c t"
proof (induction s)
  case (Cons x s)
  then show ?case by (cases "split_on c s") auto
qed simp

lemma read_lines_append: "read_lines (s @ nl # t) = read_lines s @ read_lines t"
  by (simp add: read_lines_def split_on_concat)

lemma read_lines_plain: "nl \<notin> set s \<Longrightarrow> cr \<notin> set s \<Longrightarrow> read_lines s = [s]"
  by (simp add: read_lines_def split_on_no_sep)

lemma index_value_entry: "index_value (jget (archive_entry r i) ''log_index'') = i"
  by (cases i) (simp_all add: archive_entry_def index_value_def int_part_def quotient_of_int)

lemma replay_written:
  assumes "line_ok print parse r i" and "addRecord sha canon r i s = Inr (new, s')"
  shows "replay_line sha canon parse (print (archive_entry r i)) (res, s)
    = (res\<lparr>rp_total := Suc (rp_total res), rp_ingested := Suc (rp_ingested res)\<rparr>, s')"
proof -
  have "jget (archive_entry r i) ''record'' = Some (JObj r)" by (simp add: archive_entry_def)
  then have "ingest_line sha canon (archive_entry r i) s = Some s'"
    by (simp add: ingest_line_def index_value_entry assms(2))
  with assms(1) show ?thesis by (simp add: replay_line_def line_ok_def Let_def)
qed

definition archive_text :: "(json \<Rightarrow> string) \<Rightarrow> (js_object \<times> int option) list \<Rightarrow> string" where
  "archive_text print as = concat (map (\<lambda>(r, i). archive_line print r i) as)"

lemma replay_text:
  assumes "\<forall>(r, i) \<in> set as. line_ok print parse r i" and "run_store sha canon (map (\<lambda>(r, i). Add r i) as) s = Inr s'"
  shows "fold (replay_line sha canon parse) (read_lines (archive_text print as @ rest)) (res, s)
    = fold (replay_line sha canon parse) (read_lines rest)
        (res\<lparr>rp_total := rp_total res + length as, rp_ingested := rp_ingested res + length as\<rparr>, s')"
  using assms
proof (induction as arbitrary: res s)
  case (Cons a as)
  obtain r i where a: "a = (r, i)" by (cases a)
  obtain new s1 where s1: "addRecord sha canon r i s = Inr (new, s1)" "run_store sha canon (map (\<lambda>(r, i). Add r i) as) s1 = Inr s'"
    using Cons.prems(2) by (auto simp: a store_step_def rbind_Inr_iff)
  have ok: "line_ok print parse r i" using Cons.prems(1) a by simp
  then have "read_lines (archive_text print (a # as) @ rest) = print (archive_entry r i) # read_lines (archive_text print as @ rest)"
    using read_lines_append [of "print (archive_entry r i)"]
    by (simp add: a archive_text_def archive_line_def line_ok_def Let_def read_lines_plain)
  with Cons.IH [of s1] Cons.prems(1) s1(2) show ?case by (simp add: replay_written [OF ok s1(1)])
qed (simp add: archive_text_def)

section \<open>A restart\<close>

text \<open>What the service appends while the events happen: the records that are new, with the log index they came
  with.\<close>

fun archived :: "(bytes \<Rightarrow> bytes) \<Rightarrow> (json \<Rightarrow> string option) \<Rightarrow> store_event list \<Rightarrow> record_store \<Rightarrow> (js_object \<times> int option) list" where
  "archived sha canon [] s = []"
| "archived sha canon (Gap g # es) s = archived sha canon es (addGapNode g s)"
| "archived sha canon (Add r i # es) s =
     (case addRecord sha canon r i s of
        Inl _ \<Rightarrow> []
      | Inr (new, s') \<Rightarrow> (if new then [(r, i)] else []) @ archived sha canon es s')"

text \<open>The store and the one that a restart makes of its archive: the same records, and the indices that are known
  after the restart were known before.\<close>

definition restored :: "record_store \<Rightarrow> record_store \<Rightarrow> bool" where
  "restored s s' \<longleftrightarrow> (\<exists>xs. indexed s xs \<and> indexed s' xs)
     \<and> (\<forall>h. getLogIndex s' h = None \<or> getLogIndex s' h = getLogIndex s h)
     \<and> (\<forall>h. getLogIndex s h \<noteq> None \<longrightarrow> h \<in> set (rs_seenRecordHashes s))"

lemma restored_gap: "restored s s' \<Longrightarrow> restored (addGapNode g s) s'"
  by (simp add: restored_def addGapNode_def indexed_other getLogIndex_def)

lemma restored_known:
  assumes "restored s s'" and "addRecord sha canon r i s = Inr (False, t)"
  shows "restored t s'"
proof -
  obtain x where x: "stored_of sha canon r = Inr x" "sr_recordHash x \<in> set (rs_seenRecordHashes s)"
    and t: "t = (if map_of (rs_logIndexByHash s) (sr_recordHash x) = None
                 then s\<lparr>rs_logIndexByHash := set_index (sr_recordHash x) i (rs_logIndexByHash s)\<rparr> else s)"
    using assms(2) by (auto simp: addRecord_def rbind_Inr_iff split: if_splits)
  show ?thesis
  proof (cases "map_of (rs_logIndexByHash s) (sr_recordHash x)")
    case None
    then have "getLogIndex t h = (if h = sr_recordHash x then i else getLogIndex s h)" for h
      by (simp add: t getLogIndex_def set_index_def update_conv' split: option.splits)
    moreover have "getLogIndex s' (sr_recordHash x) = None" using assms(1) None by (auto simp: restored_def getLogIndex_def)
    moreover have "rs_seenRecordHashes t = rs_seenRecordHashes s" "indexed t xs = indexed s xs" for xs
      by (simp_all add: t indexed_other)
    ultimately show ?thesis using assms(1) x(2) by (simp add: restored_def)
  qed (use assms(1) t in simp)
qed

lemma restored_new:
  assumes "restored s s'" and "addRecord sha canon r i s = Inr (True, t)"
  shows "\<exists>t'. addRecord sha canon r i s' = Inr (True, t') \<and> restored t t'"
proof -
  obtain x where x: "stored_of sha canon r = Inr x" "sr_recordHash x \<notin> set (rs_seenRecordHashes s)" "t = insert_record x i s"
    using assms(2) by (auto simp: addRecord_def rbind_Inr_iff split: if_splits)
  obtain xs where xs: "indexed s xs" "indexed s' xs" using assms(1) by (auto simp: restored_def)
  then have seen: "rs_seenRecordHashes s' = rs_seenRecordHashes s" by (simp add: indexed_def)
  let ?t' = "insert_record x i s'"
  have index: "getLogIndex (insert_record x i s) h = (if h = sr_recordHash x \<and> i \<noteq> None then i else getLogIndex s h)" for s h
    by (auto simp: insert_record_def Let_def getLogIndex_def set_index_def update_conv' split: option.splits)
  have "rs_seenRecordHashes t = rs_seenRecordHashes s @ [sr_recordHash x]"
    using x(2) by (simp add: x(3) insert_record_def Let_def add_to_set_def)
  then have "restored t ?t'"
    using assms(1) indexed_insert [OF xs(1) x(2), of i] indexed_insert [OF xs(2), of x i] x(2)
    unfolding x(3) seen by (auto simp: restored_def index)
  moreover have "addRecord sha canon r i s' = Inr (True, ?t')" using x(1, 2) by (simp add: addRecord_def seen)
  ultimately show ?thesis by blast
qed

lemma restored_run:
  assumes "restored s s'" and "run_store sha canon es s = Inr t"
  shows "\<exists>t'. run_store sha canon (map (\<lambda>(r, i). Add r i) (archived sha canon es s)) s' = Inr t' \<and> restored t t'"
  using assms
proof (induction es arbitrary: s s')
  case (Cons e es)
  show ?case
  proof (cases e)
    case (Gap g)
    then show ?thesis using Cons.IH [OF restored_gap [OF Cons.prems(1)]] Cons.prems(2) by (auto simp: store_step_def)
  next
    case (Add r i)
    then obtain new s1 where s1: "addRecord sha canon r i s = Inr (new, s1)" "run_store sha canon es s1 = Inr t"
      using Cons.prems(2) by (auto simp: store_step_def rbind_Inr_iff)
    show ?thesis
    proof (cases new)
      case True
      then obtain s1' where "addRecord sha canon r i s' = Inr (True, s1')" "restored s1 s1'"
        using restored_new [OF Cons.prems(1), of sha canon r i s1] s1(1) by auto
      then show ?thesis using Cons.IH [OF _ s1(2)] s1(1) True Add by (auto simp: store_step_def)
    next
      case False
      then have "restored s1 s'" using restored_known Cons.prems(1) s1(1) by simp
      then show ?thesis using Cons.IH [OF _ s1(2)] s1(1) False Add by (auto simp: store_step_def)
    qed
  qed
qed simp

lemma restored_empty: "restored createRecordStore createRecordStore"
  using indexed_empty by (auto simp: restored_def getLogIndex_def createRecordStore_def)

text \<open>C33: a restart restores the records. When the service has appended the new records of a run to its archive, the
  replay of the archive counts every line as ingested and rebuilds a store that answers with the same
  records, by context and by hash, in the same order; a log index it knows is the one that was known.\<close>

theorem archive_restores:
  assumes "run_store sha canon es createRecordStore = Inr s"
    and "\<forall>(r, i) \<in> set (archived sha canon es createRecordStore). line_ok print parse r i"
    and "replayArchive sha canon parse (Some (archive_text print (archived sha canon es createRecordStore))) createRecordStore = (res, s')"
  shows "rp_skipped res = 0 \<and> rp_ingested res = rp_total res \<and> getRecordCount s' = getRecordCount s
    \<and> (\<forall>c. getRecordsByContextId s' c = getRecordsByContextId s c)
    \<and> (\<forall>h. map_option sf_record (getRecordByHash s' h) = map_option sf_record (getRecordByHash s h))
    \<and> (\<forall>h i. getLogIndex s' h = Some i \<longrightarrow> getLogIndex s h = Some i)"
proof -
  obtain t where t: "run_store sha canon (map (\<lambda>(r, i). Add r i) (archived sha canon es createRecordStore)) createRecordStore = Inr t"
    "restored s t" using restored_run [OF restored_empty assms(1)] by blast
  have empty: "fold (replay_line sha canon parse) (read_lines []) x = x" for x
    by (cases x) (simp add: read_lines_def replay_line_def trim_def)
  have "s' = t \<and> rp_skipped res = 0 \<and> rp_ingested res = rp_total res"
    using assms(3) replay_text [OF assms(2) t(1), of "[]" no_lines] by (auto simp: replayArchive_def empty no_lines_def)
  moreover obtain xs where xs: "indexed s xs" "indexed t xs" using t(2) by (auto simp: restored_def)
  have "sf_record (reference_to s x) = sr_record x" for s x by (simp add: reference_to_def)
  then have "map_option sf_record (getRecordByHash t h) = map_option sf_record (getRecordByHash s h)" for h
    using xs by (simp add: indexed_def getRecordByHash_def option.map_comp comp_def)
  moreover have "getRecordCount t = getRecordCount s" "getRecordsByContextId t c = getRecordsByContextId s c" for c
    using xs by (simp_all add: indexed_def getRecordCount_def getRecordsByContextId_def)
  moreover have "getLogIndex t h = Some i \<Longrightarrow> getLogIndex s h = Some i" for h i
    using t(2) unfolding restored_def by (metis option.distinct(1))
  ultimately show ?thesis by simp
qed

text \<open>The number of lines does not matter for what a line does to the store.\<close>

definition skip_one :: "ReplayResult \<times> record_store \<Rightarrow> ReplayResult \<times> record_store" where
  "skip_one = (\<lambda>(res, s). (res\<lparr>rp_total := Suc (rp_total res), rp_skipped := Suc (rp_skipped res)\<rparr>, s))"

lemma replay_skip_one: "fold (replay_line sha canon parse) ls (skip_one st) = skip_one (fold (replay_line sha canon parse) ls st)"
proof (induction ls arbitrary: st)
  case (Cons l ls)
  have "replay_line sha canon parse l (skip_one st) = skip_one (replay_line sha canon parse l st)"
    by (cases st) (simp add: replay_line_def skip_one_def Let_def split: option.splits)
  then show ?case by (simp add: Cons)
qed simp

text \<open>A torn line takes the next record with it. After a crash in the middle of a write the service starts
  again and appends to the same file, without a line end in between, so the next record is written onto
  the torn line; when the two together are no JSON, every later replay skips them both and restores
  exactly what it would have restored had that record never been posted.\<close>

theorem torn_line_swallows_next:
  assumes "f = [] \<or> last f = nl" and "nl \<notin> set t" "cr \<notin> set t"
    and "line_ok print parse r i" and "trim (t @ print (archive_entry r i)) \<noteq> []"
    and "parse (trim (t @ print (archive_entry r i))) = None"
  shows "replayArchive sha canon parse (Some (archive_append print None r i (f @ t) @ rest)) s
    = skip_one (replayArchive sha canon parse (Some (f @ rest)) s)"
proof -
  let ?line = "t @ print (archive_entry r i)"
  have line: "replay_line sha canon parse ?line st = skip_one st" for st
    using assms(5, 6) by (cases st) (simp add: replay_line_def skip_one_def Let_def)
  have "read_lines ?line = [?line]" using assms(2, 3, 4) by (intro read_lines_plain) (auto simp: line_ok_def Let_def)
  then have tail: "read_lines (?line @ nl # rest) = ?line # read_lines rest" by (simp only: read_lines_append append_Cons append_Nil)
  show ?thesis
  proof (cases "f = []")
    case True
    with tail show ?thesis by (simp add: replayArchive_def archive_append_def archive_line_def line replay_skip_one)
  next
    case False
    then obtain f' where f: "f = f' @ [nl]" using assms(1) by (metis append_butlast_last_id)
    have "read_lines (f @ x) = read_lines f' @ read_lines x" for x
      using read_lines_append [of f' x] by (simp add: f)
    moreover have "archive_append print None r i (f @ t) @ rest = f @ (?line @ nl # rest)"
      by (simp add: archive_append_def archive_line_def)
    ultimately show ?thesis using tail by (simp add: replayArchive_def line replay_skip_one)
  qed
qed

section \<open>The small store restarts\<close>

definition case_archive :: "(js_object \<times> int option) list" where
  "case_archive = [(fork_records ! 0, None), (fork_records ! 1, Some 7), (fork_records ! 3, Some 9)]"

text \<open>A stand-in for JSON at these lines: braces around the \<open>content_id\<close>.\<close>

definition case_print :: "json \<Rightarrow> string" where
  "case_print v = (case jget v ''record'' of
       Some r \<Rightarrow> ''{'' @ (case str_of (jget r ''content_id'') of None \<Rightarrow> [] | Some c \<Rightarrow> c) @ ''}'' | None \<Rightarrow> ''{}'')"

definition case_parse :: "string \<Rightarrow> json option" where
  "case_parse = map_of (map (\<lambda>(r, i). (case_print (archive_entry r i), archive_entry r i)) case_archive)"

lemma case_archived: "archived (\<lambda>x. x) case_canon case_events createRecordStore = case_archive"
  by code_simp

lemma case_lines: "list_all (\<lambda>(r, i). line_ok case_print case_parse r i) case_archive"
  by code_simp

theorem archive_restores_witness:
  "\<exists>s res s'. run_store (\<lambda>x. x) case_canon case_events createRecordStore = Inr s
    \<and> replayArchive (\<lambda>x. x) case_canon case_parse (Some (archive_text case_print (archived (\<lambda>x. x) case_canon case_events createRecordStore)))
        createRecordStore = (res, s')
    \<and> getRecordCount s' = getRecordCount s \<and> getRecordsByContextId s' ''c'' = getRecordsByContextId s ''c''"
proof -
  obtain s where s: "run_store (\<lambda>x. x) case_canon case_events createRecordStore = Inr s" by (rule case_store_returns)
  obtain res s' where r: "replayArchive (\<lambda>x. x) case_canon case_parse
      (Some (archive_text case_print (archived (\<lambda>x. x) case_canon case_events createRecordStore))) createRecordStore = (res, s')"
    by fastforce
  have "\<forall>(r, i) \<in> set (archived (\<lambda>x. x) case_canon case_events createRecordStore). line_ok case_print case_parse r i"
    using case_lines by (simp add: case_archived list_all_iff)
  with archive_restores [OF s this r] s r show ?thesis by blast
qed

text \<open>A log index that arrives late does not survive a restart. The record \<open>r\<close> is posted without a log index and
  again with one; the store takes the index, the archive keeps only the first posting, and after a restart
  the index is gone, and with it the order against a revocation.\<close>

theorem late_index_lost_at_restart:
  "\<exists>s. run_store (\<lambda>x. x) case_canon case_events createRecordStore = Inr s
    \<and> getLogIndex s (hexEncode (encode_utf8 ''r'')) = Some 3
    \<and> getLogIndex (snd (replayArchive (\<lambda>x. x) case_canon case_parse
        (Some (archive_text case_print (archived (\<lambda>x. x) case_canon case_events createRecordStore))) createRecordStore))
        (hexEncode (encode_utf8 ''r'')) = None"
proof -
  obtain s where s: "run_store (\<lambda>x. x) case_canon case_events createRecordStore = Inr s" by (rule case_store_returns)
  have "case case_store of Inl _ \<Rightarrow> False | Inr s \<Rightarrow> getLogIndex s (hexEncode (encode_utf8 ''r'')) = Some 3" by code_simp
  moreover have "getLogIndex (snd (replayArchive (\<lambda>x. x) case_canon case_parse
        (Some (archive_text case_print case_archive)) createRecordStore)) (hexEncode (encode_utf8 ''r'')) = None"
    by code_simp
  ultimately show ?thesis using s by (simp add: case_store_def case_archived)
qed

theorem torn_line_swallows_next_witness:
  "replayArchive (\<lambda>x. x) case_canon case_parse
      (Some (archive_append case_print None (fork_records ! 1) (Some 7) (archive_line case_print (fork_records ! 0) None @ ''{x'') @ []))
      createRecordStore
    = skip_one (replayArchive (\<lambda>x. x) case_canon case_parse (Some (archive_line case_print (fork_records ! 0) None @ [])) createRecordStore)"
proof (rule torn_line_swallows_next)
  show "archive_line case_print (fork_records ! 0) None = [] \<or> last (archive_line case_print (fork_records ! 0) None) = nl"
    by (simp add: archive_line_def)
  show "nl \<notin> set ''{x''" "cr \<notin> set ''{x''" by (simp_all add: nl_def cr_def)
  show "line_ok case_print case_parse (fork_records ! 1) (Some 7)" by code_simp
  show "trim (''{x'' @ case_print (archive_entry (fork_records ! 1) (Some 7))) \<noteq> []" by code_simp
  show "case_parse (trim (''{x'' @ case_print (archive_entry (fork_records ! 1) (Some 7)))) = None" by code_simp
qed

end
