(* ===== verification/Graph_Server.thy ===== *)
theory Graph_Server
  imports Record_Archive Log_Queries
begin

text \<open>
  The handlers of the graph service (\<open>services/graph-node/src/server.ts\<close>): ingestion with the archive hook,
  the graph of a context with its two caches, nodes, the transaction, the sessions and the activity map of
  a creator, the walk over claimed ancestors and the walk along the chain. Query parameters arrive as a
  function from names to values; \<open>time_of\<close> stands for \<open>Number\<close> and \<open>Date.parse\<close> on a time parameter.
  Building a graph awaits signature checks, so the handler of a context's graph is two steps: what is read
  before, and what is looked up and cached after; other requests may run in between.
\<close>

section \<open>State and replies\<close>

record graph_key =
  gk_contextId :: string
  gk_includeGapNodes :: bool
  gk_includeCrossSession :: bool
  gk_compact :: bool
  gk_compactShape :: bool

record CompactNode =
  xn_id :: string
  xn_event_type :: graph_label
  xn_event_type_uri :: "string option"
  xn_creator_key :: "string option"
  xn_context_id :: string
  xn_timestamp :: rat
  xn_verification_state :: verification_state
  xn_reference :: "Reference option"

record CompactGraph =
  xg_context_id :: string
  xg_node_count :: nat
  xg_edge_count :: nat
  xg_has_transaction :: bool
  xg_cross_session_count :: nat
  xg_nodes :: "CompactNode list"
  xg_edges :: "GraphEdge list"

record time_window =
  tw_since :: "rat option"
  tw_until :: "rat option"

record activity_map =
  am_creator_key :: string
  am_window :: time_window
  am_limit :: int
  am_oldest :: bool
  am_record_count :: nat
  am_total_in_window :: nat
  am_truncated :: bool
  am_effective_window :: time_window
  am_intra_session_edges_filtered :: bool
  am_graph :: GraphResponse

record walk_response =
  wk_start_record_hash :: string
  wk_depth_requested :: nat
  wk_record_count :: nat
  wk_truncated_by_depth :: bool
  wk_truncated_by_count :: bool
  wk_graph :: GraphResponse

datatype graph_body =
    GraphBody GraphResponse
  | CompactBody CompactGraph
  | NodesBody "GraphNode list"
  | NodeBody GraphNode
  | SessionsBody "GraphSessionSummary list" bool
  | ActivityBody activity_map
  | TraceBody walk_response
  | ChainBody walk_response
  | OkBody

text \<open>A response, an error response with status, type, detail and instance, or none: a handler that never
  returns. A handler that throws is answered with status 500.\<close>

datatype reply =
    Json graph_body
  | Problem nat string string string
  | Never

definition internal_error :: reply where
  "internal_error = Problem 500 ''internal-error'' ''Internal server error'' []"

type_synonym registry = "(string, RevocationEntry) jsmap"

record graph_service =
  gv_store :: record_store
  gv_registryCache :: "(nat \<times> registry) option"
  gv_graphCache :: "(graph_key, nat \<times> graph_body) jsmap"
  gv_archive :: "string option"

text \<open>The service when it starts: the store that the replay of the archive built, and empty caches.\<close>

definition start_service ::
  "(bytes \<Rightarrow> bytes) \<Rightarrow> (json \<Rightarrow> string option) \<Rightarrow> (string \<Rightarrow> json option) \<Rightarrow> string option option \<Rightarrow> graph_service" where
  "start_service sha canon parse archive =
     \<lparr>gv_store = (case archive of None \<Rightarrow> createRecordStore | Some file \<Rightarrow> snd (replayArchive sha canon parse file createRecordStore)),
      gv_registryCache = None, gv_graphCache = [],
      gv_archive = (case archive of None \<Rightarrow> None | Some None \<Rightarrow> Some [] | Some (Some content) \<Rightarrow> Some content)\<rparr>"

section \<open>The revocation registry\<close>

definition or_null :: "json option \<Rightarrow> json" where
  "or_null v = (case v of None \<Rightarrow> JNull | Some x \<Rightarrow> x)"

definition minimal_record :: "js_object \<times> int option \<Rightarrow> js_object" where
  "minimal_record = (\<lambda>(r, logIndex).
     [(''event_type_uri'', or_null (map_of r ''event_type'')), (''creator_key'', or_null (map_of r ''creator_key'')),
      (''log_index'', case logIndex of None \<Rightarrow> JNull | Some i \<Rightarrow> JNum (of_int i))]
     @ List.map_filter (\<lambda>k. map_option (Pair k) (map_of r k))
         [''revoked_key'', ''revocation_reason'', ''successor_key'', ''emergency_signed_by''])"

definition buildRegistry :: "record_store \<Rightarrow> registry" where
  "buildRegistry s = buildRevocationRegistry (map minimal_record (getAllRecords s))"

definition buildRegistryCached :: "graph_service \<Rightarrow> registry \<times> graph_service" where
  "buildRegistryCached v =
     (let recordCount = getRecordCount (gv_store v); fresh = buildRegistry (gv_store v);
          rebuilt = (fresh, v\<lparr>gv_registryCache := Some (recordCount, fresh)\<rparr>)
      in case gv_registryCache v of
           Some (n, registry) \<Rightarrow> if n = recordCount then (registry, v) else rebuilt
         | None \<Rightarrow> rebuilt)"

section \<open>Lookups\<close>

definition reference_target :: "StoredRecordReference \<Rightarrow> ReferenceTarget" where
  "reference_target f =
     (let r = sf_record f
      in \<lparr>rt_record_hash = sf_record_hash f, rt_event_type = graphLabelFromEventTypeUri (member_string r ''event_type''),
          rt_event_type_uri = Some (member_string r ''event_type''), rt_creator_key = Some (member_string r ''creator_key''),
          rt_context_id = member_string r ''context_id'', rt_timestamp = timestamp_of r, rt_log_index = sf_log_index f\<rparr>)"

definition recordReferenceLookup :: "record_store \<Rightarrow> string \<Rightarrow> ReferenceTarget option" where
  "recordReferenceLookup s hashHex = map_option reference_target (getRecordByHash s hashHex)"

definition provenanceReferenceLookup :: "record_store \<Rightarrow> string \<Rightarrow> string \<Rightarrow> ReferenceTarget option" where
  "provenanceReferenceLookup s token16 sourceContextId = map_option reference_target (getRecordByToken16 s token16 (Some sourceContextId))"

definition graph_options :: "record_store \<Rightarrow> registry \<Rightarrow> bool \<Rightarrow> bool \<Rightarrow> bool \<Rightarrow> BuildGraphOptions" where
  "graph_options s registry includeGapNodes includeCrossSession compactEdges =
     \<lparr>bo_includeGapNodes = includeGapNodes, bo_includeCrossSession = includeCrossSession, bo_revocations = Some registry,
      bo_logIndexLookup = Some (getLogIndex s), bo_compact = compactEdges,
      bo_resolveRecord = Some (recordReferenceLookup s), bo_resolveProvenance = Some (provenanceReferenceLookup s)\<rparr>"

text \<open>\<open>await buildGraph(...)\<close> and what the handler makes of the graph.\<close>

definition with_graph :: "GraphResponse option result \<Rightarrow> (GraphResponse \<Rightarrow> reply) \<Rightarrow> reply" where
  "with_graph built f = (case built of Inl _ \<Rightarrow> internal_error | Inr None \<Rightarrow> Never | Inr (Some g) \<Rightarrow> f g)"

section \<open>The graph of a context\<close>

definition GRAPH_RESPONSE_CACHE_MAX :: nat where
  "GRAPH_RESPONSE_CACHE_MAX = 50"

definition getCachedGraph :: "graph_service \<Rightarrow> graph_key \<Rightarrow> graph_body option" where
  "getCachedGraph v key =
     (case map_of (gv_graphCache v) key of
        None \<Rightarrow> None
      | Some (n, graph) \<Rightarrow> if n = getRecordCount (gv_store v) then Some graph else None)"

definition setCachedGraph :: "graph_key \<Rightarrow> graph_body \<Rightarrow> graph_service \<Rightarrow> graph_service" where
  "setCachedGraph key graph v =
     (let byKey = gv_graphCache v;
          room = (if map_of byKey key = None \<and> GRAPH_RESPONSE_CACHE_MAX \<le> length byKey then tl byKey else byKey)
      in v\<lparr>gv_graphCache := AList.update key (getRecordCount (gv_store v), graph) room\<rparr>)"

definition compactGraphForExplorer :: "GraphResponse \<Rightarrow> CompactGraph" where
  "compactGraphForExplorer g =
     \<lparr>xg_context_id = gr_context_id g, xg_node_count = gr_node_count g, xg_edge_count = gr_edge_count g,
      xg_has_transaction = gr_has_transaction g, xg_cross_session_count = gr_cross_session_count g,
      xg_nodes = map (\<lambda>n. \<lparr>xn_id = gn_id n, xn_event_type = gn_event_type n, xn_event_type_uri = gn_event_type_uri n,
        xn_creator_key = gn_creator_key n, xn_context_id = gn_context_id n, xn_timestamp = gn_timestamp n,
        xn_verification_state = gn_verification_state n, xn_reference = gn_reference n\<rparr>) (gr_nodes g),
      xg_edges = gr_edges g\<rparr>"

definition key_of_params :: "string \<Rightarrow> query_params \<Rightarrow> graph_key" where
  "key_of_params contextId params =
     \<lparr>gk_contextId = contextId, gk_includeGapNodes = (params ''include_gap_nodes'' \<noteq> Some ''false''),
      gk_includeCrossSession = (params ''include_cross_session'' \<noteq> Some ''false''),
      gk_compact = (params ''compact'' \<noteq> Some ''false''), gk_compactShape = (params ''shape'' = Some ''compact'')\<rparr>"

record pending_graph =
  pg_key :: graph_key
  pg_records :: "js_object list"
  pg_gapNodes :: "GapNode list"
  pg_registry :: registry

definition no_session :: "string \<Rightarrow> string \<Rightarrow> reply" where
  "no_session detail instance_path = Problem 404 ''session-not-found'' detail instance_path"

text \<open>Up to the call of \<open>buildGraph\<close>, which takes copies of the records and hops at once.\<close>

definition graph_begin :: "string \<Rightarrow> query_params \<Rightarrow> graph_service \<Rightarrow> (reply + pending_graph) \<times> graph_service" where
  "graph_begin contextId params v =
     (let s = gv_store v; key = key_of_params contextId params
      in if \<not> hasContext s contextId
         then (Inl (no_session (''No attribution records found for context_id '' @ contextId) (''/v1/graph/'' @ contextId)), v)
         else case getCachedGraph v key of
           Some body \<Rightarrow> (Inl (Json body), v)
         | None \<Rightarrow>
             let (registry, v') = buildRegistryCached v
             in (Inr \<lparr>pg_key = key, pg_records = getRecordsByContextId s contextId,
                      pg_gapNodes = getGapNodesByContextId s contextId, pg_registry = registry\<rparr>, v'))"

definition body_of :: "bool \<Rightarrow> GraphResponse \<Rightarrow> graph_body" where
  "body_of compactShape g = (if compactShape then CompactBody (compactGraphForExplorer g) else GraphBody g)"

text \<open>From there on, with the store of that time: log indices and references are looked up in it, and its
  count goes into the cache.\<close>

definition graph_end ::
  "(bytes \<Rightarrow> bytes) \<Rightarrow> (json \<Rightarrow> string option) \<Rightarrow> (bytes \<Rightarrow> bytes \<Rightarrow> bytes \<Rightarrow> bool) \<Rightarrow> int
   \<Rightarrow> pending_graph \<Rightarrow> graph_service \<Rightarrow> reply \<times> graph_service" where
  "graph_end sha canon ed_verify nowMs p v =
     (let key = pg_key p
      in case buildGraph sha canon ed_verify nowMs (pg_records p) (pg_gapNodes p)
            (graph_options (gv_store v) (pg_registry p) (gk_includeGapNodes key) (gk_includeCrossSession key) (gk_compact key)) of
           Inl _ \<Rightarrow> (internal_error, v)
         | Inr None \<Rightarrow> (Never, v)
         | Inr (Some g) \<Rightarrow>
             let body = body_of (gk_compactShape key) g
             in (Json body, setCachedGraph key body v))"

definition handleGraph ::
  "(bytes \<Rightarrow> bytes) \<Rightarrow> (json \<Rightarrow> string option) \<Rightarrow> (bytes \<Rightarrow> bytes \<Rightarrow> bytes \<Rightarrow> bool) \<Rightarrow> int
   \<Rightarrow> string \<Rightarrow> query_params \<Rightarrow> graph_service \<Rightarrow> reply \<times> graph_service" where
  "handleGraph sha canon ed_verify nowMs contextId params v =
     (case graph_begin contextId params v of
        (Inl rp, v') \<Rightarrow> (rp, v')
      | (Inr p, v') \<Rightarrow> graph_end sha canon ed_verify nowMs p v')"

section \<open>Ingestion\<close>

definition ingest_path :: string where
  "ingest_path = ''/v1/ingest''"

text \<open>The header \<open>x-atrib-log-index\<close>, when it is a string of digits.\<close>

definition index_header :: "string option \<Rightarrow> int option" where
  "index_header header =
     (case header of
        None \<Rightarrow> None
      | Some d \<Rightarrow> if d \<noteq> [] \<and> list_all is_digit d then Some (int (read_nat d)) else None)"

text \<open>The archive hook runs for new records; \<open>torn\<close> says how its write ends.\<close>

definition archive_hook ::
  "(json \<Rightarrow> string) \<Rightarrow> nat option \<Rightarrow> bool \<Rightarrow> js_object \<Rightarrow> int option \<Rightarrow> string option \<Rightarrow> string option" where
  "archive_hook print torn wasNew r logIndex archive =
     (if wasNew then map_option (archive_append print torn r logIndex) archive else archive)"

definition handleIngest ::
  "(bytes \<Rightarrow> bytes) \<Rightarrow> (json \<Rightarrow> string option) \<Rightarrow> (bytes \<Rightarrow> bytes \<Rightarrow> bytes \<Rightarrow> bool) \<Rightarrow> (json \<Rightarrow> string) \<Rightarrow> int
   \<Rightarrow> nat option \<Rightarrow> request_body \<Rightarrow> string option \<Rightarrow> graph_service \<Rightarrow> reply \<times> graph_service" where
  "handleIngest sha canon ed_verify print nowMs torn body header v =
     (case body of
        TooLarge \<Rightarrow> (Problem 413 ''body-too-large'' ''Request body too large'' ingest_path, v)
      | NotJson \<Rightarrow> (Problem 400 ''invalid-json'' ''Invalid JSON body'' ingest_path, v)
      | Parsed x \<Rightarrow>
          (case x of
             JNull \<Rightarrow> (Problem 400 ''invalid-body'' ''Body must be a JSON object'' ingest_path, v)
           | JBool _ \<Rightarrow> (Problem 400 ''invalid-body'' ''Body must be a JSON object'' ingest_path, v)
           | JNum _ \<Rightarrow> (Problem 400 ''invalid-body'' ''Body must be a JSON object'' ingest_path, v)
           | JStr _ \<Rightarrow> (Problem 400 ''invalid-body'' ''Body must be a JSON object'' ingest_path, v)
           | JArr _ \<Rightarrow> (Problem 400 ''validation-failed'' spec_version_error ingest_path, v)
           | JObj r \<Rightarrow>
               (case validateSubmission nowMs x of
                  Inl (status, err) \<Rightarrow> (Problem 400 ''validation-failed'' err ingest_path, v)
                | Inr _ \<Rightarrow>
                    if \<not> verifyRecord canon ed_verify nowMs r
                    then (Problem 400 ''signature-invalid'' ''Ed25519 signature verification failed'' ingest_path, v)
                    else (case addRecord sha canon r (index_header header) (gv_store v) of
                            Inl _ \<Rightarrow> (internal_error, v)
                          | Inr (wasNew, s) \<Rightarrow>
                              (Json OkBody, v\<lparr>gv_store := s,
                                 gv_archive := archive_hook print torn wasNew r (index_header header) (gv_archive v)\<rparr>)))))"

section \<open>What the handlers keep\<close>

text \<open>A request never hangs, since the derivation of a graph returns.\<close>

lemma buildGraph_ends: "buildGraph sha canon ed_verify nowMs records gaps opts \<noteq> Inr None"
proof
  assume "buildGraph sha canon ed_verify nowMs records gaps opts = Inr None"
  then have "derive_graph sha opts (graph_infos sha canon records) (graph_base sha canon ed_verify nowMs records gaps opts) = None"
    using buildGraph_Inr by metis
  moreover obtain g where
    "derive_graph sha opts (graph_infos sha canon records) (graph_base sha canon ed_verify nowMs records gaps opts) = Some g"
    by (rule derive_graph_parts [OF infos_are_base]) blast
  ultimately show False by simp
qed

text \<open>Ingestion only adds what it verified: a record that enters the store is valid and carries a signature of its
  creator, and every other request leaves store and archive as they are.\<close>

lemma ingest_cases:
  assumes "handleIngest sha canon ed_verify print nowMs torn body header v = (rp, v')"
  shows "v' = v \<and> rp \<noteq> Json OkBody
    \<or> (\<exists>r wasNew s. body = Parsed (JObj r) \<and> rp = Json OkBody \<and> validateSubmission nowMs (JObj r) = Inr ()
        \<and> verifyRecord canon ed_verify nowMs r \<and> addRecord sha canon r (index_header header) (gv_store v) = Inr (wasNew, s)
        \<and> v' = v\<lparr>gv_store := s, gv_archive := archive_hook print torn wasNew r (index_header header) (gv_archive v)\<rparr>)"
  using assms by (auto simp: handleIngest_def internal_error_def split: request_body.splits json.splits sum.splits if_splits prod.splits)

lemma added_record_listed:
  assumes "addRecord sha canon r (Some i) s = Inr (True, s')"
  shows "(r, Some i) \<in> set (getAllRecords s')"
proof -
  obtain x where x: "stored_of sha canon r = Inr x" "s' = insert_record x (Some i) s"
    using assms by (auto simp: addRecord_def rbind_Inr_iff split: if_splits)
  have "sr_record x = r" using x(1) by (auto simp: stored_of_def rbind_Inr_iff Let_def)
  moreover have "getLogIndex s' (sr_recordHash x) = Some i"
    by (simp add: x(2) insert_record_def Let_def getLogIndex_def set_index_def update_conv')
  moreover have "x \<in> set (rs_allRecords s')" by (simp add: x(2) insert_record_def Let_def)
  ultimately show ?thesis by (force simp: getAllRecords_def)
qed

lemma minimal_claim:
  assumes "map_of r ''event_type'' = Some (JStr KEY_REVOCATION_URI)" and "map_of r ''revoked_key'' = Some (JStr key)" "key \<noteq> []"
    and "revocation_reason_of (map_of r ''revocation_reason'') = Some reason" and "0 \<le> i" "is_safe_integer i"
  shows "\<exists>c. revocation_claim (minimal_record (r, Some i)) = Some c \<and> re_revoked_key c = key \<and> re_log_index c = i"
proof -
  have get: "map_of (minimal_record (r, Some i)) ''event_type_uri'' = Some (JStr KEY_REVOCATION_URI)"
    "map_of (minimal_record (r, Some i)) ''log_index'' = Some (JNum (of_int i))"
    "map_of (minimal_record (r, Some i)) ''revoked_key'' = Some (JStr key)"
    using assms(1, 2) by (simp_all add: minimal_record_def or_null_def map_filter_simps)
  obtain w where w: "map_of r ''revocation_reason'' = Some w"
    using assms(4) by (cases "map_of r ''revocation_reason''") (auto simp: revocation_reason_of_def)
  then have "map_of (minimal_record (r, Some i)) ''revocation_reason'' = Some w"
    using assms(2) by (simp add: minimal_record_def map_filter_simps)
  with get w assms(3-6) show ?thesis
    by (simp add: revocation_claim_def isRevocationRecord_def nonempty_string_def str_of_def is_integer_of_int int_part_def quotient_of_int)
qed

text \<open>C36: anyone can revoke any key. When the service ingests a new key revocation with a log index, nothing
  relates its signer to the key it names: from then on every record of the named key with a larger log
  index counts as signed after a revocation, whoever signed the revocation and whoever sent the header.\<close>

theorem revocation_by_anyone:
  assumes "handleIngest sha canon ed_verify print nowMs torn (Parsed (JObj r)) header v = (Json OkBody, v')"
    and "addRecord sha canon r (index_header header) (gv_store v) = Inr (True, s)" and "index_header header = Some i"
    and "map_of r ''event_type'' = Some (JStr KEY_REVOCATION_URI)" and "map_of r ''revoked_key'' = Some (JStr key)" "key \<noteq> []"
    and "revocation_reason_of (map_of r ''revocation_reason'') = Some reason" and "is_safe_integer i" and "i < j"
  shows "applyRevocation (Some key) (Some j) state (buildRegistry (gv_store v')) = Revoked_after_revocation"
proof -
  let ?rs = "map minimal_record (getAllRecords (gv_store v'))"
  have "gv_store v' = s" using ingest_cases [OF assms(1)] assms(2) by auto
  then have "minimal_record (r, Some i) \<in> set ?rs" using added_record_listed assms(2, 3) by fastforce
  moreover have "0 \<le> i" using assms(3) by (auto simp: index_header_def split: option.splits if_splits)
  ultimately have "i \<in> revoked_at ?rs key"
    using minimal_claim [OF assms(4-7) _ assms(8)] unfolding revoked_at_def by blast
  moreover have "case map_of (buildRevocationRegistry ?rs) key of None \<Rightarrow> revoked_at ?rs key = {}
      | Some e \<Rightarrow> re_log_index e \<in> revoked_at ?rs key \<and> (\<forall>i \<in> revoked_at ?rs key. re_log_index e \<le> i)"
    using registry_ok_build [of ?rs] by (simp add: registry_ok_def)
  ultimately obtain e where "map_of (buildRevocationRegistry ?rs) key = Some e" "re_log_index e \<le> i"
    by (auto split: option.splits)
  with assms(6, 9) show ?thesis by (simp add: buildRegistry_def applyRevocation_def)
qed

section \<open>The caches\<close>

text \<open>The body that a request for a graph would get at some time if nothing were cached.\<close>

definition fresh_body ::
  "(bytes \<Rightarrow> bytes) \<Rightarrow> (json \<Rightarrow> string option) \<Rightarrow> (bytes \<Rightarrow> bytes \<Rightarrow> bytes \<Rightarrow> bool) \<Rightarrow> graph_key \<Rightarrow> record_store \<Rightarrow> graph_body \<Rightarrow> bool" where
  "fresh_body sha canon ed_verify key s body \<longleftrightarrow>
     (\<exists>t g. buildGraph sha canon ed_verify t (getRecordsByContextId s (gk_contextId key)) (getGapNodesByContextId s (gk_contextId key))
        (graph_options s (buildRegistry s) (gk_includeGapNodes key) (gk_includeCrossSession key) (gk_compact key)) = Inr (Some g)
        \<and> body = body_of (gk_compactShape key) g)"

definition registry_fresh :: "record_store \<Rightarrow> (nat \<times> registry) option \<Rightarrow> bool" where
  "registry_fresh s c = (case c of None \<Rightarrow> True
     | Some (n, registry) \<Rightarrow> n < getRecordCount s \<or> n = getRecordCount s \<and> registry = buildRegistry s)"

definition entry_fresh ::
  "(bytes \<Rightarrow> bytes) \<Rightarrow> (json \<Rightarrow> string option) \<Rightarrow> (bytes \<Rightarrow> bytes \<Rightarrow> bytes \<Rightarrow> bool) \<Rightarrow> record_store \<Rightarrow> graph_key \<times> nat \<times> graph_body \<Rightarrow> bool" where
  "entry_fresh sha canon ed_verify s = (\<lambda>(key, n, body).
     n < getRecordCount s \<or> n = getRecordCount s \<and> fresh_body sha canon ed_verify key s body)"

definition caches_ok ::
  "(bytes \<Rightarrow> bytes) \<Rightarrow> (json \<Rightarrow> string option) \<Rightarrow> (bytes \<Rightarrow> bytes \<Rightarrow> bytes \<Rightarrow> bool) \<Rightarrow> graph_service \<Rightarrow> bool" where
  "caches_ok sha canon ed_verify v \<longleftrightarrow> registry_fresh (gv_store v) (gv_registryCache v)
     \<and> (\<forall>e \<in> set (gv_graphCache v). entry_fresh sha canon ed_verify (gv_store v) e)"

lemma registry_cached:
  assumes "caches_ok sha canon ed_verify v" and "buildRegistryCached v = (registry, v')"
  shows "registry = buildRegistry (gv_store v) \<and> gv_store v' = gv_store v \<and> gv_graphCache v' = gv_graphCache v
    \<and> caches_ok sha canon ed_verify v'"
  using assms by (auto simp: buildRegistryCached_def caches_ok_def registry_fresh_def Let_def split: option.splits if_splits)

lemma caches_ok_set:
  assumes "caches_ok sha canon ed_verify v" and "fresh_body sha canon ed_verify key (gv_store v) body"
  shows "caches_ok sha canon ed_verify (setCachedGraph key body v)"
proof -
  let ?n = "getRecordCount (gv_store v)"
  have tl: "set (tl (gv_graphCache v)) \<subseteq> set (gv_graphCache v)" by (cases "gv_graphCache v") auto
  have "set (gv_graphCache (setCachedGraph key body v)) \<subseteq> insert (key, ?n, body) (set (gv_graphCache v))"
    using set_update_subset [of key "(?n, body)" "gv_graphCache v"] set_update_subset [of key "(?n, body)" "tl (gv_graphCache v)"] tl
    by (auto simp: setCachedGraph_def Let_def)
  moreover have "gv_store (setCachedGraph key body v) = gv_store v" "gv_registryCache (setCachedGraph key body v) = gv_registryCache v"
    by (simp_all add: setCachedGraph_def Let_def)
  moreover have "entry_fresh sha canon ed_verify (gv_store v) (key, ?n, body)" using assms(2) by (simp add: entry_fresh_def)
  ultimately show ?thesis using assms(1) unfolding caches_ok_def by auto
qed

lemma handleGraph_fresh:
  assumes ok: "caches_ok sha canon ed_verify v" and run: "handleGraph sha canon ed_verify nowMs contextId params v = (rp, v')"
  shows "caches_ok sha canon ed_verify v' \<and> gv_store v' = gv_store v \<and> rp \<noteq> Never
    \<and> (\<forall>body. rp = Json body \<longrightarrow> fresh_body sha canon ed_verify (key_of_params contextId params) (gv_store v) body)"
proof -
  let ?key = "key_of_params contextId params" and ?s = "gv_store v"
  have id: "gk_contextId ?key = contextId" by (simp add: key_of_params_def)
  consider (missing) "\<not> hasContext ?s contextId"
    | (hit) body where "hasContext ?s contextId" "getCachedGraph v ?key = Some body"
    | (miss) "hasContext ?s contextId" "getCachedGraph v ?key = None" by (cases "getCachedGraph v ?key") auto
  then show ?thesis
  proof cases
    case missing
    with run ok show ?thesis by (auto simp: handleGraph_def graph_begin_def no_session_def Let_def)
  next
    case hit
    then have "(?key, getRecordCount ?s, body) \<in> set (gv_graphCache v)"
      by (auto simp: getCachedGraph_def split: option.splits if_splits dest: map_of_SomeD)
    then have "entry_fresh sha canon ed_verify ?s (?key, getRecordCount ?s, body)" using ok unfolding caches_ok_def by blast
    then have "fresh_body sha canon ed_verify ?key ?s body" by (simp add: entry_fresh_def)
    with hit run ok show ?thesis by (auto simp: handleGraph_def graph_begin_def Let_def)
  next
    case miss
    obtain registry w where w: "buildRegistryCached v = (registry, w)" by fastforce
    note reg = registry_cached [OF ok w]
    let ?built = "buildGraph sha canon ed_verify nowMs (getRecordsByContextId ?s contextId) (getGapNodesByContextId ?s contextId)
      (graph_options ?s (buildRegistry ?s) (gk_includeGapNodes ?key) (gk_includeCrossSession ?key) (gk_compact ?key))"
    have step: "(rp, v') = (case ?built of Inl _ \<Rightarrow> (internal_error, w) | Inr None \<Rightarrow> (Never, w)
        | Inr (Some g) \<Rightarrow> (Json (body_of (gk_compactShape ?key) g), setCachedGraph ?key (body_of (gk_compactShape ?key) g) w))"
      using run miss w reg by (simp add: handleGraph_def graph_begin_def graph_end_def Let_def id split: sum.splits option.splits)
    have "fresh_body sha canon ed_verify ?key (gv_store w) (body_of (gk_compactShape ?key) g)" if "?built = Inr (Some g)" for g
      using that reg by (auto simp: fresh_body_def id)
    moreover have "gv_store (setCachedGraph k b w) = gv_store w" for k b by (simp add: setCachedGraph_def Let_def)
    ultimately show ?thesis
      using step reg buildGraph_ends [of sha canon ed_verify nowMs] caches_ok_set [of sha canon ed_verify w ?key]
      by (auto simp: internal_error_def split: sum.splits option.splits)
  qed
qed

lemma served_from_cache:
  assumes ok: "caches_ok sha canon ed_verify v" and run: "handleGraph sha canon ed_verify nowMs contextId params v = (Json body, v')"
  shows "hasContext (gv_store v) contextId \<and> getCachedGraph v' (key_of_params contextId params) = Some body"
proof -
  let ?key = "key_of_params contextId params"
  have ctx: "hasContext (gv_store v) contextId" using run by (auto simp: handleGraph_def graph_begin_def no_session_def Let_def split: if_splits)
  have set_get: "getCachedGraph (setCachedGraph k b w) k = Some b" for k b w
    by (simp add: getCachedGraph_def setCachedGraph_def Let_def update_conv')
  show ?thesis
  proof (cases "getCachedGraph v ?key")
    case None
    then obtain registry w where w: "buildRegistryCached v = (registry, w)" by fastforce
    with run ctx None obtain p where "graph_end sha canon ed_verify nowMs p w = (Json body, v')" "pg_key p = ?key"
      by (auto simp: handleGraph_def graph_begin_def Let_def)
    then show ?thesis using ctx set_get
      by (auto simp: graph_end_def internal_error_def Let_def split: sum.splits option.splits)
  qed (use run ctx in \<open>auto simp: handleGraph_def graph_begin_def Let_def\<close>)
qed

section \<open>Runs\<close>

datatype graph_request =
    Ingest int "nat option" request_body "string option"
  | GetGraph int string query_params

definition serve ::
  "(bytes \<Rightarrow> bytes) \<Rightarrow> (json \<Rightarrow> string option) \<Rightarrow> (bytes \<Rightarrow> bytes \<Rightarrow> bytes \<Rightarrow> bool) \<Rightarrow> (json \<Rightarrow> string)
   \<Rightarrow> graph_request \<Rightarrow> graph_service \<Rightarrow> reply \<times> graph_service" where
  "serve sha canon ed_verify print q v =
     (case q of
        Ingest nowMs torn body header \<Rightarrow> handleIngest sha canon ed_verify print nowMs torn body header v
      | GetGraph nowMs contextId params \<Rightarrow> handleGraph sha canon ed_verify nowMs contextId params v)"

definition serve_all ::
  "(bytes \<Rightarrow> bytes) \<Rightarrow> (json \<Rightarrow> string option) \<Rightarrow> (bytes \<Rightarrow> bytes \<Rightarrow> bytes \<Rightarrow> bool) \<Rightarrow> (json \<Rightarrow> string)
   \<Rightarrow> graph_request list \<Rightarrow> graph_service \<Rightarrow> graph_service" where
  "serve_all sha canon ed_verify print qs v = fold (\<lambda>q v. snd (serve sha canon ed_verify print q v)) qs v"

text \<open>A request that changes what the store knows without adding a record: a log index that arrives late.\<close>

definition late_index :: "record_store \<Rightarrow> record_store \<Rightarrow> bool" where
  "late_index s s' \<longleftrightarrow> getRecordCount s' = getRecordCount s \<and> s' \<noteq> s"

fun no_late_index ::
  "(bytes \<Rightarrow> bytes) \<Rightarrow> (json \<Rightarrow> string option) \<Rightarrow> (bytes \<Rightarrow> bytes \<Rightarrow> bytes \<Rightarrow> bool) \<Rightarrow> (json \<Rightarrow> string)
   \<Rightarrow> graph_request list \<Rightarrow> graph_service \<Rightarrow> bool" where
  "no_late_index sha canon ed_verify print [] v \<longleftrightarrow> True"
| "no_late_index sha canon ed_verify print (q # qs) v \<longleftrightarrow>
     (let v' = snd (serve sha canon ed_verify print q v)
      in \<not> late_index (gv_store v) (gv_store v') \<and> no_late_index sha canon ed_verify print qs v')"

lemma caches_ok_ingest:
  assumes "caches_ok sha canon ed_verify v" and "handleIngest sha canon ed_verify print nowMs torn body header v = (rp, v')"
    and "\<not> late_index (gv_store v) (gv_store v')"
  shows "caches_ok sha canon ed_verify v'"
  using ingest_cases [OF assms(2)]
proof (elim disjE conjE exE)
  fix r wasNew s
  assume add: "addRecord sha canon r (index_header header) (gv_store v) = Inr (wasNew, s)"
    and v': "v' = v\<lparr>gv_store := s, gv_archive := archive_hook print torn wasNew r (index_header header) (gv_archive v)\<rparr>"
  show ?thesis
  proof (cases "s = gv_store v")
    case False
    have "getRecordCount s = getRecordCount (gv_store v) \<or> getRecordCount s = Suc (getRecordCount (gv_store v))"
      using add by (auto simp: addRecord_def rbind_Inr_iff getRecordCount_def insert_record_def Let_def split: if_splits)
    with False assms(3) have "getRecordCount s = Suc (getRecordCount (gv_store v))" by (auto simp: late_index_def v')
    with assms(1) show ?thesis
      by (fastforce simp: v' caches_ok_def registry_fresh_def entry_fresh_def split: option.splits prod.splits)
  qed (use assms(1) v' in \<open>simp add: caches_ok_def\<close>)
qed (use assms(1) in simp)

lemma caches_ok_run:
  assumes "caches_ok sha canon ed_verify v" and "no_late_index sha canon ed_verify print qs v"
  shows "caches_ok sha canon ed_verify (serve_all sha canon ed_verify print qs v)"
  using assms
proof (induction qs arbitrary: v)
  case (Cons q qs)
  have "caches_ok sha canon ed_verify (snd (serve sha canon ed_verify print q v))"
  proof (cases q)
    case (Ingest nowMs torn body header)
    with Cons.prems caches_ok_ingest [OF Cons.prems(1), of print nowMs torn body header] show ?thesis
      by (cases "handleIngest sha canon ed_verify print nowMs torn body header v") (auto simp: serve_def Let_def)
  next
    case (GetGraph nowMs contextId params)
    with handleGraph_fresh [OF Cons.prems(1), of nowMs contextId params] show ?thesis
      by (cases "handleGraph sha canon ed_verify nowMs contextId params v") (auto simp: serve_def)
  qed
  with Cons show ?case by (simp add: serve_all_def Let_def)
qed (simp add: serve_all_def)

lemma context_records:
  assumes "indexed s (distinct_records sha canon es)"
  shows "getRecordsByContextId s c = map sr_record (filter (\<lambda>y. context_of y = c) (distinct_records sha canon es))"
    and "\<forall>y \<in> set (filter (\<lambda>y. context_of y = c) (distinct_records sha canon es)). stored_of sha canon (sr_record y) = Inr y"
    and "distinct (map sr_recordHash (filter (\<lambda>y. context_of y = c) (distinct_records sha canon es)))"
  using assms stored_of_distinct by (auto simp: getRecordsByContextId_def indexed_def distinct_map_filter)

lemma graph_miss:
  assumes "run_store sha canon es createRecordStore = Inr (gv_store v)" and "hasContext (gv_store v) contextId"
    and "getCachedGraph v (key_of_params contextId params) = None"
  shows "\<exists>g v'. handleGraph sha canon ed_verify nowMs contextId params v = (Json (body_of (gk_compactShape (key_of_params contextId params)) g), v')"
proof -
  let ?s = "gv_store v" and ?key = "key_of_params contextId params"
  have idx: "indexed ?s (distinct_records sha canon es)" using store_of_built [OF assms(1)] by (simp add: store_of_def)
  obtain registry w where w: "buildRegistryCached v = (registry, w)" by fastforce
  have store: "gv_store w = ?s" using w by (auto simp: buildRegistryCached_def Let_def split: option.splits if_splits)
  have "\<exists>g. buildGraph sha canon ed_verify nowMs (getRecordsByContextId ?s contextId) gaps opts = Inr (Some g)" for gaps opts
    unfolding context_records(1) [OF idx] by (rule stored_build_returns [OF context_records(2) [OF idx]])
  then obtain g where "buildGraph sha canon ed_verify nowMs (getRecordsByContextId ?s contextId) (getGapNodesByContextId ?s contextId)
      (graph_options ?s registry (gk_includeGapNodes ?key) (gk_includeCrossSession ?key) (gk_compact ?key)) = Inr (Some g)" by blast
  then show ?thesis using assms(2, 3) w store by (auto simp: handleGraph_def graph_begin_def graph_end_def Let_def)
qed

text \<open>A request for a graph is answered. Whatever the state of the caches, a context that holds a record or an
  unsigned hop gets a graph, and any other the status 404.\<close>

theorem graph_request_answered:
  assumes "run_store sha canon es createRecordStore = Inr (gv_store v)"
    and "handleGraph sha canon ed_verify nowMs contextId params v = (rp, v')"
  shows "if hasContext (gv_store v) contextId then \<exists>body. rp = Json body else \<exists>detail path. rp = Problem 404 ''session-not-found'' detail path"
proof (cases "hasContext (gv_store v) contextId \<and> getCachedGraph v (key_of_params contextId params) = None")
  case True
  with graph_miss [OF assms(1), of contextId params ed_verify nowMs] assms(2) show ?thesis by auto
qed (use assms(2) in \<open>auto simp: handleGraph_def graph_begin_def no_session_def Let_def\<close>)

text \<open>C12: cached graphs are current. After any requests that follow one another and bring no log index late, the graph
  that a request gets, from the cache or not, is one that the present records, hops, log indices and
  revocations give.\<close>

theorem cached_graphs_current:
  assumes "no_late_index sha canon ed_verify print qs (start_service sha canon parse archive)"
    and "v = serve_all sha canon ed_verify print qs (start_service sha canon parse archive)"
    and "handleGraph sha canon ed_verify nowMs contextId params v = (Json body, v')"
  shows "fresh_body sha canon ed_verify (key_of_params contextId params) (gv_store v) body"
proof -
  have "caches_ok sha canon ed_verify (start_service sha canon parse archive)"
    by (simp add: caches_ok_def start_service_def registry_fresh_def)
  then have "caches_ok sha canon ed_verify v" unfolding assms(2) by (rule caches_ok_run [OF _ assms(1)])
  from handleGraph_fresh [OF this assms(3)] show ?thesis by blast
qed

text \<open>A record that the store did not hold is no node of a graph of the store's records.\<close>

lemma overtaken_node:
  assumes "run_store sha canon es createRecordStore = Inr s" and "sr_recordHash x \<notin> set (rs_seenRecordHashes s)"
    and "buildGraph sha canon ed_verify nowMs (getRecordsByContextId s c) gaps opts = Inr (Some g)"
    and "n \<in> set (gr_nodes g)" and "gn_id n = sha256_prefix @ sr_recordHash x"
  shows "gn_event_type n = Dangling_node"
proof -
  let ?ys = "filter (\<lambda>y. context_of y = c) (distinct_records sha canon es)"
  have idx: "indexed s (distinct_records sha canon es)" using store_of_built [OF assms(1)] by (simp add: store_of_def)
  then have rs: "getRecordsByContextId s c = map sr_record ?ys" by (simp add: getRecordsByContextId_def indexed_def)
  have stored: "\<forall>y \<in> set ?ys. stored_of sha canon (sr_record y) = Inr y" using stored_of_distinct by auto
  have "n \<notin> set (graph_base sha canon ed_verify nowMs (map sr_record ?ys) gaps opts)"
  proof
    assume "n \<in> set (graph_base sha canon ed_verify nowMs (map sr_record ?ys) gaps opts)"
    then consider y where "y \<in> set ?ys" "gn_id n = sha256_prefix @ sr_recordHash y" | h where "n = gap_node sha h"
      using stored_node_ids [OF stored] by blast
    then show False
    proof cases
      case 1
      then have "sr_recordHash x \<in> set (rs_seenRecordHashes s)" using assms(5) idx by (auto simp: indexed_def)
      with assms(2) show False by blast
    next
      case 2
      with assms(5) show False by (simp add: gap_node_def gap_id_def sha256_prefix_def)
    qed
  qed
  with derived_hops(7) [OF infos_are_base built_cases [OF assms(3)]] assms(4) show ?thesis
    by (auto simp: rs)
qed

text \<open>C35: a graph that was overtaken is cached as current. While the graph of a context is being built, a new record
  of this context is ingested. The graph does not show it, but goes into the cache with the count of the
  store that holds it, and is what the next request gets, at whatever time.\<close>

theorem overtaken_graph_is_cached:
  assumes "run_store sha canon es createRecordStore = Inr (gv_store v)"
    and "graph_begin contextId params v = (Inr p, v1)"
    and "handleIngest sha canon ed_verify print nowMs torn (Parsed (JObj r)) header v1 = (Json OkBody, v2)"
    and "addRecord sha canon r (index_header header) (gv_store v1) = Inr (True, s)" and "stored_of sha canon r = Inr x"
    and "graph_end sha canon ed_verify nowMs' p v2 = (Json body, v3)"
  shows "handleGraph sha canon ed_verify nowMs'' contextId params v3 = (Json body, v3)
    \<and> (member_string r ''context_id'' = contextId \<longrightarrow> r \<in> set (getRecordsByContextId (gv_store v3) contextId))
    \<and> (\<exists>g. body = body_of (gk_compactShape (key_of_params contextId params)) g
        \<and> (\<forall>n \<in> set (gr_nodes g). gn_id n = sha256_prefix @ sr_recordHash x \<longrightarrow> gn_event_type n = Dangling_node))"
proof -
  let ?key = "key_of_params contextId params" and ?s = "gv_store v"
  have v1: "gv_store v1 = ?s" "hasContext ?s contextId"
    and p: "pg_key p = ?key" "pg_records p = getRecordsByContextId ?s contextId"
    using assms(2) by (auto simp: graph_begin_def buildRegistryCached_def Let_def split: if_splits option.splits)
  have v2: "gv_store v2 = s" using ingest_cases [OF assms(3)] assms(4) by auto
  have s: "s = insert_record x (index_header header) ?s" "sr_recordHash x \<notin> set (rs_seenRecordHashes ?s)" "sr_record x = r"
    using assms(4, 5) v1(1) by (auto simp: addRecord_def stored_of_def rbind_Inr_iff Let_def split: if_splits)
  obtain g registry where g: "buildGraph sha canon ed_verify nowMs' (getRecordsByContextId ?s contextId) (pg_gapNodes p)
      (graph_options s registry (gk_includeGapNodes ?key) (gk_includeCrossSession ?key) (gk_compact ?key)) = Inr (Some g)"
    and body: "body = body_of (gk_compactShape ?key) g" and v3: "v3 = setCachedGraph ?key body v2"
    using assms(6) by (auto simp: graph_end_def p v2 Let_def internal_error_def split: sum.splits option.splits)
  have store3: "gv_store v3 = s" by (simp add: v3 setCachedGraph_def Let_def v2)
  have "hasContext s contextId" using v1(2) by (auto simp: s(1) hasContext_def insert_record_def Let_def update_conv')
  moreover have "getCachedGraph v3 ?key = Some body"
    by (simp add: getCachedGraph_def v3 setCachedGraph_def Let_def update_conv' getRecordCount_def)
  ultimately have "handleGraph sha canon ed_verify nowMs'' contextId params v3 = (Json body, v3)"
    by (simp add: handleGraph_def graph_begin_def store3 Let_def)
  moreover have "r \<in> set (getRecordsByContextId s contextId)" if "member_string r ''context_id'' = contextId"
    using that by (simp add: s getRecordsByContextId_def insert_record_def Let_def get_list_update)
  moreover have "gn_event_type n = Dangling_node" if "n \<in> set (gr_nodes g)" "gn_id n = sha256_prefix @ sr_recordHash x" for n
    using overtaken_node [OF assms(1) s(2) g that] .
  ultimately show ?thesis using body store3 by blast
qed

lemma record_node_index: "gn_log_index (record_node sha canon ed_verify nowMs (graph_options s registry a b c) (info_of_stored x)) = getLogIndex s (sr_recordHash x)"
  by (simp add: record_node_def graph_options_def info_of_stored_def Let_def)

text \<open>The log index that a fresh graph shows for a stored record of its context.\<close>

lemma fresh_log_index:
  assumes s: "indexed s (distinct_records sha canon es)" and x: "x \<in> set (distinct_records sha canon es)"
    and "fresh_body sha canon ed_verify key s (GraphBody g)" and "context_of x = gk_contextId key"
  shows "(\<exists>n \<in> set (gr_nodes g). gn_id n = sha256_prefix @ sr_recordHash x)
    \<and> (\<forall>n \<in> set (gr_nodes g). gn_id n = sha256_prefix @ sr_recordHash x \<longrightarrow> gn_log_index n = getLogIndex s (sr_recordHash x))"
proof -
  obtain t where built: "buildGraph sha canon ed_verify t (getRecordsByContextId s (gk_contextId key)) (getGapNodesByContextId s (gk_contextId key))
      (graph_options s (buildRegistry s) (gk_includeGapNodes key) (gk_includeCrossSession key) (gk_compact key)) = Inr (Some g)"
    using assms(3) by (auto simp: fresh_body_def body_of_def split: if_splits)
  have "x \<in> set (filter (\<lambda>y. context_of y = gk_contextId key) (distinct_records sha canon es))" using x assms(4) by simp
  from stored_node [OF context_records(2, 3) [OF s] built [unfolded context_records(1) [OF s]] this] record_node_index
  show ?thesis by metis
qed

text \<open>A late log index does not reach a cached graph. A record of a context is in the store without a log index
  and the graph of the context has been served; then the record is ingested again with its index. The next
  request is still answered with the first graph, where the record has no log index, though every graph built
  now would show the index; revocations apply by that index.\<close>

theorem late_index_leaves_graph_stale:
  assumes "run_store sha canon es createRecordStore = Inr (gv_store v)" and "caches_ok sha canon ed_verify v"
    and "handleGraph sha canon ed_verify nowMs contextId params v = (Json (GraphBody g), v1)"
    and "handleIngest sha canon ed_verify print nowMs' torn (Parsed (JObj r)) header v1 = (Json OkBody, v2)"
    and "stored_of sha canon r = Inr x" "member_string r ''context_id'' = contextId" "x \<in> set (rs_allRecords (gv_store v))"
    and "getLogIndex (gv_store v) (sr_recordHash x) = None" "index_header header = Some j"
  shows "handleGraph sha canon ed_verify nowMs'' contextId params v2 = (Json (GraphBody g), v2)
    \<and> (\<forall>n \<in> set (gr_nodes g). gn_id n = sha256_prefix @ sr_recordHash x \<longrightarrow> gn_log_index n = None)
    \<and> (\<forall>g'. fresh_body sha canon ed_verify (key_of_params contextId params) (gv_store v2) (GraphBody g') \<longrightarrow>
         (\<exists>n \<in> set (gr_nodes g'). gn_id n = sha256_prefix @ sr_recordHash x \<and> gn_log_index n = Some j))"
proof -
  let ?key = "key_of_params contextId params" and ?s = "gv_store v"
  have id: "gk_contextId ?key = contextId" by (simp add: key_of_params_def)
  have idx: "indexed ?s (distinct_records sha canon es)" using store_of_built [OF assms(1)] by (simp add: store_of_def)
  have x: "x \<in> set (distinct_records sha canon es)" "sr_recordHash x \<in> set (rs_seenRecordHashes ?s)" "sr_record x = r"
    using assms(5, 7) idx by (auto simp: indexed_def stored_of_def rbind_Inr_iff Let_def)
  then have ctx: "context_of x = gk_contextId ?key" using assms(6) by (simp add: context_of_def id)
  have v1: "gv_store v1 = ?s" "fresh_body sha canon ed_verify ?key ?s (GraphBody g)"
    using handleGraph_fresh [OF assms(2, 3)] by auto
  have hit: "getCachedGraph v1 ?key = Some (GraphBody g)" "hasContext ?s contextId"
    using assms(3) served_from_cache [OF assms(2, 3)] by auto
  define s where "s = ?s\<lparr>rs_logIndexByHash := set_index (sr_recordHash x) (Some j) (rs_logIndexByHash ?s)\<rparr>"
  have "addRecord sha canon r (index_header header) (gv_store v1) = Inr (False, s)"
    using assms(5, 8, 9) x(2) v1(1) by (simp add: addRecord_def s_def getLogIndex_def)
  then have v2: "gv_store v2 = s" "gv_graphCache v2 = gv_graphCache v1" using ingest_cases [OF assms(4)] by auto
  have "getRecordCount s = getRecordCount ?s" "hasContext s contextId = hasContext ?s contextId" "indexed s (distinct_records sha canon es)"
    "getLogIndex s (sr_recordHash x) = Some j"
    using idx by (simp_all add: s_def getRecordCount_def hasContext_def indexed_other getLogIndex_def set_index_def update_conv')
  moreover from this have "getCachedGraph v2 ?key = Some (GraphBody g)" using hit(1) unfolding getCachedGraph_def v2 v1(1)
    by (simp only:)
  moreover have "\<exists>n \<in> set (gr_nodes g'). gn_id n = sha256_prefix @ sr_recordHash x \<and> gn_log_index n = Some j"
    if "fresh_body sha canon ed_verify ?key s (GraphBody g')" "indexed s (distinct_records sha canon es)" "getLogIndex s (sr_recordHash x) = Some j" for g'
    using fresh_log_index [OF that(2) x(1) that(1) ctx] that(3) by auto
  ultimately have "handleGraph sha canon ed_verify nowMs'' contextId params v2 = (Json (GraphBody g), v2)"
    "\<forall>g'. fresh_body sha canon ed_verify ?key s (GraphBody g') \<longrightarrow>
         (\<exists>n \<in> set (gr_nodes g'). gn_id n = sha256_prefix @ sr_recordHash x \<and> gn_log_index n = Some j)"
    using hit(2) by (auto simp: handleGraph_def graph_begin_def v2 Let_def)
  moreover have "\<forall>n \<in> set (gr_nodes g). gn_id n = sha256_prefix @ sr_recordHash x \<longrightarrow> gn_log_index n = None"
    using fresh_log_index [OF idx x(1) v1(2) ctx] assms(8) by auto
  ultimately show ?thesis using v2(1) by simp
qed

end
