(* ===== verification/Service_Cases.thy ===== *)
theory Service_Cases
  imports Graph_Server
begin

text \<open>
  Small runs of the graph service: the inputs at which its theorems are applied, and the two ways in which
  a cached graph goes stale.
\<close>

text \<open>Records that pass the checks of \<open>handleIngest\<close>. Their canonical form is the last letter of the
  \<open>content_id\<close> here, the digest is the identity and every signature verifies.\<close>

definition live_canon :: "json \<Rightarrow> string option" where
  "live_canon v = map_option (\<lambda>c. [last c]) (str_of (jget v ''content_id''))"

definition live_verify :: "bytes \<Rightarrow> bytes \<Rightarrow> bytes \<Rightarrow> bool" where
  "live_verify sig m key \<longleftrightarrow> True"

definition live_key :: "char \<Rightarrow> string" where
  "live_key c = replicate 42 c @ ''A''"

definition live_context :: string where
  "live_context = replicate 32 (CHR ''a'')"

definition live_record :: "string \<Rightarrow> string \<Rightarrow> char \<Rightarrow> js_object" where
  "live_record uri key c =
     [(''spec_version'', JStr ''atrib/1.0''), (''event_type'', JStr uri), (''timestamp'', JNum 1000),
      (''context_id'', JStr live_context), (''creator_key'', JStr key),
      (''chain_root'', JStr (sha256_prefix @ replicate 64 (CHR ''0''))), (''signature'', JStr (replicate 85 (CHR ''A'') @ ''A'')),
      (''content_id'', JStr (sha256_prefix @ replicate 64 c))]"

text \<open>A key revocation, signed by \<open>B\<close>, that names the key of \<open>C\<close>.\<close>

definition live_revocation :: js_object where
  "live_revocation = live_record KEY_REVOCATION_URI (live_key (CHR ''B'')) (CHR ''1'')
     @ [(''revoked_key'', JStr (live_key (CHR ''C''))), (''revocation_reason'', JStr ''compromise'')]"

definition live_call :: "char \<Rightarrow> js_object" where
  "live_call c = live_record EVENT_TYPE_TOOL_CALL_URI (live_key (CHR ''C'')) c"

definition live_ingest :: "js_object \<Rightarrow> string option \<Rightarrow> graph_service \<Rightarrow> reply \<times> graph_service" where
  "live_ingest r header v = handleIngest (\<lambda>x. x) live_canon live_verify case_print 2000 None (Parsed (JObj r)) header v"

definition live_graph :: "graph_service \<Rightarrow> reply \<times> graph_service" where
  "live_graph v = handleGraph (\<lambda>x. x) live_canon live_verify 2000 live_context (\<lambda>k. None) v"

definition live_start :: graph_service where
  "live_start = start_service (\<lambda>x. x) live_canon case_parse None"

section \<open>A revocation by a stranger\<close>

lemma revocation_accepted:
  "fst (live_ingest live_revocation (Some ''5'') live_start) = Json OkBody"
  "case addRecord (\<lambda>x. x) live_canon live_revocation (index_header (Some ''5'')) (gv_store live_start) of Inr (True, s) \<Rightarrow> True | _ \<Rightarrow> False"
  by code_simp+

theorem revocation_by_anyone_witness:
  "\<exists>v. live_ingest live_revocation (Some ''5'') live_start = (Json OkBody, v)
    \<and> map_of live_revocation ''creator_key'' = Some (JStr (live_key (CHR ''B'')))
    \<and> applyRevocation (Some (live_key (CHR ''C''))) (Some 9) Signature_valid (buildRegistry (gv_store v)) = Revoked_after_revocation"
proof -
  obtain v where v: "live_ingest live_revocation (Some ''5'') live_start = (Json OkBody, v)"
    using revocation_accepted(1) by (cases "live_ingest live_revocation (Some ''5'') live_start") auto
  obtain s where s: "addRecord (\<lambda>x. x) live_canon live_revocation (index_header (Some ''5'')) (gv_store live_start) = Inr (True, s)"
    using revocation_accepted(2) by (auto split: sum.splits prod.splits bool.splits)
  have "index_header (Some ''5'') = Some 5" "map_of live_revocation ''event_type'' = Some (JStr KEY_REVOCATION_URI)"
    "map_of live_revocation ''revoked_key'' = Some (JStr (live_key (CHR ''C'')))" "live_key (CHR ''C'') \<noteq> []"
    "revocation_reason_of (map_of live_revocation ''revocation_reason'') = Some Compromise" "is_safe_integer 5" "(5 :: int) < 9"
    "map_of live_revocation ''creator_key'' = Some (JStr (live_key (CHR ''B'')))"
    by code_simp+
  with revocation_by_anyone [OF v [unfolded live_ingest_def] s] v show ?thesis by blast
qed

section \<open>Cached graphs\<close>

lemma live_ingest_eq:
  assumes "validateSubmission 2000 (JObj r) = Inr ()" and "verifyRecord live_canon live_verify 2000 r"
  shows "live_ingest r header v = (case addRecord (\<lambda>x. x) live_canon r (index_header header) (gv_store v) of
      Inl _ \<Rightarrow> (internal_error, v)
    | Inr (new, s) \<Rightarrow> (Json OkBody, v\<lparr>gv_store := s, gv_archive := archive_hook case_print None new r (index_header header) (gv_archive v)\<rparr>))"
  using assms by (simp add: live_ingest_def handleIngest_def)

lemma live_calls_valid:
  "validateSubmission 2000 (JObj (live_call (CHR ''2''))) = Inr ()" "verifyRecord live_canon live_verify 2000 (live_call (CHR ''2''))"
  "validateSubmission 2000 (JObj (live_call (CHR ''3''))) = Inr ()" "verifyRecord live_canon live_verify 2000 (live_call (CHR ''3''))"
  by code_simp+

text \<open>A service with the first call in its store and nothing cached.\<close>

definition live_stored :: "char \<Rightarrow> stored_record" where
  "live_stored c = \<lparr>sr_record = live_call c, sr_recordHash = hexEncode (encode_utf8 [c]), sr_token16 = base64urlEncode (encode_utf8 [c])\<rparr>"

lemma live_stored_of: "stored_of (\<lambda>x. x) live_canon (live_call (CHR ''2'')) = Inr (live_stored (CHR ''2''))"
  "stored_of (\<lambda>x. x) live_canon (live_call (CHR ''3'')) = Inr (live_stored (CHR ''3''))"
  by code_simp+

definition live_service :: graph_service where
  "live_service = live_start\<lparr>gv_store := insert_record (live_stored (CHR ''2'')) None createRecordStore\<rparr>"

lemma live_service_run: "run_store (\<lambda>x. x) live_canon [Add (live_call (CHR ''2'')) None] createRecordStore = Inr (gv_store live_service)"
  by (simp add: store_step_def addRecord_def live_stored_of live_service_def createRecordStore_def)

lemma live_service_simps:
  "gv_graphCache live_service = []" "gv_registryCache live_service = None" "gv_archive live_service = None"
  "gv_store live_service = insert_record (live_stored (CHR ''2'')) None createRecordStore"
  by (simp_all add: live_service_def live_start_def start_service_def)

lemma live_facts:
  "hasContext (gv_store live_service) live_context" "sr_recordHash (live_stored (CHR ''3'')) \<notin> set (rs_seenRecordHashes (gv_store live_service))"
  "member_string (live_call (CHR ''2'')) ''context_id'' = live_context" "member_string (live_call (CHR ''3'')) ''context_id'' = live_context"
  "index_header None = None" "index_header (Some ''9'') = Some 9"
  by code_simp+

abbreviation live_key_of :: graph_key where
  "live_key_of \<equiv> key_of_params live_context (\<lambda>k. None)"

lemma live_graph_returns: obtains g v where "live_graph live_service = (Json (GraphBody g), v)"
proof -
  have "getCachedGraph live_service live_key_of = None" by (simp add: getCachedGraph_def live_service_simps)
  from graph_miss [OF live_service_run live_facts(1) this] that show thesis
    by (auto simp: live_graph_def body_of_def key_of_params_def)
qed

theorem graph_request_answered_witness: "\<exists>body v. live_graph live_service = (Json body, v)"
proof -
  obtain rp v where v: "live_graph live_service = (rp, v)" by fastforce
  with graph_request_answered [OF live_service_run v [unfolded live_graph_def]] live_facts(1) show ?thesis by auto
qed

lemma live_requests_run: "serve_all (\<lambda>x. x) live_canon live_verify case_print [Ingest 2000 None (Parsed (JObj (live_call (CHR ''2'')))) None]
    (start_service (\<lambda>x. x) live_canon case_parse None) = live_service"
  using live_ingest_eq [OF live_calls_valid(1, 2), of None live_start] 
  by (simp add: serve_all_def serve_def live_ingest_def live_facts(5) addRecord_def live_stored_of live_service_def live_start_def start_service_def
      createRecordStore_def archive_hook_def)

theorem cached_graphs_current_witness:
  "\<exists>body v. live_graph live_service = (Json body, v)
    \<and> fresh_body (\<lambda>x. x) live_canon live_verify live_key_of (gv_store live_service) body"
proof -
  obtain g v where g: "live_graph live_service = (Json (GraphBody g), v)" by (rule live_graph_returns)
  have "getRecordCount (gv_store live_service) \<noteq> getRecordCount createRecordStore"
    by (simp add: live_service_simps insert_record_def getRecordCount_def createRecordStore_def Let_def)
  then have "no_late_index (\<lambda>x. x) live_canon live_verify case_print [Ingest 2000 None (Parsed (JObj (live_call (CHR ''2'')))) None]
      (start_service (\<lambda>x. x) live_canon case_parse None)"
    using live_requests_run by (simp add: serve_all_def late_index_def start_service_def)
  from cached_graphs_current [OF this live_requests_run [symmetric] g [unfolded live_graph_def]] g show ?thesis by blast
qed

theorem late_index_leaves_graph_stale_witness:
  "\<exists>g v1 v2. live_graph live_service = (Json (GraphBody g), v1)
    \<and> live_ingest (live_call (CHR ''2'')) (Some ''9'') v1 = (Json OkBody, v2) \<and> live_graph v2 = (Json (GraphBody g), v2)
    \<and> (\<forall>n \<in> set (gr_nodes g). gn_id n = sha256_prefix @ sr_recordHash (live_stored (CHR ''2'')) \<longrightarrow> gn_log_index n = None)"
proof -
  obtain g v1 where g: "live_graph live_service = (Json (GraphBody g), v1)" by (rule live_graph_returns)
  have ok: "caches_ok (\<lambda>x. x) live_canon live_verify live_service" by (simp add: caches_ok_def registry_fresh_def live_service_simps)
  have stored: "live_stored (CHR ''2'') \<in> set (rs_allRecords (gv_store live_service))"
    "getLogIndex (gv_store live_service) (sr_recordHash (live_stored (CHR ''2''))) = None"
    by (simp_all add: live_service_simps insert_record_def createRecordStore_def getLogIndex_def set_index_def Let_def)
  have "\<exists>new s. addRecord (\<lambda>x. x) live_canon (live_call (CHR ''2'')) (Some 9) (gv_store v1) = Inr (new, s)"
    by (simp add: addRecord_def live_stored_of split: if_split) blast
  then obtain new s where "addRecord (\<lambda>x. x) live_canon (live_call (CHR ''2'')) (Some 9) (gv_store v1) = Inr (new, s)" by blast
  then obtain v2 where v2: "live_ingest (live_call (CHR ''2'')) (Some ''9'') v1 = (Json OkBody, v2)"
    by (simp add: live_ingest_eq [OF live_calls_valid(1, 2)] live_facts)
  from late_index_leaves_graph_stale [OF live_service_run ok g [unfolded live_graph_def] v2 [unfolded live_ingest_def]
      live_stored_of(1) live_facts(3) stored live_facts(6)] g v2
  show ?thesis unfolding live_graph_def by blast
qed

text \<open>A second call of the context, ingested while the graph with the first is built.\<close>

theorem overtaken_graph_is_cached_witness:
  "\<exists>p v1 v2 v3 body. graph_begin live_context (\<lambda>k. None) live_service = (Inr p, v1)
    \<and> live_ingest (live_call (CHR ''3'')) None v1 = (Json OkBody, v2)
    \<and> graph_end (\<lambda>x. x) live_canon live_verify 2000 p v2 = (Json body, v3)
    \<and> live_graph v3 = (Json body, v3) \<and> live_call (CHR ''3'') \<in> set (getRecordsByContextId (gv_store v3) live_context)"
proof -
  have "getCachedGraph live_service live_key_of = None" by (simp add: getCachedGraph_def live_service_simps)
  then obtain p v1 where p: "graph_begin live_context (\<lambda>k. None) live_service = (Inr p, v1)" "gv_store v1 = gv_store live_service"
    "pg_records p = getRecordsByContextId (gv_store live_service) live_context"
    using live_facts(1) by (auto simp: graph_begin_def buildRegistryCached_def live_service_simps(1, 2) Let_def)
  obtain s where s: "addRecord (\<lambda>x. x) live_canon (live_call (CHR ''3'')) None (gv_store v1) = Inr (True, s)"
    using live_facts(2) by (simp add: addRecord_def live_stored_of p(2))
  then obtain v2 where v2: "live_ingest (live_call (CHR ''3'')) None v1 = (Json OkBody, v2)"
    by (simp add: live_ingest_eq [OF live_calls_valid(3, 4)] live_facts)
  have "indexed (gv_store live_service) (distinct_records (\<lambda>x. x) live_canon [Add (live_call (CHR ''2'')) None])"
    using store_of_built [OF live_service_run] by (simp add: store_of_def)
  from stored_build_returns [OF context_records(2) [OF this]] context_records(1) [OF this]
  have "\<exists>g. buildGraph (\<lambda>x. x) live_canon live_verify 2000 (pg_records p) gaps opts = Inr (Some g)" for gaps opts
    unfolding p(3) by simp
  then obtain g where "buildGraph (\<lambda>x. x) live_canon live_verify 2000 (pg_records p) (pg_gapNodes p) (graph_options (gv_store v2)
      (pg_registry p) (gk_includeGapNodes (pg_key p)) (gk_includeCrossSession (pg_key p)) (gk_compact (pg_key p))) = Inr (Some g)" by blast
  then obtain body v3 where e: "graph_end (\<lambda>x. x) live_canon live_verify 2000 p v2 = (Json body, v3)"
    by (simp add: graph_end_def Let_def)
  from overtaken_graph_is_cached [OF live_service_run p(1) v2 [unfolded live_ingest_def] s [folded live_facts(5)] live_stored_of(2) e] live_facts(4)
  have "live_graph v3 = (Json body, v3) \<and> live_call (CHR ''3'') \<in> set (getRecordsByContextId (gv_store v3) live_context)"
    unfolding live_graph_def by blast
  with p(1) v2 e show ?thesis by blast
qed

end
