(* ===== verification/Graph_Walks.thy ===== *)
theory Graph_Walks
  imports Graph_Server
begin

text \<open>
  The two backward walks of \<open>services/graph-node/src/server.ts\<close>: \<open>handleTrace\<close> over the ancestors that
  records claim, breadth first to a depth and a number of records, and \<open>handleChain\<close> along the chain to the
  genesis record. The loops take the lookup of a record and the references of a record as arguments; the
  theorems relate what they collect to the paths of that relation.
\<close>

section \<open>Trace\<close>

definition TRACE_DEFAULT_DEPTH :: int where
  "TRACE_DEFAULT_DEPTH = 5"

definition TRACE_MAX_DEPTH :: int where
  "TRACE_MAX_DEPTH = 20"

definition TRACE_MAX_NODES :: nat where
  "TRACE_MAX_NODES = 500"

definition walk_depth :: "query_params \<Rightarrow> nat" where
  "walk_depth params =
     nat (max 1 (min (case params ''depth'' of None \<Rightarrow> TRACE_DEFAULT_DEPTH
        | Some raw \<Rightarrow> (case parse_int raw of None \<Rightarrow> TRACE_DEFAULT_DEPTH | Some n \<Rightarrow> n)) TRACE_MAX_DEPTH))"

definition reference_hash :: "json option \<Rightarrow> string list" where
  "reference_hash v = (case v of Some (JStr ref) \<Rightarrow> if starts_with sha256_prefix ref then [drop 7 ref] else [] | _ \<Rightarrow> [])"

text \<open>The candidates of one record, in the order of the code.\<close>

definition claimed_ancestors :: "bool \<Rightarrow> bool \<Rightarrow> js_object \<Rightarrow> string list" where
  "claimed_ancestors includeAnnotations includeRevisions r =
     (case map_of r ''informed_by'' of Some (JArr refs) \<Rightarrow> concat (map (\<lambda>ref. reference_hash (Some ref)) refs) | _ \<Rightarrow> [])
     @ (if includeAnnotations then reference_hash (map_of r ''annotates'') else [])
     @ (if includeRevisions then reference_hash (map_of r ''revises'') else [])"

record 'r trace_state =
  ts_visited :: "string list"
  ts_collected :: "'r list"
  ts_next :: "string list"

text \<open>The loop over the candidates; the flag says that it stopped at the number of records.\<close>

fun trace_candidates :: "(string \<Rightarrow> 'r option) \<Rightarrow> string list \<Rightarrow> 'r trace_state \<Rightarrow> 'r trace_state \<times> bool" where
  "trace_candidates find_record [] st = (st, False)"
| "trace_candidates find_record (h # hs) st =
     (if h \<in> set (ts_visited st) then trace_candidates find_record hs st
      else let st' = (case find_record h of
                 None \<Rightarrow> st\<lparr>ts_visited := ts_visited st @ [h]\<rparr>
               | Some r \<Rightarrow> st\<lparr>ts_visited := ts_visited st @ [h], ts_collected := ts_collected st @ [r], ts_next := ts_next st @ [h]\<rparr>)
        in if TRACE_MAX_NODES \<le> length (ts_collected st') then (st', True) else trace_candidates find_record hs st')"

text \<open>The loop over the frontier. The flag of the last candidates stays when the loop leaves; without it the number
  of records is below the limit.\<close>

fun trace_frontier :: "(string \<Rightarrow> 'r option) \<Rightarrow> ('r \<Rightarrow> string list) \<Rightarrow> string list \<Rightarrow> 'r trace_state \<Rightarrow> 'r trace_state \<times> bool" where
  "trace_frontier find_record refs [] st = (st, False)"
| "trace_frontier find_record refs (h # hs) st =
     (case find_record h of
        None \<Rightarrow> trace_frontier find_record refs hs st
      | Some r \<Rightarrow>
          let (st', truncated) = trace_candidates find_record (refs r) st
          in if TRACE_MAX_NODES \<le> length (ts_collected st') then (st', truncated)
             else (case trace_frontier find_record refs hs st' of (st'', t) \<Rightarrow> (st'', truncated \<or> t)))"

text \<open>The loop over the hops, with the number that is left: the records and the two flags.\<close>

fun trace_hops ::
  "(string \<Rightarrow> 'r option) \<Rightarrow> ('r \<Rightarrow> string list) \<Rightarrow> nat \<Rightarrow> string list \<Rightarrow> string list \<Rightarrow> 'r list \<Rightarrow> 'r list \<times> bool \<times> bool" where
  "trace_hops find_record refs 0 frontier visited collected = (collected, False, False)"
| "trace_hops find_record refs (Suc k) frontier visited collected =
     (let (st, truncated) = trace_frontier find_record refs frontier \<lparr>ts_visited = visited, ts_collected = collected, ts_next = []\<rparr>
      in if TRACE_MAX_NODES \<le> length (ts_collected st) then (ts_collected st, False, truncated)
         else if ts_next st = [] then (ts_collected st, False, truncated)
         else (case trace_hops find_record refs k (ts_next st) (ts_visited st) (ts_collected st) of
                 (rs, byDepth, byCount) \<Rightarrow> (rs, byDepth \<or> k = 0, byCount \<or> truncated)))"

definition stored_record_of :: "record_store \<Rightarrow> string \<Rightarrow> js_object option" where
  "stored_record_of s h = map_option sf_record (getRecordByHash s h)"

definition no_record :: "string \<Rightarrow> string \<Rightarrow> reply" where
  "no_record recordHashHex path = Problem 404 ''record-not-found'' (''No record with hash sha256:'' @ recordHashHex) (path @ recordHashHex)"

definition handleTrace ::
  "(bytes \<Rightarrow> bytes) \<Rightarrow> (json \<Rightarrow> string option) \<Rightarrow> (bytes \<Rightarrow> bytes \<Rightarrow> bytes \<Rightarrow> bool) \<Rightarrow> int
   \<Rightarrow> string \<Rightarrow> query_params \<Rightarrow> graph_service \<Rightarrow> reply \<times> graph_service" where
  "handleTrace sha canon ed_verify nowMs recordHashHex params v =
     (let s = gv_store v; depth = walk_depth params;
          refs = claimed_ancestors (params ''include_annotations'' \<noteq> Some ''false'') (params ''include_revisions'' \<noteq> Some ''false'')
      in case stored_record_of s recordHashHex of
           None \<Rightarrow> (no_record recordHashHex ''/v1/trace/'', v)
         | Some startRecord \<Rightarrow>
             let (collected, byDepth, byCount) = trace_hops (stored_record_of s) refs depth [recordHashHex] [recordHashHex] [startRecord];
                 (registry, v') = buildRegistryCached v
             in (with_graph (buildGraph sha canon ed_verify nowMs collected [] (graph_options s registry False True False))
                  (\<lambda>g. Json (TraceBody \<lparr>wk_start_record_hash = sha256_prefix @ recordHashHex, wk_depth_requested = depth,
                     wk_record_count = length collected, wk_truncated_by_depth = byDepth, wk_truncated_by_count = byCount, wk_graph = g\<rparr>)), v'))"

section \<open>Chain\<close>

definition at_genesis :: "(bytes \<Rightarrow> bytes) \<Rightarrow> js_object \<Rightarrow> bool" where
  "at_genesis sha r \<longleftrightarrow> member_string r ''chain_root'' = genesisChainRoot sha (member_string r ''context_id'')"

text \<open>The loop over the hops, with the number that is left: the records and whether the depth ended it.\<close>

fun chain_hops ::
  "(bytes \<Rightarrow> bytes) \<Rightarrow> (string \<Rightarrow> js_object option) \<Rightarrow> nat \<Rightarrow> js_object \<Rightarrow> string list \<Rightarrow> js_object list \<Rightarrow> js_object list \<times> bool" where
  "chain_hops sha find_record 0 r visited collected = (collected, False)"
| "chain_hops sha find_record (Suc k) r visited collected =
     (let chain_root = member_string r ''chain_root''; ancestorHash = drop 7 chain_root
      in if at_genesis sha r then (collected, False)
         else if \<not> starts_with sha256_prefix chain_root then (collected, False)
         else if ancestorHash \<in> set visited then (collected, False)
         else (case find_record ancestorHash of
                 None \<Rightarrow> (collected, False)
               | Some ancestor \<Rightarrow>
                   (case chain_hops sha find_record k ancestor (visited @ [ancestorHash]) (collected @ [ancestor]) of
                      (rs, byDepth) \<Rightarrow> (rs, byDepth \<or> k = 0 \<and> \<not> at_genesis sha ancestor))))"

definition handleChain ::
  "(bytes \<Rightarrow> bytes) \<Rightarrow> (json \<Rightarrow> string option) \<Rightarrow> (bytes \<Rightarrow> bytes \<Rightarrow> bytes \<Rightarrow> bool) \<Rightarrow> int
   \<Rightarrow> string \<Rightarrow> query_params \<Rightarrow> graph_service \<Rightarrow> reply \<times> graph_service" where
  "handleChain sha canon ed_verify nowMs recordHashHex params v =
     (let s = gv_store v; depth = walk_depth params
      in case stored_record_of s recordHashHex of
           None \<Rightarrow> (no_record recordHashHex ''/v1/chain/'', v)
         | Some startRecord \<Rightarrow>
             let (collected, byDepth) = chain_hops sha (stored_record_of s) depth startRecord [recordHashHex] [startRecord];
                 (registry, v') = buildRegistryCached v
             in (with_graph (buildGraph sha canon ed_verify nowMs collected [] (graph_options s registry False False False))
                  (\<lambda>g. Json (ChainBody \<lparr>wk_start_record_hash = sha256_prefix @ recordHashHex, wk_depth_requested = depth,
                     wk_record_count = length collected, wk_truncated_by_depth = byDepth, wk_truncated_by_count = False, wk_graph = g\<rparr>)), v'))"

section \<open>What a trace collects\<close>

text \<open>The ancestors of a set of records that are at most \<open>k\<close> references away.\<close>

fun reach :: "('a \<times> 'a) set \<Rightarrow> nat \<Rightarrow> 'a set \<Rightarrow> 'a set" where
  "reach r 0 A = A"
| "reach r (Suc k) A = reach r k (A \<union> r `` A)"

lemma reach_closed: "r `` A \<subseteq> A \<Longrightarrow> reach r k A = A"
  by (induction k) (simp_all add: Un_absorb2)

lemma reach_superset: "A \<subseteq> reach r k A"
proof (induction k arbitrary: A)
  case (Suc k)
  from Suc [of "A \<union> r `` A"] show ?case by simp
qed simp

lemma reach_relpow: "h \<in> reach r k A \<longleftrightarrow> (\<exists>j \<le> k. \<exists>a \<in> A. (a, h) \<in> r ^^ j)"
proof (induction k arbitrary: A)
  case (Suc k)
  have "(\<exists>j \<le> k. \<exists>a \<in> A \<union> r `` A. (a, h) \<in> r ^^ j) \<longleftrightarrow> (\<exists>j \<le> Suc k. \<exists>a \<in> A. (a, h) \<in> r ^^ j)" (is "?L \<longleftrightarrow> ?R")
  proof
    assume ?L
    then obtain j a where j: "j \<le> k" "(a, h) \<in> r ^^ j" "a \<in> A \<or> (\<exists>b \<in> A. (b, a) \<in> r)" by auto
    then show ?R by (meson Suc_le_mono le_SucI relpow_Suc_I2)
  next
    assume ?R
    then obtain j a where j: "j \<le> Suc k" "a \<in> A" "(a, h) \<in> r ^^ j" by auto
    show ?L
    proof (cases j)
      case 0 with j show ?thesis by auto
    next
      case (Suc i)
      then obtain b where "(a, b) \<in> r" "(b, h) \<in> r ^^ i" using j(3) by (metis relpow_Suc_E2)
      with j Suc show ?thesis by auto
    qed
  qed
  with Suc show ?case by simp
qed simp

definition claims :: "(string \<Rightarrow> 'r option) \<Rightarrow> ('r \<Rightarrow> string list) \<Rightarrow> (string \<times> string) set" where
  "claims find_record refs = {(h, h'). \<exists>r. find_record h = Some r \<and> h' \<in> set (refs r) \<and> find_record h' \<noteq> None}"

definition found :: "(string \<Rightarrow> 'r option) \<Rightarrow> string list \<Rightarrow> string list" where
  "found find_record hs = filter (\<lambda>h. find_record h \<noteq> None) hs"

definition records_at :: "(string \<Rightarrow> 'r option) \<Rightarrow> string list \<Rightarrow> 'r list" where
  "records_at find_record hs = map (\<lambda>h. the (find_record h)) (found find_record hs)"

lemma found_append [simp]: "found f (xs @ ys) = found f xs @ found f ys"
  by (simp add: found_def)

lemma records_at_append [simp]: "records_at f (xs @ ys) = records_at f xs @ records_at f ys"
  by (simp add: records_at_def)

lemma found_simps [simp]: "found f [] = []" "found f (h # hs) = (if f h = None then found f hs else h # found f hs)"
  by (simp_all add: found_def)

lemma records_at_simps [simp]:
  "records_at f [] = []" "records_at f (h # hs) = (case f h of None \<Rightarrow> records_at f hs | Some r \<Rightarrow> r # records_at f hs)"
  by (auto simp: records_at_def split: option.splits)

text \<open>A piece of a trace: it visits \<open>ws\<close>, all of them among \<open>hs\<close>, and all of \<open>hs\<close> unless it is cut short.\<close>

definition visits :: "(string \<Rightarrow> 'r option) \<Rightarrow> string set \<Rightarrow> 'r trace_state \<Rightarrow> 'r trace_state \<Rightarrow> bool \<Rightarrow> string list \<Rightarrow> bool" where
  "visits f hs st st' truncated ws \<longleftrightarrow>
     ts_visited st' = ts_visited st @ ws \<and> distinct (ts_visited st @ ws) \<and> set ws \<subseteq> hs
     \<and> ts_collected st' = ts_collected st @ records_at f ws \<and> ts_next st' = ts_next st @ found f ws
     \<and> length (ts_collected st') \<le> TRACE_MAX_NODES \<and> (truncated \<longleftrightarrow> TRACE_MAX_NODES \<le> length (ts_collected st'))
     \<and> (\<not> truncated \<longrightarrow> hs \<subseteq> set (ts_visited st'))"

lemma visits_trans:
  assumes "visits f hs st st1 False ws" and "visits f hs' st1 st2 truncated ws'"
  shows "visits f (hs \<union> hs') st st2 truncated (ws @ ws')"
  using assms unfolding visits_def by auto

lemma visits_mono: "visits f hs st st' truncated ws \<Longrightarrow> hs \<subseteq> hs' \<Longrightarrow> truncated \<or> hs' \<subseteq> set (ts_visited st') \<Longrightarrow> visits f hs' st st' truncated ws"
  unfolding visits_def by auto

lemma trace_candidates_visits:
  assumes "trace_candidates f hs st = (st', truncated)" and "distinct (ts_visited st)" and "length (ts_collected st) < TRACE_MAX_NODES"
  shows "\<exists>ws. visits f (set hs) st st' truncated ws"
  using assms
proof (induction hs arbitrary: st)
  case Nil
  then have "visits f (set []) st st' truncated []" by (auto simp: visits_def)
  then show ?case by blast
next
  case (Cons h hs)
  show ?case
  proof (cases "h \<in> set (ts_visited st)")
    case True
    with Cons obtain ws where ws: "visits f (set hs) st st' truncated ws" by auto
    with True have "visits f (set (h # hs)) st st' truncated ws"
      by (intro visits_mono [OF ws]) (auto simp: visits_def)
    then show ?thesis by blast
  next
    case False
    define st1 where "st1 = (case f h of None \<Rightarrow> st\<lparr>ts_visited := ts_visited st @ [h]\<rparr>
        | Some r \<Rightarrow> st\<lparr>ts_visited := ts_visited st @ [h], ts_collected := ts_collected st @ [r], ts_next := ts_next st @ [h]\<rparr>)"
    let ?full = "TRACE_MAX_NODES \<le> length (ts_collected st1)"
    have one: "visits f {h} st st1 ?full [h]"
      using False Cons.prems(2, 3) by (auto simp: visits_def st1_def split: option.splits)
    have "trace_candidates f (h # hs) st = (if ?full then (st1, True) else trace_candidates f hs st1)"
      using False by (simp add: st1_def Let_def)
    then have step: "(st', truncated) = (if ?full then (st1, True) else trace_candidates f hs st1)"
      using Cons.prems(1) by metis
    show ?thesis
    proof (cases ?full)
      case True
      with step have "st' = st1" "truncated" by auto
      with one True have "visits f (set (h # hs)) st st' truncated [h]" by (auto simp: visits_def)
      then show ?thesis by blast
    next
      case full: False
      then obtain ws where "visits f (set hs) st1 st' truncated ws"
        using Cons.IH [of st1] step one by (auto simp: visits_def)
      moreover have "visits f {h} st st1 False [h]" using one full by simp
      ultimately have "visits f ({h} \<union> set hs) st st' truncated ([h] @ ws)" using visits_trans by blast
      then show ?thesis by auto
    qed
  qed
qed

definition claimed :: "(string \<Rightarrow> 'r option) \<Rightarrow> ('r \<Rightarrow> string list) \<Rightarrow> string list \<Rightarrow> string set" where
  "claimed f refs hs = (\<Union>h \<in> set hs. case f h of None \<Rightarrow> {} | Some r \<Rightarrow> set (refs r))"

lemma trace_frontier_visits:
  assumes "trace_frontier f refs hs st = (st', truncated)" and "distinct (ts_visited st)" and "length (ts_collected st) < TRACE_MAX_NODES"
  shows "\<exists>ws. visits f (claimed f refs hs) st st' truncated ws"
  using assms
proof (induction hs arbitrary: st truncated)
  case Nil
  then have "visits f (claimed f refs []) st st' truncated []" by (auto simp: visits_def claimed_def)
  then show ?case by blast
next
  case (Cons h hs)
  show ?case
  proof (cases "f h")
    case None
    with Cons show ?thesis by (simp add: claimed_def)
  next
    case (Some r)
    obtain st1 t where st1: "trace_candidates f (refs r) st = (st1, t)" by fastforce
    then obtain ws where ws: "visits f (set (refs r)) st st1 t ws" using trace_candidates_visits Cons.prems(2, 3) by blast
    have sub: "claimed f refs (h # hs) = set (refs r) \<union> claimed f refs hs" by (simp add: claimed_def Some)
    show ?thesis
    proof (cases "TRACE_MAX_NODES \<le> length (ts_collected st1)")
      case True
      then have "st' = st1" "truncated = t" "t" using Cons.prems(1) st1 Some ws by (auto simp: visits_def)
      then show ?thesis using visits_mono [OF ws, of "claimed f refs (h # hs)"] sub by blast
    next
      case False
      then have t: "\<not> t" using ws by (auto simp: visits_def)
      obtain t' where t': "trace_frontier f refs hs st1 = (st', t')" "truncated = t'"
        using Cons.prems(1) st1 Some False t by (auto split: prod.splits)
      have "distinct (ts_visited st1)" "length (ts_collected st1) < TRACE_MAX_NODES" using ws False by (auto simp: visits_def)
      then obtain ws' where ws': "visits f (claimed f refs hs) st1 st' t' ws'" using Cons.IH [OF t'(1)] by blast
      have "visits f (set (refs r)) st st1 False ws" using ws t by simp
      from visits_trans [OF this ws'] show ?thesis unfolding sub t'(2) by blast
    qed
  qed
qed

text \<open>The trace, after some hops: \<open>V\<close> has been visited and the references of its records, the frontier aside, too.\<close>

definition traced :: "(string \<Rightarrow> 'r option) \<Rightarrow> ('r \<Rightarrow> string list) \<Rightarrow> string list \<Rightarrow> string list \<Rightarrow> bool" where
  "traced f refs frontier V \<longleftrightarrow> distinct V \<and> length (records_at f V) < TRACE_MAX_NODES \<and> set frontier \<subseteq> set (found f V)
     \<and> (\<forall>h \<in> set (found f V) - set frontier. claimed f refs [h] \<subseteq> set V)"

lemma traced_step:
  assumes "traced f refs frontier V"
    and "visits f (claimed f refs frontier) \<lparr>ts_visited = V, ts_collected = records_at f V, ts_next = []\<rparr> st truncated ws"
  shows "ts_collected st = records_at f (V @ ws)" and "ts_visited st = V @ ws" and "ts_next st = found f ws"
    and "set (found f (V @ ws)) \<subseteq> set (found f V) \<union> claims f refs `` set (found f V)"
    and "\<not> truncated \<Longrightarrow> set (found f (V @ ws)) = set (found f V) \<union> claims f refs `` set (found f V)"
    and "\<not> truncated \<Longrightarrow> traced f refs (found f ws) (V @ ws)"
proof -
  note v = assms(2) [unfolded visits_def, simplified]
  show collected: "ts_collected st = records_at f (V @ ws)" and "ts_visited st = V @ ws" "ts_next st = found f ws" using v by simp_all
  have frontier: "set frontier \<subseteq> set (found f V)" using assms(1) by (simp add: traced_def)
  have image: "h' \<in> claims f refs `` A \<longleftrightarrow> f h' \<noteq> None \<and> (\<exists>h \<in> A. h' \<in> claimed f refs [h])" for h' A
    by (force simp: claims_def claimed_def split: option.splits)
  have union: "claimed f refs hs = (\<Union>h \<in> set hs. claimed f refs [h])" for hs by (simp add: claimed_def)
  have new: "h \<in> claims f refs `` set (found f V)" if "h \<in> set (found f ws)" for h
  proof -
    have h: "h \<in> set ws" "f h \<noteq> None" using that by (auto simp: found_def)
    then have "h \<in> claimed f refs frontier" using v by blast
    then obtain h0 where "h0 \<in> set frontier" "h \<in> claimed f refs [h0]" unfolding union [of frontier] by blast
    with frontier h(2) show ?thesis unfolding image by blast
  qed
  then show sub: "set (found f (V @ ws)) \<subseteq> set (found f V) \<union> claims f refs `` set (found f V)" by auto
  {
    assume full: "\<not> truncated"
    have all: "claimed f refs [h] \<subseteq> set (V @ ws)" if "h \<in> set (found f V)" for h
    proof (cases "h \<in> set frontier")
      case True
      then have "claimed f refs [h] \<subseteq> claimed f refs frontier" unfolding union [of frontier] by blast
      with v full show ?thesis by auto
    next
      case False
      with that assms(1) have "claimed f refs [h] \<subseteq> set V" unfolding traced_def by blast
      then show ?thesis by auto
    qed
    have "claims f refs `` set (found f V) \<subseteq> set (found f (V @ ws))"
    proof
      fix h' assume "h' \<in> claims f refs `` set (found f V)"
      then obtain h where "f h' \<noteq> None" "h \<in> set (found f V)" "h' \<in> claimed f refs [h]" unfolding image by blast
      with all [of h] have "h' \<in> set (V @ ws)" "f h' \<noteq> None" by blast+
      then show "h' \<in> set (found f (V @ ws))" by (simp only: found_def set_filter mem_Collect_eq) simp
    qed
    with sub show "set (found f (V @ ws)) = set (found f V) \<union> claims f refs `` set (found f V)" by auto
    have rest: "\<forall>h \<in> set (found f (V @ ws)) - set (found f ws). claimed f refs [h] \<subseteq> set (V @ ws)"
    proof
      fix h assume "h \<in> set (found f (V @ ws)) - set (found f ws)"
      then have "h \<in> set (found f V)" unfolding found_append set_append by blast
      then show "claimed f refs [h] \<subseteq> set (V @ ws)" by (rule all)
    qed
    have "truncated \<longleftrightarrow> TRACE_MAX_NODES \<le> length (ts_collected st)" using assms(2) by (simp add: visits_def)
    with full have "\<not> TRACE_MAX_NODES \<le> length (records_at f (V @ ws))" unfolding collected by blast
    then have "length (records_at f (V @ ws)) < TRACE_MAX_NODES" by (simp only: not_le)
    moreover have "distinct (V @ ws)" using assms(2) by (simp add: visits_def)
    moreover have "set (found f ws) \<subseteq> set (found f (V @ ws))" by simp
    ultimately show "traced f refs (found f ws) (V @ ws)" using rest unfolding traced_def by (intro conjI)
  }
qed

lemma trace_hops_spec:
  assumes "trace_hops f refs k frontier V (records_at f V) = (rs, byDepth, byCount)" and "traced f refs frontier V"
  shows "\<exists>W. rs = records_at f W \<and> distinct W \<and> length rs \<le> TRACE_MAX_NODES
    \<and> set (found f W) \<subseteq> reach (claims f refs) k (set (found f V))
    \<and> (\<not> byCount \<longrightarrow> set (found f W) = reach (claims f refs) k (set (found f V))
        \<and> (byDepth \<longleftrightarrow> 0 < k \<and> reach (claims f refs) k (set (found f V)) \<noteq> reach (claims f refs) (k - 1) (set (found f V))))"
  using assms
proof (induction k arbitrary: frontier V byDepth byCount)
  case 0
  then show ?case by (intro exI [of _ V]) (simp add: traced_def)
next
  case (Suc k)
  let ?A = "set (found f V)" and ?R = "claims f refs"
  obtain st t where st: "trace_frontier f refs frontier \<lparr>ts_visited = V, ts_collected = records_at f V, ts_next = []\<rparr> = (st, t)"
    by fastforce
  then obtain ws where ws: "visits f (claimed f refs frontier) \<lparr>ts_visited = V, ts_collected = records_at f V, ts_next = []\<rparr> st t ws"
    using trace_frontier_visits [OF st] Suc.prems(2) by (auto simp: traced_def)
  note step = traced_step [OF Suc.prems(2) ws]
  have facts: "distinct (V @ ws)" "length (ts_collected st) \<le> TRACE_MAX_NODES" "t \<longleftrightarrow> TRACE_MAX_NODES \<le> length (ts_collected st)"
    using ws by (auto simp: visits_def)
  have more: "?A \<union> ?R `` ?A \<subseteq> reach ?R (Suc k) ?A" unfolding reach.simps by (rule reach_superset)
  show ?case
  proof (cases t)
    case True
    then have "rs = records_at f (V @ ws)" "byCount" using Suc.prems(1) st facts(3) step(1) by auto
    with facts step(1, 4) more show ?thesis by (intro exI [of _ "V @ ws"]) auto
  next
    case False
    show ?thesis
    proof (cases "found f ws = []")
      case True
      then have "rs = records_at f (V @ ws)" "\<not> byCount" "\<not> byDepth" using Suc.prems(1) st facts(3) step(1, 3) False by auto
      moreover have closed: "?R `` ?A \<subseteq> ?A" using step(5) [OF False] True by auto
      then have "reach ?R j ?A = ?A" for j by (rule reach_closed)
      moreover have "set (found f (V @ ws)) = ?A" using True by simp
      ultimately show ?thesis using facts(1, 2) step(1) by (intro exI [of _ "V @ ws"]) (simp del: reach.simps)
    next
      case more_left: False
      obtain byDepth' byCount' where rec: "trace_hops f refs k (found f ws) (V @ ws) (records_at f (V @ ws)) = (rs, byDepth', byCount')"
        and flags: "byDepth = (byDepth' \<or> k = 0)" "byCount = byCount'"
        using Suc.prems(1) st facts(3) step(1-3) False more_left by (auto split: prod.splits)
      have A': "set (found f (V @ ws)) = ?A \<union> ?R `` ?A" by (rule step(5) [OF False])
      obtain W where W: "rs = records_at f W" "distinct W" "length rs \<le> TRACE_MAX_NODES" "set (found f W) \<subseteq> reach ?R k (?A \<union> ?R `` ?A)"
        "\<not> byCount' \<Longrightarrow> set (found f W) = reach ?R k (?A \<union> ?R `` ?A)
          \<and> (byDepth' \<longleftrightarrow> 0 < k \<and> reach ?R k (?A \<union> ?R `` ?A) \<noteq> reach ?R (k - 1) (?A \<union> ?R `` ?A))"
        using Suc.IH [OF rec step(6) [OF False]] unfolding A' by blast
      obtain h where h: "h \<in> set (found f ws)" using more_left by (cases "found f ws") auto
      then have "h \<notin> ?A" using facts(1) by (auto simp: found_def)
      then have "?A \<union> ?R `` ?A \<noteq> ?A" using h A' by auto
      then have "byDepth \<longleftrightarrow> 0 < Suc k \<and> reach ?R (Suc k) ?A \<noteq> reach ?R (Suc k - 1) ?A" if "\<not> byCount"
        using W(5) that flags by (cases k) auto
      with W flags(2) show ?thesis by (intro exI [of _ W]) auto
    qed
  qed
qed

section \<open>The graph of a trace\<close>

text \<open>Looking up hashes in a store.\<close>

lemma stored_record_find:
  assumes "indexed s xs"
  shows "stored_record_of s h = map_option sr_record (find (\<lambda>x. sr_recordHash x = h) xs)"
  using assms by (simp add: stored_record_of_def getRecordByHash_def indexed_def option.map_comp comp_def reference_to_def)

text \<open>A walk that follows hashes of stored records picks stored records without repetition.\<close>

lemma picked_records:
  assumes "indexed s (distinct_records sha canon es)" and "distinct hs"
  shows "\<exists>xs. records_at (stored_record_of s) hs = map sr_record xs \<and> map sr_recordHash xs = found (stored_record_of s) hs
    \<and> set xs \<subseteq> set (distinct_records sha canon es)"
proof -
  let ?ds = "distinct_records sha canon es"
  define pick where "pick h = the (find (\<lambda>x. sr_recordHash x = h) ?ds)" for h
  have pick: "pick h \<in> set ?ds \<and> sr_recordHash (pick h) = h \<and> stored_record_of s h = Some (sr_record (pick h))"
    if "stored_record_of s h \<noteq> None" for h
  proof -
    from that have "find (\<lambda>x. sr_recordHash x = h) ?ds \<noteq> None" by (simp add: stored_record_find [OF assms(1)])
    then obtain x where x: "find (\<lambda>x. sr_recordHash x = h) ?ds = Some x" by blast
    then have "x \<in> set ?ds" "sr_recordHash x = h" by (auto simp: find_Some_iff)
    with x show ?thesis by (simp add: pick_def stored_record_find [OF assms(1)])
  qed
  have f: "h \<in> set (found (stored_record_of s) hs) \<Longrightarrow> stored_record_of s h \<noteq> None" for h by (simp add: found_def)
  let ?xs = "map pick (found (stored_record_of s) hs)"
  have "the (stored_record_of s h) = sr_record (pick h)" if "h \<in> set (found (stored_record_of s) hs)" for h
    using pick [OF f [OF that]] by (metis option.sel)
  then have "records_at (stored_record_of s) hs = map sr_record ?xs" by (simp add: records_at_def)
  moreover have "map sr_recordHash ?xs = found (stored_record_of s) hs" using pick f by (auto intro: map_idI)
  moreover have "set ?xs \<subseteq> set ?ds" using pick f by auto
  ultimately show ?thesis by blast
qed

lemma label_not_dangling: "gn_event_type (record_node sha canon ed_verify nowMs opts i) \<noteq> Dangling_node"
  by (simp add: record_node_def graphLabelFromEventTypeUri_def Let_def)

text \<open>The hashes of the records of a graph, without the placeholders for references that did not resolve. In a graph of
  stored records they are those of the records that it was built from.\<close>

definition graph_hashes :: "GraphResponse \<Rightarrow> string set" where
  "graph_hashes g = {h. \<exists>n \<in> set (gr_nodes g). gn_id n = sha256_prefix @ h \<and> gn_event_type n \<noteq> Dangling_node}"

lemma graph_records:
  assumes "\<forall>x \<in> set xs. stored_of sha canon (sr_record x) = Inr x" and "distinct (map sr_recordHash xs)"
    and "buildGraph sha canon ed_verify nowMs (map sr_record xs) [] opts = Inr (Some g)"
  shows "graph_hashes g = sr_recordHash ` set xs"
proof (intro equalityI subsetI)
  fix h assume "h \<in> graph_hashes g"
  then obtain n :: GraphNode where n: "n \<in> set (gr_nodes g)" "gn_id n = sha256_prefix @ h" "gn_event_type n \<noteq> Dangling_node"
    by (auto simp: graph_hashes_def)
  then have "n \<in> set (graph_base sha canon ed_verify nowMs (map sr_record xs) [] opts)"
    using derived_hops(7) [OF infos_are_base built_cases [OF assms(3)]] by auto
  then show "h \<in> sr_recordHash ` set xs"
    using stored_node_ids [OF assms(1)] n(2) by (force simp: gap_node_def gap_id_def sha256_prefix_def)
next
  fix h assume "h \<in> sr_recordHash ` set xs"
  then obtain x where x: "x \<in> set xs" "h = sr_recordHash x" by blast
  let ?n = "record_node sha canon ed_verify nowMs opts (info_of_stored x)"
  have "?n \<in> set (gr_nodes g)" "gn_id ?n = sha256_prefix @ h" using stored_node [OF assms x(1), of ?n] x(2) by simp_all
  then show "h \<in> graph_hashes g"
    using label_not_dangling unfolding graph_hashes_def by blast
qed

lemma trace_cases:
  assumes "handleTrace sha canon ed_verify nowMs h params v = (Json (TraceBody w), v')"
  obtains r rs registry g where "stored_record_of (gv_store v) h = Some r"
    and "trace_hops (stored_record_of (gv_store v)) (claimed_ancestors (params ''include_annotations'' \<noteq> Some ''false'') (params ''include_revisions'' \<noteq> Some ''false''))
      (walk_depth params) [h] [h] [r] = (rs, wk_truncated_by_depth w, wk_truncated_by_count w)"
    and "buildGraph sha canon ed_verify nowMs rs [] (graph_options (gv_store v) registry False True False) = Inr (Some g)"
    and "wk_graph w = g" "wk_record_count w = length rs" "wk_depth_requested w = walk_depth params"
  using assms that
  by (auto simp: handleTrace_def with_graph_def internal_error_def no_record_def Let_def split: option.splits prod.splits sum.splits)

text \<open>The hashes of the ancestors that records of a store claim, at most \<open>k\<close> steps from a record.\<close>

definition claimed_within :: "record_store \<Rightarrow> query_params \<Rightarrow> nat \<Rightarrow> string \<Rightarrow> string set" where
  "claimed_within s params k h = {h'. \<exists>j \<le> k. (h, h') \<in> claims (stored_record_of s)
     (claimed_ancestors (params ''include_annotations'' \<noteq> Some ''false'') (params ''include_revisions'' \<noteq> Some ''false'')) ^^ j}"

lemma claimed_within_reach:
  "claimed_within s params k h = reach (claims (stored_record_of s)
     (claimed_ancestors (params ''include_annotations'' \<noteq> Some ''false'') (params ''include_revisions'' \<noteq> Some ''false''))) k {h}"
  by (auto simp: claimed_within_def reach_relpow)

text \<open>C17: traces. The records of a trace are distinct, at most 500, and all of them ancestors of its start within the
  depth. Unless it is marked as cut by their number they are all of these, and it is marked as cut by depth
  exactly when some ancestor is at the full depth and not nearer, whether or not anything lies beyond.\<close>

theorem trace_spec:
  assumes "run_store sha canon es createRecordStore = Inr (gv_store v)"
    and "handleTrace sha canon ed_verify nowMs h params v = (Json (TraceBody w), v')"
  shows "graph_closed (wk_graph w) \<and> wk_record_count w \<le> TRACE_MAX_NODES
    \<and> graph_hashes (wk_graph w)
        \<subseteq> claimed_within (gv_store v) params (wk_depth_requested w) h
    \<and> (\<not> wk_truncated_by_count w \<longrightarrow>
        graph_hashes (wk_graph w)
          = claimed_within (gv_store v) params (wk_depth_requested w) h
        \<and> (wk_truncated_by_depth w \<longleftrightarrow> claimed_within (gv_store v) params (wk_depth_requested w) h
             \<noteq> claimed_within (gv_store v) params (wk_depth_requested w - 1) h))"
proof -
  let ?s = "gv_store v" and ?refs = "claimed_ancestors (params ''include_annotations'' \<noteq> Some ''false'') (params ''include_revisions'' \<noteq> Some ''false'')"
  obtain r rs registry g where r: "stored_record_of ?s h = Some r"
    and walk: "trace_hops (stored_record_of ?s) ?refs (walk_depth params) [h] [h] [r] = (rs, wk_truncated_by_depth w, wk_truncated_by_count w)"
    and built: "buildGraph sha canon ed_verify nowMs rs [] (graph_options ?s registry False True False) = Inr (Some g)"
    and w: "wk_graph w = g" "wk_record_count w = length rs" "wk_depth_requested w = walk_depth params"
    by (rule trace_cases [OF assms(2)])
  have idx: "indexed ?s (distinct_records sha canon es)" using store_of_built [OF assms(1)] by (simp add: store_of_def)
  have start: "records_at (stored_record_of ?s) [h] = [r]" "set (found (stored_record_of ?s) [h]) = {h}" by (simp_all add: r)
  have "traced (stored_record_of ?s) ?refs [h] [h]" by (simp add: traced_def r TRACE_MAX_NODES_def)
  from trace_hops_spec [OF walk [folded start(1)] this, unfolded start(2)] obtain W
    where W: "rs = records_at (stored_record_of ?s) W" "distinct W" "length rs \<le> TRACE_MAX_NODES"
      "set (found (stored_record_of ?s) W) \<subseteq> claimed_within ?s params (walk_depth params) h"
      "\<not> wk_truncated_by_count w \<longrightarrow> set (found (stored_record_of ?s) W) = claimed_within ?s params (walk_depth params) h
        \<and> (wk_truncated_by_depth w \<longleftrightarrow> 0 < walk_depth params
            \<and> claimed_within ?s params (walk_depth params) h \<noteq> claimed_within ?s params (walk_depth params - 1) h)"
    unfolding claimed_within_reach by blast
  obtain xs where xs: "rs = map sr_record xs" "map sr_recordHash xs = found (stored_record_of ?s) W" "set xs \<subseteq> set (distinct_records sha canon es)"
    using picked_records [OF idx W(2)] W(1) by auto
  have stored: "\<forall>x \<in> set xs. stored_of sha canon (sr_record x) = Inr x" using xs(3) stored_of_distinct by blast
  have dist: "distinct (map sr_recordHash xs)" using xs(2) W(2) by (simp add: found_def)
  have "graph_hashes g = set (found (stored_record_of ?s) W)"
    unfolding graph_records [OF stored dist built [unfolded xs(1)]] xs(2) [symmetric] by simp
  moreover have "graph_closed g" using stored_graph_ok [OF stored dist built [unfolded xs(1)]] by blast
  moreover have "0 < walk_depth params" by (simp add: walk_depth_def)
  ultimately show ?thesis using W(3-5) w by simp
qed

section \<open>The graph of a chain\<close>

text \<open>The record that another names as its parent, when the walk goes on from there.\<close>

definition parent_hash :: "(bytes \<Rightarrow> bytes) \<Rightarrow> js_object \<Rightarrow> string option" where
  "parent_hash sha r =
     (if at_genesis sha r \<or> \<not> starts_with sha256_prefix (member_string r ''chain_root'') then None
      else Some (drop 7 (member_string r ''chain_root'')))"

lemma chain_hops_spec:
  assumes "chain_hops sha f k r visited collected = (rs, byDepth)" and "f h = Some r" "h \<in> set visited" and "distinct visited"
  shows "\<exists>hs. rs = collected @ map (\<lambda>h. the (f h)) hs \<and> length hs \<le> k \<and> distinct (visited @ hs)
    \<and> (\<forall>i < length hs. parent_hash sha (the (f ((h # hs) ! i))) = Some (hs ! i) \<and> f (hs ! i) \<noteq> None)
    \<and> (length hs < k \<longrightarrow> (case parent_hash sha (the (f (last (h # hs)))) of None \<Rightarrow> True
         | Some p \<Rightarrow> p \<in> set (visited @ hs) \<or> f p = None))"
  using assms
proof (induction k arbitrary: r h visited collected byDepth)
  case 0
  then show ?case by (intro exI [of _ "[]"]) simp
next
  case (Suc k)
  show ?case
  proof (cases "\<exists>p a. parent_hash sha r = Some p \<and> p \<notin> set visited \<and> f p = Some a")
    case False
    then have "rs = collected" using Suc.prems(1) by (auto simp: parent_hash_def Let_def split: if_splits option.splits)
    with False Suc.prems(2, 4) show ?thesis by (intro exI [of _ "[]"]) (auto split: option.splits)
  next
    case True
    then obtain p a where p: "parent_hash sha r = Some p" "p \<notin> set visited" "f p = Some a" by blast
    then obtain b where b: "chain_hops sha f k a (visited @ [p]) (collected @ [a]) = (rs, b)"
      using Suc.prems(1) by (auto simp: parent_hash_def Let_def split: if_splits prod.splits)
    have "p \<in> set (visited @ [p])" "distinct (visited @ [p])" using p(2) Suc.prems(4) by simp_all
    from Suc.IH [OF b p(3) this] obtain hs where hs: "rs = (collected @ [a]) @ map (\<lambda>h. the (f h)) hs" "length hs \<le> k"
      "distinct ((visited @ [p]) @ hs)" "\<forall>i < length hs. parent_hash sha (the (f ((p # hs) ! i))) = Some (hs ! i) \<and> f (hs ! i) \<noteq> None"
      "length hs < k \<longrightarrow> (case parent_hash sha (the (f (last (p # hs)))) of None \<Rightarrow> True
         | Some q \<Rightarrow> q \<in> set ((visited @ [p]) @ hs) \<or> f q = None)" by blast
    have "\<forall>i < length (p # hs). parent_hash sha (the (f ((h # p # hs) ! i))) = Some ((p # hs) ! i) \<and> f ((p # hs) ! i) \<noteq> None"
    proof (intro allI impI)
      fix i assume "i < length (p # hs)"
      then show "parent_hash sha (the (f ((h # p # hs) ! i))) = Some ((p # hs) ! i) \<and> f ((p # hs) ! i) \<noteq> None"
        using hs(4) p(1, 3) Suc.prems(2) by (cases i) auto
    qed
    with hs p(3) show ?thesis by (intro exI [of _ "p # hs"]) (auto split: option.splits)
  qed
qed

lemma chain_cases:
  assumes "handleChain sha canon ed_verify nowMs h params v = (Json (ChainBody w), v')"
  obtains r rs registry g where "stored_record_of (gv_store v) h = Some r"
    and "chain_hops sha (stored_record_of (gv_store v)) (walk_depth params) r [h] [r] = (rs, wk_truncated_by_depth w)"
    and "buildGraph sha canon ed_verify nowMs rs [] (graph_options (gv_store v) registry False False False) = Inr (Some g)"
    and "wk_graph w = g" "wk_record_count w = length rs" "wk_depth_requested w = walk_depth params"
  using assms that
  by (auto simp: handleChain_def with_graph_def internal_error_def no_record_def Let_def split: option.splits prod.splits sum.splits)

lemma parent_chains:
  assumes "parent_hash sha (sr_record c) = Some (sr_recordHash p)"
  shows "chains_to sha (info_of_stored p) (info_of_stored c)"
proof -
  have "starts_with sha256_prefix (member_string (sr_record c) ''chain_root'')"
    and d: "drop 7 (member_string (sr_record c) ''chain_root'') = sr_recordHash p" and "\<not> at_genesis sha (sr_record c)"
    using assms by (auto simp: parent_hash_def split: if_splits)
  moreover from this(1) have "take 7 (member_string (sr_record c) ''chain_root'') = sha256_prefix"
    by (simp add: starts_with_def sha256_prefix_def eval_nat_numeral)
  then have "member_string (sr_record c) ''chain_root'' = sha256_prefix @ sr_recordHash p"
    using append_take_drop_id [of 7 "member_string (sr_record c) ''chain_root''"] d by simp
  ultimately show ?thesis by (intro chains_to_parent) (simp_all add: info_of_stored_def at_genesis_def)
qed

lemma walk_edge:
  assumes stored: "\<forall>x \<in> set xs. stored_of sha canon (sr_record x) = Inr x" and dist: "distinct (map sr_recordHash xs)"
    and built: "buildGraph sha canon ed_verify nowMs (map sr_record xs) [] opts = Inr (Some g)"
    and "p \<in> set xs" "c \<in> set xs" "sr_recordHash p = i" "sr_recordHash c = j" "parent_hash sha (sr_record c) = Some i"
  shows "hop g (sha256_prefix @ i) CHAIN_PRECEDES (sha256_prefix @ j)"
proof -
  have "info_of_stored p \<in> set (graph_infos sha canon (map sr_record xs))" "info_of_stored c \<in> set (graph_infos sha canon (map sr_record xs))"
    using assms(4, 5) by (simp_all add: stored_infos [OF stored])
  moreover have "chains_to sha (info_of_stored p) (info_of_stored c)" using assms(6, 8) by (intro parent_chains) simp
  moreover have "in_nodeId (info_of_stored p) = sha256_prefix @ i" "in_nodeId (info_of_stored c) = sha256_prefix @ j"
    using assms(6, 7) by (simp_all add: info_of_stored_def)
  ultimately have "(sha256_prefix @ i, sha256_prefix @ j) \<in> set (chain_pairs (hash_ids (graph_infos sha canon (map sr_record xs)))
      (graph_base sha canon ed_verify nowMs (map sr_record xs) [] opts))"
    unfolding built_chain_pairs by blast
  then show ?thesis using built_chain_hop [OF built stored_base_ids [OF stored dist]] by blast
qed

text \<open>C19: chains. The response to a chain request holds a path of the chain: distinct stored records from the one
  asked for, at most the depth and one, in the graph each joined to the next by the edge from its parent. When
  the path is shorter, it could not go on: its last record is a genesis record, names no hash, names
  a record that is not in the store, or names one of the path.\<close>

theorem chain_spec:
  assumes "run_store sha canon es createRecordStore = Inr (gv_store v)"
    and "handleChain sha canon ed_verify nowMs h params v = (Json (ChainBody w), v')"
  shows "\<exists>hs. wk_record_count w = length (h # hs) \<and> length hs \<le> wk_depth_requested w \<and> distinct (h # hs)
    \<and> graph_hashes (wk_graph w) = set (h # hs)
    \<and> (\<forall>i < length hs. hop (wk_graph w) (sha256_prefix @ hs ! i) CHAIN_PRECEDES (sha256_prefix @ (h # hs) ! i))
    \<and> (length hs < wk_depth_requested w \<longrightarrow> (case parent_hash sha (the (stored_record_of (gv_store v) (last (h # hs)))) of None \<Rightarrow> True
         | Some p \<Rightarrow> p \<in> set (h # hs) \<or> stored_record_of (gv_store v) p = None))"
proof -
  let ?s = "gv_store v" and ?f = "stored_record_of (gv_store v)"
  obtain r rs registry g where r: "?f h = Some r" and walk: "chain_hops sha ?f (walk_depth params) r [h] [r] = (rs, wk_truncated_by_depth w)"
    and built: "buildGraph sha canon ed_verify nowMs rs [] (graph_options ?s registry False False False) = Inr (Some g)"
    and w: "wk_graph w = g" "wk_record_count w = length rs" "wk_depth_requested w = walk_depth params"
    by (rule chain_cases [OF assms(2)])
  have idx: "indexed ?s (distinct_records sha canon es)" using store_of_built [OF assms(1)] by (simp add: store_of_def)
  obtain hs where hs: "rs = [r] @ map (\<lambda>h. the (?f h)) hs" "length hs \<le> walk_depth params" "distinct ([h] @ hs)"
    and path: "\<forall>i < length hs. parent_hash sha (the (?f ((h # hs) ! i))) = Some (hs ! i) \<and> ?f (hs ! i) \<noteq> None"
    and stop: "length hs < walk_depth params \<longrightarrow> (case parent_hash sha (the (?f (last (h # hs)))) of None \<Rightarrow> True
         | Some p \<Rightarrow> p \<in> set ([h] @ hs) \<or> ?f p = None)"
    using chain_hops_spec [OF walk r] by auto
  have dist: "distinct (h # hs)" using hs(3) by simp
  have all: "\<forall>k \<in> set (h # hs). ?f k \<noteq> None" using path r by (auto simp: in_set_conv_nth)
  then have found: "found ?f (h # hs) = h # hs" using all by (simp only: found_def filter_id_conv)
  then have "records_at ?f (h # hs) = rs" using r hs(1) by (simp add: records_at_def)
  then obtain xs where xs: "rs = map sr_record xs" "map sr_recordHash xs = h # hs" "set xs \<subseteq> set (distinct_records sha canon es)"
    using picked_records [OF idx dist] found by metis
  have stored: "\<forall>x \<in> set xs. stored_of sha canon (sr_record x) = Inr x" using xs(3) stored_of_distinct by blast
  have dist_xs: "distinct (map sr_recordHash xs)" using xs(2) dist by simp
  have "hop g (sha256_prefix @ hs ! i) CHAIN_PRECEDES (sha256_prefix @ (h # hs) ! i)" if i: "i < length hs" for i
  proof (rule walk_edge [OF stored dist_xs built [unfolded xs(1)]])
    have len: "length xs = Suc (length hs)" using arg_cong [OF xs(2), of length] by simp
    have nth: "sr_recordHash (xs ! k) = (h # hs) ! k" if "k \<le> length hs" for k
      using that len xs(2) by (metis le_imp_less_Suc nth_map)
    show "xs ! Suc i \<in> set xs" "xs ! i \<in> set xs" using i len by simp_all
    show "sr_recordHash (xs ! Suc i) = hs ! i" "sr_recordHash (xs ! i) = (h # hs) ! i" using nth [of "Suc i"] nth [of i] i by simp_all
    have "(h # hs) ! i \<in> set (h # hs)" using i by (intro nth_mem) simp
    then have "the (?f ((h # hs) ! i)) = sr_record (xs ! i)"
      using arg_cong [OF xs(1), of "\<lambda>l. l ! i"] hs(1) r i len by (cases i) (auto simp: nth_append)
    then show "parent_hash sha (sr_record (xs ! i)) = Some (hs ! i)" using path i by metis
  qed
  moreover have "graph_hashes g = set (h # hs)"
    unfolding graph_records [OF stored dist_xs built [unfolded xs(1)]] xs(2) [symmetric] by simp
  ultimately show ?thesis
    using w hs(1, 2) stop [unfolded append_Cons append_Nil] dist by (intro exI [of _ hs] conjI allI impI) (simp_all del: last.simps)
qed

end
