(* ===== verification/Graph_Queries.thy ===== *)
theory Graph_Queries
  imports Graph_Walks
begin

text \<open>
  The filtering handlers of \<open>services/graph-node/src/server.ts\<close>: the nodes of a context, its transaction, and
  the sessions and the activity map of a creator. A graph is built in one step here, from the store of that time.
\<close>

section \<open>Filters\<close>

definition graph_label_name :: "graph_label \<Rightarrow> string" where
  "graph_label_name l =
     (case l of Tool_call \<Rightarrow> ''tool_call'' | Transaction \<Rightarrow> ''transaction'' | Observation \<Rightarrow> ''observation''
      | Directory_anchor \<Rightarrow> ''directory_anchor'' | Annotation \<Rightarrow> ''annotation'' | Revision \<Rightarrow> ''revision''
      | Gap_node \<Rightarrow> ''gap_node'' | Dangling_node \<Rightarrow> ''dangling_node'' | Extension \<Rightarrow> ''extension'')"

definition verification_state_name :: "verification_state \<Rightarrow> string" where
  "verification_state_name st =
     (case st of Unsigned \<Rightarrow> ''unsigned'' | Signature_valid \<Rightarrow> ''signature_valid'' | Log_committed \<Rightarrow> ''log_committed''
      | Witnessed_state \<Rightarrow> ''witnessed'' | Revoked_after_revocation \<Rightarrow> ''revoked_after_revocation'')"

text \<open>\<open>normalizeEventTypeFilter\<close> of this service.\<close>

definition event_type_label :: "string \<Rightarrow> string" where
  "event_type_label filter_value =
     (if starts_with types_prefix filter_value then graph_label_name (graphLabelFromEventTypeUri filter_value) else filter_value)"

text \<open>A parameter that is absent or empty does not filter.\<close>

definition filter_param :: "string option \<Rightarrow> (string \<Rightarrow> 'a \<Rightarrow> bool) \<Rightarrow> 'a list \<Rightarrow> 'a list" where
  "filter_param p keep xs = (case p of None \<Rightarrow> xs | Some f \<Rightarrow> if f = [] then xs else filter (keep f) xs)"

section \<open>Nodes and the transaction of a context\<close>

definition filter_nodes :: "query_params \<Rightarrow> GraphNode list \<Rightarrow> GraphNode list" where
  "filter_nodes params nodes =
     filter_param (params ''verification_state'') (\<lambda>f n. verification_state_name (gn_verification_state n) = f)
       (filter_param (params ''creator_key'') (\<lambda>f n. gn_creator_key n = Some f)
         (filter_param (params ''event_type'')
           (\<lambda>f n. graph_label_name (gn_event_type n) = event_type_label f \<or> gn_event_type_uri n = Some f) nodes))"

definition handleNodes ::
  "(bytes \<Rightarrow> bytes) \<Rightarrow> (json \<Rightarrow> string option) \<Rightarrow> (bytes \<Rightarrow> bytes \<Rightarrow> bytes \<Rightarrow> bool) \<Rightarrow> int
   \<Rightarrow> string \<Rightarrow> query_params \<Rightarrow> graph_service \<Rightarrow> reply \<times> graph_service" where
  "handleNodes sha canon ed_verify nowMs contextId params v =
     (let s = gv_store v
      in if \<not> hasContext s contextId
         then (no_session (''No attribution records found for context_id '' @ contextId) (''/v1/graph/'' @ contextId @ ''/nodes''), v)
         else let (registry, v') = buildRegistryCached v
           in (with_graph (buildGraph sha canon ed_verify nowMs (getRecordsByContextId s contextId)
                 (getGapNodesByContextId s contextId) (graph_options s registry True True False))
               (\<lambda>g. Json (NodesBody (filter_nodes params (gr_nodes g)))), v'))"

definition handleTransaction ::
  "(bytes \<Rightarrow> bytes) \<Rightarrow> (json \<Rightarrow> string option) \<Rightarrow> (bytes \<Rightarrow> bytes \<Rightarrow> bytes \<Rightarrow> bool) \<Rightarrow> int
   \<Rightarrow> string \<Rightarrow> graph_service \<Rightarrow> reply \<times> graph_service" where
  "handleTransaction sha canon ed_verify nowMs contextId v =
     (let s = gv_store v; path = ''/v1/graph/'' @ contextId @ ''/transaction''
      in if \<not> hasContext s contextId then (no_session (''No records for context_id '' @ contextId) path, v)
         else let (registry, v') = buildRegistryCached v
           in (with_graph (buildGraph sha canon ed_verify nowMs (getRecordsByContextId s contextId) []
                 (graph_options s registry True True False))
               (\<lambda>g. case find is_transaction_node (gr_nodes g) of
                      None \<Rightarrow> no_session ''Session exists but no transaction record present'' path
                    | Some txNode \<Rightarrow> Json (NodeBody txNode)), v'))"

section \<open>Time windows\<close>

text \<open>\<open>time_of\<close> is \<open>parseTimestampParam\<close>, that is \<open>Number\<close> and then \<open>Date.parse\<close>, without the results that are
  not finite.\<close>

definition bad_time :: "string \<Rightarrow> string" where
  "bad_time name = CHR 0x60 # name @ CHR 0x60 # '' must be a unix timestamp in milliseconds or an ISO 8601 datetime''"

definition parseTimeWindow :: "(string \<Rightarrow> rat option) \<Rightarrow> query_params \<Rightarrow> time_window result" where
  "parseTimeWindow time_of params =
     (let since = Option.bind (params ''since'') time_of; until = Option.bind (params ''until'') time_of
      in if params ''since'' \<noteq> None \<and> since = None then Inl (bad_time ''since'')
         else if params ''until'' \<noteq> None \<and> until = None then Inl (bad_time ''until'')
         else if (case (since, until) of (Some a, Some b) \<Rightarrow> b < a | _ \<Rightarrow> False)
         then Inl (CHR 0x60 # ''since'' @ CHR 0x60 # '' must be less than or equal to '' @ CHR 0x60 # ''until'' @ [CHR 0x60])
         else Inr \<lparr>tw_since = since, tw_until = until\<rparr>)"

definition not_before :: "time_window \<Rightarrow> rat \<Rightarrow> bool" where
  "not_before w t \<longleftrightarrow> (case tw_since w of None \<Rightarrow> True | Some a \<Rightarrow> a \<le> t)"

definition not_after :: "time_window \<Rightarrow> rat \<Rightarrow> bool" where
  "not_after w t \<longleftrightarrow> (case tw_until w of None \<Rightarrow> True | Some b \<Rightarrow> t \<le> b)"

text \<open>\<open>parseInt(params.get(name) ?? String(d), 10)\<close>, with \<open>d\<close> for \<open>NaN\<close>.\<close>

definition int_param :: "query_params \<Rightarrow> string \<Rightarrow> int \<Rightarrow> int" where
  "int_param params name d =
     (case params name of None \<Rightarrow> d | Some raw \<Rightarrow> (case parse_int raw of None \<Rightarrow> d | Some n \<Rightarrow> n))"

text \<open>\<open>xs.slice(0, n)\<close>: a negative end counts from the back.\<close>

definition slice_to :: "int \<Rightarrow> 'a list \<Rightarrow> 'a list" where
  "slice_to n xs = (if n < 0 then take (length xs - nat (- n)) xs else take (nat n) xs)"

section \<open>Creators\<close>

definition handleCreatorSessions ::
  "(bytes \<Rightarrow> bytes) \<Rightarrow> (string \<Rightarrow> rat option) \<Rightarrow> string \<Rightarrow> query_params \<Rightarrow> graph_service \<Rightarrow> reply" where
  "handleCreatorSessions sha time_of creatorKey params v =
     (case parseTimeWindow time_of params of
        Inl err \<Rightarrow> Problem 400 ''invalid-time-window'' err (''/v1/creators/'' @ creatorKey @ ''/sessions'')
      | Inr window \<Rightarrow>
          let sessions = getSessionsByCreatorKey sha (gv_store v) creatorKey;
              limit = min (int_param params ''limit'' 50) 200;
              a = (if params ''has_transaction'' = Some ''true'' then filter gs_has_transaction sessions else sessions);
              b = (if params ''has_transaction'' = Some ''false'' then filter (\<lambda>m. \<not> gs_has_transaction m) a else a);
              filtered = filter (\<lambda>m. not_after window (gs_first_seen m)) (filter (\<lambda>m. not_before window (gs_last_seen m)) b);
              paginated = slice_to limit filtered
          in Json (SessionsBody paginated (length paginated < length filtered)))"

definition ACTIVITY_MAP_DEFAULT_LIMIT :: int where
  "ACTIVITY_MAP_DEFAULT_LIMIT = 500"

definition ACTIVITY_MAP_MAX_LIMIT :: int where
  "ACTIVITY_MAP_MAX_LIMIT = 2000"

definition activity_limit :: "query_params \<Rightarrow> int" where
  "activity_limit params = max 1 (min (int_param params ''limit'' ACTIVITY_MAP_DEFAULT_LIMIT) ACTIVITY_MAP_MAX_LIMIT)"

definition window_records :: "record_store \<Rightarrow> string \<Rightarrow> time_window \<Rightarrow> GraphSessionSummary list \<Rightarrow> js_object list" where
  "window_records s creatorKey window sessions =
     concat (map (\<lambda>m. filter (\<lambda>r. member_string r ''creator_key'' = creatorKey \<and> not_before window (timestamp_of r)
          \<and> not_after window (timestamp_of r)) (getRecordsByContextId s (gs_context_id m))) sessions)"

definition time_order :: "bool \<Rightarrow> js_object \<Rightarrow> js_object \<Rightarrow> int" where
  "time_order oldest a b =
     (let x = timestamp_of a; y = timestamp_of b
      in if x = y then 0 else if (x < y) = oldest then - 1 else 1)"

definition record_type_matches :: "string \<Rightarrow> js_object \<Rightarrow> bool" where
  "record_type_matches f r \<longleftrightarrow>
     (let event_type = member_string r ''event_type'';
          recordLabel = (if starts_with types_prefix event_type then graph_label_name (graphLabelFromEventTypeUri event_type) else event_type)
      in recordLabel = event_type_label f \<or> event_type = f)"

definition effective_window :: "js_object list \<Rightarrow> time_window" where
  "effective_window rs =
     fold (\<lambda>r w. let t = timestamp_of r
        in \<lparr>tw_since = (case tw_since w of None \<Rightarrow> Some t | Some a \<Rightarrow> Some (if t < a then t else a)),
            tw_until = (case tw_until w of None \<Rightarrow> Some t | Some b \<Rightarrow> Some (if b < t then t else b))\<rparr>)
       rs \<lparr>tw_since = None, tw_until = None\<rparr>"

definition drop_session_edges :: "GraphResponse \<Rightarrow> GraphResponse" where
  "drop_session_edges g =
     (let kept = filter (\<lambda>e. ge_type e \<noteq> SESSION_PRECEDES \<and> ge_type e \<noteq> SESSION_PARALLEL) (gr_edges g)
      in g\<lparr>gr_edges := kept, gr_edge_count := length kept\<rparr>)"

definition handleCreatorGraph ::
  "(bytes \<Rightarrow> bytes) \<Rightarrow> (json \<Rightarrow> string option) \<Rightarrow> (bytes \<Rightarrow> bytes \<Rightarrow> bytes \<Rightarrow> bool) \<Rightarrow> (string \<Rightarrow> rat option) \<Rightarrow> int
   \<Rightarrow> string \<Rightarrow> query_params \<Rightarrow> graph_service \<Rightarrow> reply \<times> graph_service" where
  "handleCreatorGraph sha canon ed_verify time_of nowMs creatorKey params v =
     (let path = ''/v1/creators/'' @ creatorKey @ ''/graph''; s = gv_store v
      in case parseTimeWindow time_of params of
           Inl err \<Rightarrow> (Problem 400 ''invalid-time-window'' err path, v)
         | Inr window \<Rightarrow>
             let limit = activity_limit params; sessions = getSessionsByCreatorKey sha s creatorKey
             in if sessions = [] then (Problem 404 ''creator-not-found'' (''No records found for creator_key '' @ creatorKey) path, v)
                else let allRecords = window_records s creatorKey window sessions;
                         oldest = (params ''direction'' = Some ''oldest'');
                         windowedRecords = slice_to limit (sort_by (time_order oldest) allRecords);
                         filteredRecords = filter_param (params ''event_type'') record_type_matches windowedRecords;
                         includeIntraSession = (params ''include_intra_session'' = Some ''true'');
                         (registry, v') = buildRegistryCached v
                  in (with_graph (buildGraph sha canon ed_verify nowMs filteredRecords []
                        (graph_options s registry False True (\<not> includeIntraSession)))
                      (\<lambda>g. Json (ActivityBody
                        \<lparr>am_creator_key = creatorKey, am_window = window, am_limit = limit, am_oldest = oldest,
                         am_record_count = length filteredRecords, am_total_in_window = length allRecords,
                         am_truncated = (limit < int (length allRecords)), am_effective_window = effective_window filteredRecords,
                         am_intra_session_edges_filtered = (\<not> includeIntraSession),
                         am_graph = (if includeIntraSession then g\<lparr>gr_edge_count := length (gr_edges g)\<rparr> else drop_session_edges g)\<rparr>)), v'))"

section \<open>What an activity map shows\<close>

text \<open>The records of a creator within a window, by their hashes.\<close>

definition in_window :: "string \<Rightarrow> time_window \<Rightarrow> js_object \<Rightarrow> bool" where
  "in_window k window r \<longleftrightarrow> member_string r ''creator_key'' = k \<and> not_before window (timestamp_of r) \<and> not_after window (timestamp_of r)"

definition creator_hashes :: "record_store \<Rightarrow> string \<Rightarrow> time_window \<Rightarrow> string set" where
  "creator_hashes s k window = {h. \<exists>r. stored_record_of s h = Some r \<and> in_window k window r}"

definition stored_time :: "record_store \<Rightarrow> string \<Rightarrow> rat" where
  "stored_time s h = (case stored_record_of s h of None \<Rightarrow> 0 | Some r \<Rightarrow> timestamp_of r)"

lemma stored_record_mem:
  assumes "indexed s xs" and "distinct (map sr_recordHash xs)" and "x \<in> set xs"
  shows "stored_record_of s (sr_recordHash x) = Some (sr_record x)"
  using find_key [OF assms(2, 3)] by (simp add: stored_record_find [OF assms(1)])

lemma creator_hashes_image:
  assumes "indexed s xs" and "distinct (map sr_recordHash xs)"
  shows "creator_hashes s k window = sr_recordHash ` {x \<in> set xs. in_window k window (sr_record x)}"
proof (intro equalityI subsetI)
  fix h assume "h \<in> creator_hashes s k window"
  then obtain x where "find (\<lambda>x. sr_recordHash x = h) xs = Some x" "in_window k window (sr_record x)"
    by (auto simp: creator_hashes_def stored_record_find [OF assms(1)])
  then show "h \<in> sr_recordHash ` {x \<in> set xs. in_window k window (sr_record x)}" by (auto simp: find_Some_iff)
next
  fix h assume "h \<in> sr_recordHash ` {x \<in> set xs. in_window k window (sr_record x)}"
  then obtain x where x: "x \<in> set xs" "h = sr_recordHash x" "in_window k window (sr_record x)" by blast
  with stored_record_mem [OF assms x(1)] show "h \<in> creator_hashes s k window" by (simp add: creator_hashes_def)
qed

text \<open>Collecting the sessions of a creator collects its records once each.\<close>

lemma distinct_by_class:
  assumes "distinct (map f xs)" and "distinct cs"
  shows "distinct (map f (concat (map (\<lambda>c. filter (\<lambda>x. P x \<and> g x = c) xs) cs)))"
  using assms(2)
proof (induction cs)
  case (Cons c cs)
  have "inj_on f (set xs)" using assms(1) by (simp add: distinct_map)
  then have "f ` {x \<in> set xs. P x \<and> g x = c} \<inter> f ` {x \<in> set xs. P x \<and> g x \<in> set cs} = {}"
    using Cons.prems by (fastforce dest: inj_onD)
  moreover have "set (map f (concat (map (\<lambda>c. filter (\<lambda>x. P x \<and> g x = c) xs) cs))) = f ` {x \<in> set xs. P x \<and> g x \<in> set cs}" by auto
  moreover have "set (map f (filter (\<lambda>x. P x \<and> g x = c) xs)) = f ` {x \<in> set xs. P x \<and> g x = c}" by auto
  ultimately show ?case using Cons distinct_map_filter [OF assms(1)] by simp
qed simp

lemma window_records_eq:
  assumes "run_store sha canon es createRecordStore = Inr s"
  shows "\<exists>xs. window_records s k window (getSessionsByCreatorKey sha s k) = map sr_record xs \<and> distinct (map sr_recordHash xs)
    \<and> set xs = {x \<in> set (distinct_records sha canon es). in_window k window (sr_record x)}"
proof -
  let ?ds = "distinct_records sha canon es" and ?cs = "map gs_context_id (getSessionsByCreatorKey sha s k)"
  define xs where "xs = concat (map (\<lambda>c. filter (\<lambda>x. in_window k window (sr_record x) \<and> context_of x = c) ?ds) ?cs)"
  have idx: "indexed s ?ds" using store_of_built [OF assms] by (simp add: store_of_def)
  have "filter (in_window k window) (getRecordsByContextId s c)
      = map sr_record (filter (\<lambda>x. in_window k window (sr_record x) \<and> context_of x = c) ?ds)" for c
    using idx by (simp add: indexed_def getRecordsByContextId_def filter_map comp_def conj_commute)
  then have "window_records s k window (getSessionsByCreatorKey sha s k) = map sr_record xs"
    by (simp add: window_records_def in_window_def [abs_def] xs_def map_concat comp_def)
  moreover have "distinct (map sr_recordHash xs)"
    unfolding xs_def by (intro distinct_by_class creator_sessions_facts [OF assms, THEN conjunct2, THEN conjunct1]) (simp add: distinct_records_def distinct_first_by)
  moreover have "x \<in> set xs \<longleftrightarrow> x \<in> set ?ds \<and> in_window k window (sr_record x)" for x
    using creator_sessions_facts [OF assms, of k, THEN conjunct1] by (auto simp: xs_def in_window_def creator_key_of_def)
  ultimately show ?thesis by blast
qed

lemma activity_cases:
  assumes "handleCreatorGraph sha canon ed_verify time_of nowMs k params v = (Json (ActivityBody a), v')"
  obtains window registry g opts where "parseTimeWindow time_of params = Inr window"
    and "buildGraph sha canon ed_verify nowMs (filter_param (params ''event_type'') record_type_matches
          (slice_to (am_limit a) (sort_by (time_order (am_oldest a)) (window_records (gv_store v) k window (getSessionsByCreatorKey sha (gv_store v) k))))) [] opts = Inr (Some g)"
    and "am_window a = window" "am_limit a = activity_limit params" "gr_nodes (am_graph a) = gr_nodes g"
    and "am_record_count a = length (filter_param (params ''event_type'') record_type_matches
          (slice_to (am_limit a) (sort_by (time_order (am_oldest a)) (window_records (gv_store v) k window (getSessionsByCreatorKey sha (gv_store v) k)))))"
    and "am_total_in_window a = length (window_records (gv_store v) k window (getSessionsByCreatorKey sha (gv_store v) k))"
    and "am_truncated a \<longleftrightarrow> am_limit a < int (am_total_in_window a)"
  using assms that
  by (auto simp: handleCreatorGraph_def with_graph_def internal_error_def drop_session_edges_def Let_def
    split: option.splits prod.splits sum.splits if_splits)

lemma filter_param_subset: "set (filter_param p keep xs) \<subseteq> set xs" "length (filter_param p keep xs) \<le> length xs"
  by (auto simp: filter_param_def split: option.splits)

lemma distinct_filter_param: "distinct xs \<Longrightarrow> distinct (filter_param p keep xs)"
  by (auto simp: filter_param_def split: option.splits)

lemma time_sorted:
  "sorted_wrt (\<lambda>a b. if oldest then timestamp_of a \<le> timestamp_of b else timestamp_of b \<le> timestamp_of a) (sort_by (time_order oldest) rs)"
  by (rule sorted_sort_by) (auto simp: time_order_def Let_def split: if_splits)

lemma activity_limit_bounds: "1 \<le> activity_limit params" "activity_limit params \<le> 2000"
  by (simp_all add: activity_limit_def ACTIVITY_MAP_MAX_LIMIT_def)

lemma slice_positive: "1 \<le> n \<Longrightarrow> slice_to n xs = take (nat n) xs"
  by (simp add: slice_to_def)

text \<open>A list of stored records comes from records of the store.\<close>

lemma stored_list:
  assumes "distinct rs" and "set rs \<subseteq> sr_record ` A" and "inj_on sr_recordHash A"
  shows "\<exists>ys. rs = map sr_record ys \<and> set ys \<subseteq> A \<and> distinct (map sr_recordHash ys)"
proof -
  obtain ys where ys: "rs = map sr_record ys" "set ys \<subseteq> A"
  proof -
    have "\<exists>ys. rs = map sr_record ys \<and> set ys \<subseteq> A" using assms(2)
    proof (induction rs)
      case (Cons r rs)
      then obtain y ys where "r = sr_record y" "y \<in> A" "rs = map sr_record ys" "set ys \<subseteq> A" by auto
      then show ?case by (intro exI [of _ "y # ys"]) simp
    qed simp
    then show thesis using that by blast
  qed
  moreover have "distinct ys" using assms(1) ys(1) by (simp add: distinct_map)
  then have "distinct (map sr_recordHash ys)" using inj_on_subset [OF assms(3) ys(2)] by (simp add: distinct_map)
  ultimately show ?thesis by blast
qed

lemma stored_records_inj: "inj_on sr_record (set (distinct_records sha canon es))"
proof (rule inj_onI)
  fix x y assume mem: "x \<in> set (distinct_records sha canon es)" "y \<in> set (distinct_records sha canon es)" and eq: "sr_record x = sr_record y"
  have "Inr x = stored_of sha canon (sr_record x)" using stored_of_distinct [OF mem(1)] ..
  also have "\<dots> = Inr y" unfolding eq by (rule stored_of_distinct [OF mem(2)])
  finally show "x = y" by (rule Inr_inject)
qed

text \<open>The records that a map shows, before and after the filter on the type.\<close>

lemma shown_records:
  assumes inj: "inj_on sr_record (set xs)" and dist: "distinct (map sr_recordHash xs)"
  shows "\<exists>ys. filter_param p keep (take n (sort_by (time_order oldest) (map sr_record xs))) = map sr_record ys
    \<and> set ys \<subseteq> set xs \<and> distinct (map sr_recordHash ys) \<and> length ys \<le> n
    \<and> (p = None \<longrightarrow> length ys = min n (length xs)
        \<and> (\<forall>x \<in> set ys. \<forall>y \<in> set xs - set ys. if oldest then timestamp_of (sr_record x) \<le> timestamp_of (sr_record y)
             else timestamp_of (sr_record y) \<le> timestamp_of (sr_record x)))"
proof -
  let ?earlier = "\<lambda>a b. if oldest then timestamp_of a \<le> timestamp_of b else timestamp_of b \<le> timestamp_of a"
  define L where "L = sort_by (time_order oldest) (map sr_record xs)"
  define F where "F = filter_param p keep (take n L)"
  have L: "distinct L" "set L = sr_record ` set xs" "length L = length xs"
    using dist inj by (simp_all add: L_def distinct_map)
  have F: "set F \<subseteq> set (take n L)" "length F \<le> n" using filter_param_subset [of p keep "take n L"] by (simp_all add: F_def)
  have "set (take n L) \<subseteq> sr_record ` set xs" using set_take_subset [of n L] unfolding L(2) .
  moreover have "distinct F" unfolding F_def by (intro distinct_filter_param distinct_take L(1))
  moreover have "inj_on sr_recordHash (set xs)" using dist by (simp add: distinct_map)
  ultimately obtain ys where ys: "F = map sr_record ys" "set ys \<subseteq> set xs" "distinct (map sr_recordHash ys)"
    using stored_list [of F "set xs"] F(1) by (meson subset_trans)
  have "?earlier (sr_record x) (sr_record y)" if "p = None" "x \<in> set ys" "y \<in> set xs - set ys" for x y
  proof -
    have top: "take n L = map sr_record ys" using ys(1) that(1) by (simp add: F_def filter_param_def)
    have "sr_record y \<notin> set (take n L)" using that(3) ys(2) inj_onD [OF inj] unfolding top by auto
    moreover have "sr_record y \<in> set (take n L) \<union> set (drop n L)" using that(3) L(2) unfolding set_append [symmetric] by simp
    moreover have "sorted_wrt ?earlier (take n L @ drop n L)" unfolding append_take_drop_id L_def by (rule time_sorted)
    moreover have "sr_record x \<in> set (take n L)" using that(2) top by simp
    ultimately show ?thesis unfolding sorted_wrt_append by blast
  qed
  moreover have "length ys = min n (length xs)" if "p = None"
    using arg_cong [OF ys(1), of length] that L(3) by (simp add: F_def filter_param_def)
  moreover have "length ys \<le> n" using F(2) unfolding ys(1) length_map .
  ultimately show ?thesis using ys unfolding F_def L_def by blast
qed

lemma creator_records:
  assumes "run_store sha canon es createRecordStore = Inr s"
  obtains xs where "window_records s k window (getSessionsByCreatorKey sha s k) = map sr_record xs" and "distinct (map sr_recordHash xs)"
    and "inj_on sr_record (set xs)" and "creator_hashes s k window = sr_recordHash ` set xs"
    and "\<forall>x \<in> set xs. stored_of sha canon (sr_record x) = Inr x \<and> stored_time s (sr_recordHash x) = timestamp_of (sr_record x)"
proof -
  let ?ds = "distinct_records sha canon es"
  obtain xs where xs: "window_records s k window (getSessionsByCreatorKey sha s k) = map sr_record xs" "distinct (map sr_recordHash xs)"
    "set xs = {x \<in> set ?ds. in_window k window (sr_record x)}"
    using window_records_eq [OF assms(1)] by blast
  have ds: "indexed s ?ds" "distinct (map sr_recordHash ?ds)"
    using store_of_built [OF assms(1)] by (simp_all add: store_of_def distinct_records_def distinct_first_by)
  show thesis
  proof (rule that [OF xs(1, 2)])
    show "inj_on sr_record (set xs)" by (rule inj_on_subset [OF stored_records_inj [of sha canon es]]) (auto simp: xs(3))
    show "creator_hashes s k window = sr_recordHash ` set xs" unfolding xs(3) by (rule creator_hashes_image [OF ds])
    show "\<forall>x \<in> set xs. stored_of sha canon (sr_record x) = Inr x \<and> stored_time s (sr_recordHash x) = timestamp_of (sr_record x)"
      using stored_of_distinct [of _ sha canon es] stored_record_mem [OF ds] by (simp add: xs(3) stored_time_def)
  qed
qed

text \<open>C18: activity maps. The activity map of a creator counts the creator's records within the window and shows at most
  the limit of them, which is between one and 2000, and no other record, and it is marked as truncated
  exactly when there are more than the limit. Without a filter on the type it shows as many as the limit
  allows, and none of those left out is newer than one that is shown, or older if the oldest
  were asked for.\<close>

theorem activity_map_spec:
  assumes "run_store sha canon es createRecordStore = Inr (gv_store v)"
    and "handleCreatorGraph sha canon ed_verify time_of nowMs k params v = (Json (ActivityBody a), v')"
  shows "1 \<le> am_limit a \<and> am_limit a \<le> 2000 \<and> int (am_record_count a) \<le> am_limit a
    \<and> am_record_count a = card (graph_hashes (am_graph a))
    \<and> am_total_in_window a = card (creator_hashes (gv_store v) k (am_window a))
    \<and> graph_hashes (am_graph a) \<subseteq> creator_hashes (gv_store v) k (am_window a)
    \<and> (am_truncated a \<longleftrightarrow> am_limit a < int (card (creator_hashes (gv_store v) k (am_window a))))
    \<and> (params ''event_type'' = None \<longrightarrow>
        int (am_record_count a) = min (am_limit a) (int (am_total_in_window a))
        \<and> (\<forall>h \<in> graph_hashes (am_graph a). \<forall>h' \<in> creator_hashes (gv_store v) k (am_window a) - graph_hashes (am_graph a).
             if am_oldest a then stored_time (gv_store v) h \<le> stored_time (gv_store v) h' else stored_time (gv_store v) h' \<le> stored_time (gv_store v) h))"
proof -
  let ?s = "gv_store v"
  obtain window registry g opts where built0: "buildGraph sha canon ed_verify nowMs (filter_param (params ''event_type'') record_type_matches
          (slice_to (am_limit a) (sort_by (time_order (am_oldest a)) (window_records ?s k window (getSessionsByCreatorKey sha ?s k))))) [] opts = Inr (Some g)"
    and a: "am_window a = window" "am_limit a = activity_limit params" "gr_nodes (am_graph a) = gr_nodes g"
    and count: "am_record_count a = length (filter_param (params ''event_type'') record_type_matches
          (slice_to (am_limit a) (sort_by (time_order (am_oldest a)) (window_records ?s k window (getSessionsByCreatorKey sha ?s k)))))"
    and total: "am_total_in_window a = length (window_records ?s k window (getSessionsByCreatorKey sha ?s k))"
    and cut: "am_truncated a \<longleftrightarrow> am_limit a < int (am_total_in_window a)"
    by (rule activity_cases [OF assms(2)])
  obtain xs where xs: "window_records ?s k window (getSessionsByCreatorKey sha ?s k) = map sr_record xs" "distinct (map sr_recordHash xs)"
      "inj_on sr_record (set xs)" and C: "creator_hashes ?s k window = sr_recordHash ` set xs"
    and of_xs: "\<forall>x \<in> set xs. stored_of sha canon (sr_record x) = Inr x \<and> stored_time ?s (sr_recordHash x) = timestamp_of (sr_record x)"
    by (rule creator_records [OF assms(1)])
  note n = activity_limit_bounds [of params, folded a(2)]
  obtain ys where ys: "filter_param (params ''event_type'') record_type_matches (take (nat (am_limit a)) (sort_by (time_order (am_oldest a)) (map sr_record xs))) = map sr_record ys"
    and sub: "set ys \<subseteq> set xs" "distinct (map sr_recordHash ys)" "length ys \<le> nat (am_limit a)"
    and all: "params ''event_type'' = None \<longrightarrow> length ys = min (nat (am_limit a)) (length xs)
        \<and> (\<forall>x \<in> set ys. \<forall>y \<in> set xs - set ys. if am_oldest a then timestamp_of (sr_record x) \<le> timestamp_of (sr_record y)
             else timestamp_of (sr_record y) \<le> timestamp_of (sr_record x))"
    using shown_records [OF xs(3, 2),
        of "params ''event_type''" record_type_matches "nat (am_limit a)" "am_oldest a"] by (elim exE conjE)
  note picked = built0 [unfolded xs(1) slice_positive [OF n(1)] ys] count [unfolded xs(1) slice_positive [OF n(1)] ys length_map]
  have "\<forall>x \<in> set ys. stored_of sha canon (sr_record x) = Inr x" using sub(1) of_xs by blast
  from graph_records [OF this sub(2) picked(1)] have hashes: "graph_hashes (am_graph a) = sr_recordHash ` set ys"
    using a(3) by (simp add: graph_hashes_def)
  have cards: "card (sr_recordHash ` set ys) = length ys" "card (sr_recordHash ` set xs) = length xs"
    using sub(2) xs(2) by (metis distinct_card length_map set_map)+
  have "if am_oldest a then stored_time ?s h \<le> stored_time ?s h' else stored_time ?s h' \<le> stored_time ?s h"
    if "params ''event_type'' = None" "h \<in> sr_recordHash ` set ys" "h' \<in> sr_recordHash ` set xs - sr_recordHash ` set ys" for h h'
  proof -
    from that(2, 3) obtain x y where "x \<in> set ys" "h = sr_recordHash x" "y \<in> set xs - set ys" "h' = sr_recordHash y" by blast
    with all that(1) of_xs sub(1) show ?thesis by (metis DiffD1 subsetD)
  qed
  moreover have "int (length ys) = min (am_limit a) (int (length xs))" if "params ''event_type'' = None"
  proof -
    from all that have "length ys = min (nat (am_limit a)) (length xs)" by blast
    with n(1) show ?thesis by linarith
  qed
  moreover have "sr_recordHash ` set ys \<subseteq> sr_recordHash ` set xs" using sub(1) by (rule image_mono)
  moreover have "int (length ys) \<le> am_limit a" using sub(3) n(1) by linarith
  ultimately show ?thesis
    unfolding a(1) C hashes cut total xs(1) length_map picked(2) cards using n by (intro conjI impI ballI) blast+
qed

end
