(* ===== verification/Walk_Cases.thy ===== *)
theory Walk_Cases
  imports Graph_Queries
begin

text \<open>
  A session of three records, in which each names the one before both as its parent and as what informed it: the inputs
  at which the theorems about traces, chains and activity maps are applied.
\<close>

definition walk_record :: "string \<Rightarrow> rat \<Rightarrow> string \<Rightarrow> string list \<Rightarrow> js_object" where
  "walk_record i t parent refs =
     case_record i EVENT_TYPE_TOOL_CALL_URI t parent @ [(''informed_by'', JArr (map JStr refs))]"

definition walk_events :: "store_event list" where
  "walk_events =
     [Add (walk_record ''r'' 1 (case_id ''c'') []) None, Add (walk_record ''x'' 2 (case_id ''r'') [case_id ''r'']) (Some 4),
      Add (walk_record ''y'' 3 (case_id ''x'') [case_id ''x'', case_id ''z'']) None]"

definition walk_service :: graph_service where
  "walk_service = (start_service (\<lambda>x. x) case_canon case_parse None)
     \<lparr>gv_store := (case run_store (\<lambda>x. x) case_canon walk_events createRecordStore of Inr s \<Rightarrow> s | Inl _ \<Rightarrow> createRecordStore)\<rparr>"

lemma walk_service_run: "run_store (\<lambda>x. x) case_canon walk_events createRecordStore = Inr (gv_store walk_service)"
proof -
  have "case run_store (\<lambda>x. x) case_canon walk_events createRecordStore of Inr s \<Rightarrow> True | Inl _ \<Rightarrow> False" by code_simp
  then show ?thesis by (auto simp: walk_service_def split: sum.splits)
qed

definition walk_hash :: "string \<Rightarrow> string" where
  "walk_hash i = hexEncode (encode_utf8 i)"

definition walk_trace :: "string \<Rightarrow> reply \<times> graph_service" where
  "walk_trace depth = handleTrace (\<lambda>x. x) case_canon (\<lambda>_ _ _. False) 5 (walk_hash ''y'') [''depth'' \<mapsto> depth] walk_service"

definition walk_chain :: "string \<Rightarrow> reply \<times> graph_service" where
  "walk_chain depth = handleChain (\<lambda>x. x) case_canon (\<lambda>_ _ _. False) 5 (walk_hash ''y'') [''depth'' \<mapsto> depth] walk_service"

text \<open>With depth one the trace is marked as cut; with depth two it holds all ancestors and is marked all the same.\<close>

lemma walk_trace_runs:
  "case walk_trace ''1'' of (Json (TraceBody w), v) \<Rightarrow> (wk_record_count w, wk_depth_requested w, wk_truncated_by_depth w, wk_truncated_by_count w) = (2, 1, True, False) | _ \<Rightarrow> False"
  "case walk_trace ''2'' of (Json (TraceBody w), v) \<Rightarrow> (wk_record_count w, wk_depth_requested w, wk_truncated_by_depth w, wk_truncated_by_count w) = (3, 2, True, False) | _ \<Rightarrow> False"
  "case walk_trace ''3'' of (Json (TraceBody w), v) \<Rightarrow> (wk_record_count w, wk_depth_requested w, wk_truncated_by_depth w, wk_truncated_by_count w) = (3, 3, False, False) | _ \<Rightarrow> False"
  by code_simp+

lemma walk_chain_runs:
  "case walk_chain ''1'' of (Json (ChainBody w), v) \<Rightarrow> (wk_record_count w, wk_depth_requested w, wk_truncated_by_depth w) = (2, 1, True) | _ \<Rightarrow> False"
  "case walk_chain ''2'' of (Json (ChainBody w), v) \<Rightarrow> (wk_record_count w, wk_depth_requested w, wk_truncated_by_depth w) = (3, 2, False) | _ \<Rightarrow> False"
  by code_simp+

theorem trace_spec_witness:
  "\<exists>w v. walk_trace ''2'' = (Json (TraceBody w), v) \<and> wk_truncated_by_depth w
    \<and> claimed_within (gv_store walk_service) [''depth'' \<mapsto> ''2''] 2 (walk_hash ''y'')
        \<noteq> claimed_within (gv_store walk_service) [''depth'' \<mapsto> ''2''] 1 (walk_hash ''y'')"
proof -
  obtain w v where w: "walk_trace ''2'' = (Json (TraceBody w), v)" "wk_depth_requested w = 2" "wk_truncated_by_depth w" "\<not> wk_truncated_by_count w"
    using walk_trace_runs(2) by (auto split: prod.splits reply.splits graph_body.splits)
  with trace_spec [OF walk_service_run w(1) [unfolded walk_trace_def]] show ?thesis by auto
qed

theorem chain_spec_witness:
  "\<exists>w v h. walk_chain ''1'' = (Json (ChainBody w), v) \<and> hop (wk_graph w) (sha256_prefix @ h) CHAIN_PRECEDES (sha256_prefix @ walk_hash ''y'')"
proof -
  obtain w v where w: "walk_chain ''1'' = (Json (ChainBody w), v)" "wk_record_count w = 2"
    using walk_chain_runs(1) by (auto split: prod.splits reply.splits graph_body.splits)
  from chain_spec [OF walk_service_run w(1) [unfolded walk_chain_def]] w(2)
  obtain hs where "length hs = 1" "\<forall>i < length hs. hop (wk_graph w) (sha256_prefix @ hs ! i) CHAIN_PRECEDES (sha256_prefix @ (walk_hash ''y'' # hs) ! i)"
    by (metis One_nat_def length_Cons nat.inject numeral_2_eq_2)
  then have "hop (wk_graph w) (sha256_prefix @ hs ! 0) CHAIN_PRECEDES (sha256_prefix @ walk_hash ''y'')" by (metis less_one nth_Cons_0)
  with w(1) show ?thesis by blast
qed

definition walk_activity :: "reply \<times> graph_service" where
  "walk_activity = handleCreatorGraph (\<lambda>x. x) case_canon (\<lambda>_ _ _. False) (\<lambda>_. None) 5 ''k'' [''limit'' \<mapsto> ''2''] walk_service"

lemma walk_activity_runs:
  "case walk_activity of (Json (ActivityBody a), v) \<Rightarrow> (am_record_count a, am_total_in_window a, am_oldest a) = (2, 3, False) | _ \<Rightarrow> False"
  by code_simp

theorem activity_map_spec_witness:
  "\<exists>a v. walk_activity = (Json (ActivityBody a), v) \<and> card (graph_hashes (am_graph a)) = 2
    \<and> card (creator_hashes (gv_store walk_service) ''k'' (am_window a)) = 3"
proof -
  obtain a v where a: "walk_activity = (Json (ActivityBody a), v)" "am_record_count a = 2" "am_total_in_window a = 3"
    using walk_activity_runs by (auto split: prod.splits reply.splits graph_body.splits)
  with activity_map_spec [OF walk_service_run a(1) [unfolded walk_activity_def]] show ?thesis by metis
qed

end
