(* ===== verification/Body_Archive.thy ===== *)
theory Body_Archive
  imports Attribution_Record Checkpoint
begin

text \<open>
  The archive of record bodies (\<open>services/archive-node/src/store.ts\<close>): submissions and what is taken from them, the
  store by hash with its retention window, the file it appends to and reads at its start. An entry is its JSON
  object. \<open>JSON.stringify\<close> and \<open>JSON.parse\<close> are the arguments \<open>print\<close> and \<open>parse\<close>; an append may fail and then
  leaves the first \<open>n\<close> characters of its line. The member \<open>resolvedFacts\<close> of an entry in the file is taken
  to be an object or missing.
\<close>

section \<open>Submissions\<close>

record archive_submission =
  sb_record_hash :: "string option"
  sb_record :: js_object
  sb_log_proofs :: "json list"
  sb_authorizationEvidence :: "json list"
  sb_evidence :: "json list"
  sb_resolvedFacts :: "js_object option"
  sb_local :: "js_object option"

definition recordHash_ref :: "(bytes \<Rightarrow> bytes) \<Rightarrow> (json \<Rightarrow> string option) \<Rightarrow> js_object \<Rightarrow> string result" where
  "recordHash_ref sha canon r = rbind (canonicalRecord canon r) (\<lambda>b. Inr (sha256_prefix @ hexEncode (sha b)))"

definition isObject :: "json option \<Rightarrow> js_object option" where
  "isObject v = (case v of Some (JObj m) \<Rightarrow> Some m | _ \<Rightarrow> None)"

definition has_string :: "js_object \<Rightarrow> string \<Rightarrow> bool" where
  "has_string m k \<longleftrightarrow> str_of (map_of m k) \<noteq> None"

definition has_number :: "js_object \<Rightarrow> string \<Rightarrow> bool" where
  "has_number m k \<longleftrightarrow> (case map_of m k of Some (JNum _) \<Rightarrow> True | _ \<Rightarrow> False)"

definition has_array :: "js_object \<Rightarrow> string \<Rightarrow> bool" where
  "has_array m k \<longleftrightarrow> (case map_of m k of Some (JArr _) \<Rightarrow> True | _ \<Rightarrow> False)"

definition isAtribRecordLike :: "js_object \<Rightarrow> bool" where
  "isAtribRecordLike m \<longleftrightarrow> map_of m ''spec_version'' = Some (JStr ''atrib/1.0'') \<and> has_string m ''event_type''
     \<and> has_number m ''timestamp'' \<and> has_string m ''context_id'' \<and> has_string m ''creator_key'' \<and> has_string m ''chain_root''
     \<and> has_string m ''content_id'' \<and> has_string m ''signature''"

definition isProofBundle :: "json \<Rightarrow> bool" where
  "isProofBundle v = (case v of
     JObj m \<Rightarrow> has_number m ''log_index'' \<and> has_string m ''checkpoint'' \<and> has_array m ''inclusion_proof'' \<and> has_string m ''leaf_hash''
   | _ \<Rightarrow> False)"

fun firstArray :: "json option list \<Rightarrow> json list" where
  "firstArray [] = []"
| "firstArray (v # vs) = (case v of Some (JArr xs) \<Rightarrow> xs | _ \<Rightarrow> firstArray vs)"

fun firstObject :: "json option list \<Rightarrow> js_object option" where
  "firstObject [] = None"
| "firstObject (v # vs) = (case v of Some (JObj m) \<Rightarrow> Some m | _ \<Rightarrow> firstObject vs)"

definition member_of :: "js_object option \<Rightarrow> string \<Rightarrow> json option" where
  "member_of m k = Option.bind m (\<lambda>m. map_of m k)"

definition normalizeArchiveSubmission :: "json \<Rightarrow> archive_submission result" where
  "normalizeArchiveSubmission v =
     (case v of
        JObj i \<Rightarrow>
          (case (case isObject (map_of i ''record'') of
                   Some r \<Rightarrow> if isAtribRecordLike r then Some r else if isAtribRecordLike i then Some i else None
                 | None \<Rightarrow> if isAtribRecordLike i then Some i else None) of
             None \<Rightarrow> Inl ''record must be an AtribRecord object''
           | Some r \<Rightarrow>
               let explicitHash = str_of (map_of i ''record_hash'');
                   loc = isObject (map_of i ''_local''); localContent = isObject (member_of loc ''content'')
               in if (case explicitHash of Some h \<Rightarrow> \<not> is_sha256_ref h | None \<Rightarrow> False)
                  then Inl ''record_hash must be sha256:<64 lowercase hex>''
                  else Inr \<lparr>sb_record_hash = explicitHash, sb_record = r,
                    sb_log_proofs = (case map_of i ''log_proofs'' of
                        Some (JArr ps) \<Rightarrow> filter isProofBundle ps
                      | _ \<Rightarrow> (case map_of i ''proof'' of Some p \<Rightarrow> if isProofBundle p then [p] else [] | None \<Rightarrow> [])),
                    sb_authorizationEvidence = firstArray [map_of i ''authorizationEvidence'', member_of loc ''authorizationEvidence'',
                      member_of localContent ''authorizationEvidence'', member_of localContent ''authorization_evidence''],
                    sb_evidence = firstArray [map_of i ''evidence''],
                    sb_resolvedFacts = firstObject [map_of i ''resolvedFacts'', member_of loc ''resolvedFacts'',
                      member_of localContent ''resolvedFacts'', member_of localContent ''resolved_facts''],
                    sb_local = loc\<rparr>)
      | _ \<Rightarrow> Inl ''body must be a JSON object'')"

section \<open>Entries\<close>

definition array_of :: "js_object \<Rightarrow> string \<Rightarrow> json list" where
  "array_of e k = (case map_of e k of Some (JArr xs) \<Rightarrow> xs | _ \<Rightarrow> [])"

definition number_of :: "js_object \<Rightarrow> string \<Rightarrow> rat" where
  "number_of e k = (case map_of e k of Some (JNum q) \<Rightarrow> q | _ \<Rightarrow> 0)"

definition isStoredEntry :: "js_object \<Rightarrow> bool" where
  "isStoredEntry e \<longleftrightarrow> has_string e ''record_hash''
     \<and> (case map_of e ''record'' of Some (JObj r) \<Rightarrow> isAtribRecordLike r | _ \<Rightarrow> False)
     \<and> has_number e ''archived_at_ms'' \<and> has_number e ''retention_window_ms''
     \<and> has_array e ''log_proofs'' \<and> has_array e ''authorizationEvidence'' \<and> has_array e ''evidence''"

definition facts_of :: "js_object \<Rightarrow> js_object option" where
  "facts_of e = isObject (map_of e ''resolvedFacts'')"

definition next_entry :: "string \<Rightarrow> int \<Rightarrow> int \<Rightarrow> archive_submission \<Rightarrow> js_object" where
  "next_entry computedHash nowMs retentionWindowMs b =
     [(''record_hash'', JStr computedHash), (''record'', JObj (sb_record b)), (''archived_at_ms'', JNum (of_int nowMs)),
      (''retention_window_ms'', JNum (of_int retentionWindowMs)), (''log_proofs'', JArr (sb_log_proofs b)),
      (''authorizationEvidence'', JArr (sb_authorizationEvidence b)), (''evidence'', JArr (sb_evidence b))]
     @ (case sb_resolvedFacts b of None \<Rightarrow> [] | Some m \<Rightarrow> [(''resolvedFacts'', JObj m)])"

text \<open>The first of the items with each text.\<close>

fun dedupe_from :: "(json \<Rightarrow> string) \<Rightarrow> string list \<Rightarrow> json list \<Rightarrow> json list" where
  "dedupe_from print seen [] = []"
| "dedupe_from print seen (x # xs) =
     (if print x \<in> set seen then dedupe_from print seen xs else x # dedupe_from print (print x # seen) xs)"

definition dedupeObjects :: "(json \<Rightarrow> string) \<Rightarrow> json list \<Rightarrow> json list" where
  "dedupeObjects print xs = dedupe_from print [] xs"

definition spread :: "js_object \<Rightarrow> js_object \<Rightarrow> js_object" where
  "spread m new = fold (\<lambda>(k, v). AList.update k v) new m"

definition mergeEntries :: "(json \<Rightarrow> string) \<Rightarrow> js_object \<Rightarrow> js_object \<Rightarrow> js_object" where
  "mergeEntries print existing new =
     (let both = (\<lambda>k. JArr (dedupeObjects print (array_of existing k @ array_of new k)));
          merged = AList.update ''evidence'' (both ''evidence'')
            (AList.update ''authorizationEvidence'' (both ''authorizationEvidence'')
              (AList.update ''log_proofs'' (both ''log_proofs'') existing))
      in case (facts_of existing, facts_of new) of
           (None, None) \<Rightarrow> merged
         | (a, b) \<Rightarrow> AList.update ''resolvedFacts''
             (JObj (spread (case a of None \<Rightarrow> [] | Some m \<Rightarrow> m) (case b of None \<Rightarrow> [] | Some m \<Rightarrow> m))) merged)"

section \<open>The store\<close>

record archive_store =
  as_entries :: "(string, js_object) jsmap"
  as_file :: "string option"

datatype archive_lookup = Found js_object | Expired js_object rat | Missing

definition expires_at :: "js_object \<Rightarrow> rat" where
  "expires_at e = number_of e ''archived_at_ms'' + number_of e ''retention_window_ms''"

definition archive_get :: "int \<Rightarrow> string \<Rightarrow> archive_store \<Rightarrow> archive_lookup" where
  "archive_get nowMs recordHashRef s =
     (case map_of (as_entries s) recordHashRef of
        None \<Rightarrow> Missing
      | Some e \<Rightarrow> if expires_at e < of_int nowMs then Expired e (expires_at e) else Found e)"

definition persist_entry :: "(json \<Rightarrow> string) \<Rightarrow> nat option \<Rightarrow> js_object \<Rightarrow> archive_store \<Rightarrow> unit result \<times> archive_store" where
  "persist_entry print torn e s =
     (case as_file s of
        None \<Rightarrow> (Inr (), s)
      | Some text \<Rightarrow>
          let line = print (JObj e) @ [nl]
          in case torn of
               None \<Rightarrow> (Inr (), s\<lparr>as_file := Some (text @ line)\<rparr>)
             | Some n \<Rightarrow> (Inl ''append failed'', s\<lparr>as_file := Some (text @ take n line)\<rparr>))"

definition archive_put ::
  "(bytes \<Rightarrow> bytes) \<Rightarrow> (json \<Rightarrow> string option) \<Rightarrow> (json \<Rightarrow> string) \<Rightarrow> int \<Rightarrow> int \<Rightarrow> nat option
   \<Rightarrow> archive_submission \<Rightarrow> archive_store \<Rightarrow> (bool \<times> js_object) result \<times> archive_store" where
  "archive_put sha canon print retentionWindowMs nowMs torn b s =
     (case recordHash_ref sha canon (sb_record b) of
        Inl err \<Rightarrow> (Inl err, s)
      | Inr computedHash \<Rightarrow>
          if (case sb_record_hash b of Some h \<Rightarrow> h \<noteq> computedHash | None \<Rightarrow> False)
          then (Inl ''record_hash does not match canonical record body'', s)
          else let new = next_entry computedHash nowMs retentionWindowMs b;
                   existing = map_of (as_entries s) computedHash;
                   e = (case existing of None \<Rightarrow> new | Some x \<Rightarrow> mergeEntries print x new);
                   s1 = s\<lparr>as_entries := AList.update computedHash e (as_entries s)\<rparr>;
                   (written, s2) = (if (case existing of None \<Rightarrow> True | Some x \<Rightarrow> print (JObj e) \<noteq> print (JObj x))
                                    then persist_entry print torn e s1 else (Inr (), s1))
               in (case written of Inl err \<Rightarrow> Inl err | Inr _ \<Rightarrow> Inr (existing = None, e), s2))"

text \<open>\<open>init\<close>: the lines of the file in order; what is no entry, or not the entry of its record's hash, is passed over.\<close>

definition load_line ::
  "(bytes \<Rightarrow> bytes) \<Rightarrow> (json \<Rightarrow> string option) \<Rightarrow> (string \<Rightarrow> json option) \<Rightarrow> string
   \<Rightarrow> (string, js_object) jsmap \<times> nat \<Rightarrow> (string, js_object) jsmap \<times> nat" where
  "load_line sha canon parse line = (\<lambda>(m, loaded).
     let trimmed = trim line
     in if trimmed = [] then (m, loaded)
        else case parse trimmed of
          Some (JObj e) \<Rightarrow>
            (case (map_of e ''record'', str_of (map_of e ''record_hash'')) of
               (Some (JObj r), Some h) \<Rightarrow>
                 if isStoredEntry e \<and> recordHash_ref sha canon r = Inr h then (AList.update h e m, Suc loaded) else (m, loaded)
             | _ \<Rightarrow> (m, loaded))
        | _ \<Rightarrow> (m, loaded))"

definition load_text ::
  "(bytes \<Rightarrow> bytes) \<Rightarrow> (json \<Rightarrow> string option) \<Rightarrow> (string \<Rightarrow> json option) \<Rightarrow> string \<Rightarrow> (string, js_object) jsmap \<times> nat" where
  "load_text sha canon parse text = fold (load_line sha canon parse) (split_on nl text) ([], 0)"

definition archive_init ::
  "(bytes \<Rightarrow> bytes) \<Rightarrow> (json \<Rightarrow> string option) \<Rightarrow> (string \<Rightarrow> json option) \<Rightarrow> string option option \<Rightarrow> nat \<times> archive_store" where
  "archive_init sha canon parse file =
     (case file of
        None \<Rightarrow> (0, \<lparr>as_entries = [], as_file = None\<rparr>)
      | Some None \<Rightarrow> (0, \<lparr>as_entries = [], as_file = Some []\<rparr>)
      | Some (Some text) \<Rightarrow> (case load_text sha canon parse text of (m, loaded) \<Rightarrow> (loaded, \<lparr>as_entries = m, as_file = Some text\<rparr>)))"

definition archive_puts ::
  "(bytes \<Rightarrow> bytes) \<Rightarrow> (json \<Rightarrow> string option) \<Rightarrow> (json \<Rightarrow> string) \<Rightarrow> int
   \<Rightarrow> (int \<times> nat option \<times> archive_submission) list \<Rightarrow> archive_store \<Rightarrow> archive_store" where
  "archive_puts sha canon print retentionWindowMs ps s =
     fold (\<lambda>(nowMs, torn, b) s. snd (archive_put sha canon print retentionWindowMs nowMs torn b s)) ps s"

section \<open>Entries and merging\<close>

lemma next_entry_simps [simp]:
  "map_of (next_entry h now w b) ''record_hash'' = Some (JStr h)" "map_of (next_entry h now w b) ''record'' = Some (JObj (sb_record b))"
  "map_of (next_entry h now w b) ''archived_at_ms'' = Some (JNum (of_int now))"
  "map_of (next_entry h now w b) ''retention_window_ms'' = Some (JNum (of_int w))"
  "map_of (next_entry h now w b) ''log_proofs'' = Some (JArr (sb_log_proofs b))"
  "map_of (next_entry h now w b) ''authorizationEvidence'' = Some (JArr (sb_authorizationEvidence b))"
  "map_of (next_entry h now w b) ''evidence'' = Some (JArr (sb_evidence b))"
  by (simp_all add: next_entry_def)

definition merged_keys :: "string set" where
  "merged_keys = {''log_proofs'', ''authorizationEvidence'', ''evidence''}"

lemma merge_other: "k \<notin> merged_keys \<Longrightarrow> k \<noteq> ''resolvedFacts'' \<Longrightarrow> map_of (mergeEntries print x y) k = map_of x k"
  by (auto simp: mergeEntries_def merged_keys_def Let_def update_conv' split: option.splits)

lemma merge_arrays:
  "k \<in> merged_keys \<Longrightarrow> map_of (mergeEntries print x y) k = Some (JArr (dedupeObjects print (array_of x k @ array_of y k)))"
  by (auto simp: mergeEntries_def merged_keys_def Let_def update_conv' split: option.splits)

lemma merge_kept [simp]:
  "map_of (mergeEntries print x y) ''record_hash'' = map_of x ''record_hash''" "map_of (mergeEntries print x y) ''record'' = map_of x ''record''"
  "map_of (mergeEntries print x y) ''archived_at_ms'' = map_of x ''archived_at_ms''"
  "map_of (mergeEntries print x y) ''retention_window_ms'' = map_of x ''retention_window_ms''"
  by (simp_all add: merge_other merged_keys_def)

lemma dedupe_texts: "print ` set (dedupe_from print seen xs) = print ` set xs - set seen"
  by (induction xs arbitrary: seen) auto

lemma dedupe_distinct: "distinct (map print (dedupe_from print seen xs))"
  using dedupe_texts [of print] by (induction xs arbitrary: seen) force+

section \<open>Bodies and hashes\<close>

definition entry_of_hash :: "(bytes \<Rightarrow> bytes) \<Rightarrow> (json \<Rightarrow> string option) \<Rightarrow> string \<Rightarrow> js_object \<Rightarrow> bool" where
  "entry_of_hash sha canon h e \<longleftrightarrow> map_of e ''record_hash'' = Some (JStr h)
     \<and> (\<exists>r. map_of e ''record'' = Some (JObj r) \<and> recordHash_ref sha canon r = Inr h)"

definition archive_ok :: "(bytes \<Rightarrow> bytes) \<Rightarrow> (json \<Rightarrow> string option) \<Rightarrow> (string, js_object) jsmap \<Rightarrow> bool" where
  "archive_ok sha canon m \<longleftrightarrow> (\<forall>h e. map_of m h = Some e \<longrightarrow> entry_of_hash sha canon h e)"

lemma archive_ok_update: "archive_ok sha canon m \<Longrightarrow> entry_of_hash sha canon h e \<Longrightarrow> archive_ok sha canon (AList.update h e m)"
  by (simp add: archive_ok_def update_conv')

lemma put_cases:
  assumes "archive_put sha canon print w now torn b s = (res, s')"
  obtains (refused) err where "res = Inl err" "s' = s"
  | (stored) h e where "recordHash_ref sha canon (sb_record b) = Inr h"
      "e = (case map_of (as_entries s) h of None \<Rightarrow> next_entry h now w b | Some x \<Rightarrow> mergeEntries print x (next_entry h now w b))"
      "as_entries s' = AList.update h e (as_entries s)"
      "s' = (if \<exists>x. map_of (as_entries s) h = Some x \<and> print (JObj e) = print (JObj x) then s\<lparr>as_entries := AList.update h e (as_entries s)\<rparr>
         else snd (persist_entry print torn e (s\<lparr>as_entries := AList.update h e (as_entries s)\<rparr>)))"
      "torn = None \<longrightarrow> res = Inr (map_of (as_entries s) h = None, e)"
proof (cases "recordHash_ref sha canon (sb_record b)")
  case (Inl err)
  then show thesis using assms by (intro refused) (auto simp: archive_put_def)
next
  case (Inr h)
  show thesis
  proof (cases "case sb_record_hash b of Some h' \<Rightarrow> h' \<noteq> h | None \<Rightarrow> False")
    case True
    then show thesis using assms Inr by (intro refused) (auto simp: archive_put_def split: option.splits)
  next
    case False
    have persist: "as_entries (snd (persist_entry print torn e t)) = as_entries t"
      "torn = None \<Longrightarrow> fst (persist_entry print torn e t) = Inr ()" for e t
      by (auto simp: persist_entry_def Let_def split: option.splits)
    define e where "e = (case map_of (as_entries s) h of None \<Rightarrow> next_entry h now w b | Some x \<Rightarrow> mergeEntries print x (next_entry h now w b))"
    define same where "same \<longleftrightarrow> (\<exists>x. map_of (as_entries s) h = Some x \<and> print (JObj e) = print (JObj x))"
    define s1 where "s1 = s\<lparr>as_entries := AList.update h e (as_entries s)\<rparr>"
    define q where "q = (if same then (Inr (), s1) else persist_entry print torn e s1)"
    have "(case map_of (as_entries s) h of None \<Rightarrow> True | Some x \<Rightarrow> print (JObj e) \<noteq> print (JObj x)) = (\<not> same)"
      by (auto simp: same_def split: option.splits)
    then have "archive_put sha canon print w now torn b s
        = (case fst q of Inl err \<Rightarrow> Inl err | Inr _ \<Rightarrow> Inr (map_of (as_entries s) h = None, e), snd q)"
      unfolding archive_put_def Inr sum.case if_not_P [OF False] Let_def e_def [symmetric] s1_def [symmetric] q_def
      by (cases same) (simp_all split: prod.splits)
    with assms have q: "res = (case fst q of Inl err \<Rightarrow> Inl err | Inr _ \<Rightarrow> Inr (map_of (as_entries s) h = None, e))" "s' = snd q" by simp_all
    show thesis
    proof (rule stored [OF Inr e_def])
      show "as_entries s' = AList.update h e (as_entries s)" unfolding q(2) q_def by (simp add: persist(1) s1_def)
      show "s' = (if \<exists>x. map_of (as_entries s) h = Some x \<and> print (JObj e) = print (JObj x) then s\<lparr>as_entries := AList.update h e (as_entries s)\<rparr>
         else snd (persist_entry print torn e (s\<lparr>as_entries := AList.update h e (as_entries s)\<rparr>)))"
        unfolding q(2) q_def same_def [symmetric] s1_def [symmetric] by simp
      show "torn = None \<longrightarrow> res = Inr (map_of (as_entries s) h = None, e)" unfolding q(1) q_def using persist(2) by simp
    qed
  qed
qed

lemma put_ok:
  assumes "archive_ok sha canon (as_entries s)"
  shows "archive_ok sha canon (as_entries (snd (archive_put sha canon print w now torn b s)))"
proof -
  obtain res s' where put: "archive_put sha canon print w now torn b s = (res, s')" by fastforce
  then show ?thesis
  proof (cases rule: put_cases)
    case (stored h e)
    have "entry_of_hash sha canon h e"
    proof (cases "map_of (as_entries s) h")
      case None
      then show ?thesis using stored(1, 2) by (simp add: entry_of_hash_def)
    next
      case (Some x)
      then have "entry_of_hash sha canon h x" using assms by (simp add: archive_ok_def)
      then show ?thesis using stored(2) Some by (simp add: entry_of_hash_def)
    qed
    then show ?thesis using archive_ok_update [OF assms] stored(3) put by simp
  qed (use assms put in simp)
qed

lemma load_line_ok: "archive_ok sha canon m \<Longrightarrow> archive_ok sha canon (fst (load_line sha canon parse line (m, n)))"
  by (auto simp: load_line_def Let_def entry_of_hash_def str_of_def intro!: archive_ok_update split: option.splits json.splits)

lemma load_text_ok: "archive_ok sha canon (fst (load_text sha canon parse text))"
proof -
  have "archive_ok sha canon (fst (fold (load_line sha canon parse) ls (m, n)))" if "archive_ok sha canon m" for ls m n
    using that
  proof (induction ls arbitrary: m n)
    case (Cons l ls)
    obtain m' n' where l: "load_line sha canon parse l (m, n) = (m', n')" by fastforce
    with load_line_ok [OF Cons.prems, of parse l n] have "archive_ok sha canon m'" by simp
    from Cons.IH [OF this] show ?case by (simp add: l)
  qed simp
  moreover have "archive_ok sha canon []" by (simp add: archive_ok_def)
  ultimately show ?thesis unfolding load_text_def by blast
qed

text \<open>C16: bodies have the hash they are served under. Whatever the file held at the start, and whatever was submitted
  and however its appends went, what a lookup by hash finds, expired or not, holds a record with this hash.\<close>

theorem bodies_match_hashes:
  "case archive_get nowMs h (archive_puts sha canon print w ps (snd (archive_init sha canon parse file))) of
     Missing \<Rightarrow> True | Found e \<Rightarrow> entry_of_hash sha canon h e | Expired e t \<Rightarrow> entry_of_hash sha canon h e"
proof -
  have start: "archive_ok sha canon (as_entries (snd (archive_init sha canon parse file)))"
  proof (cases "\<exists>text. file = Some (Some text)")
    case True
    then obtain content m n where "file = Some (Some content)" "load_text sha canon parse content = (m, n)" by fastforce
    with load_text_ok [of sha canon parse content] show ?thesis by (simp add: archive_init_def)
  next
    case False
    then have "as_entries (snd (archive_init sha canon parse file)) = []" by (auto simp: archive_init_def split: option.splits)
    then show ?thesis by (simp add: archive_ok_def)
  qed
  have "archive_ok sha canon (as_entries (archive_puts sha canon print w ps s))" if "archive_ok sha canon (as_entries s)" for s
    using that
  proof (induction ps arbitrary: s)
    case (Cons p ps)
    from Cons.IH [OF put_ok [OF Cons.prems]] show ?case by (cases p) (simp add: archive_puts_def)
  qed (simp add: archive_puts_def)
  from this [OF start] show ?thesis by (auto simp: archive_get_def archive_ok_def split: option.splits)
qed

section \<open>Submitting again\<close>

text \<open>Evidence accumulates. A submission of a known record that is accepted keeps every proof and every piece of
  evidence that was there, by its text, adds those that are new, and repeats none.\<close>

theorem evidence_accumulates:
  assumes "archive_put sha canon print w now torn b s = (Inr (created, e), s')" and "recordHash_ref sha canon (sb_record b) = Inr h"
    and "map_of (as_entries s) h = Some x" and "k \<in> merged_keys"
  shows "map_of (as_entries s') h = Some e \<and> \<not> created \<and> distinct (map print (array_of e k))
    \<and> print ` set (array_of e k) = print ` set (array_of x k)
        \<union> print ` set (if k = ''log_proofs'' then sb_log_proofs b else if k = ''evidence'' then sb_evidence b else sb_authorizationEvidence b)"
  using assms(1)
proof (cases rule: put_cases)
  case (stored h' e')
  have e: "h' = h" "e' = mergeEntries print x (next_entry h now w b)" using stored(1, 2) assms(2, 3) by simp_all
  have "created = False \<and> e = e'"
    using assms(1-3) e(2) by (auto simp: archive_put_def Let_def split: option.splits prod.splits if_splits sum.splits)
  moreover have "array_of e' k = dedupeObjects print (array_of x k @ array_of (next_entry h now w b) k)"
    unfolding e(2) by (simp add: array_of_def merge_arrays [OF assms(4)])
  moreover have "array_of (next_entry h now w b) k
      = (if k = ''log_proofs'' then sb_log_proofs b else if k = ''evidence'' then sb_evidence b else sb_authorizationEvidence b)"
    using assms(4) unfolding merged_keys_def by (elim insertE emptyE) (simp_all add: array_of_def)
  ultimately show ?thesis
    using stored(3) e(1) by (simp add: dedupeObjects_def dedupe_texts dedupe_distinct update_conv' image_Un)
qed simp

text \<open>A submission does not renew. A record whose retention has ended and that is submitted again is accepted as
  known, but its window stays the one of the first submission: it is found as expired from then on as before.\<close>

theorem resubmission_does_not_renew:
  assumes "archive_get now h s = Expired x t" and "recordHash_ref sha canon (sb_record b) = Inr h" and "sb_record_hash b \<in> {None, Some h}"
    and "now \<le> now''"
  shows "\<exists>e s'. archive_put sha canon print w now' None b s = (Inr (False, e), s') \<and> archive_get now'' h s' = Expired e t"
proof -
  obtain res s' where put: "archive_put sha canon print w now' None b s = (res, s')" by fastforce
  have x: "map_of (as_entries s) h = Some x" "expires_at x < of_int now" "t = expires_at x"
    using assms(1) by (auto simp: archive_get_def split: option.splits if_splits)
  from put show ?thesis
  proof (cases rule: put_cases)
    case (refused err)
    have "fst (archive_put sha canon print w now' None b s) \<noteq> Inl err"
      using assms(2, 3) x(1) by (auto simp: archive_put_def persist_entry_def Let_def split: option.splits prod.splits)
    with put refused show ?thesis by simp
  next
    case (stored h' e)
    then have e: "e = mergeEntries print x (next_entry h now' w b)" "h' = h" using assms(2) x(1) by simp_all
    have "expires_at e = expires_at x" unfolding e(1) by (simp add: expires_at_def number_of_def)
    moreover have "(of_int now :: rat) \<le> of_int now''" using assms(4) by simp
    ultimately have "archive_get now'' h s' = Expired e t" using stored(3) e(2) x(2, 3) by (simp add: archive_get_def update_conv')
    moreover have "res = Inr (False, e)" using stored(5) e(2) x(1) by simp
    ultimately show ?thesis using put by blast
  qed
qed

section \<open>A restart\<close>

text \<open>What is used of \<open>JSON.stringify\<close> and \<open>JSON.parse\<close> at an entry: its text is a line without white space around it
  and parses to it.\<close>

definition entry_text_ok :: "(json \<Rightarrow> string) \<Rightarrow> (string \<Rightarrow> json option) \<Rightarrow> js_object \<Rightarrow> bool" where
  "entry_text_ok print parse e \<longleftrightarrow>
     (let t = print (JObj e) in t \<noteq> [] \<and> nl \<notin> set t \<and> trim t = t \<and> parse t = Some (JObj e))"

definition full_text :: "string list \<Rightarrow> string" where
  "full_text ls = concat (map (\<lambda>l. l @ [nl]) ls)"

lemma split_full: "\<forall>l \<in> set ls. nl \<notin> set l \<Longrightarrow> split_on nl (full_text ls) = ls @ [[]]"
  by (induction ls) (simp_all add: full_text_def split_on_append)

lemma load_full:
  assumes "\<forall>l \<in> set ls. nl \<notin> set l"
  shows "load_text sha canon parse (full_text ls) = fold (load_line sha canon parse) ls ([], 0)"
  by (simp add: load_text_def split_full [OF assms] load_line_def trim_def split: prod.splits)

lemma stored_next: "isAtribRecordLike (sb_record b) \<Longrightarrow> isStoredEntry (next_entry h now w b)"
  by (simp add: isStoredEntry_def has_string_def has_number_def has_array_def str_of_def)

lemma stored_merge: "isStoredEntry x \<Longrightarrow> isStoredEntry (mergeEntries print x y)"
  by (simp add: isStoredEntry_def has_string_def has_number_def has_array_def merge_arrays merged_keys_def)

text \<open>The file, read as at a start, gives the entries.\<close>

definition reloads :: "(bytes \<Rightarrow> bytes) \<Rightarrow> (json \<Rightarrow> string option) \<Rightarrow> (string \<Rightarrow> json option) \<Rightarrow> archive_store \<Rightarrow> bool" where
  "reloads sha canon parse s \<longleftrightarrow> archive_ok sha canon (as_entries s) \<and> (\<forall>h e. map_of (as_entries s) h = Some e \<longrightarrow> isStoredEntry e)
     \<and> (\<exists>ls. as_file s = Some (full_text ls) \<and> (\<forall>l \<in> set ls. nl \<notin> set l)
          \<and> map_of (fst (fold (load_line sha canon parse) ls ([], 0))) = map_of (as_entries s))"

lemma load_written:
  assumes "entry_text_ok print parse e" and "isStoredEntry e" and "entry_of_hash sha canon h e"
  shows "load_line sha canon parse (print (JObj e)) (m, n) = (AList.update h e m, Suc n)"
  using assms by (auto simp: load_line_def entry_text_ok_def entry_of_hash_def str_of_def Let_def)

lemma reloads_put:
  assumes "reloads sha canon parse s" and "isAtribRecordLike (sb_record b)"
    and old: "\<forall>h e. map_of (as_entries s) h = Some e \<longrightarrow> entry_text_ok print parse e"
    and new: "\<forall>h e. map_of (as_entries (snd (archive_put sha canon print w now None b s))) h = Some e \<longrightarrow> entry_text_ok print parse e"
  shows "reloads sha canon parse (snd (archive_put sha canon print w now None b s))"
proof -
  obtain res s' where put: "archive_put sha canon print w now None b s = (res, s')" by fastforce
  then show ?thesis
  proof (cases rule: put_cases)
    case (refused err)
    then show ?thesis using assms(1) put by simp
  next
    case (stored h e)
    obtain ls where ls: "as_file s = Some (full_text ls)" "\<forall>l \<in> set ls. nl \<notin> set l"
      "map_of (fst (fold (load_line sha canon parse) ls ([], 0))) = map_of (as_entries s)"
      using assms(1) by (auto simp: reloads_def)
    have ok: "archive_ok sha canon (as_entries s')" using put_ok [of sha canon s print w now None b] assms(1) put by (simp add: reloads_def)
    have e: "map_of (as_entries s') = (map_of (as_entries s))(h \<mapsto> e)" using stored(3) by (simp add: update_conv')
    have complete: "isStoredEntry e"
      using stored(2) assms(1, 2) by (auto simp: reloads_def stored_next stored_merge split: option.splits)
    have text_e: "entry_text_ok print parse e" using new [rule_format, of h e] put e by simp
    have complete': "\<forall>h e. map_of (as_entries s') h = Some e \<longrightarrow> isStoredEntry e"
      using e complete assms(1) by (simp add: reloads_def)
    have "\<exists>ls. as_file s' = Some (full_text ls) \<and> (\<forall>l \<in> set ls. nl \<notin> set l)
        \<and> map_of (fst (fold (load_line sha canon parse) ls ([], 0))) = map_of (as_entries s')"
    proof (cases "\<exists>x. map_of (as_entries s) h = Some x \<and> print (JObj e) = print (JObj x)")
      case True
      then obtain x where x: "map_of (as_entries s) h = Some x" "print (JObj e) = print (JObj x)" by blast
      have "parse (print (JObj e)) = Some (JObj e)" "parse (print (JObj x)) = Some (JObj x)"
        using text_e old [rule_format, OF x(1)] by (simp_all add: entry_text_ok_def Let_def)
      with x(2) have "e = x" by (metis json.inject(5) option.inject)
      with x(1) e have "map_of (as_entries s') = map_of (as_entries s)" by (simp add: fun_upd_idem)
      moreover have "as_file s' = as_file s" using stored(4) True by simp
      ultimately show ?thesis using ls by (intro exI [of _ ls]) simp
    next
      case False
      obtain m n where m: "fold (load_line sha canon parse) ls ([], 0) = (m, n)" by fastforce
      have "entry_of_hash sha canon h e" using ok e by (simp add: archive_ok_def)
      then have "fold (load_line sha canon parse) (ls @ [print (JObj e)]) ([], 0) = (AList.update h e m, Suc n)"
        by (simp add: m load_written [OF text_e complete])
      moreover have "map_of (AList.update h e m) = map_of (as_entries s')" using ls(3) m e by (simp add: update_conv')
      moreover have "as_file s' = Some (full_text (ls @ [print (JObj e)]))"
        using stored(4) False ls(1) by (simp add: persist_entry_def Let_def full_text_def)
      moreover have "nl \<notin> set (print (JObj e))" using text_e by (simp add: entry_text_ok_def Let_def)
      ultimately show ?thesis using ls(2) by (intro exI [of _ "ls @ [print (JObj e)]"]) auto
    qed
    with ok complete' put show ?thesis by (simp add: reloads_def)
  qed
qed

text \<open>C34: a restart restores the archive. When every append of a run succeeded, a start from its file finds under every
  hash what was found before, merged evidence, retention and all.\<close>

theorem archive_reloads:
  assumes "s = archive_puts sha canon print w ps (snd (archive_init sha canon parse (Some None)))"
    and "\<forall>(nowMs, torn, b) \<in> set ps. torn = None \<and> isAtribRecordLike (sb_record b)"
    and "\<forall>k h e. map_of (as_entries (archive_puts sha canon print w (take k ps) (snd (archive_init sha canon parse (Some None))))) h = Some e
      \<longrightarrow> entry_text_ok print parse e"
  shows "\<exists>content. as_file s = Some content
    \<and> (\<forall>nowMs h. archive_get nowMs h (snd (archive_init sha canon parse (Some (Some content)))) = archive_get nowMs h s)"
proof -
  let ?s = "\<lambda>k. archive_puts sha canon print w (take k ps) (snd (archive_init sha canon parse (Some None)))"
  have "reloads sha canon parse (?s k)" if "k \<le> length ps" for k
    using that
  proof (induction k)
    case 0
    have "as_file (?s 0) = Some (full_text [])" "as_entries (?s 0) = []" by (simp_all add: archive_puts_def archive_init_def full_text_def)
    then show ?case unfolding reloads_def by (intro conjI exI [of _ "[]"]) (simp_all add: archive_ok_def)
  next
    case (Suc k)
    obtain nowMs torn b where p: "ps ! k = (nowMs, torn, b)" by (cases "ps ! k")
    have "ps ! k \<in> set ps" using Suc.prems by simp
    then have b: "torn = None" "isAtribRecordLike (sb_record b)" using assms(2) p by auto
    have step: "?s (Suc k) = snd (archive_put sha canon print w nowMs None b (?s k))"
      using Suc.prems by (simp add: archive_puts_def take_Suc_conv_app_nth p b(1))
    show ?case unfolding step
      by (rule reloads_put [OF _ b(2)]) (use Suc assms(3) in \<open>simp_all add: step [symmetric]\<close>)
  qed
  from this [of "length ps"] have "reloads sha canon parse s" using assms(1) by simp
  then obtain ls where ls: "as_file s = Some (full_text ls)" "\<forall>l \<in> set ls. nl \<notin> set l"
    "map_of (fst (fold (load_line sha canon parse) ls ([], 0))) = map_of (as_entries s)"
    by (auto simp: reloads_def)
  have "archive_get nowMs h (snd (archive_init sha canon parse (Some (Some (full_text ls))))) = archive_get nowMs h s" for nowMs h
  proof -
    obtain m n where m: "fold (load_line sha canon parse) ls ([], 0) = (m, n)" by fastforce
    with ls(3) have "map_of m = map_of (as_entries s)" by simp
    then show ?thesis by (simp add: archive_get_def archive_init_def load_full [OF ls(2)] m)
  qed
  with ls(1) show ?thesis by blast
qed

section \<open>A small archive\<close>

text \<open>A record, submitted twice with different proofs. Its text is the last letter of the \<open>content_id\<close> with the number of
  proofs.\<close>

definition body_record :: js_object where
  "body_record = [(''spec_version'', JStr ''atrib/1.0''), (''event_type'', JStr ''e''), (''timestamp'', JNum 1), (''context_id'', JStr ''c''),
     (''creator_key'', JStr ''k''), (''chain_root'', JStr ''r''), (''content_id'', JStr ''x''), (''signature'', JStr ''s'')]"

definition body_canon :: "json \<Rightarrow> string option" where
  "body_canon v = str_of (jget v ''content_id'')"

definition body_submission :: "json list \<Rightarrow> archive_submission" where
  "body_submission proofs = \<lparr>sb_record_hash = None, sb_record = body_record, sb_log_proofs = proofs, sb_authorizationEvidence = [],
     sb_evidence = [], sb_resolvedFacts = None, sb_local = None\<rparr>"

definition body_print :: "json \<Rightarrow> string" where
  "body_print v = (case v of JStr s \<Rightarrow> s | JObj e \<Rightarrow> ''x'' @ replicate (length (array_of e ''log_proofs'')) (CHR ''p'') | _ \<Rightarrow> ''v'')"

definition body_puts :: "(int \<times> nat option \<times> archive_submission) list" where
  "body_puts = [(1, None, body_submission [JStr ''a'']), (50, None, body_submission [JStr ''a'', JStr ''b''])]"

definition body_hash :: string where
  "body_hash = sha256_prefix @ hexEncode (encode_utf8 ''x'')"

definition body_first :: js_object where
  "body_first = next_entry body_hash 1 9 (body_submission [JStr ''a''])"

definition body_both :: js_object where
  "body_both = mergeEntries body_print body_first (next_entry body_hash 50 9 (body_submission [JStr ''a'', JStr ''b'']))"

definition body_parse :: "string \<Rightarrow> json option" where
  "body_parse t = map_of [(''xp'', JObj body_first), (''xpp'', JObj body_both)] t"

definition body_stored :: archive_store where
  "body_stored = \<lparr>as_entries = [(body_hash, body_first)], as_file = None\<rparr>"

lemma body_known:
  "recordHash_ref (\<lambda>x. x) body_canon (sb_record (body_submission ps)) = Inr body_hash" "sb_record_hash (body_submission ps) = None"
  by (simp add: body_submission_def, code_simp) (simp add: body_submission_def)

theorem resubmission_does_not_renew_witness:
  "\<exists>e s'. archive_put (\<lambda>x. x) body_canon body_print 9 50 None (body_submission [JStr ''b'']) body_stored = (Inr (False, e), s')
    \<and> archive_get 51 body_hash s' = Expired e 10"
proof -
  have "archive_get 50 body_hash body_stored = Expired body_first 10" by code_simp
  from resubmission_does_not_renew [OF this body_known(1)] show ?thesis by (simp add: body_known(2))
qed

theorem evidence_accumulates_witness:
  "\<exists>e s'. archive_put (\<lambda>x. x) body_canon body_print 9 5 None (body_submission [JStr ''b'']) body_stored = (Inr (False, e), s')
    \<and> body_print ` set (array_of e ''log_proofs'') = {''a'', ''b''}"
proof -
  obtain e s' where put: "archive_put (\<lambda>x. x) body_canon body_print 9 5 None (body_submission [JStr ''b'']) body_stored = (Inr (False, e), s')"
  proof -
    have "case fst (archive_put (\<lambda>x. x) body_canon body_print 9 5 None (body_submission [JStr ''b'']) body_stored) of Inr (c, e) \<Rightarrow> \<not> c | _ \<Rightarrow> False"
      by code_simp
    then show thesis using that by (cases "archive_put (\<lambda>x. x) body_canon body_print 9 5 None (body_submission [JStr ''b'']) body_stored")
      (auto split: sum.splits)
  qed
  have "map_of (as_entries body_stored) body_hash = Some body_first" "''log_proofs'' \<in> merged_keys"
    by (simp_all add: body_stored_def merged_keys_def)
  with evidence_accumulates [OF put body_known(1)] put show ?thesis
    by (fastforce simp: body_first_def array_of_def body_submission_def body_print_def)
qed

lemma body_run:
  "as_entries (archive_puts (\<lambda>x. x) body_canon body_print 9 (take 1 body_puts) (snd (archive_init (\<lambda>x. x) body_canon body_parse (Some None)))) = [(body_hash, body_first)]"
  "as_entries (archive_puts (\<lambda>x. x) body_canon body_print 9 body_puts (snd (archive_init (\<lambda>x. x) body_canon body_parse (Some None)))) = [(body_hash, body_both)]"
  "entry_text_ok body_print body_parse body_first" "entry_text_ok body_print body_parse body_both"
  by code_simp+

theorem archive_reloads_witness:
  "\<exists>content. as_file (archive_puts (\<lambda>x. x) body_canon body_print 9 body_puts (snd (archive_init (\<lambda>x. x) body_canon body_parse (Some None)))) = Some content
    \<and> archive_get 2 body_hash (snd (archive_init (\<lambda>x. x) body_canon body_parse (Some (Some content)))) = Found body_both"
proof -
  let ?s = "\<lambda>ps. archive_puts (\<lambda>x. x) body_canon body_print 9 ps (snd (archive_init (\<lambda>x. x) body_canon body_parse (Some None)))"
  have len: "length body_puts = 2" by (simp add: body_puts_def)
  have "\<forall>k h e. map_of (as_entries (?s (take k body_puts))) h = Some e \<longrightarrow> entry_text_ok body_print body_parse e"
  proof (intro allI impI)
    fix k h e assume e: "map_of (as_entries (?s (take k body_puts))) h = Some e"
    consider "k = 0" | "k = 1" | "2 \<le> k" by linarith
    then show "entry_text_ok body_print body_parse e"
    proof cases
      case 1
      with e show ?thesis by (simp add: archive_puts_def archive_init_def)
    next
      case 2
      with e body_run show ?thesis by (simp split: if_splits)
    next
      case 3
      then have "take k body_puts = body_puts" using len by simp
      with e body_run show ?thesis by (simp split: if_splits)
    qed
  qed
  moreover have "isAtribRecordLike body_record" by code_simp
  then have "\<forall>(nowMs, torn, b) \<in> set body_puts. torn = None \<and> isAtribRecordLike (sb_record b)"
    by (simp add: body_puts_def body_submission_def)
  moreover have "archive_get 2 body_hash (?s body_puts) = Found body_both" unfolding archive_get_def body_run by code_simp
  ultimately show ?thesis using archive_reloads [OF refl, of body_puts "\<lambda>x. x" body_canon body_print 9 body_parse] by metis
qed

end
