(* ===== verification/Write_Idempotency.thy ===== *)
theory Write_Idempotency
  imports Attribution_Record
begin

text \<open>
  The idempotency store of the daemon (\<open>services/atribd/src/idempotency.ts\<close>): a write that carries a key runs once, and
  a repetition gets the first result. The entries are the members of the state's JSON object. The file is
  the JSON value that its text stands for, or none if it is missing or malformed; it is replaced as a
  whole, by a rename. \<open>begin\<close> and \<open>complete\<close> change the entries at once and answer when the write of
  their snapshot ends, so other calls may come between. \<open>iso_of\<close> and \<open>time_of\<close> stand for \<open>toISOString\<close> and \<open>Date.parse\<close>.
\<close>

section \<open>Keys and bindings\<close>

definition IDEMPOTENCY_META_KEY :: string where
  "IDEMPOTENCY_META_KEY = ''dev.atrib/idempotencyKey''"

definition IDEMPOTENCY_SCHEMA :: string where
  "IDEMPOTENCY_SCHEMA = ''atrib.mcp-write-idempotency.v1''"

definition validateIdempotencyKey :: "json option \<Rightarrow> string option result" where
  "validateIdempotencyKey v =
     (case v of
        None \<Rightarrow> Inr None
      | Some x \<Rightarrow>
          (case x of
             JStr s \<Rightarrow>
               if utf16_length s < 16 \<or> 128 < utf16_length s then Inl ''atribd: idempotency key must be a 16-128 character string''
               else if list_all (\<lambda>c. 33 \<le> (of_char c :: nat) \<and> (of_char c :: nat) \<le> 126) s then Inr (Some s)
               else Inl ''atribd: idempotency key must contain visible ASCII characters only''
           | _ \<Rightarrow> Inl ''atribd: idempotency key must be a 16-128 character string''))"

definition idempotencyKeyFromRequest :: "js_object \<Rightarrow> string option result" where
  "idempotencyKeyFromRequest params =
     (case map_of params ''_meta'' of
        Some (JObj meta) \<Rightarrow> validateIdempotencyKey (map_of meta IDEMPOTENCY_META_KEY)
      | _ \<Rightarrow> Inr None)"

definition plain_commitment :: "(bytes \<Rightarrow> bytes) \<Rightarrow> (json \<Rightarrow> string option) \<Rightarrow> json \<Rightarrow> string result" where
  "plain_commitment sha canon v = rbind (createJsonCommitment sha canon v PlainSha256 []) (\<lambda>c. Inr (jc_hash c))"

definition hashKey :: "(bytes \<Rightarrow> bytes) \<Rightarrow> (json \<Rightarrow> string option) \<Rightarrow> string \<Rightarrow> string result" where
  "hashKey sha canon key = plain_commitment sha canon (JStr key)"

definition writeActionBinding ::
  "(bytes \<Rightarrow> bytes) \<Rightarrow> (json \<Rightarrow> string option) \<Rightarrow> js_object \<Rightarrow> string option \<Rightarrow> string result" where
  "writeActionBinding sha canon params resolvedContextId =
     plain_commitment sha canon (JObj
       ([(''context_id'', case resolvedContextId of
            Some c \<Rightarrow> JStr c
          | None \<Rightarrow> (case map_of params ''arguments'' of
              Some (JObj a) \<Rightarrow> (case map_of a ''context_id'' of Some x \<Rightarrow> x | None \<Rightarrow> JNull)
            | _ \<Rightarrow> JNull))]
        @ (case map_of params ''name'' of Some n \<Rightarrow> [(''tool'', n)] | None \<Rightarrow> [])
        @ [(''arguments'', case map_of params ''arguments'' of Some JNull \<Rightarrow> JObj [] | Some x \<Rightarrow> x | None \<Rightarrow> JObj [])]))"

section \<open>State\<close>

record idempotency_config =
  ic_profile :: string
  ic_stateFile :: bool
  ic_windowMs :: int
  ic_maxEntries :: nat

datatype idempotency_answer =
    Owner string string
  | Replay json
  | Binding_mismatch
  | Indeterminate
  | Completed
  | Threw string

text \<open>A write in the chain holds the snapshot and what its caller gets when it ends. \<open>wi_broken\<close> says that the
  promise at the end of the chain was rejected.\<close>

record write_idempotency =
  wi_entries :: js_object
  wi_file :: "json option"
  wi_writes :: "(json \<times> idempotency_answer) list"
  wi_broken :: bool

definition entry_string :: "json \<Rightarrow> string \<Rightarrow> string" where
  "entry_string e k = (case str_of (jget e k) of Some s \<Rightarrow> s | None \<Rightarrow> [])"

definition is_string_member :: "json \<Rightarrow> string \<Rightarrow> bool" where
  "is_string_member e k \<longleftrightarrow> str_of (jget e k) \<noteq> None"

definition isEntry :: "json \<Rightarrow> bool" where
  "isEntry e \<longleftrightarrow> is_string_member e ''key_hash'' \<and> is_string_member e ''binding'' \<and> is_string_member e ''created_at''
     \<and> is_string_member e ''updated_at''
     \<and> (jget e ''status'' = Some (JStr ''pending'')
        \<or> jget e ''status'' = Some (JStr ''completed'') \<and> (case jget e ''result'' of Some (JObj _) \<Rightarrow> True | _ \<Rightarrow> False))"

definition state_json :: "string \<Rightarrow> js_object \<Rightarrow> json" where
  "state_json profile entries =
     JObj [(''schema'', JStr IDEMPOTENCY_SCHEMA), (''profile'', JStr profile), (''entries'', JObj entries)]"

definition loadState :: "string \<Rightarrow> json option \<Rightarrow> js_object" where
  "loadState profile file =
     (case file of
        None \<Rightarrow> []
      | Some v \<Rightarrow>
          if jget v ''schema'' = Some (JStr IDEMPOTENCY_SCHEMA) \<and> jget v ''profile'' = Some (JStr profile)
          then (case jget v ''entries'' of
                  Some (JObj entries) \<Rightarrow> if list_all (\<lambda>(k, e). isEntry e) entries then entries else []
                | _ \<Rightarrow> [])
          else [])"

definition createWriteIdempotencyStore :: "idempotency_config \<Rightarrow> json option \<Rightarrow> write_idempotency" where
  "createWriteIdempotencyStore cfg file =
     \<lparr>wi_entries = (if ic_stateFile cfg then loadState (ic_profile cfg) file else []), wi_file = file, wi_writes = [], wi_broken = False\<rparr>"

section \<open>Operations\<close>

definition persist :: "idempotency_config \<Rightarrow> idempotency_answer \<Rightarrow> write_idempotency \<Rightarrow> idempotency_answer list \<times> write_idempotency" where
  "persist cfg answer s =
     (if \<not> ic_stateFile cfg then ([answer], s)
      else if wi_broken s then ([Threw ''write failed''], s)
      else ([], s\<lparr>wi_writes := wi_writes s @ [(state_json (ic_profile cfg) (wi_entries s), answer)]\<rparr>))"

definition updated_order :: "(string \<Rightarrow> int option) \<Rightarrow> json \<Rightarrow> json \<Rightarrow> int" where
  "updated_order time_of a b =
     (case (time_of (entry_string a ''updated_at''), time_of (entry_string b ''updated_at'')) of
        (Some x, Some y) \<Rightarrow> x - y
      | _ \<Rightarrow> 0)"

definition is_completed :: "json \<Rightarrow> bool" where
  "is_completed e \<longleftrightarrow> jget e ''status'' = Some (JStr ''completed'')"

definition prune_step :: "(string \<Rightarrow> int option) \<Rightarrow> idempotency_config \<Rightarrow> int \<Rightarrow> json \<Rightarrow> js_object \<Rightarrow> js_object" where
  "prune_step time_of cfg cutoff e m =
     (if (case time_of (entry_string e ''updated_at'') of Some t \<Rightarrow> t < cutoff | None \<Rightarrow> False) \<or> ic_maxEntries cfg \<le> length m
      then AList.delete (entry_string e ''key_hash'') m else m)"

definition pruneCompleted :: "(string \<Rightarrow> int option) \<Rightarrow> idempotency_config \<Rightarrow> int \<Rightarrow> js_object \<Rightarrow> js_object" where
  "pruneCompleted time_of cfg now m =
     fold (prune_step time_of cfg (now - ic_windowMs cfg)) (sort_by (updated_order time_of) (filter is_completed (map snd m))) m"

definition pending_entry :: "string \<Rightarrow> string \<Rightarrow> string \<Rightarrow> json" where
  "pending_entry keyHash binding timestamp =
     JObj [(''key_hash'', JStr keyHash), (''binding'', JStr binding), (''status'', JStr ''pending''),
           (''created_at'', JStr timestamp), (''updated_at'', JStr timestamp)]"

definition completed_entry :: "string \<Rightarrow> string \<Rightarrow> string \<Rightarrow> string \<Rightarrow> js_object \<Rightarrow> json" where
  "completed_entry keyHash binding created timestamp res =
     JObj [(''key_hash'', JStr keyHash), (''binding'', JStr binding), (''status'', JStr ''completed''),
           (''created_at'', JStr created), (''updated_at'', JStr timestamp), (''result'', JObj res)]"

text \<open>\<open>begin\<close>: \<open>now\<close> and \<open>now'\<close> are the two readings of the clock, before pruning and for the new entry.\<close>

definition begin_write ::
  "(bytes \<Rightarrow> bytes) \<Rightarrow> (json \<Rightarrow> string option) \<Rightarrow> (string \<Rightarrow> int option) \<Rightarrow> (int \<Rightarrow> string) \<Rightarrow> idempotency_config
   \<Rightarrow> int \<Rightarrow> int \<Rightarrow> string \<Rightarrow> string \<Rightarrow> write_idempotency \<Rightarrow> idempotency_answer list \<times> write_idempotency" where
  "begin_write sha canon time_of iso_of cfg now now' key binding s =
     (case hashKey sha canon key of
        Inl err \<Rightarrow> ([Threw err], s)
      | Inr keyHash \<Rightarrow>
          let m = pruneCompleted time_of cfg now (wi_entries s); s1 = s\<lparr>wi_entries := m\<rparr>
          in case map_of m keyHash of
               Some prior \<Rightarrow>
                 (if entry_string prior ''binding'' \<noteq> binding then [Binding_mismatch]
                  else if is_completed prior then [Replay (case jget prior ''result'' of Some r \<Rightarrow> r | None \<Rightarrow> JNull)]
                  else [Indeterminate], s1)
             | None \<Rightarrow>
                 if ic_maxEntries cfg \<le> length m then ([Threw ''atribd: idempotency store is full of unresolved pending entries''], s1)
                 else persist cfg (Owner keyHash binding)
                        (s1\<lparr>wi_entries := AList.update keyHash (pending_entry keyHash binding (iso_of now')) m\<rparr>))"

definition complete_write ::
  "(int \<Rightarrow> string) \<Rightarrow> idempotency_config \<Rightarrow> int \<Rightarrow> string \<Rightarrow> string \<Rightarrow> js_object \<Rightarrow> write_idempotency
   \<Rightarrow> idempotency_answer list \<times> write_idempotency" where
  "complete_write iso_of cfg now keyHash binding res s =
     (case map_of (wi_entries s) keyHash of
        None \<Rightarrow> ([Threw ''atribd: idempotency completion has no matching pending entry''], s)
      | Some prior \<Rightarrow>
          if entry_string prior ''binding'' \<noteq> binding
          then ([Threw ''atribd: idempotency completion has no matching pending entry''], s)
          else persist cfg Completed
                 (s\<lparr>wi_entries := AList.update keyHash
                      (completed_entry keyHash binding (entry_string prior ''created_at'') (iso_of now) res) (wi_entries s)\<rparr>))"

text \<open>The first write of the chain ends. A write that fails rejects the promise that all later ones wait for.\<close>

definition write_ends :: "bool \<Rightarrow> write_idempotency \<Rightarrow> idempotency_answer list \<times> write_idempotency" where
  "write_ends ok s =
     (case wi_writes s of
        [] \<Rightarrow> ([], s)
      | (snapshot, answer) # later \<Rightarrow>
          if ok then ([answer], s\<lparr>wi_file := Some snapshot, wi_writes := later\<rparr>)
          else (map (\<lambda>_. Threw ''write failed'') (wi_writes s), s\<lparr>wi_writes := [], wi_broken := True\<rparr>))"

datatype idempotency_event =
    Begin int int string string
  | Complete int string string js_object
  | Write_ends bool
  | Restart

definition idempotency_step ::
  "(bytes \<Rightarrow> bytes) \<Rightarrow> (json \<Rightarrow> string option) \<Rightarrow> (string \<Rightarrow> int option) \<Rightarrow> (int \<Rightarrow> string) \<Rightarrow> idempotency_config
   \<Rightarrow> idempotency_event \<Rightarrow> write_idempotency \<Rightarrow> idempotency_answer list \<times> write_idempotency" where
  "idempotency_step sha canon time_of iso_of cfg e s =
     (case e of
        Begin now now' key binding \<Rightarrow> begin_write sha canon time_of iso_of cfg now now' key binding s
      | Complete now keyHash binding res \<Rightarrow> complete_write iso_of cfg now keyHash binding res s
      | Write_ends ok \<Rightarrow> write_ends ok s
      | Restart \<Rightarrow> ([], createWriteIdempotencyStore cfg (wi_file s)))"

fun idempotency_run ::
  "(bytes \<Rightarrow> bytes) \<Rightarrow> (json \<Rightarrow> string option) \<Rightarrow> (string \<Rightarrow> int option) \<Rightarrow> (int \<Rightarrow> string) \<Rightarrow> idempotency_config
   \<Rightarrow> idempotency_event list \<Rightarrow> write_idempotency \<Rightarrow> idempotency_answer list \<times> write_idempotency" where
  "idempotency_run sha canon time_of iso_of cfg [] s = ([], s)"
| "idempotency_run sha canon time_of iso_of cfg (e # es) s =
     (case idempotency_step sha canon time_of iso_of cfg e s of
        (answers, s1) \<Rightarrow> (case idempotency_run sha canon time_of iso_of cfg es s1 of (answers', s2) \<Rightarrow> (answers @ answers', s2)))"

definition report :: "write_idempotency \<Rightarrow> nat \<times> nat" where
  "report s = (length (filter (\<lambda>e. jget e ''status'' = Some (JStr ''pending'')) (map snd (wi_entries s))),
               length (filter is_completed (map snd (wi_entries s))))"

section \<open>What every step keeps\<close>

definition ok_entries :: "js_object \<Rightarrow> bool" where
  "ok_entries m \<longleftrightarrow> (\<forall>(k, e) \<in> set m. isEntry e \<and> entry_string e ''key_hash'' = k)"

definition sound_store :: "idempotency_config \<Rightarrow> write_idempotency \<Rightarrow> bool" where
  "sound_store cfg s \<longleftrightarrow> ok_entries (wi_entries s) \<and> ok_entries (loadState (ic_profile cfg) (wi_file s))
     \<and> (\<forall>(snapshot, a) \<in> set (wi_writes s). ok_entries (loadState (ic_profile cfg) (Some snapshot)))"

lemma load_saved: "ok_entries m \<Longrightarrow> loadState p (Some (state_json p m)) = m"
  by (auto simp: loadState_def state_json_def ok_entries_def list_all_iff)

lemma ok_delete: "ok_entries m \<Longrightarrow> ok_entries (AList.delete k m)"
  by (auto simp: ok_entries_def AList.delete_eq)

lemma ok_update:
  assumes "ok_entries m" and "isEntry e" and "entry_string e ''key_hash'' = k"
  shows "ok_entries (AList.update k e m)"
  unfolding ok_entries_def
proof (rule ballI)
  fix x assume "x \<in> set (AList.update k e m)"
  then have "x = (k, e) \<or> x \<in> set m" using set_update_subset [of k e m] by blast
  with assms show "case x of (k, e) \<Rightarrow> isEntry e \<and> entry_string e ''key_hash'' = k" unfolding ok_entries_def by fast
qed

lemma pending_entry_simps [simp]:
  "isEntry (pending_entry k b t)" "entry_string (pending_entry k b t) ''key_hash'' = k" "entry_string (pending_entry k b t) ''binding'' = b"
  "\<not> is_completed (pending_entry k b t)"
  by (simp_all add: isEntry_def is_string_member_def entry_string_def pending_entry_def str_of_def is_completed_def)

lemma completed_entry_simps [simp]:
  "isEntry (completed_entry k b c t r)" "entry_string (completed_entry k b c t r) ''key_hash'' = k"
  "entry_string (completed_entry k b c t r) ''binding'' = b" "is_completed (completed_entry k b c t r)"
  "jget (completed_entry k b c t r) ''result'' = Some (JObj r)" "entry_string (completed_entry k b c t r) ''updated_at'' = t"
  by (simp_all add: isEntry_def is_string_member_def entry_string_def completed_entry_def str_of_def is_completed_def)

text \<open>Pruning removes completed entries only, and with room only those that are too old.\<close>

lemma ok_prune_fold: "ok_entries m \<Longrightarrow> ok_entries (fold (prune_step time_of cfg c) es m)"
  by (induction es arbitrary: m) (simp_all add: prune_step_def ok_delete)

lemma ok_prune: "ok_entries m \<Longrightarrow> ok_entries (pruneCompleted time_of cfg now m)"
  by (simp add: pruneCompleted_def ok_prune_fold)

lemma prune_step_other: "entry_string e ''key_hash'' \<noteq> k \<Longrightarrow> map_of (prune_step time_of cfg c e m) k = map_of m k"
  by (auto simp: prune_step_def map_of_delete delete_conv')

lemma prune_fold_other:
  "(\<And>e. e \<in> set es \<Longrightarrow> entry_string e ''key_hash'' \<noteq> k) \<Longrightarrow> map_of (fold (prune_step time_of cfg c) es m) k = map_of m k"
  by (induction es arbitrary: m) (simp_all add: prune_step_other)

lemma ok_entries_member:
  assumes "ok_entries m" and "e \<in> set (map snd m)" and "entry_string e ''key_hash'' = k"
  shows "(k, e) \<in> set m"
  using assms by (auto simp: ok_entries_def)

lemma prune_subset: "set (pruneCompleted time_of cfg now m) \<subseteq> set m"
proof -
  have step: "set (prune_step time_of cfg c e m) \<subseteq> set m" for c e m by (auto simp: prune_step_def AList.delete_eq)
  have "set (fold (prune_step time_of cfg c) es m) \<subseteq> set m" for c es
  proof (induction es arbitrary: m)
    case (Cons e es)
    show ?case using Cons [of "prune_step time_of cfg c e m"] step [of c e m] by (simp only: fold_Cons comp_apply)
  qed simp
  then show ?thesis by (simp add: pruneCompleted_def)
qed

definition pending_in :: "js_object \<Rightarrow> string \<Rightarrow> bool" where
  "pending_in m k \<longleftrightarrow> (\<exists>e. map_of m k = Some e \<and> \<not> is_completed e) \<and> (\<forall>e. (k, e) \<in> set m \<longrightarrow> \<not> is_completed e)"

lemma prune_keeps_pending:
  assumes "ok_entries m" and "pending_in m k"
  shows "pending_in (pruneCompleted time_of cfg now m) k"
proof -
  let ?es = "sort_by (updated_order time_of) (filter is_completed (map snd m))"
  have "entry_string e ''key_hash'' \<noteq> k" if "e \<in> set ?es" for e
    using that assms ok_entries_member [OF assms(1)] by (auto simp: pending_in_def)
  from prune_fold_other [of ?es k time_of cfg "now - ic_windowMs cfg" m, OF this] have "map_of (pruneCompleted time_of cfg now m) k = map_of m k"
    by (simp add: pruneCompleted_def)
  with prune_subset [of time_of cfg now m] assms(2) show ?thesis unfolding pending_in_def by auto
qed

lemma update_keeps_pending: "k \<noteq> k' \<Longrightarrow> pending_in m k \<Longrightarrow> pending_in (AList.update k' e m) k"
  using set_update_subset [of k' e m] by (auto simp: pending_in_def update_conv')



lemma new_pending: "ok_entries m \<Longrightarrow> map_of m k = None \<Longrightarrow> pending_in (AList.update k (pending_entry k b t) m) k"
  using set_update_subset [of k "pending_entry k b t" m] by (force simp: pending_in_def update_conv' map_of_eq_None_iff)

text \<open>The two ways in which \<open>begin\<close> ends: it answers at once, or it adds an entry and writes.\<close>

definition is_owner :: "string \<Rightarrow> idempotency_answer \<Rightarrow> bool" where
  "is_owner k a \<longleftrightarrow> (\<exists>b. a = Owner k b)"

lemma is_owner_simps [simp]:
  "is_owner k (Owner k' b) \<longleftrightarrow> k' = k" "\<not> is_owner k (Replay r)" "\<not> is_owner k Binding_mismatch" "\<not> is_owner k Indeterminate"
  "\<not> is_owner k Completed" "\<not> is_owner k (Threw err)"
  by (simp_all add: is_owner_def)

lemma begin_cases:
  assumes "begin_write sha canon time_of iso_of cfg now now' key b s = (a, s1)"
  obtains (answered) m where "m = wi_entries s \<or> m = pruneCompleted time_of cfg now (wi_entries s)" "s1 = s\<lparr>wi_entries := m\<rparr>"
      "\<And>k. \<forall>x \<in> set a. \<not> is_owner k x"
  | (asked) k m where "hashKey sha canon key = Inr k" "m = pruneCompleted time_of cfg now (wi_entries s)" "map_of m k = None" "length m < ic_maxEntries cfg"
      "persist cfg (Owner k b) (s\<lparr>wi_entries := AList.update k (pending_entry k b (iso_of now')) m\<rparr>) = (a, s1)"
proof (cases "hashKey sha canon key")
  case (Inl err)
  then show thesis using assms by (intro answered [of "wi_entries s"]) (auto simp: begin_write_def)
next
  case (Inr k)
  let ?m = "pruneCompleted time_of cfg now (wi_entries s)"
  show thesis
  proof (cases "map_of ?m k = None \<and> length ?m < ic_maxEntries cfg")
    case True
    then show thesis using assms Inr by (intro asked [of k ?m]) (auto simp: begin_write_def Let_def)
  next
    case False
    then show thesis using assms Inr
      by (intro answered [of ?m]) (auto simp: begin_write_def Let_def split: option.splits if_splits)
  qed
qed

lemma complete_cases:
  assumes "complete_write iso_of cfg now k b r s = (a, s1)"
  obtains (refused) "s1 = s" "\<And>k. \<forall>x \<in> set a. \<not> is_owner k x"
  | (matched) prior where "map_of (wi_entries s) k = Some prior" "entry_string prior ''binding'' = b"
      "persist cfg Completed (s\<lparr>wi_entries := AList.update k (completed_entry k b (entry_string prior ''created_at'') (iso_of now) r) (wi_entries s)\<rparr>) = (a, s1)"
proof (cases "map_of (wi_entries s) k")
  case None
  then show thesis using assms by (intro refused) (auto simp: complete_write_def)
next
  case (Some prior)
  show thesis
  proof (cases "entry_string prior ''binding'' = b")
    case True
    then show thesis using assms Some by (intro matched [of prior]) (auto simp: complete_write_def)
  next
    case False
    then show thesis using assms Some by (intro refused) (auto simp: complete_write_def)
  qed
qed

lemma persist_cases:
  assumes "persist cfg x s = (a, s1)" and "ic_stateFile cfg"
  obtains (broken) "s1 = s" "a = [Threw ''write failed'']" "wi_broken s"
  | (queued) "a = []" "s1 = s\<lparr>wi_writes := wi_writes s @ [(state_json (ic_profile cfg) (wi_entries s), x)]\<rparr>" "\<not> wi_broken s"
  using assms by (auto simp: persist_def split: if_splits)

lemma write_ends_cases:
  assumes "write_ends ok s = (a, s1)"
  obtains (idle) "a = []" "s1 = s" "wi_writes s = []"
  | (written) snapshot answer later where "wi_writes s = (snapshot, answer) # later" "ok" "a = [answer]"
      "s1 = s\<lparr>wi_file := Some snapshot, wi_writes := later\<rparr>"
  | (failed) "\<And>k. \<forall>x \<in> set a. \<not> is_owner k x" "\<not> ok" "wi_writes s \<noteq> []" "s1 = s\<lparr>wi_writes := [], wi_broken := True\<rparr>"
  using assms by (auto simp: write_ends_def split: list.splits if_splits)

lemma sound_persist:
  assumes "persist cfg x s = (a, s1)" and "sound_store cfg s"
  shows "sound_store cfg s1"
  using assms by (auto simp: persist_def sound_store_def load_saved split: if_splits)

lemma sound_entries: "sound_store cfg s \<Longrightarrow> ok_entries m \<Longrightarrow> sound_store cfg (s\<lparr>wi_entries := m\<rparr>)"
  by (simp add: sound_store_def)

lemma sound_step:
  assumes "idempotency_step sha canon time_of iso_of cfg e s = (a, s1)" and "sound_store cfg s"
  shows "sound_store cfg s1"
proof (cases e)
  case (Begin now now' key b)
  with assms have "begin_write sha canon time_of iso_of cfg now now' key b s = (a, s1)" by (simp add: idempotency_step_def)
  then show ?thesis
  proof (cases rule: begin_cases)
    case (answered m)
    then show ?thesis using assms(2) ok_prune by (auto simp: sound_store_def)
  next
    case (asked k m)
    have "ok_entries m" using assms(2) ok_prune by (simp add: asked(2) sound_store_def)
    then show ?thesis using sound_persist [OF asked(5)] sound_entries [OF assms(2)] ok_update by simp
  qed
next
  case (Complete now k b r)
  with assms have "complete_write iso_of cfg now k b r s = (a, s1)" by (simp add: idempotency_step_def)
  then show ?thesis
  proof (cases rule: complete_cases)
    case (matched prior)
    have "ok_entries (wi_entries s)" using assms(2) by (simp add: sound_store_def)
    then show ?thesis using sound_persist [OF matched(3)] sound_entries [OF assms(2)] ok_update by simp
  qed (use assms(2) in simp)
next
  case (Write_ends ok)
  then have "write_ends ok s = (a, s1)" using assms by (simp add: idempotency_step_def)
  then show ?thesis using assms(2) by (cases rule: write_ends_cases) (auto simp: sound_store_def)
next
  case Restart
  then show ?thesis using assms by (auto simp: idempotency_step_def createWriteIdempotencyStore_def sound_store_def ok_entries_def)
qed

section \<open>A key is given to one owner\<close>

text \<open>A key whose ownership was answered is pending in memory, in the file and in every snapshot that is still to be
  written; while the write for its owner is under way, from this snapshot on.\<close>

definition saved_pending :: "idempotency_config \<Rightarrow> string \<Rightarrow> json \<times> idempotency_answer \<Rightarrow> bool" where
  "saved_pending cfg k w \<longleftrightarrow> pending_in (loadState (ic_profile cfg) (Some (fst w))) k"

definition unowned :: "string \<Rightarrow> write_idempotency \<Rightarrow> bool" where
  "unowned k s \<longleftrightarrow> (\<forall>w \<in> set (wi_writes s). \<not> is_owner k (snd w))"

definition asked_for :: "idempotency_config \<Rightarrow> string \<Rightarrow> write_idempotency \<Rightarrow> bool" where
  "asked_for cfg k s \<longleftrightarrow> pending_in (wi_entries s) k \<and> (\<exists>before w later. wi_writes s = before @ w # later
     \<and> is_owner k (snd w) \<and> (\<forall>x \<in> set (before @ later). \<not> is_owner k (snd x)) \<and> (\<forall>x \<in> set (w # later). saved_pending cfg k x))"

definition held :: "idempotency_config \<Rightarrow> string \<Rightarrow> write_idempotency \<Rightarrow> bool" where
  "held cfg k s \<longleftrightarrow> pending_in (wi_entries s) k \<and> pending_in (loadState (ic_profile cfg) (wi_file s)) k
     \<and> (\<forall>x \<in> set (wi_writes s). \<not> is_owner k (snd x) \<and> saved_pending cfg k x)"

definition completes :: "string \<Rightarrow> idempotency_event \<Rightarrow> bool" where
  "completes k e \<longleftrightarrow> (\<exists>now b r. e = Complete now k b r)"

text \<open>A step that neither completes the key nor ends a write or the process only adds to the chain.\<close>

definition quiet :: "idempotency_config \<Rightarrow> string \<Rightarrow> idempotency_answer list \<Rightarrow> write_idempotency \<Rightarrow> write_idempotency \<Rightarrow> bool" where
  "quiet cfg k a s s1 \<longleftrightarrow> (\<forall>x \<in> set a. \<not> is_owner k x) \<and> wi_file s1 = wi_file s
    \<and> (pending_in (wi_entries s) k \<longrightarrow> pending_in (wi_entries s1) k
        \<and> (wi_writes s1 = wi_writes s \<or> (\<exists>w. wi_writes s1 = wi_writes s @ [w] \<and> \<not> is_owner k (snd w) \<and> saved_pending cfg k w)))
    \<and> (wi_writes s1 = wi_writes s \<or> (\<exists>w. wi_writes s1 = wi_writes s @ [w]
        \<and> (is_owner k (snd w) \<longrightarrow> pending_in (wi_entries s1) k \<and> saved_pending cfg k w)))"

lemma quiet_entries:
  assumes "\<forall>x \<in> set a. \<not> is_owner k x" and "pending_in (wi_entries s) k \<Longrightarrow> pending_in m k"
  shows "quiet cfg k a s (s\<lparr>wi_entries := m\<rparr>)"
  using assms by (simp add: quiet_def)

lemma quiet_persist:
  assumes "persist cfg x (s\<lparr>wi_entries := m\<rparr>) = (a, s1)" and "ic_stateFile cfg" and "ok_entries m"
    and owner: "is_owner k x \<Longrightarrow> pending_in m k" and keep: "pending_in (wi_entries s) k \<Longrightarrow> pending_in m k \<and> \<not> is_owner k x"
  shows "quiet cfg k a s s1"
  using assms(1, 2)
proof (cases rule: persist_cases)
  case broken
  then show ?thesis using quiet_entries [of a k s m cfg] keep by simp
next
  case queued
  have saved: "saved_pending cfg k (state_json (ic_profile cfg) m, x) \<longleftrightarrow> pending_in m k"
    by (simp add: saved_pending_def load_saved [OF assms(3)])
  have s1: "wi_writes s1 = wi_writes s @ [(state_json (ic_profile cfg) m, x)]" "wi_entries s1 = m" "wi_file s1 = wi_file s" "a = []"
    using queued by simp_all
  show ?thesis unfolding quiet_def s1 using owner keep saved by simp
qed

lemma quiet_step:
  assumes "idempotency_step sha canon time_of iso_of cfg e s = (a, s1)" and "sound_store cfg s" and "ic_stateFile cfg" and "\<not> completes k e"
    and "e \<noteq> Restart" and "\<And>ok. e \<noteq> Write_ends ok"
  shows "quiet cfg k a s s1"
proof (cases e)
  case (Begin now now' key b)
  have ok: "ok_entries (wi_entries s)" using assms(2) by (simp add: sound_store_def)
  from Begin assms(1) have "begin_write sha canon time_of iso_of cfg now now' key b s = (a, s1)" by (simp add: idempotency_step_def)
  then show ?thesis
  proof (cases rule: begin_cases)
    case (answered m)
    have "pending_in m k" if "pending_in (wi_entries s) k" using answered(1) prune_keeps_pending [OF ok that] that by auto
    then show ?thesis unfolding answered(2) by (rule quiet_entries [OF answered(3)])
  next
    case (asked k' m)
    have m: "ok_entries m" unfolding asked(2) by (rule ok_prune [OF ok])
    have keep: "pending_in m k \<and> k \<noteq> k'" if "pending_in (wi_entries s) k"
    proof
      show "pending_in m k" unfolding asked(2) by (rule prune_keeps_pending [OF ok that])
      then show "k \<noteq> k'" using asked(3) by (auto simp: pending_in_def)
    qed
    show ?thesis
    proof (rule quiet_persist [OF asked(5) assms(3) ok_update [OF m]])
      show "pending_in (AList.update k' (pending_entry k' b (iso_of now')) m) k" if "is_owner k (Owner k' b)"
        using new_pending [OF m asked(3)] that by simp
      show "pending_in (AList.update k' (pending_entry k' b (iso_of now')) m) k \<and> \<not> is_owner k (Owner k' b)" if "pending_in (wi_entries s) k"
        using keep [OF that] update_keeps_pending [of k k' m] by auto
    qed simp_all
  qed
next
  case (Complete now k' b r)
  have ok: "ok_entries (wi_entries s)" using assms(2) by (simp add: sound_store_def)
  from Complete assms(1) have "complete_write iso_of cfg now k' b r s = (a, s1)" by (simp add: idempotency_step_def)
  then show ?thesis
  proof (cases rule: complete_cases)
    case refused
    then show ?thesis by (simp add: quiet_def)
  next
    case (matched prior)
    have "k \<noteq> k'" using assms(4) Complete by (auto simp: completes_def)
    then show ?thesis
      by (intro quiet_persist [OF matched(3) assms(3) ok_update [OF ok]]) (simp_all add: update_keeps_pending)
  qed
qed (use assms(5, 6) in auto)

lemma held_step:
  assumes "idempotency_step sha canon time_of iso_of cfg e s = (a, s1)" and "sound_store cfg s" and "ic_stateFile cfg" and "\<not> completes k e"
    and "held cfg k s"
  shows "held cfg k s1 \<and> (\<forall>x \<in> set a. \<not> is_owner k x)"
proof -
  consider (ends) ok where "e = Write_ends ok" | (restart) "e = Restart" | (quiet) "e \<noteq> Restart" "\<And>ok. e \<noteq> Write_ends ok" by blast
  then show ?thesis
  proof cases
    case (ends ok)
    then have "write_ends ok s = (a, s1)" using assms(1) by (simp add: idempotency_step_def)
    then show ?thesis using assms(5) by (cases rule: write_ends_cases) (auto simp: held_def saved_pending_def)
  next
    case restart
    then show ?thesis using assms(1, 3, 5) by (auto simp: idempotency_step_def createWriteIdempotencyStore_def held_def)
  next
    case quiet
    from quiet_step [OF assms(1-4) quiet] assms(5) show ?thesis unfolding held_def quiet_def by auto
  qed
qed

lemma unowned_step:
  assumes "idempotency_step sha canon time_of iso_of cfg e s = (a, s1)" and "sound_store cfg s" and "ic_stateFile cfg" and "\<not> completes k e"
    and "unowned k s"
  shows "(unowned k s1 \<or> asked_for cfg k s1) \<and> (\<forall>x \<in> set a. \<not> is_owner k x)"
proof -
  consider (ends) ok where "e = Write_ends ok" | (restart) "e = Restart" | (quiet) "e \<noteq> Restart" "\<And>ok. e \<noteq> Write_ends ok" by blast
  then show ?thesis
  proof cases
    case (ends ok)
    then have "write_ends ok s = (a, s1)" using assms(1) by (simp add: idempotency_step_def)
    then show ?thesis using assms(5) by (cases rule: write_ends_cases) (auto simp: unowned_def)
  next
    case restart
    then show ?thesis using assms(1) by (auto simp: idempotency_step_def createWriteIdempotencyStore_def unowned_def)
  next
    case quiet
    note q = quiet_step [OF assms(1-4) quiet, unfolded quiet_def]
    show ?thesis
    proof (cases "unowned k s1")
      case True with q show ?thesis by blast
    next
      case False
      with q assms(5) obtain w where w: "wi_writes s1 = wi_writes s @ [w]" "is_owner k (snd w)" "pending_in (wi_entries s1) k" "saved_pending cfg k w"
        unfolding unowned_def by auto
      then have "asked_for cfg k s1" using assms(5) unfolding asked_for_def unowned_def
        by (intro conjI exI [of _ "wi_writes s"] exI [of _ w] exI [of _ "[]"]) auto
      with q show ?thesis by blast
    qed
  qed
qed

lemma asked_step:
  assumes "idempotency_step sha canon time_of iso_of cfg e s = (a, s1)" and "sound_store cfg s" and "ic_stateFile cfg" and "\<not> completes k e"
    and "asked_for cfg k s"
  shows "(unowned k s1 \<or> asked_for cfg k s1) \<and> (\<forall>x \<in> set a. \<not> is_owner k x)
    \<or> held cfg k s1 \<and> length (filter (is_owner k) a) = 1"
proof -
  obtain before w later where split: "wi_writes s = before @ w # later" and pend: "pending_in (wi_entries s) k"
    and w: "is_owner k (snd w)" "\<forall>x \<in> set (before @ later). \<not> is_owner k (snd x)" "\<forall>x \<in> set (w # later). saved_pending cfg k x"
    using assms(5) unfolding asked_for_def by blast
  consider (ends) ok where "e = Write_ends ok" | (restart) "e = Restart" | (quiet) "e \<noteq> Restart" "\<And>ok. e \<noteq> Write_ends ok" by blast
  then show ?thesis
  proof cases
    case (ends ok)
    then have "write_ends ok s = (a, s1)" using assms(1) by (simp add: idempotency_step_def)
    then show ?thesis
    proof (cases rule: write_ends_cases)
      case idle with split show ?thesis by simp
    next
      case (written snapshot answer rest)
      show ?thesis
      proof (cases before)
        case Nil
        then have "w = (snapshot, answer)" "later = rest" using split written(1) by simp_all
        then show ?thesis using written(3, 4) w pend by (auto simp: held_def saved_pending_def)
      next
        case (Cons x before')
        then have "x = (snapshot, answer)" "rest = before' @ w # later" using split written(1) by simp_all
        have "asked_for cfg k s1" unfolding asked_for_def
          using \<open>rest = before' @ w # later\<close> written(4) w pend Cons by (intro conjI exI [of _ before'] exI [of _ w] exI [of _ later]) auto
        moreover have "\<not> is_owner k answer" using w(2) Cons \<open>x = (snapshot, answer)\<close> by auto
        ultimately show ?thesis using written(3) by simp
      qed
    next
      case failed
      then show ?thesis by (auto simp: unowned_def)
    qed
  next
    case restart
    then show ?thesis using assms(1) by (auto simp: idempotency_step_def createWriteIdempotencyStore_def unowned_def)
  next
    case quiet
    from quiet_step [OF assms(1-4) quiet, unfolded quiet_def] pend
    have q: "\<forall>x \<in> set a. \<not> is_owner k x" "pending_in (wi_entries s1) k"
      "wi_writes s1 = wi_writes s \<or> (\<exists>v. wi_writes s1 = wi_writes s @ [v] \<and> \<not> is_owner k (snd v) \<and> saved_pending cfg k v)" by blast+
    then have "\<exists>more. wi_writes s1 = before @ w # later @ more \<and> (\<forall>x \<in> set more. \<not> is_owner k (snd x) \<and> saved_pending cfg k x)"
      using split by (metis append_Cons append_assoc append_Nil2 empty_iff list.set(1) list.set(2) insertE)
    then obtain more where "wi_writes s1 = before @ w # later @ more" "\<forall>x \<in> set more. \<not> is_owner k (snd x) \<and> saved_pending cfg k x" by blast
    then have "asked_for cfg k s1" using w q(2) unfolding asked_for_def
      by (intro conjI exI [of _ before] exI [of _ w] exI [of _ "later @ more"]) auto
    with q(1) show ?thesis by blast
  qed
qed

lemma run_owners:
  assumes "idempotency_run sha canon time_of iso_of cfg es s = (answers, s')" and "sound_store cfg s" and "ic_stateFile cfg"
    and "\<forall>e \<in> set es. \<not> completes k e"
  shows "(held cfg k s \<longrightarrow> filter (is_owner k) answers = []) \<and> (unowned k s \<or> asked_for cfg k s \<longrightarrow> length (filter (is_owner k) answers) \<le> 1)"
  using assms
proof (induction es arbitrary: s answers)
  case (Cons e es)
  obtain a s1 where step: "idempotency_step sha canon time_of iso_of cfg e s = (a, s1)" by fastforce
  obtain answers' where run: "idempotency_run sha canon time_of iso_of cfg es s1 = (answers', s')" and split: "answers = a @ answers'"
    using Cons.prems(1) step by (auto split: prod.splits)
  have e: "\<not> completes k e" and rest: "\<forall>e \<in> set es. \<not> completes k e" using Cons.prems(4) by simp_all
  note IH = Cons.IH [OF run sound_step [OF step Cons.prems(2)] Cons.prems(3) rest]
  have none: "filter (is_owner k) a = []" if "\<forall>x \<in> set a. \<not> is_owner k x" using that by (simp add: filter_empty_conv)
  have "filter (is_owner k) answers = []" if "held cfg k s"
    using held_step [OF step Cons.prems(2, 3) e that] IH none split by simp
  moreover have "length (filter (is_owner k) answers) \<le> 1" if "unowned k s \<or> asked_for cfg k s"
  proof -
    from that have "(unowned k s1 \<or> asked_for cfg k s1) \<and> (\<forall>x \<in> set a. \<not> is_owner k x) \<or> held cfg k s1 \<and> length (filter (is_owner k) a) = 1"
      using unowned_step [OF step Cons.prems(2, 3) e] asked_step [OF step Cons.prems(2, 3) e] by blast
    with IH none split show ?thesis by auto
  qed
  ultimately show ?case by blast
qed simp

text \<open>C15: one owner. However calls, ends of writes, failed writes and restarts follow one another, a key that nobody
  completes is given to at most one owner: the write behind it runs at most once until its outcome is
  known, also across crashes. The file may hold anything whose entries are under their own keys.\<close>

theorem owner_once:
  assumes "idempotency_run sha canon time_of iso_of cfg es (createWriteIdempotencyStore cfg file) = (answers, s)"
    and "ok_entries (loadState (ic_profile cfg) file)" and "ic_stateFile cfg" and "\<forall>e \<in> set es. \<not> completes k e"
  shows "length (filter (is_owner k) answers) \<le> 1"
proof -
  have "sound_store cfg (createWriteIdempotencyStore cfg file)" "unowned k (createWriteIdempotencyStore cfg file)"
    using assms(2, 3) by (simp_all add: sound_store_def unowned_def createWriteIdempotencyStore_def)
  with run_owners [OF assms(1) _ assms(3, 4)] show ?thesis by blast
qed

section \<open>Repetitions get the first result\<close>

lemma length_prune: "length (pruneCompleted time_of cfg now m) \<le> length m"
proof -
  have step: "length (prune_step time_of cfg c e m) \<le> length m" for c e m by (simp add: prune_step_def length_delete_le)
  have "length (fold (prune_step time_of cfg c) es m) \<le> length m" for c es
  proof (induction es arbitrary: m)
    case (Cons e es)
    show ?case using Cons [of "prune_step time_of cfg c e m"] step [of c e m] by simp
  qed simp
  then show ?thesis by (simp add: pruneCompleted_def)
qed

text \<open>With room, pruning keeps what is young enough.\<close>

lemma prune_keeps_young:
  assumes "length m < ic_maxEntries cfg" and "ok_entries m" and "map_of m k = Some e" and "time_of (entry_string e ''updated_at'') = Some t"
    and "now - ic_windowMs cfg \<le> t" and "distinct (map fst m)"
  shows "map_of (pruneCompleted time_of cfg now m) k = Some e"
proof -
  let ?c = "now - ic_windowMs cfg"
  have "map_of (fold (prune_step time_of cfg ?c) es m') k = Some e"
    if "length m' < ic_maxEntries cfg" "map_of m' k = Some e" "\<forall>x \<in> set es. entry_string x ''key_hash'' = k \<longrightarrow> x = e" for es m'
    using that
  proof (induction es arbitrary: m')
    case (Cons x es)
    have "map_of (prune_step time_of cfg ?c x m') k = Some e"
    proof (cases "entry_string x ''key_hash'' = k")
      case True
      then have "x = e" using Cons.prems(3) by simp
      with Cons.prems(1, 2) assms(4, 5) show ?thesis by (simp add: prune_step_def)
    next
      case False
      then show ?thesis using Cons.prems(2) by (simp add: prune_step_other)
    qed
    moreover have "length (prune_step time_of cfg ?c x m') < ic_maxEntries cfg"
      using Cons.prems(1) length_delete_le [of "entry_string x ''key_hash''" m'] by (auto simp: prune_step_def)
    ultimately show ?case using Cons.IH Cons.prems(3) by simp
  qed simp
  moreover have "x = e" if "x \<in> set (map snd m)" "entry_string x ''key_hash'' = k" for x
    using ok_entries_member [OF assms(2) that] assms(3, 6) by (metis map_of_is_SomeI option.inject)
  ultimately show ?thesis unfolding pruneCompleted_def using assms(1, 3) by simp
qed

definition settled :: "idempotency_config \<Rightarrow> string \<Rightarrow> json \<Rightarrow> nat \<Rightarrow> js_object \<Rightarrow> bool" where
  "settled cfg k e n m \<longleftrightarrow> map_of m k = Some e \<and> ok_entries m \<and> distinct (map fst m) \<and> length m + n < ic_maxEntries cfg"

lemma settled_prune:
  assumes "settled cfg k e n m" and "time_of (entry_string e ''updated_at'') = Some t" and "now - ic_windowMs cfg \<le> t"
  shows "settled cfg k e n (pruneCompleted time_of cfg now m)"
proof -
  have "distinct (map fst (prune_step time_of cfg c x m))" if "distinct (map fst m)" for c x m
    using that by (simp add: prune_step_def distinct_delete)
  then have "distinct (map fst (fold (prune_step time_of cfg c) xs m))" if "distinct (map fst m)" for c xs m
    using that by (induction xs arbitrary: m) simp_all
  then have "distinct (map fst (pruneCompleted time_of cfg now m))" using assms(1) by (simp add: settled_def pruneCompleted_def)
  moreover have "map_of (pruneCompleted time_of cfg now m) k = Some e"
    using assms(1) by (intro prune_keeps_young [of m cfg k e time_of t now, OF _ _ _ assms(2, 3)]) (simp_all add: settled_def)
  ultimately show ?thesis using assms(1) ok_prune [of m] length_prune [of time_of cfg now m] by (simp add: settled_def)
qed

lemma settled_update:
  assumes "settled cfg k e (Suc n) m" and "k' \<noteq> k" and "isEntry x" and "entry_string x ''key_hash'' = k'"
  shows "settled cfg k e n (AList.update k' x m)"
proof -
  have "length (AList.update k' x m) + n < ic_maxEntries cfg"
    using assms(1) length_update_le [of k' x m] by (simp only: settled_def) linarith
  with assms ok_update [OF _ assms(3, 4), of m] show ?thesis by (simp add: settled_def update_conv' distinct_update)
qed

lemma persist_entries: "persist cfg x s = (a, s1) \<Longrightarrow> wi_entries s1 = wi_entries s"
  by (auto simp: persist_def split: if_splits)

lemma settled_step:
  assumes "idempotency_step sha canon time_of iso_of cfg ev s = (a, s1)" and "settled cfg k e (Suc n) (wi_entries s)"
    and "time_of (entry_string e ''updated_at'') = Some t" and "\<not> completes k ev" and "ev \<noteq> Restart"
    and "\<forall>now now' key b. ev = Begin now now' key b \<longrightarrow> now - ic_windowMs cfg \<le> t"
  shows "settled cfg k e n (wi_entries s1)"
proof (cases ev)
  case (Begin now now' key b)
  with assms(1) have "begin_write sha canon time_of iso_of cfg now now' key b s = (a, s1)" by (simp add: idempotency_step_def)
  moreover have pruned: "settled cfg k e (Suc n) (pruneCompleted time_of cfg now (wi_entries s))"
    using settled_prune [where time_of = time_of and t = t, OF assms(2, 3)] assms(6) Begin by blast
  ultimately show ?thesis
  proof (cases rule: begin_cases)
    case (answered m)
    then show ?thesis using pruned assms(2) by (auto simp: settled_def)
  next
    case (asked k' m)
    have "k' \<noteq> k" using pruned asked(2, 3) by (auto simp: settled_def)
    with pruned show ?thesis using persist_entries [OF asked(5)] settled_update asked(2) by simp
  qed
next
  case (Complete now k' b r)
  with assms(1) have "complete_write iso_of cfg now k' b r s = (a, s1)" by (simp add: idempotency_step_def)
  then show ?thesis
  proof (cases rule: complete_cases)
    case refused
    then show ?thesis using assms(2) by (simp add: settled_def)
  next
    case (matched prior)
    have "k' \<noteq> k" using assms(4) Complete by (auto simp: completes_def)
    with assms(2) show ?thesis using persist_entries [OF matched(3)] settled_update by simp
  qed
next
  case (Write_ends ok)
  then have "write_ends ok s = (a, s1)" using assms by (simp add: idempotency_step_def)
  then show ?thesis using assms(2) by (cases rule: write_ends_cases) (auto simp: settled_def)
qed (use assms(5) in simp)

lemma settled_run:
  assumes "idempotency_run sha canon time_of iso_of cfg es s = (a, s1)" and "settled cfg k e (n + length es) (wi_entries s)"
    and "time_of (entry_string e ''updated_at'') = Some t" and "\<forall>ev \<in> set es. \<not> completes k ev \<and> ev \<noteq> Restart"
    and "\<forall>now now' key b. Begin now now' key b \<in> set es \<longrightarrow> now - ic_windowMs cfg \<le> t"
  shows "settled cfg k e n (wi_entries s1)"
  using assms
proof (induction es arbitrary: s a)
  case (Cons ev es)
  obtain a' s' where step: "idempotency_step sha canon time_of iso_of cfg ev s = (a', s')" by fastforce
  obtain a'' where run: "idempotency_run sha canon time_of iso_of cfg es s' = (a'', s1)" using Cons.prems(1) step by (auto split: prod.splits)
  have "settled cfg k e (Suc (n + length es)) (wi_entries s)" using Cons.prems(2) by simp
  from settled_step [OF step this Cons.prems(3)] have "settled cfg k e (n + length es) (wi_entries s')" using Cons.prems(4, 5) by auto
  moreover have "\<forall>ev \<in> set es. \<not> completes k ev \<and> ev \<noteq> Restart" using Cons.prems(4) by simp
  moreover have "\<forall>now now' key b. Begin now now' key b \<in> set es \<longrightarrow> now - ic_windowMs cfg \<le> t" using Cons.prems(5) by (metis list.set_intros(2))
  ultimately show ?case by (rule Cons.IH [OF run _ Cons.prems(3)])
qed simp

text \<open>C28: repetitions. A write that was completed is repeated, after any other calls and writes: while its time window
  lasts, the store has room and the process runs, the repetition is answered with the first result, and another
  action under the same key is refused. Neither is given to an owner.\<close>

theorem repetition_replays:
  assumes "hashKey sha canon key = Inr k" and "map_of (wi_entries s) k = Some (completed_entry k b created (iso_of t) r)"
    and "ok_entries (wi_entries s)" and "distinct (map fst (wi_entries s))" and "length (wi_entries s) + length es < ic_maxEntries cfg"
    and "time_of (iso_of t) = Some t" and "\<forall>ev \<in> set es. \<not> completes k ev \<and> ev \<noteq> Restart"
    and "\<forall>now now' key b. Begin now now' key b \<in> set es \<longrightarrow> now - ic_windowMs cfg \<le> t" and "now - ic_windowMs cfg \<le> t"
    and "idempotency_run sha canon time_of iso_of cfg es s = (answers, s1)"
  shows "fst (begin_write sha canon time_of iso_of cfg now now' key b' s1) = [if b' = b then Replay (JObj r) else Binding_mismatch]"
proof -
  let ?e = "completed_entry k b created (iso_of t) r"
  have e: "time_of (entry_string ?e ''updated_at'') = Some t" using assms(6) by simp
  have "settled cfg k ?e (0 + length es) (wi_entries s)" using assms(2-5) by (simp add: settled_def)
  from settled_run [OF assms(10) this e assms(7, 8)] have "settled cfg k ?e 0 (wi_entries s1)" .
  from settled_prune [where time_of = time_of and t = t, OF this e assms(9)] have "map_of (pruneCompleted time_of cfg now (wi_entries s1)) k = Some ?e" by (simp add: settled_def)
  then show ?thesis by (auto simp: begin_write_def assms(1) Let_def)
qed

section \<open>Room and failed writes\<close>

text \<open>The store is bounded. A store that starts with at most its maximum of entries never holds more.\<close>

theorem entries_bounded:
  assumes "idempotency_run sha canon time_of iso_of cfg es s = (answers, s1)" and "length (wi_entries s) \<le> ic_maxEntries cfg"
    and "Restart \<notin> set es"
  shows "length (wi_entries s1) \<le> ic_maxEntries cfg"
  using assms
proof (induction es arbitrary: s answers)
  case (Cons ev es)
  obtain a s' where step: "idempotency_step sha canon time_of iso_of cfg ev s = (a, s')" by fastforce
  obtain a' where run: "idempotency_run sha canon time_of iso_of cfg es s' = (a', s1)" using Cons.prems(1) step by (auto split: prod.splits)
  have "length (wi_entries s') \<le> ic_maxEntries cfg"
  proof (cases ev)
    case (Begin now now' key b)
    with step have "begin_write sha canon time_of iso_of cfg now now' key b s = (a, s')" by (simp add: idempotency_step_def)
    then show ?thesis
    proof (cases rule: begin_cases)
      case (answered m)
      then show ?thesis using Cons.prems(2) length_prune [of time_of cfg now "wi_entries s"] by auto
    next
      case (asked k m)
      have "length (AList.update k (pending_entry k b (iso_of now')) m) \<le> Suc (length m)" by (rule length_update_le)
      then have "length (AList.update k (pending_entry k b (iso_of now')) m) \<le> ic_maxEntries cfg" using asked(4) by linarith
      then show ?thesis using persist_entries [OF asked(5)] by simp
    qed
  next
    case (Complete now k b r)
    with step have "complete_write iso_of cfg now k b r s = (a, s')" by (simp add: idempotency_step_def)
    then show ?thesis
    proof (cases rule: complete_cases)
      case (matched prior)
      have "length (AList.update k x (wi_entries s)) = length (wi_entries s)" for x
        using jsmap.length_put_old [of "wi_entries s" k x] matched(1) by simp
      then show ?thesis using persist_entries [OF matched(3)] Cons.prems(2) by simp
    qed (use Cons.prems(2) in simp)
  next
    case (Write_ends ok)
    then have "write_ends ok s = (a, s')" using step by (simp add: idempotency_step_def)
    then show ?thesis using Cons.prems(2) by (cases rule: write_ends_cases) auto
  qed (use Cons.prems(3) in simp)
  with Cons.IH [OF run] Cons.prems(3) show ?case by simp
qed simp

lemma blocked_run:
  assumes "idempotency_run sha canon time_of iso_of cfg es s = (answers, s1)" and "wi_broken s" "wi_writes s = []" and "Restart \<notin> set es"
    and "ic_stateFile cfg"
  shows "wi_broken s1 \<and> (\<forall>x \<in> set answers. x \<noteq> Completed \<and> (\<forall>k b. x \<noteq> Owner k b))"
  using assms(1-4)
proof (induction es arbitrary: s answers)
  case (Cons ev es)
  obtain a s' where step: "idempotency_step sha canon time_of iso_of cfg ev s = (a, s')" by fastforce
  obtain a' where run: "idempotency_run sha canon time_of iso_of cfg es s' = (a', s1)" "answers = a @ a'"
    using Cons.prems(1) step by (auto split: prod.splits)
  have "wi_broken s' \<and> wi_writes s' = [] \<and> (\<forall>x \<in> set a. x \<noteq> Completed \<and> (\<forall>k b. x \<noteq> Owner k b))"
    using step Cons.prems(2-4) assms(5)
    by (cases ev) (auto simp: idempotency_step_def begin_write_def complete_write_def write_ends_def persist_def Let_def
      split: sum.splits option.splits if_splits)
  moreover have "Restart \<notin> set es" using Cons.prems(4) by simp
  ultimately show ?case using Cons.IH [OF run(1)] unfolding run(2) set_append by blast
qed simp

text \<open>One failed write blocks all later ones. After a write of the state file fails, nobody becomes the owner of a
  key and no completion succeeds until the process restarts, whatever the later writes would have done.\<close>

theorem failed_write_blocks:
  assumes "wi_writes s \<noteq> []" and "ic_stateFile cfg" and "Restart \<notin> set es"
    and "idempotency_run sha canon time_of iso_of cfg (Write_ends False # es) s = (answers, s1)"
  shows "wi_broken s1 \<and> (\<forall>x \<in> set answers. x \<noteq> Completed \<and> (\<forall>k b. x \<noteq> Owner k b))"
proof -
  obtain a s' where step: "idempotency_step sha canon time_of iso_of cfg (Write_ends False) s = (a, s')" by fastforce
  obtain a' where run: "idempotency_run sha canon time_of iso_of cfg es s' = (a', s1)" "answers = a @ a'"
    using assms(4) step by (auto split: prod.splits)
  have first: "wi_broken s'" "wi_writes s' = []" "\<forall>x \<in> set a. x \<noteq> Completed \<and> (\<forall>k b. x \<noteq> Owner k b)"
    using step assms(1) by (auto simp: idempotency_step_def write_ends_def split: list.splits)
  from blocked_run [OF run(1) first(1, 2) assms(3, 2)] first(3) show ?thesis unfolding run(2) set_append by blast
qed

section \<open>Runs\<close>

definition run_config :: idempotency_config where
  "run_config = \<lparr>ic_profile = ''p'', ic_stateFile = True, ic_windowMs = 10, ic_maxEntries = 9\<rparr>"

definition run_iso :: "int \<Rightarrow> string" where
  "run_iso n = replicate (nat n) (CHR ''i'')"

definition run_time :: "string \<Rightarrow> int option" where
  "run_time s = Some (int (length s))"

definition run_events :: "idempotency_event list \<Rightarrow> write_idempotency \<Rightarrow> idempotency_answer list \<times> write_idempotency" where
  "run_events = idempotency_run (\<lambda>x. x) (\<lambda>v. str_of (Some v)) run_time run_iso run_config"

definition run_hash :: "string \<Rightarrow> string" where
  "run_hash key = sha256_prefix @ hexEncode (encode_utf8 key)"

lemma run_answers:
  "fst (run_events [Begin 1 1 ''x'' ''b'', Write_ends True, Restart, Begin 2 2 ''x'' ''b'', Begin 2 2 ''x'' ''c''] (createWriteIdempotencyStore run_config None))
    = [Owner (run_hash ''x'') ''b'', Indeterminate, Binding_mismatch]"
  by code_simp

theorem owner_once_witness:
  "length (filter (is_owner (run_hash ''x'')) (fst (run_events
     [Begin 1 1 ''x'' ''b'', Write_ends True, Restart, Begin 2 2 ''x'' ''b'', Begin 2 2 ''x'' ''c''] (createWriteIdempotencyStore run_config None)))) \<le> 1"
proof -
  let ?es = "[Begin 1 1 ''x'' ''b'', Write_ends True, Restart, Begin 2 2 ''x'' ''b'', Begin 2 2 ''x'' ''c'']"
  obtain a s where run: "run_events ?es (createWriteIdempotencyStore run_config None) = (a, s)" by fastforce
  moreover have "ok_entries (loadState (ic_profile run_config) None)" "ic_stateFile run_config" "\<forall>e \<in> set ?es. \<not> completes (run_hash ''x'') e"
    by (simp_all add: ok_entries_def loadState_def run_config_def completes_def)
  ultimately show ?thesis using owner_once [OF run [unfolded run_events_def]] by simp
qed

text \<open>A store with one completed write, and with one write of the file under way.\<close>

definition run_completed :: write_idempotency where
  "run_completed = \<lparr>wi_entries = [(run_hash ''x'', completed_entry (run_hash ''x'') ''b'' (run_iso 1) (run_iso 2) [(''n'', JNum 1)])],
     wi_file = None, wi_writes = [], wi_broken = False\<rparr>"

definition run_started :: write_idempotency where
  "run_started = snd (run_events [Begin 1 1 ''x'' ''b''] (createWriteIdempotencyStore run_config None))"

theorem repetition_replays_witness:
  "fst (begin_write (\<lambda>x. x) (\<lambda>v. str_of (Some v)) run_time run_iso run_config 4 4 ''x'' ''b''
     (snd (run_events [Begin 3 3 ''y'' ''c'', Write_ends True] run_completed))) = [Replay (JObj [(''n'', JNum 1)])]"
proof -
  obtain a s where run: "run_events [Begin 3 3 ''y'' ''c'', Write_ends True] run_completed = (a, s)" by fastforce
  have hash: "hashKey (\<lambda>x. x) (\<lambda>v. str_of (Some v)) ''x'' = Inr (run_hash ''x'')" by code_simp
  have entry: "map_of (wi_entries run_completed) (run_hash ''x'')
      = Some (completed_entry (run_hash ''x'') ''b'' (run_iso 1) (run_iso 2) [(''n'', JNum 1)])"
    "ok_entries (wi_entries run_completed)" "distinct (map fst (wi_entries run_completed))" "length (wi_entries run_completed) = 1"
    by (simp_all add: run_completed_def ok_entries_def)
  have "run_time (run_iso 2) = Some 2" by (simp add: run_time_def run_iso_def)
  from repetition_replays [where b' = "''b''" and now = 4 and now' = 4, OF hash entry(1-3) _ this _ _ _ run [unfolded run_events_def]]
  show ?thesis unfolding run by (simp add: entry(4) run_config_def completes_def)
qed

theorem entries_bounded_witness:
  "length (wi_entries (snd (run_events [Begin 3 3 ''y'' ''c'', Write_ends True] run_completed))) \<le> 9"
proof -
  obtain a s where run: "run_events [Begin 3 3 ''y'' ''c'', Write_ends True] run_completed = (a, s)" by fastforce
  have "length (wi_entries run_completed) = 1" by (simp add: run_completed_def)
  with entries_bounded [OF run [unfolded run_events_def]] show ?thesis unfolding run by (simp add: run_config_def)
qed

theorem failed_write_blocks_witness:
  "\<forall>x \<in> set (fst (run_events [Write_ends False, Begin 2 2 ''x'' ''b'', Begin 2 2 ''y'' ''b''] run_started)). \<forall>k b. x \<noteq> Owner k b"
proof -
  obtain a s where run: "run_events [Write_ends False, Begin 2 2 ''x'' ''b'', Begin 2 2 ''y'' ''b''] run_started = (a, s)" by fastforce
  have "wi_writes run_started \<noteq> []" by code_simp
  from failed_write_blocks [OF this _ _ run [unfolded run_events_def]] show ?thesis by (simp add: run run_config_def)
qed

end
