(* ===== verification/Spec2Isabelle.thy ===== *)
theory Spec2Isabelle
  imports Log_Queries Witness_Server Submission_Queue Shares Service_Cases Walk_Cases Body_Archive Write_Idempotency
begin

text \<open>
  \<^bold>\<open>Verification of the core of atrib.\<close>

  atrib is a transparency log for signed records of what software agents do. A producer signs a record
  (\<open>packages/mcp\<close>) and submits it; the log server (\<open>services/log-node\<close>) appends a 90-byte entry to a Merkle log,
  answers with an inclusion proof under a signed checkpoint, and serves tiles, queries and a stream;
  independent witnesses (\<open>services/witness-node\<close>) read checkpoints and tiles, compare them with their history and
  with gossip from other sources, and cosign; verifiers (\<open>packages/verify\<close>) check signatures, proofs and
  cosignature thresholds. An archive (\<open>services/archive-node\<close>) serves the bodies of records by their hash, and the
  daemon (\<open>services/atribd\<close>) lets a client repeat a write safely. The graph service (\<open>services/graph-node\<close>) keeps the records themselves and derives from
  them, context by context, a graph of what preceded and informed what; a calculation over such a graph
  (\<open>verify/src/calculate.ts\<close>) gives each creator a share. The development models these two paths, from the record
  to the cosignature and from the record to the shares.

  \<^bold>\<open>Theories, in the order of their imports\<close>

  \<^item> \<open>Prelude\<close>: results as sums, JavaScript strings as the bytes of their UTF-8 form, decimal numerals, stable
    sorting, insertion-ordered maps; the interfaces \<open>ordered_map\<close>, \<open>state_machine\<close> and \<open>monotone_machine\<close> as locales.
  \<^item> \<open>Encoding\<close> (\<open>mcp/src/base64url.ts\<close>, \<open>hash.ts\<close>): base64url and hexadecimal coding.
  \<^item> \<open>Merkle\<close> (\<open>mcp/src/merkle.ts\<close>): roots, inclusion proofs and verification, complete and, up to collisions of the
    digest, sound.
  \<^item> \<open>Event_Types\<close> (\<open>mcp/src/types.ts\<close>), \<open>Entry\<close> (\<open>mcp/src/entry.ts\<close>, \<open>decodeEntry\<close> of the log server): event type names and the
    entry format with its round trip.
  \<^item> \<open>Log_Tree\<close> (\<open>log-node/src/tree.ts\<close>): the level cache and the durable file; it refines the functions of \<open>Merkle\<close> over any
    sequence of appends (locale \<open>merkle_log\<close> and its interpretation), restarts, and what a torn write does.
  \<^item> \<open>Attribution_Record\<close> (\<open>mcp/src/canon.ts\<close>, \<open>signing.ts\<close>, \<open>validation.ts\<close>, \<open>chain-root.ts\<close>, \<open>commitment.ts\<close>, \<open>token.ts\<close>): canonical
    inputs, signing and verification of records and transactions, commitments, tokens, chain roots.
  \<^item> \<open>Checkpoint\<close> (\<open>log-node/src/checkpoint.ts\<close>, the note functions of \<open>verify/src/witness.ts\<close>): signing and verifying notes.
  \<^item> \<open>Witness\<close> (\<open>verify/src/witness.ts\<close>): cosignatures, thresholds, consistency over leaf hashes.
  \<^item> \<open>Log_Server\<close> (\<open>log-node/src/server.ts\<close>): submission and proof lookup as steps of an event loop, cut where the code
    awaits; the invariant over every interleaving gives that served proofs check.
  \<^item> \<open>Log_Tiles\<close>: tile addresses, hash tiles and entry bundles, the checkpoint endpoint.
  \<^item> \<open>Log_Queries\<close>: the read side of the log server, with the stream of entries as a state machine.
  \<^item> \<open>Gossip\<close> (\<open>verify/src/checkpoint-gossip.ts\<close>): comparison of checkpoints from several sources.
  \<^item> \<open>Tile_Client\<close>, \<open>Witness_Node\<close> (\<open>witness-node/src/witness.ts\<close>, the update of \<open>server.ts\<close>): how a witness reads a log, and one check
    of it from checkpoint to commit.
  \<^item> \<open>Witness_Store\<close> (\<open>witness-node/src/store.ts\<close>): the files of a witness, with the outcome of every write as an argument.
  \<^item> \<open>Witness_Liveness\<close>: the composition of witness and log server: no equivocation against any network, progress
    against an honest log, and the two forks a crash can leave cosigned.
  \<^item> \<open>Witness_Server\<close> (\<open>witness-node/src/server.ts\<close>): the public routes over the store.
  \<^item> \<open>Submission_Queue\<close> (\<open>mcp/src/submission.ts\<close>): the producer's queue with retries, its cap and its proof cache, as steps cut at
    the awaits: nothing is lost silently, cached proofs are the log's, and the one cap at which it hangs.
  \<^item> \<open>Graph_Types\<close> (\<open>verify/src/types.ts\<close>, \<open>revocations.ts\<close>): nodes, edges and responses; the revocation registry and when a
    record counts as signed after a revocation.
  \<^item> \<open>Chain_Components\<close> (\<open>findChainRoot\<close>, \<open>unionChain\<close> of \<open>graph-node/src/graph-builder.ts\<close>): the forest of parent pointers implements
    connectivity (locale \<open>components\<close> and its interpretation), and its walks end.
  \<^item> \<open>Graph_Builder\<close> (\<open>graph-builder.ts\<close>): nodes, the nine steps of edge derivation in both modes, placeholders, \<open>buildGraph\<close>.
  \<^item> \<open>Graph_Edges\<close>, \<open>Built_Graph\<close>, \<open>Compact_Order\<close>: which edges each step adds, in terms of the nodes alone; that a build always
    returns, with a closed graph; who contributes; which order the compact mode keeps. \<open>Graph_Cases\<close>: small sessions, and
    an order that it does not keep.
  \<^item> \<open>Record_Store\<close> (\<open>graph-node/src/store.ts\<close>): the store with its indexes; it refines the list of distinct records.
  \<^item> \<open>Record_Archive\<close> (\<open>graph-node/src/persistence.ts\<close>, the replay of \<open>main.ts\<close>): what a restart restores, and what it loses.
  \<^item> \<open>Graph_Server\<close> (\<open>graph-node/src/server.ts\<close>): ingestion, the two caches, and the handler of a context's graph as two steps
    around its await; when a cached graph is current and when not. \<open>Service_Cases\<close>: runs of the service.
  \<^item> \<open>Graph_Walks\<close>, \<open>Graph_Queries\<close> (\<open>server.ts\<close>): traces and chains, nodes, transactions, sessions and activity maps, and what
    their responses show of the store. \<open>Walk_Cases\<close>: runs of these.
  \<^item> \<open>Js_Number\<close>, \<open>Graph_Search\<close>, \<open>Calculation\<close>, \<open>Shares\<close> (\<open>verify/src/calculate.ts\<close>): numbers with infinities and NaN, breadth-first
    searches, scores, modifiers and constraints, shares of creators and their sums.
  \<^item> \<open>Body_Archive\<close> (\<open>archive-node/src/store.ts\<close>): the archive of record bodies: submissions, lookup by hash with a retention
    window, merged evidence, and the restart from its file.
  \<^item> \<open>Write_Idempotency\<close> (\<open>atribd/src/idempotency.ts\<close>): keys under which the daemon runs a write once, as a state machine over
    calls, ends of file writes and restarts; what one failed write does to all later ones.

  \<^bold>\<open>How the code is represented\<close>

  A struct is a record, a union a datatype, an exception the \<open>Inl\<close> of a result; a function that changes state
  returns the new state with its result, also when it throws. Maps keep insertion order. Bytes are
  8-bit words and timestamps in entries 64-bit words; other numbers are integers with the code's
  checks for safe integers written out, and \<open>Number\<close> of a 64-bit value rounds as a double does. The fractions of
  the calculation and the numbers in JSON values are exact: no statement about shares accounts for the
  rounding of doubles. Writes
  to files take the number of bytes each call accepts, or whether the rename happens, as arguments, so
  that every statement holds for every crash point they describe. Concurrency is the interleaving of
  steps between awaits; requests that the code runs in parallel are made in the order of their results.
  Of the graph service only the handler of a context's graph, whose result is cached, is cut at its
  await (\<open>graph_begin\<close>, \<open>graph_end\<close>); the other handlers build a graph in one step, from the store of that time.

  SHA-256, Ed25519, JSON canonicalisation, printing and parsing, locale comparison, \<open>Date.parse\<close>, \<open>Math.pow(2, _)\<close> and
  the network are arguments. The statements name what they need of them: digests of 32 bytes, signatures that verify, no collision
  among the strings hashed, a canonicaliser that returns a value. Every such statement is accompanied
  by an instance with concrete functions.

  Recursion ends in most definitions by their form: over lists, or with a measure where the code loops on
  sizes (the durable write, the walks of the Merkle functions, UTF-8 decoding). Two loops may run for
  ever, and are partial functions: making room in the submission queue, which hangs for a cap below one
  and otherwise ends (\<open>queue_hangs_iff\<close>), and the walk to the root of a chain component, which ends on every
  forest that the code builds (\<open>graph_derivation_returns\<close>). The counters of the other loops are the code's own:
  passes of the cap (as many as entries and one), hops of a trace or chain (at most 20). No fuel is added.

  \<^bold>\<open>What is not modelled\<close>

  HTTP framing, the patterns of the routes, static assets, statistics and watchdogs, process start-up
  (input and output); the key directory, generated from a Rust library, and identity resolution over
  it; the routes of the archive node and the hosting of protocol servers by the daemon; recall and summaries;
  command lines, adapters and examples for third-party services.
\<close>

end
